(* ===== verification/Prelude.thy ===== *)
theory Prelude
  imports Main "HOL-Library.Word" "HOL-Library.Monad_Syntax"
begin

unbundle bit_operations_syntax

text \<open>
  Shared vocabulary of the development: the C integer types as fixed-width words, the byte
  memory they are loaded from and stored to, and the generic facts on words, address ranges
  and pages that the component theories use. Memory is a total function from 64-bit
  addresses to bytes; a range of addresses is described by a start and a length and wraps
  around at the top of the address space, as pointer arithmetic on the machine does.
\<close>

section \<open>Types\<close>

type_synonym u8 = "8 word"
type_synonym u16 = "16 word"
type_synonym u32 = "32 word"
type_synonym u64 = "64 word"
type_synonym i32 = "32 word"

type_synonym memory = "u64 \<Rightarrow> u8"

abbreviation (input) NULL :: u64 where "NULL \<equiv> 0"

named_theorems mem_simps \<open>what a load returns after a store\<close>
named_theorems range_simps \<open>membership in address ranges\<close>
named_theorems frame_simps \<open>fields an operation leaves alone\<close>

section \<open>Invariants of transition systems\<close>

text \<open>
  The contract between a step relation and a property that holds at the start and that every
  step keeps. Components instantiate it with the relation of their operations.
\<close>

locale invariant_system =
  fixes start :: "'s \<Rightarrow> bool"
    and step :: "'s \<Rightarrow> 's \<Rightarrow> bool"
    and inv :: "'s \<Rightarrow> bool"
  assumes inv_start: "start s \<Longrightarrow> inv s"
    and inv_step: "inv s \<Longrightarrow> step s t \<Longrightarrow> inv t"
begin

lemma reachable_inv_from:
  assumes "step\<^sup>*\<^sup>* s t" and "inv s"
  shows "inv t"
  using assms by (induction rule: rtranclp_induct) (auto intro: inv_step)

lemma reachable_inv: "start s \<Longrightarrow> step\<^sup>*\<^sup>* s t \<Longrightarrow> inv t"
  by (blast intro: reachable_inv_from inv_start)

end

section \<open>Address ranges\<close>

definition in_range :: "u64 \<Rightarrow> nat \<Rightarrow> u64 \<Rightarrow> bool" where
  "in_range a n x \<longleftrightarrow> unat (x - a) < n"

definition disjoint_ranges :: "u64 \<Rightarrow> nat \<Rightarrow> u64 \<Rightarrow> nat \<Rightarrow> bool" where
  "disjoint_ranges a n b k \<longleftrightarrow> (\<forall>x. \<not> (in_range a n x \<and> in_range b k x))"

section \<open>Little-endian loads and stores\<close>

fun load_le :: "nat \<Rightarrow> memory \<Rightarrow> u64 \<Rightarrow> 'a::len word" where
  "load_le 0 m a = 0"
| "load_le (Suc n) m a = ucast (m a) OR push_bit 8 (load_le n m (a + 1))"

fun store_le :: "nat \<Rightarrow> memory \<Rightarrow> u64 \<Rightarrow> 'a::len word \<Rightarrow> memory" where
  "store_le 0 m a v = m"
| "store_le (Suc n) m a v = store_le n (m(a := ucast v)) (a + 1) (drop_bit 8 v)"

definition load64 :: "memory \<Rightarrow> u64 \<Rightarrow> u64" where
  "load64 m a = load_le 8 m a"

definition store64 :: "memory \<Rightarrow> u64 \<Rightarrow> u64 \<Rightarrow> memory" where
  "store64 m a v = store_le 8 m a v"

definition load32 :: "memory \<Rightarrow> u64 \<Rightarrow> u32" where
  "load32 m a = load_le 4 m a"

definition load16 :: "memory \<Rightarrow> u64 \<Rightarrow> u16" where
  "load16 m a = load_le 2 m a"

section \<open>Generic facts on words\<close>

lemma unat_add_no_wrap:
  fixes a b :: "'a::len word"
  shows "unat a + unat b < 2 ^ LENGTH('a) \<Longrightarrow> unat (a + b) = unat a + unat b"
  by (simp add: unat_word_ariths)

lemma unat_of_nat_small [simp]:
  "n < 2 ^ LENGTH('a) \<Longrightarrow> unat (of_nat n :: 'a::len word) = n"
  by (simp add: unat_of_nat)

lemma unat_diff_le:
  fixes a b :: "'a::len word"
  shows "a \<le> b \<Longrightarrow> unat (b - a) = unat b - unat a"
  by (simp add: unat_sub word_le_nat_alt)

lemma in_range_nat:
  "unat a + n \<le> 2 ^ 64 \<Longrightarrow> in_range a n x \<longleftrightarrow> unat a \<le> unat x \<and> unat x < unat a + n"
proof -
  assume n: "unat a + n \<le> 2 ^ 64"
  have x: "unat x < 2 ^ 64" using unsigned_less [of x] by simp
  show ?thesis
  proof (cases "a \<le> x")
    case True
    then have "unat a \<le> unat x" by (simp add: word_le_nat_alt)
    with True show ?thesis by (auto simp: in_range_def unat_diff_le)
  next
    case False
    then have "unat x < unat a" by (simp add: word_le_nat_alt not_le)
    moreover from this have "unat (x - a) = unat x + 2 ^ 64 - unat a"
      by (simp add: unat_sub_if')
    ultimately show ?thesis using n by (auto simp: in_range_def)
  qed
qed

lemma in_range_sub: "unat k + n \<le> m \<Longrightarrow> m < 2 ^ 64 \<Longrightarrow> in_range (a + k) n x \<Longrightarrow> in_range a m x"
proof -
  assume k: "unat k + n \<le> m" "m < 2 ^ 64" and x: "in_range (a + k) n x"
  have "unat (x - a) = unat (x - (a + k) + k)" by simp
  also have "\<dots> = unat (x - (a + k)) + unat k" using x k by (intro unat_add_no_wrap) (simp add: in_range_def)
  finally show ?thesis using x k by (simp add: in_range_def)
qed

lemma in_range_start: "0 < n \<Longrightarrow> in_range a n a"
  by (simp add: in_range_def)

lemma in_range_offset: "unat k < n \<Longrightarrow> in_range a n (a + k)"
  by (simp add: in_range_def)

lemma unat_diff_succ: "x \<noteq> a \<Longrightarrow> Suc (unat (x - (a + 1))) = unat (x - a)" for x a :: u64
proof -
  assume "x \<noteq> a"
  then have nz: "x - a \<noteq> 0" by simp
  have "x - (a + 1) = x - a - 1" by (simp only: diff_diff_eq)
  then have "unat (x - (a + 1)) = unat (x - a) - 1" by (simp only: unat_minus_one [OF nz])
  moreover have "0 < unat (x - a)" using nz by (simp add: unat_gt_0)
  ultimately show ?thesis by simp
qed

lemma in_range_Suc: "in_range a (Suc n) x \<longleftrightarrow> x = a \<or> in_range (a + 1) n x"
  using unat_diff_succ [of x a] by (cases "x = a") (auto simp: in_range_def)

lemma not_in_range_self_succ: "n < 2 ^ 64 \<Longrightarrow> \<not> in_range (a + 1) n a" for a :: u64
  by (simp add: in_range_def unsigned_minus_1_eq_mask mask_eq_exp_minus_1)

lemma disjoint_rangesD:
  "disjoint_ranges a n b k \<Longrightarrow> in_range a n x \<Longrightarrow> \<not> in_range b k x"
  by (auto simp: disjoint_ranges_def)

lemma disjoint_ranges_sym: "disjoint_ranges a n b k \<longleftrightarrow> disjoint_ranges b k a n"
  by (auto simp: disjoint_ranges_def)

section \<open>What loads see after stores\<close>

lemma store_le_apply:
  "n < 2 ^ 64 \<Longrightarrow>
   store_le n m a v x =
     (if in_range a n x then ucast (drop_bit (8 * unat (x - a)) v) else m x)"
proof (induction n arbitrary: m a v)
  case 0
  then show ?case by (simp add: in_range_def)
next
  case (Suc n)
  then have n: "n < 2 ^ 64" by simp
  show ?case
  proof (cases "x = a")
    case True
    with Suc n show ?thesis by (simp add: not_in_range_self_succ in_range_start)
  next
    case False
    then have "8 * unat (x - (a + 1)) + 8 = 8 * unat (x - a)"
      using unat_diff_succ [of x a] by simp
    then show ?thesis
      using False Suc n by (simp add: in_range_Suc drop_bit_drop_bit add.commute)
  qed
qed

lemma bit_load_le:
  "bit (load_le n m a :: 'a::len word) i \<longleftrightarrow>
     i < 8 * n \<and> i < LENGTH('a) \<and> bit (m (a + of_nat (i div 8))) (i mod 8)"
proof (induction n arbitrary: a i)
  case 0
  then show ?case by simp
next
  case (Suc n)
  show ?case
  proof (cases "i < 8")
    case True
    then show ?thesis by (auto simp: bit_simps)
  next
    case False
    then have d: "i div 8 = Suc ((i - 8) div 8)" and r: "i mod 8 = (i - 8) mod 8"
      by (simp_all add: le_div_geq le_mod_geq)
    have nb: "\<not> bit (m a) i" using False by (auto dest: bit_imp_le_length)
    have "a + of_nat (i div 8) = a + 1 + of_nat ((i - 8) div 8)" by (simp add: d)
    with False nb show ?thesis
      by (auto simp: bit_simps Suc.IH r add.assoc)
  qed
qed

lemma load_le_cong:
  assumes "\<And>x. in_range a n x \<Longrightarrow> m x = m' x" and "n < 2 ^ 64"
  shows "(load_le n m a :: 'a::len word) = load_le n m' a"
proof (rule bit_eqI)
  fix i
  have "in_range a n (a + of_nat (i div 8))" if "i < 8 * n"
  proof -
    have "i div 8 < n" using that by (simp add: div_less_iff_less_mult mult.commute)
    with assms(2) show ?thesis by (intro in_range_offset) simp
  qed
  with assms(1) show "bit (load_le n m a :: 'a word) i = bit (load_le n m' a :: 'a word) i"
    by (auto simp: bit_load_le)
qed

lemma load_store_le_same:
  assumes "n < 2 ^ 60"
  shows "(load_le n (store_le n m a v) a :: 'a::len word) = take_bit (8 * n) v"
proof (rule bit_eqI)
  fix i
  have in_r: "in_range a n (a + of_nat (i div 8))" and o: "unat (a + of_nat (i div 8) - a) = i div 8"
    if "i < 8 * n"
  proof -
    have k: "i div 8 < n" using that by (simp add: div_less_iff_less_mult mult.commute)
    with assms show "unat (a + of_nat (i div 8) - a) = i div 8" by simp
    with k show "in_range a n (a + of_nat (i div 8))" by (simp add: in_range_def)
  qed
  have "8 * (i div 8) + i mod 8 = i" by simp
  then show "bit (load_le n (store_le n m a v) a :: 'a word) i = bit (take_bit (8 * n) v) i"
    using in_r o assms
    by (auto simp: bit_load_le store_le_apply bit_simps dest: bit_imp_le_length)
qed

text \<open>The bytes of a load, for concrete memories.\<close>

lemma load32_bytes:
  "load32 m a = ucast (m a) OR push_bit 8 (ucast (m (a + 1)) OR push_bit 8 (ucast (m (a + 2)) OR push_bit 8 (ucast (m (a + 3)))))"
  by (simp add: load32_def eval_nat_numeral add.assoc)

lemma load64_bytes:
  "load64 m a = ucast (m a) OR push_bit 8 (ucast (m (a + 1)) OR push_bit 8 (ucast (m (a + 2)) OR push_bit 8 (ucast (m (a + 3)) OR
     push_bit 8 (ucast (m (a + 4)) OR push_bit 8 (ucast (m (a + 5)) OR push_bit 8 (ucast (m (a + 6)) OR push_bit 8 (ucast (m (a + 7)))))))))"
  by (simp add: load64_def eval_nat_numeral add.assoc)

lemma load_store_le32 [simp, mem_simps]: "load32 (store_le 4 m a v) a = v"
  by (simp add: load32_def load_store_le_same take_bit_word_eq_self)

lemma load64_store64_same [simp, mem_simps]: "load64 (store64 m a v) a = v"
  by (simp add: load64_def store64_def load_store_le_same take_bit_word_eq_self)

lemma store64_apply:
  "store64 m a v x = (if in_range a 8 x then ucast (drop_bit (8 * unat (x - a)) v) else m x)"
  by (simp add: store64_def store_le_apply)

lemma store64_other [mem_simps]: "\<not> in_range a 8 x \<Longrightarrow> store64 m a v x = m x"
  by (simp add: store64_apply)

lemma load64_cong:
  "(\<And>x. in_range a 8 x \<Longrightarrow> m x = m' x) \<Longrightarrow> load64 m a = load64 m' a"
  unfolding load64_def by (rule load_le_cong) simp_all

lemma load64_store64_disjoint [mem_simps]:
  "disjoint_ranges a 8 b 8 \<Longrightarrow> load64 (store64 m a v) b = load64 m b"
  by (rule load64_cong) (metis store64_other disjoint_rangesD)

section \<open>Pages\<close>

text \<open>
  A page is 4096 bytes. \<open>page_no\<close> is the number of the page an address lies in; two
  addresses share a page exactly when their page numbers agree. Page-table entries and
  stack slots are eight-byte words at multiples of eight, so a slot never crosses a page.
\<close>

definition page_no :: "u64 \<Rightarrow> nat" where
  "page_no a = unat a div 4096"

definition page_aligned :: "u64 \<Rightarrow> bool" where
  "page_aligned a \<longleftrightarrow> 4096 dvd unat a"

definition slot_aligned :: "u64 \<Rightarrow> bool" where
  "slot_aligned a \<longleftrightarrow> 8 dvd unat a"

lemma unat_u64_less: "unat (a :: u64) < 18446744073709551616"
  using unsigned_less [of a] by simp

lemma unat_u8_less: "unat (a :: u8) < 256"
  using unsigned_less [of a] by simp

lemma page_aligned_bound: "page_aligned a \<Longrightarrow> unat a + 4096 \<le> 18446744073709551616"
  using unat_u64_less [of a] by (auto simp: page_aligned_def)

lemma slot_aligned_bound: "slot_aligned a \<Longrightarrow> unat a + 8 \<le> 18446744073709551616"
  using unat_u64_less [of a] by (auto simp: slot_aligned_def)

lemma page_aligned_0 [simp]: "page_aligned 0"
  by (simp add: page_aligned_def)

lemma page_aligned_slot [simp]: "page_aligned a \<Longrightarrow> slot_aligned a"
  unfolding page_aligned_def slot_aligned_def by (rule dvd_trans [of 8 4096]) simp_all

lemma in_page [range_simps]: "page_aligned a \<Longrightarrow> in_range a 4096 x \<longleftrightarrow> page_no x = page_no a"
  using page_aligned_bound [of a]
  by (auto simp: in_range_nat page_no_def page_aligned_def)

lemma page_no_inj: "page_aligned a \<Longrightarrow> page_aligned b \<Longrightarrow> page_no a = page_no b \<longleftrightarrow> a = b"
  by (auto simp: page_no_def page_aligned_def word_unat_eq_iff)

lemma page_aligned_add: "page_aligned a \<Longrightarrow> page_aligned b \<Longrightarrow> page_aligned (a + b)"
  by (auto simp: page_aligned_def unat_word_ariths dvd_mod_iff)

lemma page_aligned_mult [simp]: "page_aligned (4096 * k)" "page_aligned (k * 4096)"
  by (simp_all add: page_aligned_def unat_word_ariths dvd_mod_iff)

lemma page_aligned_diff: "page_aligned a \<Longrightarrow> page_aligned b \<Longrightarrow> page_aligned (a - b)"
  by (auto simp: page_aligned_def unat_sub_if' dvd_mod_iff)

lemma slot_in_page [range_simps]: "slot_aligned a \<Longrightarrow> in_range a 8 x \<Longrightarrow> page_no x = page_no a"
  using slot_aligned_bound [of a]
  by (auto simp: in_range_nat page_no_def slot_aligned_def)

lemma slots_disjoint:
  "slot_aligned a \<Longrightarrow> slot_aligned b \<Longrightarrow> a \<noteq> b \<Longrightarrow> disjoint_ranges a 8 b 8"
  using slot_aligned_bound [of a] slot_aligned_bound [of b]
  by (auto simp: disjoint_ranges_def in_range_nat slot_aligned_def word_unat_eq_iff elim!: dvdE)

lemma load64_store64_slot [mem_simps]:
  "slot_aligned a \<Longrightarrow> slot_aligned b \<Longrightarrow>
   load64 (store64 m a v) b = (if a = b then v else load64 m b)"
  by (simp add: load64_store64_disjoint slots_disjoint)

lemma store64_other_page: "slot_aligned a \<Longrightarrow> page_no x \<noteq> page_no a \<Longrightarrow> store64 m a v x = m x"
  by (auto simp: store64_apply dest: slot_in_page)

lemma load64_page_cong:
  "slot_aligned a \<Longrightarrow> (\<And>x. page_no x = page_no a \<Longrightarrow> m x = m' x) \<Longrightarrow> load64 m a = load64 m' a"
  by (rule load64_cong) (auto dest: slot_in_page)

text \<open>The slot with index \<open>i\<close> of a table that fills one page.\<close>

lemma unat_table_slot:
  "page_aligned p \<Longrightarrow> unat i < 512 \<Longrightarrow> unat (p + 8 * i) = unat p + 8 * unat i"
  using page_aligned_bound [of p] by (simp add: unat_word_ariths)

lemma slot_aligned_table [simp]: "page_aligned p \<Longrightarrow> unat i < 512 \<Longrightarrow> slot_aligned (p + 8 * i)"
  using page_aligned_slot [of p] by (simp add: slot_aligned_def unat_table_slot)

lemma page_no_table [simp]: "page_aligned p \<Longrightarrow> unat i < 512 \<Longrightarrow> page_no (p + 8 * i) = page_no p"
  by (auto simp: page_no_def unat_table_slot page_aligned_def)

lemma table_slot_eq:
  "page_aligned p \<Longrightarrow> page_aligned q \<Longrightarrow> unat i < 512 \<Longrightarrow> unat j < 512 \<Longrightarrow>
   p + 8 * i = q + 8 * j \<longleftrightarrow> p = q \<and> i = j"
  by (metis page_no_inj page_no_table add_left_cancel unat_table_slot word_unat_eq_iff
      nat_mult_eq_cancel_disj zero_neq_numeral)

end
