(* ===== verification/Machine.thy ===== *)
theory Machine
  imports Prelude
begin

text \<open>
  The hardware the kernel runs on, as far as its C code sees it: the memory the code
  dereferences, the offset of the higher-half direct map that the boot loader reports, the
  interrupt flag and the port bus. Port accesses are kept as a trace of events. What a device answers to a read
  is the field \<open>io_dev\<close>, an arbitrary function of the whole history and the port: devices
  are not code of the repository, so every theorem that reads a port holds for all of them
  or names what it needs of them. The port primitives are those of
  \<^verbatim>\<open>kernel/src/dev/serial.c\<close>. Every later component extends this record by its own global
  variables.
\<close>

section \<open>State\<close>

datatype io_event =
    Outb u16 u8 | Outw u16 u16 | Outl u16 u32
  | Inb u16 u8 | Inw u16 u16 | Inl u16 u32

record machine =
  mem :: memory
  hhdm_offset :: u64
  int_flag :: bool
  io_trace :: "io_event list"
  io_dev :: "io_event list \<Rightarrow> u16 \<Rightarrow> u32"

section \<open>Interrupt flag, port input and output\<close>

definition cli :: "'a machine_scheme \<Rightarrow> 'a machine_scheme" where
  "cli s = s\<lparr>int_flag := False\<rparr>"

definition sti :: "'a machine_scheme \<Rightarrow> 'a machine_scheme" where
  "sti s = s\<lparr>int_flag := True\<rparr>"

definition outb :: "u16 \<Rightarrow> u8 \<Rightarrow> 'a machine_scheme \<Rightarrow> 'a machine_scheme" where
  "outb port value s = s\<lparr>io_trace := io_trace s @ [Outb port value]\<rparr>"

definition outw :: "u16 \<Rightarrow> u16 \<Rightarrow> 'a machine_scheme \<Rightarrow> 'a machine_scheme" where
  "outw port value s = s\<lparr>io_trace := io_trace s @ [Outw port value]\<rparr>"

definition outl :: "u16 \<Rightarrow> u32 \<Rightarrow> 'a machine_scheme \<Rightarrow> 'a machine_scheme" where
  "outl port value s = s\<lparr>io_trace := io_trace s @ [Outl port value]\<rparr>"

definition inb :: "u16 \<Rightarrow> 'a machine_scheme \<Rightarrow> u8 \<times> 'a machine_scheme" where
  "inb port s =
     (let ret = ucast (io_dev s (io_trace s) port)
      in (ret, s\<lparr>io_trace := io_trace s @ [Inb port ret]\<rparr>))"

definition inw :: "u16 \<Rightarrow> 'a machine_scheme \<Rightarrow> u16 \<times> 'a machine_scheme" where
  "inw port s =
     (let ret = ucast (io_dev s (io_trace s) port)
      in (ret, s\<lparr>io_trace := io_trace s @ [Inw port ret]\<rparr>))"

definition inl :: "u16 \<Rightarrow> 'a machine_scheme \<Rightarrow> u32 \<times> 'a machine_scheme" where
  "inl port s =
     (let ret = io_dev s (io_trace s) port
      in (ret, s\<lparr>io_trace := io_trace s @ [Inl port ret]\<rparr>))"

definition io_wait :: "'a machine_scheme \<Rightarrow> 'a machine_scheme" where
  "io_wait s = outb 0x80 0 s"

section \<open>What the trace shows\<close>

text \<open>The byte last written to a port.\<close>

fun last_out :: "u16 \<Rightarrow> io_event list \<Rightarrow> u8 option" where
  "last_out p [] = None"
| "last_out p (e # es) =
     (case last_out p es of
        Some v \<Rightarrow> Some v
      | None \<Rightarrow> (case e of Outb q v \<Rightarrow> if q = p then Some v else None | _ \<Rightarrow> None))"

lemma last_out_append:
  "last_out p (xs @ ys) = (case last_out p ys of Some v \<Rightarrow> Some v | None \<Rightarrow> last_out p xs)"
  by (induction xs) (auto split: option.splits)

section \<open>Frame facts\<close>

lemma outb_frame [simp, frame_simps]:
  "mem (outb p v s) = mem s" "hhdm_offset (outb p v s) = hhdm_offset s"
  "int_flag (outb p v s) = int_flag s" "io_dev (outb p v s) = io_dev s"
  "io_trace (outb p v s) = io_trace s @ [Outb p v]"
  by (simp_all add: outb_def)

lemma io_wait_frame [simp, frame_simps]:
  "mem (io_wait s) = mem s" "hhdm_offset (io_wait s) = hhdm_offset s"
  "int_flag (io_wait s) = int_flag s" "io_dev (io_wait s) = io_dev s"
  "io_trace (io_wait s) = io_trace s @ [Outb 0x80 0]"
  by (simp_all add: io_wait_def)

lemma inb_frame [simp, frame_simps]:
  "mem (snd (inb p s)) = mem s" "hhdm_offset (snd (inb p s)) = hhdm_offset s"
  "int_flag (snd (inb p s)) = int_flag s" "io_dev (snd (inb p s)) = io_dev s"
  "io_trace (snd (inb p s)) = io_trace s @ [Inb p (fst (inb p s))]"
  by (simp_all add: inb_def Let_def)

lemma interrupt_flag_frame [simp, frame_simps]:
  "mem (cli s) = mem s" "io_trace (cli s) = io_trace s" "io_dev (cli s) = io_dev s" "\<not> int_flag (cli s)"
  "mem (sti s) = mem s" "io_trace (sti s) = io_trace s" "io_dev (sti s) = io_dev s" "int_flag (sti s)"
  by (simp_all add: cli_def sti_def)

end
