(* ===== verification/CString.thy ===== *)
theory CString
  imports Prelude "HOL-Library.Signed_Division"
begin

text \<open>
  The freestanding string library, \<^verbatim>\<open>kernel/src/lib/string.c\<close>, on the byte memory. Functions
  that count down a length are primitive recursive on it. Functions that run to a terminating
  NUL are partial functions into \<open>option\<close>: \<open>None\<close> is the run that never ends because memory
  holds no terminator, and \<open>cstr m s cs\<close> says that the bytes \<open>cs\<close> and a NUL lie at \<open>s\<close>, which
  makes every one of them return. A function that returns its destination returns the pair of
  the new memory and that pointer; the static variable of \<open>strtok\<close> is an argument and a result.
  \<open>strdup\<close> and \<open>strndup\<close> need the allocator and are not here.
\<close>

section \<open>Memory functions\<close>

fun memcpy_loop :: "memory \<Rightarrow> u64 \<Rightarrow> u64 \<Rightarrow> nat \<Rightarrow> memory" where
  "memcpy_loop m d s 0 = m"
| "memcpy_loop m d s (Suc n) = memcpy_loop (m(d := m s)) (d + 1) (s + 1) n"

definition memcpy :: "memory \<Rightarrow> u64 \<Rightarrow> u64 \<Rightarrow> u64 \<Rightarrow> memory \<times> u64" where
  "memcpy m dest src n = (memcpy_loop m dest src (unat n), dest)"

fun memset_loop :: "memory \<Rightarrow> u64 \<Rightarrow> u8 \<Rightarrow> nat \<Rightarrow> memory" where
  "memset_loop m p c 0 = m"
| "memset_loop m p c (Suc n) = memset_loop (m(p := c)) (p + 1) c n"

definition memset :: "memory \<Rightarrow> u64 \<Rightarrow> i32 \<Rightarrow> u64 \<Rightarrow> memory \<times> u64" where
  "memset m s c n = (memset_loop m s (ucast c) (unat n), s)"

fun memmove_down :: "memory \<Rightarrow> u64 \<Rightarrow> u64 \<Rightarrow> nat \<Rightarrow> memory" where
  "memmove_down m d s 0 = m"
| "memmove_down m d s (Suc n) =
     (let d' = d - 1; s' = s - 1 in memmove_down (m(d' := m s')) d' s' n)"

definition memmove :: "memory \<Rightarrow> u64 \<Rightarrow> u64 \<Rightarrow> u64 \<Rightarrow> memory \<times> u64" where
  "memmove m dest src n =
     (if dest < src then (memcpy_loop m dest src (unat n), dest)
      else (memmove_down m (dest + n) (src + n) (unat n), dest))"

fun memcmp_loop :: "memory \<Rightarrow> u64 \<Rightarrow> u64 \<Rightarrow> nat \<Rightarrow> int" where
  "memcmp_loop m p1 p2 0 = 0"
| "memcmp_loop m p1 p2 (Suc n) =
     (if m p1 \<noteq> m p2 then (if m p1 < m p2 then -1 else 1)
      else memcmp_loop m (p1 + 1) (p2 + 1) n)"

definition memcmp :: "memory \<Rightarrow> u64 \<Rightarrow> u64 \<Rightarrow> u64 \<Rightarrow> int" where
  "memcmp m s1 s2 n = memcmp_loop m s1 s2 (unat n)"

section \<open>String functions\<close>

partial_function (option) strcpy_loop :: "memory \<Rightarrow> u64 \<Rightarrow> u64 \<Rightarrow> memory option" where
  "strcpy_loop m d src =
     (let c = m src; m' = m(d := c)
      in if c = 0 then Some m' else strcpy_loop m' (d + 1) (src + 1))"

definition strcpy :: "memory \<Rightarrow> u64 \<Rightarrow> u64 \<Rightarrow> (memory \<times> u64) option" where
  "strcpy m dest src = map_option (\<lambda>m'. (m', dest)) (strcpy_loop m dest src)"

text \<open>The copying loop of \<open>strncpy\<close> returns the count it leaves, the memory and \<open>d\<close>.\<close>

fun strncpy_copy :: "memory \<Rightarrow> u64 \<Rightarrow> u64 \<Rightarrow> nat \<Rightarrow> nat \<times> memory \<times> u64" where
  "strncpy_copy m d src 0 = (0, m, d)"
| "strncpy_copy m d src (Suc n) =
     (let c = m src; m' = m(d := c)
      in if c = 0 then (Suc n, m', d + 1) else strncpy_copy m' (d + 1) (src + 1) n)"

definition strncpy :: "memory \<Rightarrow> u64 \<Rightarrow> u64 \<Rightarrow> u64 \<Rightarrow> memory \<times> u64" where
  "strncpy m dest src n =
     (case strncpy_copy m dest src (unat n) of
        (k, m', d) \<Rightarrow> (memset_loop m' d 0 k, dest))"

partial_function (option) find_nul :: "memory \<Rightarrow> u64 \<Rightarrow> u64 option" where
  "find_nul m p = (if m p = 0 then Some p else find_nul m (p + 1))"

definition strcat :: "memory \<Rightarrow> u64 \<Rightarrow> u64 \<Rightarrow> (memory \<times> u64) option" where
  "strcat m dest src =
     do { d \<leftarrow> find_nul m dest; m' \<leftarrow> strcpy_loop m d src; Some (m', dest) }"

fun strncat_copy :: "memory \<Rightarrow> u64 \<Rightarrow> u64 \<Rightarrow> nat \<Rightarrow> memory \<times> u64" where
  "strncat_copy m d src 0 = (m, d)"
| "strncat_copy m d src (Suc n) =
     (let c = m src; m' = m(d := c)
      in if c = 0 then (m', d + 1) else strncat_copy m' (d + 1) (src + 1) n)"

definition strncat :: "memory \<Rightarrow> u64 \<Rightarrow> u64 \<Rightarrow> u64 \<Rightarrow> (memory \<times> u64) option" where
  "strncat m dest src n =
     do { d \<leftarrow> find_nul m dest;
          let (m', d') = strncat_copy m d src (unat n);
          Some (m'(d' := 0), dest) }"

definition strlen :: "memory \<Rightarrow> u64 \<Rightarrow> u64 option" where
  "strlen m s = map_option (\<lambda>p. p - s) (find_nul m s)"

partial_function (option) strcmp :: "memory \<Rightarrow> u64 \<Rightarrow> u64 \<Rightarrow> int option" where
  "strcmp m s1 s2 =
     (if m s1 \<noteq> 0 \<and> m s1 = m s2 then strcmp m (s1 + 1) (s2 + 1)
      else Some (uint (m s1) - uint (m s2)))"

fun strncmp_loop :: "memory \<Rightarrow> u64 \<Rightarrow> u64 \<Rightarrow> nat \<Rightarrow> int" where
  "strncmp_loop m s1 s2 0 = 0"
| "strncmp_loop m s1 s2 (Suc n) =
     (if m s1 \<noteq> 0 \<and> m s1 = m s2 then strncmp_loop m (s1 + 1) (s2 + 1) n
      else uint (m s1) - uint (m s2))"

definition strncmp :: "memory \<Rightarrow> u64 \<Rightarrow> u64 \<Rightarrow> u64 \<Rightarrow> int" where
  "strncmp m s1 s2 n = strncmp_loop m s1 s2 (unat n)"

partial_function (option) strchr_loop :: "memory \<Rightarrow> u64 \<Rightarrow> u8 \<Rightarrow> u64 option" where
  "strchr_loop m s c =
     (if m s = 0 then Some NULL else if m s = c then Some s else strchr_loop m (s + 1) c)"

definition strchr :: "memory \<Rightarrow> u64 \<Rightarrow> i32 \<Rightarrow> u64 option" where
  "strchr m s c = strchr_loop m s (ucast c)"

partial_function (option) strrchr_loop :: "memory \<Rightarrow> u64 \<Rightarrow> u8 \<Rightarrow> u64 \<Rightarrow> u64 option" where
  "strrchr_loop m s c found =
     (if m s = 0 then Some found
      else strrchr_loop m (s + 1) c (if m s = c then s else found))"

definition strrchr :: "memory \<Rightarrow> u64 \<Rightarrow> i32 \<Rightarrow> u64 option" where
  "strrchr m s c = strrchr_loop m s (ucast c) NULL"

text \<open>
  The inner loop that \<open>strcspn\<close>, \<open>strspn\<close> and \<open>strpbrk\<close> share: does the byte occur in the
  string at \<open>p\<close>?
\<close>

partial_function (option) scan_set :: "memory \<Rightarrow> u8 \<Rightarrow> u64 \<Rightarrow> bool option" where
  "scan_set m c p =
     (if m p = 0 then Some False else if c = m p then Some True else scan_set m c (p + 1))"

partial_function (option) strcspn_loop :: "memory \<Rightarrow> u64 \<Rightarrow> u64 \<Rightarrow> u64 \<Rightarrow> u64 option" where
  "strcspn_loop m s reject count =
     (if m s = 0 then Some count
      else do { hit \<leftarrow> scan_set m (m s) reject;
                if hit then Some count else strcspn_loop m (s + 1) reject (count + 1) })"

definition strcspn :: "memory \<Rightarrow> u64 \<Rightarrow> u64 \<Rightarrow> u64 option" where
  "strcspn m s reject = strcspn_loop m s reject 0"

partial_function (option) strspn_loop :: "memory \<Rightarrow> u64 \<Rightarrow> u64 \<Rightarrow> u64 \<Rightarrow> u64 option" where
  "strspn_loop m s accept count =
     (if m s = 0 then Some count
      else do { hit \<leftarrow> scan_set m (m s) accept;
                if hit then strspn_loop m (s + 1) accept (count + 1) else Some count })"

definition strspn :: "memory \<Rightarrow> u64 \<Rightarrow> u64 \<Rightarrow> u64 option" where
  "strspn m s accept = strspn_loop m s accept 0"

partial_function (option) strpbrk :: "memory \<Rightarrow> u64 \<Rightarrow> u64 \<Rightarrow> u64 option" where
  "strpbrk m s accept =
     (if m s = 0 then Some NULL
      else do { hit \<leftarrow> scan_set m (m s) accept;
                if hit then Some s else strpbrk m (s + 1) accept })"

partial_function (option) strstr_match :: "memory \<Rightarrow> u64 \<Rightarrow> u64 \<Rightarrow> bool option" where
  "strstr_match m h n =
     (if m h \<noteq> 0 \<and> m n \<noteq> 0 \<and> m h = m n then strstr_match m (h + 1) (n + 1)
      else Some (m n = 0))"

partial_function (option) strstr_loop :: "memory \<Rightarrow> u64 \<Rightarrow> u64 \<Rightarrow> u64 option" where
  "strstr_loop m haystack needle =
     (if m haystack = 0 then Some NULL
      else do { hit \<leftarrow> strstr_match m haystack needle;
                if hit then Some haystack else strstr_loop m (haystack + 1) needle })"

definition strstr :: "memory \<Rightarrow> u64 \<Rightarrow> u64 \<Rightarrow> u64 option" where
  "strstr m haystack needle =
     (if m needle = 0 then Some haystack else strstr_loop m haystack needle)"

text \<open>\<open>strtok\<close> returns the token, the memory with the delimiter overwritten, and \<open>last\<close>.\<close>

definition strtok :: "memory \<Rightarrow> u64 \<Rightarrow> u64 \<Rightarrow> u64 \<Rightarrow> (u64 \<times> memory \<times> u64) option" where
  "strtok m saved str delim =
     (let str = (if str = NULL then saved else str)
      in if str = NULL then Some (NULL, m, saved)
         else do { skip \<leftarrow> strspn m str delim;
                   let str = str + skip;
                   if m str = 0 then Some (NULL, m, saved)
                   else do { len \<leftarrow> strcspn m str delim;
                             let stop = str + len;
                             if m stop \<noteq> 0 then Some (str, m(stop := 0), stop + 1)
                             else Some (str, m, stop) } })"

section \<open>Number parsing\<close>

abbreviation (input) LONG_MAX :: int where "LONG_MAX \<equiv> 2 ^ 63 - 1"
abbreviation (input) LONG_MIN :: int where "LONG_MIN \<equiv> - (2 ^ 63)"

partial_function (option) strtol_ws :: "memory \<Rightarrow> u64 \<Rightarrow> u64 option" where
  "strtol_ws m s =
     (if m s \<in> {0x20, 0x09, 0x0A, 0x0D, 0x0C, 0x0B} then strtol_ws m (s + 1) else Some s)"

definition strtol_digit :: "u8 \<Rightarrow> int option" where
  "strtol_digit c =
     (if 0x30 \<le> c \<and> c \<le> 0x39 then Some (uint c - 0x30)
      else if 0x61 \<le> c \<and> c \<le> 0x7A then Some (uint c - 0x61 + 10)
      else if 0x41 \<le> c \<and> c \<le> 0x5A then Some (uint c - 0x41 + 10)
      else None)"

partial_function (option) strtol_loop ::
  "memory \<Rightarrow> u64 \<Rightarrow> int \<Rightarrow> int \<Rightarrow> int \<Rightarrow> int \<Rightarrow> int \<Rightarrow> (int \<times> u64) option" where
  "strtol_loop m s base sign cutoff cutlim result =
     (if m s = 0 then Some (result * sign, s)
      else case strtol_digit (m s) of
        None \<Rightarrow> Some (result * sign, s)
      | Some digit \<Rightarrow>
          (if base \<le> digit then Some (result * sign, s)
           else if cutoff < result \<or> result = cutoff \<and> cutlim < digit
           then Some (if sign = 1 then LONG_MAX else LONG_MIN, s)
           else strtol_loop m (s + 1) base sign cutoff cutlim (result * base + digit)))"

definition strtol :: "memory \<Rightarrow> u64 \<Rightarrow> int \<Rightarrow> (int \<times> u64) option" where
  "strtol m str base =
     do { s \<leftarrow> strtol_ws m str;
          let (sign, s) =
            (if m s = 0x2D then (- 1, s + 1) else if m s = 0x2B then (1, s + 1) else (1, s));
          let (base, s) =
            (if base = 0
             then (if m s = 0x30
                   then (if m (s + 1) = 0x78 \<or> m (s + 1) = 0x58 then (16, s + 2) else (8, s + 1))
                   else (10, s))
             else if base = 16 \<and> m s = 0x30 \<and> (m (s + 1) = 0x78 \<or> m (s + 1) = 0x58)
             then (base, s + 2) else (base, s));
          strtol_loop m s base sign (LONG_MAX sdiv base) (LONG_MAX smod base) 0 }"

section \<open>Memory functions: what they compute\<close>

lemma memset_loop_apply:
  "n \<le> 2 ^ 64 \<Longrightarrow> memset_loop m p c n x = (if in_range p n x then c else m x)"
proof (induction n arbitrary: m p)
  case 0
  then show ?case by (simp add: in_range_def)
next
  case (Suc n)
  then show ?case by (simp add: in_range_Suc not_in_range_self_succ)
qed

lemma disjoint_ranges_Suc:
  assumes "disjoint_ranges a (Suc n) b (Suc k)"
  shows "disjoint_ranges (a + 1) n (b + 1) k"
  using assms by (simp add: disjoint_ranges_def in_range_Suc) blast

lemma shift_succ: "s + 1 + (x - (d + 1)) = s + (x - d)" for s x d :: u64
  by simp

lemma memcpy_loop_apply:
  "n \<le> 2 ^ 64 \<Longrightarrow> disjoint_ranges d n s n \<Longrightarrow>
   memcpy_loop m d s n x = (if in_range d n x then m (s + (x - d)) else m x)"
proof (induction n arbitrary: m d s)
  case 0
  then show ?case by (simp add: in_range_def)
next
  case (Suc n)
  have IH: "memcpy_loop (m(d := m s)) (d + 1) (s + 1) n x =
      (if in_range (d + 1) n x then (m(d := m s)) (s + (x - d)) else (m(d := m s)) x)"
    using Suc.IH [of "d + 1" "s + 1"] Suc.prems disjoint_ranges_Suc [of d n s n]
    by (simp add: shift_succ)
  have "in_range s (Suc n) (s + (x - d))" if "in_range d (Suc n) x"
    using that by (simp add: in_range_def)
  moreover have "\<not> in_range s (Suc n) d"
    using Suc.prems(2) by (rule disjoint_rangesD) (simp add: in_range_def)
  ultimately have "s + (x - d) \<noteq> d" if "in_range d (Suc n) x" using that by metis
  then show ?case using IH by (auto simp: in_range_Suc)
qed

lemma memcpy_loop_up:
  "n \<le> 2 ^ 64 \<Longrightarrow> d < s \<Longrightarrow> unat s + n \<le> 2 ^ 64 \<Longrightarrow>
   memcpy_loop m d s n x = (if in_range d n x then m (s + (x - d)) else m x)"
proof (induction n arbitrary: m d s)
  case 0
  then show ?case by (simp add: in_range_def)
next
  case (Suc n)
  have ds: "unat d < unat s" using Suc.prems(2) by (simp add: word_less_nat_alt)
  have "s + (x - d) \<noteq> d" if r: "in_range d (Suc n) x"
  proof -
    have "unat (s + (x - d)) = unat s + unat (x - d)"
      using r Suc.prems(3) by (intro unat_add_no_wrap) (simp add: in_range_def)
    with ds show ?thesis by (auto simp: word_unat_eq_iff)
  qed
  moreover have "memcpy_loop (m(d := m s)) (d + 1) (s + 1) n x =
      (if in_range (d + 1) n x then (m(d := m s)) (s + (x - d)) else (m(d := m s)) x)"
  proof (cases "n = 0")
    case True
    then show ?thesis by (simp add: in_range_def)
  next
    case False
    then have "unat (s + 1) = unat s + 1" and "unat (d + 1) = unat d + 1"
      using Suc.prems(3) ds by (simp_all add: unat_word_ariths)
    then show ?thesis
      using Suc.IH [of "d + 1" "s + 1"] Suc.prems ds
      by (simp add: shift_succ word_less_nat_alt)
  qed
  ultimately show ?case by (auto simp: in_range_Suc)
qed

lemma in_range_Suc_last:
  "n < 2 ^ 64 \<Longrightarrow> in_range a (Suc n) x \<longleftrightarrow> x = a + of_nat n \<or> in_range a n x"
proof -
  assume n: "n < 2 ^ 64"
  have "unat (x - a) = n \<longleftrightarrow> x = a + of_nat n"
  proof
    assume "unat (x - a) = n"
    with n have "x - a = of_nat n" by (simp add: word_unat_eq_iff)
    then show "x = a + of_nat n" by (simp add: algebra_simps)
  next
    assume "x = a + of_nat n"
    then have "x - a = of_nat n" by simp
    with n show "unat (x - a) = n" by (simp only: unat_of_nat_small) simp
  qed
  then show ?thesis by (auto simp: in_range_def)
qed

lemma memmove_down_apply:
  "n \<le> 2 ^ 64 \<Longrightarrow> s \<le> d \<Longrightarrow> unat d + n \<le> 2 ^ 64 \<Longrightarrow>
   memmove_down m (d + of_nat n) (s + of_nat n) n x =
     (if in_range d n x then m (s + (x - d)) else m x)"
proof (induction n arbitrary: m)
  case 0
  then show ?case by (simp add: in_range_def)
next
  case (Suc n)
  define e where "e = d + of_nat n"
  define f where "f = s + of_nat n"
  have n: "n < 2 ^ 64" using Suc.prems(1) by simp
  have sd: "unat s \<le> unat d" using Suc.prems(2) by (simp add: word_le_nat_alt)
  have ue: "unat e = unat d + n"
    using Suc.prems(3) n by (simp add: e_def unat_word_ariths)
  have uf: "unat f = unat s + n"
    using Suc.prems(3) n sd by (simp add: f_def unat_word_ariths)
  have e1: "d + of_nat (Suc n) - 1 = e" and f1: "s + of_nat (Suc n) - 1 = f"
    by (simp_all add: e_def f_def)
  have IH: "memmove_down (m(e := m f)) e f n x =
      (if in_range d n x then (m(e := m f)) (s + (x - d)) else (m(e := m f)) x)"
    using Suc by (simp add: e_def f_def)
  have "s + (x - d) \<noteq> e" if r: "in_range d n x"
  proof -
    have "unat (s + (x - d)) = unat s + unat (x - d)"
      using r Suc.prems(3) sd by (intro unat_add_no_wrap) (simp add: in_range_def)
    then have "unat (s + (x - d)) < unat e" using r sd by (simp add: in_range_def ue)
    then show ?thesis by auto
  qed
  moreover have "\<not> in_range d n e"
    using n by (simp add: e_def in_range_def)
  moreover have "s + (e - d) = f" by (simp add: e_def f_def)
  ultimately show ?case
    using IH n by (auto simp: Let_def e1 f1 in_range_Suc_last e_def [symmetric] simp del: of_nat_Suc)
qed

lemma memmove_apply:
  assumes "unat dest + unat n \<le> 2 ^ 64" and "unat src + unat n \<le> 2 ^ 64"
  shows "fst (memmove m dest src n) x =
    (if in_range dest (unat n) x then m (src + (x - dest)) else m x)"
proof -
  have n: "unat n \<le> 2 ^ 64" using unat_u64_less [of n] by simp
  show ?thesis
  proof (cases "dest < src")
    case True
    with assms n show ?thesis by (simp add: memmove_def memcpy_loop_up)
  next
    case False
    then have "src \<le> dest" by simp
    with False assms n show ?thesis
      using memmove_down_apply [of "unat n" src dest m x] by (simp add: memmove_def)
  qed
qed

lemma memcmp_loop_sgn:
  "memcmp_loop m p q n =
     (case find (\<lambda>i. m (p + of_nat i) \<noteq> m (q + of_nat i)) [0..<n] of
        None \<Rightarrow> 0
      | Some i \<Rightarrow> if m (p + of_nat i) < m (q + of_nat i) then -1 else 1)"
proof (induction n arbitrary: p q)
  case 0
  then show ?case by simp
next
  case (Suc n)
  have "[0..<Suc n] = 0 # map Suc [0..<n]"
    by (simp add: upt_conv_Cons map_Suc_upt del: upt_Suc)
  moreover have "find P (map Suc xs) = map_option Suc (find (P \<circ> Suc) xs)" for P xs
    by (induction xs) auto
  ultimately show ?case
    using Suc.IH [of "p + 1" "q + 1"]
    by (auto simp: comp_def add.assoc simp del: upt_Suc split: option.split)
qed

section \<open>C strings\<close>

fun cstr :: "memory \<Rightarrow> u64 \<Rightarrow> u8 list \<Rightarrow> bool" where
  "cstr m s [] \<longleftrightarrow> m s = 0"
| "cstr m s (c # cs) \<longleftrightarrow> m s = c \<and> c \<noteq> 0 \<and> cstr m (s + 1) cs"

lemma cstr_nonzero: "cstr m s cs \<Longrightarrow> 0 \<notin> set cs"
  by (induction cs arbitrary: s) auto

lemma cstr_nth: "cstr m s cs \<Longrightarrow> i < length cs \<Longrightarrow> m (s + of_nat i) = cs ! i"
proof (induction cs arbitrary: s i)
  case (Cons c cs)
  then show ?case by (cases i) (auto simp: add.assoc [symmetric])
qed simp

lemma cstr_end: "cstr m s cs \<Longrightarrow> m (s + of_nat (length cs)) = 0"
  by (induction cs arbitrary: s) (auto simp: add.assoc [symmetric])

lemma cstr_append:
  "cstr m s (as @ bs) \<longleftrightarrow>
     (\<forall>i < length as. m (s + of_nat i) = as ! i) \<and> 0 \<notin> set as \<and> cstr m (s + of_nat (length as)) bs"
proof (induction as arbitrary: s)
  case Nil
  then show ?case by simp
next
  case (Cons a as)
  have "(\<forall>i < length (a # as). m (s + of_nat i) = (a # as) ! i) \<longleftrightarrow>
      m s = a \<and> (\<forall>i < length as. m (s + 1 + of_nat i) = as ! i)"
    by (auto simp: less_Suc_eq_0_disj add.assoc)
  with Cons show ?case by (auto simp: add.assoc)
qed

lemma cstr_suffix: "cstr m s (as @ bs) \<Longrightarrow> cstr m (s + of_nat (length as)) bs"
  by (simp add: cstr_append)

text \<open>A terminated string is shorter than the address space.\<close>

lemma cstr_length: "cstr m s cs \<Longrightarrow> length cs < 2 ^ 64"
proof (rule ccontr)
  assume c: "cstr m s cs" and "\<not> length cs < 2 ^ 64"
  then have "2 ^ 64 \<le> length cs" by simp
  define k where "k = length cs mod 2 ^ 64"
  have "k < length cs" using \<open>2 ^ 64 \<le> length cs\<close> by (simp add: k_def order.strict_trans2 [of _ "2 ^ 64"])
  moreover have "(of_nat k :: u64) = of_nat (length cs)"
    by (simp add: k_def word_unat_eq_iff unat_of_nat)
  ultimately have "cs ! k = 0" using c cstr_nth cstr_end by metis
  then show False using c \<open>k < length cs\<close> cstr_nonzero nth_mem by metis
qed

lemma cstr_unique: "cstr m s cs \<Longrightarrow> cstr m s ds \<Longrightarrow> cs = ds"
proof (induction cs arbitrary: s ds)
  case Nil
  then show ?case by (cases ds) auto
next
  case (Cons c cs)
  then show ?case by (cases ds) auto
qed

lemma cstr_cong:
  "cstr m s cs \<Longrightarrow> (\<And>x. in_range s (Suc (length cs)) x \<Longrightarrow> m' x = m x) \<Longrightarrow> cstr m' s cs"
proof (induction cs arbitrary: s)
  case Nil
  then show ?case by (simp add: in_range_start)
next
  case (Cons c cs)
  then have "cstr m' (s + 1) cs"
    by (intro Cons.IH) (simp_all add: in_range_Suc [of s "Suc (length cs)"])
  moreover have "m' s = m s" by (rule Cons.prems) (simp add: in_range_start)
  ultimately show ?case using Cons.prems(1) by simp
qed

lemma find_nul_cstr: "cstr m s cs \<Longrightarrow> find_nul m s = Some (s + of_nat (length cs))"
  by (induction cs arbitrary: s) (subst find_nul.simps, simp)+

lemma strlen_cstr: "cstr m s cs \<Longrightarrow> strlen m s = Some (of_nat (length cs))"
  by (simp add: strlen_def find_nul_cstr)

lemma strcpy_loop_memcpy:
  "cstr m s cs \<Longrightarrow> disjoint_ranges d (Suc (length cs)) s (Suc (length cs)) \<Longrightarrow>
   strcpy_loop m d s = Some (memcpy_loop m d s (Suc (length cs)))"
proof (induction cs arbitrary: m d s)
  case Nil
  then show ?case by (subst strcpy_loop.simps) simp
next
  case (Cons c cs)
  have "\<not> in_range s (Suc (length (c # cs))) d"
    using Cons.prems(2) by (rule disjoint_rangesD) (simp add: in_range_start)
  then have "cstr (m(d := m s)) (s + 1) cs"
    using Cons.prems(1)
    by (auto intro!: cstr_cong [of m "s + 1"] simp: in_range_Suc [of s "Suc (length cs)"])
  moreover have "disjoint_ranges (d + 1) (Suc (length cs)) (s + 1) (Suc (length cs))"
    using disjoint_ranges_Suc [OF Cons.prems(2) [simplified]] .
  ultimately have "strcpy_loop (m(d := m s)) (d + 1) (s + 1) =
      Some (memcpy_loop m d s (Suc (length (c # cs))))"
    using Cons.IH by (simp only: memcpy_loop.simps(2) [of m d s] list.size add_Suc_right add_0_right)
  with Cons.prems(1) show ?case by (subst strcpy_loop.simps) simp
qed

lemma strcpy_cstr:
  assumes "cstr m src cs" and "disjoint_ranges dest (Suc (length cs)) src (Suc (length cs))"
  obtains m' where "strcpy m dest src = Some (m', dest)" and "cstr m' dest cs"
    and "\<And>x. \<not> in_range dest (Suc (length cs)) x \<Longrightarrow> m' x = m x"
proof
  let ?n = "Suc (length cs)"
  let ?m = "memcpy_loop m dest src ?n"
  have n: "?n \<le> 2 ^ 64" using cstr_length [OF assms(1)] by simp
  note ap = memcpy_loop_apply [OF n assms(2)]
  show "strcpy m dest src = Some (?m, dest)"
    using strcpy_loop_memcpy [OF assms] by (simp add: strcpy_def)
  show "?m x = m x" if "\<not> in_range dest ?n x" for x using that ap by simp
  have off: "?m (dest + of_nat i) = m (src + of_nat i)" if "i \<le> length cs" for i
  proof -
    have "unat (of_nat i :: u64) = i" using that n by simp
    then show ?thesis using that by (subst ap) (simp add: in_range_def)
  qed
  have "cstr ?m dest (cs @ [])"
    unfolding cstr_append
    using off cstr_nth [OF assms(1)] cstr_end [OF assms(1)] cstr_nonzero [OF assms(1)] by simp
  then show "cstr ?m dest cs" by simp
qed

text \<open>Comparison: the sign is that of the first difference, with the terminator as zero.\<close>

fun lexcmp :: "u8 list \<Rightarrow> u8 list \<Rightarrow> int" where
  "lexcmp [] [] = 0"
| "lexcmp [] (d # ds) = - uint d"
| "lexcmp (c # cs) [] = uint c"
| "lexcmp (c # cs) (d # ds) = (if c = d then lexcmp cs ds else uint c - uint d)"

lemma strcmp_cstr: "cstr m s cs \<Longrightarrow> cstr m t ds \<Longrightarrow> strcmp m s t = Some (lexcmp cs ds)"
proof (induction cs ds arbitrary: s t rule: lexcmp.induct)
qed (subst strcmp.simps, simp)+

lemma lexcmp_0: "0 \<notin> set cs \<Longrightarrow> 0 \<notin> set ds \<Longrightarrow> lexcmp cs ds = 0 \<longleftrightarrow> cs = ds"
  by (induction cs ds rule: lexcmp.induct) (auto simp: uint_0_iff dest: word_uint_eqI)

lemma lexcmp_take:
  "cstr m s cs \<Longrightarrow> cstr m t ds \<Longrightarrow> strncmp_loop m s t n = lexcmp (take n cs) (take n ds)"
proof (induction n arbitrary: s t cs ds)
  case (Suc n)
  then show ?case by (cases cs; cases ds) auto
qed simp

lemma scan_set_cstr: "cstr m p ds \<Longrightarrow> c \<noteq> 0 \<Longrightarrow> scan_set m c p = Some (c \<in> set ds)"
  by (induction ds arbitrary: p) (subst scan_set.simps, auto)+

lemma strspn_loop_cstr:
  "cstr m s cs \<Longrightarrow> cstr m d ds \<Longrightarrow>
   strspn_loop m s d k = Some (k + of_nat (length (takeWhile (\<lambda>c. c \<in> set ds) cs)))"
  by (induction cs arbitrary: s k)
    (subst strspn_loop.simps, auto simp: scan_set_cstr add.assoc)+

lemma strcspn_loop_cstr:
  "cstr m s cs \<Longrightarrow> cstr m d ds \<Longrightarrow>
   strcspn_loop m s d k = Some (k + of_nat (length (takeWhile (\<lambda>c. c \<notin> set ds) cs)))"
  by (induction cs arbitrary: s k)
    (subst strcspn_loop.simps, auto simp: scan_set_cstr add.assoc)+

lemma cstr_cut:
  assumes "cstr m p (tok @ c # rest)"
  shows "cstr (m(p + of_nat (length tok) := 0)) p tok"
    and "cstr (m(p + of_nat (length tok) := 0)) (p + of_nat (length tok) + 1) rest"
proof -
  let ?e = "p + of_nat (length tok)"
  let ?m = "m(?e := 0)"
  have len: "length tok + length rest + 1 < 2 ^ 64" using cstr_length [OF assms] by simp
  have tok: "\<forall>i < length tok. m (p + of_nat i) = tok ! i" "0 \<notin> set tok" "cstr m ?e (c # rest)"
    using assms unfolding cstr_append by blast+
  have "(of_nat i :: u64) \<noteq> of_nat (length tok)" if "i < length tok" for i
    using that len by (simp add: word_unat_eq_iff)
  with tok have "cstr ?m p (tok @ [])" unfolding cstr_append by simp
  then show "cstr ?m p tok" by simp
  have "\<not> in_range (?e + 1) (Suc (length rest)) ?e"
    using len by (intro not_in_range_self_succ) simp
  then show "cstr ?m (?e + 1) rest"
    using tok(3) by (auto intro!: cstr_cong [of m "?e + 1"])
qed

lemma strtok_none:
  assumes "cstr m str cs" and "cstr m delim ds" and "set cs \<subseteq> set ds" and "str \<noteq> NULL"
  shows "strtok m saved str delim = Some (NULL, m, saved)"
proof -
  have "takeWhile (\<lambda>c. c \<in> set ds) cs = cs" using assms(3) by (auto simp: takeWhile_eq_all_conv)
  then have "length (takeWhile (\<lambda>c. c \<in> set ds) cs) = length cs" by (rule arg_cong)
  then show ?thesis
    using assms(4) strspn_loop_cstr [OF assms(1,2), of 0] cstr_end [OF assms(1)]
    by (simp add: strtok_def strspn_def Let_def)
qed

lemma strtok_token:
  fixes cs ds :: "u8 list"
  defines "skip \<equiv> takeWhile (\<lambda>c. c \<in> set ds) cs"
    and "tok \<equiv> takeWhile (\<lambda>c. c \<notin> set ds) (dropWhile (\<lambda>c. c \<in> set ds) cs)"
    and "rest \<equiv> dropWhile (\<lambda>c. c \<notin> set ds) (dropWhile (\<lambda>c. c \<in> set ds) cs)"
  assumes "cstr m str cs" and "cstr m delim ds" and "\<not> set cs \<subseteq> set ds" and "str \<noteq> NULL"
  defines "p \<equiv> str + of_nat (length skip)"
  obtains m' saved' where "strtok m saved str delim = Some (p, m', saved')"
    and "cstr m' p tok" and "tok \<noteq> []" and "cstr m' saved' (tl rest)"
    and "\<And>x. m' x \<noteq> m x \<Longrightarrow> x = p + of_nat (length tok) \<and> rest \<noteq> []"
    and "saved' = p + of_nat (length tok) + (if rest = [] then 0 else 1)"
proof -
  let ?e = "p + of_nat (length tok)"
  have cs: "cs = skip @ tok @ rest" by (simp add: skip_def tok_def rest_def)
  have "dropWhile (\<lambda>c. c \<in> set ds) cs \<noteq> []" using assms(6) by (auto simp: dropWhile_eq_Nil_conv)
  then have ne: "tok \<noteq> []"
    unfolding tok_def by (metis hd_dropWhile takeWhile_eq_Nil_iff)
  have c1: "cstr m p (tok @ rest)" using assms(4) cs unfolding p_def by (metis cstr_suffix)
  then have c2: "cstr m ?e rest" by (rule cstr_suffix)
  have mp: "m p \<noteq> 0" using c1 ne by (cases tok) auto
  have me: "m ?e = 0 \<longleftrightarrow> rest = []" using c2 by (cases rest) auto
  have span: "strspn m str delim = Some (of_nat (length skip))"
    using strspn_loop_cstr [OF assms(4,5), of 0] by (simp add: strspn_def skip_def)
  have "takeWhile (\<lambda>c. c \<notin> set ds) (tok @ rest) = tok" by (simp add: tok_def rest_def)
  then have cspan: "strcspn m p delim = Some (of_nat (length tok))"
    using strcspn_loop_cstr [OF c1 assms(5), of 0] by (simp add: strcspn_def)
  have run: "strtok m saved str delim =
      (if rest = [] then Some (p, m, ?e) else Some (p, m(?e := 0), ?e + 1))"
    using span cspan mp me assms(7) by (simp add: strtok_def p_def [symmetric] Let_def)
  show thesis
  proof (cases "rest = []")
    case True
    with c1 c2 ne run show thesis by (intro that [of m ?e]) simp_all
  next
    case False
    then obtain c rest' where r: "rest = c # rest'" by (cases rest) auto
    show thesis
      using cstr_cut [of m p tok c rest'] c1 run ne r
      by (intro that [of "m(?e := 0)" "?e + 1"]) (auto split: if_splits)
  qed
qed

lemma strchr_loop_cstr:
  "cstr m s cs \<Longrightarrow> c \<noteq> 0 \<Longrightarrow>
   strchr_loop m s c = Some (if c \<in> set cs then s + of_nat (length (takeWhile (\<lambda>x. x \<noteq> c) cs)) else NULL)"
  by (induction cs arbitrary: s) (subst strchr_loop.simps, auto simp: add.assoc)+

lemma strrchr_loop_cstr:
  "cstr m s cs \<Longrightarrow> c \<noteq> 0 \<Longrightarrow>
   strrchr_loop m s c found =
     Some (if c \<in> set cs
           then s + of_nat (length cs - Suc (length (takeWhile (\<lambda>x. x \<noteq> c) (rev cs)))) else found)"
proof (induction cs arbitrary: s found)
  case Nil
  then show ?case by (subst strrchr_loop.simps) simp
next
  case (Cons a cs)
  have "length (takeWhile (\<lambda>x. x \<noteq> c) (rev cs)) < length cs" if "c \<in> set cs"
  proof -
    have "takeWhile (\<lambda>x. x \<noteq> c) (rev cs) \<noteq> rev cs"
      using that by (metis set_rev set_takeWhileD)
    then show ?thesis using length_takeWhile_le [of "\<lambda>x. x \<noteq> c" "rev cs"]
      by (metis length_rev takeWhile_eq_take le_neq_implies_less take_all_iff order_refl)
  qed
  moreover have "takeWhile (\<lambda>x. x \<noteq> c) (rev cs) = rev cs" if "c \<notin> set cs"
    using that by (auto simp: takeWhile_eq_all_conv)
  ultimately show ?case
    using Cons by (subst strrchr_loop.simps)
      (auto simp: takeWhile_tail takeWhile_append Suc_diff_Suc algebra_simps simp flip: of_nat_Suc)
qed

text \<open>
  When the source is shorter than the count, the copying loop leaves the count as it was
  before the terminator, so the padding loop clears that many bytes after the terminator.
\<close>

lemma strncpy_copy_short:
  "cstr m s cs \<Longrightarrow> length cs < n \<Longrightarrow> disjoint_ranges d (Suc (length cs)) s (Suc (length cs)) \<Longrightarrow>
   strncpy_copy m d s n =
     (n - length cs, memcpy_loop m d s (Suc (length cs)), d + of_nat (Suc (length cs)))"
proof (induction cs arbitrary: m d s n)
  case Nil
  then show ?case by (cases n) (simp_all add: fun_upd_def)
next
  case (Cons c cs)
  then obtain k where n: "n = Suc k" by (cases n) auto
  have "\<not> in_range s (Suc (length (c # cs))) d"
    using Cons.prems(3) by (rule disjoint_rangesD) (simp add: in_range_start)
  then have "cstr (m(d := m s)) (s + 1) cs"
    using Cons.prems(1)
    by (auto intro!: cstr_cong [of m "s + 1"] simp: in_range_Suc [of s "Suc (length cs)"])
  moreover have "disjoint_ranges (d + 1) (Suc (length cs)) (s + 1) (Suc (length cs))"
    using disjoint_ranges_Suc [OF Cons.prems(3) [simplified]] .
  ultimately have "strncpy_copy (m(d := m s)) (d + 1) (s + 1) k =
      (k - length cs, memcpy_loop m d s (Suc (length (c # cs))), d + 1 + of_nat (Suc (length cs)))"
    using Cons.IH Cons.prems(2) n
    by (simp only: memcpy_loop.simps(2) [of m d s] list.size add_Suc_right add_0_right Suc_less_eq)
  with Cons.prems(1) n show ?case by (simp add: algebra_simps del: memcpy_loop.simps)
qed

section \<open>Number parsing: the value and the clamp\<close>

definition valid_digit :: "int \<Rightarrow> u8 \<Rightarrow> bool" where
  "valid_digit base c \<longleftrightarrow> (case strtol_digit c of None \<Rightarrow> False | Some d \<Rightarrow> d < base)"

definition digits_value :: "int \<Rightarrow> int \<Rightarrow> u8 list \<Rightarrow> int" where
  "digits_value base r cs = foldl (\<lambda>r c. r * base + the (strtol_digit c)) r cs"

lemma strtol_digit_nonneg: "strtol_digit c = Some d \<Longrightarrow> 0 \<le> d"
  by (auto simp: strtol_digit_def word_le_def split: if_splits)

lemma strtol_cutoff:
  assumes "1 < base" and "0 \<le> d" and "d < base" and "0 \<le> (r :: int)"
  shows "(LONG_MAX sdiv base < r \<or> r = LONG_MAX sdiv base \<and> LONG_MAX smod base < d) \<longleftrightarrow>
    LONG_MAX < r * base + d"
proof -
  define q where "q = LONG_MAX div base"
  define t where "t = LONG_MAX mod base"
  have L: "LONG_MAX = q * base + t" by (simp add: q_def t_def)
  have t: "0 \<le> t" "t < base" using assms(1) by (simp_all add: t_def)
  have sd: "LONG_MAX sdiv base = q" "LONG_MAX smod base = t"
    using assms(1) by (simp_all add: signed_divide_int_def signed_modulo_int_def q_def t_def
        minus_mult_div_eq_mod sgn_if mult.commute)
  consider "r < q" | "r = q" | "q < r" by linarith
  then have "(q < r \<or> r = q \<and> t < d) \<longleftrightarrow> q * base + t < r * base + d"
  proof cases
    case 1
    then have "(r + 1) * base \<le> q * base" using assms(1) by (intro mult_right_mono) auto
    with 1 L t assms show ?thesis by (simp add: algebra_simps)
  next
    case 2
    then show ?thesis by simp
  next
    case 3
    then have "(q + 1) * base \<le> r * base" using assms(1) by (intro mult_right_mono) auto
    with 3 t assms show ?thesis by (simp add: algebra_simps)
  qed
  then show ?thesis unfolding sd by (simp only: L [symmetric])
qed

lemma digits_value_ge:
  "1 < base \<Longrightarrow> 0 \<le> r \<Longrightarrow> \<forall>c \<in> set cs. valid_digit base c \<Longrightarrow> r \<le> digits_value base r cs"
proof (induction cs arbitrary: r)
  case Nil
  then show ?case by (simp add: digits_value_def)
next
  case (Cons c cs)
  then obtain d where d: "strtol_digit c = Some d" by (auto simp: valid_digit_def split: option.splits)
  have "r * 1 \<le> r * base" using Cons.prems by (intro mult_left_mono) auto
  then have "r \<le> r * base + d" using strtol_digit_nonneg [OF d] by simp
  moreover from this Cons have "r * base + d \<le> digits_value base (r * base + d) cs" by simp
  ultimately show ?case using d by (simp add: digits_value_def)
qed

lemma strtol_loop_stop:
  "cstr m s bs \<Longrightarrow> (\<And>c bs'. bs = c # bs' \<Longrightarrow> \<not> valid_digit base c) \<Longrightarrow>
   strtol_loop m s base sign cutoff cutlim r = Some (r * sign, s)"
  by (cases bs; subst strtol_loop.simps) (auto simp: valid_digit_def split: option.splits)

lemma strtol_loop_step:
  assumes "1 < base" and "m s = c" and "c \<noteq> 0" and "strtol_digit c = Some d" and "d < base" and "0 \<le> r"
  shows "strtol_loop m s base sign (LONG_MAX sdiv base) (LONG_MAX smod base) r =
    (if LONG_MAX < r * base + d then Some (if sign = 1 then LONG_MAX else LONG_MIN, s)
     else strtol_loop m (s + 1) base sign (LONG_MAX sdiv base) (LONG_MAX smod base) (r * base + d))"
  unfolding strtol_cutoff [OF assms(1) strtol_digit_nonneg [OF assms(4)] assms(5,6), symmetric]
  using assms by (subst strtol_loop.simps) simp

lemma strtol_loop_digits:
  assumes "1 < base" and "cstr m s (as @ bs)" and "\<forall>c \<in> set as. valid_digit base c"
    and "\<And>c bs'. bs = c # bs' \<Longrightarrow> \<not> valid_digit base c" and "0 \<le> r" and "r \<le> LONG_MAX"
  shows "\<exists>p. strtol_loop m s base sign (LONG_MAX sdiv base) (LONG_MAX smod base) r =
    (if digits_value base r as \<le> LONG_MAX
     then Some (digits_value base r as * sign, s + of_nat (length as))
     else Some (if sign = 1 then LONG_MAX else LONG_MIN, p))"
  using assms(2,3,5,6)
proof (induction as arbitrary: s r)
  case Nil
  then show ?case
    using strtol_loop_stop [of m s bs base] assms(4) by (simp add: digits_value_def)
next
  case (Cons c as)
  then obtain d where d: "strtol_digit c = Some d" "d < base"
    by (auto simp: valid_digit_def split: option.splits)
  note d0 = strtol_digit_nonneg [OF d(1)]
  have val: "digits_value base r (c # as) = digits_value base (r * base + d) as"
    by (simp add: digits_value_def d)
  have pos: "0 \<le> r * base + d" using Cons.prems assms(1) d0 by simp
  have ge: "r * base + d \<le> digits_value base (r * base + d) as"
    using digits_value_ge [OF assms(1) pos] Cons.prems by simp
  have c: "m s = c" "c \<noteq> 0" "cstr m (s + 1) (as @ bs)" using Cons.prems(1) by simp_all
  note step = strtol_loop_step [where m = m and s = s, OF assms(1) c(1,2) d Cons.prems(3), of sign]
  show ?case
  proof (cases "LONG_MAX < r * base + d")
    case True
    with ge show ?thesis unfolding step val by simp
  next
    case False
    then have "r * base + d \<le> LONG_MAX" by simp
    moreover have "\<forall>c \<in> set as. valid_digit base c" using Cons.prems(2) by simp
    moreover have "s + of_nat (length (c # as)) = s + 1 + of_nat (length as)" by (simp add: add.assoc)
    ultimately show ?thesis
      using Cons.IH [OF c(3) _ pos] unfolding step val by (simp only: if_not_P [OF False])
  qed
qed

lemma valid_digit_not_special:
  assumes "valid_digit base c"
  shows "c \<noteq> 0" "c \<notin> {0x20, 0x09, 0x0A, 0x0D, 0x0C, 0x0B}" "c \<noteq> 0x2D" "c \<noteq> 0x2B"
  using assms by (auto simp: valid_digit_def strtol_digit_def)

lemma strtol_unsigned:
  assumes "1 < base" and "base \<noteq> 16" and "cstr m str (as @ bs)" and "as \<noteq> []"
    and "\<forall>c \<in> set as. valid_digit base c" and "\<And>c bs'. bs = c # bs' \<Longrightarrow> \<not> valid_digit base c"
  shows "\<exists>p. strtol m str base =
    Some (if digits_value base 0 as \<le> LONG_MAX
          then (digits_value base 0 as, str + of_nat (length as)) else (LONG_MAX, p))"
proof -
  obtain c as' where as: "as = c # as'" using assms(4) by (cases as) auto
  then have c: "m str = c" "valid_digit base c" using assms(3,5) by auto
  then have "strtol_ws m str = Some str"
    using valid_digit_not_special(2) [OF c(2)] by (subst strtol_ws.simps) simp
  then have "strtol m str base =
      strtol_loop m str base 1 (LONG_MAX sdiv base) (LONG_MAX smod base) 0"
    using c assms(1,2) valid_digit_not_special(3,4) [OF c(2)] by (simp add: strtol_def)
  then show ?thesis
    using strtol_loop_digits [OF assms(1,3,5,6), where r = 0 and sign = 1] by (auto split: if_splits)
qed

lemma lexcmp_less: "0 \<notin> set cs \<Longrightarrow> 0 \<notin> set ds \<Longrightarrow> lexcmp cs ds < 0 \<longleftrightarrow> ord_class.lexordp cs ds"
  by (induction cs ds rule: lexcmp.induct) (auto simp: word_less_def uint_0_iff order.strict_iff_order dest: word_uint_eqI)

section \<open>Properties\<close>

text \<open>
  C27. \<open>memmove\<close> copies the source bytes as they were before the call, whether or not the two
  ranges overlap and in whichever order they lie, and changes no other byte; it returns its
  destination. The ranges must not wrap around the end of the address space.
\<close>

theorem memmove_correct:
  assumes "unat dest + unat n \<le> 2 ^ 64" and "unat src + unat n \<le> 2 ^ 64"
  shows "memmove m dest src n =
    (\<lambda>x. if in_range dest (unat n) x then m (src + (x - dest)) else m x, dest)"
proof -
  have "fst (memmove m dest src n) =
      (\<lambda>x. if in_range dest (unat n) x then m (src + (x - dest)) else m x)"
    using memmove_apply [OF assms] by (rule ext)
  then show ?thesis by (simp add: memmove_def split: if_splits)
qed

theorem memmove_correct_witness:
  "memmove (\<lambda>x. ucast x) 0x1002 0x1000 8 =
    (\<lambda>x. if in_range 0x1002 8 x then ucast (0x1000 + (x - 0x1002)) else ucast x, 0x1002)"
  using memmove_correct [of "0x1002" 8 "0x1000" "\<lambda>x. ucast x"] by simp

text \<open>
  \<open>strcpy\<close> of a terminated string to a range that does not overlap it returns, leaves the
  same string at the destination and changes no byte outside the string's length and its NUL.
\<close>

theorem strcpy_correct:
  assumes "cstr m src cs" and "disjoint_ranges dest (Suc (length cs)) src (Suc (length cs))"
  shows "\<exists>m'. strcpy m dest src = Some (m', dest) \<and> cstr m' dest cs \<and>
    (\<forall>x. in_range dest (Suc (length cs)) x \<or> m' x = m x)"
  using strcpy_cstr [OF assms] by metis

theorem strcpy_correct_witness:
  "\<exists>m'. strcpy ((\<lambda>_. 0)(0x10 := 0x41)) 0x20 0x10 = Some (m', 0x20) \<and> cstr m' 0x20 [0x41] \<and>
    (\<forall>x. in_range 0x20 2 x \<or> m' x = ((\<lambda>_. 0)(0x10 := 0x41)) x)"
proof -
  have "cstr ((\<lambda>_. 0)(0x10 := 0x41)) 0x10 [0x41]" by simp
  moreover have "disjoint_ranges 0x20 (Suc (length [0x41 :: u8])) 0x10 (Suc (length [0x41 :: u8]))"
    by (auto simp: disjoint_ranges_def in_range_nat)
  ultimately show ?thesis
    using strcpy_correct [of "(\<lambda>_. 0)(0x10 := 0x41)" "0x10" "[0x41]" "0x20"]
    by (simp add: numeral_2_eq_2)
qed

text \<open>
  \<open>strcmp\<close> on two terminated strings returns a value that is zero exactly when they are
  equal and negative exactly when the first is smaller in the dictionary order on bytes.
\<close>

theorem strcmp_correct:
  assumes "cstr m s cs" and "cstr m t ds"
  shows "\<exists>r. strcmp m s t = Some r \<and> (r = 0 \<longleftrightarrow> cs = ds) \<and> (r < 0 \<longleftrightarrow> ord_class.lexordp cs ds)"
  using strcmp_cstr [OF assms] lexcmp_0 lexcmp_less cstr_nonzero assms by metis

theorem strcmp_correct_witness:
  "\<exists>r. strcmp ((\<lambda>_. 0)(0x10 := 0x41, 0x20 := 0x42)) 0x10 0x20 = Some r \<and>
    (r = 0 \<longleftrightarrow> [0x41 :: u8] = [0x42]) \<and> (r < 0 \<longleftrightarrow> ord_class.lexordp [0x41 :: u8] [0x42])"
  by (rule strcmp_correct) simp_all

text \<open>
  One call of \<open>strtok\<close> on a terminated string with at least one byte outside the delimiter
  set returns a pointer to the first maximal run of such bytes, which it has terminated; the
  saved pointer is left at the rest of the string after the delimiter that ended the run, so
  that the next call continues there; at most one byte of memory changed, the one that ends
  the token.
\<close>

theorem strtok_correct:
  fixes cs ds :: "u8 list"
  defines "skip \<equiv> takeWhile (\<lambda>c. c \<in> set ds) cs"
    and "tok \<equiv> takeWhile (\<lambda>c. c \<notin> set ds) (dropWhile (\<lambda>c. c \<in> set ds) cs)"
    and "rest \<equiv> dropWhile (\<lambda>c. c \<notin> set ds) (dropWhile (\<lambda>c. c \<in> set ds) cs)"
  assumes "cstr m str cs" and "cstr m delim ds" and "\<not> set cs \<subseteq> set ds" and "str \<noteq> NULL"
  shows "\<exists>m' saved'. strtok m saved str delim = Some (str + of_nat (length skip), m', saved') \<and>
    cstr m' (str + of_nat (length skip)) tok \<and> tok \<noteq> [] \<and> cstr m' saved' (tl rest) \<and>
    (\<forall>x. m' x = m x \<or> x = str + of_nat (length skip) + of_nat (length tok) \<and> m' x = 0)"
proof -
  obtain m' saved' where *:
    "strtok m saved str delim = Some (str + of_nat (length skip), m', saved')"
    "cstr m' (str + of_nat (length skip)) tok" "tok \<noteq> []" "cstr m' saved' (tl rest)"
    "\<And>x. m' x \<noteq> m x \<Longrightarrow> x = str + of_nat (length skip) + of_nat (length tok) \<and> rest \<noteq> []"
    using strtok_token [OF assms(4-7), of saved] unfolding skip_def tok_def rest_def by blast
  have "m' (str + of_nat (length skip) + of_nat (length tok)) = 0"
    using *(2) by (rule cstr_end)
  then have "m' x = m x \<or> x = str + of_nat (length skip) + of_nat (length tok) \<and> m' x = 0" for x
    using *(5) [of x] by blast
  with *(1-4) show ?thesis by blast
qed

theorem strtok_correct_witness:
  "\<exists>m' saved'. strtok ((\<lambda>_. 0)(0x10 := 0x2F, 0x11 := 0x61, 0x20 := 0x2F)) 0 0x10 0x20 =
      Some (0x11, m', saved') \<and> cstr m' 0x11 [0x61] \<and> cstr m' saved' [] \<and>
    (\<forall>x. m' x = ((\<lambda>_. 0)(0x10 := 0x2F, 0x11 := 0x61, 0x20 := 0x2F)) x \<or> x = 0x12 \<and> m' x = 0)"
  using strtok_correct [of "(\<lambda>_. 0)(0x10 := 0x2F, 0x11 := 0x61, 0x20 := 0x2F)" "0x10"
      "[0x2F, 0x61]" "0x20" "[0x2F]" 0] by simp

text \<open>
  C29. \<open>strtol\<close> on an unsigned numeral in a base other than 16 returns the number the digits
  denote and a pointer behind them, and \<open>LONG_MAX\<close> when the number does not fit: the cutoff
  test is exact, no accumulated value ever exceeds a \<open>long\<close>.
\<close>

theorem strtol_correct:
  assumes "1 < base" and "base \<noteq> 16" and "cstr m str (as @ bs)" and "as \<noteq> []"
    and "\<forall>c \<in> set as. valid_digit base c"
    and "bs = [] \<or> \<not> valid_digit base (hd bs)"
  shows "\<exists>p. strtol m str base =
    Some (if digits_value base 0 as \<le> LONG_MAX
          then (digits_value base 0 as, str + of_nat (length as)) else (LONG_MAX, p))"
  using assms(1-5)
proof (rule strtol_unsigned)
  fix c bs'
  assume "bs = c # bs'"
  with assms(6) show "\<not> valid_digit base c" by simp
qed

theorem strtol_correct_witness:
  "\<exists>p. strtol ((\<lambda>_. 0)(0x10 := 0x37, 0x11 := 0x35, 0x12 := 0x20)) 0x10 8 =
    Some (if digits_value 8 0 [0x37, 0x35] \<le> LONG_MAX
          then (digits_value 8 0 [0x37, 0x35], 0x12) else (LONG_MAX, p)) \<and>
    digits_value 8 0 [0x37, 0x35] = 61"
  using strtol_correct [of 8 "(\<lambda>_. 0)(0x10 := 0x37, 0x11 := 0x35, 0x12 := 0x20)" "0x10"
      "[0x37, 0x35]" "[0x20]"]
  by (simp add: valid_digit_def strtol_digit_def digits_value_def)

text \<open>
  \<open>strncpy\<close> of a string shorter than the count writes one byte more than the count: the
  byte at \<open>dest + n\<close>, which belongs to whatever lies behind the destination, becomes zero.
  The copying loop ends on the terminator without counting it down.
\<close>

theorem strncpy_writes_past_count:
  assumes "cstr m src cs" and "length cs < unat n" and "unat n < 2 ^ 63"
    and "disjoint_ranges dest (Suc (length cs)) src (Suc (length cs))"
  shows "fst (strncpy m dest src n) (dest + n) = 0"
proof -
  let ?d = "dest + of_nat (Suc (length cs))"
  have run: "fst (strncpy m dest src n) =
      memset_loop (memcpy_loop m dest src (Suc (length cs))) ?d 0 (unat n - length cs)"
    using strncpy_copy_short [OF assms(1,2,4)] by (simp add: strncpy_def del: memcpy_loop.simps)
  have "dest + n - ?d = of_nat (unat n - Suc (length cs))"
    using assms(2) by (simp add: of_nat_diff)
  then have "unat (dest + n - ?d) = unat n - Suc (length cs)"
    using assms(3) by (simp only: unat_of_nat_small) simp
  then have "in_range ?d (unat n - length cs) (dest + n)"
    using assms(2) by (simp add: in_range_def del: of_nat_Suc)
  with assms(3) show ?thesis by (simp add: run memset_loop_apply del: memcpy_loop.simps of_nat_Suc)
qed

theorem strncpy_writes_past_count_witness:
  "fst (strncpy (\<lambda>x. if x = 0x10 then 0 else 0x7F) 0x20 0x10 4) 0x24 = 0"
proof -
  have "disjoint_ranges 0x20 (Suc (length ([] :: u8 list))) 0x10 (Suc (length ([] :: u8 list)))"
    by (auto simp: disjoint_ranges_def in_range_nat)
  then show ?thesis
    using strncpy_writes_past_count [of "\<lambda>x. if x = 0x10 then 0 else 0x7F" "0x10" "[]" 4 "0x20"]
    by simp
qed

end
