(* ===== verification/Pic.thy ===== *)
theory Pic
  imports Machine
begin

text \<open>
  The two 8259 interrupt controllers, \<^verbatim>\<open>kernel/src/sys/pic.c\<close>. The component's only variable
  is the shadow \<open>_pic_mask\<close> of the mask registers. What it promises: the bytes last written to
  the two data ports are the two halves of the shadow after every operation, and masking or
  unmasking one line changes that line only.
\<close>

section \<open>State and operations\<close>

record pic_state = machine +
  pic_mask_var :: u16

abbreviation (input) PIC1_COMMAND :: u16 where "PIC1_COMMAND \<equiv> 0x20"
abbreviation (input) PIC1_DATA :: u16 where "PIC1_DATA \<equiv> 0x21"
abbreviation (input) PIC2_COMMAND :: u16 where "PIC2_COMMAND \<equiv> 0xA0"
abbreviation (input) PIC2_DATA :: u16 where "PIC2_DATA \<equiv> 0xA1"
abbreviation (input) PIC_CMD_END_OF_INTERRUPT :: u8 where "PIC_CMD_END_OF_INTERRUPT \<equiv> 0x20"
abbreviation (input) PIC_REMAP_OFFSET :: u8 where "PIC_REMAP_OFFSET \<equiv> 0x20"

definition pic_set_mask :: "u16 \<Rightarrow> 'a pic_state_scheme \<Rightarrow> 'a pic_state_scheme" where
  "pic_set_mask msk s =
     (let s = s\<lparr>pic_mask_var := msk\<rparr>;
          s = io_wait (outb PIC1_DATA (ucast (pic_mask_var s AND 0xFF)) s);
          s = io_wait (outb PIC2_DATA (ucast (drop_bit 8 (pic_mask_var s))) s)
      in s)"

definition pic_get_mask :: "'a pic_state_scheme \<Rightarrow> u16 \<times> 'a pic_state_scheme" where
  "pic_get_mask s =
     (let (lo, s) = inb PIC1_DATA s;
          (hi, s) = inb PIC2_DATA s
      in (ucast lo OR push_bit 8 (ucast hi), s))"

definition pic_configure :: "u8 \<Rightarrow> u8 \<Rightarrow> bool \<Rightarrow> 'a pic_state_scheme \<Rightarrow> 'a pic_state_scheme" where
  "pic_configure offset_pic1 offset_pic2 auto_eoi s =
     (let s = pic_set_mask 0xFFFF s;
          s = io_wait (outb PIC1_COMMAND (0x10 OR 0x01) s);
          s = io_wait (outb PIC2_COMMAND (0x10 OR 0x01) s);
          s = io_wait (outb PIC1_DATA offset_pic1 s);
          s = io_wait (outb PIC2_DATA offset_pic2 s);
          s = io_wait (outb PIC1_DATA 0x04 s);
          s = io_wait (outb PIC2_DATA 0x02 s);
          icw4 = (if auto_eoi then 0x01 OR 0x02 else 0x01);
          s = io_wait (outb PIC1_DATA icw4 s);
          s = io_wait (outb PIC2_DATA icw4 s)
      in pic_set_mask 0xFFFF s)"

definition pic_send_end_of_interrupt :: "int \<Rightarrow> 'a pic_state_scheme \<Rightarrow> 'a pic_state_scheme" where
  "pic_send_end_of_interrupt irq s =
     (let s = (if 8 \<le> irq then io_wait (outb PIC2_COMMAND PIC_CMD_END_OF_INTERRUPT s) else s)
      in io_wait (outb PIC1_COMMAND PIC_CMD_END_OF_INTERRUPT s))"

definition pic_disable :: "'a pic_state_scheme \<Rightarrow> 'a pic_state_scheme" where
  "pic_disable s = pic_set_mask 0xFFFF s"

definition pic_enable :: "'a pic_state_scheme \<Rightarrow> 'a pic_state_scheme" where
  "pic_enable s = pic_set_mask 0xFFFF (pic_configure PIC_REMAP_OFFSET (PIC_REMAP_OFFSET + 8) False s)"

definition pic_mask :: "int \<Rightarrow> 'a pic_state_scheme \<Rightarrow> 'a pic_state_scheme" where
  "pic_mask irq s = pic_set_mask (pic_mask_var s OR ucast (push_bit (nat irq) (1 :: i32))) s"

definition pic_unmask :: "int \<Rightarrow> 'a pic_state_scheme \<Rightarrow> 'a pic_state_scheme" where
  "pic_unmask irq s = pic_set_mask (pic_mask_var s AND ucast (NOT (push_bit (nat irq) (1 :: i32)))) s"

definition pic_read_irq_request_register :: "'a pic_state_scheme \<Rightarrow> u16 \<times> 'a pic_state_scheme" where
  "pic_read_irq_request_register s =
     (let s = io_wait (outb PIC1_COMMAND 0x0A s);
          (lo, s) = inb PIC1_DATA s;
          s = io_wait (outb PIC2_COMMAND 0x0A s);
          (hi, s) = inb PIC2_DATA s
      in (ucast lo OR push_bit 8 (ucast hi), s))"

definition pic_read_in_service_register :: "'a pic_state_scheme \<Rightarrow> u16 \<times> 'a pic_state_scheme" where
  "pic_read_in_service_register s =
     (let s = io_wait (outb PIC1_COMMAND 0x0B s);
          (lo, s) = inb PIC1_DATA s;
          s = io_wait (outb PIC2_COMMAND 0x0B s);
          (hi, s) = inb PIC2_DATA s
      in (ucast lo OR push_bit 8 (ucast hi), s))"

definition pic_init :: "'a pic_state_scheme \<Rightarrow> int \<times> 'a pic_state_scheme" where
  "pic_init s =
     (0, fold pic_mask (map int [0..<16])
           (pic_configure PIC_REMAP_OFFSET (PIC_REMAP_OFFSET + 8) False s))"

section \<open>The shadow agrees with the hardware\<close>

definition pic_synced :: "'a pic_state_scheme \<Rightarrow> bool" where
  "pic_synced s \<longleftrightarrow>
     last_out PIC1_DATA (io_trace s) = Some (ucast (pic_mask_var s)) \<and>
     last_out PIC2_DATA (io_trace s) = Some (ucast (drop_bit 8 (pic_mask_var s)))"

lemma pic_mask_var_io [simp]:
  "pic_mask_var (outb p v s) = pic_mask_var s" "pic_mask_var (io_wait s) = pic_mask_var s"
  "pic_mask_var (snd (inb p s)) = pic_mask_var s"
  by (simp_all add: outb_def io_wait_def inb_def Let_def)

lemma io_trace_mask_var [simp]: "io_trace (s\<lparr>pic_mask_var := v\<rparr>) = io_trace s"
  by simp

lemma ucast_low_byte: "(ucast (m AND 0xFF) :: u8) = ucast m" for m :: u16
proof -
  have "(0xFF :: u16) = mask 8" by (simp add: mask_eq_exp_minus_1)
  moreover have "(ucast (m AND mask 8) :: u8) = ucast m"
    by (rule bit_eqI) (auto simp: bit_simps)
  ultimately show ?thesis by metis
qed

lemma pic_set_mask_trace:
  "io_trace (pic_set_mask m s) = io_trace s @
     [Outb PIC1_DATA (ucast m), Outb 0x80 0, Outb PIC2_DATA (ucast (drop_bit 8 m)), Outb 0x80 0]"
  by (simp add: pic_set_mask_def ucast_low_byte)

lemma pic_set_mask_var [simp]: "pic_mask_var (pic_set_mask m s) = m"
  by (simp add: pic_set_mask_def Let_def)

lemma pic_set_mask_synced [simp]: "pic_synced (pic_set_mask m s)"
  by (simp add: pic_synced_def pic_set_mask_trace last_out_append)

lemma pic_configure_synced [simp]:
  "pic_synced (pic_configure a b e s)" "pic_mask_var (pic_configure a b e s) = 0xFFFF"
  by (simp_all add: pic_configure_def Let_def)

lemma pic_eoi_synced: "pic_synced s \<Longrightarrow> pic_synced (pic_send_end_of_interrupt irq s)"
  by (simp add: pic_synced_def pic_send_end_of_interrupt_def last_out_append)

lemma pic_reads_synced:
  "pic_synced s \<Longrightarrow> pic_synced (snd (pic_get_mask s))"
  "pic_synced s \<Longrightarrow> pic_synced (snd (pic_read_irq_request_register s))"
  "pic_synced s \<Longrightarrow> pic_synced (snd (pic_read_in_service_register s))"
  by (simp_all add: pic_synced_def pic_get_mask_def pic_read_irq_request_register_def
      pic_read_in_service_register_def last_out_append split_def Let_def)

lemma pic_mask_synced [simp]: "pic_synced (pic_mask i s)" "pic_synced (pic_unmask i s)"
  by (simp_all add: pic_mask_def pic_unmask_def)

section \<open>One line at a time\<close>

lemma bit_pic_mask:
  "0 \<le> irq \<Longrightarrow> bit (pic_mask_var (pic_mask irq s)) n \<longleftrightarrow> bit (pic_mask_var s) n \<or> n < 16 \<and> n = nat irq"
  by (auto simp: pic_mask_def bit_simps dest: bit_imp_le_length)

lemma bit_pic_unmask:
  "0 \<le> irq \<Longrightarrow> bit (pic_mask_var (pic_unmask irq s)) n \<longleftrightarrow> bit (pic_mask_var s) n \<and> n \<noteq> nat irq"
  by (auto simp: pic_unmask_def bit_simps dest: bit_imp_le_length)

section \<open>All sequences of operations\<close>

inductive pic_step :: "'a pic_state_scheme \<Rightarrow> 'a pic_state_scheme \<Rightarrow> bool" where
  set_mask: "pic_step s (pic_set_mask m s)"
| get_mask: "pic_step s (snd (pic_get_mask s))"
| configure: "pic_step s (pic_configure a b e s)"
| end_of_interrupt: "pic_step s (pic_send_end_of_interrupt irq s)"
| disable: "pic_step s (pic_disable s)"
| enable: "pic_step s (pic_enable s)"
| mask_line: "pic_step s (pic_mask irq s)"
| unmask_line: "pic_step s (pic_unmask irq s)"
| read_irr: "pic_step s (snd (pic_read_irq_request_register s))"
| read_isr: "pic_step s (snd (pic_read_in_service_register s))"

definition pic_initialised :: "'a pic_state_scheme \<Rightarrow> bool" where
  "pic_initialised s \<longleftrightarrow> (\<exists>s0. s = snd (pic_init s0))"

lemma pic_init_var: "pic_mask_var (snd (pic_init s)) = 0xFFFF"
proof -
  have "pic_mask_var (fold pic_mask is t) = 0xFFFF" if "pic_mask_var t = 0xFFFF" for "is" and t :: "'a pic_state_scheme"
    using that
  proof (induction "is" arbitrary: t)
    case (Cons i "is")
    have "(0xFFFF :: u16) = - 1" and "- 1 OR x = (- 1 :: u16)" for x by simp_all
    then have "0xFFFF OR x = (0xFFFF :: u16)" for x by metis
    then have "pic_mask_var (pic_mask i t) = 0xFFFF"
      using Cons.prems by (simp add: pic_mask_def)
    then show ?case by (simp add: Cons.IH)
  qed simp
  then show ?thesis by (simp add: pic_init_def)
qed

lemma pic_init_synced: "pic_synced (snd (pic_init s))"
proof -
  have "[0..<16] = [0..<15] @ [15 :: nat]" by (simp add: upt_rec)
  then have "fold pic_mask (map int [0..<16]) t = pic_mask 15 (fold pic_mask (map int [0..<15]) t)"
    for t :: "'a pic_state_scheme" by (simp only: map_append fold_append) simp
  then show ?thesis by (simp add: pic_init_def)
qed

interpretation pic_sys: invariant_system pic_initialised pic_step pic_synced
proof
  show "pic_synced s" if "pic_initialised s" for s :: "'a pic_state_scheme"
    using that by (auto simp: pic_initialised_def pic_init_synced)
  show "pic_synced t" if "pic_synced s" and "pic_step s t" for s t :: "'a pic_state_scheme"
    using that(2,1)
    by cases (simp_all add: pic_eoi_synced pic_reads_synced pic_disable_def pic_enable_def)
qed

section \<open>Properties\<close>

text \<open>
  After \<open>pic_init\<close> and any further sequence of operations of the component, the bytes last
  written to the data ports of the two controllers are the low and the high half of the shadow
  \<open>_pic_mask\<close>, so \<open>pic_mask\<close> and \<open>pic_unmask\<close> compute from what the hardware holds.
\<close>

theorem pic_shadow_agrees:
  assumes "pic_step\<^sup>*\<^sup>* (snd (pic_init s0)) t"
  shows "last_out PIC1_DATA (io_trace t) = Some (ucast (pic_mask_var t)) \<and>
    last_out PIC2_DATA (io_trace t) = Some (ucast (drop_bit 8 (pic_mask_var t)))"
proof -
  have "pic_initialised (snd (pic_init s0))" by (auto simp: pic_initialised_def)
  then have "pic_synced t" using assms by (rule pic_sys.reachable_inv)
  then show ?thesis by (simp add: pic_synced_def)
qed

theorem pic_shadow_agrees_witness:
  "\<exists>t :: pic_state. pic_mask_var t = 0xFFFD \<and> last_out PIC1_DATA (io_trace t) = Some 0xFD \<and>
    last_out PIC2_DATA (io_trace t) = Some 0xFF"
proof -
  fix s0 :: pic_state
  let ?t = "pic_unmask 1 (snd (pic_init s0))"
  have v: "pic_mask_var ?t = 0xFFFD" by (simp add: pic_unmask_def pic_init_var)
  have "pic_step (snd (pic_init s0)) ?t" by (rule unmask_line)
  then have "pic_step\<^sup>*\<^sup>* (snd (pic_init s0)) ?t" by (rule r_into_rtranclp)
  from pic_shadow_agrees [OF this] v show ?thesis by (intro exI [of _ ?t]) simp
qed

text \<open>
  For each of the sixteen lines, \<open>pic_mask\<close> sets the line's bit of the shadow and
  \<open>pic_unmask\<close> clears it, and both leave the other fifteen bits as they were.
\<close>

theorem pic_lines_independent:
  assumes "0 \<le> irq" and "irq < 16" and "n < 16"
  shows "(bit (pic_mask_var (pic_mask irq s)) n \<longleftrightarrow> n = nat irq \<or> bit (pic_mask_var s) n) \<and>
    (bit (pic_mask_var (pic_unmask irq s)) n \<longleftrightarrow> n \<noteq> nat irq \<and> bit (pic_mask_var s) n)"
  using assms by (auto simp: bit_pic_mask bit_pic_unmask)

theorem pic_lines_independent_witness:
  "\<exists>s :: pic_state. bit (pic_mask_var s) 3 \<and> \<not> bit (pic_mask_var (pic_unmask 3 s)) 3 \<and>
    bit (pic_mask_var (pic_unmask 3 s)) 4"
proof -
  fix s0 :: pic_state
  let ?s = "snd (pic_init s0)"
  have "bit (pic_mask_var ?s) 3" and "bit (pic_mask_var ?s) 4"
    by (simp_all add: pic_init_var bit_numeral_rec eval_nat_numeral)
  then show ?thesis
    using pic_lines_independent [of 3 3 ?s] pic_lines_independent [of 3 4 ?s]
    by (intro exI [of _ ?s]) simp
qed

end
