(* ===== verification/Rtc.thy ===== *)
theory Rtc
  imports Pic
begin

text \<open>
  The CMOS clock, \<^verbatim>\<open>kernel/src/dev/rtc.c\<close>: register access through the command and data
  ports, the conversion from binary-coded decimal that the global \<open>bcd\<close> switches, the broken-down
  time, and the packed timestamp that the file system stores in its nodes. The unpacking is the
  one \<open>vfs_debug_ls\<close> uses to print it. The field \<open>miliseconds\<close> of the C structure is never
  written by \<open>rtc_get\<close>; its content on return is the argument \<open>uninit\<close>.
\<close>

section \<open>State and operations\<close>

record rtc_state = pic_state +
  bcd_var :: u8

record rtc_time_point =
  miliseconds :: int
  seconds :: int
  minutes :: int
  hours :: int
  day_of_week :: int
  day_of_month :: int
  month :: int
  year :: int
  full :: "int list"

abbreviation (input) RTC_COMMAND :: u16 where "RTC_COMMAND \<equiv> 0x70"
abbreviation (input) RTC_DATA :: u16 where "RTC_DATA \<equiv> 0x71"
abbreviation (input) RTC_STATUS :: u8 where "RTC_STATUS \<equiv> 0x0B"
abbreviation (input) RTC_SECONDS :: u8 where "RTC_SECONDS \<equiv> 0x00"
abbreviation (input) RTC_MINUTES :: u8 where "RTC_MINUTES \<equiv> 0x02"
abbreviation (input) RTC_HOURS :: u8 where "RTC_HOURS \<equiv> 0x04"
abbreviation (input) RTC_DAY_OF_WEEK :: u8 where "RTC_DAY_OF_WEEK \<equiv> 0x06"
abbreviation (input) RTC_DAY :: u8 where "RTC_DAY \<equiv> 0x07"
abbreviation (input) RTC_MONTH :: u8 where "RTC_MONTH \<equiv> 0x08"
abbreviation (input) RTC_YEAR :: u8 where "RTC_YEAR \<equiv> 0x09"

definition read_register :: "u8 \<Rightarrow> 'a rtc_state_scheme \<Rightarrow> u8 \<times> 'a rtc_state_scheme" where
  "read_register reg s = inb RTC_DATA (sti (outb RTC_COMMAND reg (cli s)))"

definition write_register :: "u8 \<Rightarrow> u8 \<Rightarrow> 'a rtc_state_scheme \<Rightarrow> 'a rtc_state_scheme" where
  "write_register reg v s = sti (outb RTC_DATA v (outb RTC_COMMAND reg (cli s)))"

definition bcd2bin :: "u8 \<Rightarrow> u8 \<Rightarrow> u8" where
  "bcd2bin bcd in_bcd =
     (if bcd \<noteq> 0 then (drop_bit 4 in_bcd * 10) + (in_bcd AND 0x0F) else in_bcd)"

definition rtc_get :: "int \<Rightarrow> 'a rtc_state_scheme \<Rightarrow> rtc_time_point \<times> 'a rtc_state_scheme" where
  "rtc_get uninit s =
     (let b = bcd_var s;
          (sec, s) = read_register RTC_SECONDS s;
          (min, s) = read_register RTC_MINUTES s;
          (hour, s) = read_register RTC_HOURS s;
          (dow, s) = read_register RTC_DAY_OF_WEEK s;
          (dom, s) = read_register RTC_DAY s;
          (mon, s) = read_register RTC_MONTH s;
          (yr, s) = read_register RTC_YEAR s;
          f = (\<lambda>v. uint (bcd2bin b v))
      in (\<lparr>miliseconds = uninit, seconds = f sec, minutes = f min, hours = f hour,
           day_of_week = f dow, day_of_month = f dom, month = f mon, year = f yr,
           full = [f sec, f min, f hour, f dom, f mon, f yr]\<rparr>, s))"

definition time_diff_seconds :: "rtc_time_point \<Rightarrow> rtc_time_point \<Rightarrow> u64" where
  "time_diff_seconds start end_time =
     (let start_seconds = word_of_int (seconds start + minutes start * 60 + hours start * 3600);
          end_seconds = word_of_int (seconds end_time + minutes end_time * 60 + hours end_time * 3600)
      in end_seconds - start_seconds)"

definition get_rtc_timestamp :: "'a rtc_state_scheme \<Rightarrow> u64 \<times> 'a rtc_state_scheme" where
  "get_rtc_timestamp s =
     (let b = bcd_var s;
          timestamp = 0;
          (r, s) = read_register RTC_YEAR s;
          timestamp = timestamp OR push_bit 40 (ucast (bcd2bin b r) + 2000);
          (r, s) = read_register RTC_MONTH s;
          timestamp = timestamp OR push_bit 32 (ucast (bcd2bin b r));
          (r, s) = read_register RTC_DAY s;
          timestamp = timestamp OR push_bit 24 (ucast (bcd2bin b r));
          (r, s) = read_register RTC_HOURS s;
          timestamp = timestamp OR push_bit 16 (ucast (bcd2bin b r));
          (r, s) = read_register RTC_MINUTES s;
          timestamp = timestamp OR push_bit 8 (ucast (bcd2bin b r));
          (r, s) = read_register RTC_SECONDS s;
          timestamp = timestamp OR ucast (bcd2bin b r)
      in (timestamp, s))"

definition rtc_init :: "'a rtc_state_scheme \<Rightarrow> int \<times> 'a rtc_state_scheme" where
  "rtc_init s =
     (let s = cli s;
          (status, s) = read_register RTC_STATUS s;
          status = status OR 0x02;
          status = status OR 0x10;
          status = status AND NOT 0x20;
          status = status AND NOT 0x40;
          s = s\<lparr>bcd_var := (if status AND 0x04 = 0 then 1 else 0)\<rparr>;
          s = write_register RTC_STATUS status s
      in (0, sti s))"

text \<open>The six fields that \<open>vfs_debug_ls\<close> cuts out of a timestamp: year down to seconds.\<close>

definition timestamp_fields :: "u64 \<Rightarrow> u64 list" where
  "timestamp_fields timestamp =
     [drop_bit 40 timestamp AND 0xFFFF, drop_bit 32 timestamp AND 0xFF,
      drop_bit 24 timestamp AND 0xFF, drop_bit 16 timestamp AND 0xFF,
      drop_bit 8 timestamp AND 0xFF, timestamp AND 0xFF]"

section \<open>Lemmas\<close>

lemma bcd_var_io [simp]:
  "bcd_var (outb p v s) = bcd_var s" "bcd_var (snd (inb p s)) = bcd_var s"
  "bcd_var (cli s) = bcd_var s" "bcd_var (sti s) = bcd_var s"
  by (simp_all add: outb_def inb_def cli_def sti_def Let_def)

lemma read_register_frame [simp]:
  "mem (snd (read_register r s)) = mem s" "bcd_var (snd (read_register r s)) = bcd_var s"
  "io_trace (snd (read_register r s)) =
     io_trace s @ [Outb RTC_COMMAND r, Inb RTC_DATA (fst (read_register r s))]"
  "int_flag (snd (read_register r s))"
  by (simp_all add: read_register_def)

lemma bcd2bin_encoded:
  assumes "n < 100" and "b \<noteq> 0"
  shows "bcd2bin b (of_nat (16 * (n div 10) + n mod 10)) = of_nat n"
proof -
  have "\<forall>n \<in> {0..<100}. bcd2bin b (of_nat (16 * (n div 10) + n mod 10)) = of_nat n"
    using assms(2) by (simp add: bcd2bin_def atLeastLessThan_nat_numeral)
  with assms(1) show ?thesis by simp
qed

lemma low_bytes_mask: "(0xFF :: u64) = mask 8" "(0xFFFF :: u64) = mask 16"
  by (simp_all add: mask_eq_exp_minus_1)

lemma timestamp_fields_pack:
  fixes y :: u64 and mo d h mi se :: u8
  assumes "take_bit 16 y = y"
  shows "timestamp_fields (push_bit 40 y OR push_bit 32 (ucast mo) OR push_bit 24 (ucast d) OR
      push_bit 16 (ucast h) OR push_bit 8 (ucast mi) OR ucast se) =
    [y, ucast mo, ucast d, ucast h, ucast mi, ucast se]"
proof -
  have y: "bit y n \<Longrightarrow> n < 16" for n using assms by (metis bit_take_bit_iff)
  have b: "bit x n \<Longrightarrow> n < 8" for x :: u8 and n by (auto dest: bit_imp_le_length)
  define t where "t = push_bit 40 y OR push_bit 32 (ucast mo) OR push_bit 24 (ucast d) OR
      push_bit 16 (ucast h) OR push_bit 8 (ucast mi) OR ucast se"
  have t: "bit t n \<longleftrightarrow> n < 64 \<and> (40 \<le> n \<and> bit y (n - 40) \<or> 32 \<le> n \<and> bit mo (n - 32) \<or>
      24 \<le> n \<and> bit d (n - 24) \<or> 16 \<le> n \<and> bit h (n - 16) \<or> 8 \<le> n \<and> bit mi (n - 8) \<or> bit se n)" for n
    by (auto simp: t_def bit_simps dest: bit_imp_le_length)
  have byte: "bit (drop_bit k t AND mask 8) n \<longleftrightarrow> n < 8 \<and> bit t (k + n)" for k n
    by (auto simp: bit_and_iff bit_drop_bit_eq bit_mask_iff)
  have f1: "drop_bit 40 t AND mask 16 = y"
    by (rule bit_eqI) (auto simp: bit_and_iff bit_drop_bit_eq bit_mask_iff t dest: y b)
  have f2: "drop_bit 32 t AND mask 8 = ucast mo"
    by (rule bit_eqI) (auto simp: byte t bit_ucast_iff dest: y b)
  have f3: "drop_bit 24 t AND mask 8 = ucast d"
    by (rule bit_eqI) (auto simp: byte t bit_ucast_iff dest: y b)
  have f4: "drop_bit 16 t AND mask 8 = ucast h"
    by (rule bit_eqI) (auto simp: byte t bit_ucast_iff dest: y b)
  have f5: "drop_bit 8 t AND mask 8 = ucast mi"
    by (rule bit_eqI) (auto simp: byte t bit_ucast_iff dest: y b)
  have "drop_bit 0 t AND mask 8 = ucast se"
    by (rule bit_eqI) (auto simp: byte t bit_ucast_iff simp del: drop_bit_0 dest: y b)
  then have f6: "t AND mask 8 = ucast se" by (simp only: drop_bit_0 id_apply)
  show ?thesis
    unfolding timestamp_fields_def low_bytes_mask t_def [symmetric] by (simp only: f1 f2 f3 f4 f5 f6)
qed


section \<open>Properties\<close>

text \<open>
  A timestamp round trip: the six fields that the directory listing cuts out of the value
  \<open>get_rtc_timestamp\<close> returns are exactly the six clock registers read during the call, each
  converted from binary-coded decimal, with 2000 added to the year. No field runs into its
  neighbour, for any answers of the clock.
\<close>

theorem rtc_timestamp_fields:
  "\<exists>yr mo d h mi se. io_trace (snd (get_rtc_timestamp s)) = io_trace s @
      [Outb RTC_COMMAND RTC_YEAR, Inb RTC_DATA yr, Outb RTC_COMMAND RTC_MONTH, Inb RTC_DATA mo,
       Outb RTC_COMMAND RTC_DAY, Inb RTC_DATA d, Outb RTC_COMMAND RTC_HOURS, Inb RTC_DATA h,
       Outb RTC_COMMAND RTC_MINUTES, Inb RTC_DATA mi, Outb RTC_COMMAND RTC_SECONDS, Inb RTC_DATA se] \<and>
    timestamp_fields (fst (get_rtc_timestamp s)) =
      [ucast (bcd2bin (bcd_var s) yr) + 2000, ucast (bcd2bin (bcd_var s) mo),
       ucast (bcd2bin (bcd_var s) d), ucast (bcd2bin (bcd_var s) h),
       ucast (bcd2bin (bcd_var s) mi), ucast (bcd2bin (bcd_var s) se)]"
proof -
  define s1 where "s1 = snd (read_register RTC_YEAR s)"
  define s2 where "s2 = snd (read_register RTC_MONTH s1)"
  define s3 where "s3 = snd (read_register RTC_DAY s2)"
  define s4 where "s4 = snd (read_register RTC_HOURS s3)"
  define s5 where "s5 = snd (read_register RTC_MINUTES s4)"
  define s6 where "s6 = snd (read_register RTC_SECONDS s5)"
  let ?c = "\<lambda>r t. bcd2bin (bcd_var s) (fst (read_register r t))"
  have run: "get_rtc_timestamp s =
      (push_bit 40 (ucast (?c RTC_YEAR s) + 2000) OR push_bit 32 (ucast (?c RTC_MONTH s1)) OR
       push_bit 24 (ucast (?c RTC_DAY s2)) OR push_bit 16 (ucast (?c RTC_HOURS s3)) OR
       push_bit 8 (ucast (?c RTC_MINUTES s4)) OR ucast (?c RTC_SECONDS s5), s6)"
    by (simp only: get_rtc_timestamp_def s1_def s2_def s3_def s4_def s5_def s6_def split_def Let_def
        fst_conv snd_conv or.left_neutral or.assoc)
  have "(ucast x :: u64) + 2000 < 65536" for x :: u8
  proof -
    have "unat x < 256" by (rule unat_u8_less)
    then have "unat (ucast x :: u64) < 256" by (simp add: unsigned_ucast_eq take_bit_nat_eq_self)
    then show ?thesis by (simp add: word_less_nat_alt unat_word_ariths)
  qed
  then have "take_bit 16 ((ucast x :: u64) + 2000) = ucast x + 2000" for x :: u8
    by (simp add: take_bit_eq_mod word_mod_def word_less_def)
  note fields = timestamp_fields_pack [OF this]
  have "io_trace s6 = io_trace s @
      [Outb RTC_COMMAND RTC_YEAR, Inb RTC_DATA (fst (read_register RTC_YEAR s)),
       Outb RTC_COMMAND RTC_MONTH, Inb RTC_DATA (fst (read_register RTC_MONTH s1)),
       Outb RTC_COMMAND RTC_DAY, Inb RTC_DATA (fst (read_register RTC_DAY s2)),
       Outb RTC_COMMAND RTC_HOURS, Inb RTC_DATA (fst (read_register RTC_HOURS s3)),
       Outb RTC_COMMAND RTC_MINUTES, Inb RTC_DATA (fst (read_register RTC_MINUTES s4)),
       Outb RTC_COMMAND RTC_SECONDS, Inb RTC_DATA (fst (read_register RTC_SECONDS s5))]"
    unfolding s6_def read_register_frame s5_def s4_def s3_def s2_def s1_def by simp
  with run fields show ?thesis unfolding run fst_conv snd_conv fields by blast
qed

text \<open>
  \<open>rtc_init\<close> switches the clock to 24-hour mode with the update-ended interrupt on and the
  periodic and alarm interrupts off, leaves the other bits of the status register as the clock
  had them, sets \<open>bcd\<close> exactly when the clock's data mode bit says decimal, and returns with
  interrupts enabled whatever the flag was before.
\<close>

theorem rtc_init_configures:
  "\<exists>status. io_trace (snd (rtc_init s)) = io_trace s @
      [Outb RTC_COMMAND RTC_STATUS, Inb RTC_DATA status,
       Outb RTC_COMMAND RTC_STATUS, Outb RTC_DATA ((status OR 0x12) AND NOT 0x60)] \<and>
    (bcd_var (snd (rtc_init s)) \<noteq> 0 \<longleftrightarrow> \<not> bit status 2) \<and>
    int_flag (snd (rtc_init s)) \<and> fst (rtc_init s) = 0"
proof -
  define st where "st = fst (read_register RTC_STATUS (cli s))"
  have lines: "(((st OR 0x02) OR 0x10) AND NOT 0x20) AND NOT 0x40 = (st OR 0x12) AND NOT 0x60"
    by (simp add: or.assoc and.assoc)
  have "((st OR 0x12) AND NOT 0x60) AND 0x04 = 0 \<longleftrightarrow> \<not> bit ((st OR 0x12) AND NOT 0x60) 2"
    using bit_iff_and_push_bit_not_eq_0 [of "(st OR 0x12) AND NOT 0x60" 2] by simp
  also have "\<dots> \<longleftrightarrow> \<not> bit st 2" by (simp add: bit_simps)
  finally have mode: "((st OR 0x12) AND NOT 0x60) AND 0x04 = 0 \<longleftrightarrow> \<not> bit st 2" .
  have "snd (rtc_init s) = sti (write_register RTC_STATUS ((st OR 0x12) AND NOT 0x60)
      ((snd (read_register RTC_STATUS (cli s)))
        \<lparr>bcd_var := (if ((st OR 0x12) AND NOT 0x60) AND 0x04 = 0 then 1 else 0)\<rparr>))"
    by (simp only: rtc_init_def split_def Let_def st_def [symmetric] lines snd_conv)
  moreover have "fst (rtc_init s) = 0" by (simp add: rtc_init_def split_def Let_def)
  ultimately show ?thesis
    unfolding mode by (intro exI [of _ st]) (simp add: write_register_def st_def)
qed

end
