(* ===== verification/Spinlock.thy ===== *)
theory Spinlock
  imports Prelude
begin

text \<open>
  The spin lock of \<^verbatim>\<open>kernel/include/lib/types.h\<close>, which guards console output and the heap.
  \<open>spinlock_acquire\<close> and \<open>spinlock_release\<close> are first given as the sequential operations the
  other components call: on one processor with nobody else to release the lock, acquiring a
  held lock never returns. The second part interleaves any number of processors running the
  two macros, one atomic access per step, and proves mutual exclusion.
\<close>

section \<open>The lock word, sequentially\<close>

type_synonym spinlock_t = bool

definition spinlock_init :: "spinlock_t \<Rightarrow> spinlock_t" where
  "spinlock_init lock = False"

text \<open>\<open>__sync_lock_test_and_set\<close>: the old value and the new one.\<close>

definition test_and_set :: "spinlock_t \<Rightarrow> bool \<times> spinlock_t" where
  "test_and_set lock = (lock, True)"

partial_function (option) spin_while_locked :: "spinlock_t \<Rightarrow> spinlock_t option" where
  "spin_while_locked lock = (if lock then spin_while_locked lock else Some lock)"

partial_function (option) spinlock_acquire :: "spinlock_t \<Rightarrow> spinlock_t option" where
  "spinlock_acquire lock =
     (let (was, lock) = test_and_set lock
      in if was then do { lock \<leftarrow> spin_while_locked lock; spinlock_acquire lock } else Some lock)"

definition spinlock_release :: "spinlock_t \<Rightarrow> spinlock_t" where
  "spinlock_release lock = False"

lemma spinlock_acquire_free [simp]: "spinlock_acquire False = Some True"
  by (subst spinlock_acquire.simps) (simp add: test_and_set_def)

lemma spin_while_locked_never: "spin_while_locked True \<noteq> Some r"
proof
  assume ret: "spin_while_locked True = Some r"
  have "\<not> True"
  proof (rule spin_while_locked.raw_induct [where P = "\<lambda>lock r. \<not> lock", OF _ ret])
    fix f lock r
    assume "\<And>lock r. f lock = Some r \<Longrightarrow> \<not> lock" and "(if lock then f lock else Some lock) = Some r"
    then show "\<not> lock" by (auto split: if_splits)
  qed
  then show False by simp
qed

lemma spinlock_acquire_held [simp]: "spinlock_acquire True = None"
proof -
  have "spin_while_locked True = None" using spin_while_locked_never by (cases "spin_while_locked True") auto
  then show ?thesis by (subst spinlock_acquire.simps) (simp add: test_and_set_def)
qed

section \<open>Many processors\<close>

text \<open>
  Where a processor is: outside, about to execute the test-and-set, in the inner read loop,
  or between acquire and release.
\<close>

datatype lock_pc = Outside | At_Test_And_Set | Read_Loop | Holding

record lock_sys =
  locked :: bool
  pc :: "nat \<Rightarrow> lock_pc"

inductive lock_step :: "lock_sys \<Rightarrow> lock_sys \<Rightarrow> bool" where
  enter: "pc s i = Outside \<Longrightarrow> lock_step s (s\<lparr>pc := (pc s)(i := At_Test_And_Set)\<rparr>)"
| taken: "pc s i = At_Test_And_Set \<Longrightarrow> test_and_set (locked s) = (True, l) \<Longrightarrow>
     lock_step s (s\<lparr>locked := l, pc := (pc s)(i := Read_Loop)\<rparr>)"
| acquired: "pc s i = At_Test_And_Set \<Longrightarrow> test_and_set (locked s) = (False, l) \<Longrightarrow>
     lock_step s (s\<lparr>locked := l, pc := (pc s)(i := Holding)\<rparr>)"
| still_locked: "pc s i = Read_Loop \<Longrightarrow> locked s \<Longrightarrow> lock_step s s"
| seen_free: "pc s i = Read_Loop \<Longrightarrow> \<not> locked s \<Longrightarrow>
     lock_step s (s\<lparr>pc := (pc s)(i := At_Test_And_Set)\<rparr>)"
| release: "pc s i = Holding \<Longrightarrow>
     lock_step s (s\<lparr>locked := spinlock_release (locked s), pc := (pc s)(i := Outside)\<rparr>)"

definition lock_start :: "lock_sys \<Rightarrow> bool" where
  "lock_start s \<longleftrightarrow> \<not> locked s \<and> (\<forall>i. pc s i = Outside)"

text \<open>The lock word is set exactly when one processor holds the lock, and then one only.\<close>

definition lock_inv :: "lock_sys \<Rightarrow> bool" where
  "lock_inv s \<longleftrightarrow>
     (if locked s then \<exists>h. \<forall>i. pc s i = Holding \<longleftrightarrow> i = h else \<forall>i. pc s i \<noteq> Holding)"

lemma lock_step_inv: "lock_step s t \<Longrightarrow> lock_inv s \<Longrightarrow> lock_inv t"
  by (induction rule: lock_step.induct)
    (force simp: lock_inv_def test_and_set_def spinlock_release_def split: if_splits)+

interpretation lock: invariant_system lock_start lock_step lock_inv
proof
  show "lock_inv s" if "lock_start s" for s
    using that by (simp add: lock_start_def lock_inv_def)
  show "lock_inv t" if "lock_inv s" and "lock_step s t" for s t
    using that(2,1) by (rule lock_step_inv)
qed

section \<open>Properties\<close>

text \<open>
  C28. Mutual exclusion: in every state that any interleaving of processors running
  \<open>spinlock_acquire\<close> and \<open>spinlock_release\<close> can reach from a free lock, at most one processor is
  between the two, and the lock word is set exactly then.
\<close>

theorem spinlock_mutual_exclusion:
  assumes "lock_start s" and "lock_step\<^sup>*\<^sup>* s t"
  shows "(locked t \<longleftrightarrow> (\<exists>i. pc t i = Holding)) \<and>
    (\<forall>i j. pc t i = Holding \<and> pc t j = Holding \<longrightarrow> i = j)"
  using lock.reachable_inv [OF assms] by (auto simp: lock_inv_def split: if_splits)

theorem spinlock_mutual_exclusion_witness:
  "\<exists>t. lock_step\<^sup>*\<^sup>* \<lparr>locked = False, pc = (\<lambda>_. Outside)\<rparr> t \<and> pc t 0 = Holding \<and> locked t \<and>
    (\<forall>i j. pc t i = Holding \<and> pc t j = Holding \<longrightarrow> i = j)"
proof -
  let ?s = "\<lparr>locked = False, pc = (\<lambda>_. Outside)\<rparr>"
  let ?s1 = "?s\<lparr>pc := (pc ?s)(0 := At_Test_And_Set)\<rparr>"
  let ?s2 = "?s1\<lparr>locked := True, pc := (pc ?s1)(0 := Holding)\<rparr>"
  have "lock_step ?s ?s1" by (rule enter) simp
  then have "lock_step\<^sup>*\<^sup>* ?s ?s1" by (rule r_into_rtranclp)
  moreover have "lock_step ?s1 ?s2" by (rule acquired) (simp_all add: test_and_set_def)
  ultimately have run: "lock_step\<^sup>*\<^sup>* ?s ?s2" by (rule rtranclp.rtrancl_into_rtrancl)
  have "lock_start ?s" by (simp add: lock_start_def)
  note excl = spinlock_mutual_exclusion [OF this run]
  show ?thesis
  proof (intro exI [of _ ?s2] conjI)
    show "lock_step\<^sup>*\<^sup>* ?s ?s2" by (rule run)
    show "pc ?s2 0 = Holding" and "locked ?s2" by simp_all
    from excl show "\<forall>i j. pc ?s2 i = Holding \<and> pc ?s2 j = Holding \<longrightarrow> i = j" by (rule conjunct2)
  qed
qed

end
