(* ===== verification/Console.thy ===== *)
theory Console
  imports Rtc Spinlock CString
begin

text \<open>
  Character output: the serial driver \<^verbatim>\<open>kernel/src/dev/serial_util.c\<close>, the output callbacks of
  \<^verbatim>\<open>kernel/src/main.c\<close> and the stream functions of \<^verbatim>\<open>kernel/src/lib/stdio.c\<close>. The terminal emulator
  is third-party code; the bytes handed to it are collected in \<open>ft_out\<close>. The formatter is
  third-party code as well: what it returns for a format and its arguments, a length and the
  contents of the buffer, is an argument of the functions that call it.
\<close>

section \<open>State\<close>

datatype putchar_fn = No_putchar | Serial_putchar | Flanterm_putchar | Mirror_putchar

record console_state = rtc_state +
  stdout_port :: u16
  stdout_lock :: spinlock_t
  putchar_impl :: putchar_fn
  ft_out :: "u8 list"

section \<open>Serial ports\<close>

partial_function (option) outstr ::
  "u16 \<Rightarrow> u64 \<Rightarrow> 'a machine_scheme \<Rightarrow> 'a machine_scheme option" where
  "outstr port str s =
     (if mem s str = 0 then Some s
      else let s' = outb port (mem s str) s;
               s' = (if mem s str = 0x0A then outb 0x3F8 0x0D s' else s')
           in outstr port (str + 1) s')"

definition init_serial :: "u16 \<Rightarrow> 'a machine_scheme \<Rightarrow> int \<times> 'a machine_scheme" where
  "init_serial port s =
     (let s = outb (port + 1) 0x00 s;
          s = outb (port + 3) 0x80 s;
          s = outb (port + 0) 0x03 s;
          s = outb (port + 1) 0x00 s;
          s = outb (port + 3) 0x03 s;
          s = outb (port + 2) 0xC7 s;
          s = outb (port + 4) 0x0B s;
          s = outb (port + 4) 0x1E s;
          s = outb (port + 0) 0xAE s;
          (r, s) = inb (port + 0) s
      in if r \<noteq> 0xAE then (1, s) else (0, outb (port + 4) 0x0F s))"

definition com_ports :: "u16 list" where
  "com_ports = [0x3F8, 0x2F8, 0x3E8, 0x2E8, 0x5F8, 0x4F8, 0x5E8, 0x4E8]"

fun serial_probe :: "u16 list \<Rightarrow> 'a machine_scheme \<Rightarrow> u16 \<times> 'a machine_scheme" where
  "serial_probe [] s = (0xE9, s)"
| "serial_probe (p # ps) s =
     (let (r, s) = init_serial p s in if r \<noteq> 1 then (p, s) else serial_probe ps s)"

definition serial_get_new :: "'a machine_scheme \<Rightarrow> u16 \<times> 'a machine_scheme" where
  "serial_get_new s = serial_probe com_ports s"

section \<open>Output callbacks\<close>

definition serial_putchar :: "u8 \<Rightarrow> 'a console_state_scheme \<Rightarrow> int \<times> 'a console_state_scheme" where
  "serial_putchar c s =
     (let s = outb (stdout_port s) c s;
          s = (if c = 0x0A then outb (stdout_port s) 0x0D s else s)
      in (sint c, s))"

definition flanterm_putchar :: "u8 \<Rightarrow> 'a console_state_scheme \<Rightarrow> int \<times> 'a console_state_scheme" where
  "flanterm_putchar c s = (sint c, s\<lparr>ft_out := ft_out s @ [c]\<rparr>)"

definition mirror_putchar :: "u8 \<Rightarrow> 'a console_state_scheme \<Rightarrow> int \<times> 'a console_state_scheme" where
  "mirror_putchar c s = (sint c, snd (flanterm_putchar c (snd (serial_putchar c s))))"

section \<open>Streams\<close>

definition putchar :: "u8 \<Rightarrow> 'a console_state_scheme \<Rightarrow> int \<times> 'a console_state_scheme" where
  "putchar c s =
     (case putchar_impl s of
        No_putchar \<Rightarrow> (- 1, s)
      | Serial_putchar \<Rightarrow> serial_putchar c s
      | Flanterm_putchar \<Rightarrow> flanterm_putchar c s
      | Mirror_putchar \<Rightarrow> mirror_putchar c s)"

definition lock_stdout :: "'a console_state_scheme \<Rightarrow> 'a console_state_scheme option" where
  "lock_stdout s = map_option (\<lambda>l. s\<lparr>stdout_lock := l\<rparr>) (spinlock_acquire (stdout_lock s))"

definition unlock_stdout :: "'a console_state_scheme \<Rightarrow> 'a console_state_scheme" where
  "unlock_stdout s = s\<lparr>stdout_lock := spinlock_release (stdout_lock s)\<rparr>"

partial_function (option) puts_loop ::
  "u64 \<Rightarrow> int \<Rightarrow> 'a console_state_scheme \<Rightarrow> (int \<times> 'a console_state_scheme) option" where
  "puts_loop str len s =
     (if mem s str = 0 then Some (len, s)
      else puts_loop (str + 1) (len + 1) (snd (putchar (mem s str) s)))"

definition puts :: "u64 \<Rightarrow> 'a console_state_scheme \<Rightarrow> (int \<times> 'a console_state_scheme) option" where
  "puts str s =
     do { s \<leftarrow> lock_stdout s;
          (len, s) \<leftarrow> puts_loop str 0 s;
          let s = snd (putchar 0x0A s);
          Some (len + 1, unlock_stdout s) }"

definition vfprintf ::
  "int \<times> (nat \<Rightarrow> u8) \<Rightarrow> 'a console_state_scheme \<Rightarrow> int \<times> 'a console_state_scheme" where
  "vfprintf npf s =
     (case npf of (len, buffer) \<Rightarrow>
        (len,
         if 0 \<le> len \<and> len < 1024
         then fold (\<lambda>i s. snd (putchar (buffer i) s)) [0..<nat len] s else s))"

definition vprintf ::
  "int \<times> (nat \<Rightarrow> u8) \<Rightarrow> 'a console_state_scheme \<Rightarrow> int \<times> 'a console_state_scheme" where
  "vprintf npf s = vfprintf npf s"

definition printf ::
  "int \<times> (nat \<Rightarrow> u8) \<Rightarrow> 'a console_state_scheme \<Rightarrow> (int \<times> 'a console_state_scheme) option" where
  "printf npf s =
     do { s \<leftarrow> lock_stdout s; let (len, s) = vprintf npf s; Some (len, unlock_stdout s) }"

definition fprintf ::
  "int \<times> (nat \<Rightarrow> u8) \<Rightarrow> 'a console_state_scheme \<Rightarrow> (int \<times> 'a console_state_scheme) option" where
  "fprintf npf s =
     do { s \<leftarrow> lock_stdout s; let (len, s) = vfprintf npf s; Some (len, unlock_stdout s) }"

definition f_printf ::
  "int \<times> (nat \<Rightarrow> u8) \<Rightarrow> 'a console_state_scheme \<Rightarrow> (int \<times> 'a console_state_scheme) option" where
  "f_printf npf s =
     do { s \<leftarrow> lock_stdout s;
          let (len, buffer) = npf;
          let s = (if 0 \<le> len \<and> len < 1024
                   then fold (\<lambda>i s. snd (flanterm_putchar (buffer i) s)) [0..<nat len] s else s);
          Some (len, unlock_stdout s) }"

definition snprintf ::
  "(memory \<Rightarrow> int \<times> memory) \<Rightarrow> 'a console_state_scheme \<Rightarrow> (int \<times> 'a console_state_scheme) option" where
  "snprintf npf s =
     do { s \<leftarrow> lock_stdout s;
          let (len, m) = npf (mem s);
          Some (len, unlock_stdout (s\<lparr>mem := m\<rparr>)) }"

section \<open>Lemmas\<close>

text \<open>What one character puts on the serial port.\<close>

definition serial_bytes :: "u16 \<Rightarrow> u8 \<Rightarrow> io_event list" where
  "serial_bytes port c = Outb port c # (if c = 0x0A then [Outb port 0x0D] else [])"

lemma console_io [simp]:
  "stdout_port (outb p v s) = stdout_port s" "stdout_lock (outb p v s) = stdout_lock s"
  "putchar_impl (outb p v s) = putchar_impl s" "ft_out (outb p v s) = ft_out s"
  by (simp_all add: outb_def)

lemma serial_putchar_frame [simp]:
  "mem (snd (serial_putchar c s)) = mem s" "stdout_port (snd (serial_putchar c s)) = stdout_port s"
  "stdout_lock (snd (serial_putchar c s)) = stdout_lock s"
  "putchar_impl (snd (serial_putchar c s)) = putchar_impl s"
  "io_trace (snd (serial_putchar c s)) = io_trace s @ serial_bytes (stdout_port s) c"
  by (simp_all add: serial_putchar_def serial_bytes_def Let_def)

lemma putchar_frame [simp]:
  "mem (snd (putchar c s)) = mem s" "stdout_port (snd (putchar c s)) = stdout_port s"
  "stdout_lock (snd (putchar c s)) = stdout_lock s" "putchar_impl (snd (putchar c s)) = putchar_impl s"
  by (simp_all add: putchar_def mirror_putchar_def flanterm_putchar_def split: putchar_fn.splits)

lemma putchar_serial:
  "putchar_impl s \<in> {Serial_putchar, Mirror_putchar} \<Longrightarrow>
   io_trace (snd (putchar c s)) = io_trace s @ serial_bytes (stdout_port s) c"
  by (auto simp: putchar_def mirror_putchar_def flanterm_putchar_def)

lemma puts_loop_cstr:
  "cstr (mem s) str cs \<Longrightarrow> putchar_impl s \<in> {Serial_putchar, Mirror_putchar} \<Longrightarrow>
   \<exists>s'. puts_loop str n s = Some (n + int (length cs), s') \<and>
     io_trace s' = io_trace s @ concat (map (serial_bytes (stdout_port s)) cs) \<and>
     mem s' = mem s \<and> stdout_port s' = stdout_port s \<and> stdout_lock s' = stdout_lock s \<and>
     putchar_impl s' = putchar_impl s"
proof (induction cs arbitrary: str n s)
  case Nil
  then show ?case by (subst puts_loop.simps) simp
next
  case (Cons c cs)
  from Cons.prems Cons.IH [of "snd (putchar c s)" "str + 1" "n + 1"] show ?case
    by (subst puts_loop.simps) (simp add: putchar_serial algebra_simps)
qed

lemma lock_stdout_simps:
  "\<not> stdout_lock s \<Longrightarrow> lock_stdout s = Some (s\<lparr>stdout_lock := True\<rparr>)"
  "stdout_lock s \<Longrightarrow> lock_stdout s = None"
  by (simp_all add: lock_stdout_def)

section \<open>Properties\<close>

text \<open>
  With the serial callback installed and the lock free, \<open>puts\<close> of a terminated string
  returns its length plus one, leaves the lock free, and puts exactly the bytes of the string
  and a newline on the port, each newline followed by a carriage return.
\<close>

theorem puts_serial:
  assumes "cstr (mem s) str cs" and "putchar_impl s = Serial_putchar" and "\<not> stdout_lock s"
  shows "\<exists>s'. puts str s = Some (int (length cs) + 1, s') \<and> \<not> stdout_lock s' \<and> mem s' = mem s \<and>
    io_trace s' = io_trace s @ concat (map (serial_bytes (stdout_port s)) (cs @ [0x0A]))"
proof -
  let ?s = "s\<lparr>stdout_lock := True\<rparr>"
  from puts_loop_cstr [of ?s str cs 0] assms obtain s1 where
    "puts_loop str 0 ?s = Some (int (length cs), s1)" and
    "io_trace s1 = io_trace s @ concat (map (serial_bytes (stdout_port s)) cs)" and
    "mem s1 = mem s" and "stdout_port s1 = stdout_port s" and "putchar_impl s1 = Serial_putchar"
    by auto
  with assms(3) show ?thesis
    by (simp add: puts_def lock_stdout_simps unlock_stdout_def spinlock_release_def putchar_serial)
qed

theorem puts_serial_witness:
  "\<exists>s' :: console_state. io_trace s' = [Outb 0xE9 0x4F, Outb 0xE9 0x4B, Outb 0xE9 0x0A, Outb 0xE9 0x0D]"
proof -
  fix s0 :: console_state
  let ?s = "s0\<lparr>mem := (\<lambda>_. 0)(8 := 0x4F, 9 := 0x4B), io_trace := [], stdout_port := 0xE9,
    stdout_lock := False, putchar_impl := Serial_putchar\<rparr>"
  have "cstr (mem ?s) 8 [0x4F, 0x4B]" and "putchar_impl ?s = Serial_putchar" and "\<not> stdout_lock ?s"
    by simp_all
  from puts_serial [OF this] show ?thesis by (auto simp: serial_bytes_def)
qed

text \<open>
  Console output is not re-entrant: on one processor, a call of \<open>puts\<close> or \<open>printf\<close> while the
  output lock is held, for instance from an exception handler that interrupts another \<open>printf\<close>,
  never returns, whatever is printed.
\<close>

theorem console_not_reentrant:
  assumes "stdout_lock s"
  shows "puts str s = None \<and> printf npf s = None \<and> fprintf npf s = None \<and> f_printf npf s = None"
  using assms by (simp add: puts_def printf_def fprintf_def f_printf_def lock_stdout_simps)

theorem console_not_reentrant_witness:
  "\<exists>s :: console_state. stdout_lock s \<and> printf (0, (\<lambda>_. 0)) s = None"
proof -
  fix s0 :: console_state
  have "stdout_lock (s0\<lparr>stdout_lock := True\<rparr>)" by simp
  from console_not_reentrant [OF this] this show ?thesis by blast
qed

end
