(* ===== verification/Pmm.thy ===== *)
theory Pmm
  imports Console
begin

text \<open>
  The physical page allocator, \<^verbatim>\<open>kernel/src/mm/pmm.c\<close> and \<^verbatim>\<open>kernel/include/mm/pmm.h\<close>. Free pages are
  kept as a stack of physical addresses in an array that lives in memory itself, carved out of
  the first large enough region of the boot loader's memory map. The model keeps the array
  where the code keeps it, in the byte memory, so that clearing a page on allocation could in
  principle overwrite the stack; that it does not is part of the invariant \<open>pmm_inv\<close>. The
  abstraction is the list \<open>free_pages\<close>, and the interface the other components rely on is the
  locale \<open>page_allocator\<close>. The boot loader's constant for usable memory is an argument.
\<close>

section \<open>Macros\<close>

abbreviation (input) PAGE_SIZE :: u64 where "PAGE_SIZE \<equiv> 4096"

definition DIV_ROUND_UP :: "u64 \<Rightarrow> u64 \<Rightarrow> u64" where
  "DIV_ROUND_UP x y = (x + (y - 1)) div y"

definition ALIGN_UP :: "u64 \<Rightarrow> u64 \<Rightarrow> u64" where
  "ALIGN_UP x y = DIV_ROUND_UP x y * y"

definition ALIGN_DOWN :: "u64 \<Rightarrow> u64 \<Rightarrow> u64" where
  "ALIGN_DOWN x y = (x div y) * y"

definition HIGHER_HALF :: "'a machine_scheme \<Rightarrow> u64 \<Rightarrow> u64" where
  "HIGHER_HALF s ptr = ptr + hhdm_offset s"

definition PHYSICAL :: "'a machine_scheme \<Rightarrow> u64 \<Rightarrow> u64" where
  "PHYSICAL s ptr = ptr - hhdm_offset s"

section \<open>State and operations\<close>

record pmm_state = console_state +
  stack_pages :: u64
  stack_idx :: u64
  stack_max :: u64

record memmap_entry =
  me_base :: u64
  me_length :: u64
  me_type :: u64

text \<open>\<open>stack.pages[stack.idx++] = v\<close>\<close>

definition stack_push :: "u64 \<Rightarrow> 'a pmm_state_scheme \<Rightarrow> 'a pmm_state_scheme" where
  "stack_push v s =
     s\<lparr>mem := store64 (mem s) (stack_pages s + 8 * stack_idx s) v, stack_idx := stack_idx s + 1\<rparr>"

fun count_usable_pages :: "u64 \<Rightarrow> memmap_entry list \<Rightarrow> u64 \<Rightarrow> u64" where
  "count_usable_pages usable [] n = n"
| "count_usable_pages usable (e # es) n =
     count_usable_pages usable es
       (if me_type e = usable then n + DIV_ROUND_UP (me_length e) PAGE_SIZE else n)"

fun carve_stack ::
  "u64 \<Rightarrow> u64 \<Rightarrow> memmap_entry list \<Rightarrow> 'a pmm_state_scheme \<Rightarrow> memmap_entry list \<times> 'a pmm_state_scheme" where
  "carve_stack usable array_size [] s = ([], s)"
| "carve_stack usable array_size (e # es) s =
     (if array_size \<le> me_length e \<and> me_type e = usable
      then (e\<lparr>me_length := me_length e - array_size, me_base := me_base e + array_size\<rparr> # es,
            s\<lparr>stack_pages := HIGHER_HALF s (me_base e)\<rparr>)
      else let (es', s') = carve_stack usable array_size es s in (e # es', s'))"

partial_function (option) push_entry ::
  "memmap_entry \<Rightarrow> u64 \<Rightarrow> 'a pmm_state_scheme \<Rightarrow> 'a pmm_state_scheme option" where
  "push_entry e j s =
     (if j < me_length e then push_entry e (j + PAGE_SIZE) (stack_push (me_base e + j) s)
      else Some s)"

fun push_entries ::
  "u64 \<Rightarrow> memmap_entry list \<Rightarrow> 'a pmm_state_scheme \<Rightarrow> 'a pmm_state_scheme option" where
  "push_entries usable [] s = Some s"
| "push_entries usable (e # es) s =
     (if me_type e = usable
      then do { s' \<leftarrow> push_entry e 0 s; push_entries usable es s' }
      else push_entries usable es s)"

definition pmm_init ::
  "u64 \<Rightarrow> memmap_entry list \<Rightarrow> 'a pmm_state_scheme \<Rightarrow>
   (int \<times> memmap_entry list \<times> 'a pmm_state_scheme) option" where
  "pmm_init usable memmap s =
     (let n_free = count_usable_pages usable memmap 0;
          array_size = ALIGN_UP (n_free * 8) PAGE_SIZE;
          (memmap, s) = carve_stack usable array_size memmap s
      in do { s \<leftarrow> push_entries usable memmap s;
              Some (0, memmap, s\<lparr>stack_max := stack_idx s\<rparr>) })"

definition pmm_request_page :: "'a pmm_state_scheme \<Rightarrow> u64 \<times> 'a pmm_state_scheme" where
  "pmm_request_page s =
     (if stack_idx s = 0 then (NULL, s)
      else let s = s\<lparr>stack_idx := stack_idx s - 1\<rparr>;
               page_addr = load64 (mem s) (stack_pages s + 8 * stack_idx s);
               s = s\<lparr>mem := fst (memset (mem s) (HIGHER_HALF s page_addr) 0 PAGE_SIZE)\<rparr>
           in (page_addr, s))"

definition pmm_free_page :: "u64 \<Rightarrow> 'a pmm_state_scheme \<Rightarrow> 'a pmm_state_scheme" where
  "pmm_free_page ptr s =
     (if ptr = NULL then s
      else if stack_max s \<le> stack_idx s then s
      else stack_push ptr s)"

text \<open>
  The two loops of \<open>pmm_dump\<close>, as the lists of the stack indices whose entries they print.
\<close>

definition pmm_dump_first :: "'a pmm_state_scheme \<Rightarrow> u64 list" where
  "pmm_dump_first s = map of_nat [0..<min (unat (stack_idx s)) 10]"

partial_function (option) pmm_dump_down :: "u64 \<Rightarrow> u64 \<Rightarrow> u64 list option" where
  "pmm_dump_down bound i =
     (if bound \<le> i then do { r \<leftarrow> pmm_dump_down bound (i - 1); Some (i # r) } else Some [])"

definition pmm_dump_last :: "'a pmm_state_scheme \<Rightarrow> u64 list option" where
  "pmm_dump_last s =
     pmm_dump_down (if 0 < stack_idx s - 10 then stack_idx s - 10 else 0) (stack_idx s - 1)"

definition pmm_dump :: "'a pmm_state_scheme \<Rightarrow> (u64 list \<times> u64 list) option" where
  "pmm_dump s =
     (if stack_idx s = 0 then Some ([], [])
      else map_option (Pair (pmm_dump_first s)) (pmm_dump_last s))"

section \<open>Abstraction and invariant\<close>

definition stack_slot :: "'a pmm_state_scheme \<Rightarrow> nat \<Rightarrow> u64" where
  "stack_slot s i = stack_pages s + 8 * of_nat i"

definition free_pages :: "'a pmm_state_scheme \<Rightarrow> u64 list" where
  "free_pages s = map (\<lambda>i. load64 (mem s) (stack_slot s i)) [0..<unat (stack_idx s)]"

definition stack_area :: "'a pmm_state_scheme \<Rightarrow> u64 \<Rightarrow> bool" where
  "stack_area s x \<longleftrightarrow> in_range (stack_pages s) (8 * unat (stack_max s)) x"

text \<open>A page the allocator may hold: aligned, not the null page, and clear of its own array.\<close>

definition page_ok :: "'a pmm_state_scheme \<Rightarrow> u64 \<Rightarrow> bool" where
  "page_ok s p \<longleftrightarrow> page_aligned p \<and> p \<noteq> NULL \<and>
     (\<forall>x. in_range (HIGHER_HALF s p) 4096 x \<longrightarrow> \<not> stack_area s x)"

definition pmm_layout :: "'a pmm_state_scheme \<Rightarrow> bool" where
  "pmm_layout s \<longleftrightarrow> slot_aligned (stack_pages s) \<and> page_aligned (hhdm_offset s) \<and>
     unat (stack_pages s) + 8 * unat (stack_max s) \<le> 2 ^ 64"

definition pmm_inv :: "'a pmm_state_scheme \<Rightarrow> bool" where
  "pmm_inv s \<longleftrightarrow> pmm_layout s \<and> stack_idx s \<le> stack_max s \<and>
     distinct (free_pages s) \<and> (\<forall>p \<in> set (free_pages s). page_ok s p)"

section \<open>Lemmas on slots\<close>

lemma unat_slot_at:
  assumes b: "unat (stack_pages s) + 8 * i < 2 ^ 64"
  shows "unat (stack_slot s i) = unat (stack_pages s) + 8 * i"
proof -
  have "unat (8 * of_nat i :: u64) = 8 * i" using b by (subst unat_word_ariths) simp
  with b show ?thesis
    unfolding stack_slot_def by (subst unat_add_no_wrap) simp_all
qed

lemma unat_stack_slot:
  "pmm_layout s \<Longrightarrow> i < unat (stack_max s) \<Longrightarrow> unat (stack_slot s i) = unat (stack_pages s) + 8 * i"
  by (rule unat_slot_at) (simp add: pmm_layout_def)

lemma slot_aligned_at:
  "slot_aligned (stack_pages s) \<Longrightarrow> unat (stack_pages s) + 8 * i < 2 ^ 64 \<Longrightarrow>
   slot_aligned (stack_slot s i)"
  by (simp add: slot_aligned_def unat_slot_at)

lemma slot_aligned_stack: "pmm_layout s \<Longrightarrow> i < unat (stack_max s) \<Longrightarrow> slot_aligned (stack_slot s i)"
  by (rule slot_aligned_at) (simp_all add: pmm_layout_def)

lemma stack_slot_inj:
  "pmm_layout s \<Longrightarrow> i < unat (stack_max s) \<Longrightarrow> j < unat (stack_max s) \<Longrightarrow>
   stack_slot s i = stack_slot s j \<longleftrightarrow> i = j"
  by (metis add_left_cancel nat_mult_eq_cancel_disj unat_stack_slot zero_neq_numeral)

lemma stack_slot_area:
  assumes "pmm_layout s" and "i < unat (stack_max s)" and "in_range (stack_slot s i) 8 x"
  shows "stack_area s x"
proof -
  have "unat (stack_slot s i) + 8 \<le> 2 ^ 64"
    using slot_aligned_bound [OF slot_aligned_stack [OF assms(1,2)]] by simp
  with assms have "unat (stack_pages s) + 8 * i \<le> unat x" and "unat x < unat (stack_pages s) + 8 * i + 8"
    by (simp_all add: in_range_nat unat_stack_slot)
  moreover have "8 * i + 8 \<le> 8 * unat (stack_max s)" using assms(2) by linarith
  ultimately show ?thesis
    using assms(1) by (simp add: stack_area_def pmm_layout_def in_range_nat)
qed

lemma page_aligned_higher_half:
  "pmm_layout s \<Longrightarrow> page_aligned p \<Longrightarrow> page_aligned (HIGHER_HALF s p)"
  by (simp add: HIGHER_HALF_def pmm_layout_def page_aligned_add)

lemma length_free_pages [simp]: "length (free_pages s) = unat (stack_idx s)"
  by (simp add: free_pages_def)


lemma free_pages_nth: "i < unat (stack_idx s) \<Longrightarrow> free_pages s ! i = load64 (mem s) (stack_slot s i)"
  by (simp add: free_pages_def)

lemma stack_slot_of: "stack_pages s + 8 * stack_idx s = stack_slot s (unat (stack_idx s))"
  by (simp add: stack_slot_def)

lemma pmm_inv_idx: "pmm_inv s \<Longrightarrow> unat (stack_idx s) \<le> unat (stack_max s)"
  by (simp add: pmm_inv_def word_le_nat_alt)

lemma free_pages_cong:
  assumes "pmm_layout s" and "stack_idx s \<le> stack_max s"
    and "stack_pages t = stack_pages s" and "stack_idx t = stack_idx s"
    and "\<And>x. stack_area s x \<Longrightarrow> mem t x = mem s x"
  shows "free_pages t = free_pages s"
proof (rule nth_equalityI)
  fix i assume "i < length (free_pages t)"
  then have i: "i < unat (stack_idx s)" using assms by simp
  then have "i < unat (stack_max s)" using assms(2) by (simp add: word_le_nat_alt)
  then have "load64 (mem t) (stack_slot s i) = load64 (mem s) (stack_slot s i)"
    using assms(1,5) by (intro load64_cong) (blast intro: stack_slot_area)
  then show "free_pages t ! i = free_pages s ! i"
    using i assms(3,4) by (simp add: free_pages_nth stack_slot_def)
qed (use assms in simp)

section \<open>Behaviour of the operations on the abstraction\<close>

definition zero_page :: "memory \<Rightarrow> u64 \<Rightarrow> memory" where
  "zero_page m a = (\<lambda>x. if in_range a 4096 x then 0 else m x)"

lemma memset_zero_page: "fst (memset m a 0 4096) = zero_page m a"
  by (simp add: memset_def memset_loop_apply zero_page_def fun_eq_iff)

lemma pmm_request_empty: "stack_idx s = 0 \<Longrightarrow> pmm_request_page s = (NULL, s)"
  by (simp add: pmm_request_page_def)

lemma free_pages_empty: "free_pages s = [] \<longleftrightarrow> stack_idx s = 0"
  using length_free_pages [of s] by (metis length_0_conv unat_0_iff)

lemma unat_idx_pred: "stack_idx s \<noteq> 0 \<Longrightarrow> unat (stack_idx s - 1) = unat (stack_idx s) - 1"
  by (rule unat_minus_one)

lemma last_free_pages:
  "stack_idx s \<noteq> 0 \<Longrightarrow> last (free_pages s) = load64 (mem s) (stack_pages s + 8 * (stack_idx s - 1))"
proof -
  assume nz: "stack_idx s \<noteq> 0"
  then have "0 < unat (stack_idx s)" by (simp add: unat_gt_0)
  with nz have "last (free_pages s) = load64 (mem s) (stack_slot s (unat (stack_idx s) - 1))"
    by (simp add: last_conv_nth free_pages_empty free_pages_nth)
  also have "stack_slot s (unat (stack_idx s) - 1) = stack_pages s + 8 * (stack_idx s - 1)"
    by (simp only: stack_slot_def unat_idx_pred [OF nz, symmetric]) simp
  finally show ?thesis .
qed

lemma pmm_request_some:
  assumes "stack_idx s \<noteq> 0"
  shows "pmm_request_page s =
    (last (free_pages s),
     s\<lparr>stack_idx := stack_idx s - 1,
       mem := zero_page (mem s) (HIGHER_HALF s (last (free_pages s)))\<rparr>)"
  using assms
  by (simp add: pmm_request_page_def Let_def last_free_pages memset_zero_page HIGHER_HALF_def)

lemma pmm_layout_update:
  "stack_pages t = stack_pages s \<Longrightarrow> stack_max t = stack_max s \<Longrightarrow> hhdm_offset t = hhdm_offset s \<Longrightarrow>
   pmm_layout t = pmm_layout s \<and> page_ok t = page_ok s \<and> stack_area t = stack_area s"
  by (simp add: pmm_layout_def page_ok_def stack_area_def HIGHER_HALF_def fun_eq_iff)

lemma page_ok_area: "page_ok s p \<Longrightarrow> stack_area s x \<Longrightarrow> \<not> in_range (HIGHER_HALF s p) 4096 x"
  by (auto simp: page_ok_def)

lemma pmm_inv_last: "pmm_inv s \<Longrightarrow> stack_idx s \<noteq> 0 \<Longrightarrow> page_ok s (last (free_pages s))"
  by (simp add: pmm_inv_def free_pages_empty)

lemma free_pages_pop:
  assumes "pmm_inv s" and nz: "stack_idx s \<noteq> 0" and "stack_pages t = stack_pages s"
    and idx: "stack_idx t = stack_idx s - 1"
    and "\<And>x. stack_area s x \<Longrightarrow> mem t x = mem s x"
  shows "free_pages t = butlast (free_pages s)"
proof -
  let ?r = "s\<lparr>mem := mem t\<rparr>"
  have "free_pages ?r = free_pages s"
    using assms by (intro free_pages_cong) (auto simp: pmm_inv_def)
  moreover have "free_pages t = butlast (free_pages ?r)"
    using nz idx assms(3) unat_gt_0 [of "stack_idx s"]
    by (cases "unat (stack_idx s)")
      (auto simp: free_pages_def unat_idx_pred stack_slot_def butlast_append)
  ultimately show ?thesis by simp
qed

text \<open>
  The contract of \<open>pmm_request_page\<close>: with a free page it returns the top of the stack and pops
  it, the page reads as zeroes, no other byte of memory changes, and the invariant is kept.
\<close>

lemma pmm_request_contract:
  assumes inv: "pmm_inv s" and ne: "free_pages s \<noteq> []" and req: "pmm_request_page s = (p, t)"
  shows "p = last (free_pages s)" and "free_pages t = butlast (free_pages s)"
    and "mem t = zero_page (mem s) (HIGHER_HALF s p)" and "page_ok s p" and "pmm_inv t"
    and "stack_pages t = stack_pages s" and "stack_max t = stack_max s" and "hhdm_offset t = hhdm_offset s"
proof -
  have nz: "stack_idx s \<noteq> 0" using ne by (simp add: free_pages_empty)
  note r = pmm_request_some [OF nz]
  show p: "p = last (free_pages s)" and m: "mem t = zero_page (mem s) (HIGHER_HALF s p)"
    and f: "stack_pages t = stack_pages s" "stack_max t = stack_max s" "hhdm_offset t = hhdm_offset s"
    using req by (auto simp: r)
  have idx: "stack_idx t = stack_idx s - 1" using req by (auto simp: r)
  show ok: "page_ok s p" using pmm_inv_last [OF inv nz] p by simp
  have "mem t x = mem s x" if "stack_area s x" for x
    using page_ok_area [OF ok that] m by (simp add: zero_page_def)
  then show fr: "free_pages t = butlast (free_pages s)"
    using inv nz f idx by (intro free_pages_pop)
  have "stack_idx t \<le> stack_max t"
    using inv f idx unat_idx_pred [OF nz] by (auto simp: pmm_inv_def word_le_nat_alt)
  then show "pmm_inv t"
    using inv f pmm_layout_update [OF f] fr
    by (auto simp: pmm_inv_def distinct_butlast dest: in_set_butlastD)
qed

lemma free_pages_push:
  assumes al: "slot_aligned (stack_pages s)"
    and room: "unat (stack_pages s) + 8 * (unat (stack_idx s) + 1) \<le> 2 ^ 64"
  shows "free_pages (stack_push v s) = free_pages s @ [v]"
    and "unat (stack_idx (stack_push v s)) = unat (stack_idx s) + 1"
proof -
  let ?t = "stack_push v s" and ?n = "unat (stack_idx s)"
  show idx: "unat (stack_idx ?t) = ?n + 1"
    using room by (simp add: stack_push_def unat_word_ariths)
  have "load64 (mem ?t) (stack_slot s i) = (if i = ?n then v else load64 (mem s) (stack_slot s i))"
    if i: "i \<le> ?n" for i
  proof -
    have b: "unat (stack_pages s) + 8 * i < 2 ^ 64" "unat (stack_pages s) + 8 * ?n < 2 ^ 64"
      using i room by simp_all
    then have "stack_slot s ?n = stack_slot s i \<longleftrightarrow> i = ?n"
      using unat_slot_at [OF b(1)] unat_slot_at [OF b(2)]
      by (metis add_left_cancel nat_mult_eq_cancel_disj zero_neq_numeral)
    then show ?thesis
      using b al by (simp add: stack_push_def stack_slot_of load64_store64_slot slot_aligned_at)
  qed
  moreover have "stack_slot ?t = stack_slot s" by (simp add: stack_slot_def stack_push_def fun_eq_iff)
  ultimately show "free_pages ?t = free_pages s @ [v]"
    by (simp add: free_pages_def idx)
qed

text \<open>
  The contract of \<open>pmm_free_page\<close>: below capacity the page goes on top of the stack, and the
  only bytes written are those of the slot in the array.
\<close>

lemma pmm_free_contract:
  assumes inv: "pmm_inv s" and ok: "page_ok s p" and room: "stack_idx s < stack_max s"
  shows "free_pages (pmm_free_page p s) = free_pages s @ [p]"
    and "\<not> stack_area s x \<Longrightarrow> mem (pmm_free_page p s) x = mem s x"
    and "p \<notin> set (free_pages s) \<Longrightarrow> pmm_inv (pmm_free_page p s)"
    and "stack_pages (pmm_free_page p s) = stack_pages s"
    and "stack_max (pmm_free_page p s) = stack_max s"
    and "hhdm_offset (pmm_free_page p s) = hhdm_offset s"
proof -
  let ?t = "pmm_free_page p s" and ?n = "unat (stack_idx s)"
  have n: "?n < unat (stack_max s)" using room by (simp add: word_less_nat_alt)
  have lay: "pmm_layout s" using inv by (simp add: pmm_inv_def)
  have t: "?t = stack_push p s" using ok room by (simp add: pmm_free_page_def page_ok_def)
  then show f: "stack_pages ?t = stack_pages s" "stack_max ?t = stack_max s"
    "hhdm_offset ?t = hhdm_offset s" by (simp_all add: stack_push_def)
  show m: "mem ?t x = mem s x" if "\<not> stack_area s x"
    using that stack_slot_area [OF lay n] by (auto simp: t stack_push_def stack_slot_of store64_apply)
  have "slot_aligned (stack_pages s)" "unat (stack_pages s) + 8 * (?n + 1) \<le> 2 ^ 64"
    using lay n by (auto simp: pmm_layout_def)
  note push = free_pages_push [OF this, of p]
  show fr: "free_pages ?t = free_pages s @ [p]" using push(1) by (simp add: t)
  have idx: "unat (stack_idx ?t) = Suc ?n" using push(2) by (simp add: t)
  have "stack_idx ?t \<le> stack_max ?t" using idx n f by (simp add: word_le_nat_alt)
  then show "pmm_inv ?t" if "p \<notin> set (free_pages s)"
    using that inv ok fr pmm_layout_update [OF f] by (auto simp: pmm_inv_def)
qed

section \<open>The interface of the allocator\<close>

text \<open>
  What the clients of the allocator (the page-table code, the region allocator and the
  scheduler) rely on: a request pops the list of free frames and reports an empty one by the
  null pointer, a release of a frame that is not in the list appends it, and both keep the
  invariant and the capacity.
\<close>

locale page_allocator =
  fixes request :: "'s \<Rightarrow> u64 \<times> 's"
    and release :: "u64 \<Rightarrow> 's \<Rightarrow> 's"
    and frames :: "'s \<Rightarrow> u64 list"
    and capacity :: "'s \<Rightarrow> nat"
    and usable :: "'s \<Rightarrow> u64 \<Rightarrow> bool"
    and valid :: "'s \<Rightarrow> bool"
  assumes request_empty: "frames s = [] \<Longrightarrow> request s = (NULL, s)"
    and request_pop: "valid s \<Longrightarrow> frames s \<noteq> [] \<Longrightarrow> request s = (p, t) \<Longrightarrow>
      p = last (frames s) \<and> frames t = butlast (frames s) \<and> usable s p \<and> valid t \<and>
      capacity t = capacity s \<and> usable t = usable s"
    and release_push: "valid s \<Longrightarrow> usable s p \<Longrightarrow> length (frames s) < capacity s \<Longrightarrow>
      p \<notin> set (frames s) \<Longrightarrow>
      frames (release p s) = frames s @ [p] \<and> valid (release p s) \<and>
      capacity (release p s) = capacity s \<and> usable (release p s) = usable s"
    and usable_nonnull: "usable s p \<Longrightarrow> p \<noteq> NULL"
    and frames_distinct: "valid s \<Longrightarrow> distinct (frames s)"
    and frames_usable: "valid s \<Longrightarrow> p \<in> set (frames s) \<Longrightarrow> usable s p"
begin

lemma request_null_iff: "valid s \<Longrightarrow> fst (request s) = NULL \<longleftrightarrow> frames s = []"
  by (metis request_empty request_pop usable_nonnull fst_conv surj_pair)

lemma request_release:
  assumes "valid s" and "frames s \<noteq> []" and "request s = (p, t)" and "length (frames s) \<le> capacity s"
  shows "frames (release p t) = frames s \<and> valid (release p t)"
proof -
  have t: "p = last (frames s)" "frames t = butlast (frames s)" "usable s p" "valid t"
    "capacity t = capacity s" "usable t = usable s" using request_pop [OF assms(1-3)] by auto
  have eq: "frames t @ [p] = frames s" using assms(2) t by simp
  have d: "distinct (frames t @ [p])" unfolding eq using assms(1) by (rule frames_distinct)
  have "length (frames t @ [p]) \<le> capacity t" using assms(4) eq t by simp
  with d t show ?thesis using release_push [of t p] eq by simp
qed

lemma release_request:
  assumes "valid s" and "usable s p" and "p \<notin> set (frames s)" and "length (frames s) < capacity s"
  shows "fst (request (release p s)) = p \<and> frames (snd (request (release p s))) = frames s"
  using release_push [OF assms(1,2,4,3)] request_pop [of "release p s"]
  by (metis append_is_Nil_conv butlast_snoc last_snoc not_Cons_self2 prod.collapse)

text \<open>
  Ownership: the clients hold the frames handed out and not yet released, and with the free
  frames these make up the pool.
\<close>

definition own_inv :: "u64 set \<Rightarrow> 's \<Rightarrow> u64 list \<Rightarrow> bool" where
  "own_inv P s owned \<longleftrightarrow> valid s \<and> distinct (owned @ frames s) \<and>
     set owned \<union> set (frames s) = P \<and> card P \<le> capacity s \<and> (\<forall>p \<in> P. usable s p)"

lemma own_alloc:
  assumes "request s = (p, t)" and "p \<noteq> NULL" and own: "own_inv P s owned"
  shows "own_inv P t (p # owned)"
proof -
  have v: "valid s" using own by (simp add: own_inv_def)
  then have ne: "frames s \<noteq> []" using assms request_null_iff by force
  note r = request_pop [OF v ne assms(1)]
  then have eq: "frames s = frames t @ [p]" using ne by simp
  have "valid t" "capacity t = capacity s" "usable t = usable s" using r by auto
  then show ?thesis using own by (auto simp: own_inv_def eq)
qed

lemma own_exhausted: "request s = (NULL, t) \<Longrightarrow> own_inv P s owned \<Longrightarrow> t = s"
  using request_null_iff [of s] request_empty [of s] by (auto simp: own_inv_def)

lemma own_free:
  assumes "p \<in> set owned" and own: "own_inv P s owned"
  shows "own_inv P (release p s) (remove1 p owned)"
proof -
  have d: "valid s" "distinct owned" "distinct (frames s)" "set owned \<inter> set (frames s) = {}" "usable s p"
    and P: "set owned \<union> set (frames s) = P" "card P \<le> capacity s" using assms by (auto simp: own_inv_def)
  have c: "card P = length owned + length (frames s)"
    unfolding P(1) [symmetric] using d by (simp add: card_Un_disjoint distinct_card)
  have nf: "p \<notin> set (frames s)" and "0 < length owned" using assms(1) d by auto
  then have "length (frames s) < capacity s" using c P(2) by linarith
  note r = release_push [OF d(1,5) this nf]
  show ?thesis using assms r d P unfolding own_inv_def by auto
qed

end

interpretation pmm: page_allocator pmm_request_page pmm_free_page free_pages
  "\<lambda>s. unat (stack_max s)" page_ok pmm_inv
proof
  fix s :: "'a pmm_state_scheme" and p t
  show "free_pages s = [] \<Longrightarrow> pmm_request_page s = (NULL, s)"
    by (simp add: free_pages_empty pmm_request_empty)
  show "p = last (free_pages s) \<and> free_pages t = butlast (free_pages s) \<and> page_ok s p \<and> pmm_inv t \<and>
      unat (stack_max t) = unat (stack_max s) \<and> page_ok t = page_ok s"
    if "pmm_inv s" and "free_pages s \<noteq> []" and "pmm_request_page s = (p, t)"
    using pmm_request_contract [OF that] pmm_layout_update [of t s] by simp
  show "free_pages (pmm_free_page p s) = free_pages s @ [p] \<and> pmm_inv (pmm_free_page p s) \<and>
      unat (stack_max (pmm_free_page p s)) = unat (stack_max s) \<and> page_ok (pmm_free_page p s) = page_ok s"
    if "pmm_inv s" and "page_ok s p" and "length (free_pages s) < unat (stack_max s)"
      and "p \<notin> set (free_pages s)"
  proof -
    have "stack_idx s < stack_max s" using that by (simp add: word_less_nat_alt)
    note c = pmm_free_contract [OF that(1,2) this]
    then show ?thesis using pmm_layout_update [of "pmm_free_page p s" s] that(4) by simp
  qed
qed (auto simp: page_ok_def pmm_inv_def)

section \<open>Clients and the pool\<close>

text \<open>
  Any client may request a page, give back one it owns, or write what it likes into a page it
  owns through the direct map.
\<close>

inductive pool_step ::
  "'a pmm_state_scheme \<times> u64 list \<Rightarrow> 'a pmm_state_scheme \<times> u64 list \<Rightarrow> bool" where
  alloc: "pmm_request_page s = (p, t) \<Longrightarrow> p \<noteq> NULL \<Longrightarrow> pool_step (s, owned) (t, p # owned)"
| exhausted: "pmm_request_page s = (NULL, t) \<Longrightarrow> pool_step (s, owned) (t, owned)"
| free: "p \<in> set owned \<Longrightarrow> pool_step (s, owned) (pmm_free_page p s, remove1 p owned)"
| client_write: "p \<in> set owned \<Longrightarrow> in_range (HIGHER_HALF s p) 4096 a \<Longrightarrow>
    pool_step (s, owned) (s\<lparr>mem := (mem s)(a := v)\<rparr>, owned)"

abbreviation pool_inv :: "u64 set \<Rightarrow> 'a pmm_state_scheme \<times> u64 list \<Rightarrow> bool" where
  "pool_inv P x \<equiv> pmm.own_inv P (fst x) (snd x)"

lemma pmm_mem_update:
  assumes "pmm_inv s" and "\<And>x. stack_area s x \<Longrightarrow> m x = mem s x"
  shows "free_pages (s\<lparr>mem := m\<rparr>) = free_pages s" and "pmm_inv (s\<lparr>mem := m\<rparr>)"
proof -
  show f: "free_pages (s\<lparr>mem := m\<rparr>) = free_pages s"
    using assms by (intro free_pages_cong) (auto simp: pmm_inv_def)
  show "pmm_inv (s\<lparr>mem := m\<rparr>)"
    using assms(1) f pmm_layout_update [of "s\<lparr>mem := m\<rparr>" s] by (simp add: pmm_inv_def)
qed

lemma pmm_write_frame:
  assumes "pmm_inv s" and "page_ok s p" and "in_range (HIGHER_HALF s p) 4096 a"
  shows "free_pages (s\<lparr>mem := (mem s)(a := v)\<rparr>) = free_pages s" and "pmm_inv (s\<lparr>mem := (mem s)(a := v)\<rparr>)"
proof -
  have "((mem s)(a := v)) x = mem s x" if "stack_area s x" for x
    using page_ok_area [OF assms(2) that] assms(3) by auto
  from pmm_mem_update [OF assms(1) this]
  show "free_pages (s\<lparr>mem := (mem s)(a := v)\<rparr>) = free_pages s" "pmm_inv (s\<lparr>mem := (mem s)(a := v)\<rparr>)"
    by blast+
qed

lemma pool_step_inv: "pool_step x y \<Longrightarrow> pool_inv P x \<Longrightarrow> pool_inv P y"
proof (induction rule: pool_step.induct)
  case (client_write p owned s a v)
  then have "pmm_inv s" "page_ok s p" by (auto simp: pmm.own_inv_def)
  note w = pmm_write_frame [OF this client_write.hyps(2), of v]
  show ?case using client_write.prems w pmm_layout_update [of "s\<lparr>mem := (mem s)(a := v)\<rparr>" s]
    by (simp add: pmm.own_inv_def)
qed (auto dest: pmm.own_exhausted intro: pmm.own_alloc pmm.own_free)

definition pool_start :: "u64 set \<Rightarrow> 'a pmm_state_scheme \<times> u64 list \<Rightarrow> bool" where
  "pool_start P x \<longleftrightarrow> pmm_inv (fst x) \<and> snd x = [] \<and> set (free_pages (fst x)) = P"

interpretation pool: invariant_system "pool_start P" pool_step "pool_inv P" for P
proof
  fix s t :: "'a pmm_state_scheme \<times> u64 list"
  show "pool_inv P s" if "pool_start P s"
    using that pmm_inv_idx [of "fst s"]
    by (auto simp: pool_start_def pmm.own_inv_def pmm_inv_def distinct_card)
  show "pool_inv P t" if "pool_inv P s" and "pool_step s t"
    using that(2,1) by (rule pool_step_inv)
qed

section \<open>Initialisation\<close>

definition entry_pages :: "memmap_entry \<Rightarrow> u64 list" where
  "entry_pages e = map (\<lambda>k. me_base e + 4096 * of_nat k) [0..<unat (me_length e) div 4096]"

definition memmap_pages :: "u64 \<Rightarrow> memmap_entry list \<Rightarrow> u64 list" where
  "memmap_pages usable es = concat (map entry_pages (filter (\<lambda>e. me_type e = usable) es))"

text \<open>
  What the boot loader guarantees of usable regions: bases and lengths are multiples of the
  page size, no page is in two regions, and the direct map covers the regions without
  wrapping. The null page is not usable.
\<close>

definition memmap_ok :: "u64 \<Rightarrow> u64 \<Rightarrow> memmap_entry list \<Rightarrow> bool" where
  "memmap_ok usable hhdm es \<longleftrightarrow>
     (\<forall>e \<in> set es. me_type e = usable \<longrightarrow> page_aligned (me_base e) \<and> page_aligned (me_length e) \<and>
        unat hhdm + unat (me_base e) + unat (me_length e) < 2 ^ 64) \<and>
     distinct (memmap_pages usable es) \<and> NULL \<notin> set (memmap_pages usable es)"

lemma page_aligned_DIV_ROUND_UP:
  "page_aligned n \<Longrightarrow> DIV_ROUND_UP n 4096 = of_nat (unat n div 4096)"
proof -
  assume n: "page_aligned n"
  then obtain k where k: "unat n = 4096 * k" by (auto simp: page_aligned_def)
  have "unat (n + 4095) = unat n + 4095"
    using page_aligned_bound [OF n] by (simp add: unat_word_ariths)
  then have "unat ((n + 4095) div 4096) = k" using k by (simp add: unat_div)
  then have "(n + 4095) div 4096 = of_nat k" by (metis of_nat_unat ucast_id)
  then show ?thesis by (simp add: DIV_ROUND_UP_def k)
qed

lemma count_usable_pages_eq:
  "\<forall>e \<in> set es. me_type e = usable \<longrightarrow> page_aligned (me_length e) \<Longrightarrow>
   count_usable_pages usable es n = n + of_nat (length (memmap_pages usable es))"
  by (induction es arbitrary: n)
    (auto simp: memmap_pages_def entry_pages_def page_aligned_DIV_ROUND_UP)

lemma memmap_pages_aligned:
  "memmap_ok usable h es \<Longrightarrow> p \<in> set (memmap_pages usable es) \<Longrightarrow> page_aligned p"
  by (auto simp: memmap_ok_def memmap_pages_def entry_pages_def intro: page_aligned_add)

lemma distinct_pages_bound:
  assumes "distinct ps" and "\<forall>p \<in> set ps. page_aligned p"
  shows "length ps \<le> 2 ^ 52"
proof -
  have "inj_on page_no (set ps)" using assms(2) by (auto simp: inj_on_def page_no_inj)
  then have "length ps = card (page_no ` set ps)" using assms(1) by (simp add: card_image distinct_card)
  also have "\<dots> \<le> card {..<2 ^ 52 :: nat}"
  proof (rule card_mono)
    show "page_no ` set ps \<subseteq> {..<2 ^ 52}"
      using unat_u64_less by (auto simp: page_no_def less_mult_imp_div_less)
  qed simp
  finally show ?thesis by simp
qed

lemma stack_push_frame [simp]:
  "stack_pages (stack_push v s) = stack_pages s" "stack_max (stack_push v s) = stack_max s"
  "hhdm_offset (stack_push v s) = hhdm_offset s" "stack_idx (stack_push v s) = stack_idx s + 1"
  by (simp_all add: stack_push_def)

lemma fold_stack_push_frame [simp]:
  "stack_pages (fold stack_push vs s) = stack_pages s" "stack_max (fold stack_push vs s) = stack_max s"
  "hhdm_offset (fold stack_push vs s) = hhdm_offset s"
  "stack_idx (fold stack_push vs s) = stack_idx s + of_nat (length vs)"
  by (induction vs arbitrary: s) simp_all

text \<open>The pages pushed by the inner loop, which returns because the length is a multiple of the page size.\<close>

lemma push_entry_from:
  assumes "page_aligned (me_length e)" and "k \<le> unat (me_length e) div 4096"
  shows "push_entry e (4096 * of_nat k) s =
    Some (fold stack_push (map (\<lambda>k. me_base e + 4096 * of_nat k) [k..<unat (me_length e) div 4096]) s)"
  using assms(2)
proof (induction "unat (me_length e) div 4096 - k" arbitrary: k s)
  case (Suc d)
  let ?n = "unat (me_length e) div 4096"
  have k: "k < ?n" using Suc.hyps(2) by simp
  have len: "unat (me_length e) = 4096 * ?n" using assms(1) by (simp add: page_aligned_def)
  have "unat (4096 * of_nat k :: u64) = 4096 * k"
    using k len unat_u64_less [of "me_length e"] by (subst unat_word_ariths) simp
  then have "(4096 * of_nat k :: u64) < me_length e" using k len by (simp add: word_less_nat_alt)
  moreover have "(4096 * of_nat k :: u64) + 4096 = 4096 * of_nat (Suc k)" by (simp add: algebra_simps)
  ultimately have "push_entry e (4096 * of_nat k) s =
      push_entry e (4096 * of_nat (Suc k)) (stack_push (me_base e + 4096 * of_nat k) s)"
    by (subst push_entry.simps) (simp add: add.commute)
  also have "\<dots> = Some (fold stack_push (map (\<lambda>k. me_base e + 4096 * of_nat k) [Suc k..<?n])
      (stack_push (me_base e + 4096 * of_nat k) s))"
    using Suc.hyps k by (intro Suc.hyps(1)) simp_all
  finally show ?case using k by (simp add: upt_conv_Cons)
next
  case 0
  then have k: "k = unat (me_length e) div 4096" by simp
  have "(4096 * of_nat k :: u64) = me_length e"
    using assms(1) unat_u64_less [of "me_length e"] unfolding k
    by (intro word_unat_eq_iff [THEN iffD2], subst unat_word_ariths) (simp add: page_aligned_def)
  then show ?case by (subst push_entry.simps) (simp add: k)
qed

lemma push_entry_pages:
  "page_aligned (me_length e) \<Longrightarrow> push_entry e 0 s = Some (fold stack_push (entry_pages e) s)"
  using push_entry_from [of e 0 s] by (simp add: entry_pages_def)

lemma push_entries_pages:
  "\<forall>e \<in> set es. me_type e = usable \<longrightarrow> page_aligned (me_length e) \<Longrightarrow>
   push_entries usable es s = Some (fold stack_push (memmap_pages usable es) s)"
  by (induction es arbitrary: s) (auto simp: memmap_pages_def push_entry_pages)

lemma fold_push_free_pages:
  "slot_aligned (stack_pages s) \<Longrightarrow>
   unat (stack_pages s) + 8 * (unat (stack_idx s) + length vs) \<le> 2 ^ 64 \<Longrightarrow>
   free_pages (fold stack_push vs s) = free_pages s @ vs"
proof (induction vs arbitrary: s)
  case (Cons v vs)
  then have "unat (stack_pages s) + 8 * (unat (stack_idx s) + 1) \<le> 2 ^ 64" by simp
  note push = free_pages_push [OF Cons.prems(1) this, of v]
  have "free_pages (fold stack_push vs (stack_push v s)) = free_pages (stack_push v s) @ vs"
    using Cons.prems push(2) by (intro Cons.IH) simp_all
  then show ?case by (simp add: push(1))
qed simp

lemma fold_push_outside:
  "unat (stack_idx s) + length vs < 2 ^ 60 \<Longrightarrow> \<not> in_range (stack_pages s) (8 * (unat (stack_idx s) + length vs)) x \<Longrightarrow>
   mem (fold stack_push vs s) x = mem s x"
proof (induction vs arbitrary: s)
  case (Cons v vs)
  let ?n = "unat (stack_idx s)"
  have idx: "unat (stack_idx s + 1) = ?n + 1" using Cons.prems(1) by (subst unat_add_no_wrap) simp_all
  have "unat (8 * stack_idx s) = 8 * ?n" using Cons.prems(1) by (subst unat_word_ariths) simp
  then have le: "unat (8 * stack_idx s) + 8 \<le> 8 * (?n + length (v # vs))" "8 * (?n + length (v # vs)) < 2 ^ 64" using Cons.prems(1) by simp_all
  have "\<not> in_range (stack_pages s + 8 * stack_idx s) 8 x" using in_range_sub [OF le] Cons.prems(2) by blast
  then have "mem (stack_push v s) x = mem s x" by (simp add: stack_push_def store64_other)
  moreover have "mem (fold stack_push vs (stack_push v s)) x = mem (stack_push v s) x"
    using Cons.prems idx by (intro Cons.IH) (simp_all add: stack_push_def)
  ultimately show ?case by simp
qed simp

lemma carve_stack_some:
  "\<exists>e \<in> set es. array_size \<le> me_length e \<and> me_type e = usable \<Longrightarrow>
   \<exists>as e bs. es = as @ e # bs \<and> array_size \<le> me_length e \<and> me_type e = usable \<and>
     carve_stack usable array_size es s =
       (as @ e\<lparr>me_length := me_length e - array_size, me_base := me_base e + array_size\<rparr> # bs,
        s\<lparr>stack_pages := HIGHER_HALF s (me_base e)\<rparr>)"
proof (induction es)
  case (Cons e es)
  show ?case
  proof (cases "array_size \<le> me_length e \<and> me_type e = usable")
    case True
    then show ?thesis by (intro exI [of _ "[]"] exI [of _ e] exI [of _ es]) simp
  next
    case False
    with Cons obtain as e' bs where ih: "es = as @ e' # bs" "array_size \<le> me_length e'" "me_type e' = usable"
      "carve_stack usable array_size es s =
       (as @ e'\<lparr>me_length := me_length e' - array_size, me_base := me_base e' + array_size\<rparr> # bs,
        s\<lparr>stack_pages := HIGHER_HALF s (me_base e')\<rparr>)" by auto
    then show ?thesis
      using False
      by - (rule exI [of _ "e # as"], rule exI [of _ e'], rule exI [of _ bs], auto)
  qed
qed simp

lemma entry_pages_carved:
  assumes "page_aligned (me_length e)" and "unat array_size = 4096 * k" and "array_size \<le> me_length e"
  shows "entry_pages (e\<lparr>me_length := me_length e - array_size, me_base := me_base e + array_size\<rparr>) =
    drop k (entry_pages e)"
proof -
  have n: "unat (me_length e - array_size) div 4096 = unat (me_length e) div 4096 - k"
    using assms by (auto simp: page_aligned_def unat_diff_le)
  have a: "array_size = 4096 * of_nat k"
    using assms(2) unat_u64_less [of array_size]
    by (intro word_unat_eq_iff [THEN iffD2], subst unat_word_ariths) simp
  have "entry_pages (e\<lparr>me_length := me_length e - array_size, me_base := me_base e + array_size\<rparr>) =
      map (\<lambda>i. me_base e + array_size + 4096 * of_nat i) [0..<unat (me_length e) div 4096 - k]"
    by (simp add: entry_pages_def n)
  also have "\<dots> = drop k (entry_pages e)"
  proof (rule nth_equalityI)
    fix i assume "i < length (map (\<lambda>i. me_base e + array_size + 4096 * of_nat i)
      [0..<unat (me_length e) div 4096 - k])"
    then have "i < unat (me_length e) div 4096 - k" and "k + i < unat (me_length e) div 4096" by simp_all
    then show "map (\<lambda>i. me_base e + array_size + 4096 * of_nat i)
      [0..<unat (me_length e) div 4096 - k] ! i = drop k (entry_pages e) ! i"
      by (simp add: entry_pages_def a distrib_left add.assoc nth_append)
  qed (simp add: entry_pages_def)
  finally show ?thesis .
qed

lemma unat_array_size:
  assumes "n \<le> 2 ^ 52"
  shows "unat (ALIGN_UP (of_nat n * 8) 4096) = 4096 * ((8 * n + 4095) div 4096)"
proof -
  have "unat (of_nat n * 8 :: u64) = 8 * n" using assms by (subst unat_word_ariths) simp
  moreover have "unat (of_nat n * 8 + 4095 :: u64) = 8 * n + 4095"
    using assms calculation by (subst unat_word_ariths) simp
  ultimately have d: "unat (DIV_ROUND_UP (of_nat n * 8) 4096 :: u64) = (8 * n + 4095) div 4096"
    by (simp add: DIV_ROUND_UP_def unat_div)
  have "(8 * n + 4095) div 4096 * 4096 < 2 ^ 64" using assms by simp
  with d show ?thesis unfolding ALIGN_UP_def by (subst unat_word_ariths) simp
qed

text \<open>Every byte of the array lies in one of the pages that are carved off.\<close>

lemma carved_array_page:
  assumes k: "k \<le> unat (me_length e) div 4096" and x: "in_range (me_base e + h) (4096 * k) x"
  shows "\<exists>q \<in> set (take k (entry_pages e)). in_range (q + h) 4096 x"
proof -
  define d where "d = unat (x - (me_base e + h))"
  define q where "q = me_base e + 4096 * of_nat (d div 4096)"
  have d: "d < 4096 * k" using x by (simp add: in_range_def d_def)
  then have i: "d div 4096 < k" by (simp add: less_mult_imp_div_less mult.commute)
  then have q: "q \<in> set (take k (entry_pages e))"
    using k by (auto simp: q_def entry_pages_def take_map take_upt)
  have "(of_nat d :: u64) = of_nat (4096 * (d div 4096) + d mod 4096)" by simp
  also have "\<dots> = 4096 * of_nat (d div 4096) + of_nat (d mod 4096)" by (simp only: of_nat_add of_nat_mult) simp
  finally have "x - (q + h) = of_nat (d mod 4096)"
    by (simp add: q_def d_def algebra_simps)
  then have "in_range (q + h) 4096 x" by (simp add: in_range_def)
  then show ?thesis using q by blast
qed

lemma carved_array_clear:
  assumes e: "page_aligned (me_base e)" "page_aligned (me_length e)" and h: "page_aligned h"
    and k: "k \<le> unat (me_length e) div 4096"
    and p: "page_aligned p" "p \<notin> set (take k (entry_pages e))"
    and x: "in_range (p + h) 4096 x" "in_range (me_base e + h) (4096 * k) x"
  shows False
proof -
  obtain q where q: "q \<in> set (take k (entry_pages e))" "in_range (q + h) 4096 x" using carved_array_page [OF k x(2)] by blast
  then have "q \<noteq> p" using p by auto
  have "q \<in> set (entry_pages e)" using q(1) by (rule in_set_takeD)
  then have al: "page_aligned (q + h)" "page_aligned (p + h)"
    using e h p by (auto simp: entry_pages_def page_aligned_add)
  have "in_range (q + h) 4096 x" by (rule q(2))
  then have "page_no (q + h) = page_no (p + h)" using x(1) al by (simp add: in_page)
  then show False using al \<open>q \<noteq> p\<close> by (simp add: page_no_inj)
qed


text \<open>
  The state after initialisation, for a memory map with a usable region large enough for the
  array: the array starts where that region started, and the stack holds exactly the pages of
  the usable regions that the array does not occupy.
\<close>

lemma pmm_init_carved:
  assumes ok: "memmap_ok usable (hhdm_offset s) es" and h: "page_aligned (hhdm_offset s)"
    and idx: "stack_idx s = 0" and n: "n = length (memmap_pages usable es)"
    and fits: "\<exists>e \<in> set es. ALIGN_UP (of_nat n * 8) 4096 \<le> me_length e \<and> me_type e = usable"
  obtains as e bs k t es' where "es = as @ e # bs" "me_type e = usable" "k = (8 * n + 4095) div 4096"
    "k \<le> unat (me_length e) div 4096" "pmm_init usable es s = Some (0, es', t)"
    "free_pages t = memmap_pages usable as @ drop k (entry_pages e) @ memmap_pages usable bs"
    "stack_pages t = HIGHER_HALF s (me_base e)" "unat (stack_max t) = length (free_pages t)"
    "stack_idx t = stack_max t" "hhdm_offset t = hhdm_offset s" "\<forall>x. \<not> stack_area t x \<longrightarrow> mem t x = mem s x"
proof -
  have n_bound: "n \<le> 2 ^ 52"
    using ok memmap_pages_aligned [OF ok] n distinct_pages_bound by (auto simp: memmap_ok_def)
  let ?a = "ALIGN_UP (of_nat n * 8) 4096 :: u64" and ?k = "(8 * n + 4095) div 4096"
  have cnt: "count_usable_pages usable es 0 = of_nat n"
    using ok by (subst count_usable_pages_eq) (auto simp: memmap_ok_def n)
  from carve_stack_some [OF fits, of s] obtain as e bs where es: "es = as @ e # bs"
    and e: "?a \<le> me_length e" "me_type e = usable"
    and carve: "carve_stack usable ?a es s =
       (as @ e\<lparr>me_length := me_length e - ?a, me_base := me_base e + ?a\<rparr> # bs,
        s\<lparr>stack_pages := HIGHER_HALF s (me_base e)\<rparr>)" (is "_ = (?es, ?s)") by blast
  have al: "page_aligned (me_base e)" "page_aligned (me_length e)"
    and wrap: "unat (hhdm_offset s) + unat (me_base e) + unat (me_length e) < 2 ^ 64"
    using ok e(2) es by (auto simp: memmap_ok_def)
  note ua = unat_array_size [OF n_bound]
  have k: "?k \<le> unat (me_length e) div 4096" "4096 * ?k \<le> unat (me_length e)"
    using e(1) ua al(2) by (auto simp: word_le_nat_alt page_aligned_def)
  define ps where "ps = memmap_pages usable as @ drop ?k (entry_pages e) @ memmap_pages usable bs"
  have "memmap_pages usable ?es = ps"
    using e(2) entry_pages_carved [OF al(2) ua e(1)] by (simp add: ps_def memmap_pages_def)
  moreover have "\<forall>e \<in> set ?es. me_type e = usable \<longrightarrow> page_aligned (me_length e)"
    using ok es al(2) ua by (auto simp: memmap_ok_def intro!: page_aligned_diff) (simp add: page_aligned_def)
  ultimately have push: "push_entries usable ?es ?s = Some (fold stack_push ps ?s)"
    by (simp add: push_entries_pages)
  let ?t = "fold stack_push ps ?s"
  have len: "length ps \<le> n" by (simp add: ps_def n es memmap_pages_def e(2))
  have hh: "unat (HIGHER_HALF s (me_base e)) = unat (me_base e) + unat (hhdm_offset s)"
    using wrap unfolding HIGHER_HALF_def by (intro unat_add_no_wrap) simp
  have "unat (HIGHER_HALF s (me_base e)) + 8 * length ps \<le> 2 ^ 64"
    using hh wrap k(2) len by linarith
  then have fp: "free_pages ?t = ps"
    using al(1) h idx
    by (subst fold_push_free_pages) (simp_all add: free_pages_empty HIGHER_HALF_def page_aligned_add)
  have um: "unat (stack_idx ?t) = length ps" using idx len n_bound by simp
  have "length ps < 2 ^ 60" using len n_bound by simp
  then have out: "\<forall>x. \<not> in_range (HIGHER_HALF s (me_base e)) (8 * length ps) x \<longrightarrow> mem ?t x = mem s x"
    using fold_push_outside [of ?s ps] idx by simp
  show ?thesis
  proof (rule that [OF es e(2) refl k(1)])
    show "pmm_init usable es s = Some (0, ?es, ?t\<lparr>stack_max := stack_idx ?t\<rparr>)"
      by (simp add: pmm_init_def cnt carve push Let_def)
  qed (use fp um out in \<open>simp_all add: ps_def free_pages_def stack_slot_def stack_area_def\<close>)
qed

lemma distinct_append_swap_head:
  "distinct (as @ (bs @ cs) @ ds) \<Longrightarrow> distinct (bs @ as @ cs @ ds)"
  by auto

lemma carved_page_ok:
  assumes al: "page_aligned (me_base e)" "page_aligned (me_length e)" "page_aligned (hhdm_offset t)"
    and k: "k \<le> unat (me_length e) div 4096" "8 * unat (stack_max t) \<le> 4096 * k"
    and p: "page_aligned p" "p \<noteq> NULL" "p \<notin> set (take k (entry_pages e))"
    and t: "stack_pages t = HIGHER_HALF t (me_base e)"
  shows "page_ok t p"
proof -
  have "False" if "in_range (p + hhdm_offset t) 4096 x" and "stack_area t x" for x
  proof (rule carved_array_clear [OF al k(1) p(1,3) that(1)])
    show "in_range (me_base e + hhdm_offset t) (4096 * k) x"
      using that(2) k(2) t by (simp add: stack_area_def in_range_def HIGHER_HALF_def)
  qed
  then show ?thesis using p by (auto simp: page_ok_def HIGHER_HALF_def)
qed

lemma pmm_init_inv:
  assumes "memmap_ok usable (hhdm_offset s) es" and "page_aligned (hhdm_offset s)" and "stack_idx s = 0"
    and "n = length (memmap_pages usable es)"
    and "\<exists>e \<in> set es. ALIGN_UP (of_nat n * 8) 4096 \<le> me_length e \<and> me_type e = usable"
  shows "\<exists>es' t. pmm_init usable es s = Some (0, es', t) \<and> pmm_inv t \<and>
    set (free_pages t) \<subseteq> set (memmap_pages usable es) \<and>
    length (free_pages t) = n - (8 * n + 4095) div 4096 \<and> stack_idx t = stack_max t \<and>
    hhdm_offset t = hhdm_offset s \<and> (\<exists>e \<in> set es. stack_pages t = HIGHER_HALF s (me_base e)) \<and> unat (stack_max t) = length (free_pages t) \<and>
    (\<forall>x. (\<forall>p \<in> set (memmap_pages usable es). \<not> in_range (HIGHER_HALF s p) 4096 x) \<longrightarrow> \<not> stack_area t x \<and> mem t x = mem s x)"
proof -
  obtain as e bs k t es' where es: "es = as @ e # bs" "me_type e = usable" "k = (8 * n + 4095) div 4096"
    and k: "k \<le> unat (me_length e) div 4096" and init: "pmm_init usable es s = Some (0, es', t)"
    and fp: "free_pages t = memmap_pages usable as @ drop k (entry_pages e) @ memmap_pages usable bs"
    and t: "stack_pages t = HIGHER_HALF s (me_base e)" "unat (stack_max t) = length (free_pages t)"
      "stack_idx t = stack_max t" "hhdm_offset t = hhdm_offset s" and out: "\<forall>x. \<not> stack_area t x \<longrightarrow> mem t x = mem s x"
    using pmm_init_carved [OF assms] .
  have all: "memmap_pages usable es = memmap_pages usable as @ entry_pages e @ memmap_pages usable bs"
    using es by (simp add: memmap_pages_def)
  have al: "page_aligned (me_base e)" "page_aligned (me_length e)"
    and wrap: "unat (hhdm_offset s) + unat (me_base e) + unat (me_length e) < 2 ^ 64"
    using assms(1) es by (auto simp: memmap_ok_def)
  have len: "length (free_pages t) = n - k" and kn: "k \<le> n"
    using k by (simp_all add: fp assms(4) all entry_pages_def)
  then have small: "8 * length (free_pages t) \<le> 4096 * k" using es(3) by linarith
  have sub: "set (free_pages t) \<subseteq> set (memmap_pages usable es)"
    using set_drop_subset [of k "entry_pages e"] by (auto simp: fp all)
  have "entry_pages e = take k (entry_pages e) @ drop k (entry_pages e)" by simp
  then have dist: "distinct (take k (entry_pages e) @ free_pages t)"
    using assms(1) all unfolding fp memmap_ok_def
    by (metis (no_types, lifting) append_assoc distinct_append_swap_head)
  have ok: "page_ok t p" if p: "p \<in> set (free_pages t)" for p
  proof (rule carved_page_ok [OF al _ k])
    show "page_aligned (hhdm_offset t)" using assms(2) t(4) by simp
    show "8 * unat (stack_max t) \<le> 4096 * k" using small t(2) by simp
    show "stack_pages t = HIGHER_HALF t (me_base e)" using t(1,4) by (simp add: HIGHER_HALF_def)
    show "page_aligned p" "p \<noteq> 0"
      using p sub memmap_pages_aligned [OF assms(1)] assms(1) by (auto simp: memmap_ok_def)
    show "p \<notin> set (take k (entry_pages e))" using dist p by auto
  qed
  have "unat (HIGHER_HALF s (me_base e)) = unat (me_base e) + unat (hhdm_offset s)"
    using wrap unfolding HIGHER_HALF_def by (intro unat_add_no_wrap) simp
  moreover have "4096 * k \<le> unat (me_length e)" using k by simp
  ultimately have "unat (HIGHER_HALF s (me_base e)) + 8 * length (free_pages t) \<le> 2 ^ 64"
    using wrap small by linarith
  then have "pmm_layout t"
    using t(1,2,4) al assms(2) by (simp add: pmm_layout_def HIGHER_HALF_def page_aligned_add)
  then have "pmm_inv t" using ok t(3) dist by (simp add: pmm_inv_def)
  moreover have "\<exists>e \<in> set es. stack_pages t = HIGHER_HALF s (me_base e)" using t(1) es(1) by auto
  moreover have "\<not> stack_area t x \<and> mem t x = mem s x"
    if x: "\<forall>p \<in> set (memmap_pages usable es). \<not> in_range (HIGHER_HALF s p) 4096 x" for x
  proof -
    have "\<not> stack_area t x"
    proof
      assume "stack_area t x"
      then have "in_range (me_base e + hhdm_offset s) (4096 * k) x"
        using small t(1,2) by (simp add: stack_area_def in_range_def HIGHER_HALF_def)
      then obtain q where "q \<in> set (take k (entry_pages e))" "in_range (q + hhdm_offset s) 4096 x" using carved_array_page [OF k] by blast
      then show False using x by (auto simp: all HIGHER_HALF_def dest: in_set_takeD)
    qed
    then show ?thesis using out by simp
  qed
  ultimately show ?thesis using init sub len t(2-4) es(3) by blast
qed

lemma pmm_dump_down_0_never: "pmm_dump_down 0 i \<noteq> Some r"
proof
  assume ret: "pmm_dump_down 0 i = Some r"
  have "(0 :: u64) \<noteq> 0"
  proof (rule pmm_dump_down.raw_induct [where P = "\<lambda>bound i r. bound \<noteq> 0", OF _ ret])
    fix f :: "u64 \<Rightarrow> u64 \<Rightarrow> u64 list option" and bound i r
    assume "\<And>bound i r. f bound i = Some r \<Longrightarrow> bound \<noteq> 0"
      and "(if bound \<le> i then do { r \<leftarrow> f bound (i - 1); Some (i # r) } else Some []) = Some r"
    then show "bound \<noteq> 0" by (auto split: if_splits bind_splits)
  qed
  then show False by simp
qed

section \<open>A small machine\<close>

text \<open>
  The variables as they are initialised, with the direct map where the boot loader puts it, and a memory map of one usable region of sixteen pages. The argument is the state of the
  components that extend this one.
\<close>

definition boot_pmm :: "'a \<Rightarrow> 'a pmm_state_scheme" where
  "boot_pmm x = \<lparr>mem = (\<lambda>_. 0), hhdm_offset = 0xFFFF800000000000, int_flag = False, io_trace = [],
     io_dev = (\<lambda>_ _. 0), pic_mask_var = 0xFFFF, bcd_var = 0, stdout_port = 0x3F8, stdout_lock = False,
     putchar_impl = No_putchar, ft_out = [], stack_pages = 0, stack_idx = 0, stack_max = 0, \<dots> = x\<rparr>"

definition boot_memmap :: "memmap_entry list" where
  "boot_memmap = [\<lparr>me_base = 0x1000, me_length = 0x10000, me_type = 0\<rparr>]"

lemma boot_memmap_pages:
  "memmap_pages 0 boot_memmap = map (\<lambda>k. 0x1000 + 4096 * of_nat k) [0..<16]"
  by (simp add: memmap_pages_def boot_memmap_def entry_pages_def del: upt_rec_numeral)

lemma boot_memmap_ok:
  "memmap_ok 0 (hhdm_offset (boot_pmm x)) boot_memmap" "page_aligned (hhdm_offset (boot_pmm x))"
  "stack_idx (boot_pmm x) = 0" "16 = length (memmap_pages 0 boot_memmap)"
  "\<exists>e \<in> set boot_memmap. ALIGN_UP (of_nat 16 * 8) 4096 \<le> me_length e \<and> me_type e = 0"
proof -
  show "memmap_ok 0 (hhdm_offset (boot_pmm x)) boot_memmap"
    unfolding memmap_ok_def boot_memmap_pages
    by (simp add: boot_memmap_def boot_pmm_def page_aligned_def upt_rec)
  show "\<exists>e \<in> set boot_memmap. ALIGN_UP (of_nat 16 * 8) 4096 \<le> me_length e \<and> me_type e = 0"
    by (simp add: boot_memmap_def ALIGN_UP_def DIV_ROUND_UP_def)
qed (simp_all add: boot_memmap_pages, simp_all add: boot_pmm_def page_aligned_def)

definition boot_free :: "u64 set" where
  "boot_free = set (memmap_pages 0 boot_memmap)"

lemma boot_pool:
  "\<exists>s :: 'a pmm_state_scheme. pmm_inv s \<and> length (free_pages s) = 15 \<and> set (free_pages s) \<subseteq> boot_free \<and>
     hhdm_offset s = 0xFFFF800000000000 \<and> stack_pages s = 0xFFFF800000001000 \<and> unat (stack_max s) = 15"
proof -
  obtain es' and t :: "'a pmm_state_scheme" where t: "pmm_inv t" "set (free_pages t) \<subseteq> set (memmap_pages 0 boot_memmap)"
    "length (free_pages t) = 16 - (8 * 16 + 4095) div 4096" "hhdm_offset t = hhdm_offset (boot_pmm (undefined :: 'a))"
    "\<exists>e \<in> set boot_memmap. stack_pages t = HIGHER_HALF (boot_pmm (undefined :: 'a)) (me_base e)" "unat (stack_max t) = length (free_pages t)"
    using pmm_init_inv [OF boot_memmap_ok(1-3) [of "undefined :: 'a"] boot_memmap_ok(4,5)] by blast
  have "stack_pages t = 0xFFFF800000001000" using t(5) by (simp add: boot_memmap_def boot_pmm_def HIGHER_HALF_def)
  moreover have "hhdm_offset t = 0xFFFF800000000000" using t(4) by (simp add: boot_pmm_def)
  ultimately show ?thesis using t(1-3,6) unfolding boot_free_def by (intro exI [of _ t]) (simp del: length_free_pages)
qed

section \<open>Properties\<close>

text \<open>
  C22. Initialisation: for a boot memory map of page-aligned, non-overlapping usable regions one of
  which can hold the array, \<open>pmm_init\<close> returns 0 and leaves the allocator in its invariant,
  full, holding the usable pages less those the array itself occupies.
\<close>

theorem pmm_init_correct:
  assumes "memmap_ok usable (hhdm_offset s) es" and "page_aligned (hhdm_offset s)" and "stack_idx s = 0"
    and "n = length (memmap_pages usable es)"
    and "\<exists>e \<in> set es. ALIGN_UP (of_nat n * 8) 4096 \<le> me_length e \<and> me_type e = usable"
  shows "\<exists>es' t. pmm_init usable es s = Some (0, es', t) \<and> pmm_inv t \<and>
    set (free_pages t) \<subseteq> set (memmap_pages usable es) \<and>
    length (free_pages t) = n - (8 * n + 4095) div 4096 \<and> stack_idx t = stack_max t"
  using pmm_init_inv [OF assms] by blast

theorem pmm_init_correct_witness:
  "\<exists>es' t. pmm_init 0 boot_memmap (boot_pmm ()) = Some (0, es', t) \<and> pmm_inv t \<and>
    set (free_pages t) \<subseteq> set (map (\<lambda>k. 0x1000 + 4096 * of_nat k) [0..<16]) \<and> length (free_pages t) = 15"
  using pmm_init_correct [OF boot_memmap_ok(1-3) [of "()"] boot_memmap_ok(4,5)] unfolding boot_memmap_pages by fastforce

text \<open>
  C25. Allocation refines popping a list: from a state in the invariant \<open>pmm_request_page\<close>
  returns NULL and changes nothing when no page is free; otherwise it returns the page on top,
  which reads as zeroes afterwards through the direct map, every other byte of memory keeps
  its value, the remaining free pages are the others in their order, and the invariant holds.
\<close>

theorem pmm_request_refines:
  assumes "pmm_inv s"
  shows "case pmm_request_page s of (p, t) \<Rightarrow>
    pmm_inv t \<and>
    (if free_pages s = [] then p = NULL \<and> t = s
     else free_pages s = free_pages t @ [p] \<and> p \<noteq> NULL \<and> page_aligned p \<and>
       (\<forall>x. mem t x = (if in_range (HIGHER_HALF s p) 4096 x then 0 else mem s x)))"
proof (cases "free_pages s = []")
  case True
  with assms show ?thesis by (simp add: free_pages_empty pmm_request_empty)
next
  case False
  obtain p t where r: "pmm_request_page s = (p, t)" by (cases "pmm_request_page s")
  from pmm_request_contract [OF assms False r] False show ?thesis
    by (simp add: r zero_page_def page_ok_def)
qed

theorem pmm_request_refines_witness:
  "\<exists>(s :: pmm_state) p t. pmm_request_page s = (p, t) \<and> length (free_pages s) = 15 \<and>
     free_pages s = free_pages t @ [p] \<and> p \<noteq> NULL"
proof -
  obtain s :: pmm_state where s: "pmm_inv s" "length (free_pages s) = 15" using boot_pool by blast
  obtain p t where r: "pmm_request_page s = (p, t)" by (cases "pmm_request_page s")
  have "free_pages s \<noteq> []" using s(2) by (metis list.size(3) zero_neq_numeral)
  with pmm_request_refines [OF s(1)] have "free_pages s = free_pages t @ [p]" "p \<noteq> NULL"
    by (simp_all add: r)
  then show ?thesis using r s(2) by blast
qed

text \<open>
  C3. Pages are never shared: start from an allocator in its invariant and let clients
  request pages, give back pages they own and write to pages they own, in any order. At every
  moment the pages handed out and the free pages are disjoint, without repetition, and
  together exactly the pages there were at the start, so none is lost and none handed out twice.
\<close>

theorem pmm_pool_safe:
  assumes "pmm_inv s" and "pool_step\<^sup>*\<^sup>* (s, []) (t, owned)"
  shows "distinct (owned @ free_pages t) \<and> set owned \<union> set (free_pages t) = set (free_pages s) \<and> pmm_inv t"
proof -
  have "pool_start (set (free_pages s)) (s, [])" using assms(1) by (simp add: pool_start_def)
  from pool.reachable_inv [OF this assms(2)] show ?thesis by (auto simp: pmm.own_inv_def)
qed

theorem pmm_pool_safe_witness:
  "\<exists>(s :: pmm_state) t p. pool_step\<^sup>*\<^sup>* (s, []) (t, [p]) \<and> p \<notin> set (free_pages t) \<and>
     length (free_pages s) = 15"
proof -
  obtain s :: pmm_state where s: "pmm_inv s" "length (free_pages s) = 15" using boot_pool by blast
  obtain p t where r: "pmm_request_page s = (p, t)" by (cases "pmm_request_page s")
  have "free_pages s \<noteq> []" using s(2) by (metis list.size(3) zero_neq_numeral)
  then have "p \<noteq> NULL" using pmm.request_null_iff [OF s(1)] r by simp
  with r have run: "pool_step\<^sup>*\<^sup>* (s, []) (t, [p])" by (intro r_into_rtranclp pool_step.alloc)
  from pmm_pool_safe [OF s(1) run] have "p \<notin> set (free_pages t)" by simp
  then show ?thesis using run s(2) by blast
qed

text \<open>
  A diagnostic that hangs: with exactly ten free pages the second loop of \<open>pmm_dump\<close>
  never ends, because its lower bound is 0 and the index is unsigned; with between one and nine it
  prints nothing, because the bound wraps to a huge number.
\<close>

theorem pmm_dump_last_flaw:
  "(stack_idx s = 10 \<longrightarrow> pmm_dump s = None) \<and>
   (0 < stack_idx s \<and> stack_idx s < 10 \<longrightarrow> pmm_dump s = Some (pmm_dump_first s, []))"
proof (intro conjI impI)
  assume ten: "stack_idx s = 10"
  have "pmm_dump_last s = pmm_dump_down 0 9" by (simp add: pmm_dump_last_def ten)
  then have "pmm_dump_last s = None"
    using pmm_dump_down_0_never [of 9] by (cases "pmm_dump_down 0 9") auto
  then show "pmm_dump s = None" by (simp add: pmm_dump_def ten)
next
  assume few: "0 < stack_idx s \<and> stack_idx s < 10"
  have "\<not> stack_idx s - 10 \<le> stack_idx s - 1" and "0 < stack_idx s - 10"
    using few by (auto simp: word_le_nat_alt word_less_nat_alt unat_sub_if')
  then have "pmm_dump_last s = Some []"
    unfolding pmm_dump_last_def by (subst pmm_dump_down.simps) auto
  then show "pmm_dump s = Some (pmm_dump_first s, [])" using few by (auto simp: pmm_dump_def)
qed

theorem pmm_dump_last_flaw_witness:
  "pmm_dump ((boot_pmm ())\<lparr>stack_idx := 10\<rparr>) = None \<and>
   pmm_dump ((boot_pmm ())\<lparr>stack_idx := 3\<rparr>) = Some ([0, 1, 2], [])"
  using pmm_dump_last_flaw [of "(boot_pmm ())\<lparr>stack_idx := 10\<rparr>"]
    pmm_dump_last_flaw [of "(boot_pmm ())\<lparr>stack_idx := 3\<rparr>"]
  by (simp add: pmm_dump_first_def upt_rec)

end
