(* ===== verification/Vmm.thy ===== *)
theory Vmm
  imports Pmm
begin

text \<open>
  The page-table code, \<^verbatim>\<open>kernel/src/mm/vmm.c\<close>. A page map is a four-level radix tree of pages of
  512 eight-byte entries, kept in the byte memory and reached through the direct map, as in
  the code. The abstraction of a page map is \<open>leaf_entry\<close>, the entry found at the end of a walk
  along three table indices; well-formedness \<open>pagemap_wf\<close> says that no table is reached along
  two paths, and that no table lies on a free page or on the allocator's array. The linker's
  symbols and the addresses the boot loader reports are the argument \<open>kernel_layout\<close>.
\<close>

section \<open>State and operations\<close>

record vmm_state = pmm_state +
  kernel_pagemap :: u64
  cr3 :: u64
  tlb_invalidated :: "u64 list"

abbreviation (input) VMM_PRESENT :: u64 where "VMM_PRESENT \<equiv> 1"
abbreviation (input) VMM_WRITABLE :: u64 where "VMM_WRITABLE \<equiv> 2"
abbreviation (input) VMM_USER :: u64 where "VMM_USER \<equiv> 4"
abbreviation (input) VMM_NX :: u64 where "VMM_NX \<equiv> 0x8000000000000000"

definition pml1_idx :: "u64 \<Rightarrow> u64" where "pml1_idx virt = drop_bit 12 (virt AND push_bit 12 0x1ff)"
definition pml2_idx :: "u64 \<Rightarrow> u64" where "pml2_idx virt = drop_bit 21 (virt AND push_bit 21 0x1ff)"
definition pml3_idx :: "u64 \<Rightarrow> u64" where "pml3_idx virt = drop_bit 30 (virt AND push_bit 30 0x1ff)"
definition pml4_idx :: "u64 \<Rightarrow> u64" where "pml4_idx virt = drop_bit 39 (virt AND push_bit 39 0x1ff)"

definition entry_addr :: "u64 \<Rightarrow> u64" where
  "entry_addr e = e AND 0x000FFFFFFFFFF000"

definition entry_present :: "u64 \<Rightarrow> bool" where
  "entry_present e \<longleftrightarrow> e AND 1 \<noteq> 0"

definition get_entry :: "'a machine_scheme \<Rightarrow> u64 \<Rightarrow> u64 \<Rightarrow> u64" where
  "get_entry s table i = load64 (mem s) (table + 8 * i)"

definition set_entry :: "u64 \<Rightarrow> u64 \<Rightarrow> u64 \<Rightarrow> 'a machine_scheme \<Rightarrow> 'a machine_scheme" where
  "set_entry table i v s = s\<lparr>mem := store64 (mem s) (table + 8 * i) v\<rparr>"

text \<open>The table an entry points to, as the code dereferences it.\<close>

definition next_table :: "'a machine_scheme \<Rightarrow> u64 \<Rightarrow> u64 \<Rightarrow> u64" where
  "next_table s table i = HIGHER_HALF s (entry_addr (get_entry s table i))"

definition virt_to_phys :: "u64 \<Rightarrow> u64 \<Rightarrow> 'a machine_scheme \<Rightarrow> u64" where
  "virt_to_phys pagemap virt s =
     (if \<not> entry_present (get_entry s pagemap (pml4_idx virt)) then 0
      else let pml3_table = next_table s pagemap (pml4_idx virt)
      in if \<not> entry_present (get_entry s pml3_table (pml3_idx virt)) then 0
      else let pml2_table = next_table s pml3_table (pml3_idx virt)
      in if \<not> entry_present (get_entry s pml2_table (pml2_idx virt)) then 0
      else let pml1_table = next_table s pml2_table (pml2_idx virt)
      in entry_addr (get_entry s pml1_table (pml1_idx virt)))"

text \<open>One level of \<open>vmm_map\<close>: fill in an absent entry with a fresh table.\<close>

definition ensure_table :: "u64 \<Rightarrow> u64 \<Rightarrow> u64 \<Rightarrow> 'a pmm_state_scheme \<Rightarrow> 'a pmm_state_scheme" where
  "ensure_table table i flags s =
     (if \<not> entry_present (get_entry s table i)
      then let (page, s) = pmm_request_page s in set_entry table i (page OR flags) s
      else s)"

definition vmm_map :: "u64 \<Rightarrow> u64 \<Rightarrow> u64 \<Rightarrow> u64 \<Rightarrow> 'a pmm_state_scheme \<Rightarrow> 'a pmm_state_scheme" where
  "vmm_map pagemap virt phys flags s =
     (let s = ensure_table pagemap (pml4_idx virt) flags s;
          pml3_table = next_table s pagemap (pml4_idx virt);
          s = ensure_table pml3_table (pml3_idx virt) flags s;
          pml2_table = next_table s pml3_table (pml3_idx virt);
          s = ensure_table pml2_table (pml2_idx virt) flags s;
          pml1_table = next_table s pml2_table (pml2_idx virt)
      in set_entry pml1_table (pml1_idx virt) (phys OR flags) s)"

definition invlpg :: "u64 \<Rightarrow> 'a vmm_state_scheme \<Rightarrow> 'a vmm_state_scheme" where
  "invlpg virt s = s\<lparr>tlb_invalidated := tlb_invalidated s @ [virt]\<rparr>"

definition vmm_unmap :: "u64 \<Rightarrow> u64 \<Rightarrow> 'a vmm_state_scheme \<Rightarrow> 'a vmm_state_scheme" where
  "vmm_unmap pagemap virt s =
     (if \<not> entry_present (get_entry s pagemap (pml4_idx virt))
      then set_entry pagemap (pml4_idx virt) 0 s
      else let pml3_table = next_table s pagemap (pml4_idx virt)
      in if \<not> entry_present (get_entry s pml3_table (pml3_idx virt))
      then set_entry pml3_table (pml3_idx virt) 0 s
      else let pml2_table = next_table s pml3_table (pml3_idx virt)
      in if \<not> entry_present (get_entry s pml2_table (pml2_idx virt))
      then set_entry pml2_table (pml2_idx virt) 0 s
      else let pml1_table = next_table s pml2_table (pml2_idx virt)
      in invlpg virt (set_entry pml1_table (pml1_idx virt) 0 s))"

fun pagemap_entries_valid :: "'a machine_scheme \<Rightarrow> u64 \<Rightarrow> nat list \<Rightarrow> bool" where
  "pagemap_entries_valid s pagemap [] = True"
| "pagemap_entries_valid s pagemap (i # is) =
     (let entry = get_entry s pagemap (of_nat i)
      in if entry AND 1 = 0 then pagemap_entries_valid s pagemap is
         else if (entry AND 0xFFFFFFFFFFFFF000) mod 4096 \<noteq> 0 then False
         else if entry AND 2 = 0 then False
         else pagemap_entries_valid s pagemap is)"

definition pagemap_is_valid :: "u64 \<Rightarrow> 'a machine_scheme \<Rightarrow> bool" where
  "pagemap_is_valid pagemap s \<longleftrightarrow> pagemap \<noteq> NULL \<and> pagemap_entries_valid s pagemap [0..<512]"

fun copy_kernel_entries :: "u64 \<Rightarrow> nat list \<Rightarrow> 'a vmm_state_scheme \<Rightarrow> 'a vmm_state_scheme" where
  "copy_kernel_entries pagemap [] s = s"
| "copy_kernel_entries pagemap (i # is) s =
     copy_kernel_entries pagemap is
       (set_entry pagemap (of_nat i) (get_entry s (kernel_pagemap s) (of_nat i)) s)"

definition vmm_new_pagemap :: "'a vmm_state_scheme \<Rightarrow> u64 \<times> 'a vmm_state_scheme" where
  "vmm_new_pagemap s =
     (let (page, s) = pmm_request_page s;
          pagemap = HIGHER_HALF s page
      in if pagemap = NULL then (NULL, s)
         else let s = s\<lparr>mem := fst (memset (mem s) pagemap 0 PAGE_SIZE)\<rparr>
              in (pagemap, copy_kernel_entries pagemap [256..<512] s))"

definition vmm_switch_pagemap :: "u64 \<Rightarrow> 'a vmm_state_scheme \<Rightarrow> 'a vmm_state_scheme" where
  "vmm_switch_pagemap new_pagemap s = s\<lparr>cr3 := PHYSICAL s new_pagemap\<rparr>"

definition vmm_destroy_pagemap :: "u64 \<Rightarrow> 'a pmm_state_scheme \<Rightarrow> 'a pmm_state_scheme" where
  "vmm_destroy_pagemap pagemap s = pmm_free_page pagemap s"

section \<open>Initialisation\<close>

record kernel_layout =
  limine_requests_start :: u64
  limine_requests_end :: u64
  text_start :: u64
  text_end :: u64
  rodata_start :: u64
  rodata_end :: u64
  data_start :: u64
  data_end :: u64
  kernel_virt_base :: u64
  kernel_phys_base :: u64

text \<open>
  A loop that maps the pages from \<open>x\<close> up to \<open>limit\<close>, each moved from the virtual base \<open>vb\<close> to
  the physical base \<open>pb\<close>.
\<close>

partial_function (option) map_pages ::
  "u64 \<Rightarrow> u64 \<Rightarrow> u64 \<Rightarrow> u64 \<Rightarrow> u64 \<Rightarrow> u64 \<Rightarrow> 'a pmm_state_scheme \<Rightarrow> 'a pmm_state_scheme option" where
  "map_pages pagemap x limit vb pb flags s =
     (if x < limit
      then map_pages pagemap (x + PAGE_SIZE) limit vb pb flags
        (vmm_map pagemap x (x - vb + pb) flags s)
      else Some s)"

definition map_section ::
  "kernel_layout \<Rightarrow> u64 \<Rightarrow> u64 \<Rightarrow> u64 \<Rightarrow> u64 \<Rightarrow> 'a pmm_state_scheme \<Rightarrow> 'a pmm_state_scheme option" where
  "map_section k pagemap first limit flags s =
     map_pages pagemap (ALIGN_DOWN first PAGE_SIZE) (ALIGN_UP limit PAGE_SIZE)
       (kernel_virt_base k) (kernel_phys_base k) flags s"

partial_function (option) map_hhdm :: "u64 \<Rightarrow> u64 \<Rightarrow> 'a pmm_state_scheme \<Rightarrow> 'a pmm_state_scheme option" where
  "map_hhdm pagemap gb4 s =
     (if gb4 < 0x100000000
      then map_hhdm pagemap (gb4 + PAGE_SIZE)
        (let s = vmm_map pagemap gb4 gb4 (VMM_PRESENT OR VMM_WRITABLE) s
         in vmm_map pagemap (HIGHER_HALF s gb4) gb4 (VMM_PRESENT OR VMM_WRITABLE) s)
      else Some s)"

definition vmm_init :: "kernel_layout \<Rightarrow> 'a vmm_state_scheme \<Rightarrow> (int \<times> 'a vmm_state_scheme) option" where
  "vmm_init k s =
     (let (page, s) = pmm_request_page s;
          pm = HIGHER_HALF s page;
          s = s\<lparr>kernel_pagemap := pm\<rparr>
      in if pm = NULL then Some (1, s)
         else do {
           let s = s\<lparr>mem := fst (memset (mem s) pm 0 PAGE_SIZE)\<rparr>;
           s \<leftarrow> map_section k pm (limine_requests_start k) (limine_requests_end k)
                  (VMM_PRESENT OR VMM_WRITABLE) s;
           s \<leftarrow> map_section k pm (text_start k) (text_end k) VMM_PRESENT s;
           s \<leftarrow> map_section k pm (rodata_start k) (rodata_end k) (VMM_PRESENT OR VMM_NX) s;
           s \<leftarrow> map_section k pm (data_start k) (data_end k)
                  (VMM_PRESENT OR VMM_WRITABLE OR VMM_NX) s;
           s \<leftarrow> map_hhdm pm 0 s;
           Some (0, vmm_switch_pagemap pm s)
         })"

section \<open>Walks\<close>

text \<open>The table reached from table \<open>t\<close> along a list of indices, if every entry on the way is present.\<close>

fun table_at :: "'a machine_scheme \<Rightarrow> u64 \<Rightarrow> u64 list \<Rightarrow> u64 option" where
  "table_at s t [] = Some t"
| "table_at s t (i # is) =
     (if entry_present (get_entry s t i) then table_at s (next_table s t i) is else None)"

definition leaf_entry :: "'a machine_scheme \<Rightarrow> u64 \<Rightarrow> u64 list \<Rightarrow> u64 \<Rightarrow> u64" where
  "leaf_entry s pm path i = (case table_at s pm path of None \<Rightarrow> 0 | Some t \<Rightarrow> get_entry s t i)"

definition virt_path :: "u64 \<Rightarrow> u64 list" where
  "virt_path virt = [pml4_idx virt, pml3_idx virt, pml2_idx virt]"

lemma entry_addr_0 [simp]: "entry_addr 0 = 0"
  by (simp add: entry_addr_def)

lemma virt_to_phys_leaf: "virt_to_phys pm virt s = entry_addr (leaf_entry s pm (virt_path virt) (pml1_idx virt))"
  by (simp add: virt_to_phys_def leaf_entry_def virt_path_def Let_def)

lemma table_at_append:
  "table_at s t (p @ q) = (case table_at s t p of None \<Rightarrow> None | Some t' \<Rightarrow> table_at s t' q)"
  by (induction p arbitrary: t) simp_all

lemma table_at_snoc:
  "table_at s t (p @ [i]) =
     (case table_at s t p of None \<Rightarrow> None
      | Some t' \<Rightarrow> if entry_present (get_entry s t' i) then Some (next_table s t' i) else None)"
  by (simp add: table_at_append split: option.splits)

definition path_ok :: "u64 list \<Rightarrow> bool" where
  "path_ok p \<longleftrightarrow> length p \<le> 3 \<and> (\<forall>i \<in> set p. unat i < 512)"

definition is_table :: "'a machine_scheme \<Rightarrow> u64 \<Rightarrow> u64 \<Rightarrow> bool" where
  "is_table s pm t \<longleftrightarrow> (\<exists>p. path_ok p \<and> table_at s pm p = Some t)"

definition pagemap_wf :: "'a pmm_state_scheme \<Rightarrow> u64 \<Rightarrow> bool" where
  "pagemap_wf s pm \<longleftrightarrow> pmm_inv s \<and> page_aligned pm \<and>
     (\<forall>p \<in> set (free_pages s). entry_addr p = p) \<and>
     (\<forall>t. is_table s pm t \<longrightarrow> (\<forall>x. in_range t 4096 x \<longrightarrow> \<not> stack_area s x) \<and>
        (\<forall>p \<in> set (free_pages s). t \<noteq> HIGHER_HALF s p)) \<and>
     (\<forall>p q t. path_ok p \<longrightarrow> path_ok q \<longrightarrow> table_at s pm p = Some t \<longrightarrow> table_at s pm q = Some t \<longrightarrow> p = q)"

lemma idx_take_bit: "drop_bit n (v AND push_bit n 0x1ff) = take_bit 9 (drop_bit n v AND drop_bit n (- 1))" for v :: u64
proof -
  have m: "(0x1ff :: u64) = mask 9" by (simp add: mask_eq_exp_minus_1)
  show ?thesis unfolding m by (rule bit_word_eqI) (auto simp: bit_simps)
qed

lemma idx_bound_aux: "unat (drop_bit n (v AND push_bit n 0x1ff) :: u64) < 512" for v :: u64
proof -
  have "unat (drop_bit n (v AND push_bit n 0x1ff)) < 2 ^ 9"
    by (simp only: idx_take_bit unsigned_take_bit_eq take_bit_nat_less_exp)
  moreover have "(2 :: nat) ^ 9 = 512" by simp
  ultimately show ?thesis by (simp only:)
qed

lemma idx_bound [simp]:
  "unat (pml1_idx v) < 512" "unat (pml2_idx v) < 512" "unat (pml3_idx v) < 512" "unat (pml4_idx v) < 512"
  by (simp_all only: pml1_idx_def pml2_idx_def pml3_idx_def pml4_idx_def idx_bound_aux)

lemma path_ok_virt [simp]: "path_ok (virt_path v)"
  by (simp add: path_ok_def virt_path_def)

section \<open>Facts on well-formed page maps\<close>

lemma entry_addr_aligned [simp]: "page_aligned (entry_addr e)"
proof -
  have "take_bit 12 (entry_addr e) = 0"
    by (rule bit_word_eqI) (auto simp: entry_addr_def bit_simps bit_numeral_rec split: nat.splits)
  then have "unat (entry_addr e) mod 2 ^ 12 = 0"
    by (metis take_bit_eq_mod unsigned_0 unsigned_take_bit_eq)
  then show ?thesis by (simp add: page_aligned_def mod_eq_0_iff_dvd)
qed

lemma next_table_aligned: "page_aligned (hhdm_offset s) \<Longrightarrow> page_aligned (next_table s t i)"
  by (simp add: next_table_def HIGHER_HALF_def page_aligned_add)

lemma table_at_aligned:
  "table_at s t p = Some t' \<Longrightarrow> page_aligned t \<Longrightarrow> page_aligned (hhdm_offset s) \<Longrightarrow> page_aligned t'"
  by (induction p arbitrary: t) (auto simp: next_table_aligned split: if_splits)

lemma pagemap_wf_hhdm: "pagemap_wf s pm \<Longrightarrow> page_aligned (hhdm_offset s)"
  by (simp add: pagemap_wf_def pmm_inv_def pmm_layout_def)

lemma pagemap_wf_aligned: "pagemap_wf s pm \<Longrightarrow> table_at s pm p = Some t \<Longrightarrow> page_aligned t"
  by (rule table_at_aligned) (auto simp: pagemap_wf_hhdm, simp add: pagemap_wf_def)

lemma pagemap_wf_inj:
  "pagemap_wf s pm \<Longrightarrow> path_ok p \<Longrightarrow> path_ok q \<Longrightarrow> table_at s pm p = Some t \<Longrightarrow> table_at s pm q = Some t \<Longrightarrow> p = q"
  unfolding pagemap_wf_def by blast

lemma is_tableI: "path_ok p \<Longrightarrow> table_at s pm p = Some t \<Longrightarrow> is_table s pm t"
  by (auto simp: is_table_def)

lemma pagemap_wf_table:
  assumes "pagemap_wf s pm" and "is_table s pm t"
  shows "in_range t 4096 x \<Longrightarrow> \<not> stack_area s x" and "p \<in> set (free_pages s) \<Longrightarrow> t \<noteq> HIGHER_HALF s p"
    and "page_aligned t"
proof -
  show "in_range t 4096 x \<Longrightarrow> \<not> stack_area s x" "p \<in> set (free_pages s) \<Longrightarrow> t \<noteq> HIGHER_HALF s p"
    using assms by (auto simp: pagemap_wf_def)
  from assms(2) show "page_aligned t" by (auto simp: is_table_def intro: pagemap_wf_aligned [OF assms(1)])
qed

lemma path_ok_prefix: "path_ok (p @ q) \<Longrightarrow> path_ok p"
  by (auto simp: path_ok_def)

lemma path_ok_snoc: "path_ok (p @ [i]) \<longleftrightarrow> path_ok p \<and> length p < 3 \<and> unat i < 512"
  by (auto simp: path_ok_def)

lemma get_entry_set_entry:
  assumes "page_aligned t" "page_aligned t'" "unat i < 512" "unat j < 512"
  shows "get_entry (set_entry t i v s) t' j = (if t = t' \<and> i = j then v else get_entry s t' j)"
  using assms by (simp add: get_entry_def set_entry_def load64_store64_slot table_slot_eq)

text \<open>Memory that agrees on the pages of the tables gives the same walks.\<close>

lemma get_entry_cong:
  assumes "page_aligned t" "unat i < 512" and "\<And>x. in_range t 4096 x \<Longrightarrow> mem s' x = mem s x"
  shows "get_entry s' t i = get_entry s t i"
  unfolding get_entry_def using assms
  by (intro load64_page_cong) (simp_all add: in_page)

lemma table_at_cong:
  assumes h: "hhdm_offset s' = hhdm_offset s" and wf: "page_aligned (hhdm_offset s)" "page_aligned pm"
    and agree: "\<And>t x. is_table s pm t \<Longrightarrow> in_range t 4096 x \<Longrightarrow> mem s' x = mem s x"
  shows "path_ok p \<Longrightarrow> table_at s' pm p = table_at s pm p"
proof (induction p rule: rev_induct)
  case (snoc i p)
  then have p: "path_ok p" "unat i < 512" by (simp_all add: path_ok_snoc)
  have "get_entry s' t i = get_entry s t i" if "table_at s pm p = Some t" for t
    using that p wf agree by (intro get_entry_cong) (auto intro: table_at_aligned is_tableI)
  then show ?case
    using snoc.IH [OF p(1)] h by (auto simp: table_at_snoc next_table_def HIGHER_HALF_def split: option.splits)
qed simp

lemma set_entry_frame [simp]:
  "hhdm_offset (set_entry t i v s) = hhdm_offset s"
  by (simp add: set_entry_def)

lemma set_entry_pmm_frame [simp]:
  "stack_pages (set_entry t i v s) = stack_pages s" "stack_idx (set_entry t i v s) = stack_idx s"
  "stack_max (set_entry t i v s) = stack_max s"
  by (simp_all add: set_entry_def)

lemma HIGHER_HALF_set_entry [simp]: "HIGHER_HALF (set_entry t i v s) = HIGHER_HALF s"
  by (simp add: HIGHER_HALF_def fun_eq_iff)

lemma set_entry_outside:
  "page_aligned t \<Longrightarrow> unat i < 512 \<Longrightarrow> \<not> in_range t 4096 x \<Longrightarrow> mem (set_entry t i v s) x = mem s x"
  by (simp add: set_entry_def store64_other_page in_page)

lemma set_entry_pmm:
  assumes "pmm_inv s" "page_aligned t" "unat i < 512" and "\<And>x. in_range t 4096 x \<Longrightarrow> \<not> stack_area s x"
  shows "free_pages (set_entry t i v s) = free_pages s" and "pmm_inv (set_entry t i v s)"
    and "stack_area (set_entry t i v s) = stack_area s"
proof -
  have "store64 (mem s) (t + 8 * i) v x = mem s x" if "stack_area s x" for x
    using set_entry_outside [OF assms(2,3), of x v s] assms(4) that by (auto simp: set_entry_def)
  from pmm_mem_update [OF assms(1) this]
  show "free_pages (set_entry t i v s) = free_pages s" "pmm_inv (set_entry t i v s)"
    by (simp_all add: set_entry_def)
  show "stack_area (set_entry t i v s) = stack_area s"
    by (simp add: stack_area_def fun_eq_iff)
qed

lemma next_table_set_entry:
  assumes "page_aligned t" "page_aligned t'" "unat i < 512" "unat j < 512"
  shows "next_table (set_entry t i v s) t' j =
    (if t = t' \<and> i = j then HIGHER_HALF s (entry_addr v) else next_table s t' j)"
  using assms by (simp add: next_table_def get_entry_set_entry)

text \<open>
  A store to an entry that is not followed, or that is absent before and after, changes no walk.
\<close>

lemma table_at_set_quiet:
  assumes wf: "pagemap_wf s pm" and p: "path_ok p" "table_at s pm p = Some t" and i: "unat i < 512"
    and quiet: "length p = 3 \<or> \<not> entry_present (get_entry s t i) \<and> \<not> entry_present v"
  shows "path_ok q \<Longrightarrow> table_at (set_entry t i v s) pm q = table_at s pm q"
proof (induction q rule: rev_induct)
  case (snoc j r)
  then have r: "path_ok r" "length r < 3" "unat j < 512" by (simp_all add: path_ok_snoc)
  show ?case
  proof (cases "table_at s pm r")
    case (Some u)
    then have al: "page_aligned t" "page_aligned u" using wf p pagemap_wf_aligned by blast+
    have "r = p" if "u = t" using pagemap_wf_inj [OF wf r(1) p(1) Some] p(2) that by simp
    then show ?thesis
      using snoc.IH [OF r(1)] Some al r i quiet
      by (auto simp: table_at_snoc get_entry_set_entry next_table_set_entry)
  qed (use snoc.IH [OF r(1)] in \<open>simp add: table_at_snoc\<close>)
qed simp

text \<open>A store of a present entry where there was none adds exactly the table it points to.\<close>

lemma table_at_set_new:
  assumes wf: "pagemap_wf s pm" and p: "path_ok (p @ [i])" "table_at s pm p = Some t"
    and absent: "\<not> entry_present (get_entry s t i)" and v: "entry_present v"
    and new: "n = HIGHER_HALF s (entry_addr v)" "page_aligned n" "\<not> is_table s pm n"
      "\<And>j. unat j < 512 \<Longrightarrow> get_entry s n j = 0"
  shows "path_ok q \<Longrightarrow>
    table_at (set_entry t i v s) pm q = (if q = p @ [i] then Some n else table_at s pm q)"
proof (induction q rule: rev_induct)
  case (snoc j r)
  then have r: "path_ok r" "length r < 3" "unat j < 512" by (simp_all add: path_ok_snoc)
  have i: "unat i < 512" "path_ok p" using p(1) by (simp_all add: path_ok_snoc)
  have t: "page_aligned t" using wf p pagemap_wf_aligned by blast
  have "n \<noteq> t" using new(3) is_tableI [OF i(2) p(2)] by blast
  show ?case
  proof (cases "r = p @ [i]")
    case True
    have "table_at s pm r = None" using absent p(2) True by (simp add: table_at_snoc)
    moreover have "table_at (set_entry t i v s) pm r = Some n" using snoc.IH [OF r(1)] True by simp
    moreover have "r \<noteq> p" using True by simp
    ultimately show ?thesis
      using \<open>n \<noteq> t\<close> t new(2,4) r(3) i(1)
      by (simp add: table_at_snoc get_entry_set_entry entry_present_def)
  next
    case False
    show ?thesis
    proof (cases "table_at s pm r")
      case None
      then show ?thesis using snoc.IH [OF r(1)] False p(2) by (auto simp: table_at_snoc)
    next
      case (Some u)
      then have al: "page_aligned u" using wf pagemap_wf_aligned by blast
      have "r = p \<longleftrightarrow> u = t" using pagemap_wf_inj [OF wf r(1) i(2) Some] p(2) Some by auto
      then show ?thesis
        using snoc.IH [OF r(1)] False Some al t r i p(2) absent v new(1)
        by (auto simp: table_at_snoc get_entry_set_entry next_table_set_entry)
    qed
  qed
qed simp

lemma path_ok_Nil [simp]: "path_ok []"
  by (simp add: path_ok_def)

lemma pagemap_wfI:
  assumes "pmm_inv s" "page_aligned pm" "\<And>p. p \<in> set (free_pages s) \<Longrightarrow> entry_addr p = p"
    and "\<And>t x. is_table s pm t \<Longrightarrow> in_range t 4096 x \<Longrightarrow> \<not> stack_area s x"
    and "\<And>t p. is_table s pm t \<Longrightarrow> p \<in> set (free_pages s) \<Longrightarrow> t \<noteq> HIGHER_HALF s p"
    and "\<And>p q t. path_ok p \<Longrightarrow> path_ok q \<Longrightarrow> table_at s pm p = Some t \<Longrightarrow> table_at s pm q = Some t \<Longrightarrow> p = q"
  shows "pagemap_wf s pm"
  using assms unfolding pagemap_wf_def by blast

lemma pagemap_wf_pmm:
  assumes "pagemap_wf s pm"
  shows "pmm_inv s" "page_aligned pm" "p \<in> set (free_pages s) \<Longrightarrow> entry_addr p = p"
  using assms by (simp_all add: pagemap_wf_def)

lemma table_set_pmm:
  assumes wf: "pagemap_wf s pm" and tab: "is_table s pm t" and i: "unat i < 512"
  shows "free_pages (set_entry t i v s) = free_pages s" "pmm_inv (set_entry t i v s)"
    "stack_area (set_entry t i v s) = stack_area s"
  using set_entry_pmm [OF pagemap_wf_pmm(1) [OF wf] pagemap_wf_table(3) [OF wf tab] i]
    pagemap_wf_table(1) [OF wf tab] by blast+

lemma pagemap_wf_set_quiet:
  assumes wf: "pagemap_wf s pm" and p: "path_ok p" "table_at s pm p = Some t" and i: "unat i < 512"
    and quiet: "length p = 3 \<or> \<not> entry_present (get_entry s t i) \<and> \<not> entry_present v"
  shows "pagemap_wf (set_entry t i v s) pm"
proof -
  note pmm = table_set_pmm [OF wf is_tableI [OF p] i, of v]
  note same = table_at_set_quiet [OF wf p i quiet]
  then have tabs: "is_table (set_entry t i v s) pm u \<longleftrightarrow> is_table s pm u" for u
    by (auto simp: is_table_def)
  show ?thesis
  proof (rule pagemap_wfI)
    show "q = r" if "path_ok q" "path_ok r" "table_at (set_entry t i v s) pm q = Some u"
      "table_at (set_entry t i v s) pm r = Some u" for q r u
      using that same pagemap_wf_inj [OF wf] by simp
  qed (use pmm tabs pagemap_wf_pmm [OF wf] pagemap_wf_table [OF wf] in auto)
qed

lemma pagemap_wf_set_new:
  assumes wf: "pagemap_wf s pm" and p: "path_ok (p @ [i])" "table_at s pm p = Some t"
    and absent: "\<not> entry_present (get_entry s t i)" and v: "entry_present v"
    and new: "n = HIGHER_HALF s (entry_addr v)" "page_aligned n" "\<not> is_table s pm n"
      "\<And>j. unat j < 512 \<Longrightarrow> get_entry s n j = 0"
    and clear: "\<And>x. in_range n 4096 x \<Longrightarrow> \<not> stack_area s x"
      "\<And>p. p \<in> set (free_pages s) \<Longrightarrow> n \<noteq> HIGHER_HALF s p"
  shows "pagemap_wf (set_entry t i v s) pm"
proof -
  have i: "unat i < 512" "path_ok p" using p(1) by (simp_all add: path_ok_snoc)
  note pmm = table_set_pmm [OF wf is_tableI [OF i(2) p(2)] i(1), of v]
  note walk = table_at_set_new [OF wf p absent v new]
  have tabs: "u = n \<or> is_table s pm u" if "is_table (set_entry t i v s) pm u" for u
    using that walk by (auto simp: is_table_def split: if_splits)
  show ?thesis
  proof (rule pagemap_wfI)
    show "q = r" if "path_ok q" "path_ok r" "table_at (set_entry t i v s) pm q = Some u"
      "table_at (set_entry t i v s) pm r = Some u" for q r u
      using that new(3) walk pagemap_wf_inj [OF wf] by (auto simp: is_table_def split: if_splits)
    show "\<not> stack_area (set_entry t i v s) x" if "is_table (set_entry t i v s) pm u" "in_range u 4096 x" for u x
      using tabs [OF that(1)] clear(1) pagemap_wf_table(1) [OF wf] that(2) pmm by auto
    show "u \<noteq> HIGHER_HALF (set_entry t i v s) f"
      if "is_table (set_entry t i v s) pm u" "f \<in> set (free_pages (set_entry t i v s))" for u f
      using tabs [OF that(1)] clear(2) pagemap_wf_table(2) [OF wf] that(2) pmm by auto
  qed (use pmm pagemap_wf_pmm [OF wf] in auto)
qed

lemma load64_zero: "(\<And>x. in_range a 8 x \<Longrightarrow> m x = 0) \<Longrightarrow> load64 m a = 0"
proof -
  assume "\<And>x. in_range a 8 x \<Longrightarrow> m x = 0"
  then have "load64 m a = load64 (\<lambda>_. 0) a" by (rule load64_cong)
  also have "load64 (\<lambda>_. 0) a = 0"
    unfolding load64_def by (rule bit_word_eqI) (simp add: bit_load_le)
  finally show ?thesis .
qed

lemma in_slot_in_page:
  "page_aligned t \<Longrightarrow> unat i < 512 \<Longrightarrow> in_range (t + 8 * i) 8 x \<Longrightarrow> in_range t 4096 x"
  using slot_in_page [of "t + 8 * i" x] by (simp add: in_page)

text \<open>A page taken from the allocator leaves every walk as it was and is itself no table.\<close>

lemma request_page_wf:
  assumes wf: "pagemap_wf s pm" and ne: "free_pages s \<noteq> []" and r: "pmm_request_page s = (p, s')"
  shows "pagemap_wf s' pm" and "path_ok q \<Longrightarrow> table_at s' pm q = table_at s pm q"
    and "is_table s pm t \<Longrightarrow> unat j < 512 \<Longrightarrow> get_entry s' t j = get_entry s t j"
    and "\<not> is_table s' pm (HIGHER_HALF s p)"
    and "unat j < 512 \<Longrightarrow> get_entry s' (HIGHER_HALF s p) j = 0" and "entry_addr p = p"
    and "in_range (HIGHER_HALF s p) 4096 x \<Longrightarrow> \<not> stack_area s' x"
    and "f \<in> set (free_pages s') \<Longrightarrow> HIGHER_HALF s p \<noteq> HIGHER_HALF s f"
    and "page_aligned (HIGHER_HALF s p)" and "HIGHER_HALF s' = HIGHER_HALF s"
proof -
  note c = pmm_request_contract [OF pagemap_wf_pmm(1) [OF wf] ne r]
  have h: "page_aligned (hhdm_offset s)" using wf by (rule pagemap_wf_hhdm)
  show HH: "HIGHER_HALF s' = HIGHER_HALF s" by (simp add: HIGHER_HALF_def c fun_eq_iff)
  have same: "stack_area s' = stack_area s" using pmm_layout_update [of s' s] c by simp
  have p_free: "p \<in> set (free_pages s)" using ne c(1) by simp
  have d: "distinct (free_pages s' @ [p])"
    using ne c(1,2) pagemap_wf_pmm(1) [OF wf] by (simp add: pmm_inv_def)
  show al: "page_aligned (HIGHER_HALF s p)"
    using c(4) h by (simp add: page_ok_def HIGHER_HALF_def page_aligned_add)
  have agree: "mem s' x = mem s x" if "is_table s pm t" "in_range t 4096 x" for t x
  proof -
    have "t \<noteq> HIGHER_HALF s p" using pagemap_wf_table(2) [OF wf that(1) p_free] .
    then show ?thesis
      using that(2) al pagemap_wf_table(3) [OF wf that(1)] page_no_inj
      by (auto simp: c(3) zero_page_def in_page)
  qed
  show walk: "path_ok q \<Longrightarrow> table_at s' pm q = table_at s pm q" for q
    using table_at_cong [OF c(8) h pagemap_wf_pmm(2) [OF wf] agree] .
  then have tabs: "is_table s' pm u \<longleftrightarrow> is_table s pm u" for u by (auto simp: is_table_def)
  show "is_table s pm t \<Longrightarrow> unat j < 512 \<Longrightarrow> get_entry s' t j = get_entry s t j"
    using agree pagemap_wf_table(3) [OF wf] by (blast intro: get_entry_cong)
  show "\<not> is_table s' pm (HIGHER_HALF s p)"
    using pagemap_wf_table(2) [OF wf _ p_free] tabs by blast
  show "unat j < 512 \<Longrightarrow> get_entry s' (HIGHER_HALF s p) j = 0"
    unfolding get_entry_def using al in_slot_in_page [OF al]
    by (intro load64_zero) (simp add: c(3) zero_page_def)
  show "entry_addr p = p" using pagemap_wf_pmm(3) [OF wf p_free] .
  show "in_range (HIGHER_HALF s p) 4096 x \<Longrightarrow> \<not> stack_area s' x"
    using c(4) same by (auto simp: page_ok_def)
  show "f \<in> set (free_pages s') \<Longrightarrow> HIGHER_HALF s p \<noteq> HIGHER_HALF s f"
    using d by (auto simp: HIGHER_HALF_def)
  show "pagemap_wf s' pm"
  proof (rule pagemap_wfI)
    show "q = r" if "path_ok q" "path_ok r" "table_at s' pm q = Some u" "table_at s' pm r = Some u" for q r u
      using that walk pagemap_wf_inj [OF wf] by simp
    show "u \<noteq> HIGHER_HALF s' f" if "is_table s' pm u" "f \<in> set (free_pages s')" for u f
      using that tabs HH c(2) pagemap_wf_table(2) [OF wf] in_set_butlastD [of f "free_pages s"] by auto
  qed (use c tabs same pagemap_wf_pmm [OF wf] pagemap_wf_table(1) [OF wf] in \<open>auto dest: in_set_butlastD\<close>)
qed

text \<open>Bytes that are neither in a table of the page map nor in a free page.\<close>

definition untouched :: "'a pmm_state_scheme \<Rightarrow> u64 \<Rightarrow> u64 \<Rightarrow> bool" where
  "untouched s pm x \<longleftrightarrow> (\<forall>t. is_table s pm t \<longrightarrow> \<not> in_range t 4096 x) \<and>
     (\<forall>p \<in> set (free_pages s). \<not> in_range (HIGHER_HALF s p) 4096 x)"

definition flags_ok :: "u64 \<Rightarrow> bool" where
  "flags_ok flags \<longleftrightarrow> entry_present flags \<and> entry_addr flags = 0"

lemma entry_flags:
  assumes "flags_ok flags"
  shows "entry_present (a OR flags)" and "entry_addr (a OR flags) = entry_addr a"
proof -
  have "(a OR flags) AND 1 = (a AND 1) OR (flags AND 1)" by (simp add: bit.conj_disj_distrib2)
  then show "entry_present (a OR flags)"
    using assms by (auto simp: flags_ok_def entry_present_def or_eq_0_iff)
  show "entry_addr (a OR flags) = entry_addr a"
    using assms by (simp add: flags_ok_def entry_addr_def bit.conj_disj_distrib2)
qed

lemma ensure_table_absent:
  "\<not> entry_present (get_entry s t i) \<Longrightarrow> pmm_request_page s = (p, s1) \<Longrightarrow>
   ensure_table t i flags s = set_entry t i (p OR flags) s1"
  by (simp add: ensure_table_def)

text \<open>
  What adding tables to a page map may change: at most \<open>n\<close> free pages are used, no leaf entry
  changes, and no byte outside the tables and the free pages.
\<close>

definition tables_extended :: "nat \<Rightarrow> u64 \<Rightarrow> 'a pmm_state_scheme \<Rightarrow> 'a pmm_state_scheme \<Rightarrow> bool" where
  "tables_extended n pm s s' \<longleftrightarrow> pagemap_wf s' pm \<and>
     (\<forall>q j. path_ok q \<longrightarrow> length q = 3 \<longrightarrow> unat j < 512 \<longrightarrow> leaf_entry s' pm q j = leaf_entry s pm q j) \<and>
     length (free_pages s) \<le> n + length (free_pages s') \<and> set (free_pages s') \<subseteq> set (free_pages s) \<and>
     (\<forall>x. untouched s pm x \<longrightarrow> untouched s' pm x \<and> mem s' x = mem s x) \<and>
     stack_area s' = stack_area s \<and> hhdm_offset s' = hhdm_offset s"

lemma tables_extended_refl: "pagemap_wf s pm \<Longrightarrow> tables_extended n pm s s"
  by (simp add: tables_extended_def)

lemma tables_extended_trans:
  "tables_extended n pm s s1 \<Longrightarrow> tables_extended k pm s1 s2 \<Longrightarrow> tables_extended (n + k) pm s s2"
  by (auto simp: tables_extended_def)

lemma tables_extended_wf: "tables_extended n pm s s' \<Longrightarrow> pagemap_wf s' pm"
  by (simp add: tables_extended_def)

text \<open>The case of \<open>ensure_table\<close> that takes a page.\<close>

lemma ensure_table_new:
  assumes wf: "pagemap_wf s pm" and p: "path_ok (p @ [i])" "table_at s pm p = Some t"
    and fl: "flags_ok flags" and absent: "\<not> entry_present (get_entry s t i)" and ne: "free_pages s \<noteq> []"
    and r: "pmm_request_page s = (a, s1)" and s': "s' = ensure_table t i flags s"
  shows "s' = set_entry t i (a OR flags) s1" and "pagemap_wf s' pm" and "is_table s1 pm t"
    and "path_ok q \<Longrightarrow> table_at s' pm q = (if q = p @ [i] then Some (HIGHER_HALF s a) else table_at s pm q)"
    and "table_at s' pm (p @ [i]) = Some (next_table s' t i)"
proof -
  note w = request_page_wf [OF wf ne r]
  have i: "unat i < 512" "path_ok p" using p(1) by (simp_all add: path_ok_snoc)
  have tab: "is_table s pm t" using is_tableI [OF i(2) p(2)] .
  have s1: "table_at s1 pm p = Some t" "\<not> entry_present (get_entry s1 t i)"
    using w(2,3) p(2) i tab absent by simp_all
  then show "is_table s1 pm t" using i(2) by (blast intro: is_tableI)
  have v: "entry_present (a OR flags)" "HIGHER_HALF s a = HIGHER_HALF s1 (entry_addr (a OR flags))"
    using entry_flags [OF fl] w(6,10) by simp_all
  show eq: "s' = set_entry t i (a OR flags) s1" unfolding s' using absent r by (rule ensure_table_absent)
  show "pagemap_wf s' pm" unfolding eq
    using pagemap_wf_set_new [OF w(1) p(1) s1 v w(9,4,5)] w(7,8,10) by simp
  show walk: "table_at s' pm q = (if q = p @ [i] then Some (HIGHER_HALF s a) else table_at s pm q)"
    if "path_ok q" for q
    unfolding eq using table_at_set_new [OF w(1) p(1) s1 v w(9,4,5) that] w(2) [OF that] by simp
  have "page_aligned t" using pagemap_wf_table(3) [OF wf tab] .
  then show "table_at s' pm (p @ [i]) = Some (next_table s' t i)"
    using walk [OF p(1)] i(1) v(2) by (simp add: eq next_table_set_entry)
qed

lemma ensure_table_new_leaf:
  assumes wf: "pagemap_wf s pm" and p: "path_ok (p @ [i])" "table_at s pm p = Some t"
    and fl: "flags_ok flags" and absent: "\<not> entry_present (get_entry s t i)" and ne: "free_pages s \<noteq> []"
    and s': "s' = ensure_table t i flags s" and q: "path_ok q" "length q = 3" "unat j < 512"
  shows "leaf_entry s' pm q j = leaf_entry s pm q j"
proof -
  obtain a s1 where r: "pmm_request_page s = (a, s1)" by (cases "pmm_request_page s")
  note w = request_page_wf [OF wf ne r] and e = ensure_table_new [OF wf p fl absent ne r s']
  have i: "unat i < 512" "path_ok p" "length p < 3" using p(1) by (simp_all add: path_ok_snoc)
  have al: "page_aligned t" "HIGHER_HALF s a \<noteq> t"
    using pagemap_wf_aligned [OF wf p(2)] w(4) e(3) by blast+
  show ?thesis
  proof (cases "table_at s pm q")
    case None
    then show ?thesis
      using e(4) [OF q(1)] al w(5,9) i q(3) by (simp add: leaf_entry_def e(1) get_entry_set_entry)
  next
    case (Some u)
    then have u: "u \<noteq> t" "is_table s pm u" "page_aligned u" "q \<noteq> p @ [i]"
      using pagemap_wf_inj [OF wf q(1) i(2)] p(2) i(3) q is_tableI pagemap_wf_aligned [OF wf] absent
      by (auto simp: table_at_snoc)
    then show ?thesis
      using e(4) [OF q(1)] Some al i(1) q(3) w(3) by (simp add: leaf_entry_def e(1) get_entry_set_entry)
  qed
qed

lemma ensure_table_new_frame:
  assumes wf: "pagemap_wf s pm" and p: "path_ok (p @ [i])" "table_at s pm p = Some t"
    and fl: "flags_ok flags" and absent: "\<not> entry_present (get_entry s t i)" and ne: "free_pages s \<noteq> []"
    and s': "s' = ensure_table t i flags s"
  shows "untouched s pm x \<Longrightarrow> untouched s' pm x \<and> mem s' x = mem s x"
    and "free_pages s' = butlast (free_pages s)" and "stack_area s' = stack_area s"
    and "hhdm_offset s' = hhdm_offset s"
proof -
  obtain a s1 where r: "pmm_request_page s = (a, s1)" by (cases "pmm_request_page s")
  note w = request_page_wf [OF wf ne r] and e = ensure_table_new [OF wf p fl absent ne r s']
    and c = pmm_request_contract [OF pagemap_wf_pmm(1) [OF wf] ne r]
  have i: "unat i < 512" "path_ok p" using p(1) by (simp_all add: path_ok_snoc)
  have tab: "is_table s pm t" using is_tableI [OF i(2) p(2)] .
  note pm = table_set_pmm [OF w(1) e(3) i(1), of "a OR flags"]
  show fr: "free_pages s' = butlast (free_pages s)" using pm(1) c(2) by (simp add: e(1))
  show "stack_area s' = stack_area s" using pm(3) pmm_layout_update [of s1 s] c by (simp add: e(1))
  show "hhdm_offset s' = hhdm_offset s" using c(8) by (simp add: e(1))
  show "untouched s' pm x \<and> mem s' x = mem s x" if x: "untouched s pm x"
  proof -
    have "a \<in> set (free_pages s)" using ne c(1) by simp
    then have nx: "\<not> in_range (HIGHER_HALF s a) 4096 x" "\<not> in_range t 4096 x"
      using x tab by (auto simp: untouched_def)
    then have "mem s' x = mem s x"
      using set_entry_outside [OF pagemap_wf_table(3) [OF wf tab] i(1), of x "a OR flags" s1]
      by (simp add: e(1) c(3) zero_page_def)
    moreover have "u = HIGHER_HALF s a \<or> is_table s pm u" if "is_table s' pm u" for u
      using that e(4) by (auto simp: is_table_def split: if_splits)
    then have "untouched s' pm x"
      using x nx fr w(10) by (auto simp: untouched_def e(1) dest!: in_set_butlastD)
    ultimately show ?thesis by simp
  qed
qed

lemma ensure_table_extended:
  assumes wf: "pagemap_wf s pm" and p: "path_ok (p @ [i])" "table_at s pm p = Some t"
    and fl: "flags_ok flags" and ne: "free_pages s \<noteq> []" and s': "s' = ensure_table t i flags s"
  shows "tables_extended 1 pm s s' \<and> table_at s' pm (p @ [i]) = Some (next_table s' t i)"
proof (cases "entry_present (get_entry s t i)")
  case True
  with p(2) wf show ?thesis by (simp add: s' ensure_table_def tables_extended_refl table_at_snoc)
next
  case False
  obtain a s1 where r: "pmm_request_page s = (a, s1)" by (cases "pmm_request_page s")
  show ?thesis
    using ensure_table_new(2,5) [OF wf p fl False ne r s'] ensure_table_new_leaf [OF wf p fl False ne s']
      ensure_table_new_frame [OF wf p fl False ne s'] in_set_butlastD [of _ "free_pages s"]
    by (auto simp: tables_extended_def)
qed

lemma free_pages_nonempty: "numeral n \<le> length (free_pages s) \<Longrightarrow> free_pages s \<noteq> []"
  by (metis list.size(3) not_numeral_le_zero)

text \<open>The three levels of \<open>vmm_map\<close> bring the walk to a page table without changing a translation.\<close>

lemma vmm_map_tables:
  assumes wf: "pagemap_wf s pm" and fl: "flags_ok flags" and room: "3 \<le> length (free_pages s)"
  obtains s3 t where "vmm_map pm virt phys flags s = set_entry t (pml1_idx virt) (phys OR flags) s3"
    "tables_extended 3 pm s s3" "table_at s3 pm (virt_path virt) = Some t"
proof -
  define s1 where "s1 = ensure_table pm (pml4_idx virt) flags s"
  define t3 where "t3 = next_table s1 pm (pml4_idx virt)"
  define s2 where "s2 = ensure_table t3 (pml3_idx virt) flags s1"
  define t2 where "t2 = next_table s2 t3 (pml3_idx virt)"
  define s3 where "s3 = ensure_table t2 (pml2_idx virt) flags s2"
  define t1 where "t1 = next_table s3 t2 (pml2_idx virt)"
  have ok: "path_ok ([] @ [pml4_idx virt])" "path_ok ([pml4_idx virt] @ [pml3_idx virt])"
    "path_ok ([pml4_idx virt, pml3_idx virt] @ [pml2_idx virt])" by (simp_all add: path_ok_def)
  have e1: "tables_extended 1 pm s s1" "table_at s1 pm [pml4_idx virt] = Some t3"
    using ensure_table_extended [OF wf ok(1) _ fl free_pages_nonempty [OF room] s1_def] by (auto simp: t3_def)
  then have "2 \<le> length (free_pages s1)" using room by (simp add: tables_extended_def)
  note ne = free_pages_nonempty [OF this]
  have e2: "tables_extended 1 pm s1 s2" "table_at s2 pm [pml4_idx virt, pml3_idx virt] = Some t2"
    using ensure_table_extended [OF tables_extended_wf [OF e1(1)] ok(2) e1(2) fl ne s2_def] by (auto simp: t2_def)
  then have "1 \<le> length (free_pages s2)"
    using \<open>2 \<le> length (free_pages s1)\<close> by (simp add: tables_extended_def)
  then have ne: "free_pages s2 \<noteq> []" by (metis list.size(3) not_one_le_zero)
  have e3: "tables_extended 1 pm s2 s3" "table_at s3 pm (virt_path virt) = Some t1"
    using ensure_table_extended [OF tables_extended_wf [OF e2(1)] ok(3) e2(2) fl ne s3_def]
    by (auto simp: t1_def virt_path_def)
  have "tables_extended 3 pm s s3"
    using tables_extended_trans [OF tables_extended_trans [OF e1(1) e2(1)] e3(1)]
    by (simp add: numeral_3_eq_3)
  moreover have "vmm_map pm virt phys flags s = set_entry t1 (pml1_idx virt) (phys OR flags) s3"
    by (simp add: vmm_map_def Let_def s1_def t3_def s2_def t2_def s3_def t1_def)
  ultimately show ?thesis using e3(2) that by blast
qed

section \<open>Mapping and unmapping\<close>

text \<open>A store to a leaf entry changes the one translation and nothing else.\<close>

lemma leaf_set_entry:
  assumes wf: "pagemap_wf s pm" and p: "path_ok p" "length p = 3" "table_at s pm p = Some t" and i: "unat i < 512"
    and q: "path_ok q" "length q = 3" "unat j < 512"
  shows "leaf_entry (set_entry t i v s) pm q j = (if q = p \<and> i = j then v else leaf_entry s pm q j)"
proof -
  have walk: "table_at (set_entry t i v s) pm q = table_at s pm q"
    using table_at_set_quiet [OF wf p(1,3) i _ q(1)] p(2) by simp
  show ?thesis
  proof (cases "table_at s pm q")
    case None
    then show ?thesis using walk p(3) by (auto simp: leaf_entry_def)
  next
    case (Some u)
    then have "q = p \<longleftrightarrow> u = t" using pagemap_wf_inj [OF wf q(1) p(1) Some] p(3) Some by auto
    moreover have "page_aligned t" "page_aligned u" using pagemap_wf_aligned [OF wf] p(3) Some by blast+
    ultimately show ?thesis using walk Some i q(3) by (auto simp: leaf_entry_def get_entry_set_entry)
  qed
qed

lemma set_entry_extended:
  assumes wf: "pagemap_wf s pm" and p: "path_ok p" "table_at s pm p = Some t" and i: "unat i < 512"
    and quiet: "length p = 3 \<or> \<not> entry_present (get_entry s t i) \<and> \<not> entry_present v"
    and x: "untouched s pm x"
  shows "untouched (set_entry t i v s) pm x" and "mem (set_entry t i v s) x = mem s x"
proof -
  have tab: "is_table s pm t" using is_tableI [OF p] .
  have "is_table (set_entry t i v s) pm u \<longleftrightarrow> is_table s pm u" for u
    using table_at_set_quiet [OF wf p i quiet] by (auto simp: is_table_def)
  then show "untouched (set_entry t i v s) pm x"
    using x table_set_pmm [OF wf tab i] by (simp add: untouched_def)
  show "mem (set_entry t i v s) x = mem s x"
    using x tab pagemap_wf_table(3) [OF wf tab] i by (intro set_entry_outside) (auto simp: untouched_def)
qed

text \<open>
  Two virtual addresses are in the same page for the page tables when the four indices agree.
\<close>

definition same_page :: "u64 \<Rightarrow> u64 \<Rightarrow> bool" where
  "same_page v w \<longleftrightarrow> virt_path v = virt_path w \<and> pml1_idx v = pml1_idx w"

lemma length_virt_path [simp]: "length (virt_path v) = 3"
  by (simp add: virt_path_def)

lemma vmm_map_contract:
  assumes wf: "pagemap_wf s pm" and fl: "flags_ok flags" and room: "3 \<le> length (free_pages s)"
    and s': "s' = vmm_map pm virt phys flags s"
  shows "pagemap_wf s' pm"
    and "virt_to_phys pm w s' = (if same_page virt w then entry_addr phys else virt_to_phys pm w s)"
    and "length (free_pages s) \<le> 3 + length (free_pages s')" and "set (free_pages s') \<subseteq> set (free_pages s)"
    and "untouched s pm x \<Longrightarrow> untouched s' pm x \<and> mem s' x = mem s x"
    and "hhdm_offset s' = hhdm_offset s" and "stack_area s' = stack_area s"
proof -
  obtain s3 t where m: "s' = set_entry t (pml1_idx virt) (phys OR flags) s3"
    and e: "tables_extended 3 pm s s3" and t: "table_at s3 pm (virt_path virt) = Some t"
    using vmm_map_tables [OF wf fl room] s' by metis
  note wf3 = tables_extended_wf [OF e]
  note tab = is_tableI [OF path_ok_virt t]
  show "pagemap_wf s' pm" using pagemap_wf_set_quiet [OF wf3 path_ok_virt t] by (simp add: m)
  show "virt_to_phys pm w s' = (if same_page virt w then entry_addr phys else virt_to_phys pm w s)"
    using leaf_set_entry [OF wf3 path_ok_virt _ t, of "pml1_idx virt" "virt_path w" "pml1_idx w"] e
      entry_flags [OF fl, of phys]
    by (auto simp: m virt_to_phys_leaf same_page_def tables_extended_def)
  show "length (free_pages s) \<le> 3 + length (free_pages s')" "set (free_pages s') \<subseteq> set (free_pages s)"
    "hhdm_offset s' = hhdm_offset s" "stack_area s' = stack_area s"
    using e table_set_pmm [OF wf3 tab] by (simp_all add: m tables_extended_def)
  show "untouched s' pm x \<and> mem s' x = mem s x" if "untouched s pm x"
    using that e set_entry_extended [OF wf3 path_ok_virt t] by (simp add: m tables_extended_def)
qed

lemma walk_same:
  assumes "mem s' = mem s" "hhdm_offset s' = hhdm_offset s"
  shows "get_entry s' = get_entry s" "table_at s' t p = table_at s t p" "leaf_entry s' pm q j = leaf_entry s pm q j"
    "virt_to_phys pm v s' = virt_to_phys pm v s"
proof -
  show e: "get_entry s' = get_entry s" by (intro ext) (simp add: get_entry_def assms(1))
  show t: "table_at s' t p = table_at s t p" for t p
    by (induction p arbitrary: t) (simp_all add: e next_table_def HIGHER_HALF_def assms)
  show l: "leaf_entry s' pm q j = leaf_entry s pm q j" for q j
    by (simp add: leaf_entry_def t e split: option.splits)
  show "virt_to_phys pm v s' = virt_to_phys pm v s" by (simp add: virt_to_phys_leaf l)
qed

lemma wf_same:
  assumes "mem s' = mem s" "hhdm_offset s' = hhdm_offset s" "stack_pages s' = stack_pages s"
    "stack_idx s' = stack_idx s" "stack_max s' = stack_max s"
  shows "free_pages s' = free_pages s" "pmm_inv s' = pmm_inv s" "pagemap_wf s' pm = pagemap_wf s pm"
    "untouched s' pm x = untouched s pm x"
proof -
  show f: "free_pages s' = free_pages s" by (simp add: free_pages_def stack_slot_def assms)
  show p: "pmm_inv s' = pmm_inv s"
    using pmm_layout_update [of s' s] assms f by (simp add: pmm_inv_def)
  have "stack_area s' = stack_area s" "HIGHER_HALF s' = HIGHER_HALF s"
    using pmm_layout_update [of s' s] assms by (simp_all add: HIGHER_HALF_def fun_eq_iff)
  then show "pagemap_wf s' pm = pagemap_wf s pm" "untouched s' pm x = untouched s pm x"
    using walk_same [OF assms(1,2)] f p by (simp_all add: pagemap_wf_def is_table_def untouched_def)
qed

lemma invlpg_same:
  "mem (invlpg v s) = mem s" "hhdm_offset (invlpg v s) = hhdm_offset s" "stack_pages (invlpg v s) = stack_pages s"
  "stack_idx (invlpg v s) = stack_idx s" "stack_max (invlpg v s) = stack_max s"
  by (simp_all add: invlpg_def)

text \<open>
  \<open>vmm_unmap\<close> clears one entry: the leaf, or the absent entry at which the walk stops.
\<close>

lemma vmm_unmap_entry:
  assumes "pagemap_wf s pm" and s': "s' = vmm_unmap pm virt s"
  obtains p t i where "path_ok p" "table_at s pm p = Some t" "unat i < 512"
    "mem s' = mem (set_entry t i 0 s)" "hhdm_offset s' = hhdm_offset s" "stack_pages s' = stack_pages s"
    "stack_idx s' = stack_idx s" "stack_max s' = stack_max s"
    "p = virt_path virt \<and> i = pml1_idx virt \<or>
     \<not> entry_present (get_entry s t i) \<and> length p < 3 \<and> table_at s pm (virt_path virt) = None"
proof -
  let ?t3 = "next_table s pm (pml4_idx virt)"
  let ?t2 = "next_table s ?t3 (pml3_idx virt)"
  let ?t1 = "next_table s ?t2 (pml2_idx virt)"
  consider "\<not> entry_present (get_entry s pm (pml4_idx virt))"
    | "entry_present (get_entry s pm (pml4_idx virt))" "\<not> entry_present (get_entry s ?t3 (pml3_idx virt))"
    | "entry_present (get_entry s pm (pml4_idx virt))" "entry_present (get_entry s ?t3 (pml3_idx virt))"
      "\<not> entry_present (get_entry s ?t2 (pml2_idx virt))"
    | "entry_present (get_entry s pm (pml4_idx virt))" "entry_present (get_entry s ?t3 (pml3_idx virt))"
      "entry_present (get_entry s ?t2 (pml2_idx virt))" by blast
  then show ?thesis
  proof cases
    case 1
    then show ?thesis
      by (intro that [of "[]" pm "pml4_idx virt"])
        (simp_all add: s' vmm_unmap_def path_ok_def virt_path_def)
  next
    case 2
    then show ?thesis
      by (intro that [of "[pml4_idx virt]" ?t3 "pml3_idx virt"])
        (simp_all add: s' vmm_unmap_def path_ok_def virt_path_def Let_def)
  next
    case 3
    then show ?thesis
      by (intro that [of "[pml4_idx virt, pml3_idx virt]" ?t2 "pml2_idx virt"])
        (simp_all add: s' vmm_unmap_def path_ok_def virt_path_def Let_def)
  next
    case 4
    then show ?thesis
      by (intro that [of "virt_path virt" ?t1 "pml1_idx virt"])
        (simp_all add: s' vmm_unmap_def path_ok_def virt_path_def Let_def invlpg_same)
  qed
qed

lemma not_present_0 [simp]: "\<not> entry_present 0"
  by (simp add: entry_present_def)

lemma leaf_set_absent:
  assumes wf: "pagemap_wf s pm" and p: "path_ok p" "table_at s pm p = Some t" and i: "unat i < 512"
    and absent: "\<not> entry_present (get_entry s t i)" "length p < 3"
    and q: "path_ok q" "length q = 3" "unat j < 512"
  shows "leaf_entry (set_entry t i 0 s) pm q j = leaf_entry s pm q j"
proof -
  have walk: "table_at (set_entry t i 0 s) pm q = table_at s pm q"
    using table_at_set_quiet [OF wf p i _ q(1)] absent(1) by simp
  have "u \<noteq> t \<and> page_aligned u" if "table_at s pm q = Some u" for u
    using that pagemap_wf_inj [OF wf q(1) p(1) that] p(2) absent(2) q(2) pagemap_wf_aligned [OF wf] by auto
  then show ?thesis
    using walk i q(3) pagemap_wf_aligned [OF wf p(2)]
    by (auto simp: leaf_entry_def get_entry_set_entry split: option.splits)
qed

lemma vmm_unmap_contract:
  assumes wf: "pagemap_wf s pm" and s': "s' = vmm_unmap pm virt s"
  shows "pagemap_wf s' pm"
    and "virt_to_phys pm w s' = (if same_page virt w then 0 else virt_to_phys pm w s)"
    and "free_pages s' = free_pages s" and "untouched s pm x \<Longrightarrow> untouched s' pm x \<and> mem s' x = mem s x"
proof -
  obtain p t i where p: "path_ok p" "table_at s pm p = Some t" and i: "unat i < 512"
    and m: "mem s' = mem (set_entry t i 0 s)" "hhdm_offset s' = hhdm_offset s"
      "stack_pages s' = stack_pages s" "stack_idx s' = stack_idx s" "stack_max s' = stack_max s"
    and which: "p = virt_path virt \<and> i = pml1_idx virt \<or>
      \<not> entry_present (get_entry s t i) \<and> length p < 3 \<and> table_at s pm (virt_path virt) = None"
    using vmm_unmap_entry [OF wf s'] .
  let ?u = "set_entry t i 0 s"
  have quiet: "length p = 3 \<or> \<not> entry_present (get_entry s t i) \<and> \<not> entry_present 0"
    using which by auto
  have eq: "mem s' = mem ?u" "hhdm_offset s' = hhdm_offset ?u" "stack_pages s' = stack_pages ?u"
    "stack_idx s' = stack_idx ?u" "stack_max s' = stack_max ?u" using m by simp_all
  note same = wf_same [OF eq] walk_same [OF eq(1,2)]
  show "pagemap_wf s' pm" using pagemap_wf_set_quiet [OF wf p i quiet] same by simp
  show "free_pages s' = free_pages s" using table_set_pmm(1) [OF wf is_tableI [OF p] i] same by simp
  show "untouched s' pm x \<and> mem s' x = mem s x" if "untouched s pm x"
    using set_entry_extended [OF wf p i quiet that] same m(1) by simp
  show "virt_to_phys pm w s' = (if same_page virt w then 0 else virt_to_phys pm w s)"
    using which
  proof
    assume v: "p = virt_path virt \<and> i = pml1_idx virt"
    then show ?thesis
      using leaf_set_entry [OF wf p(1) _ p(2) i, of "virt_path w" "pml1_idx w" 0] same
      by (auto simp: virt_to_phys_leaf same_page_def)
  next
    assume a: "\<not> entry_present (get_entry s t i) \<and> length p < 3 \<and> table_at s pm (virt_path virt) = None"
    have "virt_to_phys pm w s = 0" if "same_page virt w"
      using that a by (simp add: virt_to_phys_leaf same_page_def leaf_entry_def)
    then show ?thesis
      using leaf_set_absent [OF wf p i _ _ path_ok_virt, of w "pml1_idx w"] a same
      by (auto simp: virt_to_phys_leaf)
  qed
qed

section \<open>New page maps\<close>

declare upt_rec_numeral [simp del]

lemma copy_kernel_frame [simp]:
  "kernel_pagemap (copy_kernel_entries n is s) = kernel_pagemap s"
  "hhdm_offset (copy_kernel_entries n is s) = hhdm_offset s"
  "stack_pages (copy_kernel_entries n is s) = stack_pages s"
  "stack_idx (copy_kernel_entries n is s) = stack_idx s"
  "stack_max (copy_kernel_entries n is s) = stack_max s"
  by (induction "is" arbitrary: s) (simp_all add: set_entry_def)

lemma unat_idx_of_nat: "i < 512 \<Longrightarrow> unat (of_nat i :: u64) = i"
  by simp

lemma copy_kernel_entries_get:
  assumes "page_aligned n" "page_aligned (kernel_pagemap s)" "n \<noteq> kernel_pagemap s"
    "\<forall>i \<in> set is. i < 512" "unat j < 512"
  shows "get_entry (copy_kernel_entries n is s) n j =
      (if unat j \<in> set is then get_entry s (kernel_pagemap s) j else get_entry s n j)"
  using assms
proof (induction "is" arbitrary: s)
  case (Cons i "is")
  let ?s = "set_entry n (of_nat i) (get_entry s (kernel_pagemap s) (of_nat i)) s"
  have i: "unat (of_nat i :: u64) < 512" using Cons.prems by simp
  have k: "kernel_pagemap ?s = kernel_pagemap s" by (simp add: set_entry_def)
  have j: "of_nat i = j \<longleftrightarrow> i = unat j" using Cons.prems by (metis list.set_intros(1) unat_idx_of_nat word_unat_eq_iff)
  have "get_entry ?s (kernel_pagemap s) j = get_entry s (kernel_pagemap s) j"
    using Cons.prems i by (simp add: get_entry_set_entry)
  moreover have "get_entry ?s n j = (if i = unat j then get_entry s (kernel_pagemap s) j else get_entry s n j)"
    using Cons.prems i j by (auto simp: get_entry_set_entry)
  ultimately show ?case
    using Cons.IH [of ?s] Cons.prems k by auto
qed simp

lemma copy_kernel_entries_outside:
  assumes "page_aligned n" "\<forall>i \<in> set is. i < 512" "\<not> in_range n 4096 x"
  shows "mem (copy_kernel_entries n is s) x = mem s x"
  using assms by (induction "is" arbitrary: s) (simp_all add: set_entry_outside)

lemma zero_page_idem: "zero_page (zero_page m a) a = zero_page m a"
  by (simp add: zero_page_def fun_eq_iff)

text \<open>The page map \<open>vmm_new_pagemap\<close> returns: its entries, and that nothing else changed.\<close>

lemma vmm_new_pagemap_entries:
  assumes wf: "pagemap_wf s (kernel_pagemap s)" and ne: "free_pages s \<noteq> []"
    and hh: "HIGHER_HALF s (last (free_pages s)) \<noteq> NULL" and r: "vmm_new_pagemap s = (n, s')"
  shows "n = HIGHER_HALF s (last (free_pages s))" and "free_pages s' = butlast (free_pages s)"
    and "unat j < 512 \<Longrightarrow>
      get_entry s' n j = (if 256 \<le> unat j then get_entry s (kernel_pagemap s) j else 0)"
    and "\<not> in_range n 4096 x \<Longrightarrow> mem s' x = mem s x" and "pmm_inv s'" and "page_aligned n"
    and "hhdm_offset s' = hhdm_offset s" and "stack_area s' = stack_area s"
    and "kernel_pagemap s' = kernel_pagemap s"
proof -
  obtain a s1 where q: "pmm_request_page s = (a, s1)" by (cases "pmm_request_page s")
  note w = request_page_wf [OF wf ne q] and c = pmm_request_contract [OF pagemap_wf_pmm(1) [OF wf] ne q]
  have nz: "stack_idx s \<noteq> 0" using ne by (simp add: free_pages_empty)
  have k1: "kernel_pagemap s1 = kernel_pagemap s" using q pmm_request_some [OF nz] by auto
  have s1: "s1\<lparr>mem := fst (memset (mem s1) (HIGHER_HALF s a) 0 4096)\<rparr> = s1"
    using c(3) by (simp add: memset_zero_page zero_page_idem)
  have new: "n = HIGHER_HALF s a" "s' = copy_kernel_entries n [256..<512] s1"
    using r hh c(1) w(10) s1 by (auto simp: vmm_new_pagemap_def q Let_def)
  show "n = HIGHER_HALF s (last (free_pages s))" using new c(1) by simp
  show al: "page_aligned n" using w(9) new by simp
  have kt: "is_table s (kernel_pagemap s) (kernel_pagemap s)" using is_tableI [of "[]"] by simp
  have neq: "n \<noteq> kernel_pagemap s" using pagemap_wf_table(2) [OF wf kt, of a] c(1) ne new by auto
  have kal: "page_aligned (kernel_pagemap s1)" using pagemap_wf_pmm(2) [OF wf] k1 by simp
  show "get_entry s' n j = (if 256 \<le> unat j then get_entry s (kernel_pagemap s) j else 0)" if "unat j < 512"
    using copy_kernel_entries_get [OF al kal, of "[256..<512]" j] that neq k1 w(3) [OF kt that] w(5) [OF that]
    by (simp add: new)
  show out: "mem s' x = mem s x" if "\<not> in_range n 4096 x" for x
    using copy_kernel_entries_outside [OF al, of "[256..<512]" x s1] that c(3) new by (simp add: zero_page_def)
  show "hhdm_offset s' = hhdm_offset s" "kernel_pagemap s' = kernel_pagemap s"
    using c(8) k1 by (simp_all add: new)
  show "stack_area s' = stack_area s" using pmm_layout_update [of s' s] c by (simp add: new)
  have keep: "mem s' x = mem s1 x" if "stack_area s1 x" for x
    using copy_kernel_entries_outside [OF al, of "[256..<512]" x s1] w(7) that new by auto
  have idx: "stack_idx s' = stack_idx s1" "stack_pages s' = stack_pages s1" "stack_max s' = stack_max s1"
    "hhdm_offset s' = hhdm_offset s1" by (simp_all add: new)
  note pm = pmm_mem_update [OF c(5) keep]
  have "free_pages s' = free_pages (s1\<lparr>mem := mem s'\<rparr>)" "pmm_inv s' = pmm_inv (s1\<lparr>mem := mem s'\<rparr>)"
    using wf_same(1,2) [of s' "s1\<lparr>mem := mem s'\<rparr>"] idx by simp_all
  with pm c(2) show "free_pages s' = butlast (free_pages s)" "pmm_inv s'" by simp_all
qed

text \<open>Walks in the new page map follow the kernel's upper half.\<close>

lemma vmm_new_pagemap_walk:
  assumes wf: "pagemap_wf s (kernel_pagemap s)" and ne: "free_pages s \<noteq> []"
    and hh: "HIGHER_HALF s (last (free_pages s)) \<noteq> NULL" and r: "vmm_new_pagemap s = (n, s')"
  shows "\<not> is_table s (kernel_pagemap s) n"
    and "path_ok p \<Longrightarrow> table_at s' (kernel_pagemap s) p = table_at s (kernel_pagemap s) p"
    and "path_ok p \<Longrightarrow> table_at s' n p =
      (case p of [] \<Rightarrow> Some n
       | i # _ \<Rightarrow> if 256 \<le> unat i then table_at s (kernel_pagemap s) p else None)"
    and "is_table s (kernel_pagemap s) t \<Longrightarrow> unat j < 512 \<Longrightarrow> get_entry s' t j = get_entry s t j"
proof -
  note e = vmm_new_pagemap_entries [OF wf ne hh r] and al = pagemap_wf_table(3) [OF wf]
  have h: "page_aligned (hhdm_offset s)" using wf by (rule pagemap_wf_hhdm)
  have nt: "t \<noteq> n" if "is_table s (kernel_pagemap s) t" for t
    using pagemap_wf_table(2) [OF wf that, of "last (free_pages s)"] ne e(1) by auto
  then show "\<not> is_table s (kernel_pagemap s) n" by blast
  have agree: "mem s' x = mem s x" if "is_table s (kernel_pagemap s) t" "in_range t 4096 x" for t x
    using e(4) [of x] e(6) al [OF that(1)] nt [OF that(1)] that(2) by (auto simp: in_page page_no_inj)
  show walk: "table_at s' (kernel_pagemap s) p = table_at s (kernel_pagemap s) p" if "path_ok p" for p
    using table_at_cong [OF e(7) h pagemap_wf_pmm(2) [OF wf] agree that] .
  show keep: "is_table s (kernel_pagemap s) t \<Longrightarrow> unat j < 512 \<Longrightarrow> get_entry s' t j = get_entry s t j" for t j
    using agree al by (blast intro: get_entry_cong)
  show "table_at s' n p = (case p of [] \<Rightarrow> Some n
       | i # _ \<Rightarrow> if 256 \<le> unat i then table_at s (kernel_pagemap s) p else None)" if "path_ok p"
  proof (cases p)
    case (Cons i "is")
    then have i: "unat i < 512" using that by (simp add: path_ok_def)
    have "is_table s (kernel_pagemap s) (kernel_pagemap s)" using is_tableI [of "[]"] by simp
    then have "get_entry s' (kernel_pagemap s) i = get_entry s (kernel_pagemap s) i" using keep i by blast
    then show ?thesis
      using e(3) [OF i] walk [OF that] by (auto simp: Cons next_table_def split: if_splits)
  qed simp
qed

lemma vmm_new_pagemap_wf:
  assumes wf: "pagemap_wf s (kernel_pagemap s)" and ne: "free_pages s \<noteq> []"
    and hh: "HIGHER_HALF s (last (free_pages s)) \<noteq> NULL" and r: "vmm_new_pagemap s = (n, s')"
  shows "pagemap_wf s' n" and "pagemap_wf s' (kernel_pagemap s)"
proof -
  note e = vmm_new_pagemap_entries [OF wf ne hh r] and w = vmm_new_pagemap_walk [OF wf ne hh r]
  let ?k = "kernel_pagemap s"
  have HH: "HIGHER_HALF s' = HIGHER_HALF s" using e(7) by (simp add: HIGHER_HALF_def fun_eq_iff)
  have ok: "page_ok s (last (free_pages s))" and d: "distinct (free_pages s)"
    using pagemap_wf_pmm(1) [OF wf] ne by (simp_all add: pmm_inv_def)
  have sub: "f \<in> set (free_pages s)" if "f \<in> set (free_pages s')" for f
    using that e(2) by (auto dest: in_set_butlastD)
  have nf: "n \<noteq> HIGHER_HALF s f" if "f \<in> set (free_pages s')" for f
    using that e(1,2) ne d by (auto simp: HIGHER_HALF_def) (metis append_butlast_last_id distinct_append disjoint_iff list.set_intros(1))
  have clear: "\<not> stack_area s x" if "in_range n 4096 x" for x
    using ok that e(1) by (auto simp: page_ok_def)
  have tabs: "t = n \<or> is_table s ?k t" if "is_table s' n t" for t
    using that w(3) by (auto simp: is_table_def split: list.splits if_splits)
  have ktabs: "is_table s' ?k t \<longleftrightarrow> is_table s ?k t" for t using w(2) by (auto simp: is_table_def)
  show "pagemap_wf s' ?k"
  proof (rule pagemap_wfI)
    show "p = q" if "path_ok p" "path_ok q" "table_at s' ?k p = Some t" "table_at s' ?k q = Some t" for p q t
      using that w(2) pagemap_wf_inj [OF wf] by simp
    show "t \<noteq> HIGHER_HALF s' f" if "is_table s' ?k t" "f \<in> set (free_pages s')" for t f
      using that ktabs HH sub pagemap_wf_table(2) [OF wf] by auto
  qed (use e ktabs sub pagemap_wf_pmm [OF wf] pagemap_wf_table(1) [OF wf] in auto)
  show "pagemap_wf s' n"
  proof (rule pagemap_wfI)
    show "p = q" if pq: "path_ok p" "path_ok q" "table_at s' n p = Some t" "table_at s' n q = Some t" for p q t
      using pq w(1) w(3) [OF pq(1)] w(3) [OF pq(2)] pagemap_wf_inj [OF wf pq(1,2)]
      by (auto simp: is_table_def split: list.splits if_splits)
    show "t \<noteq> HIGHER_HALF s' f" if "is_table s' n t" "f \<in> set (free_pages s')" for t f
      using tabs [OF that(1)] nf [OF that(2)] sub [OF that(2)] HH pagemap_wf_table(2) [OF wf] by auto
    show "\<not> stack_area s' x" if "is_table s' n t" "in_range t 4096 x" for t x
      using tabs [OF that(1)] clear that(2) e(8) pagemap_wf_table(1) [OF wf] by auto
  qed (use e sub pagemap_wf_pmm [OF wf] in auto)
qed

lemma vmm_new_pagemap_translate:
  assumes wf: "pagemap_wf s (kernel_pagemap s)" and ne: "free_pages s \<noteq> []"
    and hh: "HIGHER_HALF s (last (free_pages s)) \<noteq> NULL" and r: "vmm_new_pagemap s = (n, s')"
  shows "virt_to_phys n v s' =
      (if 256 \<le> unat (pml4_idx v) then virt_to_phys (kernel_pagemap s) v s else 0)"
proof -
  note w = vmm_new_pagemap_walk [OF wf ne hh r]
  have "table_at s' n (virt_path v) =
      (if 256 \<le> unat (pml4_idx v) then table_at s (kernel_pagemap s) (virt_path v) else None)"
    using w(3) [OF path_ok_virt, of v] by (simp add: virt_path_def)
  moreover have "get_entry s' t (pml1_idx v) = get_entry s t (pml1_idx v)"
    if "table_at s (kernel_pagemap s) (virt_path v) = Some t" for t
    using w(4) is_tableI [OF path_ok_virt that] by simp
  ultimately show ?thesis by (auto simp: virt_to_phys_leaf leaf_entry_def split: option.splits)
qed

section \<open>The interface of an address space\<close>

text \<open>
  What the clients of a page map rely on (the region allocator, the program loader and the
  kernel's own initialisation): a budget of mappings that can still be made, what a
  translation returns after a page has been mapped or unmapped, and that other pages keep theirs.
\<close>

locale address_space =
  fixes map_page :: "u64 \<Rightarrow> u64 \<Rightarrow> 's \<Rightarrow> 's"
    and unmap_page :: "u64 \<Rightarrow> 's \<Rightarrow> 's"
    and translate :: "u64 \<Rightarrow> 's \<Rightarrow> u64"
    and same :: "u64 \<Rightarrow> u64 \<Rightarrow> bool"
    and frame :: "u64 \<Rightarrow> u64"
    and ready :: "nat \<Rightarrow> 's \<Rightarrow> bool"
  assumes map_ready: "ready (Suc n) s \<Longrightarrow> ready n (map_page v p s)"
    and map_translate: "ready (Suc n) s \<Longrightarrow>
      translate w (map_page v p s) = (if same v w then frame p else translate w s)"
    and unmap_ready: "ready n s \<Longrightarrow> ready n (unmap_page v s)"
    and unmap_translate: "ready n s \<Longrightarrow>
      translate w (unmap_page v s) = (if same v w then 0 else translate w s)"
    and same_refl: "same v v"
    and same_sym: "same v w \<Longrightarrow> same w v"
begin

lemma map_unmap:
  assumes "ready (Suc n) s" and "translate v s = 0" and "\<And>w. same v w \<Longrightarrow> translate w s = 0"
  shows "translate w (unmap_page v (map_page v p s)) = translate w s"
  using assms map_ready [OF assms(1), of v p] unmap_translate map_translate [OF assms(1)] by auto

text \<open>A batch of mappings of pairwise different pages.\<close>

definition map_all :: "(u64 \<times> u64) list \<Rightarrow> 's \<Rightarrow> 's" where
  "map_all vps s = fold (\<lambda>(v, p). map_page v p) vps s"

lemma map_all_ready: "ready (length vps + n) s \<Longrightarrow> ready n (map_all vps s)"
  unfolding map_all_def by (induction vps arbitrary: s) (auto simp: map_ready)

lemma map_all_other:
  "ready (length vps + n) s \<Longrightarrow> \<forall>(v, p) \<in> set vps. \<not> same v w \<Longrightarrow>
   translate w (map_all vps s) = translate w s"
  unfolding map_all_def by (induction vps arbitrary: s) (auto simp: map_ready map_translate)

lemma map_all_translate:
  assumes "ready (length as + Suc (length bs)) s" and "\<forall>(u, q) \<in> set bs. \<not> same u v"
  shows "translate v (map_all (as @ (v, p) # bs) s) = frame p"
proof -
  let ?s = "map_all as s"
  have rdy: "ready (Suc (length bs)) ?s" using map_all_ready assms(1) by blast
  then have "ready (length bs + 0) (map_page v p ?s)" using map_ready by simp
  from map_all_other [OF this assms(2)] map_translate [OF rdy] same_refl show ?thesis
    by (simp add: map_all_def)
qed

end

definition vmm_ready :: "u64 \<Rightarrow> u64 \<Rightarrow> nat \<Rightarrow> 'a pmm_state_scheme \<Rightarrow> bool" where
  "vmm_ready pm flags n s \<longleftrightarrow> pagemap_wf s pm \<and> flags_ok flags \<and> 3 * n \<le> length (free_pages s)"

interpretation vmm: address_space "\<lambda>v p. vmm_map pm v p flags" "vmm_unmap pm" "virt_to_phys pm"
  same_page entry_addr "vmm_ready pm flags" for pm flags
proof
  fix s :: "'a vmm_state_scheme" and n v p w
  show "vmm_ready pm flags n (vmm_map pm v p flags s)" if "vmm_ready pm flags (Suc n) s"
    using that vmm_map_contract(1,3) [of s pm flags _ v p] by (simp add: vmm_ready_def del: length_free_pages)
  show "virt_to_phys pm w (vmm_map pm v p flags s) = (if same_page v w then entry_addr p else virt_to_phys pm w s)"
    if "vmm_ready pm flags (Suc n) s"
    using that vmm_map_contract(2) [of s pm flags _ v p] by (simp add: vmm_ready_def del: length_free_pages)
  show "vmm_ready pm flags n (vmm_unmap pm v s)" if "vmm_ready pm flags n s"
    using that vmm_unmap_contract(1,3) [of s pm _ v] by (simp add: vmm_ready_def del: length_free_pages)
  show "virt_to_phys pm w (vmm_unmap pm v s) = (if same_page v w then 0 else virt_to_phys pm w s)"
    if "vmm_ready pm flags n s"
    using that vmm_unmap_contract(2) [of s pm _ v w] by (simp add: vmm_ready_def)
qed (auto simp: same_page_def)

section \<open>Regions\<close>

lemma bit_idx:
  "bit (pml1_idx v) k \<longleftrightarrow> k < 9 \<and> bit v (12 + k)" "bit (pml2_idx v) k \<longleftrightarrow> k < 9 \<and> bit v (21 + k)"
  "bit (pml3_idx v) k \<longleftrightarrow> k < 9 \<and> bit v (30 + k)" "bit (pml4_idx v) k \<longleftrightarrow> k < 9 \<and> bit v (39 + k)"
proof -
  have m: "(0x1ff :: u64) = mask 9" by (simp add: mask_eq_exp_minus_1)
  show "bit (pml1_idx v) k \<longleftrightarrow> k < 9 \<and> bit v (12 + k)" "bit (pml2_idx v) k \<longleftrightarrow> k < 9 \<and> bit v (21 + k)"
    "bit (pml3_idx v) k \<longleftrightarrow> k < 9 \<and> bit v (30 + k)" "bit (pml4_idx v) k \<longleftrightarrow> k < 9 \<and> bit v (39 + k)"
    unfolding pml1_idx_def pml2_idx_def pml3_idx_def pml4_idx_def m
    by (auto simp: bit_simps dest: bit_imp_le_length)
qed

lemma same_page_bits:
  assumes "same_page v w" and "12 \<le> k" and "k < 48"
  shows "bit v k \<longleftrightarrow> bit w k"
proof -
  have eq: "pml1_idx v = pml1_idx w" "pml2_idx v = pml2_idx w" "pml3_idx v = pml3_idx w" "pml4_idx v = pml4_idx w"
    using assms(1) by (simp_all add: same_page_def virt_path_def)
  consider "k < 21" | "21 \<le> k" "k < 30" | "30 \<le> k" "k < 39" | "39 \<le> k" by linarith
  then show ?thesis
  proof cases
    case 1
    then have "k - 12 < 9" by linarith
    then show ?thesis using arg_cong [OF eq(1), of "\<lambda>x. bit x (k - 12)"] assms by (simp add: bit_idx)
  next
    case 2
    then have "k - 21 < 9" by linarith
    with 2 show ?thesis using arg_cong [OF eq(2), of "\<lambda>x. bit x (k - 21)"] by (simp add: bit_idx)
  next
    case 3
    then have "k - 30 < 9" by linarith
    with 3 show ?thesis using arg_cong [OF eq(3), of "\<lambda>x. bit x (k - 30)"] by (simp add: bit_idx)
  next
    case 4
    then have "k - 39 < 9" using assms by linarith
    with 4 show ?thesis using arg_cong [OF eq(4), of "\<lambda>x. bit x (k - 39)"] by (simp add: bit_idx)
  qed
qed

lemma same_page_number: "same_page v w \<Longrightarrow> page_no v mod 2 ^ 36 = page_no w mod 2 ^ 36"
proof -
  assume sp: "same_page v w"
  have "take_bit 36 (drop_bit 12 v) = take_bit 36 (drop_bit 12 w)"
    using same_page_bits [OF sp] by (intro bit_word_eqI) (auto simp: bit_simps)
  then have "unat (take_bit 36 (drop_bit 12 v)) = unat (take_bit 36 (drop_bit 12 w))" by simp
  then show ?thesis
    unfolding unsigned_take_bit_eq unsigned_drop_bit_eq
    using unat_u64_less [of v] unat_u64_less [of w]
    by (simp add: page_no_def take_bit_eq_mod drop_bit_eq_div)
qed

text \<open>The addresses a mapping loop visits.\<close>

definition page_range :: "u64 \<Rightarrow> u64 \<Rightarrow> u64 list" where
  "page_range x limit = map (\<lambda>k. x + 4096 * of_nat k) [0..<(unat limit - unat x) div 4096]"

lemma page_range_Cons:
  assumes "page_aligned x" "page_aligned limit" "x < limit"
  shows "page_range x limit = x # page_range (x + 4096) limit" and "x + 4096 \<le> limit"
    and "page_aligned (x + 4096)" and "unat (x + 4096) = unat x + 4096"
proof -
  obtain k where k: "unat x = 4096 * k" using assms(1) by (auto simp: page_aligned_def)
  obtain l where l: "unat limit = 4096 * l" using assms(2) by (auto simp: page_aligned_def)
  have "4096 * k < 4096 * l" using assms(3) k l by (simp add: word_less_nat_alt)
  then have kl: "k < l" by simp
  then show u: "unat (x + 4096) = unat x + 4096"
    using k l unat_u64_less [of limit] by (simp add: unat_word_ariths)
  then show "x + 4096 \<le> limit" "page_aligned (x + 4096)"
    using k l kl by (simp_all add: word_le_nat_alt page_aligned_def)
  have n: "(unat limit - unat x) div 4096 = Suc ((unat limit - unat (x + 4096)) div 4096)"
  proof -
    have "4096 * l - 4096 * k = 4096 * (l - k)" "4096 * l - (4096 * k + 4096) = 4096 * (l - k - 1)"
      by (simp_all add: diff_mult_distrib2)
    then show ?thesis using kl unfolding u k l by simp
  qed
  have "map (\<lambda>k. x + 4096 * of_nat k) [1..<Suc m] = map (\<lambda>k. x + 4096 + 4096 * of_nat k) [0..<m]" for m
    by (simp add: map_Suc_upt [symmetric] comp_def algebra_simps del: upt_Suc)
  then show "page_range x limit = x # page_range (x + 4096) limit"
    unfolding page_range_def n by (simp add: upt_conv_Cons del: upt_Suc)
qed

lemma page_range_Nil: "limit \<le> x \<Longrightarrow> page_range x limit = []"
  by (simp add: page_range_def word_le_nat_alt)

lemma map_pages_fold:
  assumes "page_aligned limit" "page_aligned x" "x \<le> limit"
  shows "map_pages pm x limit vb pb flags s =
    Some (fold (\<lambda>v. vmm_map pm v (v - vb + pb) flags) (page_range x limit) s)"
  using assms(2,3)
proof (induction "length (page_range x limit)" arbitrary: x s)
  case 0
  then have "\<not> x < limit" using page_range_Cons [OF _ assms(1)] by force
  then show ?case by (subst map_pages.simps) (simp add: page_range_Nil)
next
  case (Suc n)
  then have "page_range x limit \<noteq> []" by auto
  then have "x < limit" using page_range_Nil [of limit x] by (meson not_le)
  note c = page_range_Cons [OF Suc.prems(1) assms(1) this]
  let ?s = "vmm_map pm x (x - vb + pb) flags s"
  have "map_pages pm (x + 4096) limit vb pb flags ?s =
    Some (fold (\<lambda>v. vmm_map pm v (v - vb + pb) flags) (page_range (x + 4096) limit) ?s)"
    using Suc.hyps(2) c by (intro Suc.hyps(1)) simp_all
  then show ?case using \<open>x < limit\<close> by (subst map_pages.simps) (simp add: c(1))
qed

lemma mod_add_left_cancel_aux: "(a + i) mod m = (a + j) mod m \<Longrightarrow> i mod m = j mod m" for a i j m :: nat
proof -
  assume "(a + i) mod m = (a + j) mod m"
  then have "(int a + int i) mod int m = (int a + int j) mod int m"
    by (metis of_nat_add of_nat_mod)
  then have "((int a + int i) - int a) mod int m = ((int a + int j) - int a) mod int m"
    by (rule mod_diff_cong) simp
  then show ?thesis by (simp flip: of_nat_mod)
qed

lemma page_range_not_same:
  assumes al: "page_aligned x" "page_aligned limit" and span: "unat limit - unat x \<le> 2 ^ 48"
    and ij: "i < length (page_range x limit)" "j < length (page_range x limit)" "i \<noteq> j"
  shows "\<not> same_page (page_range x limit ! i) (page_range x limit ! j)"
proof
  assume "same_page (page_range x limit ! i) (page_range x limit ! j)"
  then have sp: "page_no (page_range x limit ! i) mod 2 ^ 36 = page_no (page_range x limit ! j) mod 2 ^ 36"
    by (rule same_page_number)
  let ?n = "(unat limit - unat x) div 4096"
  have no: "page_no (page_range x limit ! k) = page_no x + k" if "k < ?n" for k
  proof -
    have b: "unat x + 4096 * k < 2 ^ 64" using that unat_u64_less [of limit] by simp
    then have "unat (4096 * of_nat k :: u64) = 4096 * k" by (subst unat_word_ariths) simp
    then have "unat (x + 4096 * of_nat k) = unat x + 4096 * k" using b by (subst unat_add_no_wrap) simp_all
    then show ?thesis using that by (simp add: page_range_def page_no_def)
  qed
  have len: "i < ?n" "j < ?n" using ij by (simp_all add: page_range_def)
  have "?n \<le> 2 ^ 36" using span by simp
  then have "i < 2 ^ 36" "j < 2 ^ 36" using len by linarith+
  moreover have "(page_no x + i) mod 2 ^ 36 = (page_no x + j) mod 2 ^ 36"
    using sp no [OF len(1)] no [OF len(2)] by simp
  ultimately show False
    using ij(3) by (metis mod_add_left_cancel_aux mod_less)
qed

section \<open>An empty page map\<close>

lemma fresh_pagemap_wf:
  assumes inv: "pmm_inv s" and ne: "free_pages s \<noteq> []" and low: "\<forall>p \<in> set (free_pages s). entry_addr p = p"
    and r: "pmm_request_page s = (a, s')"
  shows "pagemap_wf s' (HIGHER_HALF s a)" and "virt_to_phys (HIGHER_HALF s a) v s' = 0"
    and "is_table s' (HIGHER_HALF s a) t \<Longrightarrow> t = HIGHER_HALF s a"
proof -
  note c = pmm_request_contract [OF inv ne r]
  let ?pm = "HIGHER_HALF s a"
  have al: "page_aligned ?pm"
    using c(4) inv by (simp add: page_ok_def pmm_inv_def pmm_layout_def HIGHER_HALF_def page_aligned_add)
  have zero: "get_entry s' ?pm i = 0" if "unat i < 512" for i
    unfolding get_entry_def using in_slot_in_page [OF al that]
    by (intro load64_zero) (simp add: c(3) zero_page_def)
  have none: "table_at s' ?pm p = None" if "path_ok p" "p \<noteq> []" for p
    using that zero by (cases p) (auto simp: path_ok_def)
  show tabs: "t = ?pm" if "is_table s' ?pm t" for t
    using that none by (auto simp: is_table_def) (metis option.distinct(1) option.inject table_at.simps(1))
  have area: "stack_area s' = stack_area s" using pmm_layout_update [of s' s] c by simp
  have d: "distinct (free_pages s' @ [a])" using ne c(1,2) inv by (simp add: pmm_inv_def)
  show "pagemap_wf s' ?pm"
  proof (rule pagemap_wfI)
    show "\<not> stack_area s' x" if "is_table s' ?pm t" "in_range t 4096 x" for t x
      using tabs [OF that(1)] that(2) c(4) area by (auto simp: page_ok_def)
    show "t \<noteq> HIGHER_HALF s' f" if "is_table s' ?pm t" "f \<in> set (free_pages s')" for t f
      using tabs [OF that(1)] that(2) d c(8) by (auto simp: HIGHER_HALF_def)
    show "p = q" if "path_ok p" "path_ok q" "table_at s' ?pm p = Some t" "table_at s' ?pm q = Some t" for p q t
      using that none by (cases "p = []"; cases "q = []") auto
  qed (use c al low in \<open>auto dest: in_set_butlastD\<close>)
  show "virt_to_phys ?pm v s' = 0"
    using none [OF path_ok_virt, of v] by (simp add: virt_to_phys_leaf leaf_entry_def virt_path_def)
qed

lemma boot_free_entry_addr: "p \<in> boot_free \<Longrightarrow> entry_addr p = p \<and> p + 0xFFFF800000000000 \<noteq> 0"
  unfolding boot_free_def boot_memmap_pages by (auto simp: entry_addr_def upt_rec)

lemma boot_free_high: "p \<in> boot_free \<Longrightarrow> in_range (p + 0xFFFF800000000000) 4096 x \<Longrightarrow> 0xFFFF800000000000 \<le> unat x"
  unfolding boot_free_def boot_memmap_pages by (auto simp: upt_rec in_range_nat)

text \<open>A machine with an empty kernel page map and fourteen free pages.\<close>

lemma boot_pagemap:
  "\<exists>s :: 'a vmm_state_scheme. pagemap_wf s (kernel_pagemap s) \<and> length (free_pages s) = 14 \<and>
     HIGHER_HALF s (last (free_pages s)) \<noteq> NULL \<and> (\<forall>v. virt_to_phys (kernel_pagemap s) v s = 0) \<and>
     (\<forall>f \<in> set (free_pages s). HIGHER_HALF s f \<noteq> NULL) \<and> kernel_pagemap s \<noteq> NULL \<and>
     (\<forall>x. \<not> untouched s (kernel_pagemap s) x \<or> stack_area s x \<longrightarrow> 0xFFFF800000000000 \<le> unat x)"
proof -
  obtain s :: "'a vmm_state_scheme" where s: "pmm_inv s" "length (free_pages s) = 15"
    "set (free_pages s) \<subseteq> boot_free" "hhdm_offset s = 0xFFFF800000000000" "stack_pages s = 0xFFFF800000001000" "unat (stack_max s) = 15"
    using boot_pool by blast
  have ne: "free_pages s \<noteq> []" using s(2) by (metis list.size(3) zero_neq_numeral)
  have low: "\<forall>p \<in> set (free_pages s). entry_addr p = p" using s(3) boot_free_entry_addr by blast
  obtain a s' where r: "pmm_request_page s = (a, s')" by (cases "pmm_request_page s")
  note c = pmm_request_contract [OF s(1) ne r] and f = fresh_pagemap_wf [OF s(1) ne low r]
  let ?t = "s'\<lparr>kernel_pagemap := HIGHER_HALF s a\<rparr>"
  have same: "mem ?t = mem s'" "hhdm_offset ?t = hhdm_offset s'" "stack_pages ?t = stack_pages s'"
    "stack_idx ?t = stack_idx s'" "stack_max ?t = stack_max s'" by simp_all
  note w = wf_same [OF same] walk_same [OF same(1,2)]
  have len: "length (free_pages ?t) = 14" using w(1) c(2) s(2) by (simp del: length_free_pages)
  then have "last (free_pages ?t) \<in> set (free_pages ?t)"
    by (metis last_in_set list.size(3) zero_neq_numeral)
  moreover have "set (free_pages ?t) \<subseteq> boot_free" using s(3) w(1) c(2) by (auto dest: in_set_butlastD)
  then have "\<forall>f \<in> set (free_pages ?t). HIGHER_HALF ?t f \<noteq> NULL"
    using boot_free_entry_addr s(4) c(8) by (auto simp: HIGHER_HALF_def)
  moreover have a: "a \<in> boot_free" using s(3) c(1) ne by auto
  then have "kernel_pagemap ?t \<noteq> NULL" using boot_free_entry_addr s(4) by (simp add: HIGHER_HALF_def)
  moreover have "0xFFFF800000000000 \<le> unat x" if "\<not> untouched ?t (kernel_pagemap ?t) x \<or> stack_area ?t x" for x
  proof -
    have "is_table ?t (kernel_pagemap ?t) u \<Longrightarrow> u = a + 0xFFFF800000000000" for u
      using f(3) [of u] w(6) s(4) by (simp add: is_table_def HIGHER_HALF_def)
    then show ?thesis using that a boot_free_high [of _ x] w(1) s(3-6) c(2,6-8)
      by (fastforce simp: untouched_def HIGHER_HALF_def stack_area_def in_range_nat dest: in_set_butlastD)
  qed
  ultimately show ?thesis using f w len by (intro exI [of _ ?t]) (simp del: length_free_pages)
qed

lemma map_pages_all:
  assumes "page_aligned limit" "page_aligned x" "x \<le> limit"
  shows "map_pages pm x limit vb pb flags s =
    Some (vmm.map_all pm flags (map (\<lambda>v. (v, v - vb + pb)) (page_range x limit)) s)"
  unfolding map_pages_fold [OF assms] vmm.map_all_def by (simp add: fold_map comp_def)

lemma page_aligned_entry_addr:
  assumes "page_aligned p" and "p < 2 ^ 52"
  shows "entry_addr p = p"
proof -
  have m: "(0x000FFFFFFFFFF000 :: u64) = mask 52 AND NOT (mask 12)"
    by (simp add: mask_eq_exp_minus_1)
  have "take_bit 12 p = 0"
    using assms(1) by (simp add: page_aligned_def take_bit_eq_mod word_unat_eq_iff unat_mod dvd_imp_mod_0)
  then have lo: "\<not> bit p k" if "k < 12" for k
    using that by (metis bit_take_bit_iff bit_0_eq bot_apply bot_bool_def)
  have "take_bit 52 p = p"
    using assms(2)
    by (simp add: word_unat_eq_iff unsigned_take_bit_eq take_bit_nat_eq_self word_less_nat_alt)
  then have hi: "k < 52" if "bit p k" for k using that by (metis bit_take_bit_iff)
  show ?thesis unfolding entry_addr_def m
  proof (rule bit_word_eqI)
    fix k assume "k < LENGTH(64)"
    then show "bit (p AND mask 52 AND NOT (mask 12)) k = bit p k"
      using lo [of k] hi [of k] by (auto simp: bit_simps)
  qed
qed

section \<open>Properties\<close>

text \<open>
  C2. Mapping: on a well-formed page map, with three free pages and flags that have the present
  bit and no address bits, \<open>vmm_map\<close> keeps the page map well-formed; afterwards the mapped page
  translates to the given frame and every other page to what it did before, whatever tables
  had to be added; and no byte outside the tables of this map and the free pages changes.
\<close>

theorem vmm_map_translates:
  assumes "pagemap_wf s pm" and "flags_ok flags" and "3 \<le> length (free_pages s)"
    and "t = vmm_map pm virt phys flags s"
  shows "pagemap_wf t pm \<and>
    (\<forall>w. virt_to_phys pm w t = (if same_page virt w then entry_addr phys else virt_to_phys pm w s)) \<and>
    (\<forall>x. untouched s pm x \<longrightarrow> mem t x = mem s x)"
  using vmm_map_contract [OF assms] by blast

theorem vmm_map_translates_witness:
  "\<exists>(s :: vmm_state) pm. pagemap_wf s pm \<and>
     virt_to_phys pm 0x400123 (vmm_map pm 0x400000 0x7000 3 s) = 0x7000 \<and>
     virt_to_phys pm 0x401000 (vmm_map pm 0x400000 0x7000 3 s) = 0"
proof -
  obtain s :: vmm_state where s: "pagemap_wf s (kernel_pagemap s)" "length (free_pages s) = 14"
    "\<forall>v. virt_to_phys (kernel_pagemap s) v s = 0" using boot_pagemap by blast
  have fl: "flags_ok 3" by (simp add: flags_ok_def entry_present_def entry_addr_def)
  have "3 \<le> length (free_pages s)" using s(2) by simp
  note m = vmm_map_translates [OF s(1) fl this refl, of "0x400000" "0x7000"]
  have "same_page 0x400000 0x400123" "\<not> same_page 0x400000 0x401000"
    by (simp_all add: same_page_def virt_path_def pml1_idx_def pml2_idx_def pml3_idx_def pml4_idx_def)
  then have "virt_to_phys (kernel_pagemap s) 0x400123 (vmm_map (kernel_pagemap s) 0x400000 0x7000 3 s) = 0x7000"
    "virt_to_phys (kernel_pagemap s) 0x401000 (vmm_map (kernel_pagemap s) 0x400000 0x7000 3 s) = 0"
    using m s(3) by (simp_all add: entry_addr_def)
  then show ?thesis using s(1) by blast
qed

text \<open>
  Unmapping: \<open>vmm_unmap\<close> keeps the page map well-formed, makes the page translate to 0,
  leaves every other translation and the free pages alone, and changes no byte outside the tables.
\<close>

theorem vmm_unmap_translates:
  assumes "pagemap_wf s pm" and "t = vmm_unmap pm virt s"
  shows "pagemap_wf t pm \<and> free_pages t = free_pages s \<and>
    (\<forall>w. virt_to_phys pm w t = (if same_page virt w then 0 else virt_to_phys pm w s)) \<and>
    (\<forall>x. untouched s pm x \<longrightarrow> mem t x = mem s x)"
  using vmm_unmap_contract [OF assms] by blast

theorem vmm_unmap_translates_witness:
  "\<exists>(s :: vmm_state) pm. virt_to_phys pm 0x400000 s = 0x7000 \<and>
     virt_to_phys pm 0x400000 (vmm_unmap pm 0x400000 s) = 0"
proof -
  obtain s :: vmm_state where s: "pagemap_wf s (kernel_pagemap s)" "length (free_pages s) = 14"
    using boot_pagemap by blast
  let ?pm = "kernel_pagemap s" and ?s = "vmm_map (kernel_pagemap s) 0x400000 0x7000 3 s"
  have fl: "flags_ok 3" by (simp add: flags_ok_def entry_present_def entry_addr_def)
  have "3 \<le> length (free_pages s)" using s(2) by simp
  note m = vmm_map_contract [OF s(1) fl this refl, where virt = "0x400000" and phys = "0x7000"]
  have "virt_to_phys ?pm 0x400000 ?s = 0x7000" by (simp add: m(2) same_page_def entry_addr_def)
  moreover have "virt_to_phys ?pm 0x400000 (vmm_unmap ?pm 0x400000 ?s) = 0"
    using vmm_unmap_translates [OF m(1) refl, of "0x400000"] by (simp add: same_page_def)
  ultimately show ?thesis by blast
qed

text \<open>
  C23. A new address space shares the kernel half: when a page is free, the page map that
  \<open>vmm_new_pagemap\<close> returns is well-formed, translates every address of the upper half (table
  index 256 and above) exactly as the kernel's page map does and no address of the lower half;
  the kernel's page map stays well-formed, and only the new page is written.
\<close>

theorem vmm_new_pagemap_shares_kernel:
  assumes "pagemap_wf s (kernel_pagemap s)" and "free_pages s \<noteq> []"
    and "HIGHER_HALF s (last (free_pages s)) \<noteq> NULL" and "vmm_new_pagemap s = (n, t)"
  shows "pagemap_wf t n \<and> pagemap_wf t (kernel_pagemap s) \<and>
    (\<forall>v. virt_to_phys n v t = (if 256 \<le> unat (pml4_idx v) then virt_to_phys (kernel_pagemap s) v s else 0)) \<and>
    (\<forall>x. \<not> in_range n 4096 x \<longrightarrow> mem t x = mem s x) \<and> free_pages s = free_pages t @ [PHYSICAL s n]"
proof -
  note e = vmm_new_pagemap_entries [OF assms]
  have "PHYSICAL s n = last (free_pages s)" by (simp add: PHYSICAL_def e(1) HIGHER_HALF_def)
  then show ?thesis
    using vmm_new_pagemap_wf [OF assms] vmm_new_pagemap_translate [OF assms] e(2,4) assms(2) by simp
qed

theorem vmm_new_pagemap_shares_kernel_witness:
  "\<exists>(s :: vmm_state) n t. vmm_new_pagemap s = (n, t) \<and> pagemap_wf t n \<and> n \<noteq> kernel_pagemap s \<and>
     virt_to_phys n 0xFFFF800000000000 t = virt_to_phys (kernel_pagemap s) 0xFFFF800000000000 s"
proof -
  obtain s :: vmm_state where s: "pagemap_wf s (kernel_pagemap s)" "length (free_pages s) = 14"
    "HIGHER_HALF s (last (free_pages s)) \<noteq> NULL" using boot_pagemap by blast
  have ne: "free_pages s \<noteq> []" using s(2) by (metis list.size(3) zero_neq_numeral)
  obtain n t where r: "vmm_new_pagemap s = (n, t)" by (cases "vmm_new_pagemap s")
  note v = vmm_new_pagemap_shares_kernel [OF s(1) ne s(3) r]
  have "is_table s (kernel_pagemap s) (kernel_pagemap s)" using is_tableI [of "[]"] by simp
  then have "n \<noteq> kernel_pagemap s" using vmm_new_pagemap_walk(1) [OF s(1) ne s(3) r] by blast
  moreover have "256 \<le> unat (pml4_idx 0xFFFF800000000000)" by (simp add: pml4_idx_def)
  then have "virt_to_phys n 0xFFFF800000000000 t = virt_to_phys (kernel_pagemap s) 0xFFFF800000000000 s"
    using v by simp
  ultimately show ?thesis using r v by blast
qed

text \<open>
  Mapping a region: the loop that maps the pages from \<open>x\<close> up to \<open>limit\<close> (page-aligned, at
  most \<open>2\<^sup>4\<^sup>8\<close> bytes apart) returns, and afterwards each page of the region translates to its
  address moved from the virtual to the physical base, while every page outside the region keeps its translation.
\<close>

theorem map_pages_correct:
  fixes s :: "'a vmm_state_scheme"
  assumes "page_aligned x" and "page_aligned limit" and "x \<le> limit" and "unat limit - unat x \<le> 2 ^ 48"
    and "pagemap_wf s pm" and "flags_ok flags" and "3 * length (page_range x limit) \<le> length (free_pages s)"
  shows "\<exists>t. map_pages pm x limit vb pb flags s = Some t \<and> pagemap_wf t pm \<and>
    (\<forall>v \<in> set (page_range x limit). virt_to_phys pm v t = entry_addr (v - vb + pb)) \<and>
    (\<forall>w. (\<forall>v \<in> set (page_range x limit). \<not> same_page v w) \<longrightarrow> virt_to_phys pm w t = virt_to_phys pm w s)"
proof -
  let ?vps = "map (\<lambda>v. (v, v - vb + pb)) (page_range x limit)"
  let ?t = "vmm.map_all pm flags ?vps s"
  have rdy: "vmm_ready pm flags (length ?vps + 0) s" using assms(5-7) by (simp add: vmm_ready_def)
  have "virt_to_phys pm v ?t = entry_addr (v - vb + pb)" if "v \<in> set (page_range x limit)" for v
  proof -
    from that obtain i where i: "i < length (page_range x limit)" "v = page_range x limit ! i"
      by (auto simp: in_set_conv_nth)
    have later: "\<forall>(u, q) \<in> set (drop (Suc i) ?vps). \<not> same_page u v"
      using page_range_not_same [OF assms(1,2,4) _ i(1)] i(1)
      by (auto simp: in_set_conv_nth i(2) drop_map)
    have split: "?vps = take i ?vps @ (v, v - vb + pb) # drop (Suc i) ?vps"
      using id_take_nth_drop [of i ?vps] i by simp
    have rdy': "vmm_ready pm flags (length (take i ?vps) + Suc (length (drop (Suc i) ?vps))) s"
    proof -
      have "length (take i ?vps) + Suc (length (drop (Suc i) ?vps)) = length ?vps + 0" using i(1) by simp
      with rdy show ?thesis by (simp only:)
    qed
    show ?thesis by (subst split) (rule vmm.map_all_translate [OF rdy' later])
  qed
  moreover have "virt_to_phys pm w ?t = virt_to_phys pm w s"
    if "\<forall>v \<in> set (page_range x limit). \<not> same_page v w" for w
    using vmm.map_all_other [OF rdy] that by simp
  moreover have "pagemap_wf ?t pm" using vmm.map_all_ready [OF rdy] by (simp add: vmm_ready_def)
  ultimately show ?thesis unfolding map_pages_all [OF assms(2,1,3)] by blast
qed

theorem map_pages_correct_witness:
  "\<exists>(s :: vmm_state) t. map_pages (kernel_pagemap s) 0x400000 0x402000 0x400000 0x9000 3 s = Some t \<and>
     virt_to_phys (kernel_pagemap s) 0x401000 t = 0xA000"
proof -
  obtain s :: vmm_state where s: "pagemap_wf s (kernel_pagemap s)" "length (free_pages s) = 14"
    using boot_pagemap by blast
  have fl: "flags_ok 3" by (simp add: flags_ok_def entry_present_def entry_addr_def)
  have rng: "page_range 0x400000 0x402000 = [0x400000, 0x401000]"
    by (simp add: page_range_def upt_rec)
  have al: "page_aligned 0x400000" "page_aligned 0x402000" by (simp_all add: page_aligned_def)
  have "(0x400000 :: u64) \<le> 0x402000" "unat (0x402000 :: u64) - unat (0x400000 :: u64) \<le> 2 ^ 48"
    "3 * length (page_range 0x400000 0x402000) \<le> length (free_pages s)" using s(2) rng by simp_all
  from map_pages_correct [OF al this(1,2) s(1) fl this(3), of "0x400000" "0x9000"] rng
  show ?thesis by (auto simp: entry_addr_def)
qed

text \<open>
  Exhausted memory is not noticed: with no free page \<open>vmm_new_pagemap\<close> does not return NULL
  but the direct-map address of physical page 0, after clearing that page, and \<open>vmm_map\<close>
  installs a top-level entry that points to physical page 0.
\<close>

theorem vmm_exhaustion_uses_page_zero:
  assumes "free_pages s = []" and "hhdm_offset s \<noteq> 0" and "flags_ok flags"
  shows "fst (vmm_new_pagemap s) = HIGHER_HALF s 0 \<and> fst (vmm_new_pagemap s) \<noteq> NULL \<and>
    (\<not> entry_present (get_entry s pm i) \<longrightarrow>
       next_table (ensure_table pm i flags s) pm i = HIGHER_HALF s 0)"
proof (intro conjI impI)
  have r: "pmm_request_page s = (0, s)" using assms(1) by (rule pmm.request_empty)
  show "fst (vmm_new_pagemap s) = HIGHER_HALF s 0" "fst (vmm_new_pagemap s) \<noteq> NULL"
    using assms(2) by (simp_all add: vmm_new_pagemap_def r Let_def HIGHER_HALF_def)
  assume "\<not> entry_present (get_entry s pm i)"
  then show "next_table (ensure_table pm i flags s) pm i = HIGHER_HALF s 0"
    using assms(3) by (simp add: ensure_table_def r next_table_def get_entry_def set_entry_def HIGHER_HALF_def flags_ok_def)
qed

theorem vmm_exhaustion_uses_page_zero_witness:
  "\<exists>s :: vmm_state. free_pages s = [] \<and> fst (vmm_new_pagemap s) = 0xFFFF800000000000 \<and>
     next_table (ensure_table 0x1000 0 3 s) 0x1000 0 = 0xFFFF800000000000"
proof -
  let ?s = "boot_pmm (vmm_state.fields 0 0 []) :: vmm_state"
  have e: "free_pages ?s = []" by (simp add: free_pages_empty boot_pmm_def)
  have h: "hhdm_offset ?s = 0xFFFF800000000000" by (simp add: boot_pmm_def)
  have fl: "flags_ok 3" by (simp add: flags_ok_def entry_present_def entry_addr_def)
  have z: "\<not> entry_present (get_entry ?s 0x1000 0)"
    by (simp add: get_entry_def boot_pmm_def load64_zero)
  show ?thesis
    using vmm_exhaustion_uses_page_zero [OF e _ fl, of "0x1000" 0] e h z
    by (intro exI [of _ ?s]) (simp add: HIGHER_HALF_def)
qed

text \<open>
  A destroyed page map is freed at the wrong address: \<open>vmm_destroy_pagemap\<close> hands the
  direct-map pointer to \<open>pmm_free_page\<close>, which expects a physical address, so the next request
  returns the virtual address as if it were a physical page.
\<close>

theorem vmm_destroy_frees_virtual_address:
  assumes "pmm_inv s" and "stack_idx s < stack_max s" and "pm = HIGHER_HALF s a" and "pm \<noteq> NULL"
  shows "fst (pmm_request_page (vmm_destroy_pagemap pm s)) = HIGHER_HALF s a"
proof -
  have lay: "pmm_layout s" using assms(1) by (simp add: pmm_inv_def)
  have "unat (stack_idx s) < unat (stack_max s)" using assms(2) by (simp add: word_less_nat_alt)
  with lay have "slot_aligned (stack_pages s)" "unat (stack_pages s) + 8 * (unat (stack_idx s) + 1) \<le> 2 ^ 64"
    by (auto simp: pmm_layout_def)
  note push = free_pages_push [OF this, of pm]
  have d: "vmm_destroy_pagemap pm s = stack_push pm s"
    using assms(2,4) by (simp add: vmm_destroy_pagemap_def pmm_free_page_def)
  have "free_pages (stack_push pm s) \<noteq> []" using push(1) by simp
  then have "stack_idx (stack_push pm s) \<noteq> 0" by (simp only: free_pages_empty not_False_eq_True)
  from pmm_request_some [OF this] push(1) show ?thesis unfolding d by (simp add: assms(3))
qed

theorem vmm_destroy_frees_virtual_address_witness:
  "\<exists>s :: vmm_state. pmm_inv s \<and> fst (pmm_request_page (vmm_destroy_pagemap 0xFFFF800000001000 s)) = 0xFFFF800000001000"
proof -
  obtain s :: vmm_state where s: "pmm_inv s" "length (free_pages s) = 15" "hhdm_offset s = 0xFFFF800000000000"
    using boot_pool by blast
  have ne: "free_pages s \<noteq> []" using s(2) by (metis list.size(3) zero_neq_numeral)
  obtain a t where r: "pmm_request_page s = (a, t)" by (cases "pmm_request_page s")
  note c = pmm_request_contract [OF s(1) ne r]
  have "length (free_pages t) = 14" using c(2) s(2) by (simp del: length_free_pages)
  then have "stack_idx t < stack_max t"
    using pmm_inv_idx [OF s(1)] s(2) c(7) by (simp add: word_less_nat_alt)
  moreover have "(0xFFFF800000001000 :: u64) = HIGHER_HALF t 0x1000" using c(8) s(3) by (simp add: HIGHER_HALF_def)
  ultimately show ?thesis
    using vmm_destroy_frees_virtual_address [OF c(5), of "0xFFFF800000001000" "0x1000"] c(5) by auto
qed

end
