(* ===== verification/VmmInit.thy ===== *)
theory VmmInit
  imports Vmm
begin

text \<open>
  The kernel's own page map. Mapping takes a page only for a table that does not exist yet; counted over
  the tables that a set of pages needs, this gives the memory that \<open>vmm_init\<close> of \<^verbatim>\<open>mm/vmm.c\<close> needs to
  map the kernel, the first 4 GiB at their own addresses and the direct map.
\<close>

unbundle bit_operations_syntax

section \<open>Counting tables\<close>

definition tables :: "'a machine_scheme \<Rightarrow> u64 \<Rightarrow> u64 list set" where
  "tables s pm = {q. path_ok q \<and> q \<noteq> [] \<and> table_at s pm q \<noteq> None}"

lemma finite_tables [simp]: "finite (tables s pm)"
proof -
  have "tables s pm \<subseteq> {q. set q \<subseteq> UNIV \<and> length q \<le> 3}" by (auto simp: tables_def path_ok_def)
  then show ?thesis using finite_lists_length_le [of "UNIV :: u64 set" 3] finite_subset by auto
qed

text \<open>Tables appear only for free pages: the sum of both stays the same.\<close>

definition grown :: "u64 \<Rightarrow> u64 list set \<Rightarrow> 'a pmm_state_scheme \<Rightarrow> 'a pmm_state_scheme \<Rightarrow> bool" where
  "grown pm Q s s' \<longleftrightarrow> tables s' pm = tables s pm \<union> Q \<and>
     length (free_pages s') + card (tables s' pm) = length (free_pages s) + card (tables s pm)"

lemma grown_trans: "grown pm Q s s1 \<Longrightarrow> grown pm R s1 s2 \<Longrightarrow> grown pm (Q \<union> R) s s2"
  by (auto simp: grown_def)

lemma grown_refl: "Q \<subseteq> tables s pm \<Longrightarrow> grown pm Q s s"
  by (auto simp: grown_def)

lemma ensure_table_grown:
  assumes wf: "pagemap_wf s pm" and p: "path_ok (p @ [i])" "table_at s pm p = Some t"
    and fl: "flags_ok flags" and ne: "free_pages s \<noteq> []" and s': "s' = ensure_table t i flags s"
  shows "grown pm {p @ [i]} s s'"
proof (cases "entry_present (get_entry s t i)")
  case True
  then have "s' = s" "p @ [i] \<in> tables s pm" using p by (simp_all add: s' ensure_table_def tables_def table_at_snoc)
  then show ?thesis by (simp add: grown_refl)
next
  case False
  obtain a s1 where r: "pmm_request_page s = (a, s1)" by (cases "pmm_request_page s")
  note e = ensure_table_new [OF wf p fl False ne r s'] and f = ensure_table_new_frame [OF wf p fl False ne s']
  have "tables s' pm = insert (p @ [i]) (tables s pm)" using e(4) p(1) by (auto simp: tables_def)
  moreover have "p @ [i] \<notin> tables s pm" using False p(2) by (simp add: tables_def table_at_snoc)
  moreover have "length (free_pages s') = length (free_pages s) - 1" "0 < length (free_pages s)" using f(2) ne by (simp_all del: length_free_pages)
  ultimately show ?thesis by (simp add: grown_def del: length_free_pages)
qed

definition paths_of :: "u64 \<Rightarrow> u64 list set" where
  "paths_of v = {[pml4_idx v], [pml4_idx v, pml3_idx v], virt_path v}"

lemma finite_paths_of [simp]: "finite (paths_of v)"
  by (simp add: paths_of_def)

lemma vmm_map_grown:
  assumes wf: "pagemap_wf s pm" and fl: "flags_ok flags" and room: "3 \<le> length (free_pages s)"
  shows "grown pm (paths_of virt) s (vmm_map pm virt phys flags s)"
proof -
  define s1 where "s1 = ensure_table pm (pml4_idx virt) flags s"
  define t3 where "t3 = next_table s1 pm (pml4_idx virt)"
  define s2 where "s2 = ensure_table t3 (pml3_idx virt) flags s1"
  define t2 where "t2 = next_table s2 t3 (pml3_idx virt)"
  define s3 where "s3 = ensure_table t2 (pml2_idx virt) flags s2"
  define t1 where "t1 = next_table s3 t2 (pml2_idx virt)"
  have ok: "path_ok ([] @ [pml4_idx virt])" "path_ok ([pml4_idx virt] @ [pml3_idx virt])"
    "path_ok ([pml4_idx virt, pml3_idx virt] @ [pml2_idx virt])" by (simp_all add: path_ok_def)
  have t0: "table_at s pm [] = Some pm" by simp
  note e1 = ensure_table_extended [OF wf ok(1) t0 fl free_pages_nonempty [OF room] s1_def]
    and g1 = ensure_table_grown [OF wf ok(1) t0 fl free_pages_nonempty [OF room] s1_def]
  then have t1': "table_at s1 pm [pml4_idx virt] = Some t3" and "2 \<le> length (free_pages s1)"
    using room by (simp_all add: tables_extended_def t3_def)
  note ne = free_pages_nonempty [OF this(2)] and wf1 = tables_extended_wf [OF conjunct1 [OF e1]]
  note e2 = ensure_table_extended [OF wf1 ok(2) t1' fl ne s2_def] and g2 = ensure_table_grown [OF wf1 ok(2) t1' fl ne s2_def]
  then have t2': "table_at s2 pm [pml4_idx virt, pml3_idx virt] = Some t2" and "1 \<le> length (free_pages s2)"
    using \<open>2 \<le> length (free_pages s1)\<close> by (simp_all add: tables_extended_def t2_def)
  then have ne: "free_pages s2 \<noteq> []" by (metis list.size(3) not_one_le_zero)
  note wf2 = tables_extended_wf [OF conjunct1 [OF e2]]
  note e3 = ensure_table_extended [OF wf2 ok(3) t2' fl ne s3_def] and g3 = ensure_table_grown [OF wf2 ok(3) t2' fl ne s3_def]
  have wf3: "pagemap_wf s3 pm" and t: "table_at s3 pm (virt_path virt) = Some t1"
    using e3 tables_extended_wf by (auto simp: t1_def virt_path_def)
  let ?s = "set_entry t1 (pml1_idx virt) (phys OR flags) s3"
  have "table_at ?s pm q = table_at s3 pm q" if "path_ok q" for q
    using table_at_set_quiet [OF wf3 path_ok_virt t _ _ that] by simp
  then have "tables ?s pm = tables s3 pm" by (auto simp: tables_def)
  moreover have "free_pages ?s = free_pages s3" using table_set_pmm [OF wf3 is_tableI [OF path_ok_virt t]] by simp
  ultimately have "grown pm {} s3 ?s" by (simp add: grown_def)
  moreover have "vmm_map pm virt phys flags s = ?s"
    by (simp add: vmm_map_def Let_def s1_def t3_def s2_def t2_def s3_def t1_def)
  moreover have "({[] @ [pml4_idx virt]} \<union> {[pml4_idx virt] @ [pml3_idx virt]} \<union> {[pml4_idx virt, pml3_idx virt] @ [pml2_idx virt]}) \<union> {} = paths_of virt"
    by (auto simp: paths_of_def virt_path_def)
  ultimately show ?thesis using grown_trans [OF grown_trans [OF grown_trans [OF g1 g2] g3], of "{}" ?s] by simp
qed

section \<open>A list of mappings\<close>

definition map_list :: "u64 \<Rightarrow> (u64 \<times> u64 \<times> u64) list \<Rightarrow> 'a pmm_state_scheme \<Rightarrow> 'a pmm_state_scheme" where
  "map_list pm ops s = fold (\<lambda>(v, p, flags). vmm_map pm v p flags) ops s"

definition paths_needed :: "(u64 \<times> u64 \<times> u64) list \<Rightarrow> u64 list set" where
  "paths_needed ops = (\<Union>(v, p, flags) \<in> set ops. paths_of v)"

definition translated :: "(u64 \<times> u64 \<times> u64) list \<Rightarrow> u64 \<Rightarrow> u64 \<Rightarrow> u64" where
  "translated ops w r = fold (\<lambda>(v, p, flags) r. if same_page v w then entry_addr p else r) ops r"

lemma finite_paths_needed [simp]: "finite (paths_needed ops)"
  by (auto simp: paths_needed_def)

lemma map_list_append: "map_list pm (xs @ ys) s = map_list pm ys (map_list pm xs s)"
  by (simp add: map_list_def)

definition mapped_list :: "u64 \<Rightarrow> (u64 \<times> u64 \<times> u64) list \<Rightarrow> 'a pmm_state_scheme \<Rightarrow> 'a pmm_state_scheme \<Rightarrow> bool" where
  "mapped_list pm ops s t \<longleftrightarrow> pagemap_wf t pm \<and> (\<forall>w. virt_to_phys pm w t = translated ops w (virt_to_phys pm w s)) \<and>
     grown pm (paths_needed ops) s t \<and> set (free_pages t) \<subseteq> set (free_pages s) \<and>
     (\<forall>x. untouched s pm x \<longrightarrow> untouched t pm x \<and> mem t x = mem s x) \<and> stack_area t = stack_area s \<and> hhdm_offset t = hhdm_offset s"

lemma grown_room:
  assumes "grown pm Q s t" and "finite Q" and "card Q + n \<le> length (free_pages s)"
  shows "n \<le> length (free_pages t)"
proof -
  have t: "tables t pm = tables s pm \<union> Q" "length (free_pages t) + card (tables t pm) = length (free_pages s) + card (tables s pm)"
    using assms(1) unfolding grown_def by blast+
  have "card (tables t pm) \<le> card (tables s pm) + card Q" unfolding t(1) by (rule card_Un_le)
  then show ?thesis using t(2) assms(3) by linarith
qed

lemma map_list_contract:
  assumes "pagemap_wf s pm" and "\<forall>(v, p, flags) \<in> set ops. flags_ok flags" and "card (paths_needed ops) + 3 \<le> length (free_pages s)"
  shows "mapped_list pm ops s (map_list pm ops s)"
  using assms(2,3)
proof (induction ops rule: rev_induct)
  case Nil
  then show ?case using assms(1) by (auto simp: map_list_def mapped_list_def translated_def paths_needed_def intro: grown_refl)
next
  case (snoc op ops)
  obtain v p flags where op: "op = (v, p, flags)" by (cases op)
  let ?s = "map_list pm ops s"
  have sub: "paths_needed (ops @ [op]) = paths_needed ops \<union> paths_of v" by (auto simp: paths_needed_def op)
  then have "card (paths_needed ops) \<le> card (paths_needed (ops @ [op]))" by (intro card_mono) auto
  then have room: "card (paths_needed ops) + 3 \<le> length (free_pages s)" using snoc.prems(2) by linarith
  have IH: "mapped_list pm ops s ?s" using snoc.IH snoc.prems(1) room by simp
  then have g: "grown pm (paths_needed ops) s ?s" and wf: "pagemap_wf ?s pm" by (simp_all add: mapped_list_def)
  have fl: "flags_ok flags" using snoc.prems(1) op by simp
  note r3 = grown_room [OF g finite_paths_needed room]
  note c = vmm_map_contract [OF wf fl r3 refl, where virt = v and phys = p] and g' = grown_trans [OF g vmm_map_grown [OF wf fl r3, of v p]]
  have "map_list pm (ops @ [op]) s = vmm_map pm v p flags ?s" by (simp add: map_list_def op)
  moreover have "set (free_pages (vmm_map pm v p flags ?s)) \<subseteq> set (free_pages s)" using c(4) IH by (auto simp: mapped_list_def)
  ultimately show ?case
    using IH c(1,2) c(5-) g' by (simp add: mapped_list_def sub [unfolded op] translated_def op)
qed

section \<open>The tables of a range of addresses\<close>

lemma idx_unat: "drop_bit n (v AND push_bit n 0x1ff) = of_nat (unat v div 2 ^ n mod 512)" for v :: u64
proof -
  have "drop_bit n v AND drop_bit n (- 1) = drop_bit n v"
    by (rule bit_word_eqI) (auto simp: bit_simps dest: bit_imp_le_length)
  then have "unat (drop_bit n (v AND push_bit n 0x1ff)) = unat (take_bit 9 (drop_bit n v))" by (simp only: idx_take_bit)
  moreover have "unat (take_bit 9 (drop_bit n v)) = unat v div 2 ^ n mod 512"
    unfolding unsigned_take_bit_eq unsigned_drop_bit_eq using unat_u64_less [of v] by (simp add: take_bit_eq_mod drop_bit_eq_div)
  moreover have "drop_bit n (v AND push_bit n 0x1ff) = of_nat (unat (drop_bit n (v AND push_bit n 0x1ff)))" by simp
  ultimately show ?thesis by (simp only:)
qed

text \<open>The path to a table depends on the number of the area that the table maps.\<close>

definition area_path :: "nat \<Rightarrow> nat \<Rightarrow> u64 list" where
  "area_path n a = map (\<lambda>i. of_nat (a div 2 ^ (9 * i) mod 512)) (rev [0..<n])"

lemma area_path_levels:
  "area_path 1 a = [of_nat (a mod 512)]" "area_path 2 a = [of_nat (a div 512 mod 512), of_nat (a mod 512)]"
  "area_path 3 a = [of_nat (a div 262144 mod 512), of_nat (a div 512 mod 512), of_nat (a mod 512)]"
  by (simp_all add: area_path_def upt_rec)

lemma paths_of_area: "paths_of v = {area_path 1 (unat v div 2 ^ 39), area_path 2 (unat v div 2 ^ 30), area_path 3 (unat v div 2 ^ 21)}"
  unfolding paths_of_def virt_path_def area_path_levels pml4_idx_def pml3_idx_def pml2_idx_def idx_unat by (simp flip: div_mult2_eq)

definition table_count :: "nat \<Rightarrow> nat \<Rightarrow> nat" where
  "table_count lo hi = (\<Sum>k \<leftarrow> [21, 30, 39]. Suc ((hi - 1) div 2 ^ k - lo div 2 ^ k))"

lemma card_paths_range:
  assumes "\<forall>(v, p, flags) \<in> set ops. lo \<le> unat v \<and> unat v < hi"
  shows "card (paths_needed ops) \<le> table_count lo hi"
proof -
  let ?A = "\<lambda>k. {lo div 2 ^ k..(hi - 1) div 2 ^ k}"
  have "unat v div 2 ^ k \<in> ?A k" if "lo \<le> unat v" "unat v < hi" for v :: u64 and k
    using that by (auto intro: div_le_mono)
  then have "paths_needed ops \<subseteq> area_path 3 ` ?A 21 \<union> (area_path 2 ` ?A 30 \<union> area_path 1 ` ?A 39)"
    using assms by (fastforce simp: paths_needed_def paths_of_area)
  then have "card (paths_needed ops) \<le> card (area_path 3 ` ?A 21 \<union> (area_path 2 ` ?A 30 \<union> area_path 1 ` ?A 39))" by (rule card_mono [rotated]) simp
  also have "\<dots> \<le> card (area_path 3 ` ?A 21) + (card (area_path 2 ` ?A 30) + card (area_path 1 ` ?A 39))"
    by (meson add_left_mono card_Un_le le_trans)
  also have "\<dots> \<le> card (?A 21) + (card (?A 30) + card (?A 39))" by (intro add_mono card_image_le) simp_all
  also have "\<dots> \<le> table_count lo hi"
  proof -
    have "card (?A k) \<le> Suc ((hi - 1) div 2 ^ k - lo div 2 ^ k)" for k by simp
    from this [of 21] this [of 30] this [of 39] show ?thesis unfolding table_count_def list.map sum_list.Cons sum_list.Nil by linarith
  qed
  finally show ?thesis .
qed

lemma card_paths_append: "card (paths_needed (xs @ ys)) \<le> card (paths_needed xs) + card (paths_needed ys)"
proof -
  have "paths_needed (xs @ ys) = paths_needed xs \<union> paths_needed ys" by (auto simp: paths_needed_def)
  then show ?thesis using card_Un_le by metis
qed

lemma div_add_le: "(a + b) div m \<le> a div m + b div m + 1" for a b m :: nat
proof (cases "m = 0")
  case False
  then have "a < (a div m + 1) * m" "b < (b div m + 1) * m" by (simp_all add: dividend_less_div_times)
  then have "a + b < (a div m + b div m + 2) * m" by (simp add: algebra_simps)
  then have "(a + b) div m < a div m + b div m + 2" using False by (simp add: div_less_iff_less_mult)
  then show ?thesis by simp
qed simp

lemma table_count_4G: "table_count h (h + 2 ^ 32) \<le> 2056"
proof -
  have k: "(h + 2 ^ 32 - 1) div 2 ^ k - h div 2 ^ k \<le> (2 ^ 32 - 1) div 2 ^ k + 1" for k :: nat
  proof -
    have "h + 2 ^ 32 - 1 = h + (2 ^ 32 - 1)" by simp
    then show ?thesis using div_add_le [of h "2 ^ 32 - 1" "2 ^ k"] by (simp only:)
  qed
  have "(2 ^ 32 - 1) div 2 ^ 21 = (2047 :: nat)" "(2 ^ 32 - 1) div 2 ^ 30 = (3 :: nat)" "(2 ^ 32 - 1) div 2 ^ 39 = (0 :: nat)" by simp_all
  with k [of 21] k [of 30] k [of 39] show ?thesis
    unfolding table_count_def list.map sum_list.Cons sum_list.Nil by linarith
qed

section \<open>Translations after a list of mappings\<close>

lemma translated_other: "\<forall>(v, p, flags) \<in> set ops. \<not> same_page v w \<Longrightarrow> translated ops w r = r"
  unfolding translated_def by (induction ops) auto

lemma translated_const:
  "\<forall>(v, p, flags) \<in> set ops. same_page v w \<longrightarrow> entry_addr p = q \<Longrightarrow> r = q \<or> (\<exists>(v, p, flags) \<in> set ops. same_page v w) \<Longrightarrow>
   translated ops w r = q"
  unfolding translated_def
proof (induction ops arbitrary: r)
  case (Cons op ops)
  obtain v p flags where op: "op = (v, p, flags)" by (cases op)
  show ?case
  proof (cases "same_page v w")
    case True
    then have "entry_addr p = q" using Cons.prems(1) op by simp
    then show ?thesis using Cons.IH [of "entry_addr p"] Cons.prems(1) True op by simp
  next
    case False
    then show ?thesis using Cons.IH [of r] Cons.prems op by auto
  qed
qed simp

lemma translated_append: "translated (xs @ ys) w r = translated ys w (translated xs w r)"
  by (simp add: translated_def)

text \<open>Two pages in the same half of the address space are the same page only if they are equal.\<close>

lemma mod_mult_div: "0 < a \<Longrightarrow> m mod (a * b) div a = m div a mod b" for a b m :: nat
  by (simp add: mod_mult2_eq)

lemma same_page_half: "same_page v w \<Longrightarrow> unat v div 2 ^ 47 mod 2 = unat w div 2 ^ 47 mod 2"
proof -
  assume "same_page v w"
  then have "page_no v mod 2 ^ 36 div 2 ^ 35 = page_no w mod 2 ^ 36 div 2 ^ 35" by (simp only: same_page_number)
  then have "page_no v div 2 ^ 35 mod 2 = page_no w div 2 ^ 35 mod 2"
    using mod_mult_div [of "2 ^ 35" _ 2] by simp
  then show ?thesis by (simp add: page_no_def flip: div_mult2_eq)
qed

lemma same_page_eq:
  assumes "same_page v w" "page_aligned v" "page_aligned w" "unat v div 2 ^ 47 = unat w div 2 ^ 47"
  shows "v = w"
proof -
  have "page_no v mod 2 ^ 36 = page_no w mod 2 ^ 36" using assms(1) by (rule same_page_number)
  moreover have "page_no v div 2 ^ 36 = page_no w div 2 ^ 36"
  proof -
    have "unat v div 2 ^ 47 div 2 = unat w div 2 ^ 47 div 2" using assms(4) by simp
    then show ?thesis by (simp add: page_no_def flip: div_mult2_eq)
  qed
  ultimately have "page_no v = page_no w" by (metis div_mult_mod_eq)
  then have "unat v = unat w" using assms(2,3) by (simp add: page_no_def page_aligned_def) (metis dvd_div_mult_self)
  then show ?thesis by (simp add: word_unat_eq_iff)
qed

lemma upper_half: "2 ^ 64 - 2 ^ 47 \<le> unat v \<Longrightarrow> unat v div 2 ^ 47 = 2 ^ 17 - 1" for v :: u64
  using unat_u64_less [of v] by (intro div_nat_eqI) simp_all

section \<open>What the kernel maps\<close>

definition kernel_sections :: "kernel_layout \<Rightarrow> (u64 \<times> u64 \<times> u64) list" where
  "kernel_sections k =
     [(limine_requests_start k, limine_requests_end k, VMM_PRESENT OR VMM_WRITABLE), (text_start k, text_end k, VMM_PRESENT),
      (rodata_start k, rodata_end k, VMM_PRESENT OR VMM_NX), (data_start k, data_end k, VMM_PRESENT OR VMM_WRITABLE OR VMM_NX)]"

definition section_pages :: "u64 \<times> u64 \<times> u64 \<Rightarrow> u64 list" where
  "section_pages = (\<lambda>(first, limit, flags). page_range (ALIGN_DOWN first PAGE_SIZE) (ALIGN_UP limit PAGE_SIZE))"

definition section_ops :: "kernel_layout \<Rightarrow> u64 \<times> u64 \<times> u64 \<Rightarrow> (u64 \<times> u64 \<times> u64) list" where
  "section_ops k sec = map (\<lambda>v. (v, v - kernel_virt_base k + kernel_phys_base k, snd (snd sec))) (section_pages sec)"

definition direct_ops :: "u64 \<Rightarrow> u64 \<Rightarrow> (u64 \<times> u64 \<times> u64) list" where
  "direct_ops h x = concat (map (\<lambda>x. [(x, x, VMM_PRESENT OR VMM_WRITABLE), (x + h, x, VMM_PRESENT OR VMM_WRITABLE)]) (page_range x 0x100000000))"

text \<open>The direct map is in the upper half and does not wrap around, and the sections of the kernel are behind it.\<close>

definition layout_ok :: "u64 \<Rightarrow> kernel_layout \<Rightarrow> bool" where
  "layout_ok h k \<longleftrightarrow> page_aligned h \<and> 2 ^ 64 - 2 ^ 47 \<le> unat h \<and> unat h + 2 ^ 32 \<le> 2 ^ 64 \<and>
     (\<forall>(first, limit, flags) \<in> set (kernel_sections k).
        first \<le> limit \<and> unat limit + 4095 < 2 ^ 64 \<and> unat h + 2 ^ 32 \<le> unat (ALIGN_DOWN first PAGE_SIZE))"

definition section_tables :: "kernel_layout \<Rightarrow> nat" where
  "section_tables k = (\<Sum>(first, limit, flags) \<leftarrow> kernel_sections k.
     table_count (unat (ALIGN_DOWN first PAGE_SIZE)) (unat (ALIGN_UP limit PAGE_SIZE)))"

lemma align_bounds:
  assumes "first \<le> limit" "unat limit + 4095 < 2 ^ 64"
  shows "page_aligned (ALIGN_DOWN first PAGE_SIZE)" "page_aligned (ALIGN_UP limit PAGE_SIZE)" "ALIGN_DOWN first PAGE_SIZE \<le> ALIGN_UP limit PAGE_SIZE"
proof -
  have d: "unat (ALIGN_DOWN first PAGE_SIZE) = 4096 * (unat first div 4096)"
    using unat_u64_less [of first] by (simp add: ALIGN_DOWN_def unat_word_ariths unat_div)
  have "unat (limit + 4095) = unat limit + 4095" using assms(2) by (simp add: unat_word_ariths)
  then have u: "unat (ALIGN_UP limit PAGE_SIZE) = 4096 * ((unat limit + 4095) div 4096)"
    using assms(2) by (simp add: ALIGN_UP_def DIV_ROUND_UP_def unat_word_ariths unat_div)
  show "page_aligned (ALIGN_DOWN first PAGE_SIZE)" "page_aligned (ALIGN_UP limit PAGE_SIZE)" by (simp_all add: page_aligned_def d u)
  have "unat first div 4096 \<le> (unat limit + 4095) div 4096" using assms(1) by (intro div_le_mono) (simp add: word_le_nat_alt)
  then show "ALIGN_DOWN first PAGE_SIZE \<le> ALIGN_UP limit PAGE_SIZE" by (simp add: word_le_nat_alt d u)
qed

lemma page_range_member:
  assumes "page_aligned x" "page_aligned limit" "v \<in> set (page_range x limit)"
  shows "page_aligned v" "unat x \<le> unat v" "unat v < unat limit"
proof -
  obtain i where i: "v = x + 4096 * of_nat i" "i < (unat limit - unat x) div 4096" using assms(3) by (auto simp: page_range_def)
  have b: "unat x + 4096 * i < unat limit" using i(2) by (simp add: div_less_iff_less_mult)
  then have "unat (4096 * of_nat i :: u64) = 4096 * i" using unat_u64_less [of limit] by (subst unat_word_ariths) simp
  then have "unat v = unat x + 4096 * i" unfolding i(1) using b unat_u64_less [of limit] by (subst unat_add_no_wrap) simp_all
  then show "page_aligned v" "unat x \<le> unat v" "unat v < unat limit" using assms(1) b by (simp_all add: page_aligned_def)
qed

lemma page_range_memberI:
  assumes "page_aligned x" "page_aligned v" "unat x \<le> unat v" "unat v < unat limit" "page_aligned limit"
  shows "v \<in> set (page_range x limit)"
proof -
  obtain a b c where u: "unat x = 4096 * a" "unat v = 4096 * b" "unat limit = 4096 * c" using assms(1,2,5) by (auto simp: page_aligned_def elim!: dvdE)
  then have "a \<le> b" "b < c" using assms(3,4) by simp_all
  moreover have "unat (4096 * of_nat (b - a) :: u64) = 4096 * (b - a)" using u(2) unat_u64_less [of v] by (subst unat_word_ariths) simp
  then have "v = x + 4096 * of_nat (b - a)" using u \<open>a \<le> b\<close> unat_u64_less [of v] by (simp add: word_unat_eq_iff unat_add_no_wrap)
  moreover have "(unat limit - unat x) div 4096 = c - a" using u by (simp flip: diff_mult_distrib2)
  ultimately show ?thesis by (auto simp: page_range_def intro!: image_eqI [of _ _ "b - a"])
qed

section \<open>The loops as lists of mappings\<close>

lemma map_section_list:
  assumes "first \<le> limit" "unat limit + 4095 < 2 ^ 64"
  shows "map_section k pm first limit flags s = Some (map_list pm (section_ops k (first, limit, flags)) s)"
  using map_pages_fold [OF align_bounds(2,1,3) [OF assms]]
  by (simp add: map_section_def section_ops_def section_pages_def map_list_def fold_map comp_def)

lemma vmm_map_hhdm [simp]: "hhdm_offset (vmm_map pm v p flags s) = hhdm_offset s"
proof -
  have e: "hhdm_offset (ensure_table t i flags s) = hhdm_offset s" for t i and s :: "'b pmm_state_scheme"
    by (auto simp: ensure_table_def pmm_request_page_def Let_def)
  show ?thesis by (simp add: vmm_map_def Let_def e)
qed

lemma map_hhdm_list:
  assumes "page_aligned x" "x \<le> 0x100000000" "h = hhdm_offset s"
  shows "map_hhdm pm x s = Some (map_list pm (direct_ops h x) s)"
  using assms
proof (induction "length (page_range x 0x100000000)" arbitrary: x s)
  case 0
  have "page_aligned 0x100000000" by (simp add: page_aligned_def)
  then have "\<not> x < 0x100000000" using page_range_Cons [OF 0(2)] 0(1) by force
  then show ?case by (subst map_hhdm.simps) (simp add: page_range_Nil direct_ops_def map_list_def)
next
  case (Suc n)
  have al: "page_aligned 0x100000000" by (simp add: page_aligned_def)
  have "page_range x 0x100000000 \<noteq> []" using Suc.hyps(2) by auto
  then have lt: "x < 0x100000000" using page_range_Nil [of "0x100000000" x] by (meson not_le)
  note c = page_range_Cons [OF Suc.prems(1) al lt]
  let ?s = "vmm_map pm (x + h) x 3 (vmm_map pm x x 3 s)"
  have "map_hhdm pm (x + 4096) ?s = Some (map_list pm (direct_ops h (x + 4096)) ?s)"
    using Suc.hyps(2) c Suc.prems(3) by (intro Suc.hyps(1)) simp_all
  then show ?case using lt Suc.prems(3) by (subst map_hhdm.simps) (simp add: c(1) direct_ops_def map_list_def HIGHER_HALF_def Let_def)
qed

lemma vmm_map_kernel_pagemap [simp]: "kernel_pagemap (vmm_map pm v p flags s) = kernel_pagemap s"
proof -
  have e: "kernel_pagemap (ensure_table t i flags s) = kernel_pagemap s" for t i and s :: "'b vmm_state_scheme"
    by (auto simp: ensure_table_def pmm_request_page_def set_entry_def Let_def)
  show ?thesis by (simp add: vmm_map_def Let_def e set_entry_def)
qed

lemma map_list_kernel_pagemap: "kernel_pagemap (map_list pm ops s) = kernel_pagemap s"
  unfolding map_list_def by (induction ops arbitrary: s) auto

definition init_ops :: "u64 \<Rightarrow> kernel_layout \<Rightarrow> (u64 \<times> u64 \<times> u64) list" where
  "init_ops h k = concat (map (section_ops k) (kernel_sections k)) @ direct_ops h 0"

lemma vmm_init_list:
  assumes "layout_ok (hhdm_offset s) k" and "pmm_request_page s = (page, s1)" and "HIGHER_HALF s1 page = pm" and "pm \<noteq> NULL"
  shows "vmm_init k s = Some (0, vmm_switch_pagemap pm (map_list pm (init_ops (hhdm_offset s) k)
    (s1\<lparr>kernel_pagemap := pm, mem := zero_page (mem s1) pm\<rparr>)))"
proof -
  have h: "hhdm_offset s1 = hhdm_offset s" using assms(2) by (auto simp: pmm_request_page_def Let_def split: if_splits)
  have ml: "hhdm_offset (map_list pm ops t) = hhdm_offset t" for ops and t :: "'a vmm_state_scheme"
    unfolding map_list_def by (induction ops arbitrary: t) auto
  have sec: "map_section k pm first limit flags t = Some (map_list pm (section_ops k (first, limit, flags)) t)"
    if "(first, limit, flags) \<in> set (kernel_sections k)" for first limit flags and t :: "'a vmm_state_scheme"
    using that assms(1) map_section_list [of first limit k pm flags t] by (force simp: layout_ok_def)
  have z: "page_aligned 0" by (simp add: page_aligned_def)
  have "map_hhdm pm 0 t = Some (map_list pm (direct_ops (hhdm_offset t) 0) t)" for t :: "'a vmm_state_scheme"
    using map_hhdm_list [OF z _ refl] by simp
  then show ?thesis
    using assms(2-4) sec h by (simp add: vmm_init_def Let_def kernel_sections_def init_ops_def map_list_append ml memset_zero_page HIGHER_HALF_def)
qed

section \<open>The memory that initialisation needs\<close>

lemma card_paths_concat: "card (paths_needed (concat (map f xs))) \<le> (\<Sum>x \<leftarrow> xs. card (paths_needed (f x)))"
proof (induction xs)
  case (Cons x xs)
  then show ?case using card_paths_append [of "f x" "concat (map f xs)"] by simp
qed (simp add: paths_needed_def)

lemma section_pages_bounds:
  assumes "layout_ok h k" "sec \<in> set (kernel_sections k)" "v \<in> set (section_pages sec)"
  shows "page_aligned v" "unat h + 2 ^ 32 \<le> unat v" "unat (ALIGN_DOWN (fst sec) PAGE_SIZE) \<le> unat v" "unat v < unat (ALIGN_UP (fst (snd sec)) PAGE_SIZE)"
proof -
  obtain first limit flags where sec: "sec = (first, limit, flags)" by (cases sec)
  have l: "first \<le> limit" "unat limit + 4095 < 2 ^ 64" "unat h + 2 ^ 32 \<le> unat (ALIGN_DOWN first PAGE_SIZE)"
    using assms(1,2) by (auto simp: layout_ok_def sec)
  have "v \<in> set (page_range (ALIGN_DOWN first PAGE_SIZE) (ALIGN_UP limit PAGE_SIZE))" using assms(3) by (simp add: section_pages_def sec)
  note m = page_range_member [OF align_bounds(1,2) [OF l(1,2)] this]
  show "page_aligned v" using m(1) .
  show "unat h + 2 ^ 32 \<le> unat v" using l(3) m(2) by linarith
  show "unat (ALIGN_DOWN (fst sec) PAGE_SIZE) \<le> unat v" "unat v < unat (ALIGN_UP (fst (snd sec)) PAGE_SIZE)" using m(2,3) by (simp_all add: sec)
qed

lemma section_paths:
  assumes "layout_ok h k" "sec \<in> set (kernel_sections k)"
  shows "card (paths_needed (section_ops k sec)) \<le> table_count (unat (ALIGN_DOWN (fst sec) PAGE_SIZE)) (unat (ALIGN_UP (fst (snd sec)) PAGE_SIZE))"
  using section_pages_bounds(3,4) [OF assms] by (intro card_paths_range) (auto simp: section_ops_def)

lemma direct_member:
  assumes "layout_ok h k" "(v, p, flags) \<in> set (direct_ops h 0)"
  shows "page_aligned v" "page_aligned p" "unat p < 2 ^ 32" "v = p \<or> v = p + h \<and> unat v = unat h + unat p"
proof -
  have p: "p \<in> set (page_range 0 0x100000000)" and v: "v = p \<or> v = p + h" using assms(2) by (auto simp: direct_ops_def)
  have al: "page_aligned 0" "page_aligned 0x100000000" by (simp_all add: page_aligned_def)
  note m = page_range_member [OF al p]
  have u: "unat (p + h) = unat p + unat h" using m(3) assms(1) by (subst unat_add_no_wrap) (simp_all add: layout_ok_def)
  then have "page_aligned (p + h)" using m(1) assms(1) by (simp add: page_aligned_def layout_ok_def)
  then show "page_aligned v" "page_aligned p" "unat p < 2 ^ 32" "v = p \<or> v = p + h \<and> unat v = unat h + unat p" using v m(1,3) u by auto
qed

lemma direct_paths:
  assumes "layout_ok h k"
  shows "card (paths_needed (direct_ops h 0)) \<le> 4109"
proof -
  let ?a = "filter (\<lambda>(v, p, flags). v = p) (direct_ops h 0)" and ?b = "filter (\<lambda>(v, p, flags). v \<noteq> p) (direct_ops h 0)"
  have "paths_needed (direct_ops h 0) = paths_needed ?a \<union> paths_needed ?b" by (auto simp: paths_needed_def)
  then have "card (paths_needed (direct_ops h 0)) \<le> card (paths_needed ?a) + card (paths_needed ?b)" by (metis card_Un_le)
  moreover have "card (paths_needed ?a) \<le> table_count 0 (2 ^ 32)"
    using direct_member(3,4) [OF assms] by (intro card_paths_range) fastforce
  moreover have "card (paths_needed ?b) \<le> table_count (unat h) (unat h + 2 ^ 32)"
    using direct_member(3,4) [OF assms] by (intro card_paths_range) fastforce
  moreover have "table_count 0 (2 ^ 32) = 2053" by (simp add: table_count_def)
  ultimately show ?thesis using table_count_4G [of "unat h"] by linarith
qed

lemma init_paths:
  assumes "layout_ok h k"
  shows "card (paths_needed (init_ops h k)) \<le> section_tables k + 4109"
proof -
  have "(\<Sum>sec \<leftarrow> kernel_sections k. card (paths_needed (section_ops k sec))) \<le> section_tables k"
    unfolding section_tables_def using section_paths [OF assms] by (intro sum_list_mono) auto
  then show ?thesis
    using card_paths_concat [of "section_ops k" "kernel_sections k"] direct_paths [OF assms] card_paths_append [of "concat (map (section_ops k) (kernel_sections k))" "direct_ops h 0"]
    unfolding init_ops_def by linarith
qed

section \<open>Translations after initialisation\<close>

lemma direct_half:
  assumes "layout_ok h k" "(v, p, flags) \<in> set (direct_ops h 0)" "same_page v w" "unat w div 2 ^ 47 \<in> {0, 2 ^ 17 - 1}"
  shows "unat v div 2 ^ 47 = unat w div 2 ^ 47"
proof -
  have h: "2 ^ 64 - 2 ^ 47 \<le> unat h" using assms(1) by (simp add: layout_ok_def)
  have "unat v div 2 ^ 47 = 0 \<or> unat v div 2 ^ 47 = 2 ^ 17 - 1" using direct_member(3,4) [OF assms(1,2)] h upper_half [of v] by auto
  then show ?thesis using same_page_half [OF assms(3)] assms(4) by auto
qed

lemma direct_translated:
  assumes "layout_ok h k" "page_aligned x" "unat x < 2 ^ 32"
  shows "translated (direct_ops h 0) x r = x" "translated (direct_ops h 0) (x + h) r = x"
proof -
  have lo: "unat x div 2 ^ 47 = 0" using assms(3) by simp
  have ea: "entry_addr x = x" using assms(2,3) by (intro page_aligned_entry_addr) (simp_all add: word_less_nat_alt)
  have u: "unat (x + h) = unat x + unat h" using assms(1,3) by (subst unat_add_no_wrap) (simp_all add: layout_ok_def)
  then have hi: "unat (x + h) div 2 ^ 47 = 2 ^ 17 - 1" and al: "page_aligned (x + h)"
    using assms(1,2) upper_half [of "x + h"] by (simp_all add: layout_ok_def page_aligned_def)
  have "x \<in> set (page_range 0 0x100000000)"
    using assms(2,3) by (intro page_range_memberI) (simp_all add: page_aligned_def)
  then have mem: "(x, x, 3) \<in> set (direct_ops h 0)" "(x + h, x, 3) \<in> set (direct_ops h 0)" by (auto simp: direct_ops_def)
  have refl: "same_page y y" for y by (simp add: same_page_def)
  have "entry_addr p = x" if "(v, p, f) \<in> set (direct_ops h 0)" "same_page v x" for v p f
  proof -
    have "v = x" using same_page_eq [OF that(2) direct_member(1) [OF assms(1) that(1)] assms(2)] direct_half [OF assms(1) that] lo by simp
    then show ?thesis using direct_member(4) [OF assms(1) that(1)] assms(1,3) ea by (auto simp: layout_ok_def)
  qed
  then show "translated (direct_ops h 0) x r = x" using mem(1) refl by (intro translated_const) blast+
  have "entry_addr p = x" if "(v, p, f) \<in> set (direct_ops h 0)" "same_page v (x + h)" for v p f
  proof -
    have "v = x + h" using same_page_eq [OF that(2) direct_member(1) [OF assms(1) that(1)] al] direct_half [OF assms(1) that] hi by simp
    then show ?thesis using direct_member(3,4) [OF assms(1) that(1)] assms(1) u ea by (auto simp: layout_ok_def)
  qed
  then show "translated (direct_ops h 0) (x + h) r = x" using mem(2) refl by (intro translated_const) blast+
qed

lemma section_translated:
  assumes "layout_ok h k" "sec \<in> set (kernel_sections k)" "v \<in> set (section_pages sec)"
  shows "translated (init_ops h k) v r = entry_addr (v - kernel_virt_base k + kernel_phys_base k)"
proof -
  note b = section_pages_bounds [OF assms]
  have up: "unat u div 2 ^ 47 = 2 ^ 17 - 1" if "unat h + 2 ^ 32 \<le> unat u" for u :: u64
    using that assms(1) upper_half [of u] by (simp add: layout_ok_def)
  have "\<not> same_page u v" if "(u, p, f) \<in> set (direct_ops h 0)" for u p f
  proof
    assume sp: "same_page u v"
    have "u = v" using same_page_eq [OF sp direct_member(1) [OF assms(1) that] b(1)] direct_half [OF assms(1) that sp] up [OF b(2)] by simp
    then show False using direct_member(3,4) [OF assms(1) that] b(2) assms(1) by (auto simp: layout_ok_def)
  qed
  then have d: "translated (direct_ops h 0) v r = r" for r by (intro translated_other) blast
  have "u = v" if "sec' \<in> set (kernel_sections k)" "u \<in> set (section_pages sec')" "same_page u v" for u sec'
    using same_page_eq [OF that(3) section_pages_bounds(1) [OF assms(1) that(1,2)] b(1)] up [OF b(2)] up [OF section_pages_bounds(2) [OF assms(1) that(1,2)]] by simp
  then have "translated (concat (map (section_ops k) (kernel_sections k))) v r = entry_addr (v - kernel_virt_base k + kernel_phys_base k)"
    using assms(2,3) by (intro translated_const) (fastforce simp: section_ops_def same_page_def)+
  then show ?thesis by (simp add: init_ops_def translated_append d)
qed

definition init_mapped :: "u64 \<Rightarrow> kernel_layout \<Rightarrow> u64 \<Rightarrow> bool" where
  "init_mapped h k w \<longleftrightarrow> (\<exists>x. page_aligned x \<and> unat x < 2 ^ 32 \<and> (same_page x w \<or> same_page (x + h) w)) \<or>
     (\<exists>sec \<in> set (kernel_sections k). \<exists>v \<in> set (section_pages sec). same_page v w)"

lemma init_translated_other:
  assumes "layout_ok h k" "\<not> init_mapped h k w"
  shows "translated (init_ops h k) w r = r"
proof -
  have "\<not> same_page v w" if "(v, p, f) \<in> set (direct_ops h 0)" for v p f
    using direct_member [OF assms(1) that] assms(2) by (auto simp: init_mapped_def)
  moreover have "\<not> same_page v w" if "(v, p, f) \<in> set (concat (map (section_ops k) (kernel_sections k)))" for v p f
    using that assms(2) by (auto simp: init_mapped_def section_ops_def)
  ultimately have "\<forall>(v, p, f) \<in> set (init_ops h k). \<not> same_page v w" unfolding init_ops_def set_append by blast
  then show ?thesis by (rule translated_other)
qed

lemma unmapped_lower_half:
  assumes "layout_ok h k" "page_aligned w" "2 ^ 32 \<le> unat w" "unat w < 2 ^ 47"
  shows "\<not> init_mapped h k w"
proof
  assume "init_mapped h k w"
  have w: "unat w div 2 ^ 47 = 0" using assms(4) by simp
  have up: "\<not> same_page v w" if "unat h \<le> unat v" for v
    using that assms(1) upper_half [of v] same_page_half [of v w] w by (auto simp: layout_ok_def)
  from \<open>init_mapped h k w\<close> consider x where "page_aligned x" "unat x < 2 ^ 32" "same_page x w"
    | x where "unat x < 2 ^ 32" "same_page (x + h) w"
    | sec v where "sec \<in> set (kernel_sections k)" "v \<in> set (section_pages sec)" "same_page v w"
    unfolding init_mapped_def by blast
  then show False
  proof cases
    case 1
    then have "x = w" using same_page_eq [OF 1(3,1) assms(2)] w by simp
    then show False using 1(2) assms(3) by simp
  next
    case 2
    then have "unat (x + h) = unat x + unat h" using assms(1) by (subst unat_add_no_wrap) (simp_all add: layout_ok_def)
    then show False using up [of "x + h"] 2(2) by simp
  next
    case 3
    then show False using up [of v] section_pages_bounds(2) [OF assms(1) 3(1,2)] by simp
  qed
qed

lemma init_ops_flags: "(v, p, flags) \<in> set (init_ops h k) \<Longrightarrow> flags_ok flags"
  by (auto simp: init_ops_def direct_ops_def section_ops_def kernel_sections_def flags_ok_def entry_present_def entry_addr_def)

section \<open>The page map of the kernel\<close>

lemma vmm_init_contract:
  fixes s :: "'a vmm_state_scheme"
  assumes inv: "pmm_inv s" and lay: "layout_ok (hhdm_offset s) k" and low: "\<forall>p \<in> set (free_pages s). p < 2 ^ 52 \<and> HIGHER_HALF s p \<noteq> NULL"
    and room: "section_tables k + 4113 \<le> length (free_pages s)"
  shows "\<exists>t pm. vmm_init k s = Some (0, t) \<and> kernel_pagemap t = pm \<and> pm \<noteq> NULL \<and> cr3 t = PHYSICAL t pm \<and> pagemap_wf t pm \<and>
    (\<forall>w. virt_to_phys pm w t = translated (init_ops (hhdm_offset s) k) w 0) \<and>
    length (free_pages s) \<le> length (free_pages t) + section_tables k + 4110 \<and>
    set (free_pages t) \<subseteq> set (free_pages s) \<and> hhdm_offset t = hhdm_offset s \<and> stack_area t = stack_area s \<and>
    (\<forall>x. (\<forall>p \<in> set (free_pages s). \<not> in_range (HIGHER_HALF s p) 4096 x) \<longrightarrow> untouched t pm x \<and> mem t x = mem s x)"
proof -
  have ne: "free_pages s \<noteq> []" using room by (auto simp del: length_free_pages)
  have e: "\<forall>p \<in> set (free_pages s). entry_addr p = p"
    using low inv by (auto intro!: page_aligned_entry_addr simp: pmm_inv_def page_ok_def)
  obtain a s1 where r: "pmm_request_page s = (a, s1)" by (cases "pmm_request_page s")
  note c = pmm_request_contract [OF inv ne r] and f = fresh_pagemap_wf [OF inv ne e r]
  let ?pm = "HIGHER_HALF s a" and ?ops = "init_ops (hhdm_offset s) k"
  have pm: "HIGHER_HALF s1 a = ?pm" "?pm \<noteq> NULL" using c(1,8) low ne by (simp_all add: HIGHER_HALF_def)
  define s2 where "s2 = s1\<lparr>kernel_pagemap := ?pm, mem := zero_page (mem s1) ?pm\<rparr>"
  have same2: "mem s2 = mem s1" "hhdm_offset s2 = hhdm_offset s1" "stack_pages s2 = stack_pages s1" "stack_idx s2 = stack_idx s1" "stack_max s2 = stack_max s1"
    using c(3) by (simp_all add: s2_def zero_page_idem)
  note w2 = wf_same [OF same2] walk_same [OF same2(1,2)]
  have fr2: "free_pages s2 = butlast (free_pages s)" using w2(1) c(2) by simp
  have room2: "card (paths_needed ?ops) + 3 \<le> length (free_pages s2)"
    using init_paths [OF lay] room by (simp add: fr2 del: length_free_pages)
  have wf2: "pagemap_wf s2 ?pm" using w2(3) f(1) by simp
  have "mapped_list ?pm ?ops s2 (map_list ?pm ?ops s2)" using init_ops_flags room2 by (intro map_list_contract [OF wf2]) blast+
  note m = this [unfolded mapped_list_def]
  define t where "t = vmm_switch_pagemap ?pm (map_list ?pm ?ops s2)"
  have same3: "mem t = mem (map_list ?pm ?ops s2)" "hhdm_offset t = hhdm_offset (map_list ?pm ?ops s2)" "stack_pages t = stack_pages (map_list ?pm ?ops s2)"
    "stack_idx t = stack_idx (map_list ?pm ?ops s2)" "stack_max t = stack_max (map_list ?pm ?ops s2)" by (simp_all add: t_def vmm_switch_pagemap_def)
  note w3 = wf_same [OF same3] walk_same [OF same3(1,2)]
  have "length (free_pages s2) - card (paths_needed ?ops) \<le> length (free_pages t)"
    using grown_room [of ?pm "paths_needed ?ops" s2 "map_list ?pm ?ops s2" "length (free_pages s2) - card (paths_needed ?ops)"] m room2 w3(1) by (simp del: length_free_pages)
  then have len: "length (free_pages s) \<le> length (free_pages t) + section_tables k + 4110"
    using init_paths [OF lay] fr2 by (simp del: length_free_pages)
  have km: "kernel_pagemap (map_list ?pm ops u) = kernel_pagemap u" for ops and u :: "'a vmm_state_scheme" by (rule map_list_kernel_pagemap)
  have sub: "set (free_pages t) \<subseteq> set (free_pages s)" using m w3(1) fr2 by (auto dest: in_set_butlastD)
  have v: "virt_to_phys ?pm w t = translated ?ops w 0" for w using m w3(8) w2(8) f(2) by simp
  have "vmm_init k s = Some (0, t)" using vmm_init_list [OF lay r pm] by (simp add: t_def s2_def)
  moreover have "kernel_pagemap t = ?pm" "cr3 t = PHYSICAL t ?pm" "hhdm_offset t = hhdm_offset s"
    using km m c(8) same2(2) same3(2) by (simp_all add: t_def vmm_switch_pagemap_def s2_def PHYSICAL_def)
  moreover have "stack_area t = stack_area s"
    using m same3 same2 c(6,7,8) by (simp add: stack_area_def fun_eq_iff)
  moreover have "untouched t ?pm x \<and> mem t x = mem s x" if x: "\<forall>p \<in> set (free_pages s). \<not> in_range (HIGHER_HALF s p) 4096 x" for x
  proof -
    have pmx: "\<not> in_range ?pm 4096 x" using x c(1) ne by simp
    moreover have "HIGHER_HALF s1 = HIGHER_HALF s" using c(8) by (simp add: HIGHER_HALF_def fun_eq_iff)
    ultimately have "untouched s1 ?pm x" using x f(3) c(2) by (auto simp: untouched_def dest: in_set_butlastD)
    then have "untouched s2 ?pm x" "mem s2 x = mem s x" using w2(4) c(3) same2(1) pmx by (simp_all add: zero_page_def)
    then show ?thesis using m w3(4) same3(1) by simp
  qed
  ultimately show ?thesis using pm(2) m w3(3) v len sub by (intro exI [of _ t] exI [of _ ?pm]) (simp del: length_free_pages)
qed

section \<open>A machine with 32 MiB of memory\<close>

definition ram_memmap :: "memmap_entry list" where
  "ram_memmap = [\<lparr>me_base = 0x100000, me_length = 0x2000000, me_type = 0\<rparr>]"

definition ram_layout :: kernel_layout where
  "ram_layout = \<lparr>limine_requests_start = 0xFFFFFFFF80000000, limine_requests_end = 0xFFFFFFFF80000100,
     text_start = 0xFFFFFFFF80001000, text_end = 0xFFFFFFFF80004000, rodata_start = 0xFFFFFFFF80004000, rodata_end = 0xFFFFFFFF80005000,
     data_start = 0xFFFFFFFF80005000, data_end = 0xFFFFFFFF80007000, kernel_virt_base = 0xFFFFFFFF80000000, kernel_phys_base = 0x3000000\<rparr>"

lemma ram_layout_ok: "layout_ok 0xFFFF800000000000 ram_layout" "section_tables ram_layout = 12"
  by (simp_all add: layout_ok_def section_tables_def kernel_sections_def ram_layout_def page_aligned_def ALIGN_DOWN_def ALIGN_UP_def
      DIV_ROUND_UP_def table_count_def)

lemma ram_pages: "memmap_pages 0 ram_memmap = map (\<lambda>k. 0x100000 + 4096 * of_nat k) [0..<8192]"
  by (simp add: memmap_pages_def ram_memmap_def entry_pages_def del: upt_rec_numeral)

lemma ram_page:
  assumes "p \<in> set (memmap_pages 0 ram_memmap)"
  obtains k where "k < 8192" "p = 0x100000 + 4096 * of_nat k" "unat p = 0x100000 + 4096 * k"
proof -
  obtain k where k: "k < 8192" "p = 0x100000 + 4096 * of_nat k" using assms unfolding ram_pages by auto
  have "unat (4096 * of_nat k :: u64) = 4096 * k" using k(1) by (subst unat_word_ariths) simp
  then have "unat p = 0x100000 + 4096 * k" using k by (simp add: unat_add_no_wrap)
  then show ?thesis using k that by blast
qed

lemma ram_memmap_ok:
  "memmap_ok 0 (hhdm_offset (boot_pmm x)) ram_memmap" "8192 = length (memmap_pages 0 ram_memmap)"
  "\<exists>e \<in> set ram_memmap. ALIGN_UP (of_nat 8192 * 8) 4096 \<le> me_length e \<and> me_type e = 0"
proof -
  have "unat (0x100000 + 4096 * of_nat k :: u64) = 0x100000 + 4096 * k" if "k < 8192" for k
  proof -
    have "unat (4096 * of_nat k :: u64) = 4096 * k" using that by (subst unat_word_ariths) simp
    then show ?thesis using that by (simp add: unat_add_no_wrap)
  qed
  then have "inj_on (\<lambda>k. 0x100000 + 4096 * of_nat k :: u64) (set [0..<8192])"
    by (intro inj_onI) (metis add_left_cancel atLeastLessThan_iff atLeast_upt lessThan_iff mult_cancel1 zero_neq_numeral)
  then have "distinct (memmap_pages 0 ram_memmap)" unfolding ram_pages by (simp only: distinct_map distinct_upt)
  moreover have "NULL \<notin> set (memmap_pages 0 ram_memmap)" by (auto elim!: ram_page)
  ultimately show "memmap_ok 0 (hhdm_offset (boot_pmm x)) ram_memmap"
    by (simp add: memmap_ok_def) (simp add: ram_memmap_def boot_pmm_def page_aligned_def)
  show "8192 = length (memmap_pages 0 ram_memmap)" unfolding ram_pages by simp
  show "\<exists>e \<in> set ram_memmap. ALIGN_UP (of_nat 8192 * 8) 4096 \<le> me_length e \<and> me_type e = 0"
    by (simp add: ram_memmap_def ALIGN_UP_def DIV_ROUND_UP_def)
qed

lemma ram_pool:
  "\<exists>es' t. pmm_init 0 ram_memmap (boot_pmm x) = Some (0, es', t) \<and> pmm_inv t \<and> length (free_pages t) = 8176 \<and>
     hhdm_offset t = 0xFFFF800000000000 \<and> (\<forall>p \<in> set (free_pages t). p < 2 ^ 52 \<and> HIGHER_HALF t p \<noteq> NULL)"
proof -
  have st: "page_aligned (hhdm_offset (boot_pmm x))" "stack_idx (boot_pmm x) = 0" by (simp_all add: boot_pmm_def page_aligned_def)
  obtain es' t where t: "pmm_init 0 ram_memmap (boot_pmm x) = Some (0, es', t)" "pmm_inv t"
    "set (free_pages t) \<subseteq> set (memmap_pages 0 ram_memmap)" "length (free_pages t) = 8192 - (8 * 8192 + 4095) div 4096"
    "hhdm_offset t = hhdm_offset (boot_pmm x)"
    using pmm_init_inv [OF ram_memmap_ok(1) st ram_memmap_ok(2,3)] by blast
  have "p < 2 ^ 52 \<and> HIGHER_HALF t p \<noteq> NULL" if p: "p \<in> set (free_pages t)" for p
  proof -
    obtain k where k: "k < 8192" "unat p = 0x100000 + 4096 * k" using p t(3) ram_page by blast
    have "unat (p + 0xFFFF800000000000) = unat p + 0xFFFF800000000000" using k by (simp add: unat_word_ariths)
    then have "p + 0xFFFF800000000000 \<noteq> 0" by auto
    then show ?thesis using k t(5) by (simp add: word_less_nat_alt HIGHER_HALF_def boot_pmm_def)
  qed
  then show ?thesis using t by (intro exI [of _ es'] exI [of _ t]) (simp add: boot_pmm_def del: length_free_pages)
qed

lemma ram_state:
  "\<exists>s :: 'a pmm_state_scheme. pmm_inv s \<and> length (free_pages s) = 8176 \<and> hhdm_offset s = 0xFFFF800000000000 \<and>
     (\<forall>p \<in> set (free_pages s). p < 2 ^ 52 \<and> HIGHER_HALF s p \<noteq> NULL)"
  using ram_pool [of "undefined :: 'a"] by (elim exE conjE) (intro exI conjI; assumption)

section \<open>Properties\<close>

text \<open>
  C24. The kernel's page map. If the page allocator holds enough pages (one for each table that the kernel's sections need, and
  4113 more, about 16 MiB), \<open>vmm_init\<close> returns 0 and loads a well-formed page map in which the first 4 GiB are mapped to
  themselves and once more at the direct map, every page of the kernel's sections is mapped to where the boot loader put it, and
  no other page is mapped.
\<close>

theorem vmm_init_correct:
  fixes s :: "'a vmm_state_scheme"
  assumes "pmm_inv s" and lay: "layout_ok (hhdm_offset s) k" and "\<forall>p \<in> set (free_pages s). p < 2 ^ 52 \<and> HIGHER_HALF s p \<noteq> NULL"
    and "section_tables k + 4113 \<le> length (free_pages s)"
  shows "\<exists>t pm. vmm_init k s = Some (0, t) \<and> kernel_pagemap t = pm \<and> cr3 t = PHYSICAL t pm \<and> pagemap_wf t pm \<and>
    (\<forall>x. page_aligned x \<and> unat x < 2 ^ 32 \<longrightarrow> virt_to_phys pm x t = x \<and> virt_to_phys pm (HIGHER_HALF t x) t = x) \<and>
    (\<forall>sec \<in> set (kernel_sections k). \<forall>v \<in> set (section_pages sec).
       virt_to_phys pm v t = entry_addr (v - kernel_virt_base k + kernel_phys_base k)) \<and>
    (\<forall>w. \<not> init_mapped (hhdm_offset s) k w \<longrightarrow> virt_to_phys pm w t = 0) \<and>
    length (free_pages s) \<le> length (free_pages t) + section_tables k + 4110"
proof -
  from vmm_init_contract [OF assms] obtain t pm where t: "vmm_init k s = Some (0, t)" "kernel_pagemap t = pm" "cr3 t = PHYSICAL t pm"
    "pagemap_wf t pm" "\<forall>w. virt_to_phys pm w t = translated (init_ops (hhdm_offset s) k) w 0"
    "length (free_pages s) \<le> length (free_pages t) + section_tables k + 4110" "hhdm_offset t = hhdm_offset s" by blast
  have "virt_to_phys pm x t = x \<and> virt_to_phys pm (HIGHER_HALF t x) t = x" if "page_aligned x" "unat x < 2 ^ 32" for x
    using direct_translated [OF lay that] t(5,7) by (simp add: init_ops_def translated_append HIGHER_HALF_def)
  then show ?thesis
    using t section_translated [OF lay] init_translated_other [OF lay] by (intro exI [of _ t] exI [of _ pm]) (simp del: length_free_pages)
qed

theorem vmm_init_correct_witness:
  "\<exists>(s :: vmm_state) t. vmm_init ram_layout s = Some (0, t) \<and> virt_to_phys (kernel_pagemap t) 0xB8000 t = 0xB8000 \<and>
     virt_to_phys (kernel_pagemap t) 0xFFFFFFFF80004000 t = 0x3004000 \<and> virt_to_phys (kernel_pagemap t) 0x7FFFFFFFF000 t = 0"
proof -
  obtain s :: vmm_state where s: "pmm_inv s" "length (free_pages s) = 8176" "hhdm_offset s = 0xFFFF800000000000"
    "\<forall>p \<in> set (free_pages s). p < 2 ^ 52 \<and> HIGHER_HALF s p \<noteq> NULL"
    using ram_state by (elim exE conjE) (rule that; assumption)
  have lay: "layout_ok (hhdm_offset s) ram_layout" "section_tables ram_layout + 4113 \<le> length (free_pages s)"
    using s(2,3) ram_layout_ok by simp_all
  obtain t where t: "vmm_init ram_layout s = Some (0, t)"
    "\<forall>x. page_aligned x \<and> unat x < 2 ^ 32 \<longrightarrow> virt_to_phys (kernel_pagemap t) x t = x \<and> virt_to_phys (kernel_pagemap t) (HIGHER_HALF t x) t = x"
    "\<forall>sec \<in> set (kernel_sections ram_layout). \<forall>v \<in> set (section_pages sec).
       virt_to_phys (kernel_pagemap t) v t = entry_addr (v - kernel_virt_base ram_layout + kernel_phys_base ram_layout)"
    "\<forall>w. \<not> init_mapped (hhdm_offset s) ram_layout w \<longrightarrow> virt_to_phys (kernel_pagemap t) w t = 0"
    using vmm_init_correct [OF s(1) lay(1) s(4) lay(2)] by blast
  have "virt_to_phys (kernel_pagemap t) 0xB8000 t = 0xB8000" using t(2) by (simp add: page_aligned_def)
  moreover have "virt_to_phys (kernel_pagemap t) 0xFFFFFFFF80004000 t = 0x3004000"
  proof -
    let ?sec = "(0xFFFFFFFF80004000, 0xFFFFFFFF80005000, VMM_PRESENT OR VMM_NX) :: u64 \<times> u64 \<times> u64"
    have "?sec \<in> set (kernel_sections ram_layout)" by (simp add: kernel_sections_def ram_layout_def)
    moreover have "0xFFFFFFFF80004000 \<in> set (section_pages ?sec)"
      by (simp add: section_pages_def ALIGN_DOWN_def ALIGN_UP_def DIV_ROUND_UP_def) (intro page_range_memberI; simp add: page_aligned_def)
    ultimately have "virt_to_phys (kernel_pagemap t) 0xFFFFFFFF80004000 t = entry_addr (0xFFFFFFFF80004000 - kernel_virt_base ram_layout + kernel_phys_base ram_layout)"
      using t(3) by blast
    then show ?thesis by (simp add: ram_layout_def entry_addr_def)
  qed
  moreover have "virt_to_phys (kernel_pagemap t) 0x7FFFFFFFF000 t = 0"
    using t(4) unmapped_lower_half [OF lay(1), of "0x7FFFFFFFF000"] by (simp add: page_aligned_def)
  ultimately show ?thesis using t(1) by blast
qed

end
