(* ===== verification/Vma.thy ===== *)
theory Vma
  imports Vmm
begin

text \<open>
  The region allocator, \<^verbatim>\<open>kernel/src/mm/vma.c\<close>. A context is a page that holds a page map and the
  head of a doubly linked list; every region is described by a structure on a page of its own.
  The structures are kept where the code keeps them, in the byte memory, and every field is read
  and written through loads and stores at the offsets the C compiler gives it. The list search
  and the loops that follow it re-read the fields as the code does and are partial functions.
  The abstraction is \<open>region_chain\<close>, the list of the region structures in their order.
\<close>

section \<open>Structures in memory\<close>

definition region_start :: "'a machine_scheme \<Rightarrow> u64 \<Rightarrow> u64" where
  "region_start s r = load64 (mem s) r"

definition region_size :: "'a machine_scheme \<Rightarrow> u64 \<Rightarrow> u64" where
  "region_size s r = load64 (mem s) (r + 8)"

definition region_flags :: "'a machine_scheme \<Rightarrow> u64 \<Rightarrow> u64" where
  "region_flags s r = load64 (mem s) (r + 16)"

definition region_next :: "'a machine_scheme \<Rightarrow> u64 \<Rightarrow> u64" where
  "region_next s r = load64 (mem s) (r + 24)"

definition region_prev :: "'a machine_scheme \<Rightarrow> u64 \<Rightarrow> u64" where
  "region_prev s r = load64 (mem s) (r + 32)"

definition ctx_pagemap :: "'a machine_scheme \<Rightarrow> u64 \<Rightarrow> u64" where
  "ctx_pagemap s ctx = load64 (mem s) ctx"

definition ctx_root :: "'a machine_scheme \<Rightarrow> u64 \<Rightarrow> u64" where
  "ctx_root s ctx = load64 (mem s) (ctx + 8)"

abbreviation (input) sizeof_vma_region :: u64 where "sizeof_vma_region \<equiv> 40"
abbreviation (input) sizeof_vma_context :: u64 where "sizeof_vma_context \<equiv> 16"

text \<open>The assignment \<open>p->field = v\<close>, with \<open>a\<close> the address of the field.\<close>

definition set_field :: "u64 \<Rightarrow> u64 \<Rightarrow> 'a machine_scheme \<Rightarrow> 'a machine_scheme" where
  "set_field a v s = s\<lparr>mem := store64 (mem s) a v\<rparr>"

definition clear_struct :: "u64 \<Rightarrow> u64 \<Rightarrow> 'a machine_scheme \<Rightarrow> 'a machine_scheme" where
  "clear_struct a n s = s\<lparr>mem := fst (memset (mem s) a 0 n)\<rparr>"

section \<open>Operations\<close>

definition vma_create_context :: "u64 \<Rightarrow> 'a pmm_state_scheme \<Rightarrow> u64 \<times> 'a pmm_state_scheme" where
  "vma_create_context pagemap s =
     (let (page, s) = pmm_request_page s;
          ctx = HIGHER_HALF s page;
          s = clear_struct ctx sizeof_vma_context s;
          (page, s) = pmm_request_page s;
          s = set_field (ctx + 8) (HIGHER_HALF s page) s;
          s = clear_struct (ctx_root s ctx) sizeof_vma_region s;
          s = set_field ctx pagemap s;
          s = set_field (ctx_root s ctx) 0 s;
          s = set_field (ctx_root s ctx + 8) 1 s
      in (ctx, s))"

partial_function (option) vma_destroy_regions ::
  "u64 \<Rightarrow> 'a pmm_state_scheme \<Rightarrow> 'a pmm_state_scheme option" where
  "vma_destroy_regions region s =
     (if region \<noteq> NULL
      then vma_destroy_regions (region_next s region) (pmm_free_page (PHYSICAL s region) s)
      else Some s)"

definition vma_destroy_context :: "u64 \<Rightarrow> 'a pmm_state_scheme \<Rightarrow> 'a pmm_state_scheme option" where
  "vma_destroy_context ctx s =
     do { s \<leftarrow> vma_destroy_regions (ctx_root s ctx) s; Some (pmm_free_page (PHYSICAL s ctx) s) }"

text \<open>The first-fit search: the region after which there is room, or the root again.\<close>

definition vma_gap_after :: "'a machine_scheme \<Rightarrow> u64 \<Rightarrow> u64 \<Rightarrow> bool" where
  "vma_gap_after s sz region \<longleftrightarrow>
     sz \<le> region_start s region + region_size s region * PAGE_SIZE - region_start s (region_next s region)"

partial_function (option) vma_find_gap :: "u64 \<Rightarrow> u64 \<Rightarrow> u64 \<Rightarrow> 'a machine_scheme \<Rightarrow> u64 option" where
  "vma_find_gap ctx sz region s =
     (if region \<noteq> ctx_root s ctx
      then if vma_gap_after s sz region then Some region
           else vma_find_gap ctx sz (region_next s region) s
      else Some region)"

partial_function (option) vma_last_region :: "u64 \<Rightarrow> 'a machine_scheme \<Rightarrow> u64 option" where
  "vma_last_region last_region s =
     (if region_next s last_region \<noteq> NULL then vma_last_region (region_next s last_region) s
      else Some last_region)"

partial_function (option) vma_map_region ::
  "u64 \<Rightarrow> u64 \<Rightarrow> u64 \<Rightarrow> 'a pmm_state_scheme \<Rightarrow> (bool \<times> 'a pmm_state_scheme) option" where
  "vma_map_region ctx r i s =
     (if i < ALIGN_UP (region_size s r) PAGE_SIZE div PAGE_SIZE
      then if fst (pmm_request_page s) = 0 then Some (False, snd (pmm_request_page s))
           else vma_map_region ctx r (i + 1)
             (let (page, s) = pmm_request_page s
              in vmm_map (ctx_pagemap s ctx) (region_start s r + i * PAGE_SIZE) page (region_flags s r) s)
      else Some (True, s))"

text \<open>The new region is put after a region with room behind it, or after the last one.\<close>

definition vma_insert_after :: "u64 \<Rightarrow> u64 \<Rightarrow> u64 \<Rightarrow> u64 \<Rightarrow> 'a pmm_state_scheme \<Rightarrow> 'a pmm_state_scheme" where
  "vma_insert_after region new_region sz flags s =
     (let s = set_field (new_region + 8) sz s;
          s = set_field (new_region + 16) flags s;
          s = set_field new_region (region_start s region + region_size s region * PAGE_SIZE) s;
          s = set_field (new_region + 24) (region_next s region) s;
          s = set_field (new_region + 32) region s
      in set_field (region + 24) new_region s)"

definition vma_append_after :: "u64 \<Rightarrow> u64 \<Rightarrow> u64 \<Rightarrow> u64 \<Rightarrow> 'a pmm_state_scheme \<Rightarrow> 'a pmm_state_scheme" where
  "vma_append_after last_region new_region sz flags s =
     (let s = set_field new_region (region_start s last_region + region_size s last_region * PAGE_SIZE) s;
          s = set_field (new_region + 8) sz s;
          s = set_field (new_region + 16) flags s;
          s = set_field (new_region + 24) NULL s;
          s = set_field (new_region + 32) last_region s
      in set_field (last_region + 24) new_region s)"

definition vma_finish ::
  "u64 \<Rightarrow> u64 \<Rightarrow> 'a pmm_state_scheme \<Rightarrow> (u64 \<times> 'a pmm_state_scheme) option" where
  "vma_finish ctx new_region s =
     do { (ok, s) \<leftarrow> vma_map_region ctx new_region 0 s;
          Some (if ok then region_start s new_region else NULL, s) }"

definition vma_alloc ::
  "u64 \<Rightarrow> u64 \<Rightarrow> u64 \<Rightarrow> 'a pmm_state_scheme \<Rightarrow> (u64 \<times> 'a pmm_state_scheme) option" where
  "vma_alloc ctx sz flags s =
     (if ctx = NULL \<or> ctx_root s ctx = NULL \<or> ctx_pagemap s ctx = NULL then Some (NULL, s)
      else if region_next s (ctx_root s ctx) = NULL
      then let (page, s) = pmm_request_page s; new_region = HIGHER_HALF s page
           in if new_region = NULL then Some (NULL, s)
              else let s = clear_struct new_region sizeof_vma_region s
                   in vma_finish ctx new_region
                        (vma_append_after (ctx_root s ctx) new_region sz flags s)
      else do {
        region \<leftarrow> vma_find_gap ctx sz (region_next s (ctx_root s ctx)) s;
        let found = (region \<noteq> ctx_root s ctx);
        let (page, s) = pmm_request_page s;
        let new_region = HIGHER_HALF s page;
        if new_region = NULL then Some (NULL, s)
        else let s = clear_struct new_region sizeof_vma_region s
        in if found
           then vma_finish ctx new_region (vma_insert_after region new_region sz flags s)
           else do { last_region \<leftarrow> vma_last_region (ctx_root s ctx) s;
                     vma_finish ctx new_region (vma_append_after last_region new_region sz flags s) }
      })"

partial_function (option) vma_find_region :: "u64 \<Rightarrow> u64 \<Rightarrow> 'a machine_scheme \<Rightarrow> u64 option" where
  "vma_find_region region ptr s =
     (if region \<noteq> NULL
      then if region_start s region = ptr then Some region
           else vma_find_region (region_next s region) ptr s
      else Some NULL)"

partial_function (option) vma_release_pages ::
  "u64 \<Rightarrow> u64 \<Rightarrow> u64 \<Rightarrow> 'a vmm_state_scheme \<Rightarrow> 'a vmm_state_scheme option" where
  "vma_release_pages ctx region i s =
     (if i < region_size s region
      then vma_release_pages ctx region (i + 1)
        (let virt = region_start s region + i * PAGE_SIZE;
             s = pmm_free_page (virt_to_phys (ctx_pagemap s ctx) virt s) s
         in vmm_unmap (ctx_pagemap s ctx) (region_start s region + i * PAGE_SIZE) s)
      else Some s)"

definition vma_free :: "u64 \<Rightarrow> u64 \<Rightarrow> 'a vmm_state_scheme \<Rightarrow> 'a vmm_state_scheme option" where
  "vma_free ctx ptr s =
     (if ctx = NULL then Some s
      else do {
        region \<leftarrow> vma_find_region (ctx_root s ctx) ptr s;
        if region = NULL then Some s
        else do {
          let prev = region_prev s region;
          let nxt = region_next s region;
          s \<leftarrow> vma_release_pages ctx region 0 s;
          let s = (if prev \<noteq> NULL then set_field (prev + 24) nxt s else s);
          let s = (if nxt \<noteq> NULL then set_field (nxt + 32) prev s else s);
          let s = (if region = ctx_root s ctx then set_field (ctx + 8) nxt s else s);
          Some (pmm_free_page (PHYSICAL s region) s)
        }
      })"

section \<open>Fields as table entries\<close>

lemma region_fields:
  "region_start s r = get_entry s r 0" "region_size s r = get_entry s r 1" "region_flags s r = get_entry s r 2"
  "region_next s r = get_entry s r 3" "region_prev s r = get_entry s r 4"
  "ctx_pagemap s r = get_entry s r 0" "ctx_root s r = get_entry s r 1"
  by (simp_all add: region_start_def region_size_def region_flags_def region_next_def region_prev_def
      ctx_pagemap_def ctx_root_def get_entry_def)

lemma set_field_entry:
  "set_field r v s = set_entry r 0 v s" "set_field (r + 8) v s = set_entry r 1 v s"
  "set_field (r + 16) v s = set_entry r 2 v s" "set_field (r + 24) v s = set_entry r 3 v s"
  "set_field (r + 32) v s = set_entry r 4 v s"
  by (simp_all add: set_field_def set_entry_def)

section \<open>Pages held by the region allocator\<close>

text \<open>
  A page is held when it is neither free, nor a table of the page map, nor part of the array of
  free pages. Writing to a held page disturbs neither the page allocator nor the page map.
\<close>

definition held :: "'a pmm_state_scheme \<Rightarrow> u64 \<Rightarrow> u64 \<Rightarrow> bool" where
  "held s pm a \<longleftrightarrow> page_aligned a \<and> (\<forall>x. in_range a 4096 x \<longrightarrow> untouched s pm x \<and> \<not> stack_area s x)"

lemma held_page_aligned [simp]: "held s pm a \<Longrightarrow> page_aligned a"
  by (simp add: held_def)

definition same_space :: "u64 \<Rightarrow> 'a pmm_state_scheme \<Rightarrow> 'a pmm_state_scheme \<Rightarrow> bool" where
  "same_space pm s s' \<longleftrightarrow> pagemap_wf s' pm \<and> (\<forall>v. virt_to_phys pm v s' = virt_to_phys pm v s) \<and>
     free_pages s' = free_pages s \<and> untouched s' pm = untouched s pm \<and> stack_area s' = stack_area s \<and>
     hhdm_offset s' = hhdm_offset s \<and> stack_max s' = stack_max s"

lemma same_space_trans: "same_space pm s s1 \<Longrightarrow> same_space pm s1 s2 \<Longrightarrow> same_space pm s s2"
  by (simp add: same_space_def)

lemma same_space_held: "same_space pm s s' \<Longrightarrow> held s' pm a = held s pm a"
  by (simp add: same_space_def held_def)

lemma translate_cong:
  assumes walk: "\<And>p. path_ok p \<Longrightarrow> table_at s' pm p = table_at s pm p"
    and ent: "\<And>t j. is_table s pm t \<Longrightarrow> unat j < 512 \<Longrightarrow> get_entry s' t j = get_entry s t j"
  shows "virt_to_phys pm v s' = virt_to_phys pm v s"
  using walk [OF path_ok_virt [of v]] ent [OF is_tableI [OF path_ok_virt] idx_bound(1)]
  by (simp add: virt_to_phys_leaf leaf_entry_def split: option.splits)

lemma space_write:
  assumes wf: "pagemap_wf s pm" and agree: "\<And>x. \<not> untouched s pm x \<or> stack_area s x \<Longrightarrow> mem s' x = mem s x"
    and f: "stack_pages s' = stack_pages s" "stack_max s' = stack_max s" "hhdm_offset s' = hhdm_offset s"
      "stack_idx s' = stack_idx s"
  shows "same_space pm s s'"
proof -
  note inv = pagemap_wf_pmm(1) [OF wf]
  note lay = pmm_layout_update [OF f(1-3)]
  have frees: "free_pages s' = free_pages s"
    using inv f agree by (intro free_pages_cong) (auto simp: pmm_inv_def)
  have inv': "pmm_inv s'" using inv lay frees f by (simp add: pmm_inv_def)
  have tab: "mem s' x = mem s x" if "is_table s pm t" "in_range t 4096 x" for t x
    using that agree by (auto simp: untouched_def)
  have walk: "path_ok p \<Longrightarrow> table_at s' pm p = table_at s pm p" for p
    using table_at_cong [OF f(3) pagemap_wf_hhdm [OF wf] pagemap_wf_pmm(2) [OF wf] tab] .
  then have tabs: "is_table s' pm u \<longleftrightarrow> is_table s pm u" for u by (auto simp: is_table_def)
  have HH: "HIGHER_HALF s' = HIGHER_HALF s" by (simp add: HIGHER_HALF_def f fun_eq_iff)
  have ent: "get_entry s' t j = get_entry s t j" if "is_table s pm t" "unat j < 512" for t j
    using that tab pagemap_wf_table(3) [OF wf] by (blast intro: get_entry_cong)
  have "virt_to_phys pm v s' = virt_to_phys pm v s" for v
    using walk ent by (rule translate_cong)
  moreover have "pagemap_wf s' pm"
    using wf inv' walk by (simp add: pagemap_wf_def tabs frees lay HH)
  ultimately show ?thesis
    using frees lay f by (simp add: same_space_def untouched_def tabs frees HH fun_eq_iff)
qed

lemma held_write:
  assumes "pagemap_wf s pm" and "held s pm a" and "\<And>x. \<not> in_range a 4096 x \<Longrightarrow> mem s' x = mem s x"
    and "stack_pages s' = stack_pages s" "stack_max s' = stack_max s" "hhdm_offset s' = hhdm_offset s" "stack_idx s' = stack_idx s"
  shows "same_space pm s s'"
  using assms(2,3) by (intro space_write [OF assms(1) _ assms(4-7)]) (auto simp: held_def)

lemma held_set_entry:
  "pagemap_wf s pm \<Longrightarrow> held s pm a \<Longrightarrow> unat i < 512 \<Longrightarrow> same_space pm s (set_entry a i v s)"
  by (rule held_write) (auto intro: set_entry_outside held_page_aligned)

section \<open>What allocation steps keep\<close>

text \<open>
  A request and a mapping take pages from the pool and change no byte that is neither free nor
  in a table; so they keep what is held.
\<close>

definition keeps :: "u64 \<Rightarrow> 'a pmm_state_scheme \<Rightarrow> 'a pmm_state_scheme \<Rightarrow> bool" where
  "keeps pm s s' \<longleftrightarrow> pagemap_wf s' pm \<and> set (free_pages s') \<subseteq> set (free_pages s) \<and>
     (\<forall>x. untouched s pm x \<longrightarrow> untouched s' pm x \<and> mem s' x = mem s x) \<and>
     stack_area s' = stack_area s \<and> hhdm_offset s' = hhdm_offset s \<and> stack_max s' = stack_max s"

lemma pmm_request_stack_max: "stack_max (snd (pmm_request_page s)) = stack_max s"
  by (simp add: pmm_request_page_def Let_def)

lemma ensure_table_stack_max: "stack_max (ensure_table t i f s) = stack_max s"
  using pmm_request_stack_max [of s] by (simp add: ensure_table_def split_beta)

lemma vmm_map_stack_max: "stack_max (vmm_map pm v p f s) = stack_max s"
  by (simp add: vmm_map_def Let_def ensure_table_stack_max)

lemma keeps_refl: "pagemap_wf s pm \<Longrightarrow> keeps pm s s"
  by (simp add: keeps_def)

lemma keeps_trans: "keeps pm s s1 \<Longrightarrow> keeps pm s1 s2 \<Longrightarrow> keeps pm s s2"
  by (auto simp: keeps_def)

lemma keeps_wf: "keeps pm s s' \<Longrightarrow> pagemap_wf s' pm"
  by (simp add: keeps_def)

lemma keeps_HH: "keeps pm s s' \<Longrightarrow> HIGHER_HALF s' = HIGHER_HALF s"
  by (simp add: keeps_def HIGHER_HALF_def fun_eq_iff)

lemma keeps_held: "keeps pm s s' \<Longrightarrow> held s pm a \<Longrightarrow> held s' pm a"
  by (auto simp: keeps_def held_def)

lemma keeps_entry:
  "keeps pm s s' \<Longrightarrow> held s pm a \<Longrightarrow> unat i < 512 \<Longrightarrow> get_entry s' a i = get_entry s a i"
  by (rule get_entry_cong) (auto simp: keeps_def held_def)

lemma keeps_request:
  assumes wf: "pagemap_wf s pm" and ne: "free_pages s \<noteq> []" and r: "pmm_request_page s = (p, s')"
  shows "keeps pm s s'" and "held s' pm (HIGHER_HALF s p)"
    and "virt_to_phys pm v s' = virt_to_phys pm v s"
    and "p = last (free_pages s)" and "free_pages s' = butlast (free_pages s)" and "p \<noteq> NULL"
    and "entry_addr p = p" and "page_ok s p" and "p \<notin> set (free_pages s')"
    and "\<not> in_range (HIGHER_HALF s p) 4096 x \<Longrightarrow> mem s' x = mem s x"
    and "stack_max s' = stack_max s"
proof -
  note w = request_page_wf [OF wf ne r] and c = pmm_request_contract [OF pagemap_wf_pmm(1) [OF wf] ne r]
  have tabs: "is_table s' pm u \<longleftrightarrow> is_table s pm u" for u using w(2) by (auto simp: is_table_def)
  have sub: "set (free_pages s') \<subseteq> set (free_pages s)" using c(2) in_set_butlastD by fastforce
  have area: "stack_area s' = stack_area s" using pmm_layout_update [of s' s] c by simp
  have "p \<in> set (free_pages s)" using c(1) ne by simp
  then show "keeps pm s s'"
    using w(1,10) c(3,7,8) sub area by (auto simp: keeps_def untouched_def tabs zero_page_def)
  have other: "\<not> in_range t 4096 x" if "is_table s' pm t" "in_range (HIGHER_HALF s p) 4096 x" for t x
    using that w(4,9) pagemap_wf_table(3) [OF w(1) that(1)] page_no_inj by (fastforce simp: in_page)
  have "\<not> in_range (HIGHER_HALF s f) 4096 x"
    if f: "f \<in> set (free_pages s')" and x: "in_range (HIGHER_HALF s p) 4096 x" for f x
  proof -
    have "page_ok s' f" using c(5) f by (simp add: pmm_inv_def)
    then have "page_aligned (HIGHER_HALF s f)"
      using pagemap_wf_hhdm [OF wf] by (simp add: page_ok_def HIGHER_HALF_def page_aligned_add)
    then show ?thesis using w(8) [OF f] x w(9) page_no_inj by (auto simp: in_page)
  qed
  then show "held s' pm (HIGHER_HALF s p)"
    using w(7,9) other by (auto simp: held_def untouched_def w(10))
  show "virt_to_phys pm v s' = virt_to_phys pm v s"
    using w(2,3) by (rule translate_cong)
  have "distinct (free_pages s' @ [p])" using ne c(1,2) pagemap_wf_pmm(1) [OF wf] by (simp add: pmm_inv_def)
  then show "p \<notin> set (free_pages s')" by simp
qed (use request_page_wf [OF wf ne r] pmm_request_contract [OF pagemap_wf_pmm(1) [OF wf] ne r] in
    \<open>auto simp: page_ok_def zero_page_def\<close>)

lemma keeps_map:
  assumes "pagemap_wf s pm" "flags_ok flags" "3 \<le> length (free_pages s)"
  shows "keeps pm s (vmm_map pm virt phys flags s)"
  using vmm_map_contract [OF assms refl] vmm_map_stack_max [of pm virt phys flags s] unfolding keeps_def by blast

lemma same_page_offsets:
  assumes "same_page (v + of_nat i * 4096) (v + of_nat j * 4096)" and "i < 2 ^ 36" "j < 2 ^ 36"
  shows "i = j"
proof -
  have no: "page_no (v + of_nat k * 4096) mod 2 ^ 36 = (page_no v + k) mod 2 ^ 36" if "k < 2 ^ 36" for k
  proof -
    have "unat (v + of_nat k * 4096) = (unat v + k * 4096) mod (4096 * 2 ^ 52)"
      using that by (simp add: unat_word_ariths unat_of_nat mod_simps)
    then have "page_no (v + of_nat k * 4096) = (page_no v + k) mod 2 ^ 52"
      by (simp only: page_no_def mod_mult2_eq) (simp add: add.commute)
    moreover have "(2 :: nat) ^ 36 dvd 2 ^ 52" by (rule le_imp_power_dvd) simp
    ultimately show ?thesis by (simp only: mod_mod_cancel)
  qed
  show ?thesis
    using same_page_number [OF assms(1)] no [OF assms(2)] no [OF assms(3)] assms(2,3)
      mod_add_left_cancel_aux [of "page_no v" i "2 ^ 36" j] by simp
qed

section \<open>Mapping a region\<close>

text \<open>
  One round of the mapping loop takes a frame and maps it; four free pages are enough for it.
\<close>

lemma vma_map_round:
  assumes wf: "pagemap_wf s pm" and fl: "flags_ok flags" and room: "4 \<le> length (free_pages s)"
    and r: "pmm_request_page s = (p, s1)"
  shows "keeps pm s (vmm_map pm v p flags s1)"
    and "held (vmm_map pm v p flags s1) pm (HIGHER_HALF s p)"
    and "virt_to_phys pm w (vmm_map pm v p flags s1) = (if same_page v w then p else virt_to_phys pm w s)"
    and "length (free_pages s) \<le> 4 + length (free_pages (vmm_map pm v p flags s1))"
    and "p \<in> set (free_pages s) - set (free_pages (vmm_map pm v p flags s1))" and "p \<noteq> NULL"
    and "pagemap_wf s1 pm" and "keeps pm s s1"
proof -
  have ne: "free_pages s \<noteq> []" using room free_pages_nonempty by blast
  note q = keeps_request [OF wf ne r]
  have room1: "3 \<le> length (free_pages s1)" using room q(5) by (simp del: length_free_pages)
  note wf1 = keeps_wf [OF q(1)]
  note m = vmm_map_contract [OF wf1 fl room1 refl, of v p]
  note k = keeps_map [OF wf1 fl room1, of v p]
  show "keeps pm s (vmm_map pm v p flags s1)" using q(1) k by (rule keeps_trans)
  show "held (vmm_map pm v p flags s1) pm (HIGHER_HALF s p)" using k q(2) by (rule keeps_held)
  show "virt_to_phys pm w (vmm_map pm v p flags s1) = (if same_page v w then p else virt_to_phys pm w s)"
    using vmm_map_contract(2) [OF wf1 fl room1 refl] q(3,7) by simp
  show "length (free_pages s) \<le> 4 + length (free_pages (vmm_map pm v p flags s1))"
    using m(3) q(5) by (simp del: length_free_pages)
  show "p \<in> set (free_pages s) - set (free_pages (vmm_map pm v p flags s1))"
    using m(4) q(4,9) ne by auto
qed (use assms free_pages_nonempty keeps_request [OF wf _ r] keeps_wf in blast)+

definition mapped_to :: "u64 \<Rightarrow> u64 \<Rightarrow> nat \<Rightarrow> nat \<Rightarrow> u64 list \<Rightarrow> 'a pmm_state_scheme \<Rightarrow> 'a pmm_state_scheme \<Rightarrow> bool" where
  "mapped_to pm v i n fs s s' \<longleftrightarrow> length fs = n - i \<and>
     (\<forall>k. i \<le> k \<longrightarrow> k < n \<longrightarrow> virt_to_phys pm (v + of_nat k * 4096) s' = fs ! (k - i)) \<and>
     (\<forall>w. (\<forall>k. i \<le> k \<longrightarrow> k < n \<longrightarrow> \<not> same_page (v + of_nat k * 4096) w) \<longrightarrow>
        virt_to_phys pm w s' = virt_to_phys pm w s)"

lemma mapped_to_base:
  "mapped_to pm v i n fs t s' \<Longrightarrow> (\<And>w. virt_to_phys pm w t = virt_to_phys pm w s) \<Longrightarrow> mapped_to pm v i n fs s s'"
  by (simp add: mapped_to_def)

lemma mapped_to_Cons:
  assumes m: "mapped_to pm v (Suc i) n fs s1 s2" and i: "i < n" and n: "n \<le> 2 ^ 36"
    and one: "\<And>w. virt_to_phys pm w s1 = (if same_page (v + of_nat i * 4096) w then p else virt_to_phys pm w s)"
  shows "mapped_to pm v i n (p # fs) s s2"
proof -
  have "virt_to_phys pm (v + of_nat k * 4096) s2 = (p # fs) ! (k - i)" if "i \<le> k" "k < n" for k
  proof (cases "k = i")
    case True
    have "\<not> same_page (v + of_nat j * 4096) (v + of_nat i * 4096)" if "Suc i \<le> j" "j < n" for j
      using that i n same_page_offsets [of v j i] by auto
    then have "virt_to_phys pm (v + of_nat i * 4096) s2 = virt_to_phys pm (v + of_nat i * 4096) s1"
      using m by (simp add: mapped_to_def)
    with True one show ?thesis by (simp add: same_page_def)
  next
    case False
    then have k: "Suc i \<le> k" using that(1) by simp
    then have "k - i = Suc (k - Suc i)" by simp
    with k that(2) m show ?thesis by (simp add: mapped_to_def)
  qed
  moreover have "virt_to_phys pm w s2 = virt_to_phys pm w s"
    if "\<forall>k. i \<le> k \<longrightarrow> k < n \<longrightarrow> \<not> same_page (v + of_nat k * 4096) w" for w
    using that m i one [of w] by (auto simp: mapped_to_def)
  ultimately show ?thesis using m i by (auto simp: mapped_to_def)
qed

lemma vma_map_region_contract:
  assumes "pagemap_wf s pm" "held s pm ctx" "held s pm r" "get_entry s ctx 0 = pm"
    and "get_entry s r 0 = v" "get_entry s r 2 = flags" "flags_ok flags"
    and "unat (ALIGN_UP (get_entry s r 1) PAGE_SIZE div PAGE_SIZE) = n" "n \<le> 2 ^ 36"
    and "i \<le> n" "4 * (n - i) \<le> length (free_pages s)"
  shows "\<exists>s' fs. vma_map_region ctx r (of_nat i) s = Some (True, s') \<and> keeps pm s s' \<and>
    mapped_to pm v i n fs s s' \<and> distinct fs \<and> set fs \<subseteq> set (free_pages s) - set (free_pages s') \<and>
    (\<forall>f \<in> set fs. held s' pm (HIGHER_HALF s f)) \<and> length (free_pages s) \<le> 4 * (n - i) + length (free_pages s')"
  using assms
proof (induction "n - i" arbitrary: i s)
  case 0
  then have "of_nat i = ALIGN_UP (get_entry s r 1) PAGE_SIZE div PAGE_SIZE"
    by (auto simp: word_unat_eq_iff)
  then have "vma_map_region ctx r (of_nat i) s = Some (True, s)"
    by (subst vma_map_region.simps) (simp add: region_fields)
  with 0 show ?case by (intro exI [of _ s] exI [of _ "[]"]) (simp add: mapped_to_def keeps_refl)
next
  case (Suc d)
  obtain p s1 where r: "pmm_request_page s = (p, s1)" by (cases "pmm_request_page s")
  have room: "4 \<le> length (free_pages s)" using Suc.hyps(2) Suc.prems(11) by linarith
  note o = vma_map_round(1-5) [OF Suc.prems(1,7) room r, where v = "v + of_nat i * 4096"]
    vma_map_round(6-8) [OF Suc.prems(1,7) room r]
  let ?t = "vmm_map pm (v + of_nat i * 4096) p flags s1"
  have e: "get_entry s1 ctx 0 = pm" "get_entry s1 r 0 = v" "get_entry s1 r 2 = flags"
    using keeps_entry [OF o(8)] Suc.prems by simp_all
  have et: "get_entry ?t ctx 0 = pm" "get_entry ?t r 0 = v" "get_entry ?t r 2 = flags" "get_entry ?t r 1 = get_entry s r 1"
    using keeps_entry [OF o(1)] Suc.prems by simp_all
  have "(of_nat i :: u64) < ALIGN_UP (get_entry s r 1) PAGE_SIZE div PAGE_SIZE"
    using Suc.hyps(2) Suc.prems(8,9) by (simp add: word_less_nat_alt)
  then have step: "vma_map_region ctx r (of_nat i) s = vma_map_region ctx r (of_nat (Suc i)) ?t"
    using o(6) by (subst vma_map_region.simps) (simp add: region_fields r e add.commute)
  have "\<exists>s' fs. vma_map_region ctx r (of_nat (Suc i)) ?t = Some (True, s') \<and> keeps pm ?t s' \<and>
    mapped_to pm v (Suc i) n fs ?t s' \<and> distinct fs \<and> set fs \<subseteq> set (free_pages ?t) - set (free_pages s') \<and>
    (\<forall>f \<in> set fs. held s' pm (HIGHER_HALF ?t f)) \<and> length (free_pages ?t) \<le> 4 * (n - Suc i) + length (free_pages s')"
    using Suc.hyps(2) Suc.prems o(4) et keeps_held [OF o(1)] keeps_wf [OF o(1)]
    by (intro Suc.hyps(1)) (simp_all del: length_free_pages)
  then obtain s' fs where s': "vma_map_region ctx r (of_nat (Suc i)) ?t = Some (True, s')" "keeps pm ?t s'"
    "mapped_to pm v (Suc i) n fs ?t s'" "distinct fs" "set fs \<subseteq> set (free_pages ?t) - set (free_pages s')"
    "\<forall>f \<in> set fs. held s' pm (HIGHER_HALF ?t f)" "length (free_pages ?t) \<le> 4 * (n - Suc i) + length (free_pages s')"
    by blast
  have i: "i < n" using Suc.hyps(2) by simp
  have "mapped_to pm v i n (p # fs) s s'"
    using mapped_to_Cons [OF s'(3) i Suc.prems(9) o(3)] .
  moreover have "held s' pm (HIGHER_HALF s p)" using s'(2) o(2) by (rule keeps_held)
  moreover have "distinct (p # fs)" "set (p # fs) \<subseteq> set (free_pages s) - set (free_pages s')"
    using s'(4,5) o(5) o(1) s'(2) unfolding keeps_def by auto
  moreover have "length (free_pages s) \<le> 4 * (n - i) + length (free_pages s')"
    using s'(7) o(4) Suc.hyps(2) by linarith
  ultimately show ?case
    using s' step keeps_trans [OF o(1) s'(2)] keeps_HH [OF o(1)]
    by (intro exI [of _ s'] exI [of _ "p # fs"]) (simp del: length_free_pages)
qed

section \<open>Contexts\<close>

fun region_chain :: "'a machine_scheme \<Rightarrow> u64 \<Rightarrow> u64 list \<Rightarrow> bool" where
  "region_chain s r [] \<longleftrightarrow> r = NULL"
| "region_chain s r (a # as) \<longleftrightarrow> r = a \<and> a \<noteq> NULL \<and> region_chain s (region_next s a) as"

text \<open>
  A context whose list consists of the region structures \<open>rs\<close>, the root first, each on a page of
  its own.
\<close>

definition vma_wf :: "'a pmm_state_scheme \<Rightarrow> u64 \<Rightarrow> u64 \<Rightarrow> u64 list \<Rightarrow> bool" where
  "vma_wf s pm ctx rs \<longleftrightarrow> pagemap_wf s pm \<and> ctx \<noteq> NULL \<and> pm \<noteq> NULL \<and> ctx_pagemap s ctx = pm \<and>
     rs \<noteq> [] \<and> ctx_root s ctx = hd rs \<and> region_chain s (hd rs) rs \<and> distinct (ctx # rs) \<and>
     (\<forall>a \<in> set (ctx # rs). held s pm a)"

definition region_end :: "'a machine_scheme \<Rightarrow> u64 \<Rightarrow> u64" where
  "region_end s a = region_start s a + region_size s a * PAGE_SIZE"

lemma region_chain_cong:
  "(\<And>a. a \<in> set as \<Longrightarrow> region_next s' a = region_next s a) \<Longrightarrow> region_chain s' r as = region_chain s r as"
  by (induction as arbitrary: r) auto

text \<open>The list segment in front of a region.\<close>

fun region_path :: "'a machine_scheme \<Rightarrow> u64 \<Rightarrow> u64 list \<Rightarrow> u64 \<Rightarrow> bool" where
  "region_path s r [] q \<longleftrightarrow> r = q"
| "region_path s r (a # as) q \<longleftrightarrow> r = a \<and> a \<noteq> NULL \<and> region_path s (region_next s a) as q"

lemma region_chain_split:
  "region_chain s r (as @ bs) \<longleftrightarrow> (\<exists>q. region_path s r as q \<and> region_chain s q bs)"
  by (induction as arbitrary: r) auto

lemma region_path_cong:
  "(\<And>a. a \<in> set as \<Longrightarrow> region_next s' a = region_next s a) \<Longrightarrow> region_path s' r as q = region_path s r as q"
  by (induction as arbitrary: r) auto

lemma region_chain_nonnull: "region_chain s r as \<Longrightarrow> a \<in> set as \<Longrightarrow> a \<noteq> NULL"
  by (induction as arbitrary: r) auto

lemma vma_find_gap_chain:
  "region_chain s r as \<Longrightarrow> ctx_root s ctx \<notin> set as \<Longrightarrow> find (vma_gap_after s sz) as = Some a \<Longrightarrow>
   vma_find_gap ctx sz r s = Some a"
proof (induction as arbitrary: r)
  case (Cons b as)
  then show ?case by (subst vma_find_gap.simps) (auto split: if_splits)
qed simp

lemma vma_find_region_chain:
  "region_chain s r as \<Longrightarrow>
   vma_find_region r ptr s = Some (case find (\<lambda>a. region_start s a = ptr) as of Some a \<Rightarrow> a | None \<Rightarrow> NULL)"
proof (induction as arbitrary: r)
  case Nil
  then show ?case by (subst vma_find_region.simps) simp
next
  case (Cons b as)
  then show ?case by (subst vma_find_region.simps) auto
qed

lemma vma_wf_keeps:
  assumes wf: "vma_wf s pm ctx rs" and k: "keeps pm s s'"
  shows "vma_wf s' pm ctx rs"
    and "a \<in> set (ctx # rs) \<Longrightarrow> unat j < 512 \<Longrightarrow> get_entry s' a j = get_entry s a j"
proof -
  show e: "get_entry s' a j = get_entry s a j" if "a \<in> set (ctx # rs)" "unat j < 512" for a j
    using keeps_entry [OF k] that wf by (auto simp: vma_wf_def)
  have "region_chain s' (hd rs) rs = region_chain s (hd rs) rs"
    using e by (intro region_chain_cong) (simp add: region_fields)
  then show "vma_wf s' pm ctx rs"
    using wf e [of ctx] keeps_wf [OF k] keeps_held [OF k] by (simp add: vma_wf_def region_fields)
qed

lemma held_not_table:
  assumes "held s pm a"
  shows "\<not> is_table s pm a"
proof -
  have "in_range a 4096 a" by (rule in_range_start) simp
  then show ?thesis using assms unfolding held_def untouched_def by blast
qed

lemma held_not_free:
  assumes "held s pm a" and "p \<in> set (free_pages s)"
  shows "HIGHER_HALF s p \<noteq> a"
  using assms in_range_start [of 4096 a] by (auto simp: held_def untouched_def)

section \<open>Linking a region into the list\<close>

definition linked ::
  "u64 \<Rightarrow> u64 \<Rightarrow> u64 \<Rightarrow> u64 \<Rightarrow> u64 \<Rightarrow> u64 \<Rightarrow> 'a pmm_state_scheme \<Rightarrow> 'a pmm_state_scheme \<Rightarrow> bool" where
  "linked pm a nw nx sz flags s t \<longleftrightarrow> same_space pm s t \<and>
     get_entry t nw 0 = region_end s a \<and> get_entry t nw 1 = sz \<and> get_entry t nw 2 = flags \<and>
     get_entry t nw 3 = nx \<and> get_entry t nw 4 = a \<and> get_entry t a 3 = nw \<and>
     (\<forall>q j. page_aligned q \<longrightarrow> unat j < 512 \<longrightarrow> q \<noteq> nw \<longrightarrow> (q, j) \<noteq> (a, 3) \<longrightarrow>
        get_entry t q j = get_entry s q j) \<and>
     (\<forall>x. \<not> in_range a 4096 x \<and> \<not> in_range nw 4096 x \<longrightarrow> mem t x = mem s x)"

text \<open>A sequence of field assignments to held pages.\<close>

definition set_entries :: "(u64 \<times> u64 \<times> u64) list \<Rightarrow> 'a machine_scheme \<Rightarrow> 'a machine_scheme" where
  "set_entries ws s = fold (\<lambda>(a, i, v). set_entry a i v) ws s"

lemma set_entries_same_space:
  assumes "pagemap_wf s pm" and "\<forall>(a, i, v) \<in> set ws. held s pm a \<and> unat i < 512"
  shows "same_space pm s (set_entries ws s)"
  using assms
proof (induction ws arbitrary: s)
  case Nil
  then show ?case by (simp add: set_entries_def same_space_def)
next
  case (Cons w ws)
  obtain a i v where w: "w = (a, i, v)" by (cases w)
  have 1: "same_space pm s (set_entry a i v s)" using Cons.prems w by (intro held_set_entry) auto
  then have "same_space pm (set_entry a i v s) (set_entries ws (set_entry a i v s))"
    using Cons.prems(2) same_space_held [OF 1] by (intro Cons.IH) (auto simp: same_space_def)
  with 1 show ?case using same_space_trans by (auto simp: set_entries_def w)
qed

lemma set_entries_outside:
  "\<forall>(a, i, v) \<in> set ws. page_aligned a \<and> unat i < 512 \<and> \<not> in_range a 4096 x \<Longrightarrow> mem (set_entries ws s) x = mem s x"
  by (induction ws arbitrary: s) (auto simp: set_entries_def set_entry_outside)

lemma vma_insert_after_linked:
  assumes wf: "pagemap_wf s pm" and h: "held s pm a" "held s pm nw" and ne: "a \<noteq> nw"
  shows "linked pm a nw (region_next s a) sz flags s (vma_insert_after a nw sz flags s)"
proof -
  let ?ws = "[(nw, 1, sz), (nw, 2, flags), (nw, 0, region_end s a), (nw, 3, region_next s a), (nw, 4, a), (a, 3, nw)]"
  have al: "page_aligned a" "page_aligned nw" using h by simp_all
  have eq: "vma_insert_after a nw sz flags s = set_entries ?ws s"
    unfolding vma_insert_after_def Let_def set_field_entry(2-5) set_field_entry(1) [of nw]
    using al ne by (simp add: set_entries_def region_fields region_end_def get_entry_set_entry)
  have "same_space pm s (set_entries ?ws s)" using wf h by (intro set_entries_same_space) auto
  moreover have "mem (set_entries ?ws s) x = mem s x" if "\<not> in_range a 4096 x" "\<not> in_range nw 4096 x" for x
    using that al by (intro set_entries_outside) auto
  ultimately show ?thesis
    unfolding eq linked_def using al ne by (simp add: set_entries_def get_entry_set_entry)
qed

lemma vma_append_after_linked:
  assumes wf: "pagemap_wf s pm" and h: "held s pm a" "held s pm nw" and ne: "a \<noteq> nw"
  shows "linked pm a nw NULL sz flags s (vma_append_after a nw sz flags s)"
proof -
  let ?ws = "[(nw, 0, region_end s a), (nw, 1, sz), (nw, 2, flags), (nw, 3, NULL), (nw, 4, a), (a, 3, nw)]"
  have al: "page_aligned a" "page_aligned nw" using h by simp_all
  have eq: "vma_append_after a nw sz flags s = set_entries ?ws s"
    unfolding vma_append_after_def Let_def set_field_entry(2-5) set_field_entry(1) [of nw]
    using al ne by (simp add: set_entries_def region_fields region_end_def get_entry_set_entry)
  have "same_space pm s (set_entries ?ws s)" using wf h by (intro set_entries_same_space) auto
  moreover have "mem (set_entries ?ws s) x = mem s x" if "\<not> in_range a 4096 x" "\<not> in_range nw 4096 x" for x
    using that al by (intro set_entries_outside) auto
  ultimately show ?thesis
    unfolding eq linked_def using al ne by (simp add: set_entries_def get_entry_set_entry)
qed

lemma vma_wf_linked:
  assumes wf: "vma_wf s pm ctx (as @ a # bs)" and l: "linked pm a nw (region_next s a) sz flags s t"
    and nw: "held s pm nw" "nw \<noteq> NULL" "nw \<notin> set (ctx # as @ a # bs)"
  shows "vma_wf t pm ctx (as @ a # nw # bs)"
proof -
  let ?rs = "as @ a # bs"
  have e: "get_entry t q j = get_entry s q j" if "q \<in> set (ctx # ?rs)" "unat j < 512" "(q, j) \<noteq> (a, 3)" for q j
  proof -
    have "page_aligned q" using that(1) wf held_page_aligned unfolding vma_wf_def by blast
    with that l nw(3) show ?thesis by (auto simp: linked_def)
  qed
  have "a \<notin> set as" "a \<notin> set bs" "a \<noteq> ctx" using wf by (auto simp: vma_wf_def)
  then have n: "region_next t q = region_next s q" if "q \<in> set as \<union> set bs" for q
    using e [of q 3] that by (auto simp: region_fields)
  have an: "region_next t a = nw" "region_next t nw = region_next s a" using l by (simp_all add: linked_def region_fields)
  have "region_chain s (hd ?rs) ?rs" using wf by (simp add: vma_wf_def)
  then have "region_path s (hd ?rs) as a" "a \<noteq> NULL" "region_chain s (region_next s a) bs"
    by (auto simp: region_chain_split)
  then have "region_path t (hd ?rs) as a" "region_chain t (region_next s a) bs"
    using region_path_cong [of as t s] region_chain_cong [of bs t s] n by auto
  then have "region_chain t (hd ?rs) (as @ a # nw # bs)"
    using \<open>a \<noteq> NULL\<close> nw(2) by (auto simp: region_chain_split an)
  moreover have "hd (as @ a # nw # bs) = hd ?rs" by (cases as) simp_all
  moreover have "same_space pm s t" using l by (simp add: linked_def)
  ultimately show ?thesis
    using wf e [of ctx] nw same_space_held [of pm s t] \<open>a \<noteq> ctx\<close>
    by (auto simp: vma_wf_def region_fields same_space_def)
qed

section \<open>Allocation\<close>

lemma held_in_page: "held s pm a \<Longrightarrow> held s pm b \<Longrightarrow> a \<noteq> b \<Longrightarrow> in_range a 4096 x \<Longrightarrow> \<not> in_range b 4096 x"
  by (metis held_page_aligned in_page page_no_inj)

lemma clear_struct_outside:
  "n \<le> 4096 \<Longrightarrow> \<not> in_range a 4096 x \<Longrightarrow> mem (clear_struct a (of_nat n) s) x = mem s x"
proof -
  assume n: "n \<le> 4096" and x: "\<not> in_range a 4096 x"
  then have "\<not> in_range a n x" by (simp add: in_range_def)
  with n show ?thesis by (simp add: clear_struct_def memset_def memset_loop_apply)
qed

lemma vma_new_region:
  assumes wf: "vma_wf s pm ctx rs" and ne: "free_pages s \<noteq> []" and r: "pmm_request_page s = (p, s1)"
    and nw: "nw = HIGHER_HALF s p" and s2: "s2 = clear_struct nw sizeof_vma_region s1"
  shows "vma_wf s2 pm ctx rs" and "held s2 pm nw" and "nw \<notin> set (ctx # rs)"
    and "a \<in> set (ctx # rs) \<Longrightarrow> unat j < 512 \<Longrightarrow> get_entry s2 a j = get_entry s a j"
    and "virt_to_phys pm v s2 = virt_to_phys pm v s" and "free_pages s2 = butlast (free_pages s)"
    and "hhdm_offset s2 = hhdm_offset s" and "p = last (free_pages s)" and "stack_max s2 = stack_max s"
    and "stack_area s2 = stack_area s" and "page_ok s p" and "entry_addr p = p"
    and "HIGHER_HALF s1 p = HIGHER_HALF s p" and "keeps pm s s2" and "untouched s pm x \<Longrightarrow> \<not> in_range nw 4096 x"
proof -
  have wf0: "pagemap_wf s pm" using wf by (simp add: vma_wf_def)
  note q = keeps_request [OF wf0 ne r]
  show n: "nw \<notin> set (ctx # rs)"
    using held_not_free [of s pm _ p] q(4) ne wf by (auto simp: nw vma_wf_def)
  have sp: "same_space pm s1 s2"
    using keeps_wf [OF q(1)] q(2) clear_struct_outside [of 40 nw _ s1]
    by (intro held_write [of s1 pm nw]) (simp_all add: nw s2, simp_all add: clear_struct_def)
  then show "held s2 pm nw" using q(2) by (simp add: same_space_held nw)
  have far: "\<not> in_range nw 4096 x" if "untouched s pm x" for x
    using that q(4) ne by (auto simp: untouched_def nw)
  then show "untouched s pm x \<Longrightarrow> \<not> in_range nw 4096 x" .
  have ag: "mem s2 x = mem s1 x" if "untouched s pm x" for x
    using clear_struct_outside [of 40 nw x s1] far [OF that] by (simp add: s2)
  show k: "keeps pm s s2" using q(1) sp ag by (simp add: keeps_def same_space_def)
  show "vma_wf s2 pm ctx rs" using vma_wf_keeps(1) [OF wf k] .
  show "a \<in> set (ctx # rs) \<Longrightarrow> unat j < 512 \<Longrightarrow> get_entry s2 a j = get_entry s a j"
    using vma_wf_keeps(2) [OF wf k] .
  show "HIGHER_HALF s1 p = HIGHER_HALF s p" by (simp add: keeps_HH [OF q(1)])
  show "virt_to_phys pm v s2 = virt_to_phys pm v s" using q(3) sp by (simp add: same_space_def)
  show "free_pages s2 = butlast (free_pages s)" "stack_max s2 = stack_max s" "hhdm_offset s2 = hhdm_offset s"
    "stack_area s2 = stack_area s"
    using q(1,5,11) sp by (simp_all add: same_space_def keeps_def)
qed (use keeps_request [of s pm p s1] assms in \<open>auto simp: vma_wf_def\<close>)

lemma vma_finish_contract:
  assumes wf: "vma_wf t pm ctx rs" and nw: "nw \<in> set rs" and fl: "flags_ok (get_entry t nw 2)"
    and n: "n = unat (ALIGN_UP (get_entry t nw 1) PAGE_SIZE div PAGE_SIZE)" "n \<le> 2 ^ 36"
    and room: "4 * n \<le> length (free_pages t)"
  shows "\<exists>s' fs. vma_finish ctx nw t = Some (get_entry t nw 0, s') \<and> vma_wf s' pm ctx rs \<and> keeps pm t s' \<and>
    mapped_to pm (get_entry t nw 0) 0 n fs t s' \<and> distinct fs \<and> set fs \<subseteq> set (free_pages t) - set (free_pages s') \<and>
    (\<forall>f \<in> set fs. held s' pm (HIGHER_HALF t f)) \<and> length (free_pages t) \<le> 4 * n + length (free_pages s')"
proof -
  have h: "pagemap_wf t pm" "held t pm ctx" "held t pm nw" "get_entry t ctx 0 = pm"
    using wf nw by (auto simp: vma_wf_def region_fields)
  have "4 * (n - 0) \<le> length (free_pages t)" using room by simp
  from vma_map_region_contract [OF h refl refl fl n(1) [symmetric] n(2) _ this]
  obtain s' fs where s': "vma_map_region ctx nw (of_nat 0) t = Some (True, s')" "keeps pm t s'"
    "mapped_to pm (get_entry t nw 0) 0 n fs t s'" "distinct fs" "set fs \<subseteq> set (free_pages t) - set (free_pages s')"
    "\<forall>f \<in> set fs. held s' pm (HIGHER_HALF t f)" "length (free_pages t) \<le> 4 * (n - 0) + length (free_pages s')"
    by blast
  have "vma_finish ctx nw t = Some (get_entry t nw 0, s')"
    using s'(1) vma_wf_keeps(2) [OF wf s'(2), of nw 0] nw by (simp add: vma_finish_def region_fields)
  then show ?thesis
    using s' vma_wf_keeps(1) [OF wf s'(2)]
    by (intro exI [of _ s'] exI [of _ fs]) (simp del: length_free_pages)
qed


text \<open>Up to its mapping loop, \<open>vma_alloc\<close> takes one page and links it in behind \<open>a\<close>.\<close>

lemma vma_alloc_link:
  assumes wf: "vma_wf s pm ctx (root # rs)"
    and place: "rs = [] \<and> a = root \<or> find (vma_gap_after s sz) rs = Some a" and ne: "free_pages s \<noteq> []"
    and nw: "nw = HIGHER_HALF s (last (free_pages s))" "nw \<noteq> NULL"
  shows "\<exists>t as bs. root # rs = as @ a # bs \<and> vma_alloc ctx sz flags s = vma_finish ctx nw t \<and>
    vma_wf t pm ctx (as @ a # nw # bs) \<and> get_entry t nw 0 = region_end s a \<and> get_entry t nw 1 = sz \<and>
    get_entry t nw 2 = flags \<and> get_entry t nw 4 = a \<and>
    (\<forall>q j. q \<in> set (root # rs) \<longrightarrow> unat j < 512 \<longrightarrow> j \<noteq> 3 \<longrightarrow> get_entry t q j = get_entry s q j) \<and>
    (\<forall>v. virt_to_phys pm v t = virt_to_phys pm v s) \<and> free_pages t = butlast (free_pages s) \<and>
    stack_area t = stack_area s \<and> hhdm_offset t = hhdm_offset s \<and> stack_max t = stack_max s \<and>
    (\<forall>x. untouched s pm x \<and> \<not> in_range a 4096 x \<longrightarrow> untouched t pm x \<and> mem t x = mem s x)"
proof -
  obtain p s1 where r: "pmm_request_page s = (p, s1)" by (cases "pmm_request_page s")
  define s2 where "s2 = clear_struct nw sizeof_vma_region s1"
  have HHp: "nw = HIGHER_HALF s p" using keeps_request(4) [OF _ ne r, of pm] wf nw(1) by (simp add: vma_wf_def)
  note c = vma_new_region [OF wf ne r HHp s2_def]
  have "a \<in> set (root # rs)" using place by (auto simp: find_Some_iff)
  then obtain as bs where sp: "root # rs = as @ a # bs" by (metis split_list)
  have e2: "get_entry s2 q j = get_entry s q j" if "q \<in> set (ctx # as @ a # bs)" "unat j < 512" for q j
    using that c(4) [of q j] sp by simp
  define t where "t = (if rs = [] then vma_append_after a nw sz flags s2 else vma_insert_after a nw sz flags s2)"
  have chain: "region_chain s root (root # rs)" "ctx_root s ctx = root" "root \<notin> set rs" "ctx \<noteq> NULL" "pm \<noteq> NULL"
    "ctx_pagemap s ctx = pm" using wf by (auto simp: vma_wf_def)
  have h2: "pagemap_wf s2 pm" "held s2 pm a" "a \<noteq> nw" using c(1,3) sp by (auto simp: vma_wf_def)
  have nil: "region_next s2 a = NULL" if "rs = []"
    using that chain place e2 [of a 3] by (auto simp: region_fields)
  have l: "linked pm a nw (region_next s2 a) sz flags s2 t"
    using vma_append_after_linked [OF h2(1,2) c(2) h2(3)] vma_insert_after_linked [OF h2(1,2) c(2) h2(3)] nil
    by (simp add: t_def)
  have wft: "vma_wf t pm ctx (as @ a # nw # bs)"
    using vma_wf_linked [OF _ l c(2) nw(2)] c(1,3) sp by simp
  have "region_end s2 a = region_end s a" using e2 [of a 0] e2 [of a 1] by (simp add: region_end_def region_fields)
  then have et: "get_entry t nw 0 = region_end s a" "get_entry t nw 1 = sz" "get_entry t nw 2 = flags" "get_entry t nw 4 = a"
    using l by (simp_all add: linked_def)
  have st: "same_space pm s2 t" using l by (simp add: linked_def)
  have old: "get_entry t q j = get_entry s q j" if "q \<in> set (root # rs)" "unat j < 512" "j \<noteq> 3" for q j
  proof -
    have "page_aligned q" "q \<noteq> nw" using that(1) c(1,3) by (auto simp: vma_wf_def)
    then show ?thesis using l that e2 [of q j] sp by (auto simp: linked_def)
  qed
  have "vma_alloc ctx sz flags s = vma_finish ctx nw t"
  proof (cases "rs = []")
    case True
    then have "region_next s root = NULL" "a = root" using chain place by auto
    then show ?thesis
      using True chain r c(13) nw(2) e2 [of ctx 1] sp
      by (simp add: vma_alloc_def HHp [symmetric] s2_def [symmetric] t_def region_fields)
  next
    case False
    then have a: "find (vma_gap_after s sz) rs = Some a" "a \<noteq> root" using place chain(3) by (auto simp: find_Some_iff)
    have nx: "region_chain s (region_next s root) rs" using chain(1) by simp
    then have "region_next s root \<noteq> NULL" using False by (cases rs) auto
    then show ?thesis
      using False a chain r c(13) nw(2) vma_find_gap_chain [OF nx _ a(1)]
      by (simp add: vma_alloc_def HHp [symmetric] s2_def [symmetric] t_def)
  qed
  moreover have "untouched t pm x \<and> mem t x = mem s x" if "untouched s pm x" "\<not> in_range a 4096 x" for x
    using that c(14) c(15) [of x] l st by (simp add: keeps_def linked_def same_space_def)
  ultimately show ?thesis
    using sp wft et old st c(5,6,7,9,10)
    by (intro exI [of _ t] exI [of _ as] exI [of _ bs]) (simp add: same_space_def)
qed

lemma vma_alloc_contract:
  assumes wf: "vma_wf s pm ctx (root # rs)"
    and place: "rs = [] \<and> a = root \<or> find (vma_gap_after s sz) rs = Some a" and fl: "flags_ok flags"
    and n: "n = unat (ALIGN_UP sz PAGE_SIZE div PAGE_SIZE)" "n \<le> 2 ^ 36"
    and room: "4 * n + 1 \<le> length (free_pages s)"
    and nw: "nw = HIGHER_HALF s (last (free_pages s))" "nw \<noteq> NULL"
  shows "\<exists>s' fs as bs. root # rs = as @ a # bs \<and> vma_alloc ctx sz flags s = Some (region_end s a, s') \<and>
    vma_wf s' pm ctx (as @ a # nw # bs) \<and>
    region_start s' nw = region_end s a \<and> region_size s' nw = sz \<and> region_flags s' nw = flags \<and>
    region_prev s' nw = a \<and>
    (\<forall>b \<in> set (root # rs). region_start s' b = region_start s b \<and> region_size s' b = region_size s b \<and>
       region_flags s' b = region_flags s b \<and> region_prev s' b = region_prev s b) \<and>
    mapped_to pm (region_end s a) 0 n fs s s' \<and> distinct fs \<and>
    set fs \<subseteq> set (butlast (free_pages s)) - set (free_pages s') \<and>
    (\<forall>f \<in> set fs. held s' pm (HIGHER_HALF s f) \<and> HIGHER_HALF s f \<notin> set (ctx # as @ a # nw # bs)) \<and>
    set (free_pages s') \<subseteq> set (butlast (free_pages s)) \<and> length (free_pages s) \<le> 4 * n + 1 + length (free_pages s') \<and>
    stack_area s' = stack_area s \<and> hhdm_offset s' = hhdm_offset s \<and> stack_max s' = stack_max s \<and>
    (\<forall>x. untouched s pm x \<and> \<not> in_range a 4096 x \<longrightarrow> untouched s' pm x \<and> mem s' x = mem s x)"
proof -
  have ne: "free_pages s \<noteq> []" using room by (auto simp del: length_free_pages)
  obtain t as bs where t: "root # rs = as @ a # bs" "vma_alloc ctx sz flags s = vma_finish ctx nw t"
    "vma_wf t pm ctx (as @ a # nw # bs)" and et: "get_entry t nw 0 = region_end s a" "get_entry t nw 1 = sz"
    "get_entry t nw 2 = flags" "get_entry t nw 4 = a"
    and old: "\<forall>q j. q \<in> set (root # rs) \<longrightarrow> unat j < 512 \<longrightarrow> j \<noteq> 3 \<longrightarrow> get_entry t q j = get_entry s q j"
    and tr: "\<forall>v. virt_to_phys pm v t = virt_to_phys pm v s" and fr: "free_pages t = butlast (free_pages s)"
    and fx: "stack_area t = stack_area s" "hhdm_offset t = hhdm_offset s" "stack_max t = stack_max s"
    and far: "\<forall>x. untouched s pm x \<and> \<not> in_range a 4096 x \<longrightarrow> untouched t pm x \<and> mem t x = mem s x"
    using vma_alloc_link [OF wf place ne nw, of flags] by blast
  have room': "4 * n \<le> length (free_pages t)" using room fr by (simp del: length_free_pages)
  have in_rs: "nw \<in> set (as @ a # nw # bs)" by simp
  have "flags_ok (get_entry t nw 2)" "n = unat (ALIGN_UP (get_entry t nw 1) PAGE_SIZE div PAGE_SIZE)"
    using fl n et by simp_all
  from vma_finish_contract [OF t(3) in_rs this n(2) room']
  obtain s' fs where s': "vma_finish ctx nw t = Some (region_end s a, s')" "vma_wf s' pm ctx (as @ a # nw # bs)"
    "keeps pm t s'" "mapped_to pm (region_end s a) 0 n fs t s'" "distinct fs"
    "set fs \<subseteq> set (free_pages t) - set (free_pages s')" "\<forall>f \<in> set fs. held s' pm (HIGHER_HALF t f)"
    "length (free_pages t) \<le> 4 * n + length (free_pages s')"
    unfolding et(1) by blast
  have k: "get_entry s' q j = get_entry t q j" if "q \<in> set (ctx # as @ a # nw # bs)" "unat j < 512" for q j
    using vma_wf_keeps(2) [OF t(3) s'(3) that] .
  have HH: "HIGHER_HALF t = HIGHER_HALF s" by (simp add: HIGHER_HALF_def fx fun_eq_iff)
  have "HIGHER_HALF s f \<notin> set (ctx # as @ a # nw # bs)" if "f \<in> set fs" for f
    using that s'(6) held_not_free [of t pm _ f] t(3) HH unfolding vma_wf_def by fastforce
  moreover have "mapped_to pm (region_end s a) 0 n fs s s'" using mapped_to_base [OF s'(4)] tr by simp
  moreover have "length (free_pages s) \<le> 4 * n + 1 + length (free_pages s')"
    using s'(8) fr ne by (simp del: length_free_pages)
  moreover have "get_entry s' b j = get_entry s b j" if "b \<in> set (root # rs)" "unat j < 512" "j \<noteq> 3" for b j
    using that k [of b j] old t(1) by auto
  moreover have "set (free_pages s') \<subseteq> set (butlast (free_pages s))" "stack_area s' = stack_area s"
    "hhdm_offset s' = hhdm_offset s" "stack_max s' = stack_max s"
    using s'(3) fr fx by (simp_all add: keeps_def)
  moreover have "\<forall>x. untouched s pm x \<and> \<not> in_range a 4096 x \<longrightarrow> untouched s' pm x \<and> mem s' x = mem s x"
    using far s'(3) by (simp add: keeps_def)
  ultimately show ?thesis
    using t(1,2) s' k [of nw] et fr HH
    by (intro exI [of _ s'] exI [of _ fs] exI [of _ as] exI [of _ bs])
      (auto simp: region_fields simp del: length_free_pages)
qed

section \<open>Release\<close>

text \<open>
  What a step that gives the frames \<open>F\<close> back keeps: every held byte outside them.
\<close>

definition spares :: "u64 set \<Rightarrow> u64 \<Rightarrow> 'a pmm_state_scheme \<Rightarrow> 'a pmm_state_scheme \<Rightarrow> bool" where
  "spares F pm s s' \<longleftrightarrow> pagemap_wf s' pm \<and> stack_area s' = stack_area s \<and> hhdm_offset s' = hhdm_offset s \<and>
     stack_max s' = stack_max s \<and>
     (\<forall>x. untouched s pm x \<and> \<not> stack_area s x \<and> (\<forall>f \<in> F. \<not> in_range (HIGHER_HALF s f) 4096 x) \<longrightarrow>
        untouched s' pm x \<and> mem s' x = mem s x)"

lemma spares_HH: "spares F pm s s' \<Longrightarrow> HIGHER_HALF s' = HIGHER_HALF s"
  by (simp add: spares_def HIGHER_HALF_def fun_eq_iff)

lemma spares_page_ok: "spares F pm s s' \<Longrightarrow> page_ok s' = page_ok s"
  using spares_HH [of F pm s s'] by (simp add: spares_def page_ok_def fun_eq_iff)

lemma spares_trans:
  assumes "spares F pm s s1" "spares G pm s1 s2"
  shows "spares (F \<union> G) pm s s2"
  using assms spares_HH [OF assms(1)] by (auto simp: spares_def)

lemma spares_held:
  assumes "spares F pm s s'" "held s pm a" and "\<And>f. f \<in> F \<Longrightarrow> held s pm (HIGHER_HALF s f) \<and> HIGHER_HALF s f \<noteq> a"
  shows "held s' pm a" and "unat j < 512 \<Longrightarrow> get_entry s' a j = get_entry s a j"
proof -
  have "untouched s' pm x \<and> mem s' x = mem s x \<and> \<not> stack_area s' x" if "in_range a 4096 x" for x
    using assms that held_in_page [of s pm a _ x] unfolding spares_def held_def by metis
  then show "held s' pm a" "unat j < 512 \<Longrightarrow> get_entry s' a j = get_entry s a j"
    using assms(2) by (auto simp: held_def intro: get_entry_cong)
qed

lemma free_frame_spares:
  assumes wf: "pagemap_wf s pm" and ok: "page_ok s f" and ea: "entry_addr f = f" and nf: "f \<notin> set (free_pages s)"
    and h: "held s pm (HIGHER_HALF s f)" and cap: "length (free_pages s) < unat (stack_max s)"
  shows "spares {f} pm s (pmm_free_page f s)" and "free_pages (pmm_free_page f s) = free_pages s @ [f]"
    and "virt_to_phys pm v (pmm_free_page f s) = virt_to_phys pm v s"
proof -
  let ?t = "pmm_free_page f s"
  have room: "stack_idx s < stack_max s" using cap by (simp add: word_less_nat_alt)
  note c = pmm_free_contract [OF pagemap_wf_pmm(1) [OF wf] ok room]
  show fr: "free_pages ?t = free_pages s @ [f]" by (rule c(1))
  have m: "mem ?t x = mem s x" if "\<not> stack_area s x" for x using c(2) that .
  have inv: "pmm_inv ?t" using c(3) nf .
  have area: "stack_area ?t = stack_area s" using pmm_layout_update [OF c(4-6)] by simp
  have HH: "HIGHER_HALF ?t = HIGHER_HALF s" by (simp add: HIGHER_HALF_def c(6) fun_eq_iff)
  have tab: "mem ?t x = mem s x" if "is_table s pm u" "in_range u 4096 x" for u x
    using m pagemap_wf_table(1) [OF wf that] .
  have walk: "path_ok p \<Longrightarrow> table_at ?t pm p = table_at s pm p" for p
    using table_at_cong [OF c(6) pagemap_wf_hhdm [OF wf] pagemap_wf_pmm(2) [OF wf] tab] .
  then have tabs: "is_table ?t pm u \<longleftrightarrow> is_table s pm u" for u by (auto simp: is_table_def)
  have "get_entry ?t u j = get_entry s u j" if "is_table s pm u" "unat j < 512" for u j
    using that tab pagemap_wf_table(3) [OF wf] by (blast intro: get_entry_cong)
  with walk show "virt_to_phys pm v ?t = virt_to_phys pm v s" by (rule translate_cong)
  have nt: "u \<noteq> HIGHER_HALF s f" if "is_table s pm u" for u
    using that held_not_table [OF h] by blast
  have "pagemap_wf ?t pm"
    using wf inv walk ea nt by (auto simp: pagemap_wf_def tabs fr area HH)
  then show "spares {f} pm s ?t"
    using area c(5,6) m by (auto simp: spares_def untouched_def tabs fr HH)
qed

lemma vmm_unmap_frame:
  "hhdm_offset (vmm_unmap pm v s) = hhdm_offset s" "stack_pages (vmm_unmap pm v s) = stack_pages s"
  "stack_max (vmm_unmap pm v s) = stack_max s"
  by (simp_all add: vmm_unmap_def Let_def invlpg_same)

lemma vmm_unmap_spares:
  assumes wf: "pagemap_wf s pm"
  shows "spares {} pm s (vmm_unmap pm v s)"
proof -
  have "stack_area (vmm_unmap pm v s) = stack_area s"
    using pmm_layout_update [of "vmm_unmap pm v s" s] vmm_unmap_frame [of pm v s] by simp
  then show ?thesis
    using vmm_unmap_contract(1,4) [OF wf refl, of v] vmm_unmap_contract(4) [OF wf refl] vmm_unmap_frame [of pm v s]
    by (simp add: spares_def)
qed

text \<open>One round: the frame behind a page, if there is one, is freed, then the page is unmapped.\<close>

lemma vma_release_round:
  fixes s :: "'a vmm_state_scheme"
  assumes wf: "pagemap_wf s pm" and f: "f = virt_to_phys pm v s"
    and ok: "f \<noteq> 0 \<Longrightarrow> page_ok s f \<and> f \<notin> set (free_pages s) \<and> held s pm (HIGHER_HALF s f) \<and>
      length (free_pages s) < unat (stack_max s)"
    and t: "t = vmm_unmap pm v (pmm_free_page f s)"
  shows "spares (set (filter (\<lambda>f. f \<noteq> 0) [f])) pm s t"
    and "free_pages t = free_pages s @ filter (\<lambda>f. f \<noteq> 0) [f]"
    and "virt_to_phys pm w t = (if same_page v w then 0 else virt_to_phys pm w s)"
proof -
  let ?u = "pmm_free_page f s"
  have ea: "entry_addr f = f" by (simp add: f virt_to_phys_leaf entry_addr_def)
  have u: "spares (set (filter (\<lambda>f. f \<noteq> 0) [f])) pm s ?u \<and> free_pages ?u = free_pages s @ filter (\<lambda>f. f \<noteq> 0) [f] \<and>
    (\<forall>w. virt_to_phys pm w ?u = virt_to_phys pm w s)"
  proof (cases "f = 0")
    case True
    then show ?thesis using wf by (simp add: pmm_free_page_def spares_def)
  next
    case False
    then show ?thesis using free_frame_spares [OF wf _ ea] ok by (simp del: length_free_pages)
  qed
  then have wfu: "pagemap_wf ?u pm" by (simp add: spares_def)
  show "spares (set (filter (\<lambda>f. f \<noteq> 0) [f])) pm s t"
    using spares_trans [OF _ vmm_unmap_spares [OF wfu]] u by (auto simp: t)
  show "free_pages t = free_pages s @ filter (\<lambda>f. f \<noteq> 0) [f]"
    "virt_to_phys pm w t = (if same_page v w then 0 else virt_to_phys pm w s)"
    using vmm_unmap_contract(2,3) [OF wfu t] u by simp_all
qed

lemma free_page_entry:
  assumes wf: "pagemap_wf s pm" and a: "held s pm a" "unat j < 512"
    and ok: "f \<noteq> 0 \<Longrightarrow> page_ok s f \<and> length (free_pages s) < unat (stack_max s)"
  shows "get_entry (pmm_free_page f s) a j = get_entry s a j"
proof (cases "f = 0")
  case False
  then have "page_ok s f" "stack_idx s < stack_max s" using ok by (simp_all add: word_less_nat_alt)
  from pmm_free_contract(2) [OF pagemap_wf_pmm(1) [OF wf] this] a show ?thesis
    by (intro get_entry_cong) (auto simp: held_def)
qed (simp add: pmm_free_page_def)

text \<open>The frames behind the pages \<open>i\<close> to \<open>n\<close> of an area.\<close>

definition area_frames :: "u64 \<Rightarrow> u64 \<Rightarrow> nat \<Rightarrow> nat \<Rightarrow> 'a machine_scheme \<Rightarrow> u64 list" where
  "area_frames pm v i n s =
     filter (\<lambda>f. f \<noteq> 0) (map (\<lambda>k. virt_to_phys pm (v + of_nat k * 4096) s) [i..<n])"

definition frames_held :: "u64 \<Rightarrow> u64 list \<Rightarrow> 'a pmm_state_scheme \<Rightarrow> bool" where
  "frames_held pm fs s \<longleftrightarrow> distinct fs \<and>
     (\<forall>f \<in> set fs. page_ok s f \<and> f \<notin> set (free_pages s) \<and> held s pm (HIGHER_HALF s f)) \<and>
     length (free_pages s) + length fs \<le> unat (stack_max s)"

lemma area_frames_round:
  assumes "i < n" "n \<le> 2 ^ 36"
    and "\<And>w. virt_to_phys pm w t = (if same_page (v + of_nat i * 4096) w then 0 else virt_to_phys pm w s)"
  shows "area_frames pm v i n s = filter (\<lambda>f. f \<noteq> 0) [virt_to_phys pm (v + of_nat i * 4096) s] @ area_frames pm v (Suc i) n t"
proof -
  have "virt_to_phys pm (v + of_nat k * 4096) t = virt_to_phys pm (v + of_nat k * 4096) s" if "k \<in> {Suc i..<n}" for k
    using that assms same_page_offsets [of v i k] by auto
  then have "area_frames pm v (Suc i) n t = area_frames pm v (Suc i) n s"
    unfolding area_frames_def by (intro arg_cong [where f = "filter _"] map_cong) auto
  then show ?thesis using assms(1) by (simp add: area_frames_def upt_conv_Cons)
qed

lemma frames_held_round:
  assumes fh: "frames_held pm (fs @ gs) s" and sp: "spares (set fs) pm s t" and fr: "free_pages t = free_pages s @ fs"
  shows "frames_held pm gs t"
proof -
  have "held t pm (HIGHER_HALF s g)" if g: "g \<in> set gs" for g
  proof (rule spares_held(1) [OF sp])
    show "held s pm (HIGHER_HALF s g)" using g fh by (simp add: frames_held_def)
    show "held s pm (HIGHER_HALF s f) \<and> HIGHER_HALF s f \<noteq> HIGHER_HALF s g" if "f \<in> set fs" for f
      using that g fh by (auto simp: frames_held_def HIGHER_HALF_def)
  qed
  then show ?thesis
    using fh fr spares_page_ok [OF sp] spares_HH [OF sp] sp
    by (auto simp: frames_held_def spares_def simp del: length_free_pages)
qed

lemma vma_release_contract:
  fixes s :: "'a vmm_state_scheme"
  assumes "pagemap_wf s pm" "held s pm ctx" "held s pm r" "get_entry s ctx 0 = pm" "get_entry s r 0 = v"
    and "unat (get_entry s r 1) = n" "n \<le> 2 ^ 36" "i \<le> n" "fs = area_frames pm v i n s" "frames_held pm fs s"
    and "\<forall>f \<in> set fs. HIGHER_HALF s f \<noteq> ctx \<and> HIGHER_HALF s f \<noteq> r"
  shows "\<exists>s'. vma_release_pages ctx r (of_nat i) s = Some s' \<and> spares (set fs) pm s s' \<and>
    free_pages s' = free_pages s @ fs \<and>
    (\<forall>w. virt_to_phys pm w s' =
       (if \<exists>k. i \<le> k \<and> k < n \<and> same_page (v + of_nat k * 4096) w then 0 else virt_to_phys pm w s))"
  using assms
proof (induction "n - i" arbitrary: i s fs)
  case 0
  then have "of_nat i = get_entry s r 1" by (auto simp: word_unat_eq_iff)
  then have "vma_release_pages ctx r (of_nat i) s = Some s"
    by (subst vma_release_pages.simps) (simp add: region_fields)
  with 0 show ?case by (intro exI [of _ s]) (auto simp: area_frames_def spares_def)
next
  case (Suc d)
  let ?v = "v + of_nat i * 4096"
  define f where "f = virt_to_phys pm ?v s"
  define t where "t = vmm_unmap pm ?v (pmm_free_page f s)"
  have i: "i < n" using Suc.hyps(2) by simp
  have fsi: "fs = filter (\<lambda>f. f \<noteq> 0) [f] @ area_frames pm v (Suc i) n s"
    using i Suc.prems(9) by (simp add: area_frames_def upt_conv_Cons f_def)
  have ok: "page_ok s f \<and> f \<notin> set (free_pages s) \<and> held s pm (HIGHER_HALF s f) \<and>
      length (free_pages s) < unat (stack_max s)" if "f \<noteq> 0"
    using that Suc.prems(10) fsi by (simp add: frames_held_def del: length_free_pages)
  note o = vma_release_round [OF Suc.prems(1) f_def ok t_def]
  have fst: "fs = filter (\<lambda>f. f \<noteq> 0) [f] @ area_frames pm v (Suc i) n t"
    using area_frames_round [OF i Suc.prems(7) o(3)] Suc.prems(9) f_def by simp
  have one: "f' = f \<and> f \<noteq> 0" if "f' \<in> set (filter (\<lambda>f. f \<noteq> 0) [f])" for f' using that by (simp split: if_splits)
  have other: "held s pm (HIGHER_HALF s f') \<and> HIGHER_HALF s f' \<noteq> ctx \<and> HIGHER_HALF s f' \<noteq> r"
    if "f' \<in> set (filter (\<lambda>f. f \<noteq> 0) [f])" for f'
    using one [OF that] ok Suc.prems(11) fst by auto
  have h: "held t pm ctx" "held t pm r" "get_entry t ctx 0 = pm" "get_entry t r 0 = v" "get_entry t r 1 = get_entry s r 1"
    using spares_held [OF o(1), of ctx] spares_held [OF o(1), of r] other Suc.prems by simp_all
  let ?gs = "area_frames pm v (Suc i) n t"
  have fh: "frames_held pm ?gs t" using frames_held_round [OF _ o(1,2)] fst Suc.prems(10) by simp
  have sep: "\<forall>f \<in> set ?gs. HIGHER_HALF t f \<noteq> ctx \<and> HIGHER_HALF t f \<noteq> r"
    using Suc.prems(11) fst spares_HH [OF o(1)] by simp
  have wft: "pagemap_wf t pm" using o(1) by (simp add: spares_def)
  have d: "d = n - Suc i" "unat (get_entry t r 1) = n" "Suc i \<le> n" using Suc.hyps(2) Suc.prems(6) h i by simp_all
  obtain s' where s': "vma_release_pages ctx r (of_nat (Suc i)) t = Some s'" "spares (set ?gs) pm t s'"
    "free_pages s' = free_pages t @ ?gs" "\<forall>w. virt_to_phys pm w s' =
       (if \<exists>k. Suc i \<le> k \<and> k < n \<and> same_page (v + of_nat k * 4096) w then 0 else virt_to_phys pm w t)"
    using Suc.hyps(1) [OF d(1) wft h(1-4) d(2) Suc.prems(7) d(3) refl fh sep] by blast
  have "(of_nat i :: u64) < get_entry s r 1" using i Suc.prems(6,7) by (simp add: word_less_nat_alt)
  then have "vma_release_pages ctx r (of_nat i) s = vma_release_pages ctx r (of_nat (Suc i)) t"
    using free_page_entry [OF Suc.prems(1), of _ _ f] ok Suc.prems(2-5)
    by (subst vma_release_pages.simps) (simp add: region_fields t_def f_def add.commute)
  moreover have "spares (set fs) pm s s'" using spares_trans [OF o(1) s'(2)] fst by auto
  moreover have "(\<exists>k. i \<le> k \<and> k < n \<and> same_page (v + of_nat k * 4096) w) \<longleftrightarrow>
    same_page ?v w \<or> (\<exists>k. Suc i \<le> k \<and> k < n \<and> same_page (v + of_nat k * 4096) w)" for w
    using i by (metis Suc_leD Suc_leI le_neq_implies_less order_refl)
  ultimately show ?case using s' o(2,3) fst by (intro exI [of _ s']) auto
qed

text \<open>
  Taking a region out of the list, as \<open>vma_free\<close> does it: the region that the back pointer names
  gets the successor, so everything from there up to the freed region leaves the list.
\<close>

definition unlink_region :: "u64 \<Rightarrow> u64 \<Rightarrow> (u64 \<times> u64 \<times> u64) list" where
  "unlink_region prev nxt = (prev, 3, nxt) # (if nxt \<noteq> NULL then [(nxt, 4, prev)] else [])"

lemma vma_wf_unlink:
  assumes wf: "vma_wf s pm ctx (as @ p # ms @ a # bs)"
    and t: "t = set_entries (unlink_region p (region_next s a)) s"
  shows "vma_wf t pm ctx (as @ p # bs)" and "same_space pm s t"
    and "b \<in> set (as @ p # ms @ a # bs) \<Longrightarrow> unat j < 512 \<Longrightarrow> j \<notin> {3, 4} \<Longrightarrow> get_entry t b j = get_entry s b j"
    and "get_entry t ctx 1 = hd (as @ p # ms @ a # bs)"
    and "\<forall>b \<in> set (as @ p # ms @ a # bs). \<not> in_range b 4096 x \<Longrightarrow> mem t x = mem s x"
proof -
  let ?rs = "as @ p # ms @ a # bs" and ?nx = "region_next s a"
  have al: "page_aligned b" if "b \<in> set (ctx # ?rs)" for b
    using that wf held_page_aligned unfolding vma_wf_def by blast
  have ch: "region_path s (hd ?rs) as p" "region_chain s ?nx bs" "p \<noteq> NULL"
    using wf by (auto simp: vma_wf_def region_chain_split)
  have nx: "?nx \<in> set bs" if "?nx \<noteq> NULL" using ch(2) that by (cases bs) auto
  have h: "held s pm b" if "b \<in> set (ctx # ?rs)" for b using wf that by (auto simp: vma_wf_def)
  have d: "distinct (ctx # ?rs)" using wf by (simp add: vma_wf_def)
  show sp: "same_space pm s t"
    unfolding t using wf h nx
    by (intro set_entries_same_space) (auto simp: unlink_region_def vma_wf_def split: if_splits)
  have e: "get_entry t b j = (if b = p \<and> j = 3 then ?nx else if ?nx \<noteq> NULL \<and> b = ?nx \<and> j = 4 then p else get_entry s b j)"
    if "b \<in> set (ctx # ?rs)" "unat j < 512" for b j
    using that al [of p] al [of ?nx] al [of b] nx
    by (auto simp: t set_entries_def unlink_region_def get_entry_set_entry)
  show "b \<in> set ?rs \<Longrightarrow> unat j < 512 \<Longrightarrow> j \<notin> {3, 4} \<Longrightarrow> get_entry t b j = get_entry s b j"
    using e [of b j] by auto
  have n: "region_next t b = (if b = p then ?nx else region_next s b)" if "b \<in> set (ctx # ?rs)" for b
    using e [OF that, of 3] by (simp add: region_fields)
  have "region_next t b = region_next s b" if "b \<in> set as \<union> set bs" for b
    using n [of b] that d by auto
  then have "region_path t (hd ?rs) as p" "region_chain t ?nx bs"
    using ch(1,2) region_path_cong [of as t s] region_chain_cong [of bs t s] by simp_all
  then have "region_chain t (hd ?rs) (as @ p # bs)" using ch(3) n [of p] by (auto simp: region_chain_split)
  moreover have "hd (as @ p # bs) = hd ?rs" by (cases as) simp_all
  moreover have c: "get_entry t ctx 0 = pm" "get_entry t ctx 1 = hd ?rs"
    using e [of ctx 0] e [of ctx 1] wf by (auto simp: vma_wf_def region_fields)
  ultimately show "vma_wf t pm ctx (as @ p # bs)"
    using wf sp same_space_held [OF sp] by (auto simp: vma_wf_def region_fields same_space_def)
  show "get_entry t ctx 1 = hd ?rs" by (rule c(2))
  show "\<forall>b \<in> set ?rs. \<not> in_range b 4096 x \<Longrightarrow> mem t x = mem s x"
    unfolding t using al [of p] al [of ?nx] nx by (intro set_entries_outside) (auto simp: unlink_region_def split: if_splits)
qed

lemma vma_wf_spares:
  assumes wf: "vma_wf s pm ctx rs" and sp: "spares F pm s s'"
    and sep: "\<forall>f \<in> F. held s pm (HIGHER_HALF s f) \<and> HIGHER_HALF s f \<notin> set (ctx # rs)"
  shows "vma_wf s' pm ctx rs"
    and "a \<in> set (ctx # rs) \<Longrightarrow> unat j < 512 \<Longrightarrow> get_entry s' a j = get_entry s a j"
proof -
  have h: "held s' pm a \<and> (unat j < 512 \<longrightarrow> get_entry s' a j = get_entry s a j)" if "a \<in> set (ctx # rs)" for a j
  proof -
    have "held s pm a" using that wf by (auto simp: vma_wf_def)
    moreover have "held s pm (HIGHER_HALF s f) \<and> HIGHER_HALF s f \<noteq> a" if "f \<in> F" for f
      using that sep \<open>a \<in> set (ctx # rs)\<close> by blast
    ultimately show ?thesis using spares_held [OF sp] by blast
  qed
  then show "a \<in> set (ctx # rs) \<Longrightarrow> unat j < 512 \<Longrightarrow> get_entry s' a j = get_entry s a j" by blast
  have "region_chain s' (hd rs) rs = region_chain s (hd rs) rs"
    using h by (intro region_chain_cong) (simp add: region_fields)
  then show "vma_wf s' pm ctx rs"
    using wf h [of ctx] h sp by (simp add: vma_wf_def region_fields spares_def)
qed

lemma HIGHER_HALF_PHYSICAL [simp]: "HIGHER_HALF s (PHYSICAL s a) = a"
  by (simp add: HIGHER_HALF_def PHYSICAL_def)

lemma same_space_frames_held:
  assumes "same_space pm s t" and "frames_held pm fs s"
  shows "frames_held pm fs t" and "HIGHER_HALF t = HIGHER_HALF s" and "PHYSICAL t = PHYSICAL s"
proof -
  show HH: "HIGHER_HALF t = HIGHER_HALF s" "PHYSICAL t = PHYSICAL s"
    using assms(1) by (simp_all add: same_space_def HIGHER_HALF_def PHYSICAL_def fun_eq_iff)
  show "frames_held pm fs t"
    using assms same_space_held [OF assms(1)] HH
    by (simp add: frames_held_def page_ok_def same_space_def del: length_free_pages)
qed

lemma vma_free_contract:
  fixes s :: "'a vmm_state_scheme"
  assumes wf: "vma_wf s pm ctx (as @ p # ms @ a # bs)" and prev: "region_prev s a = p"
    and ptr: "find (\<lambda>r. region_start s r = ptr) (as @ p # ms @ a # bs) = Some a"
    and n: "n = unat (region_size s a)" "n \<le> 2 ^ 36" and fs: "fs = area_frames pm ptr 0 n s"
    and fh: "frames_held pm (fs @ [PHYSICAL s a]) s" and ea: "entry_addr (PHYSICAL s a) = PHYSICAL s a"
    and sep: "\<forall>f \<in> set fs. HIGHER_HALF s f \<notin> set (ctx # as @ p # ms @ a # bs)"
  shows "\<exists>s'. vma_free ctx ptr s = Some s' \<and> vma_wf s' pm ctx (as @ p # bs) \<and>
    free_pages s' = free_pages s @ fs @ [PHYSICAL s a] \<and>
    (\<forall>w. virt_to_phys pm w s' =
       (if \<exists>k<n. same_page (ptr + of_nat k * 4096) w then 0 else virt_to_phys pm w s)) \<and>
    (\<forall>b \<in> set (as @ p # bs). region_start s' b = region_start s b \<and> region_size s' b = region_size s b) \<and>
    hhdm_offset s' = hhdm_offset s \<and> stack_area s' = stack_area s \<and>
    (\<forall>x. untouched s pm x \<and> \<not> stack_area s x \<and> (\<forall>b \<in> set (as @ p # ms @ a # bs). \<not> in_range b 4096 x) \<and>
       (\<forall>f \<in> set fs. \<not> in_range (HIGHER_HALF s f) 4096 x) \<longrightarrow> untouched s' pm x \<and> mem s' x = mem s x)"
proof -
  let ?rs = "as @ p # ms @ a # bs"
  have w: "pagemap_wf s pm" "held s pm ctx" "held s pm a" "get_entry s ctx 0 = pm" "ctx_root s ctx = hd ?rs"
    "region_chain s (hd ?rs) ?rs" "ctx \<noteq> NULL" "distinct (ctx # ?rs)"
    using wf by (auto simp: vma_wf_def region_fields)
  have nz: "a \<noteq> NULL" "p \<noteq> NULL" "hd ?rs \<noteq> a"
    using region_chain_nonnull [OF w(6)] w(8) by (auto simp: hd_append)
  have st: "get_entry s a 0 = ptr" using ptr by (auto simp: find_Some_iff region_fields)
  have fh0: "frames_held pm fs s" using fh by (auto simp: frames_held_def simp del: length_free_pages)
  have sep': "\<forall>f \<in> set fs. HIGHER_HALF s f \<noteq> ctx \<and> HIGHER_HALF s f \<noteq> a" using sep by auto
  obtain s1 where s1: "vma_release_pages ctx a 0 s = Some s1" "spares (set fs) pm s s1"
    "free_pages s1 = free_pages s @ fs" "\<forall>v. virt_to_phys pm v s1 =
       (if \<exists>k. 0 \<le> k \<and> k < n \<and> same_page (ptr + of_nat k * 4096) v then 0 else virt_to_phys pm v s)"
    using vma_release_contract [OF w(1-4) st _ n(2) _ fs fh0 sep'] n(1) by (auto simp: region_fields)
  have sp: "\<forall>f \<in> set fs. held s pm (HIGHER_HALF s f) \<and> HIGHER_HALF s f \<notin> set (ctx # ?rs)"
    using sep fh0 by (auto simp: frames_held_def)
  note wf1 = vma_wf_spares [OF wf s1(2) sp]
  have nx: "region_next s a = region_next s1 a" using wf1(2) [of a 3] by (simp add: region_fields)
  define t where "t = set_entries (unlink_region p (region_next s1 a)) s1"
  note u = vma_wf_unlink [OF wf1(1) t_def]
  have P1: "PHYSICAL s1 = PHYSICAL s" using s1(2) by (simp add: spares_def PHYSICAL_def fun_eq_iff)
  note fh1 = same_space_frames_held [OF u(2) frames_held_round [OF fh s1(2,3)]]
  have wft: "pagemap_wf t pm" using u(1) by (simp add: vma_wf_def)
  have q: "page_ok t (PHYSICAL s a)" "PHYSICAL s a \<notin> set (free_pages t)" "held t pm a"
    "length (free_pages t) < unat (stack_max t)" "PHYSICAL t a = PHYSICAL s a" "HIGHER_HALF t (PHYSICAL s a) = a"
    using fh1 P1 HIGHER_HALF_PHYSICAL [of t a] by (simp_all add: frames_held_def del: length_free_pages HIGHER_HALF_PHYSICAL)
  have h: "held t pm (HIGHER_HALF t (PHYSICAL s a))" using q by simp
  note f = free_frame_spares [OF wft q(1) ea q(2) h q(4)]
  let ?s = "pmm_free_page (PHYSICAL s a) t"
  have sep2: "\<forall>f \<in> {PHYSICAL s a}. held t pm (HIGHER_HALF t f) \<and> HIGHER_HALF t f \<notin> set (ctx # as @ p # bs)"
    using w(8) q by auto
  note wf2 = vma_wf_spares [OF u(1) f(1) sep2]
  have "region_start ?s b = region_start s b \<and> region_size ?s b = region_size s b" if "b \<in> set (as @ p # bs)" for b
  proof -
    have "b \<in> set ?rs" "b \<in> set (ctx # ?rs)" "b \<in> set (ctx # as @ p # bs)" using that by auto
    then show ?thesis using wf1(2) [of b] u(3) [of b] wf2(2) [of b] by (simp add: region_fields)
  qed
  moreover have "hhdm_offset ?s = hhdm_offset s" "stack_area ?s = stack_area s"
    using f(1) u(2) s1(2) by (simp_all add: spares_def same_space_def)
  moreover have "untouched ?s pm x \<and> mem ?s x = mem s x"
    if "untouched s pm x" "\<not> stack_area s x" "\<forall>b \<in> set ?rs. \<not> in_range b 4096 x" "\<forall>f \<in> set fs. \<not> in_range (HIGHER_HALF s f) 4096 x" for x
  proof -
    have 1: "untouched s1 pm x \<and> mem s1 x = mem s x" "\<not> stack_area s1 x" using that s1(2) by (auto simp: spares_def)
    have 2: "untouched t pm x" "mem t x = mem s1 x" "\<not> stack_area t x"
      using 1 u(2) u(5) [OF that(3)] by (simp_all add: same_space_def)
    have "\<not> in_range (HIGHER_HALF t (PHYSICAL s a)) 4096 x" using that(3) q(6) by simp
    then show ?thesis using 1 2 f(1) by (simp add: spares_def)
  qed
  moreover note wf2(1)
  moreover have "vma_free ctx ptr s = Some ?s"
    using w(5,7) nz s1(1) prev nx u(4) vma_find_region_chain [OF w(6), of ptr] ptr q(5)
    by (cases "region_next s1 a = 0")
      (simp_all add: vma_free_def t_def set_entries_def unlink_region_def set_field_entry(2-5) region_fields Let_def)
  moreover have "free_pages ?s = free_pages s @ fs @ [PHYSICAL s a]" using f(2) s1(3) u(2) by (simp add: same_space_def)
  moreover have "virt_to_phys pm v ?s = virt_to_phys pm v s1" for v using f(3) u(2) by (simp add: same_space_def)
  ultimately show ?thesis using s1(4) by auto
qed

section \<open>New contexts\<close>

lemma clear_struct_same_space:
  assumes "pagemap_wf s pm" "held s pm a" "n \<le> 4096"
  shows "same_space pm s (clear_struct a (of_nat n) s)"
  using assms clear_struct_outside [OF assms(3)]
  by (intro held_write [of s pm a]) (simp_all, simp_all add: clear_struct_def)

lemma clear_struct_entry:
  assumes "held s pm a" "held s pm b" "a \<noteq> b" "n \<le> 4096" "unat j < 512"
  shows "get_entry (clear_struct a (of_nat n) s) b j = get_entry s b j"
  using assms held_in_page [of s pm b a] clear_struct_outside [OF assms(4)]
  by (intro get_entry_cong) auto

lemma clear_struct_zero:
  assumes "page_aligned a" "unat j < 512" "n < 2 ^ 64" and "\<And>x. in_range a 4096 x \<Longrightarrow> mem s x = 0"
  shows "get_entry (clear_struct a (of_nat n) s) a j = 0"
  unfolding get_entry_def using assms in_slot_in_page [OF assms(1,2)]
  by (intro load64_zero) (simp add: clear_struct_def memset_def memset_loop_apply)

lemma vma_init_root:
  assumes wf: "pagemap_wf s pm" "pm \<noteq> NULL" and h: "held s pm ctx" "held s pm root" and ne: "ctx \<noteq> root" "ctx \<noteq> NULL" "root \<noteq> NULL"
    and zero: "\<And>x. in_range root 4096 x \<Longrightarrow> mem s x = 0"
    and t: "t = set_entries [(ctx, 0, pm), (root, 0, 0), (root, 1, 1)] (clear_struct root sizeof_vma_region (set_entry ctx 1 root s))"
  shows "same_space pm s t" and "vma_wf t pm ctx [root]" and "region_start t root = 0" and "region_size t root = 1"
proof -
  let ?s1 = "set_entry ctx 1 root s"
  let ?s2 = "clear_struct root sizeof_vma_region ?s1"
  have al: "page_aligned ctx" "page_aligned root" using h by simp_all
  have sp1: "same_space pm s ?s1" using held_set_entry [OF wf(1) h(1), of 1] by simp
  then have h1: "pagemap_wf ?s1 pm" "held ?s1 pm ctx" "held ?s1 pm root"
    using h same_space_held [OF sp1] by (simp_all add: same_space_def)
  have sp2: "same_space pm ?s1 ?s2" using clear_struct_same_space [OF h1(1,3), of 40] by simp
  then have h2: "pagemap_wf ?s2 pm" "held ?s2 pm ctx" "held ?s2 pm root"
    using h1 same_space_held [OF sp2] by (simp_all add: same_space_def)
  have sp3: "same_space pm ?s2 t" unfolding t using h2 by (intro set_entries_same_space) auto
  show sp: "same_space pm s t" using sp1 sp2 sp3 same_space_trans by blast
  have z1: "mem ?s1 x = 0" if "in_range root 4096 x" for x
    using zero [OF that] set_entry_outside [OF al(1), of 1 x root s] held_in_page [OF h(2,1) _ that] ne(1) by auto
  have "get_entry ?s2 root 3 = 0" using clear_struct_zero [OF al(2), of 3 40 ?s1] z1 by simp
  moreover have "get_entry ?s2 ctx 1 = root"
    using clear_struct_entry [OF h1(3,2), of 40 1] ne(1) al by (simp add: get_entry_set_entry)
  ultimately have e: "get_entry t ctx 0 = pm" "get_entry t ctx 1 = root" "get_entry t root 0 = 0" "get_entry t root 1 = 1"
    "get_entry t root 3 = 0"
    using al ne(1) by (simp_all add: t set_entries_def get_entry_set_entry)
  then show "region_start t root = 0" "region_size t root = 1" by (simp_all add: region_fields)
  show "vma_wf t pm ctx [root]"
    using wf(2) ne sp e h same_space_held [OF sp] by (auto simp: vma_wf_def region_fields same_space_def)
qed

lemma vma_create_context_contract:
  assumes wf: "pagemap_wf s pm" and pm: "pm \<noteq> NULL" and room: "2 \<le> length (free_pages s)"
    and nn: "\<forall>f \<in> set (free_pages s). HIGHER_HALF s f \<noteq> NULL"
    and ctx: "ctx = HIGHER_HALF s (last (free_pages s))"
    and root: "root = HIGHER_HALF s (last (butlast (free_pages s)))"
  shows "\<exists>s'. vma_create_context pm s = (ctx, s') \<and> vma_wf s' pm ctx [root] \<and>
    region_start s' root = 0 \<and> region_size s' root = 1 \<and> (\<forall>v. virt_to_phys pm v s' = virt_to_phys pm v s) \<and>
    free_pages s' = butlast (butlast (free_pages s)) \<and> stack_area s' = stack_area s \<and>
    hhdm_offset s' = hhdm_offset s \<and> stack_max s' = stack_max s \<and> keeps pm s s'"
proof -
  have ne: "free_pages s \<noteq> []" using room by (auto simp del: length_free_pages)
  obtain p s1 where r1: "pmm_request_page s = (p, s1)" by (cases "pmm_request_page s")
  note q = keeps_request [OF wf ne r1]
  define s2 where "s2 = clear_struct ctx sizeof_vma_context s1"
  have HH1: "HIGHER_HALF s1 = HIGHER_HALF s" using keeps_HH [OF q(1)] .
  have h1: "held s1 pm ctx" using q(2,4) ctx by simp
  have sp2: "same_space pm s1 s2"
    using clear_struct_same_space [OF keeps_wf [OF q(1)] h1, of 16] by (simp add: s2_def)
  have wf2: "pagemap_wf s2 pm" and fr2: "free_pages s2 = butlast (free_pages s)"
    and h2: "held s2 pm ctx" and HH2: "HIGHER_HALF s2 = HIGHER_HALF s"
    using sp2 q(5) h1 same_space_held [OF sp2] HH1 by (simp_all add: same_space_def HIGHER_HALF_def fun_eq_iff)
  have ne2: "free_pages s2 \<noteq> []" using room fr2 by (cases "free_pages s" rule: rev_cases) (auto simp del: length_free_pages)
  obtain p' s3 where r2: "pmm_request_page s2 = (p', s3)" by (cases "pmm_request_page s2")
  note q' = keeps_request [OF wf2 ne2 r2]
  have HH3: "HIGHER_HALF s3 = HIGHER_HALF s" using keeps_HH [OF q'(1)] HH2 by simp
  have h3: "held s3 pm ctx" "held s3 pm root"
    using keeps_held [OF q'(1) h2] q'(2,4) fr2 HH2 root by simp_all
  have rt: "root = HIGHER_HALF s p'" using root q'(4) fr2 by simp
  have zero: "mem s3 x = 0" if "in_range root 4096 x" for x
    using that pmm_request_contract(3) [OF pagemap_wf_pmm(1) [OF wf2] ne2 r2] HH2 rt by (simp add: zero_page_def)
  have ne3: "ctx \<noteq> root" "ctx \<noteq> NULL" "root \<noteq> NULL"
    using held_not_free [OF h2, of p'] q'(4) ne2 HH2 rt ctx nn ne fr2 in_set_butlastD [of p' "free_pages s"]
    by auto
  define t where "t = set_entries [(ctx, 0, pm), (root, 0, 0), (root, 1, 1)]
    (clear_struct root sizeof_vma_region (set_entry ctx 1 root s3))"
  note i = vma_init_root [OF keeps_wf [OF q'(1)] pm h3 ne3 zero t_def]
  have al: "page_aligned ctx" "page_aligned root" using h3 by simp_all
  have h4: "held (set_entry ctx 1 root s3) pm ctx" "held (set_entry ctx 1 root s3) pm root"
    using same_space_held [OF held_set_entry [OF keeps_wf [OF q'(1)] h3(1)], of 1] h3 by simp_all
  have c: "HIGHER_HALF s1 p = ctx" "HIGHER_HALF s3 p' = root" "pmm_request_page (clear_struct ctx sizeof_vma_context s1) = (p', s3)"
    using q(4) ctx rt HH1 HH3 r2 by (simp_all add: s2_def)
  have "get_entry (clear_struct root sizeof_vma_region (set_entry ctx 1 root s3)) ctx 1 = root"
    using clear_struct_entry [OF h4(2,1), of 40 1] al ne3(1) by (simp add: get_entry_set_entry)
  then have run: "vma_create_context pm s = (ctx, t)"
    unfolding vma_create_context_def t_def set_entries_def
    using r1 c al ne3(1) by (simp add: region_fields set_field_entry(2-5) set_field_entry(1) [of ctx]
        set_field_entry(1) [of root] get_entry_set_entry Let_def)
  have k: "keeps pm s t"
  proof -
    have "untouched t pm x \<and> mem t x = mem s x" if x: "untouched s pm x" for x
    proof -
      have 1: "untouched s1 pm x" "mem s1 x = mem s x" using x q(1) by (simp_all add: keeps_def)
      have far: "\<not> in_range ctx 4096 x" using x ctx ne by (simp add: untouched_def)
      have 2: "untouched s2 pm x" "mem s2 x = mem s1 x"
        using sp2 1(1) far clear_struct_outside [of 16 ctx x s1] by (simp_all add: same_space_def s2_def)
      have 3: "untouched s3 pm x" "mem s3 x = mem s2 x" using 2(1) q'(1) by (simp_all add: keeps_def)
      have far': "\<not> in_range root 4096 x" using 2(1) rt q'(4) ne2 HH2 by (simp add: untouched_def)
      have "mem t x = mem (clear_struct root sizeof_vma_region (set_entry ctx 1 root s3)) x"
        unfolding t_def using far far' al by (intro set_entries_outside) auto
      also have "\<dots> = mem s3 x" using far far' al clear_struct_outside [of 40 root x "set_entry ctx 1 root s3"] by (simp add: set_entry_outside)
      finally show ?thesis using 1 2 3 i(1) by (simp add: same_space_def)
    qed
    moreover have "set (free_pages t) \<subseteq> set (free_pages s)" using i(1) q'(5) fr2 by (auto simp: same_space_def dest!: in_set_butlastD)
    moreover have "pagemap_wf t pm" using i(1) by (simp add: same_space_def)
    moreover have "stack_area t = stack_area s" "hhdm_offset t = hhdm_offset s" "stack_max t = stack_max s"
      using i(1) q(1) q'(1) sp2 by (simp_all add: keeps_def same_space_def)
    ultimately show ?thesis unfolding keeps_def by blast
  qed
  have "\<forall>v. virt_to_phys pm v t = virt_to_phys pm v s" "free_pages t = butlast (butlast (free_pages s))"
    using i(1) sp2 q(3,5) q'(3,5) fr2 by (simp_all add: same_space_def)
  then show ?thesis using run i(2-4) k by (intro exI [of _ t]) (simp add: keeps_def)
qed

section \<open>Destroying a context\<close>

lemma vma_destroy_regions_contract:
  assumes "pagemap_wf s pm" "region_chain s r rs" "frames_held pm (map (PHYSICAL s) rs @ fs) s"
    and "\<forall>a \<in> set rs. entry_addr (PHYSICAL s a) = PHYSICAL s a"
  shows "\<exists>s'. vma_destroy_regions r s = Some s' \<and> spares (set (map (PHYSICAL s) rs)) pm s s' \<and>
    free_pages s' = free_pages s @ map (PHYSICAL s) rs \<and> (\<forall>v. virt_to_phys pm v s' = virt_to_phys pm v s)"
  using assms
proof (induction rs arbitrary: r s)
  case Nil
  then show ?case by (subst vma_destroy_regions.simps) (simp add: spares_def)
next
  case (Cons a rs)
  let ?p = "PHYSICAL s a" and ?t = "pmm_free_page (PHYSICAL s a) s"
  have ok: "page_ok s ?p" "?p \<notin> set (free_pages s)" "held s pm (HIGHER_HALF s ?p)"
    "length (free_pages s) < unat (stack_max s)" "entry_addr ?p = ?p"
    using Cons.prems(3,4) by (simp_all add: frames_held_def del: length_free_pages)
  note f = free_frame_spares [OF Cons.prems(1) ok(1,5,2,3,4)]
  have P: "PHYSICAL ?t = PHYSICAL s" using f(1) by (simp add: spares_def PHYSICAL_def fun_eq_iff)
  have d: "a \<notin> set rs" using Cons.prems(3) by (auto simp: frames_held_def)
  have "region_next ?t b = region_next s b" if "b \<in> set rs" for b
  proof -
    have "held s pm (HIGHER_HALF s (PHYSICAL s b))"
      using Cons.prems(3) that by (simp add: frames_held_def del: HIGHER_HALF_PHYSICAL)
    then show ?thesis using spares_held(2) [OF f(1), of b 3] ok(3) d that by (auto simp: region_fields)
  qed
  then have "region_chain ?t (region_next s a) rs" using Cons.prems(2) region_chain_cong [of rs ?t s] by simp
  moreover have "frames_held pm (map (PHYSICAL ?t) rs @ fs) ?t"
    using frames_held_round [of pm "[?p]" "map (PHYSICAL s) rs @ fs" s ?t] Cons.prems(3) f(1,2) P by simp
  moreover have "pagemap_wf ?t pm" using f(1) by (simp add: spares_def)
  ultimately obtain s' where s': "vma_destroy_regions (region_next s a) ?t = Some s'"
    "spares (set (map (PHYSICAL s) rs)) pm ?t s'" "free_pages s' = free_pages ?t @ map (PHYSICAL s) rs"
    "\<forall>v. virt_to_phys pm v s' = virt_to_phys pm v ?t"
    using Cons.IH [of ?t] Cons.prems(4) P by fastforce
  have "vma_destroy_regions r s = Some s'"
    using Cons.prems(2) s'(1) by (subst vma_destroy_regions.simps) simp
  then show ?case using s' f spares_trans [OF f(1) s'(2)] by (intro exI [of _ s']) simp
qed

section \<open>A booted context\<close>

lemma boot_vma:
  "\<exists>(s :: 'a vmm_state_scheme) pm ctx root. vma_wf s pm ctx [root] \<and> region_end s root = 0x1000 \<and>
     region_start s root = 0 \<and>
     length (free_pages s) = 12 \<and> (\<forall>f \<in> set (free_pages s). HIGHER_HALF s f \<noteq> NULL) \<and>
     (\<forall>v. virt_to_phys pm v s = 0)"
proof -
  obtain s :: "'a vmm_state_scheme" where s: "pagemap_wf s (kernel_pagemap s)" "length (free_pages s) = 14"
    "\<forall>v. virt_to_phys (kernel_pagemap s) v s = 0" "\<forall>f \<in> set (free_pages s). HIGHER_HALF s f \<noteq> NULL"
    "kernel_pagemap s \<noteq> NULL"
    using boot_pagemap by blast
  have "2 \<le> length (free_pages s)" using s(2) by simp
  from vma_create_context_contract [OF s(1,5) this s(4) refl refl]
  obtain s' :: "'a vmm_state_scheme" and ctx root where s': "vma_wf s' (kernel_pagemap s) ctx [root]" "region_start s' root = 0"
    "region_size s' root = 1" "\<forall>v. virt_to_phys (kernel_pagemap s) v s' = virt_to_phys (kernel_pagemap s) v s"
    "free_pages s' = butlast (butlast (free_pages s))" "hhdm_offset s' = hhdm_offset s"
    by blast
  have "HIGHER_HALF s' f \<noteq> NULL" if "f \<in> set (free_pages s')" for f
    using that s'(5,6) s(4) by (auto simp: HIGHER_HALF_def dest!: in_set_butlastD)
  moreover have "length (free_pages s') = 12" using s'(5) s(2) by (simp del: length_free_pages)
  moreover have "region_end s' root = 0x1000" using s'(2,3) by (simp add: region_end_def)
  moreover have "\<forall>v. virt_to_phys (kernel_pagemap s) v s' = 0" using s'(4) s(3) by simp
  ultimately show ?thesis using s'(1,2) by blast
qed

lemma vma_extend:
  fixes s :: "'a pmm_state_scheme"
  assumes wf: "vma_wf s pm ctx (as @ [a])" and ne: "free_pages s \<noteq> []"
    and nn: "\<forall>f \<in> set (free_pages s). HIGHER_HALF s f \<noteq> NULL"
  shows "\<exists>(t :: 'a pmm_state_scheme) nw. vma_wf t pm ctx (as @ [a, nw]) \<and> region_start t nw = v \<and> region_size t nw = sz \<and> region_prev t nw = a \<and>
    nw \<notin> set (ctx # as @ [a]) \<and>
    (\<forall>b \<in> set (as @ [a]). region_start t b = region_start s b \<and> region_size t b = region_size s b \<and>
       region_prev t b = region_prev s b) \<and>
    (\<forall>w. virt_to_phys pm w t = virt_to_phys pm w s) \<and> free_pages t = butlast (free_pages s) \<and>
    (\<forall>f \<in> set (free_pages t). HIGHER_HALF t f \<noteq> NULL) \<and> page_ok t (PHYSICAL t nw) \<and>
    entry_addr (PHYSICAL t nw) = PHYSICAL t nw \<and> PHYSICAL t nw \<notin> set (free_pages t)"
proof -
  obtain p s1 where r: "pmm_request_page s = (p, s1)" by (cases "pmm_request_page s")
  define nw where "nw = HIGHER_HALF s p"
  define s2 where "s2 = clear_struct nw sizeof_vma_region s1"
  note c = vma_new_region [OF wf ne r nw_def s2_def]
  have h2: "pagemap_wf s2 pm" "held s2 pm a" "a \<noteq> nw" using c(1,3) by (auto simp: vma_wf_def)
  have nil: "region_next s2 a = NULL" using c(1) by (auto simp: vma_wf_def region_chain_split)
  define s3 where "s3 = vma_append_after a nw sz 0 s2"
  have l: "linked pm a nw (region_next s2 a) sz 0 s2 s3"
    using vma_append_after_linked [OF h2(1,2) c(2) h2(3)] nil by (simp add: s3_def)
  have nwn: "nw \<noteq> NULL" using nn c(8) ne by (simp add: nw_def)
  have wf3: "vma_wf s3 pm ctx (as @ [a, nw])" using vma_wf_linked [OF c(1) l c(2) nwn] c(3) by simp
  define t where "t = set_entry nw 0 v s3"
  have al: "page_aligned b" if "b \<in> set (ctx # as @ [a, nw])" for b
    using that wf3 held_page_aligned unfolding vma_wf_def by blast
  have w3: "pagemap_wf s3 pm" "held s3 pm nw" using wf3 by (auto simp: vma_wf_def)
  have sp: "same_space pm s3 t" using held_set_entry [OF w3, of 0] by (simp add: t_def)
  have e: "get_entry t b j = (if b = nw \<and> j = 0 then v else get_entry s3 b j)"
    if "b \<in> set (ctx # as @ [a, nw])" "unat j < 512" for b j
    using that al [of b] al [of nw] by (auto simp: t_def get_entry_set_entry)
  have "region_chain t (hd (as @ [a, nw])) (as @ [a, nw]) = region_chain s3 (hd (as @ [a, nw])) (as @ [a, nw])"
    by (rule region_chain_cong) (use e in \<open>auto simp: region_fields\<close>)
  then have wft: "vma_wf t pm ctx (as @ [a, nw])"
    using wf3 sp same_space_held [OF sp] e [of ctx] by (auto simp: vma_wf_def region_fields same_space_def)
  have sp': "same_space pm s2 t" using l sp same_space_trans by (auto simp: linked_def)
  have old: "get_entry t b j = get_entry s b j" if "b \<in> set (as @ [a])" "unat j < 512" "j \<noteq> 3" for b j
  proof -
    have "b \<noteq> nw" "page_aligned b" using that(1) c(3) al [of b] by auto
    then have "get_entry s3 b j = get_entry s2 b j" using l that by (simp add: linked_def)
    then show ?thesis using e [of b j] c(4) [of b j] that \<open>b \<noteq> nw\<close> by simp
  qed
  have new: "get_entry t nw 0 = v" "get_entry t nw 1 = sz" "get_entry t nw 4 = a"
    using e [of nw] l by (simp_all add: linked_def)
  have fx: "hhdm_offset t = hhdm_offset s" "stack_area t = stack_area s" "free_pages t = butlast (free_pages s)"
    using sp' c(6,7,10) by (simp_all add: same_space_def)
  then have "PHYSICAL t nw = p" "page_ok t p" using c(11) by (simp_all add: PHYSICAL_def nw_def HIGHER_HALF_def page_ok_def)
  moreover have "p \<notin> set (free_pages t)" using keeps_request(9) [OF _ ne r, of pm] keeps_request(5) [OF _ ne r, of pm] wf fx
    by (simp add: vma_wf_def)
  moreover have "\<forall>f \<in> set (free_pages t). HIGHER_HALF t f \<noteq> NULL"
    using nn fx by (auto simp: HIGHER_HALF_def dest: in_set_butlastD)
  ultimately show ?thesis
    using wft old new c(3,5,12) sp' fx
    by (intro exI [of _ t] exI [of _ nw]) (simp add: region_fields same_space_def)
qed

text \<open>A context with a hole of one page between two regions.\<close>

lemma boot_vma_hole:
  "\<exists>(s :: 'a vmm_state_scheme) pm ctx root a c. vma_wf s pm ctx [root, a, c] \<and> region_end s a = 0x2000 \<and>
     region_start s root = 0 \<and> region_start s a = 0x1000 \<and> region_start s c = 0x3000 \<and>
     region_size s c = 1 \<and> region_prev s c = a \<and> length (free_pages s) = 10 \<and>
     (\<forall>f \<in> set (free_pages s). HIGHER_HALF s f \<noteq> NULL) \<and> (\<forall>v. virt_to_phys pm v s = 0) \<and>
     page_ok s (PHYSICAL s c) \<and> entry_addr (PHYSICAL s c) = PHYSICAL s c \<and> PHYSICAL s c \<notin> set (free_pages s)"
proof -
  obtain s :: "'a vmm_state_scheme" and pm ctx root where s: "vma_wf s pm ctx [root]" "region_start s root = 0"
    "length (free_pages s) = 12" "\<forall>f \<in> set (free_pages s). HIGHER_HALF s f \<noteq> NULL" "\<forall>v. virt_to_phys pm v s = 0"
    using boot_vma by blast
  have ne: "free_pages s \<noteq> []" using s(3) by (auto simp del: length_free_pages)
  have "vma_wf s pm ctx ([] @ [root])" using s(1) by simp
  from vma_extend [OF this ne s(4), of "0x1000" 1]
  obtain t :: "'a vmm_state_scheme" and a where t: "vma_wf t pm ctx ([] @ [root, a])" "region_start t a = 0x1000" "region_size t a = 1"
    "\<forall>b \<in> set ([] @ [root]). region_start t b = region_start s b \<and> region_size t b = region_size s b \<and>
       region_prev t b = region_prev s b"
    "\<forall>w. virt_to_phys pm w t = virt_to_phys pm w s" "free_pages t = butlast (free_pages s)"
    "\<forall>f \<in> set (free_pages t). HIGHER_HALF t f \<noteq> NULL"
    by blast
  have net: "free_pages t \<noteq> []" using s(3) t(6) by (cases "free_pages s" rule: rev_cases) (auto simp del: length_free_pages)
  have "vma_wf t pm ctx ([root] @ [a])" using t(1) by simp
  from vma_extend [OF this net t(7), of "0x3000" 1]
  obtain u :: "'a vmm_state_scheme" and c where u: "vma_wf u pm ctx ([root] @ [a, c])" "region_start u c = 0x3000" "region_size u c = 1" "region_prev u c = a"
    "\<forall>b \<in> set ([root] @ [a]). region_start u b = region_start t b \<and> region_size u b = region_size t b \<and>
       region_prev u b = region_prev t b"
    "\<forall>w. virt_to_phys pm w u = virt_to_phys pm w t" "free_pages u = butlast (free_pages t)"
    "\<forall>f \<in> set (free_pages u). HIGHER_HALF u f \<noteq> NULL"
    "page_ok u (PHYSICAL u c)" "entry_addr (PHYSICAL u c) = PHYSICAL u c" "PHYSICAL u c \<notin> set (free_pages u)"
    by blast
  have "length (free_pages u) = 10" using u(7) t(6) s(3) by (simp del: length_free_pages)
  moreover have "region_end u a = 0x2000" using u(5) t(2,3) by (simp add: region_end_def)
  moreover have "\<forall>w. virt_to_phys pm w u = 0" "region_start u root = 0" "region_start u a = 0x1000"
    "vma_wf u pm ctx [root, a, c]"
    using u(1,5,6) t(2,4,5) s(2,5) by simp_all
  ultimately show ?thesis using u by blast
qed

section \<open>Allocation followed by release\<close>

lemma same_page_translate: "same_page v w \<Longrightarrow> virt_to_phys pm v s = virt_to_phys pm w s"
  by (simp add: same_page_def virt_to_phys_leaf)

lemma page_count_le:
  assumes "unat sz \<le> 2 ^ 36"
  shows "unat (ALIGN_UP sz PAGE_SIZE div PAGE_SIZE) \<le> unat sz"
proof -
  have s: "unat (sz + 4095) = unat sz + 4095" using assms by (simp add: unat_word_ariths)
  have m: "unat ((sz + 4095) div 4096 * 4096) = (unat sz + 4095) div 4096 * 4096"
    using assms s by (simp add: unat_word_ariths unat_div)
  then have "unat (ALIGN_UP sz PAGE_SIZE div PAGE_SIZE) = (unat sz + 4095) div 4096"
    by (simp add: ALIGN_UP_def DIV_ROUND_UP_def unat_div)
  also have "\<dots> \<le> unat sz" by simp
  finally show ?thesis .
qed

lemma area_frames_mapped_part:
  assumes m: "mapped_to pm v 0 n fs s s'" and "n \<le> k" "k \<le> 2 ^ 36"
    and empty: "\<forall>j. n \<le> j \<and> j < k \<longrightarrow> virt_to_phys pm (v + of_nat j * 4096) s = 0" and nz: "0 \<notin> set fs"
  shows "area_frames pm v 0 k s' = fs"
proof -
  have "map (\<lambda>j. virt_to_phys pm (v + of_nat j * 4096) s') [0..<n] = map (\<lambda>j. fs ! j) [0..<n]"
    using m by (simp add: mapped_to_def)
  also have "\<dots> = fs" using m map_nth [of fs] by (simp add: mapped_to_def)
  finally have 1: "map (\<lambda>j. virt_to_phys pm (v + of_nat j * 4096) s') [0..<n] = fs" .
  have "virt_to_phys pm (v + of_nat j * 4096) s' = 0" if "j \<in> {n..<k}" for j
  proof -
    have "\<not> same_page (v + of_nat i * 4096) (v + of_nat j * 4096)" if "i < n" for i
      using that \<open>j \<in> {n..<k}\<close> assms(2,3) same_page_offsets [of v i j] by auto
    then show ?thesis using m empty that by (simp add: mapped_to_def)
  qed
  then have 2: "filter (\<lambda>f. f \<noteq> 0) (map (\<lambda>j. virt_to_phys pm (v + of_nat j * 4096) s') [n..<k]) = []"
    by (simp add: filter_empty_conv)
  have "[0..<k] = [0..<n] @ [n..<k]" using assms(2) upt_add_eq_append [of 0 n "k - n"] by simp
  then have "area_frames pm v 0 k s' = filter (\<lambda>f. f \<noteq> 0) fs"
    unfolding area_frames_def by (simp only: map_append filter_append 1 2 append_Nil2)
  also have "\<dots> = fs" using nz by (auto intro: filter_True)
  finally show ?thesis .
qed

text \<open>The pages that left the pool fit into it again.\<close>

lemma pool_room:
  assumes "pmm_inv s" "pmm_inv s'" "distinct fs" "set fs \<subseteq> set (free_pages s) - set (free_pages s')"
    and "set (free_pages s') \<subseteq> set (free_pages s)"
  shows "length (free_pages s') + length fs \<le> unat (stack_max s)"
proof -
  have "distinct (free_pages s' @ fs)" "set (free_pages s' @ fs) \<subseteq> set (free_pages s)"
    using assms by (auto simp: pmm_inv_def)
  then have "length (free_pages s' @ fs) \<le> card (set (free_pages s))"
    by (metis card_mono distinct_card finite_set)
  also have "\<dots> \<le> length (free_pages s)" by (rule card_length)
  also have "\<dots> \<le> unat (stack_max s)" using pmm_inv_idx [OF assms(1)] by simp
  finally show ?thesis by (simp del: length_free_pages)
qed

lemma last_free_not_butlast:
  assumes "pmm_inv s" and "free_pages s \<noteq> []"
  shows "last (free_pages s) \<notin> set (butlast (free_pages s))"
proof -
  have "distinct (butlast (free_pages s) @ [last (free_pages s)])" using assms by (simp add: pmm_inv_def)
  then show ?thesis by simp
qed

lemma frames_held_taken:
  assumes wf: "pagemap_wf s pm" "pagemap_wf s' pm" and fs: "distinct fs" "set fs \<subseteq> set (free_pages s) - set (free_pages s')"
    and sub: "set (free_pages s') \<subseteq> set (free_pages s)" and h: "\<forall>f \<in> set fs. held s' pm (HIGHER_HALF s f)"
    and fx: "stack_area s' = stack_area s" "hhdm_offset s' = hhdm_offset s" "stack_max s' = stack_max s"
  shows "frames_held pm fs s'" and "\<forall>f \<in> set fs. entry_addr f = f" and "0 \<notin> set fs"
proof -
  note inv = pagemap_wf_pmm(1) [OF wf(1)] pagemap_wf_pmm(1) [OF wf(2)]
  have ok: "page_ok s f" if "f \<in> set fs" for f using that fs(2) inv(1) by (auto simp: pmm_inv_def)
  then show "0 \<notin> set fs" by (auto simp: page_ok_def)
  show "\<forall>f \<in> set fs. entry_addr f = f" using fs(2) pagemap_wf_pmm(3) [OF wf(1)] by blast
  have "HIGHER_HALF s' = HIGHER_HALF s" "page_ok s' = page_ok s"
    using fx by (simp_all add: HIGHER_HALF_def page_ok_def fun_eq_iff)
  then show "frames_held pm fs s'"
    using pool_room [OF inv fs sub] fs ok h fx by (auto simp: frames_held_def simp del: length_free_pages)
qed

lemma list_split_unique:
  "distinct (as @ a # bs) \<Longrightarrow> as @ a # bs = as' @ a # bs' \<Longrightarrow> as' = as \<and> bs' = bs"
proof (induction as arbitrary: as')
  case Nil
  then show ?case by (cases as') auto
next
  case (Cons b as)
  then obtain l where l: "as' = b # l" "as @ a # bs = l @ a # bs'" by (cases as') auto
  with Cons.IH [of l] Cons.prems(1) show ?case by simp
qed

lemma find_new_region:
  "\<forall>b \<in> set (as @ a # bs). f b \<noteq> v \<Longrightarrow> f nw = v \<Longrightarrow> find (\<lambda>r. f r = v) (as @ a # nw # bs) = Some nw"
  by (induction as) auto

section \<open>What allocation leaves alone\<close>

text \<open>The variables of the components behind the page allocator.\<close>

lemma pmm_more:
  "pmm_state.more (snd (pmm_request_page s)) = pmm_state.more s" "pmm_state.more (pmm_free_page p s) = pmm_state.more s"
  "pmm_state.more (set_field a v s) = pmm_state.more s" "pmm_state.more (clear_struct a n s) = pmm_state.more s"
  "pmm_state.more (set_entry t i v s) = pmm_state.more s"
  by (simp_all add: pmm_request_page_def pmm_free_page_def stack_push_def set_field_def clear_struct_def set_entry_def Let_def)

lemma ensure_table_more: "pmm_state.more (ensure_table t i f s) = pmm_state.more s"
  by (simp add: ensure_table_def split_def pmm_more Let_def)

lemma vmm_map_more: "pmm_state.more (vmm_map pm v p f s) = pmm_state.more s"
  by (simp add: vmm_map_def Let_def pmm_more ensure_table_more)

lemma vma_map_region_more: "vma_map_region c r i s = Some y \<Longrightarrow> pmm_state.more (snd y) = pmm_state.more s"
proof (erule vma_map_region.raw_induct [rotated])
  fix f c r i y and s :: "'a pmm_state_scheme"
  assume IH: "\<And>c r i (s :: 'a pmm_state_scheme) y. f c r i s = Some y \<Longrightarrow> pmm_state.more (snd y) = pmm_state.more s"
    and run: "(if i < ALIGN_UP (region_size s r) PAGE_SIZE div PAGE_SIZE
      then if fst (pmm_request_page s) = 0 then Some (False, snd (pmm_request_page s))
           else f c r (i + 1) (let (page, s) = pmm_request_page s
              in vmm_map (ctx_pagemap s c) (region_start s r + i * PAGE_SIZE) page (region_flags s r) s)
      else Some (True, s)) = Some y"
  show "pmm_state.more (snd y) = pmm_state.more s"
    using run by (auto simp: pmm_more vmm_map_more split_def Let_def split: if_splits dest!: IH)
qed

lemma vma_finish_more: "vma_finish c r s = Some (p, t) \<Longrightarrow> pmm_state.more t = pmm_state.more s"
  by (auto simp: vma_finish_def bind_eq_Some_conv dest: vma_map_region_more)

lemma vma_alloc_more: "vma_alloc c sz fl s = Some (p, t) \<Longrightarrow> pmm_state.more t = pmm_state.more s"
  by (auto simp: vma_alloc_def vma_insert_after_def vma_append_after_def pmm_more Let_def split_def bind_eq_Some_conv
    dest!: vma_finish_more split: if_splits)

section \<open>Properties\<close>

lemma flags_ok_3: "flags_ok 3"
  by (simp add: flags_ok_def entry_present_def entry_addr_def)

text \<open>
  A new context is well-formed: with two free pages, \<open>vma_create_context\<close> returns a context for
  the given page map whose list is the root region alone, which covers page 0; translations are
  as before and exactly two pages have left the pool.
\<close>

theorem vma_create_context_wf:
  assumes "pagemap_wf s pm" and "pm \<noteq> NULL" and "2 \<le> length (free_pages s)"
    and "\<forall>f \<in> set (free_pages s). HIGHER_HALF s f \<noteq> NULL"
    and "ctx = HIGHER_HALF s (last (free_pages s))" and "root = HIGHER_HALF s (last (butlast (free_pages s)))"
  shows "\<exists>s'. vma_create_context pm s = (ctx, s') \<and> vma_wf s' pm ctx [root] \<and> region_start s' root = 0 \<and>
    region_end s' root = PAGE_SIZE \<and> (\<forall>v. virt_to_phys pm v s' = virt_to_phys pm v s) \<and>
    free_pages s' = butlast (butlast (free_pages s))"
  using vma_create_context_contract [OF assms] by (auto simp: region_end_def)

theorem vma_create_context_wf_witness:
  "\<exists>(s :: vmm_state) pm ctx s' root. vma_create_context pm s = (ctx, s') \<and> vma_wf s' pm ctx [root]"
proof -
  obtain s :: vmm_state where s: "pagemap_wf s (kernel_pagemap s)" "length (free_pages s) = 14"
    "\<forall>f \<in> set (free_pages s). HIGHER_HALF s f \<noteq> NULL" "kernel_pagemap s \<noteq> NULL" using boot_pagemap by blast
  have "2 \<le> length (free_pages s)" using s(2) by simp
  from vma_create_context_wf [OF s(1,4) this s(3) refl refl] show ?thesis by blast
qed



lemma vma_alloc_use_free:
  fixes s :: "'a vmm_state_scheme"
  assumes wf: "vma_wf s pm ctx (root # rs)"
    and place: "rs = [] \<and> a = root \<or> find (vma_gap_after s sz) rs = Some a" and fl: "flags_ok flags"
    and n: "n = unat (ALIGN_UP sz PAGE_SIZE div PAGE_SIZE)" and sz: "unat sz \<le> 2 ^ 36"
    and room: "4 * n + 1 \<le> length (free_pages s)" and nn: "HIGHER_HALF s (last (free_pages s)) \<noteq> NULL"
    and fresh: "\<forall>b \<in> set (root # rs). region_start s b \<noteq> region_end s a"
    and empty: "\<forall>k. n \<le> k \<and> k < unat sz \<longrightarrow> virt_to_phys pm (region_end s a + of_nat k * PAGE_SIZE) s = 0"
  shows "\<exists>s' fs. vma_alloc ctx sz flags s = Some (region_end s a, s') \<and> length fs = n \<and> pagemap_wf s' pm \<and>
    hhdm_offset s' = hhdm_offset s \<and> 0 \<notin> set fs \<and> length (free_pages s) \<le> 4 * n + 1 + length (free_pages s') \<and>
    (\<forall>k<n. virt_to_phys pm (region_end s a + of_nat k * 4096) s' = fs ! k \<and> held s' pm (HIGHER_HALF s' (fs ! k))) \<and>
    (\<forall>s''. same_space pm s' s'' \<and> (\<forall>x. (\<forall>f \<in> set fs. \<not> in_range (HIGHER_HALF s' f) 4096 x) \<longrightarrow> mem s'' x = mem s' x) \<longrightarrow>
       (\<exists>t. vma_free ctx (region_end s a) s'' = Some t \<and> vma_wf t pm ctx (root # rs) \<and>
          (\<forall>w. virt_to_phys pm w t =
             (if \<exists>k<unat sz. same_page (region_end s a + of_nat k * 4096) w then 0 else virt_to_phys pm w s)) \<and>
          (\<forall>b \<in> set (root # rs). region_start t b = region_start s b \<and> region_size t b = region_size s b) \<and>
          hhdm_offset t = hhdm_offset s \<and> length (free_pages t) = length (free_pages s') + n + 1 \<and>
          set (free_pages t) \<subseteq> set (free_pages s) \<and> stack_area t = stack_area s \<and>
          (\<forall>x. untouched s pm x \<and> \<not> stack_area s x \<and> (\<forall>b \<in> set (root # rs). \<not> in_range b 4096 x) \<longrightarrow>
             untouched t pm x \<and> mem t x = mem s x)))"
proof -
  let ?v = "region_end s a" and ?p = "last (free_pages s)"
  have k: "n \<le> unat sz" using page_count_le [OF sz] n by simp
  then have n36: "n \<le> 2 ^ 36" using sz by simp
  obtain s' fs as bs where s': "root # rs = as @ a # bs" "vma_alloc ctx sz flags s = Some (?v, s')"
    "vma_wf s' pm ctx (as @ a # HIGHER_HALF s ?p # bs)" "region_start s' (HIGHER_HALF s ?p) = ?v"
    "region_size s' (HIGHER_HALF s ?p) = sz" "region_prev s' (HIGHER_HALF s ?p) = a"
    "\<forall>b \<in> set (root # rs). region_start s' b = region_start s b \<and> region_size s' b = region_size s b"
    "mapped_to pm ?v 0 n fs s s'" "distinct fs" "set fs \<subseteq> set (butlast (free_pages s)) - set (free_pages s')"
    "\<forall>f \<in> set fs. held s' pm (HIGHER_HALF s f) \<and> HIGHER_HALF s f \<notin> set (ctx # as @ a # HIGHER_HALF s ?p # bs)"
    "set (free_pages s') \<subseteq> set (butlast (free_pages s))" "stack_area s' = stack_area s" "hhdm_offset s' = hhdm_offset s"
    "stack_max s' = stack_max s" "length (free_pages s) \<le> 4 * n + 1 + length (free_pages s')"
    "\<forall>x. untouched s pm x \<and> \<not> in_range a 4096 x \<longrightarrow> untouched s' pm x \<and> mem s' x = mem s x"
    using vma_alloc_contract [OF wf place fl n n36 room refl nn] by blast
  have ne: "free_pages s \<noteq> []" using room by (auto simp del: length_free_pages)
  let ?nw = "HIGHER_HALF s ?p"
  have wfs: "pagemap_wf s pm" "pagemap_wf s' pm" "held s' pm ?nw" using wf s'(3) by (simp_all add: vma_wf_def)
  then have "?p \<notin> set (butlast (free_pages s))" using ne by (intro last_free_not_butlast) (simp add: pagemap_wf_def)
  then have sub: "set (fs @ [?p]) \<subseteq> set (free_pages s) - set (free_pages s')" "distinct (fs @ [?p])"
    using s'(9,10,12) ne by (auto dest: in_set_butlastD)
  have sub': "set (free_pages s') \<subseteq> set (free_pages s)" using s'(12) by (auto dest: in_set_butlastD)
  have HH: "HIGHER_HALF s' = HIGHER_HALF s" "PHYSICAL s' ?nw = ?p"
    using s'(14) by (simp_all add: HIGHER_HALF_def PHYSICAL_def fun_eq_iff)
  have "\<forall>f \<in> set (fs @ [?p]). held s' pm (HIGHER_HALF s f)" using s'(11) wfs(3) by simp
  from frames_held_taken [OF wfs(1,2) sub(2,1) sub' this s'(13-15)]
  have fh: "frames_held pm (fs @ [?p]) s'" and ok: "\<forall>f \<in> set (fs @ [?p]). entry_addr f = f" and "0 \<notin> set fs"
    by simp_all
  have fs: "area_frames pm ?v 0 (unat sz) s' = fs" using area_frames_mapped_part [OF s'(8) k sz _ \<open>0 \<notin> set fs\<close>] empty by simp
  have len: "length fs = n" using s'(8) by (simp add: mapped_to_def)
  have sub2: "set (free_pages s' @ fs @ [?p]) \<subseteq> set (free_pages s)" using sub(1) sub' by auto
  have "\<exists>t. vma_free ctx ?v s'' = Some t \<and> vma_wf t pm ctx (root # rs) \<and>
      (\<forall>w. virt_to_phys pm w t = (if \<exists>k<unat sz. same_page (?v + of_nat k * 4096) w then 0 else virt_to_phys pm w s)) \<and>
      (\<forall>b \<in> set (root # rs). region_start t b = region_start s b \<and> region_size t b = region_size s b) \<and>
      hhdm_offset t = hhdm_offset s \<and> length (free_pages t) = length (free_pages s') + n + 1 \<and> set (free_pages t) \<subseteq> set (free_pages s) \<and>
      stack_area t = stack_area s \<and>
      (\<forall>x. untouched s pm x \<and> \<not> stack_area s x \<and> (\<forall>b \<in> set (root # rs). \<not> in_range b 4096 x) \<longrightarrow> untouched t pm x \<and> mem t x = mem s x)"
    if sp: "same_space pm s' s''" and out: "\<forall>x. (\<forall>f \<in> set fs. \<not> in_range (HIGHER_HALF s' f) 4096 x) \<longrightarrow> mem s'' x = mem s' x" for s''
  proof -
    note fh'' = same_space_frames_held [OF sp fh]
    have HH'': "HIGHER_HALF s'' = HIGHER_HALF s" "PHYSICAL s'' ?nw = ?p" using fh''(2,3) HH by simp_all
    have hf: "\<forall>f \<in> set fs. held s' pm (HIGHER_HALF s' f) \<and> HIGHER_HALF s' f \<notin> set (ctx # as @ a # ?nw # bs)" using s'(11) HH(1) by simp
    have "spares (set fs) pm s' s''" using sp out by (auto simp: spares_def same_space_def)
    note wf'' = vma_wf_spares [OF s'(3) this hf]
    have fld: "region_start s'' b = region_start s' b" "region_size s'' b = region_size s' b" "region_prev s'' b = region_prev s' b"
      if "b \<in> set (as @ a # ?nw # bs)" for b using that wf''(2) [of b] by (simp_all add: region_fields)
    have v'': "virt_to_phys pm w s'' = virt_to_phys pm w s'" "free_pages s'' = free_pages s'" "hhdm_offset s'' = hhdm_offset s'" for w
      using sp by (simp_all add: same_space_def)
    have fs'': "fs = area_frames pm ?v 0 (unat sz) s''" using fs v''(1) by (simp add: area_frames_def)
    have nb: "region_start s'' b = region_start s b" "region_size s'' b = region_size s b" if "b \<in> set (as @ a # bs)" for b
      using that fld(1,2) [of b] s'(1,7) by auto
    have find: "find (\<lambda>r. region_start s'' r = ?v) (as @ a # ?nw # bs) = Some ?nw"
      using find_new_region [of as a bs "region_start s''" ?v ?nw] nb(1) fld(1) [of ?nw] s'(1,4) fresh by auto
    obtain t where t: "vma_free ctx ?v s'' = Some t" "vma_wf t pm ctx (as @ a # bs)"
      "free_pages t = free_pages s'' @ fs @ [?p]" "\<forall>w. virt_to_phys pm w t =
         (if \<exists>k<unat sz. same_page (?v + of_nat k * 4096) w then 0 else virt_to_phys pm w s'')"
      "\<forall>b \<in> set (as @ a # bs). region_start t b = region_start s'' b \<and> region_size t b = region_size s'' b" "hhdm_offset t = hhdm_offset s''"
      "stack_area t = stack_area s''"
      "\<forall>x. untouched s'' pm x \<and> \<not> stack_area s'' x \<and> (\<forall>b \<in> set (as @ a # ?nw # bs). \<not> in_range b 4096 x) \<and>
         (\<forall>f \<in> set fs. \<not> in_range (HIGHER_HALF s'' f) 4096 x) \<longrightarrow> untouched t pm x \<and> mem t x = mem s'' x"
      using vma_free_contract [of s'' pm ctx as a "[]" ?nw bs ?v "unat sz" fs] wf''(1) fld(2,3) [of ?nw] find sz fs'' fh''(1) HH'' ok s'(5,6,11)
      by auto
    have "virt_to_phys pm w t = (if \<exists>k<unat sz. same_page (?v + of_nat k * 4096) w then 0 else virt_to_phys pm w s)" for w
    proof (cases "\<exists>k<unat sz. same_page (?v + of_nat k * 4096) w")
      case False
      then have "virt_to_phys pm w s' = virt_to_phys pm w s" using s'(8) k by (auto simp: mapped_to_def)
      then show ?thesis using False t(4) v''(1) by auto
    qed (use t(4) in auto)
    moreover have "length (free_pages t) = length (free_pages s') + n + 1" using t(3) v''(2) len by (simp del: length_free_pages)
    moreover have "set (free_pages t) \<subseteq> set (free_pages s)" using t(3) v''(2) sub2 by simp
    moreover have "\<forall>b \<in> set (root # rs). region_start t b = region_start s b \<and> region_size t b = region_size s b"
      using t(5) nb unfolding s'(1) by simp
    moreover have "hhdm_offset t = hhdm_offset s" using t(6) v''(3) s'(14) by simp
    moreover have "stack_area t = stack_area s" using t(7) sp s'(13) by (simp add: same_space_def)
    moreover have "untouched t pm x \<and> mem t x = mem s x"
      if x: "untouched s pm x" "\<not> stack_area s x" "\<forall>b \<in> set (as @ a # bs). \<not> in_range b 4096 x" for x
    proof -
      have fr: "\<not> in_range (HIGHER_HALF s f) 4096 x" if "f \<in> set (fs @ [?p])" for f using that x(1) sub(1) by (auto simp: untouched_def)
      then have fr': "\<forall>f \<in> set fs. \<not> in_range (HIGHER_HALF s'' f) 4096 x" "\<not> in_range ?nw 4096 x" using HH''(1) by simp_all
      have "untouched s' pm x" "mem s' x = mem s x" using s'(17) x(1,3) by simp_all
      moreover have "mem s'' x = mem s' x" using out fr HH(1) by simp
      ultimately show ?thesis using t(8) x(2,3) fr' sp s'(13) by (simp add: same_space_def)
    qed
    ultimately show ?thesis using t(1,2) unfolding s'(1) by blast
  qed
  moreover have "virt_to_phys pm (?v + of_nat k * 4096) s' = fs ! k \<and> held s' pm (HIGHER_HALF s' (fs ! k))" if "k < n" for k
    using that s'(8,11) HH(1) len nth_mem [of k fs] by (auto simp: mapped_to_def)
  ultimately show ?thesis using s'(2,14,16) wfs(2) len \<open>0 \<notin> set fs\<close> by (intro exI [of _ s'] exI [of _ fs]) blast
qed



text \<open>
  C39. The search accepts any hole: when the region after \<open>a\<close> starts \<open>k\<close> pages past the end of \<open>a\<close>
  and \<open>k\<close> is positive but smaller than the number of pages requested, \<open>vma_alloc\<close> still places the
  new region in the hole, and the first page of the following region, which stays in the list,
  is remapped to a frame taken from the pool.
\<close>

theorem vma_alloc_overlaps_next:
  assumes wf: "vma_wf s pm ctx (root # a # c # rs)" and fl: "flags_ok flags"
    and n: "n = unat (ALIGN_UP sz PAGE_SIZE div PAGE_SIZE)" and sz: "sz \<le> 2 ^ 48" and n36: "n \<le> 2 ^ 36"
    and room: "4 * n + 1 \<le> length (free_pages s)" and nn: "HIGHER_HALF s (last (free_pages s)) \<noteq> NULL"
    and hole: "region_start s c = region_end s a + of_nat k * PAGE_SIZE" "0 < k" "k < n"
  shows "\<exists>s' nw. vma_alloc ctx sz flags s = Some (region_end s a, s') \<and> vma_wf s' pm ctx (root # a # nw # c # rs) \<and>
    region_start s' c = region_start s c \<and> virt_to_phys pm (region_start s c) s' \<in> set (free_pages s)"
proof -
  have "region_next s a = c" using wf by (simp add: vma_wf_def)
  moreover have "sz \<le> - (of_nat k * PAGE_SIZE)"
  proof -
    have "unat (of_nat k * PAGE_SIZE :: u64) = k * 4096" using hole(3) n36 by (simp add: unat_word_ariths)
    then have "of_nat k * PAGE_SIZE \<noteq> (0 :: u64)" "unat (of_nat k * PAGE_SIZE :: u64) \<le> 2 ^ 48"
      using hole(2,3) n36 by (auto simp: word_unat_eq_iff)
    moreover have "unat (- x) = 2 ^ 64 - unat x" if "x \<noteq> 0" for x :: u64
      using that unat_sub_if' [of 0 x] by (simp add: unat_eq_zero)
    ultimately show ?thesis using sz by (simp add: word_le_nat_alt)
  qed
  ultimately have "vma_gap_after s sz a" using hole(1) by (simp add: vma_gap_after_def region_end_def)
  then have "find (vma_gap_after s sz) (a # c # rs) = Some a" by simp
  from vma_alloc_contract [OF wf disjI2 [OF this] fl n n36 room refl nn]
  obtain s' fs as bs nw where s': "root # a # c # rs = as @ a # bs" "vma_alloc ctx sz flags s = Some (region_end s a, s')"
    "vma_wf s' pm ctx (as @ a # nw # bs)" "\<forall>b \<in> set (root # a # c # rs). region_start s' b = region_start s b"
    "mapped_to pm (region_end s a) 0 n fs s s'" "set fs \<subseteq> set (butlast (free_pages s))"
    by blast
  have "as = [root] \<and> bs = c # rs"
    using list_split_unique [of "[root]" a "c # rs" as bs] s'(1) wf by (simp add: vma_wf_def)
  moreover have "virt_to_phys pm (region_start s c) s' = fs ! k" "k < length fs"
    using s'(5) hole by (simp_all add: mapped_to_def)
  then have "virt_to_phys pm (region_start s c) s' \<in> set (free_pages s)"
    using s'(6) by (metis in_set_butlastD nth_mem subsetD)
  ultimately show ?thesis using s'(2-4) by (intro exI [of _ s'] exI [of _ nw]) auto
qed

theorem vma_alloc_overlaps_next_witness:
  "\<exists>(s :: vmm_state) pm ctx root a c s' nw. vma_alloc ctx 8192 3 s = Some (0x2000, s') \<and>
     vma_wf s' pm ctx [root, a, nw, c] \<and> region_start s' c = 0x3000 \<and> virt_to_phys pm 0x3000 s' \<in> set (free_pages s)"
proof -
  obtain s :: vmm_state and pm ctx root a c where s: "vma_wf s pm ctx [root, a, c]" "region_end s a = 0x2000"
    "region_start s c = 0x3000" "length (free_pages s) = 10" "\<forall>f \<in> set (free_pages s). HIGHER_HALF s f \<noteq> NULL"
    using boot_vma_hole by blast
  have "free_pages s \<noteq> []" using s(4) by (auto simp del: length_free_pages)
  then have nn: "HIGHER_HALF s (last (free_pages s)) \<noteq> NULL" using s(5) by simp
  have n: "(2 :: nat) = unat (ALIGN_UP 8192 PAGE_SIZE div PAGE_SIZE)" by (simp add: ALIGN_UP_def DIV_ROUND_UP_def)
  have room: "4 * 2 + 1 \<le> length (free_pages s)" using s(4) by simp
  have "region_start s c = region_end s a + of_nat 1 * PAGE_SIZE" using s(2,3) by simp
  from vma_alloc_overlaps_next [OF s(1) flags_ok_3 n _ _ room nn this]
  obtain s' nw where "vma_alloc ctx 8192 3 s = Some (0x2000, s')" "vma_wf s' pm ctx [root, a, nw, c]"
    "region_start s' c = 0x3000" "virt_to_phys pm 0x3000 s' \<in> set (free_pages s)"
    unfolding s(2,3) by auto
  then show ?thesis by blast
qed

text \<open>
  A region inserted in front of another is lost when that one is freed: \<open>vma_alloc\<close> leaves the
  back pointer of the following region \<open>c\<close> at the region in front of the new one, and \<open>vma_free\<close> of
  \<open>c\<close> then unlinks both, although only \<open>c\<close> was freed and the pages of the other stay mapped.
\<close>

theorem vma_free_drops_inserted:
  fixes s :: "'a vmm_state_scheme"
  assumes "vma_wf s pm ctx (as @ a # nw # c # bs)" and "region_prev s c = a"
    and "find (\<lambda>r. region_start s r = ptr) (as @ a # nw # c # bs) = Some c"
    and "n = unat (region_size s c)" and "n \<le> 2 ^ 36" and "fs = area_frames pm ptr 0 n s"
    and "frames_held pm (fs @ [PHYSICAL s c]) s" and "entry_addr (PHYSICAL s c) = PHYSICAL s c"
    and "\<forall>f \<in> set fs. HIGHER_HALF s f \<notin> set (ctx # as @ a # nw # c # bs)"
    and "\<forall>k<n. \<not> same_page (ptr + of_nat k * PAGE_SIZE) v"
  shows "\<exists>s'. vma_free ctx ptr s = Some s' \<and> vma_wf s' pm ctx (as @ a # bs) \<and> nw \<notin> set (as @ a # bs) \<and>
    virt_to_phys pm v s' = virt_to_phys pm v s"
proof -
  have "nw \<notin> set (as @ a # bs)" using assms(1) by (auto simp: vma_wf_def)
  then show ?thesis using vma_free_contract [of s pm ctx as a "[nw]" c bs ptr n fs] assms by auto
qed

theorem vma_free_drops_inserted_witness:
  "\<exists>(s :: vmm_state) pm ctx root a nw c s'. vma_wf s pm ctx [root, a, nw, c] \<and> region_start s nw = 0x2000 \<and>
     virt_to_phys pm 0x2000 s \<noteq> 0 \<and> vma_free ctx 0x3000 s = Some s' \<and> vma_wf s' pm ctx [root, a] \<and>
     virt_to_phys pm 0x2000 s' = virt_to_phys pm 0x2000 s"
proof -
  obtain s :: vmm_state and pm ctx root a c where s: "vma_wf s pm ctx [root, a, c]" "region_end s a = 0x2000"
    "region_start s root = 0" "region_start s a = 0x1000" "region_start s c = 0x3000" "region_size s c = 1"
    "region_prev s c = a" "length (free_pages s) = 10" "\<forall>f \<in> set (free_pages s). HIGHER_HALF s f \<noteq> NULL"
    "\<forall>v. virt_to_phys pm v s = 0" "page_ok s (PHYSICAL s c)" "entry_addr (PHYSICAL s c) = PHYSICAL s c"
    "PHYSICAL s c \<notin> set (free_pages s)"
    using boot_vma_hole by blast
  let ?nw = "HIGHER_HALF s (last (free_pages s))"
  have ne: "free_pages s \<noteq> []" using s(8) by (auto simp del: length_free_pages)
  then have nn: "?nw \<noteq> NULL" using s(9) by simp
  have n: "(1 :: nat) = unat (ALIGN_UP 4096 PAGE_SIZE div PAGE_SIZE)" by (simp add: ALIGN_UP_def DIV_ROUND_UP_def)
  have room: "4 * 1 + 1 \<le> length (free_pages s)" using s(8) by simp
  have "region_next s a = c" using s(1) by (simp add: vma_wf_def)
  then have "find (vma_gap_after s 4096) [a, c] = Some a" using s(2,5) by (simp add: vma_gap_after_def region_end_def)
  moreover have "(1 :: nat) \<le> 2 ^ 36" by simp
  ultimately obtain t :: vmm_state and fs as bs where t: "[root, a, c] = as @ a # bs"
    "vma_wf t pm ctx (as @ a # ?nw # bs)" "region_start t ?nw = region_end s a"
    "\<forall>b \<in> set [root, a, c]. region_start t b = region_start s b \<and> region_size t b = region_size s b \<and>
       region_flags t b = region_flags s b \<and> region_prev t b = region_prev s b"
    "mapped_to pm (region_end s a) 0 1 fs s t" "set fs \<subseteq> set (butlast (free_pages s)) - set (free_pages t)"
    "set (free_pages t) \<subseteq> set (butlast (free_pages s))" "stack_area t = stack_area s" "hhdm_offset t = hhdm_offset s"
    "stack_max t = stack_max s"
    using vma_alloc_contract [OF s(1) disjI2 flags_ok_3 n _ room refl nn] by blast
  have "as = [root] \<and> bs = [c]" using list_split_unique [of "[root]" a "[c]" as bs] t(1) s(1) by (simp add: vma_wf_def)
  then have wft: "vma_wf t pm ctx ([root] @ a # ?nw # c # [])" using t(2) by simp
  have P: "PHYSICAL t c = PHYSICAL s c" "page_ok t = page_ok s"
    using t(8,9) by (simp_all add: PHYSICAL_def page_ok_def HIGHER_HALF_def fun_eq_iff)
  have np: "\<not> same_page 0x2000 0x3000" "\<not> same_page 0x3000 0x2000"
    by (simp_all add: same_page_def virt_path_def pml1_idx_def pml2_idx_def pml3_idx_def pml4_idx_def)
  then have z: "virt_to_phys pm 0x3000 t = 0" "virt_to_phys pm 0x2000 t = fs ! 0" "length fs = 1"
    using t(5) s(2,10) by (simp_all add: mapped_to_def)
  have inv: "pmm_inv s" "pmm_inv t" using s(1) wft by (simp_all add: vma_wf_def pagemap_wf_def)
  have "set [last (free_pages s)] \<subseteq> set (free_pages s) - set (free_pages t)"
    using ne t(7) last_free_not_butlast [OF inv(1) ne] by auto
  from pool_room [OF inv _ this] have "length (free_pages t) + 1 \<le> unat (stack_max t)"
    using t(7,10) by (auto simp del: length_free_pages dest: in_set_butlastD)
  moreover have "PHYSICAL s c \<notin> set (free_pages t)" using t(7) s(13) by (auto dest: in_set_butlastD)
  moreover have "held t pm c" using wft by (simp add: vma_wf_def)
  ultimately have fh: "frames_held pm ([] @ [PHYSICAL t c]) t"
    using s(11) P HIGHER_HALF_PHYSICAL [of t c] by (simp add: frames_held_def del: length_free_pages)
  have nil: "[] = area_frames pm 0x3000 0 1 t" using z by (simp add: area_frames_def)
  have pc: "region_prev t c = a" "entry_addr (PHYSICAL t c) = PHYSICAL t c" "1 = unat (region_size t c)"
    "find (\<lambda>r. region_start t r = 0x3000) ([root] @ a # ?nw # c # []) = Some c"
    using t(3,4) s P by simp_all
  have "\<forall>k<1. \<not> same_page (0x3000 + of_nat k * PAGE_SIZE) 0x2000" using np by simp
  then obtain u where u: "vma_free ctx 0x3000 t = Some u" "vma_wf u pm ctx ([root] @ a # [])"
    "virt_to_phys pm 0x2000 u = virt_to_phys pm 0x2000 t"
    using vma_free_drops_inserted [OF wft pc(1,4,3) _ nil fh pc(2)] by auto
  have "fs ! 0 \<in> set fs" using z(3) by simp
  then have "fs ! 0 \<in> set (free_pages s)" using t(6) by (auto dest: in_set_butlastD)
  then have "fs ! 0 \<noteq> 0" using inv(1) by (auto simp: pmm_inv_def page_ok_def)
  then have "vma_wf t pm ctx [root, a, ?nw, c]" "region_start t ?nw = 0x2000" "virt_to_phys pm 0x2000 t \<noteq> 0"
    "vma_wf u pm ctx [root, a]" using wft t(3) s(2) z(2) u(2) by simp_all
  then show ?thesis using u(1,3) by blast
qed

text \<open>
  Destroying a context returns, and gives back the pages of its region structures and of the
  context itself, in this order; the pages that were mapped for the regions are neither
  unmapped nor given back.
\<close>

theorem vma_destroy_context_pages:
  assumes wf: "vma_wf s pm ctx rs" and fh: "frames_held pm (map (PHYSICAL s) (rs @ [ctx])) s"
    and ea: "\<forall>a \<in> set (rs @ [ctx]). entry_addr (PHYSICAL s a) = PHYSICAL s a"
  shows "\<exists>s'. vma_destroy_context ctx s = Some s' \<and> pagemap_wf s' pm \<and>
    free_pages s' = free_pages s @ map (PHYSICAL s) (rs @ [ctx]) \<and>
    (\<forall>v. virt_to_phys pm v s' = virt_to_phys pm v s)"
proof -
  have w: "pagemap_wf s pm" "region_chain s (ctx_root s ctx) rs" using wf by (simp_all add: vma_wf_def)
  have fh': "frames_held pm (map (PHYSICAL s) rs @ [PHYSICAL s ctx]) s" using fh by simp
  obtain t where t: "vma_destroy_regions (ctx_root s ctx) s = Some t" "spares (set (map (PHYSICAL s) rs)) pm s t"
    "free_pages t = free_pages s @ map (PHYSICAL s) rs" "\<forall>v. virt_to_phys pm v t = virt_to_phys pm v s"
    using vma_destroy_regions_contract [OF w fh'] ea by auto
  note fh2 = frames_held_round [OF fh' t(2,3)]
  have P: "PHYSICAL t ctx = PHYSICAL s ctx" using t(2) by (simp add: spares_def PHYSICAL_def)
  have "spares {PHYSICAL s ctx} pm t (pmm_free_page (PHYSICAL s ctx) t)"
    "free_pages (pmm_free_page (PHYSICAL s ctx) t) = free_pages t @ [PHYSICAL s ctx]"
    "\<forall>v. virt_to_phys pm v (pmm_free_page (PHYSICAL s ctx) t) = virt_to_phys pm v t"
    using free_frame_spares [of t pm "PHYSICAL s ctx"] fh2 t(2) ea
    by (simp_all add: frames_held_def spares_def del: length_free_pages)
  then show ?thesis using t P by (simp add: vma_destroy_context_def spares_def)
qed

theorem vma_destroy_context_pages_witness:
  "\<exists>(s :: vmm_state) pm ctx s'. vma_destroy_context ctx s = Some s' \<and>
     length (free_pages s') = length (free_pages s) + 2"
proof -
  obtain s :: vmm_state where s: "pagemap_wf s (kernel_pagemap s)" "length (free_pages s) = 14"
    "\<forall>f \<in> set (free_pages s). HIGHER_HALF s f \<noteq> NULL" "kernel_pagemap s \<noteq> NULL" using boot_pagemap by blast
  let ?fs = "free_pages s" and ?pm = "kernel_pagemap s"
  let ?ctx = "HIGHER_HALF s (last ?fs)" and ?root = "HIGHER_HALF s (last (butlast ?fs))"
  have "2 \<le> length ?fs" using s(2) by simp
  from vma_create_context_contract [OF s(1,4) this s(3) refl refl]
  obtain t :: vmm_state where t: "vma_wf t ?pm ?ctx [?root]" "free_pages t = butlast (butlast ?fs)" "stack_area t = stack_area s"
    "hhdm_offset t = hhdm_offset s" "stack_max t = stack_max s" by blast
  obtain gs x y where fs: "?fs = gs @ [x, y]"
    using s(2) by (cases ?fs rule: rev_cases; cases "butlast ?fs" rule: rev_cases) (auto simp del: length_free_pages)
  have wft: "pagemap_wf t ?pm" "held t ?pm ?ctx" "held t ?pm ?root" using t(1) by (simp_all add: vma_wf_def)
  have "distinct (gs @ [x, y])" using pagemap_wf_pmm(1) [OF s(1)] by (simp add: pmm_inv_def fs [symmetric])
  then have "distinct [x, y]" "set [x, y] \<subseteq> set ?fs - set (free_pages t)" "set (free_pages t) \<subseteq> set ?fs"
    using t(2) by (auto simp: fs butlast_append)
  moreover have "\<forall>f \<in> set [x, y]. held t ?pm (HIGHER_HALF s f)" using wft by (simp add: fs butlast_append)
  ultimately have "frames_held ?pm [x, y] t" "\<forall>f \<in> set [x, y]. entry_addr f = f"
    using frames_held_taken(1,2) [OF s(1) wft(1), of "[x, y]"] t(3-5) by blast+
  moreover have P: "PHYSICAL t ?root = x" "PHYSICAL t ?ctx = y"
    using t(4) by (simp_all add: PHYSICAL_def HIGHER_HALF_def fs butlast_append)
  ultimately have "frames_held ?pm (map (PHYSICAL t) ([?root] @ [?ctx])) t"
    "\<forall>a \<in> set ([?root] @ [?ctx]). entry_addr (PHYSICAL t a) = PHYSICAL t a" by simp_all
  from vma_destroy_context_pages [OF t(1) this] show ?thesis by (fastforce simp del: length_free_pages)
qed

end
