(* ===== verification/SelfTest.thy ===== *)
theory SelfTest
  imports Vma
begin

text \<open>
  The self tests that the kernel runs while it starts, \<open>test_pmm\<close> and \<open>test_vmm\<close> of \<^verbatim>\<open>kernel/src/main.c\<close>. The first writes to
  pages through the direct map, where an address of the kernel is an address of the memory of the model; the second writes to an
  address of the lower half, which the processor translates with the page map in \<open>cr3\<close>.
\<close>

unbundle bit_operations_syntax

section \<open>Definitions\<close>

primrec test_pmm :: "nat \<Rightarrow> 'a pmm_state_scheme \<Rightarrow> int \<times> 'a pmm_state_scheme" where
  "test_pmm 0 s = (0, s)"
| "test_pmm (Suc tests) s =
     (let (page, s) = pmm_request_page s;
          a = HIGHER_HALF s page
      in if a = NULL then (1, s)
         else let s = s\<lparr>mem := store_le 4 (mem s) a (69 :: u32)\<rparr>
         in if load32 (mem s) a \<noteq> 69 \<or> a = NULL then (1, pmm_free_page (PHYSICAL s a) s)
            else test_pmm tests (pmm_free_page (PHYSICAL s a) s))"

text \<open>The place in memory that the processor accesses for an address, None for a page fault, which the kernel does not survive.\<close>

definition virtual_addr :: "u64 \<Rightarrow> 'a vmm_state_scheme \<Rightarrow> u64 option" where
  "virtual_addr a s =
     (let frame = virt_to_phys (HIGHER_HALF s (cr3 s)) a s
      in if frame = 0 then None else Some (HIGHER_HALF s frame + (a AND 0xFFF)))"

primrec test_vmm :: "nat \<Rightarrow> u64 \<Rightarrow> 'a vmm_state_scheme \<Rightarrow> (int \<times> 'a vmm_state_scheme) option" where
  "test_vmm 0 ctx s = Some (0, s)"
| "test_vmm (Suc tests) ctx s =
     do {
       (a, s) \<leftarrow> vma_alloc ctx 1 (VMM_PRESENT OR VMM_WRITABLE) s;
       if a = NULL then do { s \<leftarrow> vma_destroy_context ctx s; Some (1, s) }
       else do {
         x \<leftarrow> virtual_addr a s;
         let s = s\<lparr>mem := store_le 4 (mem s) x (69 :: u32)\<rparr>;
         x \<leftarrow> virtual_addr a s;
         if load32 (mem s) x \<noteq> 69
         then do { s \<leftarrow> vma_free ctx a s; s \<leftarrow> vma_destroy_context ctx s; Some (1, s) }
         else do { s \<leftarrow> vma_free ctx a s; test_vmm tests ctx s }
       }
     }"

section \<open>Pages\<close>

lemma store32_outside: "\<not> in_range a 4 x \<Longrightarrow> store_le 4 m a v x = m x"
  by (simp add: store_le_apply)

lemma in_range_4_page: "in_range a 4 x \<Longrightarrow> in_range a 4096 x"
  by (simp add: in_range_def)

lemma test_pmm_round:
  assumes inv: "pmm_inv s" and ne: "free_pages s \<noteq> []" and a: "a = HIGHER_HALF s (last (free_pages s))" "a \<noteq> NULL"
  shows "\<exists>m. test_pmm (Suc n) s = test_pmm n (s\<lparr>mem := m\<rparr>) \<and> pmm_inv (s\<lparr>mem := m\<rparr>) \<and> free_pages (s\<lparr>mem := m\<rparr>) = free_pages s \<and>
    (\<forall>x. \<not> stack_area s x \<and> \<not> in_range a 4096 x \<longrightarrow> m x = mem s x)"
proof -
  obtain p s1 where r: "pmm_request_page s = (p, s1)" by (cases "pmm_request_page s")
  note c = pmm_request_contract [OF inv ne r]
  have HH: "HIGHER_HALF s1 p = a" using c(1,8) a(1) by (simp add: HIGHER_HALF_def)
  define s2 where "s2 = s1\<lparr>mem := store_le 4 (mem s1) a (69 :: u32)\<rparr>"
  have area: "stack_area s1 = stack_area s" using c(6,7) by (simp add: stack_area_def fun_eq_iff)
  have out: "mem s2 x = mem s1 x" if "stack_area s1 x" for x
  proof -
    have "\<not> in_range a 4096 x" using that c(1,4) a(1) area by (auto simp: page_ok_def)
    then have "\<not> in_range a 4 x" using in_range_4_page by blast
    then show ?thesis by (simp add: s2_def store32_outside)
  qed
  have fr2: "free_pages s2 = butlast (free_pages s)" and inv2: "pmm_inv s2"
    using pmm_mem_update [OF c(5), of "mem s2"] out c(2) by (simp_all add: s2_def)
  have ok: "page_ok s2 p" using c(4,6,7,8) by (simp add: s2_def page_ok_def stack_area_def HIGHER_HALF_def)
  have "last (free_pages s) \<notin> set (butlast (free_pages s))"
    using inv ne append_butlast_last_id [OF ne] by (metis distinct_append disjoint_iff list.set_intros(1) pmm_inv_def)
  then have fresh: "p \<notin> set (free_pages s2)" using fr2 c(1) by simp
  have idx: "stack_idx s \<noteq> 0" using ne by (simp add: free_pages_empty)
  have i2: "stack_idx s2 = stack_idx s - 1" "stack_max s2 = stack_max s" "stack_pages s2 = stack_pages s"
    using r idx by (auto simp: s2_def pmm_request_page_def Let_def)
  have room: "stack_idx s2 < stack_max s2"
    using i2 pmm_inv_idx [OF inv] unat_idx_pred [OF idx] idx unat_eq_zero [of "stack_idx s"] by (simp add: word_less_nat_alt)
  note f = pmm_free_contract [OF inv2 ok room]
  have ph: "PHYSICAL s2 a = p" using HH [symmetric] by (simp add: s2_def PHYSICAL_def HIGHER_HALF_def)
  let ?t = "pmm_free_page p s2"
  have "p \<noteq> NULL" using c(4) by (simp add: page_ok_def)
  then have t: "?t = s\<lparr>mem := mem ?t\<rparr>"
    using r idx room by (auto simp: s2_def pmm_free_page_def stack_push_def pmm_request_page_def Let_def)
  have "test_pmm (Suc n) s = test_pmm n ?t" using r HH a(2) ph by (simp add: s2_def Let_def)
  moreover have "mem ?t x = mem s x" if "\<not> stack_area s x" "\<not> in_range a 4096 x" for x
  proof -
    have "\<not> stack_area s2 x" using that i2 by (simp add: stack_area_def)
    then have "mem ?t x = mem s2 x" by (rule f(2))
    also have "\<dots> = mem s1 x" using that(2) in_range_4_page store32_outside by (simp add: s2_def) blast
    also have "\<dots> = mem s x" using that(2) c(1,3) a(1) by (simp add: zero_page_def)
    finally show ?thesis .
  qed
  moreover have "free_pages ?t = free_pages s" using f(1) fr2 c(1) ne by simp
  ultimately show ?thesis using t f(3) [OF fresh] by (intro exI [of _ "mem ?t"]) (metis)
qed

lemma test_pmm_rounds:
  assumes "pmm_inv s" and "free_pages s \<noteq> []" and "a = HIGHER_HALF s (last (free_pages s))" and "a \<noteq> NULL"
  shows "\<exists>m. test_pmm n s = (0, s\<lparr>mem := m\<rparr>) \<and> pmm_inv (s\<lparr>mem := m\<rparr>) \<and> free_pages (s\<lparr>mem := m\<rparr>) = free_pages s \<and>
    (\<forall>x. \<not> stack_area s x \<and> \<not> in_range a 4096 x \<longrightarrow> m x = mem s x)"
  using assms
proof (induction n arbitrary: s)
  case 0
  then show ?case by (intro exI [of _ "mem s"]) simp
next
  case (Suc n)
  obtain m1 where m1: "test_pmm (Suc n) s = test_pmm n (s\<lparr>mem := m1\<rparr>)" "pmm_inv (s\<lparr>mem := m1\<rparr>)" "free_pages (s\<lparr>mem := m1\<rparr>) = free_pages s"
    "\<forall>x. \<not> stack_area s x \<and> \<not> in_range a 4096 x \<longrightarrow> m1 x = mem s x" using test_pmm_round [OF Suc.prems] by blast
  have "a = HIGHER_HALF (s\<lparr>mem := m1\<rparr>) (last (free_pages (s\<lparr>mem := m1\<rparr>)))" using Suc.prems(3) m1(3) by (simp add: HIGHER_HALF_def)
  from Suc.IH [OF m1(2) _ this Suc.prems(4)] m1 Suc.prems(2) show ?case by (auto simp: stack_area_def)
qed

section \<open>What the tests of mappings leave alone\<close>

definition vmm_rest :: "'a vmm_state_scheme \<Rightarrow> u64 \<times> u64 \<times> 'a" where
  "vmm_rest s = (kernel_pagemap s, cr3 s, vmm_state.more s)"

lemma vmm_unmap_rest: "vmm_rest (vmm_unmap pm v s) = vmm_rest s"
  by (simp add: vmm_rest_def vmm_unmap_def Let_def set_entry_def invlpg_def)

lemma pmm_free_rest: "vmm_rest (pmm_free_page p s) = vmm_rest s"
  by (simp add: vmm_rest_def pmm_free_page_def stack_push_def)

lemma vma_release_rest: "vma_release_pages c r i s = Some t \<Longrightarrow> vmm_rest t = vmm_rest s"
proof (erule vma_release_pages.raw_induct [rotated])
  fix f c r i t and s :: "'a vmm_state_scheme"
  assume IH: "\<And>c r i (s :: 'a vmm_state_scheme) t. f c r i s = Some t \<Longrightarrow> vmm_rest t = vmm_rest s"
    and run: "(if i < region_size s r
      then f c r (i + 1) (let virt = region_start s r + i * PAGE_SIZE; s = pmm_free_page (virt_to_phys (ctx_pagemap s c) virt s) s
         in vmm_unmap (ctx_pagemap s c) (region_start s r + i * PAGE_SIZE) s)
      else Some s) = Some t"
  show "vmm_rest t = vmm_rest s"
    using run by (auto simp: vmm_unmap_rest pmm_free_rest Let_def split: if_splits dest!: IH)
qed

lemma vma_free_rest: "vma_free c p s = Some t \<Longrightarrow> vmm_rest t = vmm_rest s"
proof -
  have f: "vmm_rest (set_field a v s) = vmm_rest s" for a v and s :: "'a vmm_state_scheme" by (simp add: vmm_rest_def set_field_def)
  assume "vma_free c p s = Some t"
  then show ?thesis
    by (auto simp: vma_free_def bind_eq_Some_conv Let_def pmm_free_rest f dest!: vma_release_rest split: if_splits)
qed

section \<open>Tests of mappings\<close>

lemma same_page_trans: "same_page u v \<Longrightarrow> same_page u w \<longleftrightarrow> same_page v w"
  by (auto simp: same_page_def)

lemma aligned_offset: "page_aligned a \<Longrightarrow> a AND 0xFFF = 0"
proof -
  assume "page_aligned a"
  then have "take_bit 12 a = 0" by (simp add: page_aligned_def take_bit_eq_mod word_unat_eq_iff unat_mod dvd_imp_mod_0)
  then show ?thesis by (simp add: take_bit_eq_mask mask_eq_exp_minus_1)
qed

definition test_ready :: "u64 \<Rightarrow> u64 \<Rightarrow> u64 \<Rightarrow> u64 \<Rightarrow> 'a vmm_state_scheme \<Rightarrow> bool" where
  "test_ready pm ctx root v s \<longleftrightarrow> vma_wf s pm ctx [root] \<and> cr3 s = PHYSICAL s pm \<and> region_end s root = v \<and> region_start s root \<noteq> v \<and>
     v \<noteq> NULL \<and> page_aligned v \<and> (\<forall>p \<in> set (free_pages s). HIGHER_HALF s p \<noteq> NULL)"

lemma test_vmm_round:
  fixes s :: "'a vmm_state_scheme"
  assumes rdy: "test_ready pm ctx root v s" and room: "5 \<le> length (free_pages s)"
  shows "\<exists>t. test_vmm (Suc n) ctx s = test_vmm n ctx t \<and> test_ready pm ctx root v t \<and> vmm_rest t = vmm_rest s \<and> hhdm_offset t = hhdm_offset s \<and>
    (\<forall>w. virt_to_phys pm w t = (if same_page v w then 0 else virt_to_phys pm w s)) \<and>
    region_start t root = region_start s root \<and> region_size t root = region_size s root \<and>
    set (free_pages t) \<subseteq> set (free_pages s) \<and> length (free_pages s) \<le> length (free_pages t) + 3 \<and> stack_area t = stack_area s \<and>
    (\<forall>x. untouched s pm x \<and> \<not> stack_area s x \<and> \<not> in_range root 4096 x \<longrightarrow> untouched t pm x \<and> mem t x = mem s x)"
proof -
  have r: "vma_wf s pm ctx [root]" "cr3 s = PHYSICAL s pm" "region_end s root = v" "region_start s root \<noteq> v" "v \<noteq> NULL" "page_aligned v"
    "\<forall>p \<in> set (free_pages s). HIGHER_HALF s p \<noteq> NULL" using rdy by (simp_all add: test_ready_def)
  have one: "1 = unat (ALIGN_UP 1 PAGE_SIZE div PAGE_SIZE)" "unat (1 :: u64) \<le> 2 ^ 36" "4 * 1 + 1 \<le> length (free_pages s)"
    using room by (simp_all add: ALIGN_UP_def DIV_ROUND_UP_def)
  have "free_pages s \<noteq> []" using room by (auto simp del: length_free_pages)
  then have nn: "HIGHER_HALF s (last (free_pages s)) \<noteq> NULL" using r(7) by simp
  have fresh: "\<forall>b \<in> set [root]. region_start s b \<noteq> region_end s root" using r(3,4) by simp
  obtain s1 fs where s1: "vma_alloc ctx 1 3 s = Some (v, s1)" "length fs = 1" "pagemap_wf s1 pm" "hhdm_offset s1 = hhdm_offset s" "0 \<notin> set fs"
    "length (free_pages s) \<le> 4 * 1 + 1 + length (free_pages s1)"
    "\<forall>k<1. virt_to_phys pm (v + of_nat k * 4096) s1 = fs ! k \<and> held s1 pm (HIGHER_HALF s1 (fs ! k))"
    and use: "\<And>s''. same_space pm s1 s'' \<Longrightarrow> \<forall>x. (\<forall>f \<in> set fs. \<not> in_range (HIGHER_HALF s1 f) 4096 x) \<longrightarrow> mem s'' x = mem s1 x \<Longrightarrow>
       \<exists>t. vma_free ctx v s'' = Some t \<and> vma_wf t pm ctx [root] \<and>
          (\<forall>w. virt_to_phys pm w t = (if \<exists>k<unat (1 :: u64). same_page (v + of_nat k * 4096) w then 0 else virt_to_phys pm w s)) \<and>
          (\<forall>b \<in> set [root]. region_start t b = region_start s b \<and> region_size t b = region_size s b) \<and>
          hhdm_offset t = hhdm_offset s \<and> length (free_pages t) = length (free_pages s1) + 1 + 1 \<and> set (free_pages t) \<subseteq> set (free_pages s) \<and>
          stack_area t = stack_area s \<and>
          (\<forall>x. untouched s pm x \<and> \<not> stack_area s x \<and> (\<forall>b \<in> set [root]. \<not> in_range b 4096 x) \<longrightarrow> untouched t pm x \<and> mem t x = mem s x)"
    using vma_alloc_use_free [OF r(1) _ flags_ok_3 one nn fresh] r(3) by auto
  obtain f where f: "fs = [f]" using s1(2) by (cases fs) auto
  have fr: "virt_to_phys pm v s1 = f" "held s1 pm (HIGHER_HALF s1 f)" "f \<noteq> 0" using s1(5,7) f by auto
  have more: "pmm_state.more s1 = pmm_state.more s" using vma_alloc_more [OF s1(1)] .
  have rest1: "vmm_rest s1 = vmm_rest s" using more by (cases s, cases s1) (simp add: vmm_rest_def)
  have cr: "HIGHER_HALF s1 (cr3 s1) = pm" using rest1 r(2) s1(4) by (simp add: vmm_rest_def HIGHER_HALF_def PHYSICAL_def)
  have va: "virtual_addr v s1 = Some (HIGHER_HALF s1 f)"
    using fr(1,3) cr aligned_offset [OF r(6)] by (simp add: virtual_addr_def Let_def)
  define s2 where "s2 = s1\<lparr>mem := store_le 4 (mem s1) (HIGHER_HALF s1 f) (69 :: u32)\<rparr>"
  have out: "mem s2 x = mem s1 x" if "\<not> in_range (HIGHER_HALF s1 f) 4096 x" for x
    using that in_range_4_page store32_outside by (simp add: s2_def) blast
  have sp: "same_space pm s1 s2" using s1(3) fr(2) out by (rule held_write) (simp_all add: s2_def)
  have va2: "virtual_addr v s2 = Some (HIGHER_HALF s1 f)"
  proof -
    have "virt_to_phys pm v s2 = f" "HIGHER_HALF s2 = HIGHER_HALF s1" "cr3 s2 = cr3 s1"
      using sp fr(1) by (simp_all add: same_space_def s2_def HIGHER_HALF_def fun_eq_iff)
    then show ?thesis using fr(3) cr aligned_offset [OF r(6)] by (simp add: virtual_addr_def Let_def)
  qed
  obtain t where t: "vma_free ctx v s2 = Some t" "vma_wf t pm ctx [root]"
    "\<forall>w. virt_to_phys pm w t = (if same_page v w then 0 else virt_to_phys pm w s)" "region_start t root = region_start s root" "region_size t root = region_size s root"
    "hhdm_offset t = hhdm_offset s" "length (free_pages t) = length (free_pages s1) + 2" "set (free_pages t) \<subseteq> set (free_pages s)"
    "stack_area t = stack_area s" "\<forall>x. untouched s pm x \<and> \<not> stack_area s x \<and> \<not> in_range root 4096 x \<longrightarrow> untouched t pm x \<and> mem t x = mem s x"
    using use [OF sp] out f by auto
  have rest: "vmm_rest t = vmm_rest s" using vma_free_rest [OF t(1)] rest1 by (simp add: s2_def vmm_rest_def)
  have "test_vmm (Suc n) ctx s = test_vmm n ctx t"
    using s1(1) va va2 r(5) t(1) by (simp add: s2_def)
  moreover have "test_ready pm ctx root v t"
    using r t rest by (auto simp: test_ready_def vmm_rest_def PHYSICAL_def HIGHER_HALF_def region_end_def)
  ultimately show ?thesis using t rest s1(6) by (intro exI [of _ t]) (simp del: length_free_pages)
qed

lemma test_vmm_rounds:
  fixes s :: "'a vmm_state_scheme"
  assumes "test_ready pm ctx root v s" and "3 * n + 2 \<le> length (free_pages s)"
  shows "\<exists>t. test_vmm n ctx s = Some (0, t) \<and> test_ready pm ctx root v t \<and> vmm_rest t = vmm_rest s \<and> hhdm_offset t = hhdm_offset s \<and>
    (\<forall>w. virt_to_phys pm w t = (if 0 < n \<and> same_page v w then 0 else virt_to_phys pm w s)) \<and>
    region_start t root = region_start s root \<and> region_size t root = region_size s root \<and>
    set (free_pages t) \<subseteq> set (free_pages s) \<and> length (free_pages s) \<le> length (free_pages t) + 3 * n \<and> stack_area t = stack_area s \<and>
    (\<forall>x. untouched s pm x \<and> \<not> stack_area s x \<and> \<not> in_range root 4096 x \<longrightarrow> untouched t pm x \<and> mem t x = mem s x)"
  using assms
proof (induction n arbitrary: s)
  case (Suc n)
  from Suc.prems(2) have "5 \<le> length (free_pages s)" by (simp del: length_free_pages)
  from test_vmm_round [OF Suc.prems(1) this, of n] obtain s1 where s1: "test_vmm (Suc n) ctx s = test_vmm n ctx s1" "test_ready pm ctx root v s1"
    "vmm_rest s1 = vmm_rest s" "hhdm_offset s1 = hhdm_offset s" "\<forall>w. virt_to_phys pm w s1 = (if same_page v w then 0 else virt_to_phys pm w s)"
    "region_start s1 root = region_start s root" "region_size s1 root = region_size s root"
    "set (free_pages s1) \<subseteq> set (free_pages s)" "length (free_pages s) \<le> length (free_pages s1) + 3"
    "stack_area s1 = stack_area s" "\<forall>x. untouched s pm x \<and> \<not> stack_area s x \<and> \<not> in_range root 4096 x \<longrightarrow> untouched s1 pm x \<and> mem s1 x = mem s x" by blast
  have "3 * n + 2 \<le> length (free_pages s1)" using s1(9) Suc.prems(2) by (simp del: length_free_pages)
  from Suc.IH [OF s1(2) this] s1 show ?case by (force simp del: length_free_pages)
qed simp

section \<open>Properties\<close>

text \<open>
  The page test passes and leaves the allocator as it was: with a free page, \<open>test_pmm\<close> returns 0, the list of free pages is
  the same afterwards, and only the array of free pages and the page that was tested have been written to.
\<close>

theorem test_pmm_passes:
  assumes "pmm_inv s" and "free_pages s \<noteq> []" and "a = HIGHER_HALF s (last (free_pages s))" and "a \<noteq> NULL"
  shows "\<exists>m. test_pmm n s = (0, s\<lparr>mem := m\<rparr>) \<and> pmm_inv (s\<lparr>mem := m\<rparr>) \<and> free_pages (s\<lparr>mem := m\<rparr>) = free_pages s \<and>
    (\<forall>x. \<not> stack_area s x \<and> \<not> in_range a 4096 x \<longrightarrow> m x = mem s x)"
  using assms by (rule test_pmm_rounds)

theorem test_pmm_passes_witness:
  "\<exists>(s :: pmm_state) m. test_pmm 10 s = (0, s\<lparr>mem := m\<rparr>) \<and> length (free_pages (s\<lparr>mem := m\<rparr>)) = 15"
proof -
  obtain s :: pmm_state where s: "pmm_inv s" "length (free_pages s) = 15" "set (free_pages s) \<subseteq> boot_free" "hhdm_offset s = 0xFFFF800000000000"
    using boot_pool by blast
  have ne: "free_pages s \<noteq> []" using s(2) by (metis list.size(3) zero_neq_numeral)
  then have "last (free_pages s) \<in> boot_free" using s(3) by auto
  then have "HIGHER_HALF s (last (free_pages s)) \<noteq> NULL" using boot_free_entry_addr s(4) by (simp add: HIGHER_HALF_def)
  from test_pmm_passes [OF s(1) ne refl this, of 10] s(2) show ?thesis by (metis (no_types))
qed

text \<open>
  The page test cannot fail for want of memory: the test for NULL comes after the offset of the direct map has been added, so
  when no page is free the test writes to physical page 0 and reports success.
\<close>

theorem test_pmm_blind:
  assumes "stack_idx s = 0" and "hhdm_offset s \<noteq> 0"
  shows "\<exists>m. test_pmm n s = (0, s\<lparr>mem := m\<rparr>) \<and> (0 < n \<longrightarrow> load32 m (hhdm_offset s) = 69)"
proof -
  let ?m = "\<lambda>m. store_le 4 m (hhdm_offset s) (69 :: u32)"
  have step: "test_pmm (Suc k) (s\<lparr>mem := m\<rparr>) = test_pmm k (s\<lparr>mem := ?m m\<rparr>)" for k m
    using assms by (simp add: pmm_request_empty HIGHER_HALF_def PHYSICAL_def pmm_free_page_def)
  have "\<exists>m'. test_pmm k (s\<lparr>mem := ?m m\<rparr>) = (0, s\<lparr>mem := m'\<rparr>) \<and> load32 m' (hhdm_offset s) = 69" for k m
    by (induction k arbitrary: m) (auto simp: step simp del: test_pmm.simps(2))
  then show ?thesis
  proof (cases n)
    case 0
    then show ?thesis by (intro exI [of _ "mem s"]) simp
  next
    case (Suc k)
    then show ?thesis using step [of k "mem s"] \<open>\<And>m k. \<exists>m'. test_pmm k (s\<lparr>mem := ?m m\<rparr>) = (0, s\<lparr>mem := m'\<rparr>) \<and> load32 m' (hhdm_offset s) = 69\<close> [of k "mem s"] by auto
  qed
qed

theorem test_pmm_blind_witness:
  "\<exists>m. test_pmm 10 (boot_pmm ()) = (0, (boot_pmm ())\<lparr>mem := m\<rparr>) \<and> load32 m 0xFFFF800000000000 = 69"
  using test_pmm_blind [of "boot_pmm ()" 10] by (simp add: boot_pmm_def)

text \<open>
  The test of mappings passes: in a context with nothing but its first region, with enough free pages, \<open>test_vmm\<close> returns 0;
  each time the word written through the new mapping is read back, the region is released, and the context is as before. At
  most three pages per test stay in use for tables. The address that was tested is not mapped afterwards, even if it was before.
\<close>

theorem test_vmm_passes:
  fixes s :: "'a vmm_state_scheme"
  assumes "test_ready pm ctx root v s" and "3 * n + 2 \<le> length (free_pages s)"
  shows "\<exists>t. test_vmm n ctx s = Some (0, t) \<and> vma_wf t pm ctx [root] \<and>
    (\<forall>w. virt_to_phys pm w t = (if 0 < n \<and> same_page v w then 0 else virt_to_phys pm w s)) \<and>
    region_start t root = region_start s root \<and> region_size t root = region_size s root \<and>
    set (free_pages t) \<subseteq> set (free_pages s) \<and> length (free_pages s) \<le> length (free_pages t) + 3 * n"
  using test_vmm_rounds [OF assms] by (fastforce simp: test_ready_def simp del: length_free_pages)

theorem test_vmm_passes_witness:
  "\<exists>(s :: vmm_state) ctx t pm. test_vmm 3 ctx s = Some (0, t) \<and> virt_to_phys pm 0x1000 t = 0"
proof -
  obtain s :: vmm_state and pm ctx root where s: "vma_wf s pm ctx [root]" "region_end s root = 0x1000"
    "region_start s root = 0" "length (free_pages s) = 12" "\<forall>f \<in> set (free_pages s). HIGHER_HALF s f \<noteq> NULL"
    using boot_vma by blast
  let ?s = "s\<lparr>cr3 := PHYSICAL s pm\<rparr>"
  have same: "mem ?s = mem s" "hhdm_offset ?s = hhdm_offset s" "stack_pages ?s = stack_pages s" "stack_idx ?s = stack_idx s" "stack_max ?s = stack_max s"
    by simp_all
  note w = wf_same [OF same]
  have "keeps pm s ?s" using w s(1) by (simp add: keeps_def vma_wf_def stack_area_def fun_eq_iff)
  then have "vma_wf ?s pm ctx [root]" using vma_wf_keeps(1) [OF s(1)] by blast
  then have "test_ready pm ctx root 0x1000 ?s"
    using s(2,3,5) w(1) by (simp add: test_ready_def region_end_def region_start_def region_size_def PHYSICAL_def HIGHER_HALF_def page_aligned_def)
  moreover have "3 * 3 + 2 \<le> length (free_pages ?s)" using w(1) s(4) by (simp del: length_free_pages)
  ultimately obtain t where t: "test_vmm 3 ctx ?s = Some (0, t)" "\<forall>w. virt_to_phys pm w t = (if same_page 0x1000 w then 0 else virt_to_phys pm w ?s)"
    using test_vmm_passes [of pm ctx root "0x1000" ?s 3] by auto
  have "virt_to_phys pm 0x1000 t = 0" using t(2) by (simp add: same_page_def)
  then show ?thesis using t(1) by blast
qed

end
