(* ===== verification/Elf.thy ===== *)
theory Elf
  imports Vma
begin

text \<open>
  The program loader, \<^verbatim>\<open>kernel/src/proc/elf.c\<close>: an ELF image in memory is checked, and for every
  loadable segment pages are taken, mapped and filled from the image. Headers are read from
  the byte memory at the offsets of the packed C structures, at the moments the code reads them.
  Both loops are partial functions; that they return is part of what is proved.
\<close>

section \<open>Headers\<close>

definition e_magic :: "'a machine_scheme \<Rightarrow> u64 \<Rightarrow> u32" where
  "e_magic s h = load32 (mem s) h"

definition e_class :: "'a machine_scheme \<Rightarrow> u64 \<Rightarrow> u8" where
  "e_class s h = mem s (h + 4)"

definition e_entry :: "'a machine_scheme \<Rightarrow> u64 \<Rightarrow> u64" where
  "e_entry s h = load64 (mem s) (h + 24)"

definition e_phoff :: "'a machine_scheme \<Rightarrow> u64 \<Rightarrow> u64" where
  "e_phoff s h = load64 (mem s) (h + 32)"

definition e_phnum :: "'a machine_scheme \<Rightarrow> u64 \<Rightarrow> u16" where
  "e_phnum s h = load16 (mem s) (h + 56)"

text \<open>\<open>ph[i]\<close> for an array of 56-byte program headers.\<close>

definition ph_at :: "u64 \<Rightarrow> u16 \<Rightarrow> u64" where
  "ph_at ph i = ph + 56 * ucast i"

definition p_type :: "'a machine_scheme \<Rightarrow> u64 \<Rightarrow> u32" where
  "p_type s p = load32 (mem s) p"

definition p_flags :: "'a machine_scheme \<Rightarrow> u64 \<Rightarrow> u32" where
  "p_flags s p = load32 (mem s) (p + 4)"

definition p_offset :: "'a machine_scheme \<Rightarrow> u64 \<Rightarrow> u64" where
  "p_offset s p = load64 (mem s) (p + 8)"

definition p_vaddr :: "'a machine_scheme \<Rightarrow> u64 \<Rightarrow> u64" where
  "p_vaddr s p = load64 (mem s) (p + 16)"

definition p_filesz :: "'a machine_scheme \<Rightarrow> u64 \<Rightarrow> u64" where
  "p_filesz s p = load64 (mem s) (p + 32)"

definition p_memsz :: "'a machine_scheme \<Rightarrow> u64 \<Rightarrow> u64" where
  "p_memsz s p = load64 (mem s) (p + 40)"

abbreviation (input) ELF_MAGIC :: u32 where "ELF_MAGIC \<equiv> 0x464C457F"
abbreviation (input) PT_LOAD :: u32 where "PT_LOAD \<equiv> 1"
abbreviation (input) PF_X :: u32 where "PF_X \<equiv> 1"
abbreviation (input) PF_W :: u32 where "PF_W \<equiv> 2"

section \<open>Loading\<close>

definition segment_flags :: "'a machine_scheme \<Rightarrow> u64 \<Rightarrow> u64" where
  "segment_flags s p =
     (let flags = VMM_PRESENT;
          flags = (if p_flags s p AND PF_W \<noteq> 0 then flags OR VMM_WRITABLE else flags)
      in if p_flags s p AND PF_X = 0 then flags OR VMM_NX else flags)"

text \<open>What is put on the page of a segment that starts \<open>delta\<close> bytes into it.\<close>

definition fill_page ::
  "u64 \<Rightarrow> u64 \<Rightarrow> u64 \<Rightarrow> u64 \<Rightarrow> u64 \<Rightarrow> 'a machine_scheme \<Rightarrow> 'a machine_scheme" where
  "fill_page data p offset delta phys s =
     (let file_offset = offset + delta
      in if file_offset < offset + p_filesz s p
         then let to_copy = (if offset + p_filesz s p < file_offset + PAGE_SIZE
                             then offset + p_filesz s p - file_offset else PAGE_SIZE)
              in s\<lparr>mem := fst (memcpy (mem s) (HIGHER_HALF s phys) (data + file_offset) to_copy)\<rparr>
         else s\<lparr>mem := fst (memset (mem s) (HIGHER_HALF s phys) 0 PAGE_SIZE)\<rparr>)"

definition load_page ::
  "u64 \<Rightarrow> u64 \<Rightarrow> u64 \<Rightarrow> u64 \<Rightarrow> u64 \<Rightarrow> u64 \<Rightarrow> u64 \<Rightarrow> 'a pmm_state_scheme \<Rightarrow> 'a pmm_state_scheme" where
  "load_page data pagemap p offset vaddr_start flags addr s =
     (let (phys, s) = pmm_request_page s;
          s = vmm_map pagemap addr phys flags s
      in fill_page data p offset (addr - vaddr_start) phys s)"

partial_function (option) load_pages ::
  "u64 \<Rightarrow> u64 \<Rightarrow> u64 \<Rightarrow> u64 \<Rightarrow> u64 \<Rightarrow> u64 \<Rightarrow> u64 \<Rightarrow> u64 \<Rightarrow> 'a pmm_state_scheme \<Rightarrow>
   (bool \<times> 'a pmm_state_scheme) option" where
  "load_pages data pagemap p offset vaddr_start vaddr_end flags addr s =
     (if addr < vaddr_end
      then if fst (pmm_request_page s) = 0 then Some (False, snd (pmm_request_page s))
           else load_pages data pagemap p offset vaddr_start vaddr_end flags (addr + PAGE_SIZE)
             (load_page data pagemap p offset vaddr_start flags addr s)
      else Some (True, s))"

definition load_segment ::
  "u64 \<Rightarrow> u64 \<Rightarrow> u64 \<Rightarrow> 'a pmm_state_scheme \<Rightarrow> (bool \<times> 'a pmm_state_scheme) option" where
  "load_segment data pagemap p s =
     (let vaddr_start = ALIGN_DOWN (p_vaddr s p) PAGE_SIZE;
          vaddr_end = ALIGN_UP (p_vaddr s p + p_memsz s p) PAGE_SIZE
      in load_pages data pagemap p (p_offset s p) vaddr_start vaddr_end (segment_flags s p) vaddr_start s)"

partial_function (option) load_segments ::
  "u64 \<Rightarrow> u64 \<Rightarrow> u64 \<Rightarrow> u16 \<Rightarrow> 'a pmm_state_scheme \<Rightarrow> (bool \<times> 'a pmm_state_scheme) option" where
  "load_segments data pagemap ph i s =
     (if i < e_phnum s data
      then if p_type s (ph_at ph i) \<noteq> PT_LOAD then load_segments data pagemap ph (i + 1) s
           else do { (ok, s) \<leftarrow> load_segment data pagemap (ph_at ph i) s;
                     if ok then load_segments data pagemap ph (i + 1) s else Some (False, s) }
      else Some (True, s))"

definition elf_load :: "u64 \<Rightarrow> u64 \<Rightarrow> 'a pmm_state_scheme \<Rightarrow> (u64 \<times> 'a pmm_state_scheme) option" where
  "elf_load data pagemap s =
     (if e_magic s data \<noteq> ELF_MAGIC then Some (0, s)
      else if e_class s data \<noteq> 2 then Some (0, s)
      else do { (ok, s) \<leftarrow> load_segments data pagemap (data + e_phoff s data) 0 s;
                Some (if ok then e_entry s data else 0, s) })"

section \<open>Pages of a segment\<close>

definition seg_start :: "'a machine_scheme \<Rightarrow> u64 \<Rightarrow> u64" where
  "seg_start s p = ALIGN_DOWN (p_vaddr s p) PAGE_SIZE"

definition seg_end :: "'a machine_scheme \<Rightarrow> u64 \<Rightarrow> u64" where
  "seg_end s p = ALIGN_UP (p_vaddr s p + p_memsz s p) PAGE_SIZE"

definition seg_pages :: "'a machine_scheme \<Rightarrow> u64 \<Rightarrow> nat" where
  "seg_pages s p = (unat (seg_end s p) - unat (seg_start s p)) div 4096"

text \<open>The byte at position \<open>k\<close> of a segment: from the file, then zeroes.\<close>

definition seg_byte :: "'a machine_scheme \<Rightarrow> u64 \<Rightarrow> u64 \<Rightarrow> nat \<Rightarrow> u8" where
  "seg_byte s data p k = (if k < unat (p_filesz s p) then mem s (data + p_offset s p + of_nat k) else 0)"

definition frame_holds :: "'a machine_scheme \<Rightarrow> u64 \<Rightarrow> (nat \<Rightarrow> u8) \<Rightarrow> bool" where
  "frame_holds s f g \<longleftrightarrow> (\<forall>j<4096. mem s (HIGHER_HALF s f + of_nat j) = g j)"

text \<open>
  A segment the theorems are about: its header and its bytes in the file lie outside tables and
  free pages, and neither its end in the file nor its end in memory wraps around.
\<close>

definition segment_ok :: "'a pmm_state_scheme \<Rightarrow> u64 \<Rightarrow> u64 \<Rightarrow> u64 \<Rightarrow> bool" where
  "segment_ok s pm data p \<longleftrightarrow> (\<forall>x. in_range p 56 x \<longrightarrow> untouched s pm x) \<and>
     (\<forall>x. in_range (data + p_offset s p) (unat (p_filesz s p)) x \<longrightarrow> untouched s pm x) \<and>
     unat (p_offset s p) + unat (p_filesz s p) + 2 ^ 48 + 4096 < 2 ^ 64 \<and>
     unat (p_vaddr s p) + unat (p_memsz s p) + 4096 < 2 ^ 64 \<and> seg_pages s p \<le> 2 ^ 36"

lemma keeps_mem: "keeps pm s s' \<Longrightarrow> untouched s pm x \<Longrightarrow> mem s' x = mem s x \<and> untouched s' pm x"
  by (simp add: keeps_def)

lemma load64_keeps:
  "keeps pm s s' \<Longrightarrow> (\<And>x. in_range a 8 x \<Longrightarrow> untouched s pm x) \<Longrightarrow> load64 (mem s') a = load64 (mem s) a"
  by (rule load64_cong) (simp add: keeps_mem)

lemma load32_keeps:
  "keeps pm s s' \<Longrightarrow> (\<And>x. in_range a 4 x \<Longrightarrow> untouched s pm x) \<Longrightarrow> load32 (mem s') a = load32 (mem s) a"
  unfolding load32_def by (rule load_le_cong) (simp_all add: keeps_mem)

lemma load16_keeps:
  "keeps pm s s' \<Longrightarrow> (\<And>x. in_range a 2 x \<Longrightarrow> untouched s pm x) \<Longrightarrow> load16 (mem s') a = load16 (mem s) a"
  unfolding load16_def by (rule load_le_cong) (simp_all add: keeps_mem)

lemma segment_keeps:
  assumes k: "keeps pm s s'" and ok: "segment_ok s pm data p"
  shows "p_filesz s' p = p_filesz s p" "p_offset s' p = p_offset s p" "p_vaddr s' p = p_vaddr s p"
    "p_memsz s' p = p_memsz s p" "p_flags s' p = p_flags s p" "p_type s' p = p_type s p"
    "segment_ok s' pm data p" "seg_byte s' data p = seg_byte s data p" "seg_pages s' p = seg_pages s p"
    "seg_start s' p = seg_start s p" "seg_end s' p = seg_end s p" "segment_flags s' p = segment_flags s p"
proof -
  have h: "untouched s pm x" if "in_range (p + c) n x" "unat c + n \<le> 56" for c n x
    using in_range_sub [of c n 56 p x] that ok by (simp add: segment_ok_def)
  show f: "p_filesz s' p = p_filesz s p" "p_offset s' p = p_offset s p" "p_vaddr s' p = p_vaddr s p"
    "p_memsz s' p = p_memsz s p"
    unfolding p_filesz_def p_offset_def p_vaddr_def p_memsz_def
    by (rule load64_keeps [OF k], erule h, simp)+
  show g: "p_flags s' p = p_flags s p" "p_type s' p = p_type s p"
    using load32_keeps [OF k, of "p + 4"] load32_keeps [OF k, of "p + 0"] h [of 4 4] h [of 0 4]
    by (simp_all add: p_flags_def p_type_def)
  show n: "seg_pages s' p = seg_pages s p" "seg_start s' p = seg_start s p" "seg_end s' p = seg_end s p"
    "segment_flags s' p = segment_flags s p"
    by (simp_all add: seg_pages_def seg_start_def seg_end_def segment_flags_def f g)
  show "segment_ok s' pm data p" using ok keeps_mem [OF k] by (simp add: segment_ok_def f n)
  have "mem s' (data + p_offset s p + of_nat i) = mem s (data + p_offset s p + of_nat i)"
    if "i < unat (p_filesz s p)" for i
  proof -
    have "i < 2 ^ 64" using that unat_u64_less [of "p_filesz s p"] by simp
    then have "in_range (data + p_offset s p) (unat (p_filesz s p)) (data + p_offset s p + of_nat i)"
      using that by (intro in_range_offset) simp
    then show ?thesis using ok keeps_mem [OF k] by (simp add: segment_ok_def)
  qed
  then show "seg_byte s' data p = seg_byte s data p" by (simp add: seg_byte_def f fun_eq_iff)
qed

lemma segment_flags_ok: "flags_ok (segment_flags s p)"
  by (simp add: segment_flags_def flags_ok_def entry_present_def entry_addr_def Let_def)

lemma fill_page_contract:
  assumes a: "a = HIGHER_HALF s phys" and d: "d < 2 ^ 48"
    and b: "unat (p_offset s p) + unat (p_filesz s p) + 2 ^ 48 + 4096 < 2 ^ 64"
    and zero: "\<And>x. in_range a 4096 x \<Longrightarrow> mem s x = 0"
    and src: "\<And>x. in_range (data + p_offset s p) (unat (p_filesz s p)) x \<Longrightarrow> \<not> in_range a 4096 x"
    and t: "t = fill_page data p (p_offset s p) (of_nat d) phys s"
  shows "\<not> in_range a 4096 x \<Longrightarrow> mem t x = mem s x" and "frame_holds t phys (\<lambda>j. seg_byte s data p (d + j))"
    and "\<exists>m. t = s\<lparr>mem := m\<rparr>"
proof -
  let ?off = "p_offset s p" and ?fs = "unat (p_filesz s p)"
  show "\<exists>m. t = s\<lparr>mem := m\<rparr>" by (auto simp: t fill_page_def Let_def)
  have u: "unat (?off + of_nat d) = unat ?off + d" "unat (?off + p_filesz s p) = unat ?off + ?fs"
    "unat (?off + of_nat d + 4096) = unat ?off + d + 4096"
    using b d by (simp_all add: unat_word_ariths unat_of_nat)
  define n where "n = min 4096 (?fs - d)"
  define c where "c = (if ?off + p_filesz s p < ?off + of_nat d + 4096 then ?off + p_filesz s p - (?off + of_nat d) else 4096)"
  have t': "t = (if ?off + of_nat d < ?off + p_filesz s p
    then s\<lparr>mem := fst (memcpy (mem s) (HIGHER_HALF s phys) (data + (?off + of_nat d)) c)\<rparr>
    else s\<lparr>mem := fst (memset (mem s) (HIGHER_HALF s phys) 0 4096)\<rparr>)"
    unfolding t fill_page_def Let_def c_def by (rule refl)
  have lt: "?off + of_nat d < ?off + p_filesz s p \<longleftrightarrow> d < ?fs" by (simp add: word_less_nat_alt u)
  have c: "unat c = n" if "d < ?fs"
    using that u b d by (simp add: c_def n_def word_less_nat_alt unat_diff_le word_le_nat_alt)
  have m: "mem t y = (if in_range a n y then mem s (data + ?off + of_nat d + (y - a)) else mem s y)" for y
  proof (cases "d < ?fs")
    case True
    have "disjoint_ranges a n (data + ?off + of_nat d) n"
      unfolding disjoint_ranges_def
    proof (intro allI notI)
      fix z assume z: "in_range a n z \<and> in_range (data + ?off + of_nat d) n z"
      then have "in_range (data + ?off) ?fs z" using True d b by (intro in_range_sub [of "of_nat d" n ?fs]) (auto simp: n_def)
      then show False using z src by (auto simp: in_range_def n_def)
    qed
    moreover have "mem t = memcpy_loop (mem s) a (data + ?off + of_nat d) n"
      using True lt c [OF True] by (simp add: t' a memcpy_def add.assoc)
    moreover have "n \<le> 2 ^ 64" by (simp add: n_def)
    ultimately show ?thesis using memcpy_loop_apply [of n a "data + ?off + of_nat d" "mem s" y] by simp
  next
    case False
    then have "n = 0" by (simp add: n_def)
    moreover have "mem t = zero_page (mem s) a" using False lt by (simp add: t fill_page_def Let_def a memset_zero_page)
    ultimately show ?thesis using zero by (simp add: zero_page_def in_range_def)
  qed
  have sub: "in_range a 4096 y" if "in_range a n y" for y using that by (simp add: in_range_def n_def)
  show "\<not> in_range a 4096 x \<Longrightarrow> mem t x = mem s x" using m sub by auto
  have HH: "HIGHER_HALF t phys = a" by (auto simp: t fill_page_def Let_def HIGHER_HALF_def a)
  show "frame_holds t phys (\<lambda>j. seg_byte s data p (d + j))"
    unfolding frame_holds_def HH
  proof (intro allI impI)
    fix j :: nat assume j: "j < 4096"
    then have "in_range a n (a + of_nat j) \<longleftrightarrow> d + j < ?fs" "in_range a 4096 (a + of_nat j)"
      by (auto simp: in_range_def n_def)
    then show "mem t (a + of_nat j) = seg_byte s data p (d + j)"
      using zero by (simp add: m seg_byte_def add.assoc)
  qed
qed

lemma load_page_round:
  assumes wf: "pagemap_wf s pm" and ok: "segment_ok s pm data p" and fl: "flags_ok flags"
    and room: "4 \<le> length (free_pages s)" and d: "d < 2 ^ 48" and r: "pmm_request_page s = (f, s1)"
    and t: "t = load_page data pm p (p_offset s p) vs flags (vs + of_nat d) s"
  shows "keeps pm s t" and "held t pm (HIGHER_HALF s f)"
    and "virt_to_phys pm w t = (if same_page (vs + of_nat d) w then f else virt_to_phys pm w s)"
    and "length (free_pages s) \<le> 4 + length (free_pages t)"
    and "f \<in> set (free_pages s) - set (free_pages t)" and "f \<noteq> NULL"
    and "frame_holds t f (\<lambda>j. seg_byte s data p (d + j))"
proof -
  let ?a = "HIGHER_HALF s f"
  define s2 where "s2 = vmm_map pm (vs + of_nat d) f flags s1"
  note o = vma_map_round(1-5) [OF wf fl room r, where v = "vs + of_nat d", folded s2_def] vma_map_round(6-8) [OF wf fl room r]
  have ne: "free_pages s \<noteq> []" using room free_pages_nonempty by blast
  note q = keeps_request [OF wf ne r]
  have room1: "3 \<le> length (free_pages s1)" using room q(5) by (simp del: length_free_pages)
  have k12: "keeps pm s1 s2" using keeps_map [OF o(7) fl room1] by (simp add: s2_def)
  note sg = segment_keeps [OF o(1) ok]
  have a: "?a = HIGHER_HALF s2 f" using keeps_HH [OF o(1)] by simp
  have zero: "mem s2 x = 0" if "in_range ?a 4096 x" for x
    using that q(2) keeps_mem [OF k12, of x] pmm_request_contract(3) [OF pagemap_wf_pmm(1) [OF wf] ne r]
    by (simp add: held_def zero_page_def)
  have free: "\<not> in_range ?a 4096 x" if "untouched s pm x" for x using that o(5) by (auto simp: untouched_def)
  have src: "\<not> in_range ?a 4096 x" if "in_range (data + p_offset s2 p) (unat (p_filesz s2 p)) x" for x
    using that ok free by (simp add: segment_ok_def sg)
  have b: "unat (p_offset s2 p) + unat (p_filesz s2 p) + 2 ^ 48 + 4096 < 2 ^ 64" using ok by (simp add: segment_ok_def sg)
  have t2: "t = fill_page data p (p_offset s2 p) (of_nat d) f s2"
    by (simp add: t load_page_def r sg Let_def s2_def [symmetric])
  note fp = fill_page_contract [OF a d b zero src t2]
  obtain m where m: "t = s2\<lparr>mem := m\<rparr>" using fp(3) by blast
  have sp: "same_space pm s2 t"
    using fp(1) o(2) keeps_wf [OF o(1)] by (intro held_write [of s2 pm ?a]) (simp_all add: m)
  show "keeps pm s t" using o(1) sp fp(1) free by (simp add: keeps_def same_space_def)
  show "held t pm ?a" using o(2) same_space_held [OF sp] by simp
  show "virt_to_phys pm w t = (if same_page (vs + of_nat d) w then f else virt_to_phys pm w s)"
    using o(3) sp by (simp add: same_space_def)
  show "length (free_pages s) \<le> 4 + length (free_pages t)" "f \<in> set (free_pages s) - set (free_pages t)"
    using o(4,5) sp by (simp_all add: same_space_def del: length_free_pages)
  show "f \<noteq> NULL" by (rule o(6))
  show "frame_holds t f (\<lambda>j. seg_byte s data p (d + j))" using fp(2) by (simp add: sg)
qed

lemma frame_holds_keeps:
  assumes "keeps pm s t" and "held s pm (HIGHER_HALF s f)" and "frame_holds s f g"
  shows "frame_holds t f g"
proof -
  have "in_range (HIGHER_HALF s f) 4096 (HIGHER_HALF s f + of_nat j)" if "j < 4096" for j
    using that by (intro in_range_offset) simp
  then show ?thesis
    using assms(2,3) keeps_mem [OF assms(1)] keeps_HH [OF assms(1)] by (simp add: frame_holds_def held_def)
qed

definition loaded :: "u64 \<Rightarrow> nat \<Rightarrow> nat \<Rightarrow> u64 list \<Rightarrow> (nat \<Rightarrow> u8) \<Rightarrow> 'a pmm_state_scheme \<Rightarrow> 'a pmm_state_scheme \<Rightarrow> bool" where
  "loaded pm i n fs g s s' \<longleftrightarrow> distinct fs \<and> set fs \<subseteq> set (free_pages s) - set (free_pages s') \<and>
     (\<forall>f \<in> set fs. held s' pm (HIGHER_HALF s f)) \<and>
     (\<forall>k. i \<le> k \<longrightarrow> k < n \<longrightarrow> frame_holds s' (fs ! (k - i)) (\<lambda>j. g (k * 4096 + j)))"

lemma load_pages_contract:
  assumes "pagemap_wf s pm" "segment_ok s pm data p" "flags_ok flags"
    and "unat vs + n * 4096 < 2 ^ 64" "n \<le> 2 ^ 36" "ve = vs + of_nat n * 4096" "off = p_offset s p"
    and "g = seg_byte s data p" "i \<le> n" "4 * (n - i) \<le> length (free_pages s)"
  shows "\<exists>s' fs. load_pages data pm p off vs ve flags (vs + of_nat i * 4096) s = Some (True, s') \<and> keeps pm s s' \<and>
    mapped_to pm vs i n fs s s' \<and> loaded pm i n fs g s s' \<and> length (free_pages s) \<le> 4 * (n - i) + length (free_pages s')"
  using assms
proof (induction "n - i" arbitrary: i s)
  case 0
  then have "load_pages data pm p off vs ve flags (vs + of_nat i * 4096) s = Some (True, s)"
    by (subst load_pages.simps) simp
  with 0 show ?case
    by (intro exI [of _ s] exI [of _ "[]"]) (simp add: mapped_to_def keeps_refl loaded_def)
next
  case (Suc d)
  have i: "i < n" using Suc.hyps(2) by simp
  obtain f s1 where r: "pmm_request_page s = (f, s1)" by (cases "pmm_request_page s")
  have room: "4 \<le> length (free_pages s)" using Suc.hyps(2) Suc.prems(10) by linarith
  have d: "i * 4096 < 2 ^ 48" using i Suc.prems(5) by simp
  define t where "t = load_page data pm p (p_offset s p) vs flags (vs + of_nat (i * 4096)) s"
  note o = load_page_round(1,2) [OF Suc.prems(1-3) room d r t_def] load_page_round(3-7) [OF Suc.prems(1-3) room d r t_def]
  note sg = segment_keeps [OF o(1) Suc.prems(2)]
  have "(vs + of_nat i * 4096 :: u64) < ve"
  proof -
    have "unat (vs + of_nat k * 4096) = unat vs + k * 4096" if "k \<le> n" for k
    proof -
      have "unat (of_nat k * 4096 :: u64) = k * 4096" using that Suc.prems(4) by (subst unat_word_ariths) (simp add: unat_of_nat)
      then show ?thesis using that Suc.prems(4) by (subst unat_add_no_wrap) simp_all
    qed
    then show ?thesis using i Suc.prems(6) by (simp add: word_less_nat_alt)
  qed
  then have step: "load_pages data pm p off vs ve flags (vs + of_nat i * 4096) s =
    load_pages data pm p off vs ve flags (vs + of_nat (Suc i) * 4096) t"
    using o(6) Suc.prems(7) by (subst load_pages.simps) (simp add: r t_def algebra_simps)
  have "\<exists>s' fs. load_pages data pm p off vs ve flags (vs + of_nat (Suc i) * 4096) t = Some (True, s') \<and> keeps pm t s' \<and>
    mapped_to pm vs (Suc i) n fs t s' \<and> loaded pm (Suc i) n fs g t s' \<and>
    length (free_pages t) \<le> 4 * (n - Suc i) + length (free_pages s')"
    using Suc.hyps(2) Suc.prems o(4) keeps_wf [OF o(1)] sg
    by (intro Suc.hyps(1)) (simp_all del: length_free_pages)
  then obtain s' fs where s': "load_pages data pm p off vs ve flags (vs + of_nat (Suc i) * 4096) t = Some (True, s')"
    "keeps pm t s'" "mapped_to pm vs (Suc i) n fs t s'" "loaded pm (Suc i) n fs g t s'"
    "length (free_pages t) \<le> 4 * (n - Suc i) + length (free_pages s')" by blast
  have "mapped_to pm vs i n (f # fs) s s'"
    using mapped_to_Cons [OF s'(3) i Suc.prems(5)] o(3) by simp
  moreover have "loaded pm i n (f # fs) g s s'"
  proof -
    have HH: "HIGHER_HALF t = HIGHER_HALF s" using keeps_HH [OF o(1)] .
    have "frame_holds s' f (\<lambda>j. g (i * 4096 + j))"
      using frame_holds_keeps [OF s'(2) _ o(7)] o(2) HH Suc.prems(8) by simp
    moreover have "(f # fs) ! (k - i) = (if k = i then f else fs ! (k - Suc i))" if "i \<le> k" for k
      using that by (cases "k = i") (simp_all add: nth_Cons')
    ultimately show ?thesis
      using s'(2,4) o(1,2,5) keeps_held [OF s'(2) o(2)] HH by (auto simp: loaded_def keeps_def)
  qed
  moreover have "length (free_pages s) \<le> 4 * (n - i) + length (free_pages s')"
    using s'(5) o(4) Suc.hyps(2) by linarith
  ultimately show ?case using s'(1) step keeps_trans [OF o(1) s'(2)] by (intro exI [of _ s'] exI [of _ "f # fs"]) simp
qed

section \<open>Segments\<close>

lemma seg_bounds:
  assumes "segment_ok s pm data p"
  shows "seg_end s p = seg_start s p + of_nat (seg_pages s p) * 4096"
    and "unat (seg_start s p) + seg_pages s p * 4096 < 2 ^ 64" and "page_aligned (seg_start s p)"
proof -
  let ?v = "unat (p_vaddr s p)" and ?m = "unat (p_memsz s p)"
  have b: "?v + ?m + 4096 < 2 ^ 64" using assms by (simp add: segment_ok_def)
  have st: "unat (seg_start s p) = ?v div 4096 * 4096"
    using b by (simp add: seg_start_def ALIGN_DOWN_def unat_word_ariths unat_div)
  have "unat (p_vaddr s p + p_memsz s p + 4095) = ?v + ?m + 4095" using b by (simp add: unat_word_ariths)
  then have en: "unat (seg_end s p) = (?v + ?m + 4095) div 4096 * 4096"
    using b by (simp add: seg_end_def ALIGN_UP_def DIV_ROUND_UP_def unat_word_ariths unat_div)
  have le: "?v div 4096 \<le> (?v + ?m + 4095) div 4096" by (rule div_le_mono) simp
  have n: "seg_pages s p = (?v + ?m + 4095) div 4096 - ?v div 4096"
    by (simp add: seg_pages_def st en flip: diff_mult_distrib)
  show "page_aligned (seg_start s p)" by (simp add: page_aligned_def st)
  have sum: "?v div 4096 * 4096 + seg_pages s p * 4096 = (?v + ?m + 4095) div 4096 * 4096"
    using le by (simp add: n flip: add_mult_distrib)
  moreover have "(?v + ?m + 4095) div 4096 * 4096 \<le> ?v + ?m + 4095" by simp
  ultimately show lt: "unat (seg_start s p) + seg_pages s p * 4096 < 2 ^ 64" using b st by linarith
  have "unat (of_nat (seg_pages s p) * 4096 :: u64) = seg_pages s p * 4096"
    using lt by (subst unat_word_ariths) (simp add: unat_of_nat)
  then have "unat (seg_start s p + of_nat (seg_pages s p) * 4096) = unat (seg_end s p)"
    using lt st en sum by (subst unat_add_no_wrap) simp_all
  then show "seg_end s p = seg_start s p + of_nat (seg_pages s p) * 4096" by (simp add: word_unat_eq_iff)
qed

lemma load_segment_contract:
  assumes wf: "pagemap_wf s pm" and ok: "segment_ok s pm data p" and n: "n = seg_pages s p"
    and room: "4 * n \<le> length (free_pages s)"
  shows "\<exists>s' fs. load_segment data pm p s = Some (True, s') \<and> keeps pm s s' \<and> mapped_to pm (seg_start s p) 0 n fs s s' \<and>
    loaded pm 0 n fs (seg_byte s data p) s s' \<and> length (free_pages s) \<le> 4 * n + length (free_pages s')"
proof -
  have "n \<le> 2 ^ 36" "4 * (n - 0) \<le> length (free_pages s)" using ok n room by (simp_all add: segment_ok_def)
  from load_pages_contract [OF wf ok segment_flags_ok [of s p] _ this(1) _ refl refl _ this(2), of "seg_start s p" "seg_end s p"]
  show ?thesis using seg_bounds [OF ok] n by (simp add: load_segment_def seg_start_def [symmetric] seg_end_def [symmetric] Let_def)
qed

text \<open>
  A segment is loaded when each of its pages translates to a frame that was free at the start,
  is now held, and holds the bytes of the segment.
\<close>

definition seg_loaded :: "'a pmm_state_scheme \<Rightarrow> 'a pmm_state_scheme \<Rightarrow> u64 \<Rightarrow> u64 \<Rightarrow> u64 \<Rightarrow> bool" where
  "seg_loaded s s' pm data p \<longleftrightarrow> (\<forall>k < seg_pages s p.
     let f = virt_to_phys pm (seg_start s p + of_nat k * 4096) s'
     in f \<in> set (free_pages s) - set (free_pages s') \<and> held s' pm (HIGHER_HALF s f) \<and>
        frame_holds s' f (\<lambda>j. seg_byte s data p (k * 4096 + j)))"

definition seg_covers :: "'a machine_scheme \<Rightarrow> u64 \<Rightarrow> u64 \<Rightarrow> bool" where
  "seg_covers s p w \<longleftrightarrow> (\<exists>k < seg_pages s p. same_page (seg_start s p + of_nat k * 4096) w)"

definition segs_apart :: "'a machine_scheme \<Rightarrow> u64 \<Rightarrow> u64 \<Rightarrow> bool" where
  "segs_apart s p q \<longleftrightarrow> (\<forall>k < seg_pages s p. \<not> seg_covers s q (seg_start s p + of_nat k * 4096))"

lemma seg_loaded_first:
  assumes m: "mapped_to pm (seg_start s p) 0 (seg_pages s p) fs s t"
    and l: "loaded pm 0 (seg_pages s p) fs (seg_byte s data p) s t"
  shows "seg_loaded s t pm data p"
proof -
  have "fs ! k \<in> set fs" if "k < seg_pages s p" for k using that m by (simp add: mapped_to_def)
  then have "fs ! k \<in> set (free_pages s) - set (free_pages t)" "held t pm (HIGHER_HALF s (fs ! k))"
    if "k < seg_pages s p" for k using that l by (auto simp: loaded_def)
  then show ?thesis using m l by (simp add: seg_loaded_def mapped_to_def loaded_def Let_def)
qed

lemma seg_loaded_later:
  assumes l: "seg_loaded s t pm data p" and k: "keeps pm s t" "keeps pm t s'"
    and same: "\<And>k. k < seg_pages s p \<Longrightarrow>
      virt_to_phys pm (seg_start s p + of_nat k * 4096) s' = virt_to_phys pm (seg_start s p + of_nat k * 4096) t"
  shows "seg_loaded s s' pm data p"
  unfolding seg_loaded_def Let_def
proof (intro allI impI)
  fix i assume i: "i < seg_pages s p"
  let ?f = "virt_to_phys pm (seg_start s p + of_nat i * 4096) t"
  have f: "?f \<in> set (free_pages s) - set (free_pages t)" "held t pm (HIGHER_HALF s ?f)"
    "frame_holds t ?f (\<lambda>j. seg_byte s data p (i * 4096 + j))"
    using l i by (simp_all add: seg_loaded_def Let_def)
  have "held t pm (HIGHER_HALF t ?f)" using f(2) keeps_HH [OF k(1)] by simp
  from frame_holds_keeps [OF k(2) this f(3)] f(1) keeps_held [OF k(2) f(2)] k(2)
  show "virt_to_phys pm (seg_start s p + of_nat i * 4096) s' \<in> set (free_pages s) - set (free_pages s') \<and>
    held s' pm (HIGHER_HALF s (virt_to_phys pm (seg_start s p + of_nat i * 4096) s')) \<and>
    frame_holds s' (virt_to_phys pm (seg_start s p + of_nat i * 4096) s') (\<lambda>j. seg_byte s data p (i * 4096 + j))"
    by (auto simp: same [OF i] keeps_def)
qed

lemma seg_loaded_base:
  assumes k: "keeps pm s t" and ok: "segment_ok s pm data p" and l: "seg_loaded t s' pm data p"
  shows "seg_loaded s s' pm data p"
  using l segment_keeps [OF k ok] keeps_HH [OF k] k by (auto simp: seg_loaded_def Let_def keeps_def)

text \<open>The program headers from number \<open>i\<close> on, and the pages they need.\<close>

definition load_header :: "'a machine_scheme \<Rightarrow> u64 \<Rightarrow> nat \<Rightarrow> bool" where
  "load_header s ph i \<longleftrightarrow> p_type s (ph_at ph (of_nat i)) = PT_LOAD"

definition pages_needed :: "'a machine_scheme \<Rightarrow> u64 \<Rightarrow> nat \<Rightarrow> nat \<Rightarrow> nat" where
  "pages_needed s ph i n = sum_list (map (\<lambda>j. if load_header s ph j then seg_pages s (ph_at ph (of_nat j)) else 0) [i..<n])"

definition headers_ok :: "'a pmm_state_scheme \<Rightarrow> u64 \<Rightarrow> u64 \<Rightarrow> u64 \<Rightarrow> nat \<Rightarrow> bool" where
  "headers_ok s pm data ph n \<longleftrightarrow> (\<forall>x. in_range data 64 x \<longrightarrow> untouched s pm x) \<and>
     (\<forall>j<n. (\<forall>x. in_range (ph_at ph (of_nat j)) 4 x \<longrightarrow> untouched s pm x) \<and>
        (load_header s ph j \<longrightarrow> segment_ok s pm data (ph_at ph (of_nat j)))) \<and>
     (\<forall>j<n. \<forall>l<n. load_header s ph j \<longrightarrow> load_header s ph l \<longrightarrow> j \<noteq> l \<longrightarrow>
        segs_apart s (ph_at ph (of_nat j)) (ph_at ph (of_nat l)))"

lemma headers_keeps:
  assumes k: "keeps pm s t" and ok: "headers_ok s pm data ph n"
  shows "e_phnum t data = e_phnum s data" "e_entry t data = e_entry s data"
    and "j < n \<Longrightarrow> load_header t ph j = load_header s ph j" and "headers_ok t pm data ph n"
    and "i \<le> n \<Longrightarrow> pages_needed t ph i n = pages_needed s ph i n"
proof -
  have h: "untouched s pm x" if "in_range (data + c) m x" "unat c + m \<le> 64" for c m x
    using in_range_sub [of c m 64 data x] that ok by (simp add: headers_ok_def)
  show "e_phnum t data = e_phnum s data" "e_entry t data = e_entry s data"
    using load16_keeps [OF k, of "data + 56"] load64_keeps [OF k, of "data + 24"] h [of 56 2] h [of 24 8]
    by (simp_all add: e_phnum_def e_entry_def)
  show lh: "load_header t ph j = load_header s ph j" if "j < n" for j
    using load32_keeps [OF k] ok that by (simp add: headers_ok_def load_header_def p_type_def)
  have sg: "segment_ok s pm data (ph_at ph (of_nat j))" if "j < n" "load_header s ph j" for j
    using that ok by (simp add: headers_ok_def)
  show "headers_ok t pm data ph n"
    using ok lh segment_keeps [OF k sg] keeps_mem [OF k] unfolding headers_ok_def segs_apart_def seg_covers_def by simp
  show "pages_needed t ph i n = pages_needed s ph i n" if "i \<le> n"
    unfolding pages_needed_def using lh segment_keeps [OF k sg] by (intro arg_cong [where f = sum_list] map_cong) auto
qed

lemma pages_needed_Cons:
  "i < n \<Longrightarrow> pages_needed s ph i n =
     (if load_header s ph i then seg_pages s (ph_at ph (of_nat i)) else 0) + pages_needed s ph (Suc i) n"
  by (simp add: pages_needed_def upt_conv_Cons)

lemma load_segments_contract:
  assumes "pagemap_wf s pm" "headers_ok s pm data ph n" "n = unat (e_phnum s data)" "i \<le> n"
    and "4 * pages_needed s ph i n \<le> length (free_pages s)"
  shows "\<exists>s'. load_segments data pm ph (of_nat i) s = Some (True, s') \<and> keeps pm s s' \<and>
    (\<forall>j. i \<le> j \<longrightarrow> j < n \<longrightarrow> load_header s ph j \<longrightarrow> seg_loaded s s' pm data (ph_at ph (of_nat j))) \<and>
    (\<forall>w. (\<forall>j. i \<le> j \<longrightarrow> j < n \<longrightarrow> load_header s ph j \<longrightarrow> \<not> seg_covers s (ph_at ph (of_nat j)) w) \<longrightarrow>
       virt_to_phys pm w s' = virt_to_phys pm w s) \<and>
    length (free_pages s) \<le> 4 * pages_needed s ph i n + length (free_pages s')"
  using assms
proof (induction "n - i" arbitrary: i s)
  case 0
  then have "of_nat i = e_phnum s data" by (simp add: word_unat_eq_iff)
  then have "load_segments data pm ph (of_nat i) s = Some (True, s)" by (subst load_segments.simps) simp
  with 0 show ?case by (intro exI [of _ s]) (simp add: keeps_refl)
next
  case (Suc d)
  let ?p = "ph_at ph (of_nat i)"
  have i: "i < n" "d = n - Suc i" "Suc i \<le> n" using Suc.hyps(2) by simp_all
  have "unat (e_phnum s data) < 2 ^ LENGTH(16)" by (rule unsigned_less)
  then have lt: "(of_nat i :: u16) < e_phnum s data" using i(1) Suc.prems(3) by (simp add: word_less_nat_alt)
  show ?case
  proof (cases "load_header s ph i")
    case False
    then have "load_segments data pm ph (of_nat i) s = load_segments data pm ph (of_nat (Suc i)) s"
      using lt by (subst load_segments.simps) (simp add: load_header_def add.commute)
    moreover have "4 * pages_needed s ph (Suc i) n \<le> length (free_pages s)"
      using Suc.prems(5) pages_needed_Cons [OF i(1), of s ph] False by simp
    moreover have "pages_needed s ph i n = pages_needed s ph (Suc i) n" using pages_needed_Cons [OF i(1), of s ph] False by simp
    ultimately show ?thesis
      using Suc.hyps(1) [OF i(2) Suc.prems(1-3) i(3)] False by (metis Suc_leD Suc_leI le_neq_implies_less)
  next
    case True
    have ok: "segment_ok s pm data ?p" using Suc.prems(2) True i(1) by (simp add: headers_ok_def)
    have need: "4 * seg_pages s ?p + 4 * pages_needed s ph (Suc i) n \<le> length (free_pages s)"
      using Suc.prems(5) pages_needed_Cons [OF i(1), of s ph] True by simp
    then obtain t fs where t: "load_segment data pm ?p s = Some (True, t)" "keeps pm s t"
      "mapped_to pm (seg_start s ?p) 0 (seg_pages s ?p) fs s t" "loaded pm 0 (seg_pages s ?p) fs (seg_byte s data ?p) s t"
      "length (free_pages s) \<le> 4 * seg_pages s ?p + length (free_pages t)"
      using load_segment_contract [OF Suc.prems(1) ok refl] by auto
    note hk = headers_keeps [OF t(2) Suc.prems(2)]
    have "4 * pages_needed t ph (Suc i) n \<le> length (free_pages t)" using need t(5) hk(5) [OF i(3)] by linarith
    moreover have "n = unat (e_phnum t data)" using hk(1) Suc.prems(3) by simp
    ultimately obtain s' where s': "load_segments data pm ph (of_nat (Suc i)) t = Some (True, s')" "keeps pm t s'"
      "\<forall>j. Suc i \<le> j \<longrightarrow> j < n \<longrightarrow> load_header t ph j \<longrightarrow> seg_loaded t s' pm data (ph_at ph (of_nat j))"
      "\<forall>w. (\<forall>j. Suc i \<le> j \<longrightarrow> j < n \<longrightarrow> load_header t ph j \<longrightarrow> \<not> seg_covers t (ph_at ph (of_nat j)) w) \<longrightarrow>
         virt_to_phys pm w s' = virt_to_phys pm w t"
      "length (free_pages t) \<le> 4 * pages_needed t ph (Suc i) n + length (free_pages s')"
      using Suc.hyps(1) [OF i(2) keeps_wf [OF t(2)] hk(4) _ i(3)] by blast
    have cov: "seg_covers t (ph_at ph (of_nat j)) w = seg_covers s (ph_at ph (of_nat j)) w"
      if "j < n" "load_header s ph j" for j w
    proof -
      have "segment_ok s pm data (ph_at ph (of_nat j))" using Suc.prems(2) that by (simp add: headers_ok_def)
      from segment_keeps [OF t(2) this] show ?thesis by (simp add: seg_covers_def)
    qed
    have first: "seg_loaded s s' pm data ?p"
    proof (rule seg_loaded_later [OF seg_loaded_first [OF t(3,4)] t(2) s'(2)])
      fix k assume k: "k < seg_pages s ?p"
      have "\<not> seg_covers t (ph_at ph (of_nat j)) (seg_start s ?p + of_nat k * 4096)"
        if "Suc i \<le> j" "j < n" "load_header t ph j" for j
        using that k cov hk(3) Suc.prems(2) True i(1) by (auto simp: headers_ok_def segs_apart_def)
      then show "virt_to_phys pm (seg_start s ?p + of_nat k * 4096) s' = virt_to_phys pm (seg_start s ?p + of_nat k * 4096) t"
        using s'(4) by blast
    qed
    have "seg_loaded s s' pm data (ph_at ph (of_nat j))" if "i \<le> j" "j < n" "load_header s ph j" for j
    proof (cases "j = i")
      case False
      then have "Suc i \<le> j" using that(1) by simp
      then have "seg_loaded t s' pm data (ph_at ph (of_nat j))" using s'(3) that hk(3) by blast
      moreover have "segment_ok s pm data (ph_at ph (of_nat j))" using that Suc.prems(2) by (simp add: headers_ok_def)
      ultimately show ?thesis using seg_loaded_base [OF t(2)] by blast
    qed (use first in simp)
    moreover have "virt_to_phys pm w s' = virt_to_phys pm w s"
      if w: "\<forall>j. i \<le> j \<longrightarrow> j < n \<longrightarrow> load_header s ph j \<longrightarrow> \<not> seg_covers s (ph_at ph (of_nat j)) w" for w
    proof -
      have "virt_to_phys pm w s' = virt_to_phys pm w t" using w s'(4) cov hk(3) by (metis Suc_leD)
      also have "\<dots> = virt_to_phys pm w s" using w True i(1) t(3) by (auto simp: mapped_to_def seg_covers_def)
      finally show ?thesis .
    qed
    moreover have "length (free_pages s) \<le> 4 * pages_needed s ph i n + length (free_pages s')"
      using s'(5) t(5) hk(5) [OF i(3)] pages_needed_Cons [OF i(1), of s ph] True by simp
    moreover have "load_segments data pm ph (of_nat i) s = Some (True, s')"
      using lt True t(1) s'(1) by (subst load_segments.simps) (simp add: load_header_def add.commute)
    ultimately show ?thesis using keeps_trans [OF t(2) s'(2)] by blast
  qed
qed

lemma elf_load_contract:
  assumes wf: "pagemap_wf s pm" and magic: "e_magic s data = ELF_MAGIC" "e_class s data = 2"
    and ph: "ph = data + e_phoff s data" and n: "n = unat (e_phnum s data)" and ok: "headers_ok s pm data ph n"
    and room: "4 * pages_needed s ph 0 n \<le> length (free_pages s)"
  shows "\<exists>s'. elf_load data pm s = Some (e_entry s data, s') \<and> keeps pm s s' \<and>
    (\<forall>j<n. load_header s ph j \<longrightarrow> seg_loaded s s' pm data (ph_at ph (of_nat j))) \<and>
    (\<forall>w. (\<forall>j<n. load_header s ph j \<longrightarrow> \<not> seg_covers s (ph_at ph (of_nat j)) w) \<longrightarrow>
       virt_to_phys pm w s' = virt_to_phys pm w s) \<and>
    length (free_pages s) \<le> 4 * pages_needed s ph 0 n + length (free_pages s')"
proof -
  obtain s' where s': "load_segments data pm ph (of_nat 0) s = Some (True, s')" "keeps pm s s'"
    "\<forall>j. 0 \<le> j \<longrightarrow> j < n \<longrightarrow> load_header s ph j \<longrightarrow> seg_loaded s s' pm data (ph_at ph (of_nat j))"
    "\<forall>w. (\<forall>j. 0 \<le> j \<longrightarrow> j < n \<longrightarrow> load_header s ph j \<longrightarrow> \<not> seg_covers s (ph_at ph (of_nat j)) w) \<longrightarrow>
       virt_to_phys pm w s' = virt_to_phys pm w s"
    "length (free_pages s) \<le> 4 * pages_needed s ph 0 n + length (free_pages s')"
    using load_segments_contract [OF wf ok n _ room] by blast
  have "elf_load data pm s = Some (e_entry s data, s')"
    using magic s'(1) headers_keeps(2) [OF s'(2) ok] by (simp add: elf_load_def ph)
  then show ?thesis using s'(2-5) by simp
qed

section \<open>A small image\<close>

text \<open>One loadable segment at \<open>v\<close>, which takes the first 32 bytes of the file.\<close>

definition tiny_image :: "u64 \<Rightarrow> (u64 \<times> u64) list" where
  "tiny_image v = [(0, 0x00000002464C457F), (3, 0x400000), (4, 64), (7, 1), (8, 0x0000000500000001), (9, 0),
     (10, v), (12, 32), (13, 0x100)]"

definition put_image :: "u64 \<Rightarrow> u64 \<Rightarrow> 'a machine_scheme \<Rightarrow> 'a machine_scheme" where
  "put_image u data s = set_entries (map (\<lambda>(i, v). (data, i, v)) (tiny_image u)) s"

lemma put_image_entry:
  "page_aligned data \<Longrightarrow> \<forall>(i, v) \<in> set (tiny_image u). get_entry (put_image u data s) data i = v"
  by (simp add: put_image_def tiny_image_def set_entries_def get_entry_set_entry)

lemma load_le_bytes:
  assumes "k + n \<le> 8"
  shows "(load_le n m (a + of_nat k) :: 'b::len word) = ucast (take_bit (8 * n) (drop_bit (8 * k) (load64 m a)))"
proof (rule bit_word_eqI)
  fix i assume i: "i < LENGTH('b)"
  show "bit (load_le n m (a + of_nat k) :: 'b word) i =
    bit (ucast (take_bit (8 * n) (drop_bit (8 * k) (load64 m a))) :: 'b word) i"
    using i assms by (auto simp: bit_load_le load64_def bit_simps add.assoc)
qed

text \<open>The image on a page of a booted machine.\<close>

lemma tiny_image_state:
  "\<exists>(s :: vmm_state) pm data. pagemap_wf s pm \<and> held s pm data \<and> length (free_pages s) = 13 \<and>
     (\<forall>v. virt_to_phys pm v s = 0) \<and> (\<forall>(i, v) \<in> set (tiny_image u). get_entry s data i = v)"
proof -
  obtain s :: vmm_state where s: "pagemap_wf s (kernel_pagemap s)" "length (free_pages s) = 14"
    "\<forall>v. virt_to_phys (kernel_pagemap s) v s = 0" using boot_pagemap by blast
  let ?pm = "kernel_pagemap s"
  have ne: "free_pages s \<noteq> []" using s(2) by (auto simp del: length_free_pages)
  obtain p s1 where r: "pmm_request_page s = (p, s1)" by (cases "pmm_request_page s")
  note q = keeps_request [OF s(1) ne r]
  let ?data = "HIGHER_HALF s p"
  let ?t = "put_image u ?data s1"
  have sp: "same_space ?pm s1 ?t"
    unfolding put_image_def using q(2) keeps_wf [OF q(1)]
    by (intro set_entries_same_space) (auto simp: tiny_image_def)
  have "\<forall>(i, v) \<in> set (tiny_image u). get_entry ?t ?data i = v"
    using put_image_entry [OF held_page_aligned [OF q(2)]] .
  moreover have "length (free_pages ?t) = 13" using sp q(5) s(2) by (simp add: same_space_def del: length_free_pages)
  moreover have "pagemap_wf ?t ?pm" "held ?t ?pm ?data" "\<forall>v. virt_to_phys ?pm v ?t = 0"
    using sp q(2,3) s(3) same_space_held [OF sp] by (simp_all add: same_space_def)
  ultimately show ?thesis by blast
qed

lemma tiny_image_headers:
  fixes s :: "'a pmm_state_scheme"
  assumes h: "held s pm data" and u: "u = 0x400000 \<or> u = 0x400010" and e: "\<forall>(i, v) \<in> set (tiny_image u). get_entry s data i = v"
  defines "ph \<equiv> data + 64"
  shows "e_magic s data = ELF_MAGIC" and "e_class s data = 2" and "e_phoff s data = 64" and "e_entry s data = 0x400000"
    and "unat (e_phnum s data) = 1" and "load_header s ph 0" and "seg_start s ph = 0x400000" and "seg_pages s ph = 1"
    and "headers_ok s pm data ph 1" and "p_vaddr s ph = u" and "p_filesz s ph = 32" and "p_offset s ph = 0"
proof -
  have l: "load64 (mem s) (data + 8 * i) = v" if "(i, v) \<in> set (tiny_image u)" for i v
    using e that by (auto simp: get_entry_def)
  have w: "load64 (mem s) data = 0x00000002464C457F" "load64 (mem s) (data + 24) = 0x400000" "load64 (mem s) (data + 32) = 64"
    "load64 (mem s) (data + 56) = 1" "load64 (mem s) (data + 64) = 0x0000000500000001" "load64 (mem s) (data + 72) = 0"
    "load64 (mem s) (data + 80) = u" "load64 (mem s) (data + 96) = 32" "load64 (mem s) (data + 104) = 0x100"
    using l [of 0] l [of 3] l [of 4] l [of 7] l [of 8] l [of 9] l [of 10] l [of 12] l [of 13]
    by (simp_all add: tiny_image_def)
  show "e_magic s data = ELF_MAGIC"
    using load_le_bytes [of 0 4 "mem s" data, where 'b = 32] w(1) by (simp add: e_magic_def load32_def)
  have "mem s (data + 4) = load_le 1 (mem s) (data + of_nat 4)" by simp
  also have "\<dots> = 2" using load_le_bytes [of 4 1 "mem s" data, where 'b = 8] w(1) by simp
  finally show "e_class s data = 2" by (simp add: e_class_def)
  show "e_phoff s data = 64" "e_entry s data = 0x400000" using w by (simp_all add: e_phoff_def e_entry_def)
  show "unat (e_phnum s data) = 1"
    using load_le_bytes [of 0 2 "mem s" "data + 56", where 'b = 16] w(4) by (simp add: e_phnum_def load16_def)
  show lh: "load_header s ph 0"
    using load_le_bytes [of 0 4 "mem s" "data + 64", where 'b = 32] w(5)
    by (simp add: load_header_def ph_at_def p_type_def load32_def ph_def)
  have p: "p_vaddr s ph = u" "p_memsz s ph = 0x100" "p_filesz s ph = 32" "p_offset s ph = 0"
    using w by (simp_all add: p_vaddr_def p_memsz_def p_filesz_def p_offset_def ph_def add.assoc)
  show "p_vaddr s ph = u" "p_filesz s ph = 32" "p_offset s ph = 0" by (simp_all add: p)
  show st: "seg_start s ph = 0x400000" "seg_pages s ph = 1"
    using u by (auto simp: seg_start_def seg_pages_def seg_end_def p ALIGN_DOWN_def ALIGN_UP_def DIV_ROUND_UP_def)
  have un: "untouched s pm x" if "in_range (data + c) n x" "unat c + n \<le> 4096" for c n x
    using in_range_sub [of c n 4096 data x] that h by (simp add: held_def)
  have "untouched s pm x" if "in_range ph 56 x" for x using un [of 64 56] that by (simp add: ph_def)
  then have "segment_ok s pm data ph" using un [of 0 32] u by (auto simp: segment_ok_def p st)
  then show "headers_ok s pm data ph 1"
    using un [of 0 64] un [of 64 4] by (simp add: headers_ok_def ph_at_def ph_def)
qed

section \<open>Properties\<close>



text \<open>
  Segments whose address is not a multiple of the page size are shifted: the byte that ends up at
  the first address of the segment is not the first byte of the segment in the file but the one
  as many bytes further on as the address lies beyond the start of its page.
\<close>

theorem elf_load_shifts_unaligned:
  assumes "pagemap_wf s pm" and "e_magic s data = ELF_MAGIC" "e_class s data = 2"
    and "ph = data + e_phoff s data" and "n = unat (e_phnum s data)" and "headers_ok s pm data ph n"
    and "4 * pages_needed s ph 0 n \<le> length (free_pages s)"
    and "j < n" and "load_header s ph j" and "p = ph_at ph (of_nat j)" and "0 < seg_pages s p"
    and "p_vaddr s p = seg_start s p + of_nat d" and "d < 4096" and "d < unat (p_filesz s p)"
  shows "\<exists>s'. elf_load data pm s = Some (e_entry s data, s') \<and>
    mem s' (HIGHER_HALF s' (virt_to_phys pm (seg_start s p) s') + of_nat d) = mem s (data + p_offset s p + of_nat d)"
proof -
  obtain s' where s': "load_segments data pm ph (of_nat 0) s = Some (True, s')" "keeps pm s s'"
    "seg_loaded s s' pm data p"
    using load_segments_contract [OF assms(1,6,5) _ assms(7)] assms(8-10) by blast
  have "elf_load data pm s = Some (e_entry s data, s')"
    using assms(2-4) s'(1) headers_keeps(2) [OF s'(2) assms(6)] by (simp add: elf_load_def)
  moreover have "frame_holds s' (virt_to_phys pm (seg_start s p) s') (seg_byte s data p)"
    using s'(3) assms(11) by (auto simp: seg_loaded_def Let_def dest!: spec [of _ 0])
  ultimately show ?thesis using assms(13,14) by (auto simp: frame_holds_def seg_byte_def)
qed

theorem elf_load_shifts_unaligned_witness:
  "\<exists>(s :: vmm_state) pm data s'. p_vaddr s (data + 64) = 0x400010 \<and> p_offset s (data + 64) = 0 \<and>
     elf_load data pm s = Some (0x400000, s') \<and>
     mem s' (HIGHER_HALF s' (virt_to_phys pm 0x400000 s') + 0x10) = mem s (data + 0x10)"
proof -
  obtain s :: vmm_state and pm data where s: "pagemap_wf s pm" "held s pm data" "length (free_pages s) = 13"
    "\<forall>(i, v) \<in> set (tiny_image 0x400010). get_entry s data i = v" using tiny_image_state by blast
  note t = tiny_image_headers [OF s(2) disjI2 [OF refl] s(4)]
  have ph: "data + 64 = data + e_phoff s data" using t(3) by simp
  have "4 * pages_needed s (data + 64) 0 1 \<le> length (free_pages s)"
    using t(6,8) s(3) by (simp add: pages_needed_def ph_at_def)
  from elf_load_shifts_unaligned [OF s(1) t(1,2) ph t(5) [symmetric] t(9) this _ t(6) refl, of 16]
  obtain s' where "elf_load data pm s = Some (0x400000, s')"
    "mem s' (HIGHER_HALF s' (virt_to_phys pm 0x400000 s') + 0x10) = mem s (data + 0x10)"
    using t by (auto simp: ph_at_def)
  then show ?thesis using t(10,12) by blast
qed

text \<open>A file that is not a 64-bit ELF image is rejected with 0, and nothing has changed.\<close>

lemma elf_load_rejects: "e_magic s data \<noteq> ELF_MAGIC \<or> e_class s data \<noteq> 2 \<Longrightarrow> elf_load data pm s = Some (0, s)"
  by (auto simp: elf_load_def)

end
