(* ===== verification/Descriptors.thy ===== *)
theory Descriptors
  imports Vmm
begin

text \<open>
  Descriptor tables and the interrupt frame: \<^verbatim>\<open>kernel/src/sys/gdt.c\<close>, the table part of
  \<^verbatim>\<open>kernel/src/sys/idt.c\<close> (gates, initialisation, registration of IRQ handlers), their headers and
  \<^verbatim>\<open>kernel/src/sys/cpu.c\<close>. Packed C structures are records with one field per member. The
  entry addresses \<open>isr_table\<close>, the address of the table and \<open>idt_load\<close> come from assembly: the
  first two are arguments, and of the last the model keeps that it loads the table register and
  enables interrupts. The handlers a slot of \<open>irq_handlers\<close> can hold are the two the kernel has.
\<close>

section \<open>State\<close>

record gdt_entry_t =
  limitLow :: u16
  baseLow :: u16
  baseMid :: u8
  accessByte :: u8
  limitHighAndFlags :: u8
  baseHigh :: u8

record idt_entry_t =
  offsetLow :: u16
  selector :: u16
  ist :: u8
  gate_flags :: u8
  offsetMiddle :: u16
  offsetHigh :: u32
  gate_zero :: u32

record table_pointer =
  tp_limit :: u16
  tp_base :: u64

record int_frame_t =
  f_ds :: u64
  f_cr2 :: u64
  f_cr3 :: u64
  f_r15 :: u64
  f_r14 :: u64
  f_r13 :: u64
  f_r12 :: u64
  f_r11 :: u64
  f_r10 :: u64
  f_r9 :: u64
  f_r8 :: u64
  f_rbp :: u64
  f_rdi :: u64
  f_rsi :: u64
  f_rdx :: u64
  f_rcx :: u64
  f_rbx :: u64
  f_rax :: u64
  f_vector :: u64
  f_err :: u64
  f_rip :: u64
  f_cs :: u64
  f_rflags :: u64
  f_rsp :: u64
  f_ss :: u64

datatype idt_handler_t = Timer_interrupt_handler | Keyboard_handler

record desc_state = vmm_state +
  gdtEntries :: "gdt_entry_t list"
  gdtpr :: table_pointer
  gdtr_loaded :: "table_pointer option"
  idt_entries :: "idt_entry_t list"
  idt_pointer :: table_pointer
  idtr_loaded :: "table_pointer option"
  irq_handlers :: "idt_handler_t option list"
  panicked :: bool

abbreviation (input) IDT_ENTRY_COUNT :: nat where "IDT_ENTRY_COUNT \<equiv> 256"
abbreviation (input) IRQ_BASE :: nat where "IRQ_BASE \<equiv> 0x20"
abbreviation (input) IRQ_COUNT :: nat where "IRQ_COUNT \<equiv> 16"

section \<open>Segment descriptors\<close>

definition gdt_flush :: "table_pointer \<Rightarrow> 'a desc_state_scheme \<Rightarrow> 'a desc_state_scheme" where
  "gdt_flush gdtr s = s\<lparr>gdtr_loaded := Some gdtr\<rparr>"

definition gdt_seg :: "u8 \<Rightarrow> u8 \<Rightarrow> gdt_entry_t" where
  "gdt_seg access flags =
     \<lparr>limitLow = 0, baseLow = 0, baseMid = 0, accessByte = access, limitHighAndFlags = flags, baseHigh = 0\<rparr>"

definition gdt_init :: "u64 \<Rightarrow> 'a desc_state_scheme \<Rightarrow> int \<times> 'a desc_state_scheme" where
  "gdt_init gdt_addr s =
     (let s = s\<lparr>gdtEntries :=
            [gdt_seg 0x00 0x00, gdt_seg 0x9A 0xA0, gdt_seg 0x92 0xA0, gdt_seg 0xFA 0xA0, gdt_seg 0xF2 0xA0]\<rparr>;
          s = s\<lparr>gdtpr := \<lparr>tp_limit = 5 * 8 - 1, tp_base = gdt_addr\<rparr>\<rparr>
      in (0, gdt_flush (gdtpr s) s))"

section \<open>Interrupt gates\<close>

definition idt_set_gate ::
  "idt_entry_t list \<Rightarrow> nat \<Rightarrow> u64 \<Rightarrow> u16 \<Rightarrow> u8 \<Rightarrow> idt_entry_t list" where
  "idt_set_gate idt num base sel flags =
     idt[num := \<lparr>offsetLow = ucast (base AND 0xFFFF), selector = sel, ist = 0, gate_flags = flags,
        offsetMiddle = ucast (drop_bit 16 base AND 0xFFFF),
        offsetHigh = ucast (drop_bit 32 base AND 0xFFFFFFFF), gate_zero = 0\<rparr>]"

fun set_gates :: "(nat \<Rightarrow> u64) \<Rightarrow> nat list \<Rightarrow> idt_entry_t list \<Rightarrow> idt_entry_t list" where
  "set_gates isr_table [] idt = idt"
| "set_gates isr_table (i # is) idt =
     set_gates isr_table is (idt_set_gate idt i (isr_table i) 0x08 0x8E)"

definition idt_load :: "table_pointer \<Rightarrow> 'a desc_state_scheme \<Rightarrow> 'a desc_state_scheme" where
  "idt_load p s = sti (s\<lparr>idtr_loaded := Some p\<rparr>)"

definition idt_init :: "u64 \<Rightarrow> (nat \<Rightarrow> u64) \<Rightarrow> 'a desc_state_scheme \<Rightarrow> int \<times> 'a desc_state_scheme" where
  "idt_init idt_addr isr_table s =
     (let s = s\<lparr>idt_pointer := \<lparr>tp_limit = 16 * 256 - 1, tp_base = idt_addr\<rparr>\<rparr>;
          s = s\<lparr>irq_handlers := replicate IRQ_COUNT None\<rparr>;
          s = s\<lparr>idt_entries := set_gates isr_table [0..<32] (idt_entries s)\<rparr>;
          s = s\<lparr>idt_entries := set_gates isr_table [IRQ_BASE..<IRQ_BASE + IRQ_COUNT] (idt_entries s)\<rparr>;
          s = s\<lparr>idt_entries := idt_set_gate (idt_entries s) 0x80 (isr_table 0x80) 0x08 0xEE\<rparr>;
          s = pic_disable s;
          s = idt_load (idt_pointer s) s;
          s = pic_enable s
      in (0, s\<lparr>panicked := False\<rparr>))"

definition idt_irq_register :: "int \<Rightarrow> idt_handler_t \<Rightarrow> 'a desc_state_scheme \<Rightarrow> 'a desc_state_scheme" where
  "idt_irq_register irq handler s =
     (if irq < 0 \<or> int IRQ_COUNT \<le> irq then s
      else s\<lparr>irq_handlers := (irq_handlers s)[nat irq := Some handler]\<rparr>)"

definition idt_irq_deregister :: "int \<Rightarrow> 'a desc_state_scheme \<Rightarrow> 'a desc_state_scheme" where
  "idt_irq_deregister irq s =
     (if irq < 0 \<or> int IRQ_COUNT \<le> irq then s
      else s\<lparr>irq_handlers := (irq_handlers s)[nat irq := None]\<rparr>)"

text \<open>\<open>hlt\<close> and \<open>hcf\<close> never return.\<close>

definition hlt :: "'a machine_scheme \<Rightarrow> 'b option" where
  "hlt s = None"

definition hcf :: "'a machine_scheme \<Rightarrow> 'b option" where
  "hcf s = hlt (cli s)"

section \<open>The address in a gate\<close>

text \<open>The address the processor assembles from the three parts of a gate.\<close>

definition gate_offset :: "idt_entry_t \<Rightarrow> u64" where
  "gate_offset e = ucast (offsetLow e) OR push_bit 16 (ucast (offsetMiddle e)) OR push_bit 32 (ucast (offsetHigh e))"

lemma length_set_gate [simp]: "length (idt_set_gate idt i b sel fl) = length idt"
  by (simp add: idt_set_gate_def)

lemma gate_offset_split:
  "(ucast (ucast (base AND 0xFFFF) :: u16) :: u64) OR push_bit 16 (ucast (ucast (drop_bit 16 base AND 0xFFFF) :: u16))
     OR push_bit 32 (ucast (ucast (drop_bit 32 base AND 0xFFFFFFFF) :: u32)) = base" for base :: u64
proof -
  have m: "(0xFFFF :: u64) = mask 16" "(0xFFFFFFFF :: u64) = mask 32" by (simp_all add: mask_eq_exp_minus_1)
  show ?thesis unfolding m
  proof (rule bit_word_eqI)
    fix n assume n: "n < LENGTH(64)"
    consider "n < 16" | "16 \<le> n" "n < 32" | "32 \<le> n" by linarith
    then show "bit ((ucast (ucast (base AND mask 16) :: u16) :: u64)
        OR push_bit 16 (ucast (ucast (drop_bit 16 base AND mask 16) :: u16))
        OR push_bit 32 (ucast (ucast (drop_bit 32 base AND mask 32) :: u32))) n = bit base n"
    proof cases
      case 2
      then have "n - 16 < 16" by linarith
      with 2 show ?thesis by (auto simp: bit_simps)
    next
      case 3
      then have "n - 32 < 32" "\<not> n - 16 < 16" using n by simp_all
      with 3 n show ?thesis by (auto simp: bit_simps)
    qed (auto simp: bit_simps)
  qed
qed

lemma set_gate_other: "i \<noteq> j \<Longrightarrow> idt_set_gate idt i b sel fl ! j = idt ! j"
  by (simp add: idt_set_gate_def)

lemma set_gate_offset:
  assumes "i < length idt"
  shows "gate_offset (idt_set_gate idt i b sel fl ! i) = b" "selector (idt_set_gate idt i b sel fl ! i) = sel"
    "gate_flags (idt_set_gate idt i b sel fl ! i) = fl"
proof -
  show "gate_offset (idt_set_gate idt i b sel fl ! i) = b"
    using assms gate_offset_split [of b] by (simp add: idt_set_gate_def gate_offset_def)
qed (use assms in \<open>simp_all add: idt_set_gate_def\<close>)

text \<open>A gate that points to \<open>b\<close> with the kernel's code segment and the given flags.\<close>

definition gate_ok :: "idt_entry_t \<Rightarrow> u64 \<Rightarrow> u8 \<Rightarrow> bool" where
  "gate_ok e b fl \<longleftrightarrow> gate_offset e = b \<and> selector e = 0x08 \<and> gate_flags e = fl"

lemma set_gates_nth:
  "length idt = 256 \<Longrightarrow> \<forall>i \<in> set is. i < 256 \<Longrightarrow> j < 256 \<Longrightarrow>
   length (set_gates isr is idt) = 256 \<and>
   (if j \<in> set is then gate_ok (set_gates isr is idt ! j) (isr j) 0x8E else set_gates isr is idt ! j = idt ! j)"
proof (induction "is" arbitrary: idt)
  case (Cons i "is")
  let ?idt = "idt_set_gate idt i (isr i) 0x08 0x8E"
  have "gate_ok (?idt ! i) (isr i) 0x8E" using Cons.prems set_gate_offset [of i idt] by (simp add: gate_ok_def)
  moreover have "?idt ! j = (if i = j then ?idt ! i else idt ! j)" by (simp add: set_gate_other)
  ultimately show ?case using Cons.IH [of ?idt] Cons.prems by (auto split: if_splits)
qed simp

lemma desc_io_frame [simp]:
  "idt_entries (outb p v s) = idt_entries s" "idtr_loaded (outb p v s) = idtr_loaded s"
  "irq_handlers (outb p v s) = irq_handlers s" "idt_pointer (outb p v s) = idt_pointer s"
  "idt_entries (io_wait s) = idt_entries s" "idtr_loaded (io_wait s) = idtr_loaded s"
  "irq_handlers (io_wait s) = irq_handlers s" "idt_pointer (io_wait s) = idt_pointer s"
  by (simp_all add: outb_def io_wait_def)

lemma desc_pic_frame [simp]:
  "idt_entries (pic_set_mask m s) = idt_entries s" "idtr_loaded (pic_set_mask m s) = idtr_loaded s"
  "irq_handlers (pic_set_mask m s) = irq_handlers s" "idt_pointer (pic_set_mask m s) = idt_pointer s"
  "int_flag (pic_set_mask m s) = int_flag s"
  by (simp_all add: pic_set_mask_def Let_def)

lemma desc_pic_configure_frame [simp]:
  "idt_entries (pic_configure a b c s) = idt_entries s" "idtr_loaded (pic_configure a b c s) = idtr_loaded s"
  "irq_handlers (pic_configure a b c s) = irq_handlers s" "int_flag (pic_configure a b c s) = int_flag s"
  by (simp_all add: pic_configure_def Let_def)

text \<open>The variables of this component at boot, all zero.\<close>

definition boot_desc :: "'a \<Rightarrow> 'a desc_state_scheme" where
  "boot_desc x = boot_pmm \<lparr>kernel_pagemap = 0, cr3 = 0, tlb_invalidated = [], gdtEntries = [],
     gdtpr = \<lparr>tp_limit = 0, tp_base = 0\<rparr>, gdtr_loaded = None,
     idt_entries = replicate 256 \<lparr>offsetLow = 0, selector = 0, ist = 0, gate_flags = 0, offsetMiddle = 0,
       offsetHigh = 0, gate_zero = 0\<rparr>,
     idt_pointer = \<lparr>tp_limit = 0, tp_base = 0\<rparr>, idtr_loaded = None,
     irq_handlers = replicate 16 None, panicked = False, \<dots> = x\<rparr>"

lemma boot_desc_idt [simp]: "length (idt_entries (boot_desc x)) = 256"
  by (simp add: boot_desc_def boot_pmm_def)

section \<open>Properties\<close>

text \<open>
  The interrupt table: \<open>idt_init\<close> returns 0 and leaves gates for the 32 exceptions, the 16
  IRQs at vector 0x20 and the system call at 0x80, each pointing to its own entry of
  \<open>isr_table\<close> in the kernel's code segment; only the system call gate may be raised from user
  mode; every other gate keeps its contents; the table register is loaded, all IRQs are masked
  and no handler is registered.
\<close>

theorem idt_init_gates:
  assumes "length (idt_entries s) = 256" and "idt_init a isr s = (r, t)" and "v < 256"
  shows "r = 0 \<and> idtr_loaded t = Some \<lparr>tp_limit = 4095, tp_base = a\<rparr> \<and>
    pic_mask_var t = 0xFFFF \<and> irq_handlers t = replicate 16 None \<and> int_flag t \<and>
    (if v < 48 then gate_ok (idt_entries t ! v) (isr v) 0x8E
     else if v = 0x80 then gate_ok (idt_entries t ! v) (isr v) 0xEE
     else idt_entries t ! v = idt_entries s ! v)"
proof -
  let ?i1 = "set_gates isr [0..<32] (idt_entries s)"
  let ?i2 = "set_gates isr [32..<48] ?i1"
  have l1: "length ?i1 = 256" and g1: "if v < 32 then gate_ok (?i1 ! v) (isr v) 0x8E else ?i1 ! v = idt_entries s ! v"
    using set_gates_nth [of "idt_entries s" "[0..<32]" v isr] assms(1,3) by auto
  have l2: "length ?i2 = 256"
    and g2: "if 32 \<le> v \<and> v < 48 then gate_ok (?i2 ! v) (isr v) 0x8E else ?i2 ! v = ?i1 ! v"
    using set_gates_nth [of ?i1 "[32..<48]" v isr] l1 assms(3) by auto
  have t: "idt_entries t = idt_set_gate ?i2 0x80 (isr 0x80) 0x08 0xEE" and rest: "r = 0"
    "idtr_loaded t = Some \<lparr>tp_limit = 4095, tp_base = a\<rparr>" "pic_mask_var t = 0xFFFF"
    "irq_handlers t = replicate 16 None" "int_flag t"
    using assms(2) by (auto simp: idt_init_def Let_def pic_disable_def pic_enable_def idt_load_def sti_def)
  have "gate_ok (idt_set_gate ?i2 0x80 (isr 0x80) 0x08 0xEE ! 0x80) (isr 0x80) 0xEE"
    using set_gate_offset [of "0x80" ?i2] l2 by (simp add: gate_ok_def)
  then show ?thesis
    using rest g1 g2 set_gate_other [of "0x80" v ?i2]
    by (cases "v = 0x80"; cases "v < 32"; cases "v < 48") (simp_all add: t)
qed

theorem idt_init_gates_witness:
  "\<exists>s :: desc_state. \<forall>t. snd (idt_init 0xFFFFFFFF80100000 (\<lambda>v. 0xFFFFFFFF80000000 + 16 * of_nat v) s) = t \<longrightarrow>
     gate_offset (idt_entries t ! 0x80) = 0xFFFFFFFF80000800 \<and> gate_flags (idt_entries t ! 0x80) = 0xEE \<and>
     gate_flags (idt_entries t ! 14) = 0x8E"
proof -
  define s :: desc_state where "s = boot_desc ()"
  have len: "length (idt_entries s) = 256" by (simp add: s_def)
  obtain r t where i: "idt_init 0xFFFFFFFF80100000 (\<lambda>v. 0xFFFFFFFF80000000 + 16 * of_nat v) s = (r, t)"
    by (cases "idt_init 0xFFFFFFFF80100000 (\<lambda>v. 0xFFFFFFFF80000000 + 16 * of_nat v) s")
  note g = idt_init_gates [OF len i]
  show ?thesis
    using g [of "0x80"] g [of 14] i by (intro exI [of _ s]) (simp add: gate_ok_def)
qed

end
