(* ===== verification/Scheduler.thy ===== *)
theory Scheduler
  imports Descriptors
begin

text \<open>
  The process table and the round-robin switch, \<^verbatim>\<open>kernel/src/proc/scheduler.c\<close>. A process structure
  fills the start of a page taken from the page allocator; the model keeps the structures in
  the store \<open>proc_mem\<close>, indexed by the pointer the code uses, so that two table entries with
  the same pointer share a structure. The page allocator clears a page it hands out, which
  makes a fresh structure all zero. \<open>scheduler_idle\<close> never returns, and neither does an exit that
  leaves no process. Creating a process from a program file needs the file system and the
  loader and is not part of this theory.
\<close>

section \<open>State\<close>

datatype process_state_t = PROCESS_NEW | PROCESS_RUNNING | PROCESS_TERMINATED

record process_t =
  pid :: u64
  pstate :: process_state_t
  pagemap :: u64
  ctx :: int_frame_t
  pname :: u64

record sched_state = desc_state +
  proc_mem :: "u64 \<Rightarrow> process_t"
  processes :: "u64 list"
  process_count :: u32
  current_index :: u32
  sched_tick_count :: u64
  pid_counter :: u64

abbreviation (input) MAX_PROCESSES :: u32 where "MAX_PROCESSES \<equiv> 256"

definition zero_frame :: int_frame_t where
  "zero_frame = \<lparr>f_ds = 0, f_cr2 = 0, f_cr3 = 0, f_r15 = 0, f_r14 = 0, f_r13 = 0, f_r12 = 0, f_r11 = 0,
     f_r10 = 0, f_r9 = 0, f_r8 = 0, f_rbp = 0, f_rdi = 0, f_rsi = 0, f_rdx = 0, f_rcx = 0, f_rbx = 0,
     f_rax = 0, f_vector = 0, f_err = 0, f_rip = 0, f_cs = 0, f_rflags = 0, f_rsp = 0, f_ss = 0\<rparr>"

definition zero_process :: process_t where
  "zero_process = \<lparr>pid = 0, pstate = PROCESS_NEW, pagemap = 0, ctx = zero_frame, pname = 0\<rparr>"

definition upd_proc :: "u64 \<Rightarrow> (process_t \<Rightarrow> process_t) \<Rightarrow> 'a sched_state_scheme \<Rightarrow> 'a sched_state_scheme" where
  "upd_proc p f s = s\<lparr>proc_mem := (proc_mem s)(p := f (proc_mem s p))\<rparr>"

section \<open>Operations\<close>

text \<open>A request for the page of a structure: a page that is handed out is cleared.\<close>

definition request_struct :: "'a sched_state_scheme \<Rightarrow> u64 \<times> 'a sched_state_scheme" where
  "request_struct s =
     (let (page, s) = pmm_request_page s;
          proc = HIGHER_HALF s page
      in (proc, if page = NULL then s else upd_proc proc (\<lambda>_. zero_process) s))"

definition process_create :: "u64 \<Rightarrow> u64 \<Rightarrow> u64 \<Rightarrow> 'a sched_state_scheme \<Rightarrow> u64 \<times> 'a sched_state_scheme" where
  "process_create entry pm name s =
     (let (proc, s) = request_struct s
      in if proc = NULL then (NULL, s)
         else
           let s = upd_proc proc (\<lambda>p. p\<lparr>pid := pid_counter s\<rparr>) s;
               s = s\<lparr>pid_counter := pid_counter s + 1\<rparr>;
               s = upd_proc proc (\<lambda>p. p\<lparr>pstate := PROCESS_NEW, ctx := (ctx p)\<lparr>f_rip := entry\<rparr>\<rparr>) s;
               (stk, s) = pmm_request_page s;
               s = upd_proc proc (\<lambda>p. p\<lparr>ctx := (ctx p)\<lparr>f_rsp := HIGHER_HALF s stk + 4095\<rparr>\<rparr>) s
           in if f_rsp (ctx (proc_mem s proc)) = 0 then (NULL, pmm_free_page proc s)
              else (proc,
                upd_proc proc (\<lambda>p. p\<lparr>ctx := (ctx p)\<lparr>f_cs := 0x08, f_ss := 0x10, f_rflags := 0x202\<rparr>,
                  pagemap := pm, pname := name\<rparr>) s))"

definition process_destroy :: "u64 \<Rightarrow> 'a sched_state_scheme \<Rightarrow> 'a sched_state_scheme" where
  "process_destroy proc s =
     (let s = vmm_destroy_pagemap (pagemap (proc_mem s proc)) s;
          s = pmm_free_page (pagemap (proc_mem s proc)) s;
          s = pmm_free_page (f_rsp (ctx (proc_mem s proc))) s
      in pmm_free_page proc s)"

definition scheduler_init :: "'a sched_state_scheme \<Rightarrow> 'a sched_state_scheme" where
  "scheduler_init s = s\<lparr>process_count := 0, current_index := 0, sched_tick_count := 0\<rparr>"

definition add_process :: "u64 \<Rightarrow> 'a sched_state_scheme \<Rightarrow> 'a sched_state_scheme" where
  "add_process proc s =
     s\<lparr>processes := (processes s)[unat (process_count s) := proc], process_count := process_count s + 1\<rparr>"

definition scheduler_create_process :: "u64 \<Rightarrow> u64 \<Rightarrow> 'a sched_state_scheme \<Rightarrow> u64 \<times> 'a sched_state_scheme" where
  "scheduler_create_process entry name s =
     (if MAX_PROCESSES \<le> process_count s then (- 1, s)
      else let (pm, s) = vmm_new_pagemap s;
               (proc, s) = process_create entry pm name s;
               s = add_process proc s
           in (pid (proc_mem s proc), s))"

definition current_process :: "'a sched_state_scheme \<Rightarrow> u64" where
  "current_process s = processes s ! unat (current_index s)"

definition scheduler_context_switch ::
  "int_frame_t \<Rightarrow> 'a sched_state_scheme \<Rightarrow> int_frame_t \<times> 'a sched_state_scheme" where
  "scheduler_context_switch frame s =
     (if process_count s = 0 then (frame, s)
      else
        let cur = current_process s;
            s = (if cur \<noteq> NULL \<and> pstate (proc_mem s cur) = PROCESS_RUNNING
                 then upd_proc cur (\<lambda>p. p\<lparr>ctx := frame\<rparr>) s else s);
            s = s\<lparr>current_index := (current_index s + 1) mod process_count s\<rparr>;
            nxt = current_process s
        in if nxt \<noteq> NULL
           then let s = upd_proc nxt (\<lambda>p. p\<lparr>pstate := PROCESS_RUNNING\<rparr>) s
                in (ctx (proc_mem s nxt), vmm_switch_pagemap (pagemap (proc_mem s nxt)) s)
           else (frame, s))"

definition scheduler_idle :: "'a sched_state_scheme \<Rightarrow> 'b option" where
  "scheduler_idle s = None"

fun shift_down :: "nat list \<Rightarrow> u64 list \<Rightarrow> u64 list" where
  "shift_down [] ps = ps"
| "shift_down (i # is) ps = shift_down is (ps[i := ps ! (i + 1)])"

definition scheduler_terminate_current_process ::
  "u64 \<Rightarrow> 'a sched_state_scheme \<Rightarrow> 'a sched_state_scheme option" where
  "scheduler_terminate_current_process exit_code s =
     (let cur = current_process s
      in if pstate (proc_mem s cur) \<noteq> PROCESS_RUNNING then Some s
         else
           let s = upd_proc cur (\<lambda>p. p\<lparr>pstate := PROCESS_TERMINATED\<rparr>) s;
               s = process_destroy cur s;
               s = s\<lparr>processes :=
                 shift_down [unat (current_index s)..<unat (process_count s - 1)] (processes s)\<rparr>;
               s = s\<lparr>process_count := process_count s - 1\<rparr>
           in if process_count s = 0 then scheduler_idle s
              else Some (s\<lparr>current_index := current_index s mod process_count s\<rparr>))"

definition scheduler_get_current_process :: "'a sched_state_scheme \<Rightarrow> u64" where
  "scheduler_get_current_process s = (if process_count s = 0 then NULL else current_process s)"

section \<open>Frame facts\<close>

lemma upd_proc_frame [simp]:
  "processes (upd_proc p f s) = processes s" "process_count (upd_proc p f s) = process_count s"
  "current_index (upd_proc p f s) = current_index s" "free_pages (upd_proc p f s) = free_pages s"
  "stack_idx (upd_proc p f s) = stack_idx s" "stack_max (upd_proc p f s) = stack_max s"
  "proc_mem (upd_proc p f s) = (proc_mem s)(p := f (proc_mem s p))"
  "stack_pages (upd_proc p f s) = stack_pages s" "mem (upd_proc p f s) = mem s"
  "hhdm_offset (upd_proc p f s) = hhdm_offset s"
  by (simp_all add: upd_proc_def free_pages_def stack_slot_def)

lemma pmm_sched_frame [simp]:
  "processes (pmm_free_page p s) = processes s" "process_count (pmm_free_page p s) = process_count s"
  "current_index (pmm_free_page p s) = current_index s" "proc_mem (pmm_free_page p s) = proc_mem s"
  "processes (snd (pmm_request_page s)) = processes s"
  "process_count (snd (pmm_request_page s)) = process_count s"
  "current_index (snd (pmm_request_page s)) = current_index s"
  by (simp_all add: pmm_free_page_def stack_push_def pmm_request_page_def Let_def)

lemma vmm_sched_frame [simp]:
  "processes (vmm_switch_pagemap pm s) = processes s"
  "process_count (vmm_switch_pagemap pm s) = process_count s"
  "current_index (vmm_switch_pagemap pm s) = current_index s"
  "proc_mem (vmm_switch_pagemap pm s) = proc_mem s"
  by (simp_all add: vmm_switch_pagemap_def)

lemma process_destroy_frame [simp]:
  "processes (process_destroy p s) = processes s" "process_count (process_destroy p s) = process_count s"
  "current_index (process_destroy p s) = current_index s"
  by (simp_all add: process_destroy_def vmm_destroy_pagemap_def Let_def)

lemma request_struct_frame [simp]:
  "processes (snd (request_struct s)) = processes s"
  "process_count (snd (request_struct s)) = process_count s"
  "current_index (snd (request_struct s)) = current_index s"
  by (simp_all add: request_struct_def split_def Let_def)

lemma process_create_frame [simp]:
  "processes (snd (process_create e pm n s)) = processes s"
  "process_count (snd (process_create e pm n s)) = process_count s"
  "current_index (snd (process_create e pm n s)) = current_index s"
  by (simp_all add: process_create_def split_def Let_def)

lemma set_entry_sched_frame [simp]:
  "processes (set_entry t i v s) = processes s" "process_count (set_entry t i v s) = process_count s"
  "current_index (set_entry t i v s) = current_index s"
  by (simp_all add: set_entry_def)

lemma copy_kernel_sched_frame [simp]:
  "processes (copy_kernel_entries n is s) = processes s"
  "process_count (copy_kernel_entries n is s) = process_count s"
  "current_index (copy_kernel_entries n is s) = current_index s"
  by (induction "is" arbitrary: s) simp_all

lemma vmm_new_pagemap_frame [simp]:
  "processes (snd (vmm_new_pagemap s)) = processes s"
  "process_count (snd (vmm_new_pagemap s)) = process_count s"
  "current_index (snd (vmm_new_pagemap s)) = current_index s"
  by (simp_all add: vmm_new_pagemap_def split_def Let_def)

section \<open>Bounds of the process table\<close>

definition sched_inv :: "'a sched_state_scheme \<Rightarrow> bool" where
  "sched_inv s \<longleftrightarrow> length (processes s) = 256 \<and> process_count s \<le> MAX_PROCESSES \<and>
     (if process_count s = 0 then current_index s = 0 else current_index s < process_count s)"

lemma length_shift_down [simp]: "length (shift_down is ps) = length ps"
  by (induction "is" arbitrary: ps) simp_all

lemma scheduler_create_inv: "sched_inv s \<Longrightarrow> sched_inv (snd (scheduler_create_process e n s))"
  by (auto simp: sched_inv_def scheduler_create_process_def add_process_def split_def Let_def
      word_le_nat_alt word_less_nat_alt unat_word_ariths word_unat_eq_iff split: if_splits)

lemma scheduler_switch_inv:
  assumes "sched_inv s"
  shows "sched_inv (snd (scheduler_context_switch f s))"
proof (cases "process_count s = 0")
  case False
  then have "(current_index s + 1) mod process_count s < process_count s"
    by (simp add: word_mod_less_divisor word_gt_0)
  with assms False show ?thesis
    by (simp add: sched_inv_def scheduler_context_switch_def Let_def)
qed (use assms in \<open>simp add: scheduler_context_switch_def\<close>)

lemma scheduler_terminate_inv:
  assumes "sched_inv s" "process_count s \<noteq> 0" "scheduler_terminate_current_process e s = Some t"
  shows "sched_inv t"
proof -
  have "process_count s - 1 \<le> process_count s"
    using assms(2) by (simp add: word_le_nat_alt unat_minus_one)
  then have "process_count s - 1 \<le> 256" using assms(1) by (auto simp: sched_inv_def)
  with assms show ?thesis
    by (auto simp: scheduler_terminate_current_process_def Let_def scheduler_idle_def sched_inv_def
        word_mod_less_divisor word_gt_0 split: if_splits)
qed

text \<open>What can happen to the table: a process is created, a timer tick switches, the running process exits.\<close>

inductive sched_step :: "'a sched_state_scheme \<Rightarrow> 'a sched_state_scheme \<Rightarrow> bool" where
  create: "scheduler_create_process e n s = (p, t) \<Longrightarrow> sched_step s t"
| tick: "scheduler_context_switch f s = (f', t) \<Longrightarrow> sched_step s t"
| exit: "process_count s \<noteq> 0 \<Longrightarrow> scheduler_terminate_current_process c s = Some t \<Longrightarrow> sched_step s t"

definition sched_start :: "'a sched_state_scheme \<Rightarrow> bool" where
  "sched_start s \<longleftrightarrow> (\<exists>r. length (processes r) = 256 \<and> s = scheduler_init r)"

lemma sched_step_inv: "sched_step s t \<Longrightarrow> sched_inv s \<Longrightarrow> sched_inv t"
  by (induction rule: sched_step.induct)
    (metis scheduler_create_inv snd_conv, metis scheduler_switch_inv snd_conv, blast intro: scheduler_terminate_inv)

interpretation sched: invariant_system sched_start sched_step sched_inv
proof
  show "sched_inv s" if "sched_start s" for s :: "'a sched_state_scheme"
    using that by (auto simp: sched_start_def sched_inv_def scheduler_init_def)
  show "sched_inv t" if "sched_inv s" and "sched_step s t" for s t :: "'a sched_state_scheme"
    using that(2,1) by (rule sched_step_inv)
qed

section \<open>Round robin\<close>

text \<open>The entries in use, and a table of distinct non-null processes.\<close>

definition active :: "'a sched_state_scheme \<Rightarrow> u64 list" where
  "active s = take (unat (process_count s)) (processes s)"

definition sched_ready :: "'a sched_state_scheme \<Rightarrow> bool" where
  "sched_ready s \<longleftrightarrow> sched_inv s \<and> process_count s \<noteq> 0 \<and> distinct (active s) \<and> NULL \<notin> set (active s)"

definition cur :: "'a sched_state_scheme \<Rightarrow> nat" where
  "cur s = unat (current_index s)"

lemma sched_readyD:
  assumes "sched_ready s"
  shows "cur s < length (active s)" "length (active s) = unat (process_count s)"
    "current_process s = active s ! cur s" "length (active s) \<le> 256" "0 < length (active s)"
proof -
  have b: "length (processes s) = 256" "unat (process_count s) \<le> 256" "process_count s \<noteq> 0"
    "unat (current_index s) < unat (process_count s)"
    using assms by (auto simp: sched_ready_def sched_inv_def word_le_nat_alt word_less_nat_alt)
  then show "length (active s) = unat (process_count s)" "cur s < length (active s)" "length (active s) \<le> 256"
    "current_process s = active s ! cur s" by (simp_all add: active_def cur_def current_process_def)
  then show "0 < length (active s)" by linarith
qed

lemma next_index:
  assumes "sched_ready s"
  shows "unat ((current_index s + 1) mod process_count s) = (cur s + 1) mod length (active s)"
proof -
  note d = sched_readyD [OF assms]
  have "unat (current_index s + 1) = cur s + 1"
    using d(1,4) by (simp add: cur_def unat_word_ariths)
  then show ?thesis using d(2) by (simp add: unat_mod)
qed

text \<open>One switch, on the table of active processes.\<close>

lemma switch_ready:
  assumes rdy: "sched_ready s" and sw: "scheduler_context_switch f s = (f', t)"
    and run: "pstate (proc_mem s (current_process s)) = PROCESS_RUNNING"
  defines "n \<equiv> length (active s)"
  defines "q \<equiv> active s ! ((cur s + 1) mod n)"
  defines "m \<equiv> (proc_mem s)(current_process s := (proc_mem s (current_process s))\<lparr>ctx := f\<rparr>)"
  shows "active t = active s" and "cur t = (cur s + 1) mod n" and "sched_ready t" and "f' = ctx (m q)"
    and "proc_mem t = m(q := (m q)\<lparr>pstate := PROCESS_RUNNING\<rparr>)" and "current_process t = q"
    and "cr3 t = PHYSICAL s (pagemap (m q))"
proof -
  note d = sched_readyD [OF rdy] and i = next_index [OF rdy]
  have lt: "(cur s + 1) mod n < n" using d(5) by (simp add: n_def)
  have q: "processes s ! ((cur s + 1) mod n) = q" using lt by (simp add: q_def active_def n_def)
  have nz: "q \<noteq> NULL" "current_process s \<noteq> NULL" "process_count s \<noteq> 0"
    using rdy d lt unfolding q_def sched_ready_def n_def by (metis nth_mem)+
  have t: "t = vmm_switch_pagemap (pagemap (m q)) (s\<lparr>current_index := (current_index s + 1) mod process_count s,
      proc_mem := m(q := (m q)\<lparr>pstate := PROCESS_RUNNING\<rparr>)\<rparr>) \<and> f' = ctx (m q)"
    using sw nz run i q
    by (auto simp: scheduler_context_switch_def Let_def upd_proc_def m_def n_def current_process_def)
  then show "f' = ctx (m q)" "proc_mem t = m(q := (m q)\<lparr>pstate := PROCESS_RUNNING\<rparr>)" by simp_all
  show act: "active t = active s" using t by (simp add: active_def)
  show c: "cur t = (cur s + 1) mod n" using t i by (simp add: cur_def n_def)
  show "current_process t = q" using t i q by (simp add: current_process_def n_def)
  show "cr3 t = PHYSICAL s (pagemap (m q))" using t by (simp add: vmm_switch_pagemap_def PHYSICAL_def)
  have "sched_inv t" using scheduler_switch_inv [of s f] rdy sw by (simp add: sched_ready_def)
  moreover have "process_count t = process_count s" using t by simp
  ultimately show "sched_ready t" using rdy act by (simp add: sched_ready_def)
qed

text \<open>
  A run of timer ticks: each interrupts the running process at some frame, and the switch
  answers with the frame to continue at.
\<close>

fun run_ticks :: "int_frame_t list \<Rightarrow> 'a sched_state_scheme \<Rightarrow> int_frame_t list \<times> 'a sched_state_scheme" where
  "run_ticks [] s = ([], s)"
| "run_ticks (f # fs) s =
     (let (f', s) = scheduler_context_switch f s; (rs, s) = run_ticks fs s in (f' # rs, s))"

definition running :: "'a sched_state_scheme \<Rightarrow> bool" where
  "running s \<longleftrightarrow> pstate (proc_mem s (current_process s)) = PROCESS_RUNNING"

lemma run_ticks_append:
  "run_ticks (fs @ gs) s =
     (let (rs, s1) = run_ticks fs s; (qs, s2) = run_ticks gs s1 in (rs @ qs, s2))"
  by (induction fs arbitrary: s) (simp_all add: split_def Let_def)

lemma switch_running:
  "sched_ready s \<Longrightarrow> running s \<Longrightarrow> scheduler_context_switch f s = (f', t) \<Longrightarrow> running t"
  using switch_ready(5,6) [of s f f' t] by (simp add: running_def)

lemma run_ticks_ready:
  "sched_ready s \<Longrightarrow> running s \<Longrightarrow> run_ticks fs s = (rs, t) \<Longrightarrow>
   sched_ready t \<and> running t \<and> active t = active s \<and> length rs = length fs \<and>
   cur t = (cur s + length fs) mod length (active s)"
proof (induction fs arbitrary: s rs)
  case Nil
  then show ?case using sched_readyD(1) [of s] by simp
next
  case (Cons f fs)
  obtain f' s1 where sw: "scheduler_context_switch f s = (f', s1)" by (cases "scheduler_context_switch f s")
  obtain rs1 where r: "run_ticks fs s1 = (rs1, t)" "rs = f' # rs1"
    using Cons.prems(3) by (auto simp: sw Let_def split: prod.splits)
  note w = switch_ready [OF Cons.prems(1) sw Cons.prems(2) [unfolded running_def]]
  note ih = Cons.IH [OF w(3) switch_running [OF Cons.prems(1,2) sw] r(1)]
  show ?case using ih w(1,2) r(2) by (simp add: mod_add_left_eq)
qed

text \<open>The saved context of a process changes only by a tick that interrupts it.\<close>

lemma run_ticks_ctx:
  "sched_ready s \<Longrightarrow> running s \<Longrightarrow> run_ticks fs s = (rs, t) \<Longrightarrow> i < length (active s) \<Longrightarrow>
   (\<And>k. k < length fs \<Longrightarrow> (cur s + k) mod length (active s) \<noteq> i) \<Longrightarrow>
   ctx (proc_mem t (active s ! i)) = ctx (proc_mem s (active s ! i))"
proof (induction fs arbitrary: s rs)
  case (Cons f fs)
  obtain f' s1 where sw: "scheduler_context_switch f s = (f', s1)" by (cases "scheduler_context_switch f s")
  obtain rs1 where r: "run_ticks fs s1 = (rs1, t)"
    using Cons.prems(3) by (auto simp: sw Let_def split: prod.splits)
  note w = switch_ready [OF Cons.prems(1) sw Cons.prems(2) [unfolded running_def]]
    and d = sched_readyD [OF Cons.prems(1)]
  have "cur s \<noteq> i" using Cons.prems(5) [of 0] d(1) by simp
  then have "active s ! i \<noteq> current_process s"
    using Cons.prems(1,4) d(1,3) by (simp add: sched_ready_def nth_eq_iff_index_eq)
  then have keep: "ctx (proc_mem s1 (active s ! i)) = ctx (proc_mem s (active s ! i))"
    using w(5) by simp
  have "(cur s1 + k) mod length (active s1) \<noteq> i" if "k < length fs" for k
    using Cons.prems(5) [of "Suc k"] that w(1,2) by (simp add: mod_add_left_eq)
  from Cons.IH [OF w(3) switch_running [OF Cons.prems(1,2) sw] r _ this] keep w(1) Cons.prems(4)
  show ?case by simp
qed simp

lemma switch_saves:
  assumes "sched_ready s" "running s" "scheduler_context_switch f s = (f', t)"
  shows "ctx (proc_mem t (active s ! cur s)) = f" and "1 = length (active s) \<Longrightarrow> f' = f"
proof -
  note w = switch_ready [OF assms(1,3) assms(2) [unfolded running_def]] and d = sched_readyD [OF assms(1)]
  show "ctx (proc_mem t (active s ! cur s)) = f" using w(5) d(3) by simp
  show "1 = length (active s) \<Longrightarrow> f' = f" using w(4) d(1,3) by simp
qed

text \<open>The answer of a tick is the saved context of the process whose turn it is, if another was interrupted.\<close>

lemma switch_restores:
  assumes "sched_ready s" "running s" "scheduler_context_switch f s = (f', t)"
    and "i = (cur s + 1) mod length (active s)" "i \<noteq> cur s"
  shows "f' = ctx (proc_mem s (active s ! i))"
proof -
  note w = switch_ready [OF assms(1,3) assms(2) [unfolded running_def]] and d = sched_readyD [OF assms(1)]
  have "i < length (active s)" using d(5) assms(4) by simp
  then have "active s ! i \<noteq> current_process s"
    using assms(1,5) d(1,3) by (simp add: sched_ready_def nth_eq_iff_index_eq)
  then show ?thesis using w(4) assms(4) by simp
qed

lemma mod_turns: "c < n \<Longrightarrow> 0 < k \<Longrightarrow> k < n \<Longrightarrow> (c + k) mod n \<noteq> c" for c k n :: nat
  using mod_add_left_cancel_aux [of c k n 0] by auto

lemma context_round_trip:
  assumes rdy: "sched_ready s" "running s" and run: "run_ticks (f # fs) s = (rs, t)"
    and len: "length fs = length (active s) - 1"
  shows "last rs = f" and "current_process t = current_process s"
proof -
  let ?n = "length (active s)"
  note d = sched_readyD [OF rdy(1)] and e = run_ticks_ready [OF rdy run]
  have "cur t = (cur s + ?n) mod ?n" using e len d(5) by simp
  then have cur_t: "cur t = cur s" using d(1) by simp
  then show "current_process t = current_process s"
    using e d(3) sched_readyD(3) [of t] by simp
  obtain f' s1 where sw: "scheduler_context_switch f s = (f', s1)" by (cases "scheduler_context_switch f s")
  obtain rs1 where r: "run_ticks fs s1 = (rs1, t)" "rs = f' # rs1"
    using run by (auto simp: sw Let_def split: prod.splits)
  note w = switch_ready [OF rdy(1) sw rdy(2) [unfolded running_def]] and sv = switch_saves [OF rdy sw]
  note rdy1 = w(3) switch_running [OF rdy sw]
  show "last rs = f"
  proof (cases "fs = []")
    case True
    then have "1 = length (active s)" using len d(5) by (metis One_nat_def Suc_pred list.size(3))
    then show ?thesis using r sv(2) True by simp
  next
    case False
    then obtain gs g where fs: "fs = gs @ [g]" by (metis append_butlast_last_id)
    obtain rs2 s2 where r2: "run_ticks gs s1 = (rs2, s2)" by (cases "run_ticks gs s1")
    obtain g' where sw2: "scheduler_context_switch g s2 = (g', t)" and rs1: "rs1 = rs2 @ [g']"
      using r(1) by (auto simp: fs run_ticks_append r2 Let_def split: prod.splits)
    have lg: "length gs + 2 = ?n" using len d(5) fs by simp
    note e2 = run_ticks_ready [OF rdy1 r2]
    have turn: "(cur s1 + k) mod length (active s1) \<noteq> cur s" if "k < length gs" for k
      using mod_turns [OF d(1), of "Suc k"] that lg w(1,2) by (simp add: mod_add_left_eq)
    have kept: "ctx (proc_mem s2 (active s ! cur s)) = f"
      using run_ticks_ctx [OF rdy1 r2, of "cur s"] turn sv(1) w(1) d(1) by simp
    have c2: "cur s2 = (cur s + (?n - 1)) mod ?n"
    proof -
      have "cur s2 = ((cur s + 1) mod ?n + length gs) mod ?n" using e2 w(1,2) by simp
      also have "\<dots> = (cur s + (1 + length gs)) mod ?n" by (simp add: mod_add_left_eq)
      also have "1 + length gs = ?n - 1" using lg by linarith
      finally show ?thesis .
    qed
    have act: "active s2 = active s" using e2 w(1) by simp
    have turn_back: "cur s = (cur s2 + 1) mod length (active s2)"
      using c2 d(1,5) unfolding act by (simp add: mod_Suc_eq)
    have "0 < ?n - 1" "?n - 1 < ?n" using lg by linarith+
    from mod_turns [OF d(1) this] have "cur s \<noteq> cur s2" unfolding c2 by (rule not_sym)
    with switch_restores [OF _ _ sw2 turn_back] e2 have "g' = ctx (proc_mem s2 (active s2 ! cur s))" by blast
    then have "g' = f" unfolding act kept .
    then show ?thesis using r(2) rs1 by simp
  qed
qed

section \<open>Exit\<close>

lemma shift_down_nth:
  "m < length ps \<Longrightarrow> shift_down [c..<m] ps ! j = (if c \<le> j \<and> j < m then ps ! (j + 1) else ps ! j)"
proof (induction "m - c" arbitrary: c ps)
  case (Suc d)
  then have "c < m" by simp
  then have "shift_down [c..<m] ps = shift_down [Suc c..<m] (ps[c := ps ! (c + 1)])"
    by (simp add: upt_conv_Cons)
  moreover have "shift_down [Suc c..<m] (ps[c := ps ! (c + 1)]) ! j =
      (if Suc c \<le> j \<and> j < m then ps[c := ps ! (c + 1)] ! (j + 1) else ps[c := ps ! (c + 1)] ! j)"
    using Suc by (intro Suc.hyps(1)) simp_all
  ultimately show ?case using \<open>c < m\<close> Suc.prems by (auto simp: nth_list_update)
qed auto

lemma shift_down_take:
  assumes "c < n" "n \<le> length ps"
  shows "take (n - 1) (shift_down [c..<n - 1] ps) = take c ps @ drop (c + 1) (take n ps)"
proof (rule nth_equalityI)
  show "length (take (n - 1) (shift_down [c..<n - 1] ps)) = length (take c ps @ drop (c + 1) (take n ps))"
    using assms by simp
  fix j assume "j < length (take (n - 1) (shift_down [c..<n - 1] ps))"
  then have j: "j < n - 1" by simp
  have "n - 1 < length ps" using assms by simp
  from shift_down_nth [OF this, of c j] j assms
  show "take (n - 1) (shift_down [c..<n - 1] ps) ! j = (take c ps @ drop (c + 1) (take n ps)) ! j"
    by (auto simp: nth_append)
qed

lemma terminate_state:
  assumes inv: "sched_inv s" "process_count s \<noteq> 0" and run: "running s"
  shows "if unat (process_count s) = 1 then scheduler_terminate_current_process e s = None
    else \<exists>t. scheduler_terminate_current_process e s = Some t \<and> sched_inv t \<and>
      active t = take (cur s) (active s) @ drop (cur s + 1) (active s) \<and>
      cur t = cur s mod (length (active s) - 1) \<and>
      proc_mem t = (proc_mem s)(current_process s := (proc_mem s (current_process s))\<lparr>pstate := PROCESS_TERMINATED\<rparr>)"
proof -
  have n1: "unat (process_count s - 1) = unat (process_count s) - 1" using inv(2) by (rule unat_minus_one)
  have gt: "0 < unat (process_count s)" using inv(2) by (simp add: unat_gt_0)
  show ?thesis
  proof (cases "unat (process_count s) = 1")
    case True
    then have "process_count s - 1 = 0" using n1 by (simp add: unat_eq_zero)
    then show ?thesis
      using True run by (simp add: scheduler_terminate_current_process_def running_def Let_def scheduler_idle_def)
  next
    case False
    then have "process_count s - 1 \<noteq> 0" using n1 gt by (metis One_nat_def Suc_pred unat_0)
    then obtain t where t: "scheduler_terminate_current_process e s = Some t"
      and p: "processes t = shift_down [cur s..<unat (process_count s) - 1] (processes s)"
        "process_count t = process_count s - 1" "current_index t = current_index s mod (process_count s - 1)"
        "proc_mem t = (proc_mem s)(current_process s := (proc_mem s (current_process s))\<lparr>pstate := PROCESS_TERMINATED\<rparr>)"
      using run n1
      by (simp add: scheduler_terminate_current_process_def running_def Let_def cur_def
          process_destroy_def vmm_destroy_pagemap_def)
    have b: "cur s < unat (process_count s)" "unat (process_count s) \<le> length (processes s)"
      using inv by (auto simp: sched_inv_def cur_def word_less_nat_alt word_le_nat_alt)
    have "active t = take (cur s) (active s) @ drop (cur s + 1) (active s)"
      using shift_down_take [OF b] b n1 p by (simp add: active_def)
    moreover have "cur t = cur s mod (length (active s) - 1)"
      using p n1 b by (simp add: cur_def active_def unat_mod)
    ultimately show ?thesis using False t p(4) scheduler_terminate_inv [OF inv t] by simp
  qed
qed

text \<open>What \<open>pmm_free_page\<close> does below capacity, whatever it is given.\<close>

lemma free_any_page:
  assumes "slot_aligned (stack_pages s)" "unat (stack_pages s) + 8 * unat (stack_max s) \<le> 2 ^ 64"
    and "unat (stack_idx s) < unat (stack_max s)" "p \<noteq> NULL"
  shows "free_pages (pmm_free_page p s) = free_pages s @ [p]"
    and "unat (stack_idx (pmm_free_page p s)) = unat (stack_idx s) + 1"
    and "stack_pages (pmm_free_page p s) = stack_pages s" and "stack_max (pmm_free_page p s) = stack_max s"
proof -
  have e: "pmm_free_page p s = stack_push p s"
    using assms(3,4) by (simp add: pmm_free_page_def word_le_nat_alt)
  have room: "unat (stack_pages s) + 8 * (unat (stack_idx s) + 1) \<le> 2 ^ 64" using assms(2,3) by simp
  show "free_pages (pmm_free_page p s) = free_pages s @ [p]"
    "unat (stack_idx (pmm_free_page p s)) = unat (stack_idx s) + 1"
    unfolding e by (rule free_pages_push [OF assms(1) room])+
  show "stack_pages (pmm_free_page p s) = stack_pages s" "stack_max (pmm_free_page p s) = stack_max s"
    by (simp_all add: e)
qed

lemma process_destroy_frees:
  assumes lay: "slot_aligned (stack_pages s)" "unat (stack_pages s) + 8 * unat (stack_max s) \<le> 2 ^ 64"
    and room: "unat (stack_idx s) + 4 \<le> unat (stack_max s)"
    and nz: "pagemap (proc_mem s p) \<noteq> NULL" "f_rsp (ctx (proc_mem s p)) \<noteq> NULL" "p \<noteq> NULL"
  shows "free_pages (process_destroy p s) =
    free_pages s @ [pagemap (proc_mem s p), pagemap (proc_mem s p), f_rsp (ctx (proc_mem s p)), p]"
proof -
  let ?m = "pagemap (proc_mem s p)" and ?r = "f_rsp (ctx (proc_mem s p))"
  let ?s1 = "pmm_free_page ?m s"
  let ?s2 = "pmm_free_page ?m ?s1"
  let ?s3 = "pmm_free_page ?r ?s2"
  have "unat (stack_idx s) < unat (stack_max s)" using room by simp
  note a = free_any_page [OF lay this nz(1)]
  have "slot_aligned (stack_pages ?s1)" "unat (stack_pages ?s1) + 8 * unat (stack_max ?s1) \<le> 2 ^ 64"
    "unat (stack_idx ?s1) < unat (stack_max ?s1)" using lay room a by simp_all
  note b = free_any_page [OF this nz(1)]
  have "slot_aligned (stack_pages ?s2)" "unat (stack_pages ?s2) + 8 * unat (stack_max ?s2) \<le> 2 ^ 64"
    "unat (stack_idx ?s2) < unat (stack_max ?s2)" using lay room a b by simp_all
  note c = free_any_page [OF this nz(2)]
  have "slot_aligned (stack_pages ?s3)" "unat (stack_pages ?s3) + 8 * unat (stack_max ?s3) \<le> 2 ^ 64"
    "unat (stack_idx ?s3) < unat (stack_max ?s3)" using lay room a b c by simp_all
  note d = free_any_page [OF this nz(3)]
  show ?thesis
    using a(1) b(1) c(1) d(1) by (simp add: process_destroy_def vmm_destroy_pagemap_def Let_def)
qed

text \<open>After an exit the current process is the one that was next in turn.\<close>

lemma exit_successor:
  assumes rdy: "sched_ready s" and run: "running s" and two: "2 \<le> length (active s)"
    and t: "scheduler_terminate_current_process e s = Some t"
  shows "sched_ready t" and "current_process t = active s ! ((cur s + 1) mod length (active s))"
    and "q \<noteq> current_process s \<Longrightarrow> proc_mem t q = proc_mem s q"
proof -
  let ?n = "length (active s)" and ?c = "cur s"
  note d = sched_readyD [OF rdy]
  have inv: "sched_inv s" "process_count s \<noteq> 0" using rdy by (simp_all add: sched_ready_def)
  have st: "sched_inv t" "active t = take ?c (active s) @ drop (?c + 1) (active s)" "cur t = ?c mod (?n - 1)"
    "proc_mem t = (proc_mem s)(current_process s := (proc_mem s (current_process s))\<lparr>pstate := PROCESS_TERMINATED\<rparr>)"
    using terminate_state [OF inv run, of e] two d(2) t by auto
  then show "q \<noteq> current_process s \<Longrightarrow> proc_mem t q = proc_mem s q" by simp
  have len: "length (active t) = ?n - 1" using st(2) d(1) by simp
  have split: "active s = take ?c (active s) @ active s ! ?c # drop (?c + 1) (active s)"
    using id_take_nth_drop [OF d(1)] by simp
  have "distinct (active t)" "NULL \<notin> set (active t)"
    using rdy st(2) set_take_subset [of ?c "active s"] set_drop_subset [of "?c + 1" "active s"]
      set_take_disj_set_drop_if_distinct [of "active s" ?c "?c + 1"]
    by (auto simp: sched_ready_def)
  moreover have "process_count t \<noteq> 0"
    using len two st(1) by (auto simp: active_def)
  ultimately show rt: "sched_ready t" using st(1) by (simp add: sched_ready_def)
  show "current_process t = active s ! ((cur s + 1) mod length (active s))"
  proof (cases "?c + 1 < ?n")
    case True
    then have "cur t = ?c" using st(3) by simp
    then show ?thesis using sched_readyD(3) [OF rt] st(2) True d(1) by (simp add: nth_append)
  next
    case False
    then have c: "?c + 1 = ?n" using d(1) by simp
    then have "cur t = 0" using st(3) by (metis add_diff_cancel_right' mod_self)
    moreover have "0 < ?c" using c two by linarith
    ultimately show ?thesis using sched_readyD(3) [OF rt] st(2) c by (simp add: nth_append)
  qed
qed

section \<open>Two processes\<close>

definition two_processes :: sched_state where
  "two_processes = boot_desc \<lparr>proc_mem = (\<lambda>_. zero_process\<lparr>pstate := PROCESS_RUNNING\<rparr>),
     processes = 0x1000 # 0x2000 # replicate 254 0, process_count = 2, current_index = 0,
     sched_tick_count = 0, pid_counter = 2\<rparr>"

lemma two_processes_ready:
  "sched_ready two_processes" "running two_processes" "active two_processes = [0x1000, 0x2000]"
  "cur two_processes = 0" "sched_inv two_processes" "process_count two_processes = 2"
proof -
  have f: "processes two_processes = 0x1000 # 0x2000 # replicate 254 0" "process_count two_processes = 2"
    "current_index two_processes = 0" "proc_mem two_processes p = zero_process\<lparr>pstate := PROCESS_RUNNING\<rparr>" for p
    by (simp_all add: two_processes_def boot_desc_def boot_pmm_def)
  show a: "active two_processes = [0x1000, 0x2000]" and "cur two_processes = 0" and i: "sched_inv two_processes"
    and "process_count two_processes = 2" and "running two_processes"
    by (simp_all add: f active_def cur_def sched_inv_def running_def)
  show "sched_ready two_processes" using a i by (simp add: sched_ready_def f)
qed

lemma create_count:
  "process_count s < MAX_PROCESSES \<Longrightarrow>
   process_count (snd (scheduler_create_process e n s)) = process_count s + 1"
  by (simp add: scheduler_create_process_def add_process_def split_def Let_def)

section \<open>Properties\<close>



text \<open>
  C21. Round robin: with \<open>n\<close> distinct processes and one running, \<open>k\<close> ticks make the process \<open>k\<close>
  places further round the table the current one; in particular \<open>n\<close> ticks return to the first,
  and it then continues at exactly the frame at which it was interrupted, whatever the other
  processes did in between.
\<close>

theorem scheduler_round_robin:
  assumes "sched_ready s" and "running s" and "n = length (active s)"
    and "run_ticks (f # fs) s = (rs, t)"
  shows "active t = active s \<and> cur t = (cur s + length (f # fs)) mod n \<and> running t \<and>
    (length (f # fs) = n \<longrightarrow> last rs = f \<and> current_process t = current_process s)"
  using run_ticks_ready [OF assms(1,2,4)] context_round_trip [OF assms(1,2,4)] assms(3) by auto

theorem scheduler_round_robin_witness:
  "\<exists>rs t. run_ticks [zero_frame\<lparr>f_rip := 0x401000\<rparr>, zero_frame\<lparr>f_rip := 0x777000\<rparr>] two_processes = (rs, t) \<and>
     last rs = zero_frame\<lparr>f_rip := 0x401000\<rparr> \<and> current_process t = current_process two_processes"
proof -
  let ?f = "zero_frame\<lparr>f_rip := 0x401000\<rparr>" and ?g = "zero_frame\<lparr>f_rip := 0x777000\<rparr>"
  obtain rs t where r: "run_ticks [?f, ?g] two_processes = (rs, t)"
    by (cases "run_ticks [?f, ?g] two_processes")
  have "2 = length (active two_processes)" by (simp add: two_processes_ready)
  from scheduler_round_robin [OF two_processes_ready(1,2) this r] r show ?thesis by auto
qed

text \<open>
  Exit: when the running process exits, its entry and no other is removed from the table and
  the others keep their order; the index wraps to stay in range; when it was the last process
  the kernel idles and the call does not return.
\<close>

theorem scheduler_exit_removes:
  assumes "sched_inv s" and "process_count s \<noteq> 0" and "running s"
  shows "if length (active s) = 1 then scheduler_terminate_current_process e s = None
    else \<exists>t. scheduler_terminate_current_process e s = Some t \<and> sched_inv t \<and>
      active t = take (cur s) (active s) @ drop (cur s + 1) (active s) \<and>
      cur t = cur s mod (length (active s) - 1)"
proof -
  have "length (active s) = unat (process_count s)"
    using assms(1) by (auto simp: sched_inv_def active_def word_le_nat_alt)
  then show ?thesis using terminate_state [OF assms, of e] by auto
qed

theorem scheduler_exit_removes_witness:
  "\<exists>t. scheduler_terminate_current_process 0 two_processes = Some t \<and> active t = [0x2000]"
proof -
  have "process_count two_processes \<noteq> 0" by (simp add: two_processes_ready)
  from scheduler_exit_removes [OF two_processes_ready(5) this two_processes_ready(2), of 0] show ?thesis
    by (auto simp: two_processes_ready)
qed

text \<open>
  C36. An exit damages the next process: the exit system call returns into the frame of the process that
  has just exited, and the next timer tick saves that dead frame as the context of the process
  next in turn, if that one had been running before.
\<close>

theorem scheduler_exit_clobbers_next:
  assumes "sched_ready s" and "running s" and "2 \<le> length (active s)"
    and "nxt = active s ! ((cur s + 1) mod length (active s))"
    and "pstate (proc_mem s nxt) = PROCESS_RUNNING"
    and "scheduler_terminate_current_process e s = Some t" and "scheduler_context_switch dead t = (f', u)"
  shows "current_process t = nxt \<and> ctx (proc_mem u nxt) = dead"
proof -
  note x = exit_successor [OF assms(1-3,6)] and d = sched_readyD [OF assms(1)]
  have "(cur s + 1) mod length (active s) \<noteq> cur s" using mod_turns [OF d(1), of 1] assms(3) by simp
  moreover have "(cur s + 1) mod length (active s) < length (active s)" using d(5) by simp
  ultimately have "nxt \<noteq> current_process s"
    using assms(1,4) d(1,3) by (simp add: sched_ready_def nth_eq_iff_index_eq)
  then have "running t" using x assms(4,5) by (simp add: running_def)
  then have "ctx (proc_mem u (active t ! cur t)) = dead" using switch_saves(1) [OF x(1) _ assms(7)] by blast
  then show ?thesis using x(2) sched_readyD(3) [OF x(1)] assms(4) by simp
qed

theorem scheduler_exit_clobbers_next_witness:
  "\<exists>t f' u. scheduler_terminate_current_process 0 two_processes = Some t \<and>
     scheduler_context_switch (zero_frame\<lparr>f_rip := 0xDEAD\<rparr>) t = (f', u) \<and>
     f_rip (ctx (proc_mem u 0x2000)) = 0xDEAD"
proof -
  have "process_count two_processes \<noteq> 0" by (simp add: two_processes_ready)
  from terminate_state [OF two_processes_ready(5) this two_processes_ready(2), of 0] obtain t
    where t: "scheduler_terminate_current_process 0 two_processes = Some t" by (auto simp: two_processes_ready)
  let ?d = "zero_frame\<lparr>f_rip := 0xDEAD\<rparr>"
  obtain f' u where sw: "scheduler_context_switch ?d t = (f', u)" by (cases "scheduler_context_switch ?d t")
  have "2 \<le> length (active two_processes)"
    "0x2000 = active two_processes ! ((cur two_processes + 1) mod length (active two_processes))"
    "pstate (proc_mem two_processes 0x2000) = PROCESS_RUNNING"
    by (simp_all add: two_processes_ready) (simp add: two_processes_def boot_desc_def boot_pmm_def)
  from scheduler_exit_clobbers_next [OF two_processes_ready(1,2) this t sw] t sw show ?thesis by auto
qed

text \<open>
  C38. What an exit gives back is wrong twice over: with room on the free stack, \<open>process_destroy\<close>
  pushes the page map's address two times, so that two later requests receive the same page, and
  all four values it pushes are the pointers as the kernel uses them (the last byte of the stack page among
  them), not physical page addresses.
\<close>

theorem process_destroy_double_free:
  assumes "pmm_inv s" and "unat (stack_idx s) + 4 \<le> unat (stack_max s)"
    and "pagemap (proc_mem s p) \<noteq> NULL" and "f_rsp (ctx (proc_mem s p)) \<noteq> NULL" and "p \<noteq> NULL"
  shows "free_pages (process_destroy p s) =
      free_pages s @ [pagemap (proc_mem s p), pagemap (proc_mem s p), f_rsp (ctx (proc_mem s p)), p] \<and>
    \<not> pmm_inv (process_destroy p s)"
proof -
  have "slot_aligned (stack_pages s)" "unat (stack_pages s) + 8 * unat (stack_max s) \<le> 2 ^ 64"
    using assms(1) by (simp_all add: pmm_inv_def pmm_layout_def)
  from process_destroy_frees [OF this assms(2-5)] show ?thesis by (simp add: pmm_inv_def)
qed

theorem process_destroy_double_free_witness:
  "\<exists>s :: sched_state. pmm_inv s \<and> (\<exists>r. free_pages (process_destroy 0x1000 s) = free_pages s @ [7, 7, r, 0x1000])"
proof -
  let ?p = "zero_process\<lparr>pagemap := 7, ctx := zero_frame\<lparr>f_rsp := 9\<rparr>\<rparr>"
  obtain s :: sched_state where s: "pmm_inv s" "length (free_pages s) = 15" using boot_pool by blast
  let ?n = "stack_idx s - 4"
  define t where "t = s\<lparr>stack_idx := ?n, proc_mem := \<lambda>_. ?p\<rparr>"
  have n: "unat ?n = unat (stack_idx s) - 4" using s(2) by (simp add: unat_sub_if')
  have fp: "free_pages t = take (unat ?n) (free_pages s)"
    using n by (simp add: free_pages_def t_def stack_slot_def take_map take_upt)
  have "pmm_inv t"
    using s(1) pmm_layout_update [of t s] n fp set_take_subset [of "unat ?n" "free_pages s"]
    by (auto simp: pmm_inv_def t_def word_le_nat_alt)
  moreover have "unat (stack_idx t) + 4 \<le> unat (stack_max t)"
    using pmm_inv_idx [OF s(1)] n s(2) by (simp add: t_def)
  ultimately show ?thesis
    using process_destroy_double_free [of t "0x1000"]
    by (intro exI [of _ t]) (auto simp: t_def zero_process_def)
qed

end
