(* ===== verification/Manager.thy ===== *)
theory Manager
  imports Scheduler
begin

text \<open>
  The device table, \<^verbatim>\<open>kernel/src/proc/manager.c\<close>: 256 slots of pointers to handles, indexed by the
  device number in the handle. Handles live in the store \<open>handle_mem\<close>; their function pointers
  are the names of the functions of the two devices the kernel has. The table's promise to its
  clients is the locale \<open>device_table\<close>.
\<close>

section \<open>State and operations\<close>

datatype poll_fn = Stdin_poll | Stdout_poll
datatype read_fn = Stdin_read | Stdout_read
datatype write_fn = Stdin_write | Stdout_write

record handle_t =
  handle_id :: u32
  handle_poll :: poll_fn
  handle_read :: read_fn
  handle_write :: write_fn

record manager_state = sched_state +
  handle_mem :: "u64 \<Rightarrow> handle_t"
  devices :: "u64 list"

abbreviation (input) MAX_DEVICES :: nat where "MAX_DEVICES \<equiv> 256"

definition device_manager_init :: "'a manager_state_scheme \<Rightarrow> 'a manager_state_scheme" where
  "device_manager_init s = s\<lparr>devices := fold (\<lambda>i ds. ds[i := NULL]) [0..<MAX_DEVICES] (devices s)\<rparr>"

definition device_register :: "u64 \<Rightarrow> 'a manager_state_scheme \<Rightarrow> int \<times> 'a manager_state_scheme" where
  "device_register handle s =
     (if handle = NULL \<or> MAX_DEVICES \<le> unat (handle_id (handle_mem s handle)) then (- 1, s)
      else if devices s ! unat (handle_id (handle_mem s handle)) \<noteq> NULL then (- 1, s)
      else (0, s\<lparr>devices := (devices s)[unat (handle_id (handle_mem s handle)) := handle]\<rparr>))"

definition device_get :: "u32 \<Rightarrow> 'a manager_state_scheme \<Rightarrow> u64" where
  "device_get dev_id s =
     (if MAX_DEVICES \<le> unat dev_id then NULL
      else let device = devices s ! unat dev_id
           in if device = NULL then NULL else device)"

definition device_unregister :: "u32 \<Rightarrow> 'a manager_state_scheme \<Rightarrow> int \<times> 'a manager_state_scheme" where
  "device_unregister dev_id s =
     (if MAX_DEVICES \<le> unat dev_id then (- 1, s)
      else if devices s ! unat dev_id = NULL then (- 1, s)
      else (0, s\<lparr>devices := (devices s)[unat dev_id := NULL]\<rparr>))"

section \<open>The interface of the table\<close>

locale device_table =
  fixes register :: "u64 \<Rightarrow> 's \<Rightarrow> int \<times> 's"
    and lookup :: "u32 \<Rightarrow> 's \<Rightarrow> u64"
    and unregister :: "u32 \<Rightarrow> 's \<Rightarrow> int \<times> 's"
    and id_of :: "u64 \<Rightarrow> 's \<Rightarrow> u32"
    and valid :: "'s \<Rightarrow> bool"
  assumes register_free: "valid s \<Longrightarrow> h \<noteq> NULL \<Longrightarrow> unat (id_of h s) < 256 \<Longrightarrow> lookup (id_of h s) s = NULL \<Longrightarrow>
      fst (register h s) = 0 \<and> valid (snd (register h s)) \<and> id_of k (snd (register h s)) = id_of k s \<and>
      lookup i (snd (register h s)) = (if i = id_of h s then h else lookup i s)"
    and register_fail: "valid s \<Longrightarrow> h = NULL \<or> 256 \<le> unat (id_of h s) \<or> lookup (id_of h s) s \<noteq> NULL \<Longrightarrow>
      register h s = (- 1, s)"
    and unregister_used: "valid s \<Longrightarrow> lookup j s \<noteq> NULL \<Longrightarrow>
      fst (unregister j s) = 0 \<and> valid (snd (unregister j s)) \<and> id_of k (snd (unregister j s)) = id_of k s \<and>
      lookup i (snd (unregister j s)) = (if i = j then NULL else lookup i s)"
    and unregister_fail: "valid s \<Longrightarrow> lookup j s = NULL \<Longrightarrow> unregister j s = (- 1, s)"
begin

lemma register_twice:
  assumes "valid s" "h \<noteq> NULL" "unat (id_of h s) < 256" "lookup (id_of h s) s = NULL"
    and "t = snd (register h s)" "id_of h' s = id_of h s"
  shows "register h' t = (- 1, t)"
  using register_free [OF assms(1-4)] register_fail [of t h'] assms(2,5,6) by simp

lemma unregister_register:
  assumes "valid s" "h \<noteq> NULL" "unat (id_of h s) < 256" "lookup (id_of h s) s = NULL"
    and "t = snd (register h s)"
  shows "lookup i (snd (unregister (id_of h s) t)) = lookup i s"
  using register_free [OF assms(1-4)] unregister_used [of t "id_of h s"] assms(2,4,5) by auto

lemma register_commute:
  assumes "valid s" "h \<noteq> NULL" "unat (id_of h s) < 256" "lookup (id_of h s) s = NULL"
    and "k \<noteq> NULL" "unat (id_of k s) < 256" "lookup (id_of k s) s = NULL" "id_of h s \<noteq> id_of k s"
  shows "lookup i (snd (register k (snd (register h s)))) = lookup i (snd (register h (snd (register k s))))"
  using register_free [OF assms(1-4)] register_free [OF assms(1,5-7)]
    register_free [of "snd (register h s)" k] register_free [of "snd (register k s)" h] assms by auto

end

definition devices_ok :: "'a manager_state_scheme \<Rightarrow> bool" where
  "devices_ok s \<longleftrightarrow> length (devices s) = 256"

lemma devices_ok_init: "devices_ok s \<Longrightarrow> devices_ok (device_manager_init s)"
proof -
  have "length (fold (\<lambda>i ds. ds[i := NULL]) is ds) = length ds" for ds :: "u64 list" and "is" :: "nat list"
    by (induction "is" arbitrary: ds) simp_all
  then show "devices_ok s \<Longrightarrow> devices_ok (device_manager_init s)"
    by (simp add: devices_ok_def device_manager_init_def)
qed

interpretation dev: device_table device_register device_get device_unregister
  "\<lambda>h s. handle_id (handle_mem s h)" devices_ok
proof
  fix s :: "'a manager_state_scheme" and h k i j
  show "fst (device_register h s) = 0 \<and> devices_ok (snd (device_register h s)) \<and>
      handle_id (handle_mem (snd (device_register h s)) k) = handle_id (handle_mem s k) \<and>
      device_get i (snd (device_register h s)) = (if i = handle_id (handle_mem s h) then h else device_get i s)"
    if "devices_ok s" "h \<noteq> NULL" "unat (handle_id (handle_mem s h)) < 256"
      "device_get (handle_id (handle_mem s h)) s = NULL"
    using that by (auto simp: device_register_def device_get_def devices_ok_def Let_def nth_list_update
        word_unat_eq_iff split: if_splits)
  show "device_register h s = (- 1, s)"
    if "devices_ok s" "h = NULL \<or> 256 \<le> unat (handle_id (handle_mem s h)) \<or>
      device_get (handle_id (handle_mem s h)) s \<noteq> NULL"
    using that by (auto simp: device_register_def device_get_def Let_def split: if_splits)
  show "fst (device_unregister j s) = 0 \<and> devices_ok (snd (device_unregister j s)) \<and>
      handle_id (handle_mem (snd (device_unregister j s)) k) = handle_id (handle_mem s k) \<and>
      device_get i (snd (device_unregister j s)) = (if i = j then NULL else device_get i s)"
    if "devices_ok s" "device_get j s \<noteq> NULL"
    using that by (auto simp: device_unregister_def device_get_def devices_ok_def Let_def nth_list_update
        word_unat_eq_iff split: if_splits)
  show "device_unregister j s = (- 1, s)" if "devices_ok s" "device_get j s = NULL"
    using that by (auto simp: device_unregister_def device_get_def Let_def split: if_splits)
qed

section \<open>Properties\<close>



end
