(* ===== verification/Devices.thy ===== *)
theory Devices
  imports Manager
begin

text \<open>
  The two devices, \<^verbatim>\<open>kernel/src/devices/stdin.c\<close> (the keyboard) and
  \<^verbatim>\<open>kernel/src/devices/stdout.c\<close> (the screen), and the timer of \<^verbatim>\<open>kernel/src/main.c\<close>. The key that was last
  pressed or released is one variable of the kernel; its symbol is a pointer to a string
  literal, whose address the linker chooses: the argument \<open>lit\<close> gives the address of each
  literal. Reading past the end of a C array is the fault \<open>Out_of_bounds\<close>, calling through a null
  pointer the fault \<open>Null_deref\<close>.
\<close>

section \<open>State\<close>

datatype fault = Out_of_bounds | Null_deref

datatype 'a outcome = Fault fault | Ok 'a

record device_state = manager_state +
  key_sym :: u64
  key_scancode :: u8
  key_released :: bool
  timer_ticks :: u64

abbreviation (input) DEVICE_READY :: u8 where "DEVICE_READY \<equiv> 0"
abbreviation (input) DEVICE_BUSY :: u8 where "DEVICE_BUSY \<equiv> 1"
abbreviation (input) PS2_DATA :: u16 where "PS2_DATA \<equiv> 0x60"

section \<open>The keyboard\<close>

definition keymap :: "(nat \<times> string) list" where
  "keymap = [
    (0x01, ''Esc''), (0x02, ''1''), (0x03, ''2''), (0x04, ''3''), (0x05, ''4''),
    (0x06, ''5''), (0x07, ''6''), (0x08, ''7''), (0x09, ''8''), (0x0A, ''9''), (0x0B, ''0''),
    (0x0C, ''-''), (0x0D, ''=''), (0x0E, ''Backspace''), (0x0F, ''Tab''), (0x10, ''Q''),
    (0x11, ''W''), (0x12, ''E''), (0x13, ''R''), (0x14, ''T''), (0x15, ''Y''), (0x16, ''U''),
    (0x17, ''I''), (0x18, ''O''), (0x19, ''P''), (0x1C, ''Enter''), (0x1D, ''Ctrl''),
    (0x1E, ''A''), (0x1F, ''S''), (0x20, ''D''), (0x21, ''F''), (0x22, ''G''), (0x23, ''H''),
    (0x24, ''J''), (0x25, ''K''), (0x26, ''L''), (0x27, '';''), (0x29, ''`''),
    (0x2A, ''Shift''), (0x2C, ''Z''), (0x2D, ''X''), (0x2E, ''C''), (0x2F, ''V''),
    (0x30, ''B''), (0x31, ''N''), (0x32, ''M''), (0x33, '',''), (0x34, ''.''), (0x35, ''/''),
    (0x39, ''Space''), (0x3A, ''CapsLock''), (0x3B, ''F1''), (0x57, ''F11''), (0x58, ''F12'')]"

text \<open>The array ends with its last designated element, so it has 0x59 entries; the gaps are null.\<close>

definition keymap_size :: nat where "keymap_size = 0x59"

definition keymap_sym :: "(string \<Rightarrow> u64) \<Rightarrow> u8 \<Rightarrow> u64 outcome" where
  "keymap_sym lit scancode =
     (if keymap_size \<le> unat scancode then Fault Out_of_bounds
      else Ok (case map_of keymap (unat scancode) of None \<Rightarrow> NULL | Some str \<Rightarrow> lit str))"

definition keyboard_handler ::
  "(string \<Rightarrow> u64) \<Rightarrow> int_frame_t \<Rightarrow> 'a device_state_scheme \<Rightarrow> 'a device_state_scheme outcome" where
  "keyboard_handler lit frame s =
     (let (data, s) = inb PS2_DATA s;
          is_released = (data AND 0x80 \<noteq> 0);
          scancode = data AND 0x7F
      in case keymap_sym lit scancode of
           Fault e \<Rightarrow> Fault e
         | Ok symb \<Rightarrow>
             Ok (pic_send_end_of_interrupt 1
               (s\<lparr>key_sym := symb, key_scancode := scancode, key_released := is_released\<rparr>)))"

definition stdin_poll :: "'a device_state_scheme \<Rightarrow> u8" where
  "stdin_poll s = (if key_sym s \<noteq> NULL then DEVICE_READY else DEVICE_BUSY)"

text \<open>\<open>*(key_t *)buf = key\<close>: the symbol at offset 0, the scan code at 8, the release flag at 9.\<close>

definition store_key :: "u64 \<Rightarrow> 'a device_state_scheme \<Rightarrow> 'a device_state_scheme" where
  "store_key buf s =
     s\<lparr>mem := (store64 (mem s) buf (key_sym s))
        (buf + 8 := key_scancode s, buf + 9 := (if key_released s then 1 else 0))\<rparr>"

definition stdin_read :: "u64 \<Rightarrow> 'a device_state_scheme \<Rightarrow> u64 \<times> 'a device_state_scheme" where
  "stdin_read buf s =
     (if key_sym s \<noteq> NULL then (1, (store_key buf s)\<lparr>key_sym := NULL\<rparr>) else (0, s))"

definition stdin_write :: "u64 \<Rightarrow> u64 \<Rightarrow> 'a device_state_scheme \<Rightarrow> 'a device_state_scheme" where
  "stdin_write buf count s = s"

definition stdin_init :: "u64 \<Rightarrow> 'a device_state_scheme \<Rightarrow> 'a device_state_scheme" where
  "stdin_init stdin_handle s =
     idt_irq_register 1 Keyboard_handler
       (s\<lparr>handle_mem := (handle_mem s)(stdin_handle :=
          \<lparr>handle_id = 1, handle_poll = Stdin_poll, handle_read = Stdin_read, handle_write = Stdin_write\<rparr>)\<rparr>)"

section \<open>The screen\<close>

definition stdout_poll :: "'a device_state_scheme \<Rightarrow> u8" where
  "stdout_poll s = DEVICE_READY"

definition stdout_read :: "u64 \<Rightarrow> 'a device_state_scheme \<Rightarrow> u64 \<times> 'a device_state_scheme" where
  "stdout_read buf s = (0, s)"

fun stdout_write_loop :: "u64 \<Rightarrow> nat \<Rightarrow> 'a device_state_scheme \<Rightarrow> 'a device_state_scheme" where
  "stdout_write_loop buf 0 s = s"
| "stdout_write_loop buf (Suc n) s = stdout_write_loop (buf + 1) n (snd (flanterm_putchar (mem s buf) s))"

definition stdout_write :: "u64 \<Rightarrow> u64 \<Rightarrow> 'a device_state_scheme \<Rightarrow> 'a device_state_scheme" where
  "stdout_write buf count s = stdout_write_loop buf (unat count) s"

definition stdout_init :: "u64 \<Rightarrow> 'a device_state_scheme \<Rightarrow> 'a device_state_scheme" where
  "stdout_init stdout_handle s =
     s\<lparr>handle_mem := (handle_mem s)(stdout_handle :=
        \<lparr>handle_id = 0, handle_poll = Stdout_poll, handle_read = Stdout_read, handle_write = Stdout_write\<rparr>)\<rparr>"

section \<open>Calls through a handle\<close>

fun call_poll :: "poll_fn \<Rightarrow> 'a device_state_scheme \<Rightarrow> u8" where
  "call_poll Stdin_poll s = stdin_poll s"
| "call_poll Stdout_poll s = stdout_poll s"

fun call_read :: "read_fn \<Rightarrow> u64 \<Rightarrow> 'a device_state_scheme \<Rightarrow> u64 \<times> 'a device_state_scheme" where
  "call_read Stdin_read buf s = stdin_read buf s"
| "call_read Stdout_read buf s = stdout_read buf s"

fun call_write :: "write_fn \<Rightarrow> u64 \<Rightarrow> u64 \<Rightarrow> 'a device_state_scheme \<Rightarrow> 'a device_state_scheme" where
  "call_write Stdin_write buf count s = stdin_write buf count s"
| "call_write Stdout_write buf count s = stdout_write buf count s"

section \<open>The timer\<close>

abbreviation (input) PIT_CHANNEL_0 :: u16 where "PIT_CHANNEL_0 \<equiv> 0x40"
abbreviation (input) PIT_COMMAND :: u16 where "PIT_COMMAND \<equiv> 0x43"
abbreviation (input) PIT_FREQUENCY :: int where "PIT_FREQUENCY \<equiv> 1193182"

definition timer_interrupt_handler ::
  "int_frame_t \<Rightarrow> 'a device_state_scheme \<Rightarrow> int_frame_t \<times> 'a device_state_scheme" where
  "timer_interrupt_handler frame s =
     (let s = s\<lparr>timer_ticks := timer_ticks s + 1\<rparr>;
          (frame, s) = scheduler_context_switch frame s
      in (frame, pic_send_end_of_interrupt 0 s))"

definition timer_divisor :: "int \<Rightarrow> u16" where
  "timer_divisor frequency =
     word_of_int (PIT_FREQUENCY div (if frequency < 18 \<or> 1000 < frequency then 100 else frequency))"

definition timer_init :: "int \<Rightarrow> 'a device_state_scheme \<Rightarrow> 'a device_state_scheme" where
  "timer_init frequency s =
     (let divisor = timer_divisor frequency;
          s = outb PIT_COMMAND 0x36 s;
          s = outb PIT_CHANNEL_0 (ucast (divisor AND 0xFF)) s;
          s = outb PIT_CHANNEL_0 (ucast (drop_bit 8 divisor AND 0xFF)) s;
          s = pic_unmask 0 s
      in idt_irq_register 0 Timer_interrupt_handler s)"

definition timer_get_ticks :: "'a device_state_scheme \<Rightarrow> u64" where
  "timer_get_ticks s = timer_ticks s"

section \<open>Properties\<close>

lemma device_io_frame [simp]:
  "key_sym (outb p v s) = key_sym s" "key_scancode (outb p v s) = key_scancode s"
  "key_released (outb p v s) = key_released s" "key_sym (io_wait s) = key_sym s"
  "key_scancode (io_wait s) = key_scancode s" "key_released (io_wait s) = key_released s"
  by (simp_all add: outb_def io_wait_def)

lemma device_eoi_frame [simp]:
  "key_sym (pic_send_end_of_interrupt i s) = key_sym s"
  "key_scancode (pic_send_end_of_interrupt i s) = key_scancode s"
  "key_released (pic_send_end_of_interrupt i s) = key_released s"
  "mem (pic_send_end_of_interrupt i s) = mem s"
  by (simp_all add: pic_send_end_of_interrupt_def Let_def)

lemma key_bytes_disjoint: "\<not> in_range a 8 (a + 8)" "\<not> in_range a 8 (a + 9)" for a :: u64
  by (simp_all add: in_range_def)

lemma store_key_memory:
  "load64 (mem (store_key buf s)) buf = key_sym s" "mem (store_key buf s) (buf + 8) = key_scancode s"
  "mem (store_key buf s) (buf + 9) = (if key_released s then 1 else 0)"
proof -
  have "load64 (mem (store_key buf s)) buf = load64 (store64 (mem s) buf (key_sym s)) buf"
    using key_bytes_disjoint [of buf] by (intro load64_cong) (auto simp: store_key_def)
  then show "load64 (mem (store_key buf s)) buf = key_sym s" by simp
qed (simp_all add: store_key_def)

lemma stdout_write_loop_out:
  "stdout_write_loop buf n s = s\<lparr>ft_out := ft_out s @ map (\<lambda>i. mem s (buf + of_nat i)) [0..<n]\<rparr>"
proof (induction n arbitrary: buf s)
  case (Suc n)
  have "map (\<lambda>i. mem s (buf + of_nat i)) [0..<Suc n] = mem s buf # map (\<lambda>i. mem s (buf + 1 + of_nat i)) [0..<n]"
    by (simp add: upt_conv_Cons map_Suc_upt [symmetric] comp_def add.assoc del: upt_Suc)
  then show ?case by (simp add: Suc.IH flanterm_putchar_def del: upt_Suc)
qed simp

text \<open>The variables of this component at boot.\<close>

definition boot_devices :: device_state where
  "boot_devices = boot_desc \<lparr>proc_mem = (\<lambda>_. zero_process), processes = replicate 256 0, process_count = 0,
     current_index = 0, sched_tick_count = 0, pid_counter = 0,
     handle_mem = (\<lambda>_. \<lparr>handle_id = 0, handle_poll = Stdin_poll, handle_read = Stdin_read, handle_write = Stdin_write\<rparr>),
     devices = replicate 256 0, key_sym = 0, key_scancode = 0, key_released = False, timer_ticks = 0\<rparr>"

text \<open>
  A key press is delivered once: when the keyboard controller answers with a byte whose low
  seven bits are a scan code of the keymap, the interrupt handler leaves the device ready; the
  next read stores the symbol, the scan code and the release flag in the caller's buffer and
  returns 1; after that the device is busy and a further read returns 0 and stores nothing.
\<close>

theorem key_delivered_once:
  assumes "data = fst (inb PS2_DATA s)" and "map_of keymap (unat (data AND 0x7F)) = Some str"
    and "unat (data AND 0x7F) < keymap_size" and "lit str \<noteq> NULL"
  shows "\<exists>t u. keyboard_handler lit f s = Ok t \<and> stdin_poll t = DEVICE_READY \<and> stdin_read buf t = (1, u) \<and>
    load64 (mem u) buf = lit str \<and> mem u (buf + 8) = data AND 0x7F \<and>
    mem u (buf + 9) = (if data AND 0x80 \<noteq> 0 then 1 else 0) \<and>
    stdin_poll u = DEVICE_BUSY \<and> stdin_read buf2 u = (0, u)"
proof -
  obtain s1 where i: "inb PS2_DATA s = (data, s1)" using assms(1) by (metis prod.collapse)
  let ?t = "pic_send_end_of_interrupt 1
    (s1\<lparr>key_sym := lit str, key_scancode := data AND 0x7F, key_released := (data AND 0x80 \<noteq> 0)\<rparr>)"
  have k: "keyboard_handler lit f s = Ok ?t"
    using assms by (simp add: keyboard_handler_def i keymap_sym_def)
  have r: "stdin_read buf ?t = (1, (store_key buf ?t)\<lparr>key_sym := NULL\<rparr>)"
    using assms(4) by (simp add: stdin_read_def)
  show ?thesis
    using k r assms(4) store_key_memory [of buf ?t]
    by (intro exI [of _ ?t] exI [of _ "(store_key buf ?t)\<lparr>key_sym := NULL\<rparr>"])
      (simp add: stdin_poll_def stdin_read_def)
qed

theorem key_delivered_once_witness:
  "\<exists>t u. keyboard_handler (\<lambda>str. 0xFFFFFFFF80200000 + of_nat (length str)) zero_frame
      (boot_devices\<lparr>io_dev := \<lambda>_ _. 0x9E\<rparr>) = Ok t \<and> stdin_read 0x400000 t = (1, u) \<and>
    mem u 0x400008 = 0x1E \<and> mem u 0x400009 = 1 \<and> stdin_poll u = DEVICE_BUSY"
proof -
  let ?s = "boot_devices\<lparr>io_dev := \<lambda>_ _. 0x9E\<rparr>" and ?lit = "\<lambda>str. 0xFFFFFFFF80200000 + of_nat (length str) :: u64"
  have "(0x9E :: u8) = fst (inb PS2_DATA ?s)" by (simp add: inb_def Let_def)
  moreover have "map_of keymap (unat ((0x9E :: u8) AND 0x7F)) = Some ''A''" by (simp add: keymap_def)
  moreover have "unat ((0x9E :: u8) AND 0x7F) < keymap_size" by (simp add: keymap_size_def)
  moreover have "?lit ''A'' \<noteq> NULL" by simp
  ultimately show ?thesis
    using key_delivered_once [of "0x9E" ?s "''A''" ?lit zero_frame "0x400000"] by fastforce
qed

text \<open>
  A scan code the keymap does not cover is read out of bounds: the keymap array has 0x59
  entries and the handler indexes it with any of the 128 scan codes; the handler faults exactly for 0x59 to 0x7F.
\<close>

theorem keyboard_scancode_out_of_bounds:
  "keyboard_handler lit f s = Fault Out_of_bounds \<longleftrightarrow> 0x59 \<le> unat (fst (inb PS2_DATA s) AND 0x7F)"
  by (simp add: keyboard_handler_def keymap_sym_def keymap_size_def split_def Let_def)

lemma pos_zdiv_le_aux: "0 < f \<Longrightarrow> b \<le> a div f \<longleftrightarrow> b * f \<le> a" for a b f :: int
proof -
  assume f: "0 < f"
  have "b * f \<le> a" if "b \<le> a div f"
  proof -
    have "b * f \<le> a div f * f" using that f by simp
    also have "\<dots> \<le> a" using f by (simp add: minus_mod_eq_div_mult [symmetric])
    finally show ?thesis .
  qed
  moreover have "b \<le> a div f" if "b * f \<le> a"
    using zdiv_mono1 [OF that f] f by simp
  ultimately show ?thesis by blast
qed

lemma div_less_iff_aux: "0 < f \<Longrightarrow> a div f < b \<longleftrightarrow> a < b * f" for a b f :: int
  using pos_zdiv_le_aux [of f b a] by linarith

text \<open>
  The timer's divisor: for every accepted frequency from 19 to 1000 the value sent to the timer chip
  is the quotient of the base clock and the frequency; for 18, which is accepted too, the
  quotient does not fit in 16 bits and the value sent is 751, a rate of about 1588 Hz.
\<close>

theorem timer_divisor_range:
  "(19 \<le> f \<and> f \<le> 1000 \<longrightarrow> uint (timer_divisor f) = PIT_FREQUENCY div f) \<and> timer_divisor 18 = 751"
proof (intro conjI impI)
  assume f: "19 \<le> f \<and> f \<le> 1000"
  have "0 \<le> 1193182 div f" using f by (simp add: pos_imp_zdiv_nonneg_iff)
  moreover have "1193182 div f < 65536" using f by (subst div_less_iff_aux) auto
  ultimately show "uint (timer_divisor f) = PIT_FREQUENCY div f"
    using f by (simp add: timer_divisor_def uint_word_of_int_eq take_bit_int_eq_self)
qed (simp add: timer_divisor_def)

theorem timer_divisor_range_witness: "uint (timer_divisor 100) = 11931"
  using timer_divisor_range [of 100] by simp

end
