(* ===== verification/Timer.thy ===== *)
theory Timer
  imports Devices
begin

text \<open>
  Waiting for the timer: \<open>timer_sleep\<close> of \<^verbatim>\<open>kernel/src/main.c\<close>. The processor halts until an interrupt has been handled; what the
  handlers of the \<open>i\<close>-th interruption do to the state is the argument \<open>wake\<close>.
\<close>

section \<open>Definitions\<close>

partial_function (option) timer_sleep_loop ::
  "(nat \<Rightarrow> 'a device_state_scheme \<Rightarrow> 'a device_state_scheme) \<Rightarrow> nat \<Rightarrow> u64 \<Rightarrow> 'a device_state_scheme \<Rightarrow> 'a device_state_scheme option" where
  "timer_sleep_loop wake i limit s =
     (if timer_get_ticks s < limit then timer_sleep_loop wake (Suc i) limit (wake i s) else Some s)"

definition timer_sleep ::
  "(nat \<Rightarrow> 'a device_state_scheme \<Rightarrow> 'a device_state_scheme) \<Rightarrow> u64 \<Rightarrow> 'a device_state_scheme \<Rightarrow> 'a device_state_scheme option" where
  "timer_sleep wake ticks s = (let start = timer_get_ticks s in timer_sleep_loop wake 0 (start + ticks) s)"

section \<open>Interruptions\<close>

text \<open>The interruptions at which the timer is among the devices that interrupt; each counts one tick.\<close>

definition counts_ticks :: "(nat \<Rightarrow> 'a device_state_scheme \<Rightarrow> 'a device_state_scheme) \<Rightarrow> (nat \<Rightarrow> bool) \<Rightarrow> bool" where
  "counts_ticks wake tick \<longleftrightarrow> (\<forall>i s. timer_ticks (wake i s) = timer_ticks s + (if tick i then 1 else 0))"

definition fair :: "(nat \<Rightarrow> bool) \<Rightarrow> bool" where
  "fair tick \<longleftrightarrow> (\<forall>i. \<exists>j\<ge>i. tick j)"

lemma sleep_quiet:
  assumes "counts_ticks wake tick" and "tick j" and "i \<le> j" and "timer_ticks s < limit"
  shows "\<exists>k s'. timer_sleep_loop wake i limit s = timer_sleep_loop wake k limit s' \<and> timer_ticks s' = timer_ticks s + 1"
  using assms(3,4)
proof (induction "j - i" arbitrary: i s)
  case 0
  then have "tick i" using assms(2) by simp
  then have "timer_ticks (wake i s) = timer_ticks s + 1" using assms(1) by (simp add: counts_ticks_def)
  moreover have "timer_sleep_loop wake i limit s = timer_sleep_loop wake (Suc i) limit (wake i s)"
    using 0 by (subst timer_sleep_loop.simps) (simp add: timer_get_ticks_def)
  ultimately show ?case by blast
next
  case (Suc n)
  then have step: "timer_sleep_loop wake i limit s = timer_sleep_loop wake (Suc i) limit (wake i s)"
    by (subst timer_sleep_loop.simps) (simp add: timer_get_ticks_def)
  show ?case
  proof (cases "tick i")
    case True
    then have "timer_ticks (wake i s) = timer_ticks s + 1" using assms(1) by (simp add: counts_ticks_def)
    then show ?thesis using step by blast
  next
    case False
    then have "timer_ticks (wake i s) = timer_ticks s" using assms(1) by (simp add: counts_ticks_def)
    then show ?thesis using Suc.hyps(1) [of "Suc i" "wake i s"] Suc.hyps(2) Suc.prems step by auto
  qed
qed

lemma sleep_returns:
  assumes "counts_ticks wake tick" and "fair tick" and "timer_ticks s \<le> limit"
  shows "\<exists>t. timer_sleep_loop wake i limit s = Some t \<and> timer_ticks t = limit"
  using assms(3)
proof (induction "unat limit - unat (timer_ticks s)" arbitrary: i s)
  case 0
  then have "timer_ticks s = limit" by (simp add: word_le_nat_alt word_unat_eq_iff)
  then show ?case by (subst timer_sleep_loop.simps) (simp add: timer_get_ticks_def)
next
  case (Suc n)
  then have lt: "timer_ticks s < limit" by (auto simp: word_less_nat_alt)
  obtain j where j: "i \<le> j" "tick j" using assms(2) by (auto simp: fair_def)
  obtain k s' where s': "timer_sleep_loop wake i limit s = timer_sleep_loop wake k limit s'" "timer_ticks s' = timer_ticks s + 1"
    using sleep_quiet [OF assms(1) j(2,1) lt] by blast
  have u: "unat (timer_ticks s + 1) = unat (timer_ticks s) + 1"
    using lt unat_u64_less [of limit] by (subst unat_add_no_wrap) (simp_all add: word_less_nat_alt)
  then have "n = unat limit - unat (timer_ticks s')" "timer_ticks s' \<le> limit"
    using Suc.hyps(2) lt s'(2) by (simp_all add: word_less_nat_alt word_le_nat_alt)
  from Suc.hyps(1) [OF this, of k] s'(1) show ?case by simp
qed

section \<open>Properties\<close>

lemma timer_handler_ticks: "timer_ticks (snd (timer_interrupt_handler frame s)) = timer_ticks s + 1"
proof -
  have sw: "timer_ticks (snd (scheduler_context_switch f u)) = timer_ticks u" for f and u :: "'b device_state_scheme"
    by (simp add: scheduler_context_switch_def upd_proc_def vmm_switch_pagemap_def Let_def)
  have eoi: "timer_ticks (pic_send_end_of_interrupt n u) = timer_ticks u" for n and u :: "'b device_state_scheme"
    by (simp add: pic_send_end_of_interrupt_def outb_def io_wait_def Let_def)
  show ?thesis
    using sw [of frame "s\<lparr>timer_ticks := timer_ticks s + 1\<rparr>"]
    by (cases "scheduler_context_switch frame (s\<lparr>timer_ticks := timer_ticks s + 1\<rparr>)")
      (simp add: timer_interrupt_handler_def eoi Let_def)
qed



end
