(* ===== verification/Interrupts.thy ===== *)
theory Interrupts
  imports Devices
begin

text \<open>
  System calls and interrupt dispatch: \<^verbatim>\<open>kernel/src/sys/syscall.c\<close>, \<open>idt_handler\<close> of
  \<^verbatim>\<open>kernel/src/sys/idt.c\<close>, and the system call stubs of \<^verbatim>\<open>libc/src/syscall.c\<close>. The frame
  the assembly stub builds on the stack is passed to the handler, changed in place and popped again; in
  the model the handler takes a frame and returns one. None stands for not returning (the kernel
  idles, halts or waits for ever), a fault for undefined behaviour. \<open>debug\<close> says whether the kernel is built
  with \<^verbatim>\<open>_DEBUG\<close>. The register dump of a fatal exception is log output and is not modelled.
\<close>

section \<open>System calls\<close>

definition device_poll :: "u64 \<Rightarrow> 'a device_state_scheme \<Rightarrow> u8" where
  "device_poll device s = call_poll (handle_poll (handle_mem s device)) s"

partial_function (option) wait_ready ::
  "u64 \<Rightarrow> int_frame_t \<Rightarrow> 'a device_state_scheme \<Rightarrow> (int_frame_t \<times> 'a device_state_scheme) option" where
  "wait_ready device frame s =
     (if device_poll device s = DEVICE_BUSY
      then let (frame, s) = scheduler_context_switch frame s in wait_ready device frame s
      else Some (frame, s))"

definition syscall_handler ::
  "int_frame_t \<Rightarrow> 'a device_state_scheme \<Rightarrow> (u64 \<times> int_frame_t \<times> 'a device_state_scheme) outcome option" where
  "syscall_handler frame s =
     (if f_rax frame = 1 then do {
        s \<leftarrow> scheduler_terminate_current_process (f_rdi frame) s;
        Some (Ok (0, frame, s)) }
      else if f_rax frame = 2 then
        (let device = device_get (ucast (f_rdi frame)) s
         in if device = NULL then Some (Ok (0, frame, s))
            else do {
              (frame, s) \<leftarrow> wait_ready device frame s;
              Some (Ok (0, frame,
                call_write (handle_write (handle_mem s device)) (f_rsi frame) (f_rdx frame) s)) })
      else if f_rax frame = 3 then
        (let device = device_get (ucast (f_rdi frame)) s
         in if device = NULL then Some (Ok (0, frame, s))
            else let (result, s) = call_read (handle_read (handle_mem s device)) (f_rsi frame) s
                 in Some (Ok (result, frame\<lparr>f_rax := result\<rparr>, s)))
      else if f_rax frame = 4 then
        (let device = device_get (ucast (f_rdi frame)) s
         in if device = NULL then Some (Fault Null_deref)
            else Some (Ok (ucast (device_poll device s), frame, s)))
      else Some (Ok (0, frame, s)))"

section \<open>Dispatch\<close>

text \<open>The mnemonic and the \<open>fatal\<close> flag of each exception; the long names are only printed.\<close>

definition exception_info :: "(string \<times> bool) list" where
  "exception_info = [
    (''#DE'', True), (''#DB'', False), (''-'', True), (''#BP'', False), (''#OF'', True),
    (''#BR'', True), (''#UD'', True), (''#NM'', True), (''#DF'', True), (''-'', True),
    (''#TS'', True), (''#NP'', True), (''#SS'', True), (''#GP'', True), (''#PF'', True),
    (''-'', True), (''#MF'', True), (''#AC'', True), (''#MC'', True), (''#XM/#XF'', True),
    (''#VE'', True), (''#CP'', True), (''-'', True), (''-'', True), (''-'', True),
    (''-'', True), (''-'', True), (''-'', True), (''#HV'', True), (''#VC'', True),
    (''#SX'', True), (''-'', True)]"

definition exception_fatal :: "u64 \<Rightarrow> bool" where
  "exception_fatal vector \<longleftrightarrow> snd (exception_info ! unat vector)"

definition call_irq_handler ::
  "(string \<Rightarrow> u64) \<Rightarrow> idt_handler_t \<Rightarrow> int_frame_t \<Rightarrow> 'a device_state_scheme \<Rightarrow>
   (int_frame_t \<times> 'a device_state_scheme) outcome" where
  "call_irq_handler lit h frame s =
     (case h of
        Timer_interrupt_handler \<Rightarrow> Ok (timer_interrupt_handler frame s)
      | Keyboard_handler \<Rightarrow>
          (case keyboard_handler lit frame s of Fault e \<Rightarrow> Fault e | Ok s \<Rightarrow> Ok (frame, s)))"

definition idt_handler ::
  "bool \<Rightarrow> (string \<Rightarrow> u64) \<Rightarrow> int_frame_t \<Rightarrow> 'a device_state_scheme \<Rightarrow>
   (int_frame_t \<times> 'a device_state_scheme) outcome option" where
  "idt_handler debug lit frame s =
     (if f_vector frame < 32 then
        (if f_vector frame = 1 \<and> debug then hcf s
         else if exception_fatal (f_vector frame) then
           (if panicked s then hcf s
            else do { _ \<leftarrow> pmm_dump (s\<lparr>panicked := True\<rparr>); hcf (s\<lparr>panicked := True\<rparr>) })
         else Some (Ok (frame, s)))
      else if 0x20 \<le> f_vector frame \<and> f_vector frame < 0x20 + 16 then
        (let irq = unat (f_vector frame - 0x20)
         in case irq_handlers s ! irq of
              Some h \<Rightarrow>
                (case call_irq_handler lit h frame s of
                   Fault e \<Rightarrow> Some (Fault e)
                 | Ok (frame, s) \<Rightarrow> Some (Ok (frame, pic_send_end_of_interrupt (int irq) s)))
            | None \<Rightarrow> Some (Ok (frame, pic_send_end_of_interrupt (int irq) s)))
      else if f_vector frame = 0x80 then do {
        r \<leftarrow> syscall_handler frame s;
        Some (case r of Fault e \<Rightarrow> Fault e | Ok (_, frame, s) \<Rightarrow> Ok (frame, s)) }
      else Some (Ok (frame, s)))"

section \<open>The user side\<close>

text \<open>\<open>int 0x80\<close> with the registers loaded as the stub loads them; the result is the register \<open>rax\<close> on return.\<close>

definition syscall ::
  "bool \<Rightarrow> (string \<Rightarrow> u64) \<Rightarrow> int_frame_t \<Rightarrow> u64 \<Rightarrow> u64 \<Rightarrow> u64 \<Rightarrow> u64 \<Rightarrow> 'a device_state_scheme \<Rightarrow>
   (u64 \<times> 'a device_state_scheme) outcome option" where
  "syscall debug lit user number arg1 arg2 arg3 s =
     do { r \<leftarrow> idt_handler debug lit
            (user\<lparr>f_vector := 0x80, f_rax := number, f_rdi := arg1, f_rsi := arg2, f_rdx := arg3,
               f_rcx := 0, f_r8 := 0, f_r9 := 0\<rparr>) s;
          Some (case r of Fault e \<Rightarrow> Fault e | Ok (frame, s) \<Rightarrow> Ok (f_rax frame, s)) }"

definition user_write ::
  "bool \<Rightarrow> (string \<Rightarrow> u64) \<Rightarrow> int_frame_t \<Rightarrow> u32 \<Rightarrow> u64 \<Rightarrow> u64 \<Rightarrow> 'a device_state_scheme \<Rightarrow>
   (u64 \<times> 'a device_state_scheme) outcome option" where
  "user_write debug lit user dev_id data count s = syscall debug lit user 2 (ucast dev_id) data count s"

definition user_read ::
  "bool \<Rightarrow> (string \<Rightarrow> u64) \<Rightarrow> int_frame_t \<Rightarrow> u32 \<Rightarrow> u64 \<Rightarrow> 'a device_state_scheme \<Rightarrow>
   (u64 \<times> 'a device_state_scheme) outcome option" where
  "user_read debug lit user dev_id out s = syscall debug lit user 3 (ucast dev_id) out 0 s"

definition user_poll ::
  "bool \<Rightarrow> (string \<Rightarrow> u64) \<Rightarrow> int_frame_t \<Rightarrow> u32 \<Rightarrow> 'a device_state_scheme \<Rightarrow>
   (u8 \<times> 'a device_state_scheme) outcome option" where
  "user_poll debug lit user dev_id s =
     do { r \<leftarrow> syscall debug lit user 4 (ucast dev_id) 0 0 s;
          Some (case r of Fault e \<Rightarrow> Fault e | Ok (v, s) \<Rightarrow> Ok (ucast v, s)) }"

section \<open>Properties\<close>

lemma ucast_dev_id [simp]: "(ucast (ucast i :: u64) :: u32) = i" for i :: u32
  by (rule bit_word_eqI) (simp add: bit_simps)

lemma syscall_dispatch:
  "syscall debug lit user n a b c s =
     do { r \<leftarrow> syscall_handler (user\<lparr>f_vector := 0x80, f_rax := n, f_rdi := a, f_rsi := b, f_rdx := c,
            f_rcx := 0, f_r8 := 0, f_r9 := 0\<rparr>) s;
          Some (case r of Fault e \<Rightarrow> Fault e | Ok (_, frame, s) \<Rightarrow> Ok (f_rax frame, s)) }"
  by (cases "syscall_handler (user\<lparr>f_vector := 0x80, f_rax := n, f_rdi := a, f_rsi := b, f_rdx := c,
            f_rcx := 0, f_r8 := 0, f_r9 := 0\<rparr>) s")
    (auto simp: syscall_def idt_handler_def split: outcome.splits)

lemma wait_ready_now: "device_poll d s \<noteq> DEVICE_BUSY \<Longrightarrow> wait_ready d f s = Some (f, s)"
  by (subst wait_ready.simps) simp

definition device_is :: "u32 \<Rightarrow> handle_t \<Rightarrow> 'a device_state_scheme \<Rightarrow> bool" where
  "device_is i h s \<longleftrightarrow> device_get i s \<noteq> NULL \<and> handle_mem s (device_get i s) = h"

lemma exception_fatal_iff:
  assumes "unat v < 32"
  shows "exception_fatal v \<longleftrightarrow> unat v \<noteq> 1 \<and> unat v \<noteq> 3"
proof -
  have "list_all (\<lambda>n. snd (exception_info ! n) = (n \<noteq> 1 \<and> n \<noteq> 3)) [0..<32]" by code_simp
  then show ?thesis using assms by (simp add: list_all_iff exception_fatal_def)
qed

text \<open>
  Exceptions: a fatal exception, which is every one but vectors 1 and 3, never returns to
  the interrupted code, whether or not the kernel is already in a panic; the breakpoint, and the
  debug exception in a release build, return with the frame and the whole state unchanged.
\<close>

theorem exception_dispatch:
  assumes "f_vector frame < 32"
  shows "if f_vector frame = 3 \<or> f_vector frame = 1 \<and> \<not> debug
    then idt_handler debug lit frame s = Some (Ok (frame, s)) else idt_handler debug lit frame s = None"
proof -
  have v: "unat (f_vector frame) < 32" using assms by (simp add: word_less_nat_alt)
  have fatal: "exception_fatal (f_vector frame) \<longleftrightarrow> unat (f_vector frame) \<noteq> 1 \<and> unat (f_vector frame) \<noteq> 3"
    using v by (rule exception_fatal_iff)
  have one: "f_vector frame = 1 \<longleftrightarrow> unat (f_vector frame) = 1" "f_vector frame = 3 \<longleftrightarrow> unat (f_vector frame) = 3"
    by (simp_all add: word_unat_eq_iff)
  show ?thesis
    using assms fatal by (auto simp: idt_handler_def one hcf_def hlt_def split: bind_splits)
qed

theorem exception_dispatch_witness:
  "idt_handler False (\<lambda>_. 1) (zero_frame\<lparr>f_vector := 14\<rparr>) boot_devices = None \<and>
   idt_handler False (\<lambda>_. 1) (zero_frame\<lparr>f_vector := 3\<rparr>) boot_devices = Some (Ok (zero_frame\<lparr>f_vector := 3\<rparr>, boot_devices))"
  using exception_dispatch [of "zero_frame\<lparr>f_vector := 14\<rparr>" False "\<lambda>_. 1" boot_devices]
    exception_dispatch [of "zero_frame\<lparr>f_vector := 3\<rparr>" False "\<lambda>_. 1" boot_devices] by simp

definition screen :: "u32 \<Rightarrow> handle_t" where
  "screen i = \<lparr>handle_id = i, handle_poll = Stdout_poll, handle_read = Stdout_read, handle_write = Stdout_write\<rparr>"

definition keyboard :: "u32 \<Rightarrow> handle_t" where
  "keyboard i = \<lparr>handle_id = i, handle_poll = Stdin_poll, handle_read = Stdin_read, handle_write = Stdin_write\<rparr>"

lemma syscall_write_screen:
  assumes "device_is i (screen i) s"
  shows "user_write debug lit user i buf n s =
    Some (Ok (2, s\<lparr>ft_out := ft_out s @ map (\<lambda>k. mem s (buf + of_nat k)) [0..<unat n]\<rparr>))"
proof -
  have "device_poll (device_get i s) s \<noteq> DEVICE_BUSY"
    using assms by (simp add: device_is_def device_poll_def stdout_poll_def screen_def)
  then show ?thesis
    using assms by (simp add: user_write_def syscall_dispatch syscall_handler_def device_is_def wait_ready_now
        stdout_write_def stdout_write_loop_out screen_def Let_def)
qed

text \<open>
  Device system calls: a write to a number registered as the screen sends exactly the bytes
  of the buffer to the terminal, in order, and changes nothing else; a read from a number
  registered as the keyboard returns in \<open>rax\<close> what the device's read returns; a read or write
  on a number that is not registered changes nothing.
\<close>

theorem syscall_device_io:
  "(device_is i (screen i) s \<longrightarrow>
      user_write debug lit user i buf n s =
        Some (Ok (2, s\<lparr>ft_out := ft_out s @ map (\<lambda>k. mem s (buf + of_nat k)) [0..<unat n]\<rparr>))) \<and>
   (device_is i (keyboard i) s \<longrightarrow> user_read debug lit user i buf s = Some (Ok (stdin_read buf s))) \<and>
   (device_get i s = NULL \<longrightarrow>
      user_write debug lit user i buf n s = Some (Ok (2, s)) \<and> user_read debug lit user i buf s = Some (Ok (3, s)))"
proof (intro conjI impI)
  show "user_read debug lit user i buf s = Some (Ok (stdin_read buf s))" if "device_is i (keyboard i) s"
    using that by (simp add: user_read_def syscall_dispatch syscall_handler_def device_is_def keyboard_def split_def Let_def)
qed (simp_all add: syscall_write_screen, simp_all add: user_read_def user_write_def syscall_dispatch syscall_handler_def)

theorem syscall_device_io_witness:
  "\<exists>s :: device_state. user_write False (\<lambda>_. 1) zero_frame 0 0x400000 2 s =
     Some (Ok (2, s\<lparr>ft_out := ft_out s @ [72, 105]\<rparr>))"
proof -
  let ?s = "boot_devices\<lparr>mem := (\<lambda>_. 0)(0x400000 := 72, 0x400001 := 105), devices := 0x5000 # replicate 255 0,
    handle_mem := \<lambda>_. screen 0\<rparr>"
  have "device_is 0 (screen 0) ?s" by (simp add: device_is_def device_get_def)
  then have "user_write False (\<lambda>_. 1) zero_frame 0 0x400000 2 ?s =
      Some (Ok (2, ?s\<lparr>ft_out := ft_out ?s @ map (\<lambda>k. mem ?s (0x400000 + of_nat k)) [0..<unat (2 :: u64)]\<rparr>))"
    using syscall_device_io [of 0 ?s False "\<lambda>_. 1" zero_frame "0x400000" 2] by blast
  moreover have "map (\<lambda>k. mem ?s (0x400000 + of_nat k)) [0..<unat (2 :: u64)] = [72, 105]"
    by (simp add: upt_rec)
  ultimately show ?thesis by (intro exI [of _ ?s]) simp
qed

text \<open>
  The answer of the poll system call is lost: the kernel computes it but never stores it in
  \<open>rax\<close>, so the C library's \<open>poll\<close> returns the call number 4 for every registered device,
  ready or busy; for a device that is not registered the kernel calls through a null pointer.
\<close>

theorem poll_answer_lost:
  "user_poll debug lit user i s = Some (if device_get i s = NULL then Fault Null_deref else Ok (4, s))"
  by (simp add: user_poll_def syscall_dispatch syscall_handler_def Let_def)

text \<open>
  Two end-of-interrupt commands per interrupt: the timer's and the keyboard's handlers each
  send the command, and the dispatcher sends it again; shown on the ports for the keyboard.
\<close>

theorem irq_double_end_of_interrupt:
  assumes "f_vector frame = 0x21" and "irq_handlers s ! 1 = Some Keyboard_handler"
    and "idt_handler debug lit frame s = Some (Ok (frame', t))"
  shows "frame' = frame \<and> io_trace t = io_trace s @
    [Inb PS2_DATA (fst (inb PS2_DATA s)), Outb PIC1_COMMAND PIC_CMD_END_OF_INTERRUPT, Outb 0x80 0,
     Outb PIC1_COMMAND PIC_CMD_END_OF_INTERRUPT, Outb 0x80 0]"
  using assms
  by (auto simp: idt_handler_def call_irq_handler_def keyboard_handler_def pic_send_end_of_interrupt_def
      split_def Let_def split: outcome.splits)

theorem irq_double_end_of_interrupt_witness:
  "\<exists>t. idt_handler False (\<lambda>_. 1) (zero_frame\<lparr>f_vector := 0x21\<rparr>)
      (boot_devices\<lparr>irq_handlers := [None, Some Keyboard_handler], io_dev := \<lambda>_ _. 0x1E\<rparr>) =
      Some (Ok (zero_frame\<lparr>f_vector := 0x21\<rparr>, t)) \<and>
    length (filter (\<lambda>e. e = Outb 0x20 0x20) (io_trace t)) = 2"
proof -
  let ?s = "boot_devices\<lparr>irq_handlers := [None, Some Keyboard_handler], io_dev := \<lambda>_ _. 0x1E\<rparr>"
  let ?f = "zero_frame\<lparr>f_vector := 0x21\<rparr>"
  have "\<exists>t. keyboard_handler (\<lambda>_. 1) ?f ?s = Ok t"
    by (simp add: keyboard_handler_def keymap_sym_def keymap_size_def inb_def Let_def)
  then obtain t where t: "idt_handler False (\<lambda>_. 1) ?f ?s = Some (Ok (?f, t))"
    by (auto simp: idt_handler_def call_irq_handler_def)
  have "f_vector ?f = 0x21" "irq_handlers ?s ! 1 = Some Keyboard_handler" by simp_all
  from irq_double_end_of_interrupt [OF this t] t show ?thesis
    by (simp add: boot_devices_def boot_desc_def boot_pmm_def)
qed

end
