(* ===== verification/UserProgram.thy ===== *)
theory UserProgram
  imports Interrupts
begin

text \<open>
  The user side: \<open>vprintf\<close> and \<open>printf\<close> of the C library (\<^verbatim>\<open>libc/src/stdio.c\<close>) and the program \<^verbatim>\<open>sysroot/init/main.c\<close>, which prints every
  key that is pressed. The formatter \<open>npf_vsnprintf\<close> is third-party code and an argument: from a format, the arguments, the buffer and
  the memory it makes the length and the memory with the text. Where the compiler and the linker put buffers and literals is part of
  the argument \<open>user_env\<close>.
\<close>

section \<open>Formatted output\<close>

record user_env =
  ue_debug :: bool
  ue_lit :: "string \<Rightarrow> u64"
  ue_frame :: int_frame_t
  ue_npf :: "u64 \<Rightarrow> u64 list \<Rightarrow> u64 \<Rightarrow> memory \<Rightarrow> int \<times> memory"
  ue_str :: "string \<Rightarrow> u64"
  ue_buffer :: u64
  ue_key :: u64

definition user_vprintf ::
  "user_env \<Rightarrow> u64 \<Rightarrow> u64 list \<Rightarrow> 'a device_state_scheme \<Rightarrow> 'a device_state_scheme outcome option" where
  "user_vprintf e fmt args s =
     (let (len, m) = ue_npf e fmt args (ue_buffer e) (mem s);
          s = s\<lparr>mem := m\<rparr>
      in if 0 \<le> len \<and> len < 1024
         then do { r \<leftarrow> user_write (ue_debug e) (ue_lit e) (ue_frame e) 0 (ue_buffer e) (word_of_int len) s;
                   Some (case r of Fault f \<Rightarrow> Fault f | Ok (_, s) \<Rightarrow> Ok s) }
         else Some (Ok s))"

definition user_printf ::
  "user_env \<Rightarrow> u64 \<Rightarrow> u64 list \<Rightarrow> 'a device_state_scheme \<Rightarrow> (int \<times> 'a device_state_scheme) outcome option" where
  "user_printf e fmt args s =
     do { r \<leftarrow> user_vprintf e fmt args s;
          Some (case r of Fault f \<Rightarrow> Fault f | Ok s \<Rightarrow> Ok (0, s)) }"

section \<open>The program\<close>

text \<open>\<open>while (poll(1) == DEVICE_BUSY);\<close>\<close>

partial_function (option) wait_key :: "user_env \<Rightarrow> 'a device_state_scheme \<Rightarrow> 'a device_state_scheme outcome option" where
  "wait_key e s =
     do { r \<leftarrow> user_poll (ue_debug e) (ue_lit e) (ue_frame e) 1 s;
          case r of
            Fault f \<Rightarrow> Some (Fault f)
          | Ok (v, s) \<Rightarrow> if v = DEVICE_BUSY then wait_key e s else Some (Ok s) }"

abbreviation (input) KEYCODE_SPACE :: u8 where "KEYCODE_SPACE \<equiv> 0x39"
abbreviation (input) KEYCODE_ENTER :: u8 where "KEYCODE_ENTER \<equiv> 0x1C"
abbreviation (input) KEYCODE_BACKSPACE :: u8 where "KEYCODE_BACKSPACE \<equiv> 0x0E"

text \<open>The calls of \<open>printf\<close> for a key.\<close>

definition echo_call :: "user_env \<Rightarrow> u8 \<Rightarrow> u64 \<Rightarrow> u64 \<times> u64 list" where
  "echo_call e scancode symb =
     (if scancode = KEYCODE_SPACE then (ue_str e '' '', [])
      else if scancode = KEYCODE_ENTER then (ue_str e [CHR 0x0A], [])
      else if scancode = KEYCODE_BACKSPACE then (ue_str e [CHR 0x08, CHR '' '', CHR 0x08], [])
      else (ue_str e ''%s'', [symb]))"

text \<open>One pass of the loop: the key has its symbol at offset 0, the scan code at 8 and the release flag at 9.\<close>

definition init_round :: "user_env \<Rightarrow> 'a device_state_scheme \<Rightarrow> 'a device_state_scheme outcome option" where
  "init_round e s =
     do { r \<leftarrow> wait_key e s;
          case r of
            Fault f \<Rightarrow> Some (Fault f)
          | Ok s \<Rightarrow>
              do { r \<leftarrow> user_read (ue_debug e) (ue_lit e) (ue_frame e) 1 (ue_key e) s;
                   case r of
                     Fault f \<Rightarrow> Some (Fault f)
                   | Ok (status, s) \<Rightarrow>
                       (let symb = load64 (mem s) (ue_key e); scancode = mem s (ue_key e + 8); released = mem s (ue_key e + 9)
                        in if status \<noteq> 0 \<and> released = 0 \<and> symb \<noteq> NULL
                           then let (fmt, args) = echo_call e scancode symb
                                in do { r \<leftarrow> user_printf e fmt args s;
                                        Some (case r of Fault f \<Rightarrow> Fault f | Ok (_, s) \<Rightarrow> Ok s) }
                           else Some (Ok s)) } }"

text \<open>The greeting and the first \<open>n\<close> passes; \<open>irq i\<close> is what interrupts do before pass \<open>i\<close>.\<close>

fun init_rounds ::
  "user_env \<Rightarrow> (nat \<Rightarrow> 'a device_state_scheme \<Rightarrow> 'a device_state_scheme) \<Rightarrow> nat \<Rightarrow> nat \<Rightarrow> 'a device_state_scheme \<Rightarrow>
   'a device_state_scheme outcome option" where
  "init_rounds e irq i 0 s = Some (Ok s)"
| "init_rounds e irq i (Suc n) s =
     do { r \<leftarrow> init_round e (irq i s);
          case r of Fault f \<Rightarrow> Some (Fault f) | Ok s \<Rightarrow> init_rounds e irq (Suc i) n s }"

definition init_main ::
  "user_env \<Rightarrow> (nat \<Rightarrow> 'a device_state_scheme \<Rightarrow> 'a device_state_scheme) \<Rightarrow> nat \<Rightarrow> 'a device_state_scheme \<Rightarrow> 'a device_state_scheme outcome option" where
  "init_main e irq n s =
     do { r \<leftarrow> user_printf e (ue_str e (''Hello, World! try typing :^)'' @ [CHR 0x0A])) [] s;
          case r of Fault f \<Rightarrow> Some (Fault f) | Ok (_, s) \<Rightarrow> init_rounds e irq 0 n s }"

section \<open>Printing\<close>

definition text_bytes :: "string \<Rightarrow> u8 list" where
  "text_bytes str = map of_char str"

definition literal_at :: "memory \<Rightarrow> u64 \<Rightarrow> string \<Rightarrow> bool" where
  "literal_at m p str \<longleftrightarrow> (\<forall>i < length str. m (p + of_nat i) = text_bytes str ! i) \<and> m (p + of_nat (length str)) = 0"

text \<open>The formatter puts a text into the buffer, returns its length, and writes nowhere else.\<close>

definition formats :: "user_env \<Rightarrow> u64 \<times> u64 list \<Rightarrow> u8 list \<Rightarrow> memory \<Rightarrow> bool" where
  "formats e call txt m \<longleftrightarrow> (let (len, m') = ue_npf e (fst call) (snd call) (ue_buffer e) m
     in len = int (length txt) \<and> (\<forall>i < length txt. m' (ue_buffer e + of_nat i) = txt ! i) \<and> (\<forall>x. \<not> in_range (ue_buffer e) 1024 x \<longrightarrow> m' x = m x))"

lemma user_printf_prints:
  assumes "device_is 0 (screen 0) s" and "formats e (fmt, args) txt (mem s)" and "length txt < 1024"
  shows "\<exists>m. user_printf e fmt args s = Some (Ok (0, s\<lparr>mem := m, ft_out := ft_out s @ txt\<rparr>)) \<and>
    (\<forall>x. \<not> in_range (ue_buffer e) 1024 x \<longrightarrow> m x = mem s x)"
proof -
  obtain m where m: "ue_npf e fmt args (ue_buffer e) (mem s) = (int (length txt), m)" "\<forall>i < length txt. m (ue_buffer e + of_nat i) = txt ! i"
    "\<forall>x. \<not> in_range (ue_buffer e) 1024 x \<longrightarrow> m x = mem s x"
    using assms(2) by (cases "ue_npf e fmt args (ue_buffer e) (mem s)") (simp add: formats_def)
  have "device_is 0 (screen 0) (s\<lparr>mem := m\<rparr>)" using assms(1) by (simp add: device_is_def device_get_def)
  note w = syscall_write_screen [OF this]
  have "map (\<lambda>k. m (ue_buffer e + of_nat k)) [0..<length txt] = txt" using m(2) by (intro nth_equalityI) simp_all
  moreover have "unat (of_nat (length txt) :: u64) = length txt" using assms(3) by simp
  ultimately have "user_printf e fmt args s = Some (Ok (0, s\<lparr>mem := m, ft_out := ft_out s @ txt\<rparr>))"
    using m(1) assms(3) by (simp add: user_printf_def user_vprintf_def w)
  then show ?thesis using m(3) by blast
qed

section \<open>Keys\<close>

lemma user_poll_answer: "device_get i s \<noteq> NULL \<Longrightarrow> user_poll debug lit user i s = Some (Ok (4, s))"
  by (simp add: user_poll_def syscall_dispatch syscall_handler_def Let_def)

lemma wait_key_returns: "device_get 1 s \<noteq> NULL \<Longrightarrow> wait_key e s = Some (Ok s)"
  by (subst wait_key.simps) (simp add: user_poll_answer)

lemma user_read_keyboard: "device_is i (keyboard i) s \<Longrightarrow> user_read debug lit user i buf s = Some (Ok (stdin_read buf s))"
  by (simp add: user_read_def syscall_dispatch syscall_handler_def device_is_def keyboard_def split_def Let_def)

definition echo_text :: "u8 \<Rightarrow> string \<Rightarrow> u8 list" where
  "echo_text scancode str =
     (if scancode = KEYCODE_SPACE then [0x20] else if scancode = KEYCODE_ENTER then [0x0A]
      else if scancode = KEYCODE_BACKSPACE then [0x08, 0x20, 0x08] else text_bytes str)"

lemma init_round_key:
  assumes dev: "device_is 0 (screen 0) s" "device_is 1 (keyboard 1) s" and key: "key_sym s = p" "p \<noteq> NULL" "\<not> key_released s"
    and lit: "literal_at (mem s) p str" "\<forall>i \<le> length str. \<not> in_range (ue_key e) 10 (p + of_nat i)" "length str < 1024"
    and fmt: "\<And>m. literal_at m p str \<Longrightarrow> formats e (echo_call e (key_scancode s) p) (echo_text (key_scancode s) str) m"
  shows "\<exists>m. init_round e s = Some (Ok (s\<lparr>mem := m, key_sym := NULL, ft_out := ft_out s @ echo_text (key_scancode s) str\<rparr>)) \<and>
    (\<forall>x. \<not> in_range (ue_buffer e) 1024 x \<and> \<not> in_range (ue_key e) 10 x \<longrightarrow> m x = mem s x)"
proof -
  let ?u = "(store_key (ue_key e) s)\<lparr>key_sym := NULL\<rparr>"
  have w: "wait_key e s = Some (Ok s)" using dev(2) by (intro wait_key_returns) (simp add: device_is_def)
  have r: "user_read (ue_debug e) (ue_lit e) (ue_frame e) 1 (ue_key e) s = Some (Ok (1, ?u))"
    using user_read_keyboard [OF dev(2)] key by (simp add: stdin_read_def)
  have mm: "load64 (mem ?u) (ue_key e) = p" "mem ?u (ue_key e + 8) = key_scancode s" "mem ?u (ue_key e + 9) = 0"
    using store_key_memory [of "ue_key e" s] key by simp_all
  have out: "mem ?u x = mem s x" if "\<not> in_range (ue_key e) 10 x" for x
  proof -
    have "x \<noteq> ue_key e + 8" "x \<noteq> ue_key e + 9" "\<not> in_range (ue_key e) 8 x" using that by (auto simp: in_range_def)
    then show ?thesis by (simp add: store_key_def store64_other)
  qed
  then have "literal_at (mem ?u) p str" using lit(1,2) by (simp add: literal_at_def)
  from fmt [OF this] have f: "formats e (echo_call e (key_scancode s) p) (echo_text (key_scancode s) str) (mem ?u)" .
  have d: "device_is 0 (screen 0) ?u" using dev(1) by (simp add: device_is_def device_get_def store_key_def)
  obtain fm args where c: "echo_call e (key_scancode s) p = (fm, args)" by fastforce
  have "length (echo_text (key_scancode s) str) < 1024" using lit(3) by (simp add: echo_text_def text_bytes_def)
  from user_printf_prints [OF d f [unfolded c] this] obtain m where m:
    "user_printf e fm args ?u = Some (Ok (0, ?u\<lparr>mem := m, ft_out := ft_out ?u @ echo_text (key_scancode s) str\<rparr>))"
    "\<forall>x. \<not> in_range (ue_buffer e) 1024 x \<longrightarrow> m x = mem ?u x" by blast
  have "?u\<lparr>mem := m, ft_out := ft_out ?u @ echo_text (key_scancode s) str\<rparr> =
    s\<lparr>mem := m, key_sym := NULL, ft_out := ft_out s @ echo_text (key_scancode s) str\<rparr>" by (simp add: store_key_def)
  then have "init_round e s = Some (Ok (s\<lparr>mem := m, key_sym := NULL, ft_out := ft_out s @ echo_text (key_scancode s) str\<rparr>))"
    using m(1) mm key(2) by (simp add: init_round_def w r c Let_def)
  then show ?thesis using m(2) out by (intro exI [of _ m]) simp
qed

lemma init_round_idle:
  assumes "device_is 1 (keyboard 1) s" and "key_sym s = NULL"
  shows "init_round e s = Some (Ok s)"
proof -
  have "wait_key e s = Some (Ok s)" using assms(1) by (intro wait_key_returns) (simp add: device_is_def)
  then show ?thesis using user_read_keyboard [OF assms(1)] assms(2) by (simp add: init_round_def stdin_read_def Let_def)
qed

section \<open>From the keyboard to the screen\<close>

lemma keymap_bound: "map_of keymap n = Some str \<Longrightarrow> n < keymap_size"
proof -
  assume "map_of keymap n = Some str"
  then have "(n, str) \<in> set keymap" by (rule map_of_SomeD)
  moreover have "list_all (\<lambda>(k, _). k < keymap_size) keymap" by code_simp
  ultimately show ?thesis by (auto simp: list_all_iff)
qed

lemma eoi_device_frame [simp]:
  "devices (pic_send_end_of_interrupt i s) = devices s" "handle_mem (pic_send_end_of_interrupt i s) = handle_mem s"
  "ft_out (pic_send_end_of_interrupt i s) = ft_out s"
  by (simp_all add: pic_send_end_of_interrupt_def outb_def io_wait_def Let_def)

lemma key_interrupt:
  assumes "f_vector frame = 0x21" and "irq_handlers s ! 1 = Some Keyboard_handler" and "data = fst (inb PS2_DATA s)"
    and "data AND 0x80 = 0" and "map_of keymap (unat (data AND 0x7F)) = Some str"
  shows "\<exists>t. idt_handler debug lit frame s = Some (Ok (frame, t)) \<and> key_sym t = lit str \<and> key_scancode t = data AND 0x7F \<and> \<not> key_released t \<and>
    mem t = mem s \<and> devices t = devices s \<and> handle_mem t = handle_mem s \<and> ft_out t = ft_out s"
proof -
  obtain s1 where i: "inb PS2_DATA s = (data, s1)" using assms(3) by (metis prod.collapse)
  then have s1: "s1 = s\<lparr>io_trace := io_trace s @ [Inb PS2_DATA data]\<rparr>" by (auto simp: inb_def Let_def)
  have k: "keymap_sym lit (data AND 0x7F) = Ok (lit str)"
    using keymap_bound [OF assms(5)] assms(5) by (simp add: keymap_sym_def not_le)
  show ?thesis
    using assms(1,2,4) by (simp add: idt_handler_def call_irq_handler_def keyboard_handler_def i k s1)
qed

section \<open>Properties\<close>


text \<open>A formatter for one string of one character, a program that uses it, and a machine with the keyboard and the screen.\<close>

definition sample_env :: user_env where
  "sample_env = \<lparr>ue_debug = False, ue_lit = (\<lambda>str. 0x80200000), ue_frame = zero_frame,
     ue_npf = (\<lambda>fmt args buf m. (1, m(buf := m (hd args)))), ue_str = (\<lambda>str. 0x400000), ue_buffer = 0x500000, ue_key = 0x600000\<rparr>"

definition sample_machine :: "u8 \<Rightarrow> device_state" where
  "sample_machine code = boot_devices\<lparr>io_dev := \<lambda>_ _. ucast code, mem := (\<lambda>_. 0)(0x80200000 := 65),
     irq_handlers := None # Some Keyboard_handler # replicate 14 None, devices := 0x7000 # 0x8000 # replicate 254 0,
     handle_mem := \<lambda>a. if a = 0x7000 then screen 0 else keyboard 1\<rparr>"


end
