(* ===== verification/Heap.thy ===== *)
theory Heap
  imports Devices Vma
begin

text \<open>
  The kernel heap: \<^verbatim>\<open>kernel/src/mm/liballoc/liballoc.c\<close> and its hooks in
  \<^verbatim>\<open>liballoc_wrappers.c\<close>, with the two string functions that allocate. Memory is taken from the
  region allocator in blocks (majors), each of which holds a doubly linked list of allocations
  (minors) in the order of their addresses. The headers are kept in two stores indexed by
  their addresses, one record per structure; the addresses themselves, and so the layout of
  headers and user memory in a block, are those of the code, and that user memory never
  overlaps a header is proved, not assumed. The bytes in user memory are those of the byte memory.
\<close>

section \<open>State\<close>

record liballoc_major =
  maj_prev :: u64
  maj_next :: u64
  maj_pages :: u32
  maj_size :: u32
  maj_usage :: u32
  maj_first :: u64

record liballoc_minor =
  min_prev :: u64
  min_next :: u64
  min_block :: u64
  min_magic :: u32
  min_size :: u32
  min_req_size :: u32

record heap_state = device_state +
  majors :: "u64 \<Rightarrow> liballoc_major"
  minors :: "u64 \<Rightarrow> liballoc_minor"
  l_memRoot :: u64
  l_bestBet :: u64
  l_allocated :: u64
  l_inuse :: u64
  l_warningCount :: u64
  l_errorCount :: u64
  l_possibleOverruns :: u64
  liballoc_lock_var :: spinlock_t
  kernel_vma_context :: u64

abbreviation (input) ALIGNMENT :: u64 where "ALIGNMENT \<equiv> 16"
abbreviation (input) ALIGN_INFO :: u64 where "ALIGN_INFO \<equiv> 16"
abbreviation (input) LIBALLOC_MAGIC :: u32 where "LIBALLOC_MAGIC \<equiv> 0xc001c0de"
abbreviation (input) LIBALLOC_DEAD :: u32 where "LIBALLOC_DEAD \<equiv> 0xdeaddead"
abbreviation (input) l_pageSize :: u32 where "l_pageSize \<equiv> 4096"
abbreviation (input) l_pageCount :: u32 where "l_pageCount \<equiv> 16"
abbreviation (input) sizeof_major :: u64 where "sizeof_major \<equiv> 40"
abbreviation (input) sizeof_minor :: u64 where "sizeof_minor \<equiv> 40"

definition upd_maj ::
  "u64 \<Rightarrow> (liballoc_major \<Rightarrow> liballoc_major) \<Rightarrow> 'a heap_state_scheme \<Rightarrow> 'a heap_state_scheme" where
  "upd_maj a f s = s\<lparr>majors := (majors s)(a := f (majors s a))\<rparr>"

definition upd_min ::
  "u64 \<Rightarrow> (liballoc_minor \<Rightarrow> liballoc_minor) \<Rightarrow> 'a heap_state_scheme \<Rightarrow> 'a heap_state_scheme" where
  "upd_min a f s = s\<lparr>minors := (minors s)(a := f (minors s a))\<rparr>"

section \<open>The hooks\<close>

definition liballoc_lock :: "'a heap_state_scheme \<Rightarrow> 'a heap_state_scheme option" where
  "liballoc_lock s = map_option (\<lambda>l. s\<lparr>liballoc_lock_var := l\<rparr>) (spinlock_acquire (liballoc_lock_var s))"

definition liballoc_unlock :: "'a heap_state_scheme \<Rightarrow> 'a heap_state_scheme" where
  "liballoc_unlock s = s\<lparr>liballoc_lock_var := spinlock_release (liballoc_lock_var s)\<rparr>"

definition liballoc_alloc :: "i32 \<Rightarrow> 'a heap_state_scheme \<Rightarrow> (u64 \<times> 'a heap_state_scheme) option" where
  "liballoc_alloc pages s = vma_alloc (kernel_vma_context s) (scast pages) (VMM_PRESENT OR VMM_WRITABLE) s"

definition liballoc_free :: "u64 \<Rightarrow> i32 \<Rightarrow> 'a heap_state_scheme \<Rightarrow> 'a heap_state_scheme option" where
  "liballoc_free ptr pages s = vma_free (kernel_vma_context s) ptr s"

section \<open>Byte helpers\<close>

partial_function (option) liballoc_memset_loop :: "u64 \<Rightarrow> u8 \<Rightarrow> u64 \<Rightarrow> u32 \<Rightarrow> memory \<Rightarrow> memory option" where
  "liballoc_memset_loop s c n i m =
     (if ucast i < n then liballoc_memset_loop s c n (i + 1) (m(s + ucast i := c)) else Some m)"

definition liballoc_memset :: "u64 \<Rightarrow> i32 \<Rightarrow> u64 \<Rightarrow> memory \<Rightarrow> memory option" where
  "liballoc_memset s c n m = liballoc_memset_loop s (ucast c) n 0 m"

fun liballoc_memcpy_words :: "u64 \<Rightarrow> u64 \<Rightarrow> nat \<Rightarrow> memory \<Rightarrow> memory" where
  "liballoc_memcpy_words ldest lsrc n m =
     (if 4 \<le> n
      then liballoc_memcpy_words (ldest + 4) (lsrc + 4) (n - 4) (store_le 4 m ldest (load32 m lsrc))
      else memcpy_loop m ldest lsrc n)"

declare liballoc_memcpy_words.simps [simp del]

definition liballoc_memcpy :: "u64 \<Rightarrow> u64 \<Rightarrow> u64 \<Rightarrow> memory \<Rightarrow> memory" where
  "liballoc_memcpy s1 s2 n m = liballoc_memcpy_words s1 s2 (unat n) m"

text \<open>The macros \<open>ALIGN\<close> and \<open>UNALIGN\<close>: the distance moved is kept in the byte 16 in front of the pointer.\<close>

definition align_diff :: "u64 \<Rightarrow> u64" where
  "align_diff ptr = (let diff = (ptr + ALIGN_INFO) AND (ALIGNMENT - 1) in if diff \<noteq> 0 then ALIGNMENT - diff else diff)"

definition ALIGN_ptr :: "u64 \<Rightarrow> 'a machine_scheme \<Rightarrow> u64 \<times> 'a machine_scheme" where
  "ALIGN_ptr ptr s =
     (let diff = align_diff ptr;
          ptr = ptr + ALIGN_INFO + diff
      in (ptr, s\<lparr>mem := (mem s)(ptr - ALIGN_INFO := ucast (diff + ALIGN_INFO))\<rparr>))"

definition UNALIGN :: "u64 \<Rightarrow> 'a machine_scheme \<Rightarrow> u64" where
  "UNALIGN ptr s =
     (let diff = scast (mem s (ptr - ALIGN_INFO))
      in if diff < ALIGNMENT + ALIGN_INFO then ptr - diff else ptr)"

section \<open>Allocation\<close>

definition new_page_count :: "u32 \<Rightarrow> u32" where
  "new_page_count sz =
     (let st = sz + 40 + 40;
          st = (if st mod l_pageSize = 0 then st div l_pageSize else st div l_pageSize + 1)
      in if st < l_pageCount then l_pageCount else st)"

definition allocate_new_page :: "u32 \<Rightarrow> 'a heap_state_scheme \<Rightarrow> (u64 \<times> 'a heap_state_scheme) option" where
  "allocate_new_page sz s =
     (let st = new_page_count sz
      in do {
        (maj, s) \<leftarrow> liballoc_alloc st s;
        if maj = NULL then Some (NULL, s\<lparr>l_warningCount := l_warningCount s + 1\<rparr>)
        else let s = upd_maj maj (\<lambda>_. \<lparr>maj_prev = NULL, maj_next = NULL, maj_pages = st,
                       maj_size = st * l_pageSize, maj_usage = 40, maj_first = NULL\<rparr>) s
             in Some (maj, s\<lparr>l_allocated := l_allocated s + ucast (maj_size (majors s maj))\<rparr>)
      })"

text \<open>
  The four ways in which an allocation is put into a block; \<open>finish_minor\<close> is the end they share:
  the accounting and the pointer that is returned.
\<close>

definition finish_minor :: "u64 \<Rightarrow> u64 \<Rightarrow> u64 \<Rightarrow> 'a heap_state_scheme \<Rightarrow> u64 \<times> 'a heap_state_scheme" where
  "finish_minor maj m sz s =
     (let s = upd_maj maj (\<lambda>j. j\<lparr>maj_usage := maj_usage j + ucast (sz + sizeof_minor)\<rparr>) s;
          s = s\<lparr>l_inuse := l_inuse s + sz\<rparr>
      in ALIGN_ptr (m + sizeof_minor) s)"

text \<open>Case 2: the block is empty.\<close>

definition place_empty :: "u64 \<Rightarrow> u64 \<Rightarrow> u64 \<Rightarrow> 'a heap_state_scheme \<Rightarrow> u64 \<times> 'a heap_state_scheme" where
  "place_empty maj req_size sz s =
     (let m = maj + sizeof_major;
          s = upd_maj maj (\<lambda>j. j\<lparr>maj_first := m\<rparr>) s;
          s = upd_min m (\<lambda>_. \<lparr>min_prev = NULL, min_next = NULL, min_block = maj, min_magic = LIBALLOC_MAGIC,
                min_size = ucast sz, min_req_size = ucast req_size\<rparr>) s
      in finish_minor maj m sz s)"

text \<open>Case 3: in front of the first allocation.\<close>

definition place_front :: "u64 \<Rightarrow> u64 \<Rightarrow> u64 \<Rightarrow> 'a heap_state_scheme \<Rightarrow> u64 \<times> 'a heap_state_scheme" where
  "place_front maj req_size sz s =
     (let m = maj + sizeof_major;
          first = maj_first (majors s maj);
          s = upd_min first (\<lambda>i. i\<lparr>min_prev := m\<rparr>) s;
          s = upd_min m (\<lambda>i. i\<lparr>min_next := first\<rparr>) s;
          s = upd_maj maj (\<lambda>j. j\<lparr>maj_first := m\<rparr>) s;
          s = upd_min m (\<lambda>i. i\<lparr>min_magic := LIBALLOC_MAGIC, min_prev := NULL, min_block := maj,
                min_size := ucast sz, min_req_size := ucast req_size\<rparr>) s
      in finish_minor maj m sz s)"

text \<open>Case 4.1: behind the last allocation; case 4.2: between two.\<close>

definition place_last :: "u64 \<Rightarrow> u64 \<Rightarrow> u64 \<Rightarrow> u64 \<Rightarrow> 'a heap_state_scheme \<Rightarrow> u64 \<times> 'a heap_state_scheme" where
  "place_last maj m req_size sz s =
     (let new = m + sizeof_minor + ucast (min_size (minors s m));
          s = upd_min m (\<lambda>i. i\<lparr>min_next := new\<rparr>) s;
          s = upd_min new (\<lambda>_. \<lparr>min_prev = m, min_next = NULL, min_block = maj, min_magic = LIBALLOC_MAGIC,
                min_size = ucast sz, min_req_size = ucast req_size\<rparr>) s
      in finish_minor maj new sz s)"

definition place_between :: "u64 \<Rightarrow> u64 \<Rightarrow> u64 \<Rightarrow> u64 \<Rightarrow> 'a heap_state_scheme \<Rightarrow> u64 \<times> 'a heap_state_scheme" where
  "place_between maj m req_size sz s =
     (let new = m + sizeof_minor + ucast (min_size (minors s m));
          nxt = min_next (minors s m);
          s = upd_min new (\<lambda>_. \<lparr>min_prev = m, min_next = nxt, min_block = maj, min_magic = LIBALLOC_MAGIC,
                min_size = ucast sz, min_req_size = ucast req_size\<rparr>) s;
          s = upd_min nxt (\<lambda>i. i\<lparr>min_prev := new\<rparr>) s;
          s = upd_min m (\<lambda>i. i\<lparr>min_next := new\<rparr>) s
      in finish_minor maj new sz s)"

definition gap_after :: "u64 \<Rightarrow> u64 \<Rightarrow> 'a heap_state_scheme \<Rightarrow> u64" where
  "gap_after maj m s =
     (if min_next (minors s m) = NULL
      then maj + ucast (maj_size (majors s maj)) - m - sizeof_minor - ucast (min_size (minors s m))
      else min_next (minors s m) - m - sizeof_minor - ucast (min_size (minors s m)))"

partial_function (option) find_minor :: "u64 \<Rightarrow> u64 \<Rightarrow> u64 \<Rightarrow> 'a heap_state_scheme \<Rightarrow> u64 option" where
  "find_minor maj sz m s =
     (if m = NULL then Some NULL
      else if sz + sizeof_minor \<le> gap_after maj m s then Some m
      else find_minor maj sz (min_next (minors s m)) s)"

text \<open>Cases 2 to 4 for one block.\<close>

definition place_in_major ::
  "u64 \<Rightarrow> u64 \<Rightarrow> u64 \<Rightarrow> 'a heap_state_scheme \<Rightarrow> (u64 \<times> 'a heap_state_scheme) option option" where
  "place_in_major maj req_size sz s =
     (if maj_first (majors s maj) = NULL then Some (Some (place_empty maj req_size sz s))
      else if sz + sizeof_minor \<le> maj_first (majors s maj) - maj - sizeof_major
      then Some (Some (place_front maj req_size sz s))
      else do {
        m \<leftarrow> find_minor maj sz (maj_first (majors s maj)) s;
        Some (if m = NULL then None
              else if min_next (minors s m) = NULL then Some (place_last maj m req_size sz s)
              else Some (place_between maj m req_size sz s))
      })"

definition major_room :: "'a heap_state_scheme \<Rightarrow> u64 \<Rightarrow> u64" where
  "major_room s maj = ucast (maj_size (majors s maj) - maj_usage (majors s maj))"

text \<open>\<open>maj->next = allocate_new_page(sz)\<close>, and the back pointer if that succeeded.\<close>

definition extend_major :: "u64 \<Rightarrow> u64 \<Rightarrow> 'a heap_state_scheme \<Rightarrow> (u64 \<times> 'a heap_state_scheme) option" where
  "extend_major maj sz s =
     do { (new, s) \<leftarrow> allocate_new_page (ucast sz) s;
          let s = upd_maj maj (\<lambda>j. j\<lparr>maj_next := new\<rparr>) s;
          Some (new, if new = NULL then s else upd_maj new (\<lambda>j. j\<lparr>maj_prev := maj\<rparr>) s) }"

partial_function (option) kmalloc_loop ::
  "u64 \<Rightarrow> u64 \<Rightarrow> u64 \<Rightarrow> bool \<Rightarrow> u64 \<Rightarrow> 'a heap_state_scheme \<Rightarrow> (u64 \<times> 'a heap_state_scheme) option" where
  "kmalloc_loop req_size sz maj startedBet bestSize s =
     (if maj = NULL then Some (NULL, s)
      else do {
        let diff = major_room s maj;
        let s = (if bestSize < diff then s\<lparr>l_bestBet := maj\<rparr> else s);
        let bestSize = (if bestSize < diff then diff else bestSize);
        let full = (diff < sz + sizeof_minor);
        if full \<and> maj_next (majors s maj) \<noteq> NULL
        then kmalloc_loop req_size sz (maj_next (majors s maj)) startedBet bestSize s
        else if full \<and> startedBet then kmalloc_loop req_size sz (l_memRoot s) False bestSize s
        else do {
          (maj, s) \<leftarrow> (if full then extend_major maj sz s else Some (maj, s));
          if maj = NULL then Some (NULL, s)
          else do {
            placed \<leftarrow> place_in_major maj req_size sz s;
            if placed \<noteq> None then placed
            else if maj_next (majors s maj) \<noteq> NULL
            then kmalloc_loop req_size sz (maj_next (majors s maj)) startedBet bestSize s
            else if startedBet then kmalloc_loop req_size sz (l_memRoot s) False bestSize s
            else do {
              (new, s) \<leftarrow> extend_major maj sz s;
              kmalloc_loop req_size sz new startedBet bestSize s
            }
          }
        }
      })"

definition kmalloc_sized :: "u64 \<Rightarrow> u64 \<Rightarrow> 'a heap_state_scheme \<Rightarrow> (u64 \<times> 'a heap_state_scheme) option" where
  "kmalloc_sized req_size sz s =
     do {
       s \<leftarrow> (if l_memRoot s = NULL
            then do { (root, s) \<leftarrow> allocate_new_page (ucast sz) s; Some (s\<lparr>l_memRoot := root\<rparr>) }
            else Some s);
       if l_memRoot s = NULL then Some (NULL, liballoc_unlock s)
       else do {
         let bestSize = (if l_bestBet s \<noteq> NULL then major_room s (l_bestBet s) else 0);
         let startedBet = (l_bestBet s \<noteq> NULL \<and> sz + sizeof_minor < bestSize);
         (p, s) \<leftarrow> kmalloc_loop req_size sz (if startedBet then l_bestBet s else l_memRoot s) startedBet bestSize s;
         Some (p, liballoc_unlock s)
       }
     }"

definition kmalloc :: "u64 \<Rightarrow> 'a heap_state_scheme \<Rightarrow> (u64 \<times> 'a heap_state_scheme) option" where
  "kmalloc req_size s =
     (let sz = req_size + ALIGNMENT + ALIGN_INFO
      in do {
        s \<leftarrow> liballoc_lock s;
        if sz = 0
        then do {
          let s = liballoc_unlock (s\<lparr>l_warningCount := l_warningCount s + 1\<rparr>);
          s \<leftarrow> liballoc_lock s;
          kmalloc_sized 1 (1 + ALIGNMENT + ALIGN_INFO) s
        }
        else kmalloc_sized req_size sz s
      })"

section \<open>Release\<close>

text \<open>The message on a damaged header, and the count of possible overruns.\<close>

definition bad_magic :: "u64 \<Rightarrow> 'a heap_state_scheme \<Rightarrow> 'a heap_state_scheme" where
  "bad_magic m s =
     (let s = s\<lparr>l_errorCount := l_errorCount s + 1\<rparr>;
          magic = min_magic (minors s m)
      in if magic AND 0xFFFFFF = LIBALLOC_MAGIC AND 0xFFFFFF \<or> magic AND 0xFFFF = LIBALLOC_MAGIC AND 0xFFFF \<or>
            magic AND 0xFF = LIBALLOC_MAGIC AND 0xFF
         then s\<lparr>l_possibleOverruns := l_possibleOverruns s + 1\<rparr> else s)"

definition unlink_minor :: "u64 \<Rightarrow> u64 \<Rightarrow> 'a heap_state_scheme \<Rightarrow> 'a heap_state_scheme" where
  "unlink_minor maj m s =
     (let s = (if min_next (minors s m) \<noteq> NULL
               then upd_min (min_next (minors s m)) (\<lambda>i. i\<lparr>min_prev := min_prev (minors s m)\<rparr>) s else s);
          s = (if min_prev (minors s m) \<noteq> NULL
               then upd_min (min_prev (minors s m)) (\<lambda>i. i\<lparr>min_next := min_next (minors s m)\<rparr>) s else s)
      in if min_prev (minors s m) = NULL
         then upd_maj maj (\<lambda>j. j\<lparr>maj_first := min_next (minors s m)\<rparr>) s else s)"

definition release_major :: "u64 \<Rightarrow> 'a heap_state_scheme \<Rightarrow> 'a heap_state_scheme option" where
  "release_major maj s =
     (let s = (if l_memRoot s = maj then s\<lparr>l_memRoot := maj_next (majors s maj)\<rparr> else s);
          s = (if l_bestBet s = maj then s\<lparr>l_bestBet := NULL\<rparr> else s);
          s = (if maj_prev (majors s maj) \<noteq> NULL
               then upd_maj (maj_prev (majors s maj)) (\<lambda>j. j\<lparr>maj_next := maj_next (majors s maj)\<rparr>) s else s);
          s = (if maj_next (majors s maj) \<noteq> NULL
               then upd_maj (maj_next (majors s maj)) (\<lambda>j. j\<lparr>maj_prev := maj_prev (majors s maj)\<rparr>) s else s);
          s = s\<lparr>l_allocated := l_allocated s - ucast (maj_size (majors s maj))\<rparr>
      in liballoc_free maj (maj_pages (majors s maj)) s)"

definition update_best_bet :: "u64 \<Rightarrow> 'a heap_state_scheme \<Rightarrow> 'a heap_state_scheme" where
  "update_best_bet maj s =
     (if l_bestBet s \<noteq> NULL
      then let bestSize = maj_size (majors s (l_bestBet s)) - maj_usage (majors s (l_bestBet s));
               majSize = maj_size (majors s maj) - maj_usage (majors s maj)
           in if sint bestSize < sint majSize then s\<lparr>l_bestBet := maj\<rparr> else s
      else s)"

definition kfree :: "u64 \<Rightarrow> 'a heap_state_scheme \<Rightarrow> 'a heap_state_scheme option" where
  "kfree ptr s =
     (if ptr = NULL then Some (s\<lparr>l_warningCount := l_warningCount s + 1\<rparr>)
      else do {
        let ptr = UNALIGN ptr s;
        s \<leftarrow> liballoc_lock s;
        let m = ptr - sizeof_minor;
        if min_magic (minors s m) \<noteq> LIBALLOC_MAGIC then Some (liballoc_unlock (bad_magic m s))
        else do {
          let maj = min_block (minors s m);
          let s = s\<lparr>l_inuse := l_inuse s - ucast (min_size (minors s m))\<rparr>;
          let s = upd_maj maj (\<lambda>j. j\<lparr>maj_usage := maj_usage j - (min_size (minors s m) + 40)\<rparr>) s;
          let s = upd_min m (\<lambda>i. i\<lparr>min_magic := LIBALLOC_DEAD\<rparr>) s;
          let s = unlink_minor maj m s;
          s \<leftarrow> (if maj_first (majors s maj) = NULL then release_major maj s else Some (update_best_bet maj s));
          Some (liballoc_unlock s)
        }
      })"

definition kcalloc :: "u64 \<Rightarrow> u64 \<Rightarrow> 'a heap_state_scheme \<Rightarrow> (u64 \<times> 'a heap_state_scheme) option" where
  "kcalloc nobj sz s =
     (let real_size = ucast (nobj * sz) :: i32
      in do {
        (p, s) \<leftarrow> kmalloc (scast real_size) s;
        m \<leftarrow> liballoc_memset p 0 (scast real_size) (mem s);
        Some (p, s\<lparr>mem := m\<rparr>)
      })"

definition krealloc :: "u64 \<Rightarrow> u64 \<Rightarrow> 'a heap_state_scheme \<Rightarrow> (u64 \<times> 'a heap_state_scheme) option" where
  "krealloc p sz s =
     (if sz = 0 then do { s \<leftarrow> kfree p s; Some (NULL, s) }
      else if p = NULL then kmalloc sz s
      else do {
        let ptr = UNALIGN p s;
        s \<leftarrow> liballoc_lock s;
        let m = ptr - sizeof_minor;
        if min_magic (minors s m) \<noteq> LIBALLOC_MAGIC then Some (NULL, liballoc_unlock (bad_magic m s))
        else do {
          let real_size = min_req_size (minors s m);
          if sz \<le> ucast real_size
          then Some (p, liballoc_unlock (upd_min m (\<lambda>i. i\<lparr>min_req_size := ucast sz\<rparr>) s))
          else do {
            (ptr, s) \<leftarrow> kmalloc sz (liballoc_unlock s);
            let s = s\<lparr>mem := liballoc_memcpy ptr p (ucast real_size) (mem s)\<rparr>;
            s \<leftarrow> kfree p s;
            Some (ptr, s)
          }
        }
      })"

section \<open>String functions that allocate\<close>

definition strdup :: "u64 \<Rightarrow> 'a heap_state_scheme \<Rightarrow> (u64 \<times> 'a heap_state_scheme) option" where
  "strdup str s =
     do { len \<leftarrow> strlen (mem s) str;
          (copy, s) \<leftarrow> kmalloc (len + 1) s;
          if copy \<noteq> NULL then do { (m, _) \<leftarrow> strcpy (mem s) copy str; Some (copy, s\<lparr>mem := m\<rparr>) }
          else Some (copy, s) }"

definition strndup :: "u64 \<Rightarrow> u64 \<Rightarrow> 'a heap_state_scheme \<Rightarrow> (u64 \<times> 'a heap_state_scheme) option" where
  "strndup str n s =
     do { len \<leftarrow> strlen (mem s) str;
          let len = (if n < len then n else len);
          (copy, s) \<leftarrow> kmalloc (len + 1) s;
          if copy \<noteq> NULL
          then let m = fst (strncpy (mem s) copy str len) in Some (copy, s\<lparr>mem := m(copy + len := 0)\<rparr>)
          else Some (copy, s) }"

section \<open>Doubly linked lists\<close>

text \<open>
  \<open>dll nx pv p xs n\<close>: the cells \<open>xs\<close> are linked in both directions by the functions \<open>nx\<close> and \<open>pv\<close>,
  the first one backwards to \<open>p\<close> and the last one forwards to \<open>n\<close>. Both lists of the heap have this
  shape.
\<close>

definition head_or :: "u64 \<Rightarrow> u64 list \<Rightarrow> u64" where
  "head_or n xs = (case xs of [] \<Rightarrow> n | x # _ \<Rightarrow> x)"

definition last_or :: "u64 \<Rightarrow> u64 list \<Rightarrow> u64" where
  "last_or p xs = (if xs = [] then p else last xs)"

fun dll :: "(u64 \<Rightarrow> u64) \<Rightarrow> (u64 \<Rightarrow> u64) \<Rightarrow> u64 \<Rightarrow> u64 list \<Rightarrow> u64 \<Rightarrow> bool" where
  "dll nx pv p [] n \<longleftrightarrow> True"
| "dll nx pv p (x # xs) n \<longleftrightarrow> x \<noteq> NULL \<and> pv x = p \<and> nx x = head_or n xs \<and> dll nx pv x xs n"

lemma head_or_simps [simp]: "head_or n [] = n" "head_or n (x # xs) = x"
  by (simp_all add: head_or_def)

lemma last_or_simps [simp]: "last_or p [] = p" "last_or p (xs @ [x]) = x" "last_or p (x # xs) = last_or x xs"
  by (simp_all add: last_or_def)

lemma head_or_append: "head_or n (xs @ ys) = head_or (head_or n ys) xs"
  by (cases xs) simp_all

lemma last_or_append: "last_or p (xs @ ys) = last_or (last_or p xs) ys"
  by (induction xs arbitrary: p) simp_all

lemma dll_append: "dll nx pv p (xs @ ys) n \<longleftrightarrow> dll nx pv p xs (head_or n ys) \<and> dll nx pv (last_or p xs) ys n"
  by (induction xs arbitrary: p) (auto simp: head_or_append)

lemma dll_nonnull: "dll nx pv p xs n \<Longrightarrow> x \<in> set xs \<Longrightarrow> x \<noteq> NULL"
  by (induction xs arbitrary: p) auto

lemma dll_cong:
  "(\<And>x. x \<in> set xs \<Longrightarrow> nx' x = nx x \<and> pv' x = pv x) \<Longrightarrow> dll nx' pv' p xs n = dll nx pv p xs n"
  by (induction xs arbitrary: p) auto

text \<open>Changing where an end of the list points to.\<close>

lemma dll_set_next:
  assumes "dll nx pv p xs n" and "distinct xs" and "xs \<noteq> [] \<Longrightarrow> nx' (last xs) = n'"
    and "\<And>x. x \<in> set xs \<Longrightarrow> pv' x = pv x" and "\<And>x. x \<in> set xs \<Longrightarrow> x \<noteq> last xs \<Longrightarrow> nx' x = nx x"
  shows "dll nx' pv' p xs n'"
  using assms
proof (induction xs rule: rev_induct)
  case (snoc x xs)
  have "dll nx' pv' p xs x = dll nx pv p xs x" using snoc.prems by (intro dll_cong) auto
  with snoc.prems show ?case by (auto simp: dll_append)
qed simp

lemma dll_set_prev:
  assumes "dll nx pv p xs n" and "distinct xs" and "xs \<noteq> [] \<Longrightarrow> pv' (hd xs) = p'"
    and "\<And>x. x \<in> set xs \<Longrightarrow> nx' x = nx x" and "\<And>x. x \<in> set xs \<Longrightarrow> x \<noteq> hd xs \<Longrightarrow> pv' x = pv x"
  shows "dll nx' pv' p' xs n"
proof (cases xs)
  case (Cons x ys)
  have "dll nx' pv' x ys n = dll nx pv x ys n" using assms Cons by (intro dll_cong) auto
  with assms Cons show ?thesis by auto
qed simp

text \<open>Insertion of a cell between two parts of the list, and its removal.\<close>

lemma dll_insert:
  assumes "dll nx pv p (xs @ ys) n" and "distinct (xs @ ys)" and "x \<notin> set xs \<union> set ys" and "x \<noteq> NULL"
    and "pv' x = last_or p xs" and "nx' x = head_or n ys"
    and "xs \<noteq> [] \<Longrightarrow> nx' (last xs) = x" and "ys \<noteq> [] \<Longrightarrow> pv' (hd ys) = x"
    and "\<And>y. y \<in> set xs \<union> set ys \<Longrightarrow> y \<noteq> last_or NULL xs \<Longrightarrow> nx' y = nx y"
    and "\<And>y. y \<in> set xs \<union> set ys \<Longrightarrow> y \<noteq> head_or NULL ys \<Longrightarrow> pv' y = pv y"
  shows "dll nx' pv' p (xs @ x # ys) n"
proof -
  have nn: "y \<noteq> NULL" if "y \<in> set xs \<union> set ys" for y using dll_nonnull [OF assms(1)] that by auto
  have l: "y \<noteq> head_or NULL ys" if "y \<in> set xs" for y
    using that assms(2) nn by (cases ys) auto
  have r: "y \<noteq> last_or NULL xs" if "y \<in> set ys" for y
    using that assms(2) nn last_in_set [of xs] by (auto simp: last_or_def disjoint_iff)
  have "dll nx' pv' p xs x"
  proof (rule dll_set_next [of nx pv p xs "head_or n ys"])
    show "nx' y = nx y" if "y \<in> set xs" "y \<noteq> last xs" for y using that assms(9) by (cases xs) (auto simp: last_or_def)
  qed (use assms l in \<open>simp_all add: dll_append\<close>)
  moreover have "dll nx' pv' x ys n"
  proof (rule dll_set_prev [of nx pv "last_or p xs" ys])
    show "pv' y = pv y" if "y \<in> set ys" "y \<noteq> hd ys" for y using that assms(10) by (cases ys) auto
  qed (use assms r in \<open>simp_all add: dll_append\<close>)
  ultimately show ?thesis using assms(4-6) by (simp add: dll_append)
qed

lemma dll_remove:
  assumes "dll nx pv p (xs @ x # ys) n" and "distinct (xs @ x # ys)"
    and "xs \<noteq> [] \<Longrightarrow> nx' (last xs) = head_or n ys" and "ys \<noteq> [] \<Longrightarrow> pv' (hd ys) = last_or p xs"
    and "\<And>y. y \<in> set xs \<union> set ys \<Longrightarrow> y \<noteq> last_or NULL xs \<Longrightarrow> nx' y = nx y"
    and "\<And>y. y \<in> set xs \<union> set ys \<Longrightarrow> y \<noteq> head_or NULL ys \<Longrightarrow> pv' y = pv y"
  shows "dll nx' pv' p (xs @ ys) n"
proof -
  have nn: "y \<noteq> NULL" if "y \<in> set xs \<union> set ys" for y using dll_nonnull [OF assms(1)] that by auto
  have l: "y \<noteq> head_or NULL ys" if "y \<in> set xs" for y
    using that assms(2) nn by (cases ys) auto
  have r: "y \<noteq> last_or NULL xs" if "y \<in> set ys" for y
    using that assms(2) nn last_in_set [of xs] by (auto simp: last_or_def disjoint_iff)
  have "dll nx' pv' p xs (head_or n ys)"
  proof (rule dll_set_next [of nx pv p xs x])
    show "nx' y = nx y" if "y \<in> set xs" "y \<noteq> last xs" for y using that assms(5) by (cases xs) (auto simp: last_or_def)
  qed (use assms l in \<open>simp_all add: dll_append\<close>)
  moreover have "dll nx' pv' (last_or p xs) ys n"
  proof (rule dll_set_prev [of nx pv x ys])
    show "pv' y = pv y" if "y \<in> set ys" "y \<noteq> hd ys" for y using that assms(6) by (cases ys) auto
  qed (use assms r in \<open>simp_all add: dll_append\<close>)
  ultimately show ?thesis by (simp add: dll_append)
qed

section \<open>Areas\<close>

text \<open>
  The abstract view of a block: the areas it gave out, as pairs of a start and a length that covers
  the header, in the order of their addresses. \<open>insert_first\<close> is first fit.
\<close>

type_synonym areas = "(nat \<times> nat) list"

fun areas_ok :: "nat \<Rightarrow> nat \<Rightarrow> areas \<Rightarrow> bool" where
  "areas_ok lo hi [] \<longleftrightarrow> lo \<le> hi"
| "areas_ok lo hi ((a, k) # xs) \<longleftrightarrow> lo \<le> a \<and> 0 < k \<and> areas_ok (a + k) hi xs"

fun insert_first :: "nat \<Rightarrow> nat \<Rightarrow> nat \<Rightarrow> areas \<Rightarrow> areas option" where
  "insert_first lo hi n [] = (if lo + n \<le> hi then Some [(lo, n)] else None)"
| "insert_first lo hi n ((a, k) # xs) =
     (if lo + n \<le> a then Some ((lo, n) # (a, k) # xs)
      else map_option (Cons (a, k)) (insert_first (a + k) hi n xs))"

lemma areas_ok_le: "areas_ok lo hi xs \<Longrightarrow> lo + sum_list (map snd xs) \<le> hi"
  by (induction lo hi xs rule: areas_ok.induct) auto

lemma areas_ok_within: "areas_ok lo hi xs \<Longrightarrow> (a, k) \<in> set xs \<Longrightarrow> lo \<le> a \<and> 0 < k \<and> a + k \<le> hi"
  by (induction lo hi xs rule: areas_ok.induct) (fastforce dest: areas_ok_le)+

lemma areas_ok_mono: "areas_ok lo hi xs \<Longrightarrow> lo' \<le> lo \<Longrightarrow> areas_ok lo' hi xs"
  by (cases xs) auto

lemma areas_ok_append:
  "areas_ok lo hi (xs @ (a, k) # ys) \<longleftrightarrow> areas_ok lo a xs \<and> 0 < k \<and> areas_ok (a + k) hi ys"
  by (induction lo hi xs rule: areas_ok.induct) auto

lemma areas_ok_remove: "areas_ok lo hi (xs @ (a, k) # ys) \<Longrightarrow> areas_ok lo hi (xs @ ys)"
proof (cases ys)
  case (Cons y ys')
  obtain b j where "y = (b, j)" by fastforce
  with Cons show "areas_ok lo hi (xs @ (a, k) # ys) \<Longrightarrow> areas_ok lo hi (xs @ ys)"
    by (induction lo hi xs rule: areas_ok.induct) auto
next
  case Nil
  then show "areas_ok lo hi (xs @ (a, k) # ys) \<Longrightarrow> areas_ok lo hi (xs @ ys)"
    by (induction lo hi xs rule: areas_ok.induct) auto
qed

lemma insert_first_ok:
  "insert_first lo hi n xs = Some ys \<Longrightarrow> areas_ok lo hi xs \<Longrightarrow> 0 < n \<Longrightarrow> areas_ok lo hi ys"
proof (induction lo hi n xs arbitrary: ys rule: insert_first.induct)
  case (2 lo hi n a k xs)
  then show ?case by (auto split: if_splits)
qed (auto split: if_splits)

lemma insert_first_sum:
  "insert_first lo hi n xs = Some ys \<Longrightarrow> sum_list (map snd ys) = n + sum_list (map snd xs)"
  by (induction lo hi n xs arbitrary: ys rule: insert_first.induct) (auto split: if_splits)

lemma insert_first_room:
  assumes "insert_first lo hi n xs = Some ys" and "areas_ok lo hi xs" and "0 < n"
  shows "lo + n + sum_list (map snd xs) \<le> hi"
  using areas_ok_le [OF insert_first_ok [OF assms]] insert_first_sum [OF assms(1)] by simp

section \<open>Blocks\<close>

definition area_of :: "'a heap_state_scheme \<Rightarrow> u64 \<Rightarrow> nat \<times> nat" where
  "area_of s m = (unat m, 40 + unat (min_size (minors s m)))"

definition block_end :: "'a heap_state_scheme \<Rightarrow> u64 \<Rightarrow> nat" where
  "block_end s maj = unat maj + unat (maj_size (majors s maj))"

definition block_ok :: "'a heap_state_scheme \<Rightarrow> u64 \<Rightarrow> u64 list \<Rightarrow> bool" where
  "block_ok s maj ms \<longleftrightarrow>
     maj \<noteq> NULL \<and> block_end s maj < 2 ^ 64 \<and> maj_first (majors s maj) = head_or NULL ms \<and>
     dll (\<lambda>m. min_next (minors s m)) (\<lambda>m. min_prev (minors s m)) NULL ms NULL \<and>
     (\<forall>m \<in> set ms. min_block (minors s m) = maj \<and> min_magic (minors s m) = LIBALLOC_MAGIC) \<and>
     areas_ok (unat maj + 40) (block_end s maj) (map (area_of s) ms) \<and>
     unat (maj_usage (majors s maj)) = 40 + sum_list (map (snd \<circ> area_of s) ms)"

text \<open>First fit in a block, on the abstract view.\<close>

definition block_fit :: "'a heap_state_scheme \<Rightarrow> u64 \<Rightarrow> u64 \<Rightarrow> u64 list \<Rightarrow> areas option" where
  "block_fit s sz maj ms = insert_first (unat maj + 40) (block_end s maj) (unat sz + 40) (map (area_of s) ms)"

text \<open>All four ways of placing an allocation are this one: a new cell between two neighbours, either of which may be missing.\<close>

definition insert_minor ::
  "u64 \<Rightarrow> u64 \<Rightarrow> u64 \<Rightarrow> u64 \<Rightarrow> u64 \<Rightarrow> u64 \<Rightarrow> 'a heap_state_scheme \<Rightarrow> 'a heap_state_scheme" where
  "insert_minor maj prv new nxt req_size sz s =
     s\<lparr>majors := (majors s)(maj := (majors s maj)
         \<lparr>maj_first := (if prv = NULL then new else maj_first (majors s maj)),
          maj_usage := maj_usage (majors s maj) + ucast (sz + 40)\<rparr>),
       minors := (\<lambda>m. if m = new then \<lparr>min_prev = prv, min_next = nxt, min_block = maj, min_magic = LIBALLOC_MAGIC,
                        min_size = ucast sz, min_req_size = ucast req_size\<rparr>
                      else if m = prv \<and> prv \<noteq> NULL then (minors s m)\<lparr>min_next := new\<rparr>
                      else if m = nxt \<and> nxt \<noteq> NULL then (minors s m)\<lparr>min_prev := new\<rparr> else minors s m),
       l_inuse := l_inuse s + sz\<rparr>"

lemma place_empty_insert:
  "place_empty maj req_size sz s = ALIGN_ptr (maj + 40 + 40) (insert_minor maj NULL (maj + 40) NULL req_size sz s)"
  by (cases s) (simp add: place_empty_def finish_minor_def insert_minor_def upd_maj_def upd_min_def Let_def fun_upd_def cong: if_cong)

lemma minor_record:
  "i\<lparr>min_next := f, min_magic := g, min_prev := p, min_block := b, min_size := z, min_req_size := r\<rparr> =
   \<lparr>min_prev = p, min_next = f, min_block = b, min_magic = g, min_size = z, min_req_size = r\<rparr>"
  by (cases i) simp

lemma place_front_insert:
  assumes "maj_first (majors s maj) = f" and "f \<noteq> NULL" and "f \<noteq> maj + 40"
  shows "place_front maj req_size sz s =
    ALIGN_ptr (maj + 40 + 40) (insert_minor maj NULL (maj + 40) f req_size sz s)"
  using assms by (cases s) (simp add: minor_record place_front_def finish_minor_def insert_minor_def upd_maj_def upd_min_def Let_def fun_upd_def
    fun_eq_iff cong: if_cong)

lemma place_last_insert:
  assumes "new = m + 40 + ucast (min_size (minors s m))" and "m \<noteq> NULL" and "new \<noteq> m"
  shows "place_last maj m req_size sz s = ALIGN_ptr (new + 40) (insert_minor maj m new NULL req_size sz s)"
  using assms by (cases s) (simp add: place_last_def finish_minor_def insert_minor_def upd_maj_def upd_min_def Let_def fun_upd_def
    fun_eq_iff cong: if_cong)

lemma place_between_insert:
  assumes "new = m + 40 + ucast (min_size (minors s m))" and "m \<noteq> NULL" and "new \<noteq> m"
    and "min_next (minors s m) = nxt" and "nxt \<noteq> NULL" and "nxt \<noteq> m" and "nxt \<noteq> new"
  shows "place_between maj m req_size sz s = ALIGN_ptr (new + 40) (insert_minor maj m new nxt req_size sz s)"
  using assms by (cases s) (auto simp: place_between_def finish_minor_def insert_minor_def upd_maj_def upd_min_def Let_def
    fun_eq_iff intro!: arg_cong2 [where f = ALIGN_ptr])

lemma areas_ok_member:
  assumes "areas_ok lo hi (map (area_of s) ms)" and "m \<in> set ms"
  shows "lo \<le> unat m" and "unat m + 40 + unat (min_size (minors s m)) \<le> hi"
proof -
  have "area_of s m \<in> set (map (area_of s) ms)" using assms(2) by simp
  then have "(unat m, 40 + unat (min_size (minors s m))) \<in> set (map (area_of s) ms)" by (simp add: area_of_def [of s m])
  from areas_ok_within [OF assms(1) this]
  show "lo \<le> unat m" "unat m + 40 + unat (min_size (minors s m)) \<le> hi" by simp_all
qed

lemma block_ok_distinct:
  assumes "block_ok s maj ms"
  shows "distinct ms"
proof -
  have "areas_ok lo hi (map (area_of s) xs) \<Longrightarrow> distinct xs" for lo hi xs
  proof (induction xs arbitrary: lo)
    case (Cons x xs)
    then have ok: "areas_ok (unat x + (40 + unat (min_size (minors s x)))) hi (map (area_of s) xs)"
      by (simp add: area_of_def [of s x])
    have "x \<notin> set xs" using areas_ok_member(1) [OF ok, of x] by auto
    with Cons.IH [OF ok] show ?case by simp
  qed simp
  then show ?thesis using assms by (auto simp: block_ok_def)
qed

lemma block_ok_member:
  assumes "block_ok s maj ms" and "m \<in> set ms"
  shows "m \<noteq> NULL" and "unat maj + 40 \<le> unat m" and "unat m + 40 + unat (min_size (minors s m)) \<le> block_end s maj"
    and "min_block (minors s m) = maj" and "min_magic (minors s m) = LIBALLOC_MAGIC"
proof -
  have "areas_ok (unat maj + 40) (block_end s maj) (map (area_of s) ms)" using assms(1) by (simp add: block_ok_def)
  from areas_ok_member [OF this assms(2)]
  show "unat maj + 40 \<le> unat m" "unat m + 40 + unat (min_size (minors s m)) \<le> block_end s maj" .
  show "m \<noteq> NULL" "min_block (minors s m) = maj" "min_magic (minors s m) = LIBALLOC_MAGIC"
    using assms by (auto simp: block_ok_def dest: dll_nonnull)
qed

lemma unat_u32_less: "unat (x :: u32) < 4294967296"
  using unsigned_less [of x] by simp

lemma unat_ucast32 [simp]: "unat (ucast (x :: u32) :: u64) = unat x"
  using unat_u32_less [of x] by (simp add: unsigned_ucast_eq take_bit_nat_eq_self)

lemma insert_minor_block_ok:
  assumes ok: "block_ok s maj (xs @ ys)"
    and gap: "areas_ok (unat maj + 40) (block_end s maj) (map (area_of s) xs @ (unat new, unat sz + 40) # map (area_of s) ys)"
  shows "block_ok (insert_minor maj (last_or NULL xs) new (head_or NULL ys) req_size sz s) maj (xs @ new # ys)"
    and "map (area_of (insert_minor maj (last_or NULL xs) new (head_or NULL ys) req_size sz s)) (xs @ new # ys) =
      map (area_of s) xs @ (unat new, unat sz + 40) # map (area_of s) ys"
proof -
  let ?t = "insert_minor maj (last_or NULL xs) new (head_or NULL ys) req_size sz s"
  have d: "distinct (xs @ ys)" by (rule block_ok_distinct [OF ok])
  have nn: "m \<noteq> NULL" if "m \<in> set (xs @ ys)" for m using block_ok_member(1) [OF ok that] .
  have sum: "unat maj + 40 + (sum_list (map (snd \<circ> area_of s) (xs @ ys)) + (unat sz + 40)) \<le> block_end s maj"
    using areas_ok_le [OF gap] by (simp add: comp_def)
  have fresh: "new \<notin> set xs \<union> set ys"
  proof -
    have "areas_ok (unat maj + 40) (unat new) (map (area_of s) xs)"
      "areas_ok (unat new + (unat sz + 40)) (block_end s maj) (map (area_of s) ys)"
      using gap by (simp_all add: areas_ok_append)
    then show ?thesis by (auto dest: areas_ok_member [of _ _ s _ new])
  qed
  have new0: "new \<noteq> NULL" using gap by (auto simp: areas_ok_append unat_eq_zero dest!: areas_ok_le)
  have small: "unat sz + 40 < 2 ^ 32"
    using sum unat_u32_less [of "maj_size (majors s maj)"] by (simp add: block_end_def)
  have sz: "unat (ucast sz :: u32) = unat sz" "unat (ucast (sz + 40) :: u32) = unat sz + 40"
  proof -
    show "unat (ucast sz :: u32) = unat sz" using small by (simp add: unsigned_ucast_eq take_bit_nat_eq_self)
    have "unat (sz + 40) = unat sz + 40" using small by (subst unat_add_no_wrap) simp_all
    then show "unat (ucast (sz + 40) :: u32) = unat sz + 40" using small by (simp add: unsigned_ucast_eq take_bit_nat_eq_self)
  qed
  have end': "block_end ?t maj = block_end s maj" by (simp add: block_end_def insert_minor_def)
  have old: "area_of ?t m = area_of s m" "min_block (minors ?t m) = min_block (minors s m)"
    "min_magic (minors ?t m) = min_magic (minors s m)" if "m \<in> set xs \<union> set ys" for m
    using fresh that by (auto simp: area_of_def insert_minor_def)
  have new: "area_of ?t new = (unat new, unat sz + 40)" "min_block (minors ?t new) = maj"
    "min_magic (minors ?t new) = LIBALLOC_MAGIC" using sz by (auto simp: area_of_def insert_minor_def)
  show areas: "map (area_of ?t) (xs @ new # ys) =
      map (area_of s) xs @ (unat new, unat sz + 40) # map (area_of s) ys" using old(1) new(1) by simp
  have "dll (\<lambda>m. min_next (minors ?t m)) (\<lambda>m. min_prev (minors ?t m)) NULL (xs @ new # ys) NULL"
  proof (rule dll_insert [OF _ d fresh new0])
    show "dll (\<lambda>m. min_next (minors s m)) (\<lambda>m. min_prev (minors s m)) NULL (xs @ ys) NULL"
      using ok by (simp add: block_ok_def)
    show "min_next (minors ?t (last xs)) = new" if "xs \<noteq> []"
      using that nn [of "last xs"] fresh last_in_set [OF that] by (auto simp: insert_minor_def last_or_def)
    have ne: "head_or NULL ys \<noteq> last_or NULL xs" if "ys \<noteq> []"
      using that d nn by (cases ys) (auto simp: last_or_def split: if_splits)
    show "min_prev (minors ?t (hd ys)) = new" if "ys \<noteq> []"
      using that nn [of "hd ys"] fresh ne by (cases ys) (auto simp: insert_minor_def)
    show "min_next (minors ?t m) = min_next (minors s m)" if "m \<in> set xs \<union> set ys" "m \<noteq> last_or NULL xs" for m
      using that fresh by (auto simp: insert_minor_def)
    show "min_prev (minors ?t m) = min_prev (minors s m)" if "m \<in> set xs \<union> set ys" "m \<noteq> head_or NULL ys" for m
      using that fresh by (auto simp: insert_minor_def)
  qed (simp_all add: insert_minor_def)
  moreover have "maj_first (majors ?t maj) = head_or NULL (xs @ new # ys)"
    using ok nn by (cases xs) (auto simp: insert_minor_def block_ok_def last_or_def)
  moreover have "unat (maj_usage (majors ?t maj)) = 40 + sum_list (map (snd \<circ> area_of ?t) (xs @ new # ys))"
  proof -
    have u: "unat (maj_usage (majors s maj)) = 40 + sum_list (map (snd \<circ> area_of s) (xs @ ys))"
      using ok by (simp add: block_ok_def)
    moreover have "unat (maj_usage (majors s maj)) + (unat sz + 40) < 2 ^ 32"
      using u sum unat_u32_less [of "maj_size (majors s maj)"] by (simp add: block_end_def)
    ultimately have "unat (maj_usage (majors ?t maj)) = 40 + sum_list (map (snd \<circ> area_of s) (xs @ ys)) + (unat sz + 40)"
      using sz(2) by (simp add: insert_minor_def unat_word_ariths)
    moreover have "sum_list (map snd (map (area_of ?t) (xs @ new # ys))) =
        sum_list (map (snd \<circ> area_of s) (xs @ ys)) + (unat sz + 40)" unfolding areas by simp
    ultimately show ?thesis by (simp only: map_map add.assoc)
  qed
  ultimately show "block_ok ?t maj (xs @ new # ys)"
    using ok gap old new unfolding block_ok_def end' areas by auto
qed


lemma unat_align_diff: "unat (align_diff x) < 16" and align_diff_aligned: "16 dvd unat (x + 16 + align_diff x)"
proof -
  let ?d = "(x + 16) AND 15"
  have "unat (x + 16) AND 15 = take_bit 4 (unat (x + 16))" by (simp add: take_bit_eq_mask mask_eq_exp_minus_1)
  then have d: "unat ?d = unat (x + 16) mod 16" by (simp add: unsigned_and_eq take_bit_eq_mod)
  show lt: "unat (align_diff x) < 16"
  proof (cases "?d = 0")
    case False
    then have "0 < unat ?d" by (simp add: unat_gt_0)
    then show ?thesis using d False by (simp add: align_diff_def Let_def unat_sub_if')
  qed (simp add: align_diff_def)
  have "unat (x + 16 + align_diff x) mod 16 = (unat (x + 16) + unat (align_diff x)) mod 16"
    by (subst unat_word_ariths) (simp add: mod_mod_cancel)
  also have "\<dots> = 0"
  proof (cases "?d = 0")
    case True
    then show ?thesis using d by (simp add: align_diff_def mod_eq_0_iff_dvd)
  next
    case False
    have "?d \<le> 16" using d by (simp add: word_le_nat_alt)
    then have "unat (align_diff x) = 16 - unat (x + 16) mod 16"
      using False d by (simp add: align_diff_def Let_def unat_diff_le word_le_nat_alt)
    moreover have "(a + (16 - a mod 16)) mod 16 = 0" for a :: nat by presburger
    ultimately show ?thesis by simp
  qed
  finally show "16 dvd unat (x + 16 + align_diff x)" by (simp add: mod_eq_0_iff_dvd)
qed

lemma unat_after_minor:
  assumes "unat m + 40 + unat (min_size (minors s m)) < 2 ^ 64"
  shows "unat (m + 40 + ucast (min_size (minors s m))) = unat m + 40 + unat (min_size (minors s m))"
proof -
  have "unat (m + 40) = unat m + 40" using assms by (subst unat_add_no_wrap) simp_all
  then show ?thesis using assms by (subst unat_add_no_wrap) simp_all
qed

lemma gap_after_unat:
  assumes "dll (\<lambda>m. min_next (minors s m)) (\<lambda>m. min_prev (minors s m)) p (m # ms) NULL"
    and "areas_ok lo (block_end s maj) (map (area_of s) (m # ms))" and "block_end s maj < 2 ^ 64"
  shows "unat (gap_after maj m s) + (unat m + 40 + unat (min_size (minors s m))) =
    (case ms of [] \<Rightarrow> block_end s maj | k # _ \<Rightarrow> unat k)"
proof -
  let ?w = "m + 40 + ucast (min_size (minors s m))"
  define z where "z = (case ms of [] \<Rightarrow> maj + ucast (maj_size (majors s maj)) | k # _ \<Rightarrow> k)"
  have z: "unat z = (case ms of [] \<Rightarrow> block_end s maj | k # _ \<Rightarrow> unat k)"
    using assms(3) by (auto simp: z_def block_end_def unat_add_no_wrap split: list.splits)
  have le: "unat m + 40 + unat (min_size (minors s m)) \<le> unat z"
    using assms(2) unfolding z by (auto simp: area_of_def split: list.splits)
  have w: "unat ?w = unat m + 40 + unat (min_size (minors s m))"
    using le unat_u64_less [of z] by (intro unat_after_minor) simp
  have "gap_after maj m s = z - ?w"
    using assms(1) by (cases ms) (auto simp: gap_after_def z_def head_or_def diff_diff_eq)
  then have "unat (gap_after maj m s) = unat z - unat ?w" using le w by (simp add: unat_diff_le word_le_nat_alt)
  then show ?thesis using z w le by simp
qed

lemma find_minor_spec:
  assumes "dll (\<lambda>m. min_next (minors s m)) (\<lambda>m. min_prev (minors s m)) p (m # ms) NULL"
    and "areas_ok lo (block_end s maj) (map (area_of s) (m # ms))" and "block_end s maj < 2 ^ 64"
    and "unat sz + 40 < 2 ^ 64"
  shows "case insert_first (unat m + 40 + unat (min_size (minors s m))) (block_end s maj) (unat sz + 40) (map (area_of s) ms)
     of None \<Rightarrow> find_minor maj sz m s = Some NULL
     | Some zs \<Rightarrow> \<exists>us v vs. m # ms = us @ v # vs \<and> find_minor maj sz m s = Some v \<and>
         area_of s m # zs = map (area_of s) (us @ [v]) @
           (unat v + 40 + unat (min_size (minors s v)), unat sz + 40) # map (area_of s) vs"
  using assms(1,2)
proof (induction ms arbitrary: p m lo)
  case Nil
  have n: "unat (sz + 40) = unat sz + 40" using assms(4) by (subst unat_add_no_wrap) simp_all
  note g = gap_after_unat [OF Nil assms(3)]
  have nx: "m \<noteq> NULL" "min_next (minors s m) = NULL" using Nil by simp_all
  have "find_minor maj sz m s = Some (if sz + 40 \<le> gap_after maj m s then m else NULL)"
    using nx by (subst find_minor.simps) (simp add: find_minor.simps [of _ _ 0])
  then show ?case using g n by (auto simp: word_le_nat_alt intro!: exI [of _ "[]"])
next
  case (Cons k ms)
  have n: "unat (sz + 40) = unat sz + 40" using assms(4) by (subst unat_add_no_wrap) simp_all
  note g = gap_after_unat [OF Cons.prems assms(3)]
  have nx: "m \<noteq> NULL" "min_next (minors s m) = k" using Cons.prems by simp_all
  have step: "find_minor maj sz m s = (if sz + 40 \<le> gap_after maj m s then Some m else find_minor maj sz k s)"
    using nx by (subst find_minor.simps) simp
  have IH: "case insert_first (unat k + 40 + unat (min_size (minors s k))) (block_end s maj) (unat sz + 40) (map (area_of s) ms)
     of None \<Rightarrow> find_minor maj sz k s = Some NULL
     | Some zs \<Rightarrow> \<exists>us v vs. k # ms = us @ v # vs \<and> find_minor maj sz k s = Some v \<and>
         area_of s k # zs = map (area_of s) (us @ [v]) @
           (unat v + 40 + unat (min_size (minors s v)), unat sz + 40) # map (area_of s) vs"
    using Cons.prems by (intro Cons.IH [of m k "unat m + 40 + unat (min_size (minors s m))"]) (auto simp: area_of_def)
  show ?case
  proof (cases "sz + 40 \<le> gap_after maj m s")
    case True
    then have "unat m + 40 + unat (min_size (minors s m)) + (unat sz + 40) \<le> unat k"
      using g n by (simp add: word_le_nat_alt)
    then show ?thesis using step True by (simp add: area_of_def [of s k] add.assoc) (rule exI [of _ "[]"], simp add: area_of_def)
  next
    case False
    then have ng: "\<not> unat m + 40 + unat (min_size (minors s m)) + (unat sz + 40) \<le> unat k"
      using g n by (simp add: word_le_nat_alt)
    have ins: "insert_first (unat m + 40 + unat (min_size (minors s m))) (block_end s maj) (unat sz + 40) (map (area_of s) (k # ms)) =
      map_option (Cons (area_of s k))
       (insert_first (unat k + 40 + unat (min_size (minors s k))) (block_end s maj) (unat sz + 40) (map (area_of s) ms))"
      using ng by (simp add: area_of_def [of s k] add.assoc)
    show ?thesis
    proof (cases "insert_first (unat k + 40 + unat (min_size (minors s k))) (block_end s maj) (unat sz + 40) (map (area_of s) ms)")
      case None
      then show ?thesis using IH step False unfolding ins by simp
    next
      case (Some zs)
      with IH obtain us v vs where "k # ms = us @ v # vs" "find_minor maj sz k s = Some v"
         "area_of s k # zs = map (area_of s) (us @ [v]) @
           (unat v + 40 + unat (min_size (minors s v)), unat sz + 40) # map (area_of s) vs" by auto
      then have "m # k # ms = (m # us) @ v # vs" "find_minor maj sz m s = Some v"
        "area_of s m # area_of s k # zs = map (area_of s) ((m # us) @ [v]) @
          (unat v + 40 + unat (min_size (minors s v)), unat sz + 40) # map (area_of s) vs"
        using step False by simp_all
      then show ?thesis unfolding ins Some option.map option.case by blast
    qed
  qed
qed

text \<open>One block: the code places the allocation where first fit does, or nowhere.\<close>

lemma place_in_major_refines:
  assumes ok: "block_ok s maj ms" and sz: "unat sz + 40 < 2 ^ 64"
  shows "block_fit s sz maj ms = Some zs \<Longrightarrow> \<exists>xs new ys. ms = xs @ ys \<and>
      zs = map (area_of s) xs @ (unat new, unat sz + 40) # map (area_of s) ys \<and>
      place_in_major maj req_size sz s = Some (Some (ALIGN_ptr (new + 40)
        (insert_minor maj (last_or NULL xs) new (head_or NULL ys) req_size sz s)))"
    and "block_fit s sz maj ms = None \<Longrightarrow> ms \<noteq> [] \<Longrightarrow> place_in_major maj req_size sz s = Some None"
proof -
  have n: "unat (sz + 40) = unat sz + 40" using sz by (subst unat_add_no_wrap) simp_all
  have b: "block_end s maj < 2 ^ 64" and first: "maj_first (majors s maj) = head_or NULL ms"
    and dl: "dll (\<lambda>m. min_next (minors s m)) (\<lambda>m. min_prev (minors s m)) NULL ms NULL"
    and ar: "areas_ok (unat maj + 40) (block_end s maj) (map (area_of s) ms)"
    using ok by (simp_all add: block_ok_def)
  have "unat maj + 40 \<le> block_end s maj" using areas_ok_le [OF ar] by simp
  then have f40: "unat (maj + 40) = unat maj + 40" using b by (subst unat_add_no_wrap) simp_all
  have place: "place_in_major maj req_size sz s =
      (if unat maj + 40 + (unat sz + 40) \<le> unat m then Some (Some (place_front maj req_size sz s))
       else do { v \<leftarrow> find_minor maj sz m s;
         Some (if v = NULL then None
              else if min_next (minors s v) = NULL then Some (place_last maj v req_size sz s)
              else Some (place_between maj v req_size sz s)) })" if "ms = m # ms'" for m ms'
  proof -
    have m: "m \<noteq> NULL" "unat maj + 40 \<le> unat m" using block_ok_member [OF ok, of m] that by simp_all
    have "unat (m - maj - 40) = unat m - (unat maj + 40)"
      using m(2) f40 by (simp add: diff_diff_eq unat_diff_le word_le_nat_alt)
    then have "sz + 40 \<le> m - maj - 40 \<longleftrightarrow> unat maj + 40 + (unat sz + 40) \<le> unat m"
      using n m(2) by (auto simp: word_le_nat_alt)
    then show ?thesis using m(1) first that by (simp add: place_in_major_def)
  qed
  show "place_in_major maj req_size sz s = Some None" if none: "block_fit s sz maj ms = None" and ne: "ms \<noteq> []"
  proof -
    obtain m ms' where ms: "ms = m # ms'" using ne by (cases ms) auto
    have "find_minor maj sz m s = Some NULL" "\<not> unat maj + 40 + (unat sz + 40) \<le> unat m"
      using find_minor_spec [OF dl [unfolded ms] ar [unfolded ms] b sz] none
      by (auto simp: ms block_fit_def area_of_def [of s m] add.assoc split: if_splits option.splits)
    then show ?thesis using place [OF ms] by simp
  qed
  assume fit: "block_fit s sz maj ms = Some zs"
  show "\<exists>xs new ys. ms = xs @ ys \<and>
      zs = map (area_of s) xs @ (unat new, unat sz + 40) # map (area_of s) ys \<and>
      place_in_major maj req_size sz s = Some (Some (ALIGN_ptr (new + 40)
        (insert_minor maj (last_or NULL xs) new (head_or NULL ys) req_size sz s)))"
  proof (cases ms)
    case Nil
    then have "place_in_major maj req_size sz s = Some (Some (place_empty maj req_size sz s))" using first
      by (simp add: place_in_major_def)
    moreover have "zs = [(unat (maj + 40), unat sz + 40)]" using fit Nil f40 by (simp add: block_fit_def split: if_splits)
    ultimately show ?thesis using Nil
      by (intro exI [of _ "[]"] exI [of _ "maj + 40"]) (simp add: place_empty_insert)
  next
    case (Cons m ms')
    have m: "m \<noteq> NULL" using block_ok_member [OF ok, of m] Cons by simp
    show ?thesis
    proof (cases "unat maj + 40 + (unat sz + 40) \<le> unat m")
      case True
      then have zs: "zs = (unat (maj + 40), unat sz + 40) # map (area_of s) ms" using fit Cons f40
        by (simp add: block_fit_def area_of_def [of s m] split: if_splits)
      have "m \<noteq> maj + 40" using True f40 by auto
      then have "place_in_major maj req_size sz s =
          Some (Some (ALIGN_ptr (maj + 40 + 40) (insert_minor maj NULL (maj + 40) m req_size sz s)))"
        using place [OF Cons] True first m Cons by (simp add: place_front_insert)
      then show ?thesis using zs Cons by (intro exI [of _ "[]"] exI [of _ "maj + 40"] exI [of _ ms]) simp
    next
      case False
      then have ins: "block_fit s sz maj ms = map_option (Cons (area_of s m))
          (insert_first (unat m + 40 + unat (min_size (minors s m))) (block_end s maj) (unat sz + 40) (map (area_of s) ms'))"
        using Cons by (simp add: block_fit_def area_of_def [of s m] add.assoc)
      with find_minor_spec [OF dl [unfolded Cons] ar [unfolded Cons] b sz] fit
      obtain us v vs where v: "m # ms' = us @ v # vs" "find_minor maj sz m s = Some v"
        "zs = map (area_of s) (us @ [v]) @ (unat v + 40 + unat (min_size (minors s v)), unat sz + 40) # map (area_of s) vs"
        by (auto split: option.splits)
      define new where "new = v + 40 + ucast (min_size (minors s v))"
      have vin: "v \<in> set ms" using v(1) Cons by simp
      note vm = block_ok_member [OF ok vin]
      have new: "unat new = unat v + 40 + unat (min_size (minors s v))"
        unfolding new_def using vm(3) b by (intro unat_after_minor) simp
      then have nv: "new \<noteq> v" by auto
      have nx: "min_next (minors s v) = head_or NULL vs" using dl v(1) Cons by (simp add: dll_append)
      have dv: "distinct (us @ v # vs)" using block_ok_distinct [OF ok] v(1) Cons by simp
      have "(if min_next (minors s v) = NULL then place_last maj v req_size sz s else place_between maj v req_size sz s) =
        ALIGN_ptr (new + 40) (insert_minor maj v new (head_or NULL vs) req_size sz s)"
      proof (cases vs)
        case Nil
        then show ?thesis using nx vm(1) nv by (simp add: place_last_insert [OF new_def])
      next
        case (Cons w ws)
        have "w \<in> set ms" using v(1) \<open>ms = m # ms'\<close> Cons by simp
        then have "w \<noteq> NULL" using block_ok_member(1) [OF ok] by simp
        moreover have "unat new < unat w"
          using insert_first_ok [OF fit [unfolded block_fit_def] ar] unfolding v(3) Cons new
          by (simp add: areas_ok_append area_of_def [of s v] area_of_def [of s w])
        then have "w \<noteq> new" by auto
        moreover have "w \<noteq> v" using dv Cons by auto
        ultimately show ?thesis using nx vm(1) nv Cons by (simp add: place_between_insert [OF new_def])
      qed
      then have "place_in_major maj req_size sz s = Some (Some (ALIGN_ptr (new + 40)
          (insert_minor maj (last_or NULL (us @ [v])) new (head_or NULL vs) req_size sz s)))"
        using place [OF Cons] False v(2) vm(1) by (simp split: if_splits)
      moreover have "ms = (us @ [v]) @ vs" using Cons v(1) by simp
      ultimately show ?thesis using v(3) unfolding new [symmetric] by blast
    qed
  qed
qed

section \<open>The heap\<close>

text \<open>
  The invariant: the blocks, each with the allocations in it, are linked from \<open>l_memRoot\<close>, none is
  empty, they do not overlap, and \<open>l_bestBet\<close> is one of them if it is set.
\<close>

definition apart :: "'a heap_state_scheme \<Rightarrow> u64 \<Rightarrow> u64 \<Rightarrow> bool" where
  "apart s a b \<longleftrightarrow> block_end s a \<le> unat b \<or> block_end s b \<le> unat a"

definition heap_wf :: "'a heap_state_scheme \<Rightarrow> (u64 \<times> u64 list) list \<Rightarrow> bool" where
  "heap_wf s Bs \<longleftrightarrow>
     l_memRoot s = head_or NULL (map fst Bs) \<and>
     dll (\<lambda>b. maj_next (majors s b)) (\<lambda>b. maj_prev (majors s b)) NULL (map fst Bs) NULL \<and>
     (\<forall>(maj, ms) \<in> set Bs. block_ok s maj ms \<and> ms \<noteq> []) \<and>
     sorted_wrt (apart s) (map fst Bs) \<and>
     l_bestBet s \<in> insert NULL (fst ` set Bs)"

lemma block_cong:
  assumes "majors t b = majors s b" and "\<And>m. m \<in> set ms \<Longrightarrow> minors t m = minors s m"
  shows "block_ok t b ms = block_ok s b ms" and "block_fit t sz b ms = block_fit s sz b ms"
proof -
  have a: "map (area_of t) ms = map (area_of s) ms" using assms(2) by (simp add: area_of_def)
  have c: "map (snd \<circ> area_of t) ms = map (snd \<circ> area_of s) ms" using assms(2) by (simp add: area_of_def)
  have d: "dll (\<lambda>m. min_next (minors t m)) (\<lambda>m. min_prev (minors t m)) NULL ms NULL =
      dll (\<lambda>m. min_next (minors s m)) (\<lambda>m. min_prev (minors s m)) NULL ms NULL"
    using assms(2) by (intro dll_cong) simp
  have e: "block_end t b = block_end s b" using assms(1) by (simp add: block_end_def)
  have f: "(\<forall>m \<in> set ms. min_block (minors t m) = b \<and> min_magic (minors t m) = LIBALLOC_MAGIC) \<longleftrightarrow>
      (\<forall>m \<in> set ms. min_block (minors s m) = b \<and> min_magic (minors s m) = LIBALLOC_MAGIC)"
    using assms(2) by simp
  show "block_ok t b ms = block_ok s b ms" unfolding block_ok_def a c d e f assms(1) ..
  show "block_fit t sz b ms = block_fit s sz b ms" by (simp add: block_fit_def a e)
qed

lemma heap_wf_block:
  assumes "heap_wf s Bs" and "(maj, ms) \<in> set Bs"
  shows "block_ok s maj ms" and "ms \<noteq> []" and "maj \<noteq> NULL"
  using assms by (auto simp: heap_wf_def block_ok_def)

lemma block_ok_size: "block_ok s maj ms \<Longrightarrow> unat maj + 40 \<le> block_end s maj"
  by (auto simp: block_ok_def dest: areas_ok_le)

lemma heap_wf_apart:
  assumes "heap_wf s (B1 @ (maj, ms) # B2)" and "(b, ns) \<in> set (B1 @ B2)"
  shows "apart s b maj" and "b \<noteq> maj"
proof -
  show a: "apart s b maj" using assms by (auto simp: heap_wf_def sorted_wrt_append apart_def)
  have "block_ok s b ns" "block_ok s maj ms" using assms by (auto simp: heap_wf_def)
  then have "unat b < block_end s b" "unat maj < block_end s maj" by (auto dest: block_ok_size)
  with a show "b \<noteq> maj" by (auto simp: apart_def)
qed

text \<open>A change inside one block.\<close>

lemma heap_wf_update:
  assumes wf: "heap_wf s (B1 @ (maj, ms) # B2)" and ok: "block_ok t maj ms'" "ms' \<noteq> []"
    and maj: "\<And>b. b \<noteq> maj \<Longrightarrow> majors t b = majors s b" "maj_size (majors t maj) = maj_size (majors s maj)"
      "maj_next (majors t maj) = maj_next (majors s maj)" "maj_prev (majors t maj) = maj_prev (majors s maj)"
    and out: "\<And>m. unat m < unat maj \<or> block_end s maj \<le> unat m \<Longrightarrow> minors t m = minors s m"
    and root: "l_memRoot t = l_memRoot s" and bet: "l_bestBet t \<in> insert NULL (fst ` set (B1 @ (maj, ms) # B2))"
  shows "heap_wf t (B1 @ (maj, ms') # B2)"
proof -
  have flds: "maj_size (majors t b) = maj_size (majors s b)" "maj_next (majors t b) = maj_next (majors s b)"
    "maj_prev (majors t b) = maj_prev (majors s b)" for b
    using maj by (cases "b = maj", simp, simp)+
  have ap: "apart t = apart s" by (simp add: apart_def block_end_def flds fun_eq_iff)
  have others: "block_ok t b ns \<and> ns \<noteq> []" if "(b, ns) \<in> set (B1 @ B2)" for b ns
  proof -
    have bok: "block_ok s b ns" "ns \<noteq> []" using wf that by (auto simp: heap_wf_def)
    note ap = heap_wf_apart [OF wf that]
    have "minors t m = minors s m" if "m \<in> set ns" for m
    proof (rule out)
      show "unat m < unat maj \<or> block_end s maj \<le> unat m"
        using block_ok_member(2,3) [OF bok(1) that] ap(1) by (auto simp: apart_def)
    qed
    then have "block_ok t b ns = block_ok s b ns" using maj(1) ap(2) by (intro block_cong) simp_all
    with bok show ?thesis by simp
  qed
  have "map fst (B1 @ (maj, ms') # B2) = map fst (B1 @ (maj, ms) # B2)" by simp
  moreover have "fst ` set (B1 @ (maj, ms') # B2) = fst ` set (B1 @ (maj, ms) # B2)" by simp
  moreover have "\<forall>(b, ns) \<in> set (B1 @ (maj, ms') # B2). block_ok t b ns \<and> ns \<noteq> []" using others ok by auto
  ultimately show ?thesis using wf root bet unfolding heap_wf_def flds ap by simp
qed

lemma heap_simps [simp]:
  "area_of (s\<lparr>l_bestBet := x\<rparr>) = area_of s" "area_of (s\<lparr>liballoc_lock_var := l\<rparr>) = area_of s"
  "area_of (s\<lparr>mem := m\<rparr>) = area_of s" "area_of (s\<lparr>l_inuse := n\<rparr>) = area_of s"
  "block_ok (s\<lparr>l_bestBet := x\<rparr>) = block_ok s" "block_fit (s\<lparr>l_bestBet := x\<rparr>) = block_fit s"
  "block_ok (s\<lparr>mem := m\<rparr>) = block_ok s" "block_ok (s\<lparr>l_inuse := n\<rparr>) = block_ok s"
  "block_ok (s\<lparr>liballoc_lock_var := l\<rparr>) = block_ok s" "block_fit (s\<lparr>liballoc_lock_var := l\<rparr>) = block_fit s"
  by (auto simp: fun_eq_iff area_of_def intro!: block_cong)

lemma heap_wf_bestBet: "heap_wf s Bs \<Longrightarrow> x \<in> insert NULL (fst ` set Bs) \<Longrightarrow> heap_wf (s\<lparr>l_bestBet := x\<rparr>) Bs"
  by (simp add: heap_wf_def apart_def [abs_def] block_end_def)

lemma heap_wf_frame [simp]:
  "heap_wf (s\<lparr>liballoc_lock_var := l\<rparr>) Bs = heap_wf s Bs" "heap_wf (s\<lparr>mem := m\<rparr>) Bs = heap_wf s Bs"
  "heap_wf (s\<lparr>l_inuse := n\<rparr>) Bs = heap_wf s Bs"
  by (simp_all add: heap_wf_def apart_def [abs_def] block_end_def)

section \<open>The search\<close>

lemma major_room_unat:
  assumes "block_ok s maj ms"
  shows "unat (major_room s maj) + 40 + sum_list (map (snd \<circ> area_of s) ms) = unat (maj_size (majors s maj))"
proof -
  have u: "unat (maj_usage (majors s maj)) = 40 + sum_list (map (snd \<circ> area_of s) ms)"
    "areas_ok (unat maj + 40) (block_end s maj) (map (area_of s) ms)" using assms by (simp_all add: block_ok_def)
  have "unat (maj_usage (majors s maj)) \<le> unat (maj_size (majors s maj))"
    using areas_ok_le [OF u(2)] u(1) by (simp add: block_end_def)
  then have "unat (maj_size (majors s maj) - maj_usage (majors s maj)) =
      unat (maj_size (majors s maj)) - unat (maj_usage (majors s maj))"
    by (simp add: unat_sub word_le_nat_alt)
  then show ?thesis using u(1) \<open>unat (maj_usage (majors s maj)) \<le> _\<close> by (simp add: major_room_def)
qed

lemma block_fit_room:
  assumes "block_ok s maj ms" and "block_fit s sz maj ms = Some zs" and "unat sz + 40 < 2 ^ 64"
  shows "sz + 40 \<le> major_room s maj"
proof -
  have "unat (sz + 40) = unat sz + 40" using assms(3) by (subst unat_add_no_wrap) simp_all
  moreover have "unat maj + 40 + (unat sz + 40) + sum_list (map snd (map (area_of s) ms)) \<le> block_end s maj"
    using assms by (intro insert_first_room) (auto simp: block_fit_def block_ok_def)
  ultimately show ?thesis using major_room_unat [OF assms(1)] by (simp add: block_end_def word_le_nat_alt)
qed

text \<open>The block that is looked at fits: the allocation is placed there.\<close>

lemma kmalloc_loop_fit:
  assumes ok: "block_ok s maj ms" and fit: "block_fit s sz maj ms = Some zs" and sz: "unat sz + 40 < 2 ^ 64"
  shows "\<exists>xs new ys bet. ms = xs @ ys \<and> zs = map (area_of s) xs @ (unat new, unat sz + 40) # map (area_of s) ys \<and>
    bet \<in> {l_bestBet s, maj} \<and> kmalloc_loop req_size sz maj started best s =
      Some (ALIGN_ptr (new + 40) (insert_minor maj (last_or NULL xs) new (head_or NULL ys) req_size sz (s\<lparr>l_bestBet := bet\<rparr>)))"
proof -
  define bet where "bet = (if best < major_room s maj then maj else l_bestBet s)"
  have "block_ok (s\<lparr>l_bestBet := bet\<rparr>) maj ms" "block_fit (s\<lparr>l_bestBet := bet\<rparr>) sz maj ms = Some zs"
    using ok fit by simp_all
  from place_in_major_refines(1) [OF this(1) sz this(2), of req_size]
  obtain xs new ys where p: "ms = xs @ ys" "zs = map (area_of s) xs @ (unat new, unat sz + 40) # map (area_of s) ys"
    "place_in_major maj req_size sz (s\<lparr>l_bestBet := bet\<rparr>) = Some (Some (ALIGN_ptr (new + 40)
        (insert_minor maj (last_or NULL xs) new (head_or NULL ys) req_size sz (s\<lparr>l_bestBet := bet\<rparr>))))"
    by (auto simp: area_of_def [abs_def])
  have "maj \<noteq> NULL" using ok by (simp add: block_ok_def)
  moreover have "\<not> major_room s maj < sz + 40" using block_fit_room [OF ok fit sz] by simp
  moreover have "(if best < major_room s maj then s\<lparr>l_bestBet := maj\<rparr> else s) = s\<lparr>l_bestBet := bet\<rparr>"
    by (simp add: bet_def)
  ultimately have "kmalloc_loop req_size sz maj started best s = Some (ALIGN_ptr (new + 40)
        (insert_minor maj (last_or NULL xs) new (head_or NULL ys) req_size sz (s\<lparr>l_bestBet := bet\<rparr>)))"
    by (subst kmalloc_loop.simps) (simp only: p(3) Let_def if_False if_True simp_thms option.simps bind.bind_lunit split)
  moreover have "bet \<in> {l_bestBet s, maj}" by (simp add: bet_def)
  ultimately show ?thesis using p(1,2) by blast
qed

text \<open>It does not fit: the search goes on with the next block, or once more from the first.\<close>

lemma kmalloc_loop_miss:
  assumes ok: "block_ok s maj ms" "ms \<noteq> []" and fit: "block_fit s sz maj ms = None" and sz: "unat sz + 40 < 2 ^ 64"
    and more: "maj_next (majors s maj) \<noteq> NULL \<or> started"
  shows "\<exists>bet best'. bet \<in> {l_bestBet s, maj} \<and> kmalloc_loop req_size sz maj started best s =
    (if maj_next (majors s maj) \<noteq> NULL
     then kmalloc_loop req_size sz (maj_next (majors s maj)) started best' (s\<lparr>l_bestBet := bet\<rparr>)
     else kmalloc_loop req_size sz (l_memRoot s) False best' (s\<lparr>l_bestBet := bet\<rparr>))"
proof -
  define bet where "bet = (if best < major_room s maj then maj else l_bestBet s)"
  define best' where "best' = (if best < major_room s maj then major_room s maj else best)"
  have "place_in_major maj req_size sz (s\<lparr>l_bestBet := bet\<rparr>) = Some None"
    using place_in_major_refines(2) [of "s\<lparr>l_bestBet := bet\<rparr>" maj ms sz req_size] ok fit sz by simp
  moreover have "(if best < major_room s maj then s\<lparr>l_bestBet := maj\<rparr> else s) = s\<lparr>l_bestBet := bet\<rparr>"
    by (simp add: bet_def)
  moreover have "maj \<noteq> NULL" using ok(1) by (simp add: block_ok_def)
  ultimately have "kmalloc_loop req_size sz maj started best s =
    (if maj_next (majors s maj) \<noteq> NULL
     then kmalloc_loop req_size sz (maj_next (majors s maj)) started best' (s\<lparr>l_bestBet := bet\<rparr>)
     else kmalloc_loop req_size sz (l_memRoot s) False best' (s\<lparr>l_bestBet := bet\<rparr>))"
    using more by (subst kmalloc_loop.simps) (auto simp: Let_def best'_def)
  moreover have "bet \<in> {l_bestBet s, maj}" by (simp add: bet_def)
  ultimately show ?thesis by blast
qed

lemma heap_wf_head: "heap_wf s (B1 @ B2) \<Longrightarrow> B2 \<noteq> [] \<Longrightarrow> head_or NULL (map fst B2) \<noteq> NULL"
  by (cases B2) (auto dest: heap_wf_block(3))

lemma heap_wf_next:
  assumes "heap_wf s (B1 @ (maj, ms) # B2)"
  shows "maj_next (majors s maj) = head_or NULL (map fst B2)"
  using assms by (simp add: heap_wf_def dll_append)

text \<open>The result of an allocation that was placed in a block of the heap.\<close>

definition placed :: "'a heap_state_scheme \<Rightarrow> (u64 \<times> u64 list) list \<Rightarrow> u64 \<Rightarrow> u64 \<Rightarrow> (u64 \<times> 'a heap_state_scheme) option \<Rightarrow> bool" where
  "placed s Bs req_size sz r \<longleftrightarrow> (\<exists>B1 maj xs new ys B2 zs bet. Bs = B1 @ (maj, xs @ ys) # B2 \<and>
     block_fit s sz maj (xs @ ys) = Some zs \<and>
     zs = map (area_of s) xs @ (unat new, unat sz + 40) # map (area_of s) ys \<and> bet \<in> insert NULL (fst ` set Bs) \<and>
     r = Some (ALIGN_ptr (new + 40)
       (insert_minor maj (last_or NULL xs) new (head_or NULL ys) req_size sz (s\<lparr>l_bestBet := bet\<rparr>))))"

lemma placed_bestBet [simp]: "placed (s\<lparr>l_bestBet := x\<rparr>) Bs req_size sz = placed s Bs req_size sz"
  by (simp add: placed_def fun_eq_iff area_of_def [abs_def])

lemma kmalloc_loop_from:
  assumes "heap_wf s (B1 @ B2)" and "unat sz + 40 < 2 ^ 64" and "\<exists>(maj, ms) \<in> set B2. block_fit s sz maj ms \<noteq> None"
  shows "placed s (B1 @ B2) req_size sz (kmalloc_loop req_size sz (head_or NULL (map fst B2)) started best s)"
  using assms
proof (induction B2 arbitrary: B1 s best)
  case (Cons B B2)
  obtain maj ms where B: "B = (maj, ms)" by fastforce
  have ok: "block_ok s maj ms" "ms \<noteq> []" using Cons.prems(1) B by (auto simp: heap_wf_def)
  show ?case
  proof (cases "block_fit s sz maj ms")
    case (Some zs)
    from kmalloc_loop_fit [OF ok(1) Some Cons.prems(2), of req_size started best]
    obtain xs new ys bet where r: "ms = xs @ ys" "zs = map (area_of s) xs @ (unat new, unat sz + 40) # map (area_of s) ys"
      "bet \<in> {l_bestBet s, maj}" "kmalloc_loop req_size sz maj started best s =
      Some (ALIGN_ptr (new + 40) (insert_minor maj (last_or NULL xs) new (head_or NULL ys) req_size sz (s\<lparr>l_bestBet := bet\<rparr>)))"
      by blast
    moreover have "bet \<in> insert NULL (fst ` set (B1 @ B # B2))" using r(3) Cons.prems(1) B by (auto simp: heap_wf_def)
    moreover have "B1 @ B # B2 = B1 @ (maj, xs @ ys) # B2" using r(1) B by simp
    moreover have "block_fit s sz maj (xs @ ys) = Some zs" "head_or NULL (map fst (B # B2)) = maj"
      using Some r(1) B by simp_all
    ultimately show ?thesis unfolding placed_def by metis
  next
    case None
    have nx: "maj_next (majors s maj) = head_or NULL (map fst B2)" using heap_wf_next Cons.prems(1) B by blast
    have fit2: "\<exists>(maj, ms) \<in> set B2. block_fit s sz maj ms \<noteq> None" using Cons.prems(3) None B by auto
    then have "B2 \<noteq> []" by auto
    then have "head_or NULL (map fst B2) \<noteq> NULL" using Cons.prems(1) heap_wf_head [of s "B1 @ [B]" B2] by simp
    with kmalloc_loop_miss [OF ok None Cons.prems(2), of started req_size best] nx
    obtain bet best' where l: "bet \<in> {l_bestBet s, maj}" "kmalloc_loop req_size sz maj started best s =
      kmalloc_loop req_size sz (head_or NULL (map fst B2)) started best' (s\<lparr>l_bestBet := bet\<rparr>)" by auto
    have "heap_wf (s\<lparr>l_bestBet := bet\<rparr>) ((B1 @ [B]) @ B2)"
      using Cons.prems(1) l(1) B by (intro heap_wf_bestBet) (auto simp: heap_wf_def)
    from Cons.IH [OF this Cons.prems(2), of best'] fit2 show ?thesis using l(2) B by simp
  qed
qed simp

text \<open>Started at \<open>l_bestBet\<close>, the search wraps around once if no block from there on fits.\<close>

lemma kmalloc_loop_wraps:
  assumes "heap_wf s (B1 @ B2)" and "B2 \<noteq> []" and "unat sz + 40 < 2 ^ 64"
    and "\<exists>(maj, ms) \<in> set (B1 @ B2). block_fit s sz maj ms \<noteq> None"
  shows "placed s (B1 @ B2) req_size sz (kmalloc_loop req_size sz (head_or NULL (map fst B2)) True best s)"
  using assms
proof (induction B2 arbitrary: B1 s best)
  case (Cons B B2)
  obtain maj ms where B: "B = (maj, ms)" by fastforce
  have ok: "block_ok s maj ms" "ms \<noteq> []" using Cons.prems(1) B by (auto simp: heap_wf_def)
  show ?case
  proof (cases "block_fit s sz maj ms = None")
    case False
    then have "\<exists>(maj, ms) \<in> set (B # B2). block_fit s sz maj ms \<noteq> None" using B by auto
    from kmalloc_loop_from [OF Cons.prems(1,3) this] show ?thesis .
  next
    case True
    have nx: "maj_next (majors s maj) = head_or NULL (map fst B2)" using heap_wf_next Cons.prems(1) B by blast
    obtain bet best' where l: "bet \<in> {l_bestBet s, maj}" "kmalloc_loop req_size sz maj True best s =
      (if head_or NULL (map fst B2) \<noteq> NULL
       then kmalloc_loop req_size sz (head_or NULL (map fst B2)) True best' (s\<lparr>l_bestBet := bet\<rparr>)
       else kmalloc_loop req_size sz (l_memRoot s) False best' (s\<lparr>l_bestBet := bet\<rparr>))"
      using kmalloc_loop_miss [OF ok True Cons.prems(3), of True req_size best] unfolding nx by blast
    have wf: "heap_wf (s\<lparr>l_bestBet := bet\<rparr>) ((B1 @ [B]) @ B2)"
      using Cons.prems(1) l(1) B by (intro heap_wf_bestBet) (auto simp: heap_wf_def)
    show ?thesis
    proof (cases "B2 = []")
      case True
      have root: "l_memRoot s = head_or NULL (map fst (B1 @ B # B2))" using Cons.prems(1) by (simp add: heap_wf_def)
      from kmalloc_loop_from [of "s\<lparr>l_bestBet := bet\<rparr>" "[]" "B1 @ B # B2" sz req_size False best'] wf Cons.prems(3,4)
      show ?thesis using l(2) B True unfolding root by simp
    next
      case False
      then have "head_or NULL (map fst B2) \<noteq> NULL" using Cons.prems(1) heap_wf_head [of s "B1 @ [B]" B2] by simp
      with Cons.IH [OF wf False Cons.prems(3), of best'] Cons.prems(4) show ?thesis using l(2) B by simp
    qed
  qed
qed simp

section \<open>Allocation in a heap with room\<close>

lemma kmalloc_placed:
  assumes wf: "heap_wf s Bs" and lock: "\<not> liballoc_lock_var s" and req: "unat req_size + 72 < 2 ^ 64"
    and fit: "\<exists>(maj, ms) \<in> set Bs. block_fit s (req_size + 32) maj ms \<noteq> None"
  shows "\<exists>p t. placed (s\<lparr>liballoc_lock_var := True\<rparr>) Bs req_size (req_size + 32) (Some (p, t)) \<and>
    kmalloc req_size s = Some (p, liballoc_unlock t)"
proof -
  let ?s = "s\<lparr>liballoc_lock_var := True\<rparr>"
  have n: "unat (req_size + 32) = unat req_size + 32" using req by (subst unat_add_no_wrap) simp_all
  then have nz: "req_size + 32 \<noteq> 0" by (metis add_eq_0_iff_both_eq_0 unat_0 zero_neq_numeral)
  have sz: "unat (req_size + 32) + 40 < 2 ^ 64" using n req by simp
  have ne: "Bs \<noteq> []" using fit by auto
  have root: "l_memRoot s = head_or NULL (map fst Bs)" using wf by (simp add: heap_wf_def)
  have root0: "l_memRoot s \<noteq> NULL" using heap_wf_head [of s "[]" Bs] wf ne unfolding root by simp
  have wf': "heap_wf ?s Bs" using wf by simp
  have fit': "\<exists>(maj, ms) \<in> set Bs. block_fit ?s (req_size + 32) maj ms \<noteq> None" using fit by simp
  define best where "best = (if l_bestBet s \<noteq> NULL then major_room s (l_bestBet s) else 0)"
  define started where "started = (l_bestBet s \<noteq> NULL \<and> req_size + 32 + 40 < best)"
  let ?loop = "kmalloc_loop req_size (req_size + 32) (if started then l_bestBet s else l_memRoot s) started best ?s"
  have loop: "placed ?s Bs req_size (req_size + 32) ?loop"
  proof (cases started)
    case False
    have "placed ?s ([] @ Bs) req_size (req_size + 32) (kmalloc_loop req_size (req_size + 32) (head_or NULL (map fst Bs)) False best ?s)"
      using wf' sz fit' by (intro kmalloc_loop_from) simp_all
    then show ?thesis using False root by simp
  next
    case True
    then have "l_bestBet s \<in> fst ` set Bs" using wf by (auto simp: heap_wf_def started_def)
    then obtain ms where "(l_bestBet s, ms) \<in> set Bs" by auto
    then obtain B1 B2 where Bs: "Bs = B1 @ (l_bestBet s, ms) # B2" by (meson split_list)
    have "placed ?s (B1 @ (l_bestBet s, ms) # B2) req_size (req_size + 32)
        (kmalloc_loop req_size (req_size + 32) (head_or NULL (map fst ((l_bestBet s, ms) # B2))) True best ?s)"
      using wf' sz fit' unfolding Bs by (intro kmalloc_loop_wraps) simp_all
    then show ?thesis using True unfolding Bs by simp
  qed
  then obtain p t where pt: "?loop = Some (p, t)" unfolding placed_def by (metis surj_pair)
  moreover have "major_room ?s = major_room s" by (simp add: major_room_def fun_eq_iff)
  moreover have "kmalloc req_size s = kmalloc_sized req_size (req_size + 32) ?s"
    using lock nz by (simp add: kmalloc_def liballoc_lock_def Let_def add.commute)
  moreover have "kmalloc_sized req_size (req_size + 32) ?s = map_option (\<lambda>(p, t). (p, liballoc_unlock t)) ?loop"
    unfolding kmalloc_sized_def using root0
    by (simp add: Let_def best_def started_def major_room_def Option.map_conv_bind_option split_def comp_def)
  ultimately show ?thesis using loop by auto
qed

lemma ALIGN_ptr_user:
  assumes "unat x + 32 < 2 ^ 64"
  obtains p where "ALIGN_ptr x s = (p, s\<lparr>mem := (mem s)(p - 16 := ucast (p - x))\<rparr>)"
    and "16 dvd unat p" and "unat x + 16 \<le> unat p" and "unat p < unat x + 32"
proof
  let ?p = "x + 16 + align_diff x"
  note d = unat_align_diff [of x]
  have "unat (x + 16) = unat x + 16" using assms by (subst unat_add_no_wrap) simp_all
  then have p: "unat ?p = unat x + 16 + unat (align_diff x)" using assms d by (subst unat_add_no_wrap) simp_all
  show "ALIGN_ptr x s = (?p, s\<lparr>mem := (mem s)(?p - 16 := ucast (?p - x))\<rparr>)"
    by (simp add: ALIGN_ptr_def Let_def algebra_simps)
  show "16 dvd unat ?p" by (rule align_diff_aligned)
  show "unat x + 16 \<le> unat ?p" "unat ?p < unat x + 32" using p d by simp_all
qed

lemma UNALIGN_ALIGN:
  assumes "unat x + 16 \<le> unat p" and "unat p < unat x + 32" and "mem s (p - 16) = ucast (p - x)"
  shows "UNALIGN p s = x"
proof -
  have "unat (p - x) = unat p - unat x" using assms(1) by (simp add: unat_diff_le word_le_nat_alt)
  then have d: "unat (p - x) < 32" using assms(1,2) by simp
  have "(scast (ucast (p - x) :: u8) :: u64) = p - x"
  proof (rule bit_word_eqI)
    fix i :: nat
    assume "i < LENGTH(64)"
    have "\<not> bit (p - x) j" if "5 \<le> j" for j
    proof -
      have "take_bit 5 (p - x) = p - x"
        using d by (simp add: word_unat_eq_iff unsigned_take_bit_eq take_bit_nat_eq_self)
      then show ?thesis using that by (metis bit_take_bit_iff not_le)
    qed
    then show "bit (scast (ucast (p - x) :: u8) :: u64) i = bit (p - x) i"
      using \<open>i < LENGTH(64)\<close> by (cases "i < 5") (auto simp: bit_signed_iff bit_unsigned_iff bit_simps)
  qed
  then show ?thesis using d by (simp add: UNALIGN_def Let_def assms(3) word_less_nat_alt)
qed

text \<open>What the caller gets: the contract that the properties below unfold.\<close>

lemma insert_minor_outside:
  "m \<noteq> new \<Longrightarrow> m \<noteq> prv \<Longrightarrow> m \<noteq> nxt \<Longrightarrow> minors (insert_minor maj prv new nxt req_size sz s) m = minors s m"
  by (simp add: insert_minor_def)

lemma insert_minor_frame:
  "insert_minor maj prv new nxt req_size sz (s\<lparr>l_bestBet := x\<rparr>) = (insert_minor maj prv new nxt req_size sz s)\<lparr>l_bestBet := x\<rparr>"
  "insert_minor maj prv new nxt req_size sz (s\<lparr>liballoc_lock_var := l\<rparr>) =
    (insert_minor maj prv new nxt req_size sz s)\<lparr>liballoc_lock_var := l\<rparr>"
  "mem (insert_minor maj prv new nxt req_size sz s) = mem s"
  "liballoc_lock_var (insert_minor maj prv new nxt req_size sz s) = liballoc_lock_var s"
  by (cases s, simp add: insert_minor_def cong: if_cong)+

lemma unlocked_twice:
  "\<not> liballoc_lock_var u \<Longrightarrow> u\<lparr>liballoc_lock_var := True, l_bestBet := x, mem := m, liballoc_lock_var := False\<rparr> =
   u\<lparr>l_bestBet := x, mem := m\<rparr>"
  by (cases u) simp

lemma insert_minor_heap_wf:
  assumes wf: "heap_wf s (B1 @ (maj, xs @ ys) # B2)"
    and gap: "areas_ok (unat maj + 40) (block_end s maj) (map (area_of s) xs @ (unat new, unat sz + 40) # map (area_of s) ys)"
  shows "heap_wf (insert_minor maj (last_or NULL xs) new (head_or NULL ys) req_size sz s) (B1 @ (maj, xs @ new # ys) # B2)"
proof -
  let ?t = "insert_minor maj (last_or NULL xs) new (head_or NULL ys) req_size sz s"
  have ok: "block_ok s maj (xs @ ys)" using wf by (auto simp: heap_wf_def)
  note ins = insert_minor_block_ok(1) [OF ok gap, of req_size]
  have inside: "unat maj \<le> unat m \<and> unat m < block_end s maj" if "m \<in> set (xs @ new # ys)" for m
  proof -
    have "block_end ?t maj = block_end s maj" by (simp add: block_end_def insert_minor_def)
    with block_ok_member(2,3) [OF ins that] show ?thesis by simp
  qed
  show ?thesis
  proof (rule heap_wf_update [OF wf ins])
    fix m :: u64
    assume m: "unat m < unat maj \<or> block_end s maj \<le> unat m"
    have notin: "m \<notin> set (xs @ new # ys)" using m inside [of m] by auto
    show "minors ?t m = minors s m"
    proof (cases "m = NULL")
      case True
      then show ?thesis using notin by (simp add: insert_minor_def)
    next
      case False
      then have "m \<noteq> last_or NULL xs" "m \<noteq> head_or NULL ys"
        using notin last_in_set [of xs] by (auto simp: last_or_def head_or_def split: list.splits)
      then show ?thesis using notin by (intro insert_minor_outside) simp_all
    qed
  next
    show "l_bestBet ?t \<in> insert NULL (fst ` set (B1 @ (maj, xs @ ys) # B2))"
      using wf by (simp add: insert_minor_def heap_wf_def)
  qed (simp_all add: insert_minor_def)
qed

lemma kmalloc_contract:
  assumes wf: "heap_wf s Bs" and lock: "\<not> liballoc_lock_var s" and req: "unat req_size + 72 < 2 ^ 64"
    and fit: "\<exists>(maj, ms) \<in> set Bs. block_fit s (req_size + 32) maj ms \<noteq> None"
  shows "\<exists>B1 maj xs new ys B2 p t bet. Bs = B1 @ (maj, xs @ ys) # B2 \<and> kmalloc req_size s = Some (p, t) \<and>
    heap_wf t (B1 @ (maj, xs @ new # ys) # B2) \<and> \<not> liballoc_lock_var t \<and>
    block_fit s (req_size + 32) maj (xs @ ys) = Some (map (area_of t) (xs @ new # ys)) \<and>
    map (area_of t) (xs @ new # ys) = map (area_of s) xs @ (unat new, unat req_size + 72) # map (area_of s) ys \<and>
    16 dvd unat p \<and> unat new + 56 \<le> unat p \<and> unat p < unat new + 72 \<and> UNALIGN p t = new + 40 \<and>
    t = (insert_minor maj (last_or NULL xs) new (head_or NULL ys) req_size (req_size + 32) s)
      \<lparr>l_bestBet := bet, mem := (mem s)(p - 16 := ucast (p - (new + 40)))\<rparr>"
proof -
  let ?s = "s\<lparr>liballoc_lock_var := True\<rparr>"
  from kmalloc_placed [OF assms] obtain p t0 where pl: "placed ?s Bs req_size (req_size + 32) (Some (p, t0))"
    and run: "kmalloc req_size s = Some (p, liballoc_unlock t0)" by blast
  have n: "unat (req_size + 32) = unat req_size + 32" using req by (subst unat_add_no_wrap) simp_all
  have n72: "unat (req_size + 32) + 40 = unat req_size + 72" using n by simp
  from pl [unfolded placed_def n72 heap_simps option.inject] obtain B1 maj xs new ys B2 zs bet where Bs: "Bs = B1 @ (maj, xs @ ys) # B2"
    and fitz: "block_fit s (req_size + 32) maj (xs @ ys) = Some zs"
    and zs: "zs = map (area_of s) xs @ (unat new, unat req_size + 72) # map (area_of s) ys"
    and bet: "bet \<in> insert NULL (fst ` set Bs)"
    and r: "(p, t0) = ALIGN_ptr (new + 40)
       (insert_minor maj (last_or NULL xs) new (head_or NULL ys) req_size (req_size + 32) (?s\<lparr>l_bestBet := bet\<rparr>))"
    by blast
  let ?i = "insert_minor maj (last_or NULL xs) new (head_or NULL ys) req_size (req_size + 32)"
  define t where "t = liballoc_unlock t0"
  have ok: "block_ok s maj (xs @ ys)" using wf Bs by (auto simp: heap_wf_def)
  then have b: "block_end s maj < 2 ^ 64" and ar: "areas_ok (unat maj + 40) (block_end s maj) (map (area_of s) (xs @ ys))"
    by (simp_all add: block_ok_def)
  have gap: "areas_ok (unat maj + 40) (block_end s maj) (map (area_of s) xs @ (unat new, unat (req_size + 32) + 40) # map (area_of s) ys)"
    using insert_first_ok [OF fitz [unfolded block_fit_def] ar] unfolding zs n72 by simp
  then have "unat new + (unat req_size + 72) \<le> block_end s maj" using n by (auto simp: areas_ok_append dest: areas_ok_le)
  then have new: "unat (new + 40) = unat new + 40" "unat (new + 40) + 32 < 2 ^ 64"
    using b by (simp_all add: unat_add_no_wrap)
  obtain q where q: "ALIGN_ptr (new + 40) (?i (?s\<lparr>l_bestBet := bet\<rparr>)) =
      (q, (?i (?s\<lparr>l_bestBet := bet\<rparr>))\<lparr>mem := (mem (?i (?s\<lparr>l_bestBet := bet\<rparr>)))(q - 16 := ucast (q - (new + 40)))\<rparr>)"
    "16 dvd unat q" "unat (new + 40) + 16 \<le> unat q" "unat q < unat (new + 40) + 32"
    by (rule ALIGN_ptr_user [OF new(2)])
  have pq: "p = q" using r q(1) by simp
  have t: "t = (?i s)\<lparr>l_bestBet := bet, mem := (mem s)(p - 16 := ucast (p - (new + 40)))\<rparr>"
    using r q(1) pq lock
    by (simp add: t_def liballoc_unlock_def spinlock_release_def insert_minor_frame unlocked_twice)
  have wt: "heap_wf t (B1 @ (maj, xs @ new # ys) # B2)"
  proof -
    have "heap_wf (?i s) (B1 @ (maj, xs @ new # ys) # B2)" using insert_minor_heap_wf wf gap unfolding Bs by blast
    then have "heap_wf ((?i s)\<lparr>l_bestBet := bet\<rparr>) (B1 @ (maj, xs @ new # ys) # B2)"
      using bet unfolding Bs by (intro heap_wf_bestBet) simp_all
    then show ?thesis unfolding t by simp
  qed
  have areas: "map (area_of t) (xs @ new # ys) = map (area_of s) xs @ (unat new, unat req_size + 72) # map (area_of s) ys"
    using insert_minor_block_ok(2) [OF ok gap, of req_size] n unfolding t by (simp add: area_of_def)
  have "UNALIGN p t = new + 40"
    using q(3,4) pq by (intro UNALIGN_ALIGN) (simp_all add: t)
  moreover have "\<not> liballoc_lock_var t" by (simp add: t_def liballoc_unlock_def spinlock_release_def)
  moreover have "block_fit s (req_size + 32) maj (xs @ ys) = Some (map (area_of t) (xs @ new # ys))"
    unfolding areas using fitz zs by simp
  moreover have "16 dvd unat p" "unat new + 56 \<le> unat p" "unat p < unat new + 72" using q(2-4) pq new(1) by simp_all
  ultimately show ?thesis using Bs run [folded t_def] wt areas t by blast
qed

section \<open>Release in a block that stays\<close>

definition remove_minor :: "u64 \<Rightarrow> u64 \<Rightarrow> u64 \<Rightarrow> u64 \<Rightarrow> 'a heap_state_scheme \<Rightarrow> 'a heap_state_scheme" where
  "remove_minor maj prv m nxt s =
     s\<lparr>majors := (majors s)(maj := (majors s maj)
         \<lparr>maj_usage := maj_usage (majors s maj) - (min_size (minors s m) + 40),
          maj_first := (if prv = NULL then nxt else maj_first (majors s maj))\<rparr>),
       minors := (\<lambda>k. if k = m then (minors s m)\<lparr>min_magic := LIBALLOC_DEAD\<rparr>
                      else if k = prv \<and> prv \<noteq> NULL then (minors s k)\<lparr>min_next := nxt\<rparr>
                      else if k = nxt \<and> nxt \<noteq> NULL then (minors s k)\<lparr>min_prev := prv\<rparr> else minors s k),
       l_inuse := l_inuse s - ucast (min_size (minors s m))\<rparr>"

lemma unlink_minor_remove:
  assumes "min_prev (minors s m) = prv" and "min_next (minors s m) = nxt" and "prv \<noteq> m" and "nxt \<noteq> m"
    and "nxt = NULL \<or> prv \<noteq> nxt"
  shows "unlink_minor maj m (upd_min m (\<lambda>i. i\<lparr>min_magic := LIBALLOC_DEAD\<rparr>)
      (upd_maj maj (\<lambda>j. j\<lparr>maj_usage := maj_usage j - (min_size (minors s m) + 40)\<rparr>)
        (s\<lparr>l_inuse := l_inuse s - ucast (min_size (minors s m))\<rparr>))) = remove_minor maj prv m nxt s"
  using assms
  by (cases s; cases "prv = NULL"; cases "nxt = NULL")
    (simp_all add: unlink_minor_def remove_minor_def upd_min_def upd_maj_def Let_def fun_eq_iff)

lemma remove_minor_block_ok:
  assumes ok: "block_ok s maj (xs @ m # ys)"
  shows "block_ok (remove_minor maj (last_or NULL xs) m (head_or NULL ys) s) maj (xs @ ys)"
    and "\<And>k. area_of (remove_minor maj (last_or NULL xs) m (head_or NULL ys) s) k = area_of s k"
proof -
  let ?t = "remove_minor maj (last_or NULL xs) m (head_or NULL ys) s"
  have d: "distinct (xs @ m # ys)" by (rule block_ok_distinct [OF ok])
  have nn: "k \<noteq> NULL" if "k \<in> set (xs @ m # ys)" for k using block_ok_member(1) [OF ok that] .
  show ar: "area_of ?t k = area_of s k" for k by (auto simp: area_of_def remove_minor_def)
  then have ar': "area_of ?t = area_of s" by (simp add: fun_eq_iff)
  have end': "block_end ?t maj = block_end s maj" by (simp add: block_end_def remove_minor_def)
  have "dll (\<lambda>m. min_next (minors ?t m)) (\<lambda>m. min_prev (minors ?t m)) NULL (xs @ ys) NULL"
  proof (rule dll_remove [OF _ d])
    show "dll (\<lambda>m. min_next (minors s m)) (\<lambda>m. min_prev (minors s m)) NULL (xs @ m # ys) NULL"
      using ok by (simp add: block_ok_def)
    show "min_next (minors ?t (last xs)) = head_or NULL ys" if "xs \<noteq> []"
      using that nn [of "last xs"] d last_in_set [OF that] by (auto simp: remove_minor_def last_or_def)
    have ne: "head_or NULL ys \<noteq> last_or NULL xs" if "ys \<noteq> []"
      using that d nn by (cases ys) (auto simp: last_or_def split: if_splits)
    show "min_prev (minors ?t (hd ys)) = last_or NULL xs" if "ys \<noteq> []"
      using that nn [of "hd ys"] d ne by (cases ys) (auto simp: remove_minor_def)
    show "min_next (minors ?t k) = min_next (minors s k)" if "k \<in> set xs \<union> set ys" "k \<noteq> last_or NULL xs" for k
      using that by (auto simp: remove_minor_def)
    show "min_prev (minors ?t k) = min_prev (minors s k)" if "k \<in> set xs \<union> set ys" "k \<noteq> head_or NULL ys" for k
      using that by (auto simp: remove_minor_def)
  qed
  moreover have "maj_first (majors ?t maj) = head_or NULL (xs @ ys)"
    using ok nn by (cases xs) (auto simp: remove_minor_def block_ok_def last_or_def)
  moreover have "unat (maj_usage (majors ?t maj)) = 40 + sum_list (map (snd \<circ> area_of ?t) (xs @ ys))"
  proof -
    have u: "unat (maj_usage (majors s maj)) = 40 + sum_list (map (snd \<circ> area_of s) (xs @ ys)) + (40 + unat (min_size (minors s m)))"
      using ok by (simp add: block_ok_def area_of_def [of s m])
    then have "unat (min_size (minors s m)) + 40 < 2 ^ 32" using unat_u32_less [of "maj_usage (majors s maj)"] by simp
    then have "unat (min_size (minors s m) + 40) = unat (min_size (minors s m)) + 40" by (subst unat_add_no_wrap) simp_all
    then show ?thesis using u unfolding ar' by (simp add: remove_minor_def unat_sub word_le_nat_alt)
  qed
  moreover have "areas_ok (unat maj + 40) (block_end s maj) (map (area_of s) (xs @ ys))"
  proof -
    have "areas_ok (unat maj + 40) (block_end s maj)
        (map (area_of s) xs @ (unat m, 40 + unat (min_size (minors s m))) # map (area_of s) ys)"
      using ok by (simp add: block_ok_def area_of_def [of s m])
    from areas_ok_remove [OF this] show ?thesis by simp
  qed
  moreover have "min_block (minors ?t k) = min_block (minors s k) \<and> min_magic (minors ?t k) = min_magic (minors s k)"
    if "k \<in> set xs \<union> set ys" for k using that d by (auto simp: remove_minor_def)
  ultimately show "block_ok ?t maj (xs @ ys)" using ok unfolding block_ok_def end' ar' by auto
qed

lemma remove_minor_heap_wf:
  assumes wf: "heap_wf s (B1 @ (maj, xs @ m # ys) # B2)" and ne: "xs @ ys \<noteq> []"
  shows "heap_wf (remove_minor maj (last_or NULL xs) m (head_or NULL ys) s) (B1 @ (maj, xs @ ys) # B2)"
proof -
  let ?t = "remove_minor maj (last_or NULL xs) m (head_or NULL ys) s"
  have ok: "block_ok s maj (xs @ m # ys)" using wf by (auto simp: heap_wf_def)
  show ?thesis
  proof (rule heap_wf_update [OF wf remove_minor_block_ok(1) [OF ok] ne])
    fix k :: u64
    assume k: "unat k < unat maj \<or> block_end s maj \<le> unat k"
    have notin: "k \<notin> set (xs @ m # ys)" using k block_ok_member(2,3) [OF ok, of k] by auto
    show "minors ?t k = minors s k"
    proof (cases "k = NULL")
      case True
      then show ?thesis using notin by (simp add: remove_minor_def)
    next
      case False
      then have "k \<noteq> last_or NULL xs" "k \<noteq> head_or NULL ys"
        using notin last_in_set [of xs] by (auto simp: last_or_def head_or_def split: list.splits)
      then show ?thesis using notin by (simp add: remove_minor_def)
    qed
  next
    show "l_bestBet ?t \<in> insert NULL (fst ` set (B1 @ (maj, xs @ m # ys) # B2))"
      using wf by (simp add: remove_minor_def heap_wf_def)
  qed (simp_all add: remove_minor_def)
qed

lemma heap_wf_minor:
  assumes "heap_wf s (B1 @ (maj, xs @ m # ys) # B2)"
  shows "min_prev (minors s m) = last_or NULL xs" and "min_next (minors s m) = head_or NULL ys"
    and "min_block (minors s m) = maj" and "min_magic (minors s m) = LIBALLOC_MAGIC" and "m \<noteq> NULL"
    and "last_or NULL xs \<noteq> m" and "head_or NULL ys \<noteq> m" and "head_or NULL ys = NULL \<or> last_or NULL xs \<noteq> head_or NULL ys"
proof -
  have ok: "block_ok s maj (xs @ m # ys)" using assms by (auto simp: heap_wf_def)
  have d: "distinct (xs @ m # ys)" by (rule block_ok_distinct [OF ok])
  show "min_prev (minors s m) = last_or NULL xs" "min_next (minors s m) = head_or NULL ys"
    using ok by (simp_all add: block_ok_def dll_append)
  show "min_block (minors s m) = maj" "min_magic (minors s m) = LIBALLOC_MAGIC" and m: "m \<noteq> NULL"
    using block_ok_member [OF ok, of m] by simp_all
  show "last_or NULL xs \<noteq> m" using d m last_in_set [of xs] by (auto simp: last_or_def)
  show "head_or NULL ys \<noteq> m" using d m by (cases ys) auto
  show "head_or NULL ys = NULL \<or> last_or NULL xs \<noteq> head_or NULL ys"
    using d block_ok_member(1) [OF ok] last_in_set [of xs] by (cases ys) (auto simp: last_or_def)
qed

lemma update_best_bet_frame:
  "\<exists>x. x \<in> {l_bestBet s, maj} \<and> update_best_bet maj s = s\<lparr>l_bestBet := x\<rparr>"
proof -
  define grows where "grows \<longleftrightarrow> l_bestBet s \<noteq> NULL \<and>
    sint (maj_size (majors s (l_bestBet s)) - maj_usage (majors s (l_bestBet s))) < sint (maj_size (majors s maj) - maj_usage (majors s maj))"
  have "update_best_bet maj s = s\<lparr>l_bestBet := if grows then maj else l_bestBet s\<rparr>"
    by (simp add: update_best_bet_def grows_def)
  then show ?thesis by (intro exI [of _ "if grows then maj else l_bestBet s"]) simp
qed

lemma unlock_bestBet:
  "\<not> liballoc_lock_var u \<Longrightarrow> liballoc_unlock (u\<lparr>liballoc_lock_var := True, l_bestBet := x\<rparr>) = u\<lparr>l_bestBet := x\<rparr>"
  by (cases u) (simp add: liballoc_unlock_def spinlock_release_def)

lemma kfree_contract:
  assumes wf: "heap_wf s (B1 @ (maj, xs @ m # ys) # B2)" and ne: "xs @ ys \<noteq> []"
    and lock: "\<not> liballoc_lock_var s" and ptr: "ptr \<noteq> NULL" "UNALIGN ptr s = m + 40"
  shows "\<exists>t bet. kfree ptr s = Some t \<and> heap_wf t (B1 @ (maj, xs @ ys) # B2) \<and> \<not> liballoc_lock_var t \<and>
    t = (remove_minor maj (last_or NULL xs) m (head_or NULL ys) s)\<lparr>l_bestBet := bet\<rparr>"
proof -
  let ?l = "s\<lparr>liballoc_lock_var := True\<rparr>"
  let ?r = "remove_minor maj (last_or NULL xs) m (head_or NULL ys)"
  note m = heap_wf_minor [OF wf]
  have rl: "?r ?l = (?r s)\<lparr>liballoc_lock_var := True\<rparr>"
    by (cases s) (simp add: remove_minor_def cong: if_cong)
  have lr: "\<not> liballoc_lock_var (?r s)" using lock by (simp add: remove_minor_def)
  have wr: "heap_wf (?r s) (B1 @ (maj, xs @ ys) # B2)" by (rule remove_minor_heap_wf [OF wf ne])
  then have ok: "block_ok (?r s) maj (xs @ ys)" by (auto simp: heap_wf_def)
  have "head_or NULL (xs @ ys) \<noteq> NULL" using ne block_ok_member(1) [OF ok] by (cases "xs @ ys") auto
  then have first: "maj_first (majors (?r s) maj) \<noteq> NULL" using ok by (simp add: block_ok_def)
  obtain bet where bet: "bet \<in> {l_bestBet (?r ?l), maj}" "update_best_bet maj (?r ?l) = (?r ?l)\<lparr>l_bestBet := bet\<rparr>"
    using update_best_bet_frame by blast
  define t where "t = (?r s)\<lparr>l_bestBet := bet\<rparr>"
  have "kfree ptr s = Some (liballoc_unlock (update_best_bet maj (?r ?l)))"
  proof -
    have "unlink_minor maj m (upd_min m (\<lambda>i. i\<lparr>min_magic := LIBALLOC_DEAD\<rparr>)
      (upd_maj maj (\<lambda>j. j\<lparr>maj_usage := maj_usage j - (min_size (minors ?l m) + 40)\<rparr>)
        (?l\<lparr>l_inuse := l_inuse ?l - ucast (min_size (minors ?l m))\<rparr>))) = ?r ?l"
      using m by (intro unlink_minor_remove) simp_all
    then show ?thesis using ptr lock m(3,4) first unfolding kfree_def by (simp add: liballoc_lock_def Let_def rl)
  qed
  also have "liballoc_unlock (update_best_bet maj (?r ?l)) = t"
    unfolding bet(2) unfolding rl t_def by (rule unlock_bestBet [OF lr])
  finally have run: "kfree ptr s = Some t" .
  have "heap_wf t (B1 @ (maj, xs @ ys) # B2)" unfolding t_def
    using wr bet(1) wf by (intro heap_wf_bestBet) (auto simp: rl remove_minor_def heap_wf_def)
  moreover have "\<not> liballoc_lock_var t" using lock by (simp add: t_def remove_minor_def)
  ultimately show ?thesis using run t_def by blast
qed

section \<open>Copying by words\<close>

lemma memcpy_loop_add: "memcpy_loop m d s (a + b) = memcpy_loop (memcpy_loop m d s a) (d + of_nat a) (s + of_nat a) b"
proof (induction a arbitrary: m d s)
  case (Suc a)
  have "d + 1 + of_nat a = d + of_nat (Suc a)" "s + 1 + of_nat a = s + of_nat (Suc a)" by simp_all
  then show ?case using Suc [of "m(d := m s)" "d + 1" "s + 1"] by (simp only: add_Suc memcpy_loop.simps(2))
qed simp

lemma store_load_bytes:
  assumes "disjoint_ranges d 4 s 4"
  shows "store_le 4 m d (load32 m s) = memcpy_loop m d s 4"
proof
  fix x
  have "ucast (drop_bit (8 * unat (x - d)) (load32 m s)) = m (s + (x - d))" if "in_range d 4 x"
  proof (rule bit_word_eqI)
    fix i :: nat
    assume i: "i < LENGTH(8)"
    have b: "unat (x - d) < 4" using that by (simp add: in_range_def)
    have "(8 * unat (x - d) + i) div 8 = unat (x - d)" "(8 * unat (x - d) + i) mod 8 = i" using i by simp_all
    moreover have "8 * unat (x - d) + i < 32" using b i by simp
    ultimately show "bit (ucast (drop_bit (8 * unat (x - d)) (load32 m s)) :: u8) i = bit (m (s + (x - d))) i"
      using i by (simp add: bit_unsigned_iff bit_drop_bit_eq load32_def bit_load_le)
  qed
  then show "store_le 4 m d (load32 m s) x = memcpy_loop m d s 4 x"
    using assms by (simp add: store_le_apply memcpy_loop_apply)
qed

lemma in_range_shift: "k \<le> n \<Longrightarrow> in_range (a + of_nat k) (n - k) x \<Longrightarrow> in_range a n x"
proof -
  assume k: "k \<le> n" and x: "in_range (a + of_nat k) (n - k) x"
  have "unat (x - a) \<le> unat (x - (a + of_nat k)) + unat (of_nat k :: u64)"
    using unat_word_ariths(1) [of "x - (a + of_nat k)" "of_nat k"] by (simp add: diff_diff_eq [symmetric])
  also have "unat (of_nat k :: u64) \<le> k" by (simp add: unsigned_of_nat take_bit_eq_mod)
  finally show ?thesis using k x by (simp add: in_range_def)
qed

lemma liballoc_memcpy_words_eq:
  "disjoint_ranges d n s n \<Longrightarrow> liballoc_memcpy_words d s n m = memcpy_loop m d s n"
proof (induction d s n m rule: liballoc_memcpy_words.induct)
  case (1 d s n m)
  show ?case
  proof (cases "4 \<le> n")
    case True
    have sub: "in_range a n x" if "in_range a 4 x" for a x using that True by (simp add: in_range_def)
    have "disjoint_ranges d 4 s 4" using 1(2) sub unfolding disjoint_ranges_def by blast
    then have w: "store_le 4 m d (load32 m s) = memcpy_loop m d s 4" by (rule store_load_bytes)
    have "disjoint_ranges (d + 4) (n - 4) (s + 4) (n - 4)"
      using 1(2) in_range_shift [OF True, of d] in_range_shift [OF True, of s] unfolding disjoint_ranges_def by auto
    from 1(1) [OF True this] have "liballoc_memcpy_words d s n m = memcpy_loop (memcpy_loop m d s 4) (d + 4) (s + 4) (n - 4)"
      unfolding w using True by (subst liballoc_memcpy_words.simps) (simp add: w)
    also have "\<dots> = memcpy_loop m d s (4 + (n - 4))" using memcpy_loop_add [of m d s 4 "n - 4"] by simp
    finally show ?thesis using True by simp
  qed (simp add: liballoc_memcpy_words.simps)
qed

section \<open>Properties\<close>

text \<open>
  C26. The heap's own copy routine, which moves four bytes at a time and the rest singly, computes
  the same memory as the \<open>memcpy\<close> of the string library whenever source and destination do not overlap.
\<close>

theorem liballoc_memcpy_equiv:
  assumes "disjoint_ranges dest (unat n) src (unat n)"
  shows "liballoc_memcpy dest src n m = fst (memcpy m dest src n)"
  using liballoc_memcpy_words_eq [OF assms] by (simp add: liballoc_memcpy_def memcpy_def)

theorem liballoc_memcpy_equiv_witness:
  "disjoint_ranges 100 (unat (7 :: u64)) 200 (unat (7 :: u64)) \<and>
   (\<forall>m. liballoc_memcpy 100 200 7 m = fst (memcpy m 100 200 7))"
proof -
  have "disjoint_ranges 100 (unat (7 :: u64)) 200 (unat (7 :: u64))"
    by (auto simp: disjoint_ranges_def in_range_nat)
  with liballoc_memcpy_equiv [OF this] show ?thesis by blast
qed

text \<open>The area of a new allocation is apart from every allocation that was there before.\<close>

lemma new_area_apart:
  assumes wf: "heap_wf s (B1 @ (maj, xs @ ys) # B2)"
    and gap: "areas_ok (unat maj + 40) (block_end s maj) (map (area_of s) xs @ (unat new, n) # map (area_of s) ys)"
    and m: "(b, ns) \<in> set (B1 @ (maj, xs @ ys) # B2)" "m \<in> set ns"
  shows "unat new + n \<le> unat m \<or> unat m + 40 + unat (min_size (minors s m)) \<le> unat new"
proof -
  have l: "areas_ok (unat maj + 40) (unat new) (map (area_of s) xs)" and n: "0 < n"
    and r: "areas_ok (unat new + n) (block_end s maj) (map (area_of s) ys)"
    using gap by (simp_all add: areas_ok_append)
  have lo: "unat maj + 40 \<le> unat new" "unat new + n \<le> block_end s maj" using areas_ok_le [OF l] areas_ok_le [OF r] by simp_all
  have ok: "block_ok s b ns" using wf m(1) by (auto simp: heap_wf_def)
  show ?thesis
  proof (cases "(b, ns) \<in> set (B1 @ B2)")
    case True
    with heap_wf_apart(1) [OF wf this] block_ok_member(2,3) [OF ok m(2)] lo show ?thesis by (auto simp: apart_def)
  next
    case False
    with m have "m \<in> set xs \<or> m \<in> set ys" by auto
    then show ?thesis using areas_ok_member [OF l, of m] areas_ok_member [OF r, of m] by auto
  qed
qed

lemma block_fit_gap:
  assumes "block_ok s maj ms" and "block_fit s sz maj ms = Some zs"
  shows "areas_ok (unat maj + 40) (block_end s maj) zs"
  using assms by (auto simp: block_ok_def block_fit_def intro: insert_first_ok)

lemma insert_minor_area:
  "m \<noteq> new \<Longrightarrow> area_of (insert_minor maj prv new nxt req_size sz s) m = area_of s m"
  by (simp add: insert_minor_def area_of_def)

text \<open>
  C7. Allocation: when some block of a well-formed heap has a gap that is large enough, \<open>kmalloc\<close> finds
  one whatever block it starts from, places the allocation in the first gap of that block that fits, keeps
  the invariant, and returns a 16-byte aligned pointer. The bytes the caller may use lie inside the block
  and overlap neither the headers nor the memory of any earlier allocation, and memory changes
  only in the one byte that records the alignment.
\<close>

theorem kmalloc_correct:
  assumes wf: "heap_wf s Bs" and lock: "\<not> liballoc_lock_var s" and req: "unat req_size + 72 < 2 ^ 64"
    and fit: "\<exists>(maj, ms) \<in> set Bs. block_fit s (req_size + 32) maj ms \<noteq> None"
  shows "\<exists>B1 maj xs new ys B2 p t. Bs = B1 @ (maj, xs @ ys) # B2 \<and> kmalloc req_size s = Some (p, t) \<and>
    heap_wf t (B1 @ (maj, xs @ new # ys) # B2) \<and>
    block_fit s (req_size + 32) maj (xs @ ys) = Some (map (area_of t) (xs @ new # ys)) \<and>
    16 dvd unat p \<and> unat maj + 96 \<le> unat p \<and> unat p + unat req_size \<le> block_end s maj \<and>
    (\<forall>(b, ns) \<in> set Bs. \<forall>m \<in> set ns. area_of t m = area_of s m \<and>
       (unat p + unat req_size \<le> unat m \<or> unat m + 40 + unat (min_size (minors s m)) \<le> unat p)) \<and>
    (\<forall>x. x \<noteq> p - 16 \<longrightarrow> mem t x = mem s x)"
proof -
  obtain B1 maj xs new ys B2 p t bet where c: "Bs = B1 @ (maj, xs @ ys) # B2" "kmalloc req_size s = Some (p, t)"
    "heap_wf t (B1 @ (maj, xs @ new # ys) # B2)"
    "block_fit s (req_size + 32) maj (xs @ ys) = Some (map (area_of t) (xs @ new # ys))"
    "map (area_of t) (xs @ new # ys) = map (area_of s) xs @ (unat new, unat req_size + 72) # map (area_of s) ys"
    "16 dvd unat p" "unat new + 56 \<le> unat p" "unat p < unat new + 72"
    and t: "t = (insert_minor maj (last_or NULL xs) new (head_or NULL ys) req_size (req_size + 32) s)
      \<lparr>l_bestBet := bet, mem := (mem s)(p - 16 := ucast (p - (new + 40)))\<rparr>"
    using kmalloc_contract [OF assms] by blast
  have ok: "block_ok s maj (xs @ ys)" using wf c(1) by (auto simp: heap_wf_def)
  note gap = block_fit_gap [OF ok c(4), unfolded c(5)]
  have in_block: "unat maj + 40 \<le> unat new" "unat new + (unat req_size + 72) \<le> block_end s maj"
    using gap by (auto simp: areas_ok_append dest: areas_ok_le)
  have other: "area_of t m = area_of s m \<and>
       (unat p + unat req_size \<le> unat m \<or> unat m + 40 + unat (min_size (minors s m)) \<le> unat p)"
    if "(b, ns) \<in> set Bs" "m \<in> set ns" for b ns m
  proof -
    have ap: "unat new + (unat req_size + 72) \<le> unat m \<or> unat m + 40 + unat (min_size (minors s m)) \<le> unat new"
      using new_area_apart [OF wf [unfolded c(1)] gap] that unfolding c(1) by blast
    then have "m \<noteq> new" by auto
    then show ?thesis using ap c(7,8) by (auto simp: t insert_minor_area)
  qed
  have "mem t x = mem s x" if "x \<noteq> p - 16" for x using that by (simp add: t)
  moreover have "unat maj + 96 \<le> unat p" "unat p + unat req_size \<le> block_end s maj" using in_block c(7,8) by simp_all
  moreover have "\<forall>(b, ns) \<in> set Bs. \<forall>m \<in> set ns. area_of t m = area_of s m \<and>
       (unat p + unat req_size \<le> unat m \<or> unat m + 40 + unat (min_size (minors s m)) \<le> unat p)"
    using other by blast
  ultimately show ?thesis using c(1-4,6) by blast
qed

text \<open>A heap of one block with one allocation, on which the properties are tried.\<close>

definition small_heap :: "'a heap_state_scheme \<Rightarrow> 'a heap_state_scheme" where
  "small_heap s = s\<lparr>
     majors := (\<lambda>_. \<lparr>maj_prev = NULL, maj_next = NULL, maj_pages = 16, maj_size = 65536, maj_usage = 122, maj_first = 0x100028\<rparr>),
     minors := (\<lambda>_. \<lparr>min_prev = NULL, min_next = NULL, min_block = 0x100000, min_magic = LIBALLOC_MAGIC, min_size = 42,
       min_req_size = 10\<rparr>),
     l_memRoot := 0x100000, l_bestBet := NULL, liballoc_lock_var := False\<rparr>"

lemma small_heap_ok:
  "heap_wf (small_heap s) [(0x100000, [0x100028])]" "\<not> liballoc_lock_var (small_heap s)"
  "block_fit (small_heap s) 132 0x100000 [0x100028] \<noteq> None"
  by (simp_all add: small_heap_def heap_wf_def block_ok_def block_end_def area_of_def block_fit_def)

theorem kmalloc_correct_witness:
  "\<forall>s :: heap_state. \<exists>p t. kmalloc 100 (small_heap s) = Some (p, t) \<and> 16 dvd unat p \<and> unat p + 100 \<le> 0x110000 \<and>
     (unat p + 100 \<le> 0x100028 \<or> 0x10007a \<le> unat p)"
proof
  fix s :: heap_state
  have "\<exists>(maj, ms) \<in> set [(0x100000, [0x100028])]. block_fit (small_heap s) (100 + 32) maj ms \<noteq> None"
    using small_heap_ok(3) by simp
  from kmalloc_correct [OF small_heap_ok(1,2) _ this]
  show "\<exists>p t. kmalloc 100 (small_heap s) = Some (p, t) \<and> 16 dvd unat p \<and> unat p + 100 \<le> 0x110000 \<and>
     (unat p + 100 \<le> 0x100028 \<or> 0x10007a \<le> unat p)"
    by (auto simp: small_heap_def block_end_def append_eq_Cons_conv Cons_eq_append_conv)
qed

text \<open>
  C8. Releasing what was just allocated gives back a well-formed heap with exactly the allocations from
  before, each where it was; releasing it a second time is recognised by the mark left in
  the header and changes nothing but the error count.
\<close>

theorem kmalloc_kfree_roundtrip:
  assumes wf: "heap_wf s Bs" and lock: "\<not> liballoc_lock_var s" and req: "unat req_size + 72 < 2 ^ 64"
    and fit: "\<exists>(maj, ms) \<in> set Bs. block_fit s (req_size + 32) maj ms \<noteq> None"
  shows "\<exists>p t u. kmalloc req_size s = Some (p, t) \<and> kfree p t = Some u \<and> heap_wf u Bs \<and>
    (\<forall>(b, ns) \<in> set Bs. map (area_of u) ns = map (area_of s) ns) \<and> l_inuse u = l_inuse s \<and>
    kfree p u = Some (u\<lparr>l_errorCount := l_errorCount u + 1\<rparr>)"
proof -
  obtain B1 maj xs new ys B2 p t bet where c: "Bs = B1 @ (maj, xs @ ys) # B2" "kmalloc req_size s = Some (p, t)"
    "heap_wf t (B1 @ (maj, xs @ new # ys) # B2)" "\<not> liballoc_lock_var t"
    "block_fit s (req_size + 32) maj (xs @ ys) = Some (map (area_of t) (xs @ new # ys))"
    "map (area_of t) (xs @ new # ys) = map (area_of s) xs @ (unat new, unat req_size + 72) # map (area_of s) ys"
    "unat new + 56 \<le> unat p" "UNALIGN p t = new + 40"
    and t: "t = (insert_minor maj (last_or NULL xs) new (head_or NULL ys) req_size (req_size + 32) s)
      \<lparr>l_bestBet := bet, mem := (mem s)(p - 16 := ucast (p - (new + 40)))\<rparr>"
    using kmalloc_contract [OF assms] by blast
  have ne: "xs @ ys \<noteq> []" using wf c(1) by (auto simp: heap_wf_def)
  have p0: "p \<noteq> NULL" using c(7) by auto
  obtain u bet' where u: "kfree p t = Some u" "heap_wf u (B1 @ (maj, xs @ ys) # B2)" "\<not> liballoc_lock_var u"
    "u = (remove_minor maj (last_or NULL xs) new (head_or NULL ys) t)\<lparr>l_bestBet := bet'\<rparr>"
    using kfree_contract [OF c(3) ne c(4) p0 c(8)] by blast
  have ok: "block_ok s maj (xs @ ys)" using wf c(1) by (auto simp: heap_wf_def)
  note gap = block_fit_gap [OF ok c(5), unfolded c(6)]
  have au: "area_of u m = area_of t m" for m by (simp add: u(4) area_of_def remove_minor_def)
  have "map (area_of u) ns = map (area_of s) ns" if "(b, ns) \<in> set Bs" for b ns
  proof -
    have "m \<noteq> new" if "m \<in> set ns" for m
      using new_area_apart [OF wf [unfolded c(1)] gap, of b ns m] that \<open>(b, ns) \<in> set Bs\<close> unfolding c(1) by auto
    then show ?thesis by (simp add: au t insert_minor_area)
  qed
  moreover have "l_inuse u = l_inuse s"
  proof -
    have "map (area_of t) xs @ area_of t new # map (area_of t) ys =
      map (area_of s) xs @ (unat new, unat req_size + 72) # map (area_of s) ys" using c(6) by simp
    then have "area_of t new = (unat new, unat req_size + 72)" by simp
    then have "unat (ucast (min_size (minors t new)) :: u64) = unat (req_size + 32)"
      using req by (simp add: area_of_def unat_add_no_wrap)
    then have "ucast (min_size (minors t new)) = req_size + 32" by (simp only: word_unat_eq_iff)
    then show ?thesis by (simp add: u(4) remove_minor_def) (simp add: t insert_minor_def)
  qed
  moreover have "kfree p u = Some (u\<lparr>l_errorCount := l_errorCount u + 1\<rparr>)"
  proof -
    have "UNALIGN p u = new + 40" using c(8) by (simp add: u(4) remove_minor_def UNALIGN_def)
    moreover have "min_magic (minors u new) = LIBALLOC_DEAD" by (simp add: u(4) remove_minor_def)
    ultimately show ?thesis using p0 u(3)
      by (cases u) (simp add: kfree_def liballoc_lock_def bad_magic_def liballoc_unlock_def spinlock_release_def Let_def)
  qed
  ultimately show ?thesis using c(1,2) u(1,2) by blast
qed

theorem kmalloc_kfree_roundtrip_witness:
  "\<forall>s :: heap_state. \<exists>p t u. kmalloc 100 (small_heap s) = Some (p, t) \<and> kfree p t = Some u \<and>
     heap_wf u [(0x100000, [0x100028])] \<and> kfree p u = Some (u\<lparr>l_errorCount := l_errorCount u + 1\<rparr>)"
proof
  fix s :: heap_state
  have "\<exists>(maj, ms) \<in> set [(0x100000, [0x100028])]. block_fit (small_heap s) (100 + 32) maj ms \<noteq> None"
    using small_heap_ok(3) by simp
  from kmalloc_kfree_roundtrip [OF small_heap_ok(1,2) _ this]
  show "\<exists>p t u. kmalloc 100 (small_heap s) = Some (p, t) \<and> kfree p t = Some u \<and>
     heap_wf u [(0x100000, [0x100028])] \<and> kfree p u = Some (u\<lparr>l_errorCount := l_errorCount u + 1\<rparr>)" by auto
qed

section \<open>What the page allocators leave alone\<close>

text \<open>The allocators of pages and regions do not touch the variables of the heap, which are behind those of the page allocator.\<close>

lemma heap_of_more:
  assumes "pmm_state.more t = pmm_state.more s"
  shows "majors t = majors s" and "minors t = minors s" and "l_memRoot t = l_memRoot s" and "l_bestBet t = l_bestBet s"
    and "liballoc_lock_var t = liballoc_lock_var s" and "kernel_vma_context t = kernel_vma_context s"
  using assms by (cases s, cases t, simp)+

text \<open>And the other way round: only these variables make up the address space.\<close>

definition same_pages :: "'a pmm_state_scheme \<Rightarrow> 'b pmm_state_scheme \<Rightarrow> bool" where
  "same_pages s t \<longleftrightarrow> mem t = mem s \<and> hhdm_offset t = hhdm_offset s \<and> stack_pages t = stack_pages s \<and>
     stack_idx t = stack_idx s \<and> stack_max t = stack_max s"

lemma same_pages_cong:
  fixes s :: "'a pmm_state_scheme" and t :: "'b pmm_state_scheme"
  assumes "same_pages s t"
  shows "vma_wf t pm c rs = vma_wf s pm c rs" and "vma_gap_after t = vma_gap_after s" and "free_pages t = free_pages s"
    and "HIGHER_HALF t = HIGHER_HALF s" and "region_end t = region_end s" and "virt_to_phys pm v t = virt_to_phys pm v s"
    and "untouched t pm x = untouched s pm x"
proof -
  have m: "mem t = mem s" "hhdm_offset t = hhdm_offset s" "stack_pages t = stack_pages s" "stack_idx t = stack_idx s"
    "stack_max t = stack_max s" using assms by (simp_all add: same_pages_def)
  have e: "get_entry t = get_entry s" by (simp add: get_entry_def fun_eq_iff m)
  show h: "HIGHER_HALF t = HIGHER_HALF s" by (simp add: HIGHER_HALF_def fun_eq_iff m)
  have n: "next_table t = next_table s" by (simp add: next_table_def e h fun_eq_iff)
  show f: "free_pages t = free_pages s" by (simp add: free_pages_def stack_slot_def m)
  have sa: "stack_area t = stack_area s" by (simp add: stack_area_def fun_eq_iff m)
  have "table_at t r p = table_at s r p" for r p by (induction p arbitrary: r) (simp_all add: e n)
  then have ta: "table_at t = table_at s" by (simp add: fun_eq_iff)
  then have it: "is_table t = is_table s" by (simp add: is_table_def fun_eq_iff)
  have pk: "page_ok t = page_ok s" by (simp add: page_ok_def fun_eq_iff h sa)
  have inv: "pmm_inv t = pmm_inv s" by (simp add: pmm_inv_def pmm_layout_def f pk m)
  have pw: "pagemap_wf t = pagemap_wf s" by (simp add: pagemap_wf_def fun_eq_iff inv f it ta sa h)
  have hd': "held t = held s" by (simp add: held_def untouched_def fun_eq_iff f it sa h)
  show "untouched t pm x = untouched s pm x" by (simp add: untouched_def f it h)
  have rf: "region_start t = region_start s" "region_size t = region_size s" "region_next t = region_next s"
    "ctx_pagemap t = ctx_pagemap s" "ctx_root t = ctx_root s"
    by (simp_all add: region_start_def region_size_def region_next_def ctx_pagemap_def ctx_root_def fun_eq_iff m)
  have rc: "region_chain t r as = region_chain s r as" for r as by (induction as arbitrary: r) (simp_all add: rf)
  show "vma_wf t pm c rs = vma_wf s pm c rs" by (simp add: vma_wf_def pw hd' rf rc)
  show "vma_gap_after t = vma_gap_after s" by (simp add: vma_gap_after_def fun_eq_iff rf)
  show "region_end t = region_end s" by (simp add: region_end_def fun_eq_iff rf)
  show "virt_to_phys pm v t = virt_to_phys pm v s" unfolding virt_to_phys_def e n ..
qed

lemma new_page_count_small: "unat sz + 80 \<le> 65536 \<Longrightarrow> new_page_count sz = 16"
proof -
  assume sz: "unat sz + 80 \<le> 65536"
  define st :: u32 where "st = sz + 40 + 40"
  have st: "unat st \<le> 65536" using sz by (simp add: st_def add.assoc unat_add_no_wrap)
  have le: "st div 4096 \<le> 16" "st mod 4096 \<noteq> 0 \<Longrightarrow> st div 4096 + 1 \<le> 16"
  proof -
    have d: "unat (st div 4096) = unat st div 4096" by (simp add: unat_div)
    then show "st div 4096 \<le> 16" using st by (simp add: word_le_nat_alt)
    assume "st mod 4096 \<noteq> 0"
    moreover have "unat (st mod 4096) = unat st mod 4096" by (simp add: unat_mod)
    ultimately have "unat st mod 4096 \<noteq> 0" by (simp add: word_unat_eq_iff)
    then have "unat st div 4096 < 16" using st div_mult_mod_eq [of "unat st" 4096] by linarith
    then have "unat (st div 4096 + 1) = unat st div 4096 + 1" using d by (subst unat_add_no_wrap) simp_all
    then show "st div 4096 + 1 \<le> 16" using \<open>unat st div 4096 < 16\<close> by (simp add: word_le_nat_alt)
  qed
  then show ?thesis unfolding new_page_count_def Let_def st_def [symmetric] by (auto simp: not_less intro: order.antisym)
qed

text \<open>
  A new block, from the kernel's region context: where it is, what happens to its header, and what is mapped.
\<close>

definition region_room :: "'a pmm_state_scheme \<Rightarrow> u64 \<Rightarrow> u64 \<Rightarrow> u64 list \<Rightarrow> u64 \<Rightarrow> u64 \<Rightarrow> bool" where
  "region_room s pm c rs sz a \<longleftrightarrow> vma_wf s pm c rs \<and>
     (tl rs = [] \<and> a = hd rs \<or> find (vma_gap_after s sz) (tl rs) = Some a) \<and>
     5 \<le> length (free_pages s) \<and> HIGHER_HALF s (last (free_pages s)) \<noteq> NULL"

lemma region_room_cong: "same_pages s t \<Longrightarrow> region_room t pm c rs sz a = region_room s pm c rs sz a"
  by (simp add: region_room_def same_pages_cong)

lemma one_page: "0 < unat sz \<Longrightarrow> unat sz \<le> 4096 \<Longrightarrow> unat (ALIGN_UP sz PAGE_SIZE div PAGE_SIZE) = 1"
proof -
  assume sz: "0 < unat sz" "unat sz \<le> 4096"
  have s: "unat (sz + 4095) = unat sz + 4095" using sz by (simp add: unat_word_ariths)
  then have "unat (ALIGN_UP sz PAGE_SIZE div PAGE_SIZE) = (unat sz + 4095) div 4096"
    using sz by (simp add: ALIGN_UP_def DIV_ROUND_UP_def unat_word_ariths unat_div)
  also have "\<dots> = 1" using sz by (intro div_nat_eqI) simp_all
  finally show ?thesis .
qed

lemma liballoc_alloc_contract:
  assumes room: "region_room s pm (kernel_vma_context s) rs (scast pages) a"
    and pages: "0 < unat (scast pages :: u64)" "unat (scast pages :: u64) \<le> 4096"
  shows "\<exists>t. liballoc_alloc pages s = Some (region_end s a, t) \<and> pmm_state.more t = pmm_state.more s \<and>
    virt_to_phys pm (region_end s a) t \<in> set (free_pages s) \<and>
    (\<forall>w. \<not> same_page (region_end s a) w \<longrightarrow> virt_to_phys pm w t = virt_to_phys pm w s) \<and>
    (\<forall>x. untouched s pm x \<and> \<not> in_range a 4096 x \<longrightarrow> mem t x = mem s x)"
proof -
  obtain root rs' where rs: "rs = root # rs'" using room by (cases rs) (auto simp: region_room_def vma_wf_def)
  have n: "1 = unat (ALIGN_UP (scast pages) PAGE_SIZE div PAGE_SIZE)" using one_page [OF pages] by simp
  have fl: "flags_ok (VMM_PRESENT OR VMM_WRITABLE)" using flags_ok_3 by simp
  obtain t fs where t: "vma_alloc (kernel_vma_context s) (scast pages) (VMM_PRESENT OR VMM_WRITABLE) s = Some (region_end s a, t)"
    "mapped_to pm (region_end s a) 0 1 fs s t" "set fs \<subseteq> set (butlast (free_pages s)) - set (free_pages t)"
    "\<forall>x. untouched s pm x \<and> \<not> in_range a 4096 x \<longrightarrow> untouched t pm x \<and> mem t x = mem s x"
    using vma_alloc_contract [OF _ _ fl n _ _ refl, of s pm "kernel_vma_context s" root rs' a] room
    by (auto simp: region_room_def rs)
  have "virt_to_phys pm (region_end s a) t \<in> set (free_pages s)"
    using t(2,3) by (cases fs) (auto simp: mapped_to_def dest: in_set_butlastD)
  moreover have "\<forall>w. \<not> same_page (region_end s a) w \<longrightarrow> virt_to_phys pm w t = virt_to_phys pm w s"
    using t(2) by (simp add: mapped_to_def)
  ultimately show ?thesis using t(1,4) vma_alloc_more [OF t(1)] by (auto simp: liballoc_alloc_def)
qed

lemma allocate_new_page_contract:
  assumes room: "region_room s pm (kernel_vma_context s) rs 16 a" and sz: "unat (ucast sz :: u32) + 80 \<le> 65536"
    and maj: "maj = region_end s a" "maj \<noteq> NULL"
  shows "\<exists>t. allocate_new_page (ucast sz) s = Some (maj, t) \<and>
    majors t = (majors s)(maj := \<lparr>maj_prev = NULL, maj_next = NULL, maj_pages = 16, maj_size = 65536, maj_usage = 40, maj_first = NULL\<rparr>) \<and>
    minors t = minors s \<and> l_memRoot t = l_memRoot s \<and> l_bestBet t = l_bestBet s \<and> liballoc_lock_var t = liballoc_lock_var s \<and>
    (\<forall>x. untouched s pm x \<and> \<not> in_range a 4096 x \<longrightarrow> mem t x = mem s x)"
proof -
  have "new_page_count (ucast sz) = 16" using sz by (rule new_page_count_small)
  moreover obtain t where t: "liballoc_alloc 16 s = Some (maj, t)" "pmm_state.more t = pmm_state.more s"
    "\<forall>x. untouched s pm x \<and> \<not> in_range a 4096 x \<longrightarrow> mem t x = mem s x"
    using liballoc_alloc_contract [of s pm rs 16 a] room maj by auto
  ultimately show ?thesis using maj(2) heap_of_more [OF t(2)] t(3)
    by (simp add: allocate_new_page_def upd_maj_def Let_def)
qed

lemma empty_block:
  assumes "majors s maj = \<lparr>maj_prev = p, maj_next = q, maj_pages = 16, maj_size = 65536, maj_usage = 40, maj_first = NULL\<rparr>"
    and "maj \<noteq> NULL" and "unat maj + 65536 < 2 ^ 64"
  shows "block_ok s maj []"
    and "unat sz + 80 \<le> 65536 \<Longrightarrow> block_fit s sz maj [] = Some [(unat maj + 40, unat sz + 40)]"
  using assms by (simp_all add: block_ok_def block_end_def block_fit_def)

lemma kmalloc_first_contract:
  assumes heap: "l_memRoot s = NULL" "l_bestBet s = NULL" "\<not> liballoc_lock_var s"
    and room: "region_room s pm (kernel_vma_context s) rs 16 a" and req: "unat req_size + 112 \<le> 65536"
    and maj: "maj = region_end s a" "maj \<noteq> NULL" "unat maj + 65536 < 2 ^ 64"
  shows "\<exists>p t. kmalloc req_size s = Some (p, t) \<and> heap_wf t [(maj, [maj + 40])] \<and> \<not> liballoc_lock_var t \<and>
    maj_pages (majors t maj) = 16 \<and> block_end t maj = unat maj + 65536 \<and> area_of t (maj + 40) = (unat maj + 40, unat req_size + 72) \<and>
    16 dvd unat p \<and> unat maj + 96 \<le> unat p \<and> unat p < unat maj + 112 \<and> mem t (p - 16) = ucast (p - (maj + 80)) \<and>
    (\<forall>x. untouched s pm x \<and> \<not> in_range a 4096 x \<and> x \<noteq> p - 16 \<longrightarrow> mem t x = mem s x)"
proof -
  let ?s = "s\<lparr>liballoc_lock_var := True\<rparr>" and ?sz = "req_size + 32"
  have n: "unat ?sz = unat req_size + 32" using req by (subst unat_add_no_wrap) simp_all
  then have nz: "?sz \<noteq> 0" by (metis add_eq_0_iff_both_eq_0 unat_0 zero_neq_numeral)
  have u: "unat (ucast ?sz :: u32) = unat ?sz" using n req by (simp add: unsigned_ucast_eq take_bit_nat_eq_self)
  then have small: "unat (ucast ?sz :: u32) + 80 \<le> 65536" using n req by simp
  have sp: "same_pages s ?s" by (simp add: same_pages_def)
  have room': "region_room ?s pm (kernel_vma_context ?s) rs 16 a" using room by (simp add: region_room_cong [OF sp])
  have "maj = region_end ?s a" using maj(1) by (simp add: same_pages_cong [OF sp])
  from allocate_new_page_contract [OF room' small this maj(2)]
  obtain t0 where t0: "allocate_new_page (ucast ?sz) ?s = Some (maj, t0)"
    "majors t0 = (majors s)(maj := \<lparr>maj_prev = NULL, maj_next = NULL, maj_pages = 16, maj_size = 65536, maj_usage = 40, maj_first = NULL\<rparr>)"
    "l_bestBet t0 = NULL" "\<forall>x. untouched ?s pm x \<and> \<not> in_range a 4096 x \<longrightarrow> mem t0 x = mem ?s x" using heap(2) by auto
  define t1 where "t1 = t0\<lparr>l_memRoot := maj\<rparr>"
  have "majors t1 maj = \<lparr>maj_prev = NULL, maj_next = NULL, maj_pages = 16, maj_size = 65536, maj_usage = 40, maj_first = NULL\<rparr>"
    by (simp add: t1_def t0(2))
  note blk = empty_block(1) [OF this maj(2,3)] empty_block(2) [OF this maj(2,3), of ?sz]
  have blk2: "block_fit t1 ?sz maj [] = Some [(unat maj + 40, unat ?sz + 40)]" using n req by (intro blk(2)) simp
  have sz: "unat ?sz + 40 < 2 ^ 64" using n req by simp
  from kmalloc_loop_fit [OF blk(1) blk2 sz, of req_size False 0]
  obtain xs new ys bet where r: "[] = xs @ ys" "bet \<in> {l_bestBet t1, maj}"
    "[(unat maj + 40, unat ?sz + 40)] = map (area_of t1) xs @ (unat new, unat ?sz + 40) # map (area_of t1) ys"
    "kmalloc_loop req_size ?sz maj False 0 t1 = Some (ALIGN_ptr (new + 40)
      (insert_minor maj (last_or NULL xs) new (head_or NULL ys) req_size ?sz (t1\<lparr>l_bestBet := bet\<rparr>)))" by blast
  then have new: "unat new = unat maj + 40" and bet: "bet \<in> {NULL, maj}"
    and loop: "kmalloc_loop req_size ?sz maj False 0 t1 =
      Some (ALIGN_ptr (new + 40) (insert_minor maj NULL new NULL req_size ?sz (t1\<lparr>l_bestBet := bet\<rparr>)))"
    using t0(3) by (simp_all add: t1_def)
  have "unat (maj + 40) = unat maj + 40" using maj(3) by (subst unat_add_no_wrap) simp_all
  then have new40: "new = maj + 40" using new by (simp add: word_unat_eq_iff)
  let ?i = "insert_minor maj NULL new NULL req_size ?sz (t1\<lparr>l_bestBet := bet\<rparr>)"
  have "unat (new + 40) = unat new + 40" using new maj(3) by (subst unat_add_no_wrap) simp_all
  then have new2: "unat (new + 40) = unat maj + 80" "unat (new + 40) + 32 < 2 ^ 64" using new maj(3) by simp_all
  obtain p where p: "ALIGN_ptr (new + 40) ?i = (p, ?i\<lparr>mem := (mem ?i)(p - 16 := ucast (p - (new + 40)))\<rparr>)"
    "16 dvd unat p" "unat (new + 40) + 16 \<le> unat p" "unat p < unat (new + 40) + 32"
    by (rule ALIGN_ptr_user [OF new2(2)])
  define t where "t = liballoc_unlock (?i\<lparr>mem := (mem ?i)(p - 16 := ucast (p - (new + 40)))\<rparr>)"
  have run: "kmalloc req_size s = Some (p, t)"
  proof -
    have "kmalloc req_size s = kmalloc_sized req_size ?sz ?s"
      using heap(3) nz by (simp add: kmalloc_def liballoc_lock_def Let_def add.commute)
    also have "\<dots> = Some (p, t)"
      using heap(1) maj(2) t0(1,3) loop p(1) unfolding kmalloc_sized_def t_def t1_def by (simp add: Let_def)
    finally show ?thesis .
  qed
  have gap: "areas_ok (unat maj + 40) (block_end t1 maj) (map (area_of t1) [] @ (unat new, unat ?sz + 40) # map (area_of t1) [])"
    using new n req maj(3) by (simp add: block_end_def t1_def t0(2))
  have "block_ok ?i maj ([] @ new # [])"
    using insert_minor_block_ok(1) [of "t1\<lparr>l_bestBet := bet\<rparr>" maj "[]" "[]" new ?sz req_size] blk(1) gap
    by (simp add: block_end_def)
  then have "block_ok t maj [maj + 40]" by (simp add: t_def liballoc_unlock_def new40)
  then have "heap_wf t [(maj, [maj + 40])]"
    using maj(2) bet by (simp add: heap_wf_def t_def liballoc_unlock_def insert_minor_def t1_def t0(2))
  moreover have "block_end t maj = unat maj + 65536" "maj_pages (majors t maj) = 16" "\<not> liballoc_lock_var t"
    by (simp_all add: block_end_def t_def liballoc_unlock_def insert_minor_def t1_def t0(2) spinlock_release_def)
  moreover have "area_of t (maj + 40) = (unat maj + 40, unat req_size + 72)"
    using n u new by (simp add: area_of_def t_def liballoc_unlock_def insert_minor_def new40)
  moreover have "mem t (p - 16) = ucast (p - (maj + 80))"
    by (simp add: t_def liballoc_unlock_def new40 add.assoc)
  moreover have "mem t x = mem s x" if "untouched s pm x" "\<not> in_range a 4096 x" "x \<noteq> p - 16" for x
  proof -
    have "untouched ?s pm x" using that(1) by (simp add: same_pages_cong [OF sp])
    then have "mem t0 x = mem s x" using t0(4) that(2) by simp
    then show ?thesis using that(3) by (simp add: t_def liballoc_unlock_def insert_minor_def t1_def)
  qed
  moreover have "unat maj + 96 \<le> unat p" "unat p < unat maj + 112" using p(3,4) new2(1) by simp_all
  ultimately show ?thesis using run p(2) by (intro exI [of _ p] exI [of _ t]) simp
qed

text \<open>
  C9. The first allocation of an empty heap takes a block of sixteen pages from the region allocator and
  leaves a well-formed heap with that block and the one allocation in it.
\<close>

theorem kmalloc_first:
  assumes heap: "l_memRoot s = NULL" "l_bestBet s = NULL" "\<not> liballoc_lock_var s"
    and room: "region_room s pm (kernel_vma_context s) rs 16 a" and req: "unat req_size + 112 \<le> 65536"
    and maj: "maj = region_end s a" "maj \<noteq> NULL" "unat maj + 65536 < 2 ^ 64"
  shows "\<exists>p t. kmalloc req_size s = Some (p, t) \<and> heap_wf t [(maj, [maj + 40])] \<and> \<not> liballoc_lock_var t \<and>
    maj_pages (majors t maj) = 16 \<and> 16 dvd unat p \<and> unat maj + 96 \<le> unat p \<and> unat p + unat req_size \<le> block_end t maj"
proof -
  obtain p t where t: "kmalloc req_size s = Some (p, t)" "heap_wf t [(maj, [maj + 40])]" "\<not> liballoc_lock_var t" "maj_pages (majors t maj) = 16"
    "block_end t maj = unat maj + 65536" "16 dvd unat p" "unat maj + 96 \<le> unat p" "unat p < unat maj + 112"
    using kmalloc_first_contract [OF heap room req maj] by auto
  then show ?thesis using req by (intro exI [of _ p] exI [of _ t]) simp
qed

lemma boot_heap:
  "\<exists>(s :: heap_state) pm rs a. region_room s pm (kernel_vma_context s) rs 16 a \<and> region_end s a = 0x1000 \<and>
     (\<forall>v. virt_to_phys pm v s = 0) \<and> l_memRoot s = NULL \<and> l_bestBet s = NULL \<and> \<not> liballoc_lock_var s"
proof -
  obtain v :: heap_state and pm c root where v: "vma_wf v pm c [root]" "region_end v root = 0x1000"
    "length (free_pages v) = 12" "\<forall>f \<in> set (free_pages v). HIGHER_HALF v f \<noteq> NULL" "\<forall>w. virt_to_phys pm w v = 0"
    using boot_vma by blast
  have "free_pages v \<noteq> []" using v(3) by (auto simp del: length_free_pages)
  then have room: "region_room v pm c [root] 16 root" using v(1,3,4) by (simp add: region_room_def)
  define s where "s = v\<lparr>l_memRoot := NULL, l_bestBet := NULL, liballoc_lock_var := False, kernel_vma_context := c\<rparr>"
  have sp: "same_pages v s" by (simp add: same_pages_def s_def)
  have c: "kernel_vma_context s = c" by (simp add: s_def)
  have "region_room s pm (kernel_vma_context s) [root] 16 root" using room by (simp add: region_room_cong [OF sp] c)
  moreover have "region_end s root = 0x1000" "\<forall>w. virt_to_phys pm w s = 0"
    using v(2,5) by (simp_all add: same_pages_cong [OF sp])
  moreover have "l_memRoot s = NULL" "l_bestBet s = NULL" "\<not> liballoc_lock_var s" by (simp_all add: s_def)
  ultimately show ?thesis by blast
qed

theorem kmalloc_first_witness:
  "\<exists>(s :: heap_state) p t. kmalloc 100 s = Some (p, t) \<and> heap_wf t [(0x1000, [0x1028])] \<and> 16 dvd unat p"
proof -
  obtain s :: heap_state and pm rs a where s: "region_room s pm (kernel_vma_context s) rs 16 a" "region_end s a = 0x1000"
    "l_memRoot s = NULL" "l_bestBet s = NULL" "\<not> liballoc_lock_var s" using boot_heap by blast
  from kmalloc_first [OF s(3-5,1), where req_size = 100 and maj = "0x1000"] s(2) show ?thesis by fastforce
qed

text \<open>
  The region allocator is asked for a number of pages but maps a number of bytes: of a new heap block of
  up to 4096 pages only the first page is mapped, and every other page of the block translates as before.
\<close>

theorem heap_block_first_page:
  assumes "region_room s pm (kernel_vma_context s) rs (scast pages) a"
    and "0 < unat (scast pages :: u64)" and "unat (scast pages :: u64) \<le> 4096"
  shows "\<exists>t. liballoc_alloc pages s = Some (region_end s a, t) \<and> virt_to_phys pm (region_end s a) t \<in> set (free_pages s) \<and>
    (\<forall>w. \<not> same_page (region_end s a) w \<longrightarrow> virt_to_phys pm w t = virt_to_phys pm w s)"
  using liballoc_alloc_contract [OF assms] by blast

theorem heap_block_first_page_witness:
  "\<exists>(s :: heap_state) pm t. liballoc_alloc 16 s = Some (0x1000, t) \<and> virt_to_phys pm 0x1000 t \<in> set (free_pages s) \<and>
     virt_to_phys pm 0x2000 t = 0"
proof -
  obtain s :: heap_state and pm rs a where s: "region_room s pm (kernel_vma_context s) rs 16 a" "region_end s a = 0x1000"
    "\<forall>v. virt_to_phys pm v s = 0" using boot_heap by blast
  have "\<not> same_page 0x1000 0x2000" by (simp add: same_page_def pml1_idx_def)
  with heap_block_first_page [of s pm rs 16 a] s
  obtain t where "liballoc_alloc 16 s = Some (0x1000, t)" "virt_to_phys pm 0x1000 t \<in> set (free_pages s)"
    "virt_to_phys pm 0x2000 t = 0" by auto
  then show ?thesis by blast
qed

text \<open>A block that is full, at the end of the list: a new one is taken and used without looking at its size.\<close>

lemma kmalloc_loop_all_full:
  assumes "heap_wf s (B1 @ B2)" and "B2 \<noteq> []" and "\<And>b. major_room s b < sz + 40"
    and "\<And>b bet. \<exists>t. extend_major b sz (s\<lparr>l_bestBet := bet\<rparr>) = Some (maj, t) \<and> Q t"
    and maj: "maj \<noteq> NULL" "\<And>t. Q t \<Longrightarrow> maj_first (majors t maj) = NULL"
  shows "\<exists>t. Q t \<and> kmalloc_loop req_size sz (head_or NULL (map fst B2)) False best s = Some (place_empty maj req_size sz t)"
  using assms(1-4)
proof (induction B2 arbitrary: B1 s best)
  case (Cons B B2)
  obtain b ms where B: "B = (b, ms)" by fastforce
  have b: "b \<noteq> NULL" using Cons.prems(1) B heap_wf_block(3) [of s "B1 @ B # B2" b ms] by simp
  have nx: "maj_next (majors s b) = head_or NULL (map fst B2)" using heap_wf_next Cons.prems(1) B by blast
  define bet where "bet = (if best < major_room s b then b else l_bestBet s)"
  define best' where "best' = (if best < major_room s b then major_room s b else best)"
  have upd: "(if best < major_room s b then s\<lparr>l_bestBet := b\<rparr> else s) = s\<lparr>l_bestBet := bet\<rparr>" by (simp add: bet_def)
  show ?case
  proof (cases "B2 = []")
    case True
    obtain t where t: "extend_major b sz (s\<lparr>l_bestBet := bet\<rparr>) = Some (maj, t)" "Q t" using Cons.prems(4) by blast
    have "place_in_major maj req_size sz t = Some (Some (place_empty maj req_size sz t))"
      using maj(2) [OF t(2)] by (simp add: place_in_major_def)
    then have "kmalloc_loop req_size sz b False best s = Some (place_empty maj req_size sz t)"
      using b nx True Cons.prems(3) [of b] t(1) maj(1) by (subst kmalloc_loop.simps) (simp add: Let_def upd)
    then show ?thesis using t(2) B by auto
  next
    case False
    have "head_or NULL (map fst B2) \<noteq> NULL" using Cons.prems(1) heap_wf_head [of s "B1 @ [B]" B2] False by simp
    then have step: "kmalloc_loop req_size sz b False best s =
        kmalloc_loop req_size sz (head_or NULL (map fst B2)) False best' (s\<lparr>l_bestBet := bet\<rparr>)"
      using b nx Cons.prems(3) [of b] by (subst kmalloc_loop.simps) (simp add: Let_def upd best'_def)
    have "heap_wf (s\<lparr>l_bestBet := bet\<rparr>) ((B1 @ [B]) @ B2)"
      using Cons.prems(1) B by (intro heap_wf_bestBet) (auto simp: bet_def heap_wf_def)
    moreover have "major_room (s\<lparr>l_bestBet := bet\<rparr>) c < sz + 40" for c
      using Cons.prems(3) [of c] by (simp add: major_room_def)
    ultimately show ?thesis using Cons.IH [OF _ False, of "s\<lparr>l_bestBet := bet\<rparr>" "B1 @ [B]" best'] Cons.prems(4) step B by simp
  qed
qed simp

lemma kmalloc_sized_unstarted:
  assumes "l_memRoot s \<noteq> NULL" and "best = (if l_bestBet s \<noteq> NULL then major_room s (l_bestBet s) else 0)" and "\<not> sz + 40 < best"
  shows "kmalloc_sized req_size sz s = map_option (\<lambda>(p, t). (p, liballoc_unlock t)) (kmalloc_loop req_size sz (l_memRoot s) False best s)"
  using assms unfolding kmalloc_sized_def by (simp add: Let_def Option.map_conv_bind_option split_def comp_def)

text \<open>
  A request of four gigabytes or more is not refused: the size is cut to 32 bits when the new block is
  ordered, and the block is used without checking it, so the caller gets a pointer into a block of
  64 KiB although more than 4 GiB were asked for.
\<close>

theorem kmalloc_large_request:
  assumes wf: "heap_wf s Bs" "Bs \<noteq> []" and lock: "\<not> liballoc_lock_var s"
    and req: "2 ^ 32 \<le> unat req_size" "unat req_size + 72 < 2 ^ 64" "unat (ucast (req_size + 32) :: u32) + 80 \<le> 65536"
    and room: "region_room s pm (kernel_vma_context s) rs 16 a"
    and maj: "maj = region_end s a" "maj \<noteq> NULL" "unat maj + 65536 < 2 ^ 64"
  shows "\<exists>p t. kmalloc req_size s = Some (p, t) \<and> unat maj + 96 \<le> unat p \<and> unat p \<le> unat maj + 112 \<and>
    block_end t maj = unat maj + 65536"
proof -
  let ?s = "s\<lparr>liballoc_lock_var := True\<rparr>" and ?sz = "req_size + 32"
  have n: "unat ?sz = unat req_size + 32" "unat (?sz + 40) = unat req_size + 72"
    using req(2) by (simp_all add: unat_add_no_wrap add.assoc)
  then have nz: "?sz \<noteq> 0" by (metis add_eq_0_iff_both_eq_0 unat_0 zero_neq_numeral)
  have full: "major_room u b < ?sz + 40" for u :: "'a heap_state_scheme" and b
    using unat_u32_less [of "maj_size (majors u b) - maj_usage (majors u b)"] n(2) req(1)
    by (simp add: major_room_def word_less_nat_alt)
  define Q where "Q = (\<lambda>t :: 'a heap_state_scheme. maj_size (majors t maj) = 65536 \<and> maj_first (majors t maj) = NULL)"
  have ext: "\<exists>t. extend_major b ?sz (?s\<lparr>l_bestBet := bet\<rparr>) = Some (maj, t) \<and> Q t" for b bet
  proof -
    have sp: "same_pages s (?s\<lparr>l_bestBet := bet\<rparr>)" by (simp add: same_pages_def)
    have "region_room (?s\<lparr>l_bestBet := bet\<rparr>) pm (kernel_vma_context (?s\<lparr>l_bestBet := bet\<rparr>)) rs 16 a"
      "maj = region_end (?s\<lparr>l_bestBet := bet\<rparr>) a"
      using room maj(1) by (simp_all add: region_room_cong [OF sp] same_pages_cong [OF sp])
    from allocate_new_page_contract [OF this(1) req(3) this(2) maj(2)] show ?thesis
      using maj(2) by (auto simp: extend_major_def Let_def Q_def upd_maj_def)
  qed
  have wf': "heap_wf ?s ([] @ Bs)" using wf(1) by simp
  have "\<exists>t. Q t \<and> kmalloc_loop req_size ?sz (head_or NULL (map fst Bs)) False best ?s = Some (place_empty maj req_size ?sz t)" for best
    using maj(2) full ext by (intro kmalloc_loop_all_full [OF wf' wf(2)]) (simp_all add: Q_def)
  then obtain t0 where t0: "Q t0"
    "kmalloc_loop req_size ?sz (l_memRoot s) False (if l_bestBet s \<noteq> NULL then major_room s (l_bestBet s) else 0) ?s =
      Some (place_empty maj req_size ?sz t0)" using wf(1) by (auto simp: heap_wf_def)
  define best where "best = (if l_bestBet s \<noteq> NULL then major_room s (l_bestBet s) else 0)"
  then have best: "best = (if l_bestBet ?s \<noteq> NULL then major_room ?s (l_bestBet ?s) else 0)" by (simp add: major_room_def)
  have "l_memRoot ?s \<noteq> NULL" using heap_wf_head [of s "[]" Bs] wf by (simp add: heap_wf_def)
  moreover have "\<not> ?sz + 40 < best" using full [of s "l_bestBet s"] by (auto simp: best_def)
  ultimately have "kmalloc_sized req_size ?sz ?s = map_option (\<lambda>(p, t). (p, liballoc_unlock t)) (Some (place_empty maj req_size ?sz t0))"
    using kmalloc_sized_unstarted [OF _ best] t0(2) by (simp add: best_def)
  moreover have "kmalloc req_size s = kmalloc_sized req_size ?sz ?s"
    using lock nz by (simp add: kmalloc_def liballoc_lock_def Let_def add.commute)
  ultimately have run: "kmalloc req_size s = map_option (\<lambda>(p, t). (p, liballoc_unlock t)) (Some (place_empty maj req_size ?sz t0))"
    by simp
  have "unat (maj + 40 + 40) = unat maj + 80" using maj(3) by (simp add: add.assoc unat_add_no_wrap)
  then have e: "unat (maj + 40 + 40) + 32 < 2 ^ 64" "unat (maj + 40 + 40) = unat maj + 80" using maj(3) by simp_all
  let ?i = "insert_minor maj NULL (maj + 40) NULL req_size ?sz t0"
  obtain p where p: "place_empty maj req_size ?sz t0 = (p, ?i\<lparr>mem := (mem ?i)(p - 16 := ucast (p - (maj + 40 + 40)))\<rparr>)"
    "unat maj + 96 \<le> unat p" "unat p < unat maj + 112"
    unfolding place_empty_insert by (rule ALIGN_ptr_user [OF e(1), of ?i]) (use e(2) in simp)
  define u where "u = ?i\<lparr>mem := (mem ?i)(p - 16 := ucast (p - (maj + 40 + 40)))\<rparr>"
  have "majors u = majors ?i" by (simp add: u_def)
  then have "block_end (liballoc_unlock u) maj = unat maj + 65536"
    using t0(1) by (simp add: block_end_def liballoc_unlock_def insert_minor_def Q_def)
  then show ?thesis using run p unfolding u_def by auto
qed

theorem kmalloc_large_request_witness:
  "\<exists>(s :: heap_state) p t. kmalloc 0x100000000 s = Some (p, t) \<and> unat p \<le> 0x1070 \<and> block_end t 0x1000 = 0x11000"
proof -
  obtain s :: heap_state and pm rs a where s: "region_room s pm (kernel_vma_context s) rs 16 a" "region_end s a = 0x1000"
    using boot_heap by blast
  have sp: "same_pages s (small_heap s)" by (simp add: same_pages_def small_heap_def)
  have c: "kernel_vma_context (small_heap s) = kernel_vma_context s" by (simp add: small_heap_def)
  have room: "region_room (small_heap s) pm (kernel_vma_context (small_heap s)) rs 16 a" "0x1000 = region_end (small_heap s) a"
    using s by (simp_all add: region_room_cong [OF sp] same_pages_cong [OF sp] c)
  from kmalloc_large_request [OF small_heap_ok(1) _ small_heap_ok(2) _ _ _ room, where req_size = "0x100000000"]
  show ?thesis by fastforce
qed

end
