(* ===== verification/Alloc.thy ===== *)
theory Alloc
  imports Heap
begin

text \<open>
  The heap as its clients see it. The locale \<open>allocator\<close> is the contract of a memory allocator: which memory is not
  free, how much room is left for sure, and that an allocation gives memory that was free and leaves
  everything else alone. The kernel heap interprets it; copying a string to the heap is proved in it
  once, for \<open>strdup\<close> and the file system.
\<close>

section \<open>The contract\<close>

text \<open>A string all of whose bytes lie in memory that is not free.\<close>

definition string_at :: "memory \<Rightarrow> (u64 \<Rightarrow> bool) \<Rightarrow> u64 \<Rightarrow> u8 list \<Rightarrow> bool" where
  "string_at m taken a cs \<longleftrightarrow> cstr m a cs \<and> (\<forall>x. in_range a (Suc (length cs)) x \<longrightarrow> taken x)"

definition kept :: "memory \<Rightarrow> (u64 \<Rightarrow> bool) \<Rightarrow> memory \<Rightarrow> (u64 \<Rightarrow> bool) \<Rightarrow> bool" where
  "kept m taken m' taken' \<longleftrightarrow> (\<forall>x. taken x \<longrightarrow> taken' x \<and> m' x = m x)"

lemma kept_trans: "kept m p m1 p1 \<Longrightarrow> kept m1 p1 m2 p2 \<Longrightarrow> kept m p m2 p2"
  by (simp add: kept_def)

lemma string_at_kept: "string_at m p a cs \<Longrightarrow> kept m p m' p' \<Longrightarrow> string_at m' p' a cs"
  unfolding string_at_def kept_def by (auto intro: cstr_cong [of m])

locale allocator =
  fixes malloc :: "u64 \<Rightarrow> 's \<Rightarrow> (u64 \<times> 's) option"
    and free :: "u64 \<Rightarrow> 's \<Rightarrow> 's option"
    and inv :: "'s \<Rightarrow> 'g \<Rightarrow> nat \<Rightarrow> bool"
    and taken :: "'g \<Rightarrow> u64 \<Rightarrow> bool"
    and owns :: "'s \<Rightarrow> 'g \<Rightarrow> u64 \<Rightarrow> nat \<Rightarrow> 'g \<Rightarrow> bool"
    and bytes :: "'s \<Rightarrow> memory"
    and set_bytes :: "memory \<Rightarrow> 's \<Rightarrow> 's"
    and frame :: "'s \<Rightarrow> 's \<Rightarrow> bool"
  assumes malloc_ok: "inv s g n \<Longrightarrow> unat k + 72 \<le> n \<Longrightarrow>
      \<exists>p t g'. malloc k s = Some (p, t) \<and> inv t g' (n - (unat k + 72)) \<and> p \<noteq> NULL \<and> owns t g' p (unat k) g \<and>
        (\<forall>x. in_range p (unat k) x \<longrightarrow> \<not> taken g x) \<and> kept (bytes s) (taken g) (bytes t) (taken g') \<and> frame s t"
    and free_ok: "inv s g n \<Longrightarrow> owns s g p j h \<Longrightarrow> \<exists>t. free p s = Some t \<and> inv t h n \<and> bytes t = bytes s \<and> frame s t"
    and owns_taken: "owns s g p j h \<Longrightarrow> in_range p j x \<Longrightarrow> taken g x"
    and owns_set_bytes: "owns s g p j h \<Longrightarrow> (\<And>x. \<not> in_range p j x \<Longrightarrow> m x = bytes s x) \<Longrightarrow> owns (set_bytes m s) g p j h"
    and inv_bound: "inv s g n \<Longrightarrow> n < 2 ^ 64"
    and set_bytes_inv: "inv (set_bytes m s) g n = inv s g n"
    and set_bytes_bytes: "bytes (set_bytes m s) = m"
    and set_bytes_frame: "frame s t \<Longrightarrow> frame s (set_bytes m t)"
begin

lemma copy_string:
  assumes inv: "inv s g n" and str: "string_at (bytes s) (taken g) a cs" and n: "length cs + 73 \<le> n"
  shows "\<exists>p t g' m. malloc (of_nat (length cs) + 1) s = Some (p, t) \<and> p \<noteq> NULL \<and> strcpy (bytes t) p a = Some (m, p) \<and>
    inv (set_bytes m t) g' (n - (length cs + 73)) \<and> string_at m (taken g') p cs \<and>
    owns (set_bytes m t) g' p (Suc (length cs)) g \<and> kept (bytes s) (taken g) m (taken g') \<and>
    (\<forall>x. in_range p (Suc (length cs)) x \<longrightarrow> \<not> taken g x) \<and> frame s (set_bytes m t)"
proof -
  have k: "unat (of_nat (length cs) + 1 :: u64) = Suc (length cs)"
    using inv_bound [OF inv] n by (subst unat_add_no_wrap) simp_all
  have k73: "unat (of_nat (length cs) + 1 :: u64) + 72 = length cs + 73" using k by simp
  obtain p t g' where t: "malloc (of_nat (length cs) + 1) s = Some (p, t)" "inv t g' (n - (length cs + 73))" "p \<noteq> NULL"
    "owns t g' p (Suc (length cs)) g" "\<forall>x. in_range p (Suc (length cs)) x \<longrightarrow> \<not> taken g x"
    "kept (bytes s) (taken g) (bytes t) (taken g')" "frame s t"
    using malloc_ok [OF inv, of "of_nat (length cs) + 1"] n unfolding k73 unfolding k by blast
  have src: "string_at (bytes t) (taken g') a cs" using string_at_kept [OF str t(6)] .
  have dis: "disjoint_ranges p (Suc (length cs)) a (Suc (length cs))"
    using t(5) str by (auto simp: disjoint_ranges_def string_at_def)
  obtain m where m: "strcpy (bytes t) p a = Some (m, p)" "cstr m p cs"
    "\<And>x. \<not> in_range p (Suc (length cs)) x \<Longrightarrow> m x = bytes t x"
    using strcpy_cstr [OF _ dis] src by (auto simp: string_at_def)
  have "kept (bytes s) (taken g) m (taken g')" using t(5,6) m(3) unfolding kept_def by metis
  moreover have "string_at m (taken g') p cs" using m(2) owns_taken [OF t(4)] by (simp add: string_at_def)
  moreover have "owns (set_bytes m t) g' p (Suc (length cs)) g" using t(4) m(3) by (rule owns_set_bytes)
  ultimately show ?thesis using t m(1) by (auto simp: set_bytes_inv set_bytes_frame)
qed

end

section \<open>The kernel heap\<close>

text \<open>Where the last allocation of a block ends; behind it is one gap.\<close>

fun tail_end :: "nat \<Rightarrow> areas \<Rightarrow> nat" where
  "tail_end lo [] = lo"
| "tail_end lo ((a, k) # xs) = tail_end (a + k) xs"

lemma insert_first_tail_fits: "tail_end lo xs + n \<le> hi \<Longrightarrow> insert_first lo hi n xs \<noteq> None"
  by (induction lo xs rule: tail_end.induct) simp_all

lemma insert_first_tail: "insert_first lo hi n xs = Some ys \<Longrightarrow> areas_ok lo hi xs \<Longrightarrow> tail_end lo ys \<le> tail_end lo xs + n"
proof (induction lo hi n xs arbitrary: ys rule: insert_first.induct)
  case (2 lo hi n a k xs)
  then show ?case by (auto split: if_splits)
qed (auto split: if_splits)

text \<open>The abstract heap: of each block its two ends and its areas.\<close>

type_synonym heap_view = "(nat \<times> nat \<times> areas) list"

definition block_view :: "'a heap_state_scheme \<Rightarrow> u64 \<times> u64 list \<Rightarrow> nat \<times> nat \<times> areas" where
  "block_view s B = (unat (fst B), block_end s (fst B), map (area_of s) (snd B))"

definition view_room :: "heap_view \<Rightarrow> nat \<Rightarrow> bool" where
  "view_room g n \<longleftrightarrow> (\<exists>(lo, hi, as) \<in> set g. tail_end (lo + 40) as + n \<le> hi)"

definition heap_inv :: "'a heap_state_scheme \<Rightarrow> heap_view \<Rightarrow> nat \<Rightarrow> bool" where
  "heap_inv s g n \<longleftrightarrow> (\<exists>Bs. heap_wf s Bs \<and> g = map (block_view s) Bs) \<and> \<not> liballoc_lock_var s \<and> view_room g n \<and> n < 2 ^ 64"

text \<open>Memory that the heap will not hand out: outside its blocks, or inside an allocation.\<close>

definition heap_taken :: "heap_view \<Rightarrow> u64 \<Rightarrow> bool" where
  "heap_taken g x \<longleftrightarrow>
     (\<forall>(lo, hi, as) \<in> set g. \<not> (lo \<le> unat x \<and> unat x < hi)) \<or>
     (\<exists>(lo, hi, as) \<in> set g. \<exists>(a, k) \<in> set as. a \<le> unat x \<and> unat x < a + k)"

text \<open>Memory inside an allocation.\<close>

definition in_heap :: "heap_view \<Rightarrow> u64 \<Rightarrow> bool" where
  "in_heap g x \<longleftrightarrow> (\<exists>(lo, hi, as) \<in> set g. \<exists>(a, k) \<in> set as. a \<le> unat x \<and> unat x < a + k)"

lemma in_heapI: "(lo, hi, as) \<in> set g \<Longrightarrow> (a, k) \<in> set as \<Longrightarrow> a \<le> unat x \<Longrightarrow> unat x < a + k \<Longrightarrow> in_heap g x"
  unfolding in_heap_def by blast

lemma in_heap_taken: "in_heap g x \<Longrightarrow> heap_taken g x"
  by (simp add: in_heap_def heap_taken_def)

text \<open>A pointer that can be given back, with the bytes behind it and the heap that is left then.\<close>

definition heap_owns :: "'a heap_state_scheme \<Rightarrow> heap_view \<Rightarrow> u64 \<Rightarrow> nat \<Rightarrow> heap_view \<Rightarrow> bool" where
  "heap_owns s g p k h \<longleftrightarrow> (\<exists>B1 maj xs m ys B2. heap_wf s (B1 @ (maj, xs @ m # ys) # B2) \<and> xs @ ys \<noteq> [] \<and>
     g = map (block_view s) (B1 @ (maj, xs @ m # ys) # B2) \<and> h = map (block_view s) (B1 @ (maj, xs @ ys) # B2) \<and>
     unat m + 56 \<le> unat p \<and> unat p < unat m + 72 \<and> unat p + k \<le> unat m + 40 + unat (min_size (minors s m)) \<and>
     mem s (p - 16) = ucast (p - (m + 40)) \<and> 16 dvd unat p)"

text \<open>What allocation and release may change: the lists of the heap, its accounting, and memory.\<close>

definition heap_frame :: "'a heap_state_scheme \<Rightarrow> 'a heap_state_scheme \<Rightarrow> bool" where
  "heap_frame s t \<longleftrightarrow>
     (\<exists>mj mn b i m. t = s\<lparr>majors := mj, minors := mn, l_bestBet := b, l_inuse := i, mem := m\<rparr>)"

lemma heap_frame_refl [simp]: "heap_frame s s"
proof -
  have "s = s\<lparr>majors := majors s, minors := minors s, l_bestBet := l_bestBet s, l_inuse := l_inuse s, mem := mem s\<rparr>" by simp
  then show ?thesis unfolding heap_frame_def by blast
qed

lemma heap_frame_trans: "heap_frame s t \<Longrightarrow> heap_frame t u \<Longrightarrow> heap_frame s u"
  by (cases s) (auto simp: heap_frame_def)

text \<open>What the page allocator, the page tables and the scheduler keep in variables; allocations do not touch it.\<close>

definition kernel_core :: "'a sched_state_scheme \<Rightarrow> (u64 \<times> u64 \<times> u64 \<times> u64 \<times> u64) \<times> (u64 \<Rightarrow> process_t) \<times> u64 list \<times> u32 \<times> u32 \<times> u64" where
  "kernel_core s = ((hhdm_offset s, stack_pages s, stack_idx s, stack_max s, kernel_pagemap s),
     proc_mem s, processes s, process_count s, current_index s, pid_counter s)"

lemma heap_frame_core: "heap_frame s t \<Longrightarrow> kernel_core t = kernel_core s"
  by (auto simp: heap_frame_def kernel_core_def)

lemma heap_frame_mem: "heap_frame s t \<Longrightarrow> heap_frame s (t\<lparr>mem := m\<rparr>)"
  by (cases s) (auto simp: heap_frame_def)

lemma heap_frame_insert: "heap_frame s ((insert_minor maj prv new nxt k sz s)\<lparr>l_bestBet := b, mem := m\<rparr>)"
  by (cases s) (auto simp: heap_frame_def insert_minor_def)

lemma heap_frame_remove: "heap_frame s ((remove_minor maj prv m nxt s)\<lparr>l_bestBet := b\<rparr>)"
  by (cases s) (auto simp: heap_frame_def remove_minor_def)

lemma view_room_fits:
  assumes "view_room (map (block_view s) Bs) n" and "unat k + 72 \<le> n" and "unat k + 72 < 2 ^ 64"
  shows "\<exists>(maj, ms) \<in> set Bs. block_fit s (k + 32) maj ms \<noteq> None"
proof -
  have k: "unat (k + 32) + 40 = unat k + 72" using assms(3) by (simp add: unat_add_no_wrap)
  from assms(1) obtain maj ms where "(maj, ms) \<in> set Bs" "tail_end (unat maj + 40) (map (area_of s) ms) + n \<le> block_end s maj"
    by (auto simp: view_room_def block_view_def)
  moreover from this(2) assms(2) have "block_fit s (k + 32) maj ms \<noteq> None"
    unfolding block_fit_def k by (intro insert_first_tail_fits) simp
  ultimately show ?thesis by blast
qed

lemma tail_end_remove: "areas_ok lo hi (xs @ (a, k) # ys) \<Longrightarrow> tail_end lo (xs @ ys) \<le> tail_end lo (xs @ (a, k) # ys)"
proof (induction lo hi xs rule: areas_ok.induct)
  case (1 lo hi)
  then show ?case by (cases ys) auto
qed auto

lemma view_room_change:
  assumes "view_room (G1 @ (lo, hi, as) # G2) n" and "tail_end (lo + 40) as' + n' \<le> tail_end (lo + 40) as + n" and "n' \<le> n"
  shows "view_room (G1 @ (lo, hi, as') # G2) n'"
proof -
  from assms(1) obtain l h bs where b: "(l, h, bs) \<in> set (G1 @ (lo, hi, as) # G2)" "tail_end (l + 40) bs + n \<le> h"
    unfolding view_room_def by blast
  show ?thesis
  proof (cases "(l, h, bs) = (lo, hi, as)")
    case True
    then have "tail_end (lo + 40) as' + n' \<le> hi" using assms(2) b(2) by simp
    then show ?thesis unfolding view_room_def by (intro bexI [of _ "(lo, hi, as')"]) simp_all
  next
    case False
    then have "(l, h, bs) \<in> set (G1 @ (lo, hi, as') # G2)" using b(1) by auto
    moreover have "tail_end (l + 40) bs + n' \<le> h" using b(2) assms(3) by simp
    ultimately show ?thesis unfolding view_room_def by blast
  qed
qed

text \<open>What becomes taken when an area is put into a block of a heap.\<close>

lemma taken_insert:
  assumes apart: "\<forall>(l, h, bs) \<in> set (G1 @ (lo, hi, as @ cs) # G2). \<forall>(a, k) \<in> set bs. c + j \<le> a \<or> a + k \<le> c"
    and in_block: "lo \<le> c" "c + j \<le> hi"
  shows "c \<le> unat x \<Longrightarrow> unat x < c + j \<Longrightarrow> \<not> heap_taken (G1 @ (lo, hi, as @ cs) # G2) x"
    and "c \<le> unat x \<Longrightarrow> unat x < c + j \<Longrightarrow> heap_taken (G1 @ (lo, hi, as @ (c, j) # cs) # G2) x"
    and "heap_taken (G1 @ (lo, hi, as @ cs) # G2) x \<Longrightarrow> heap_taken (G1 @ (lo, hi, as @ (c, j) # cs) # G2) x"
proof -
  show "heap_taken (G1 @ (lo, hi, as @ (c, j) # cs) # G2) x" if "heap_taken (G1 @ (lo, hi, as @ cs) # G2) x"
    using that unfolding heap_taken_def by (auto; blast)
  assume x: "c \<le> unat x" "unat x < c + j"
  show "heap_taken (G1 @ (lo, hi, as @ (c, j) # cs) # G2) x" using x unfolding heap_taken_def by auto
  have "\<not> (a \<le> unat x \<and> unat x < a + k)" if "(l, h, bs) \<in> set (G1 @ (lo, hi, as @ cs) # G2)" "(a, k) \<in> set bs" for l h bs a k
    using apart that x by fastforce
  moreover have "(lo, hi, as @ cs) \<in> set (G1 @ (lo, hi, as @ cs) # G2)" "lo \<le> unat x" "unat x < hi" using x in_block by simp_all
  ultimately show "\<not> heap_taken (G1 @ (lo, hi, as @ cs) # G2) x" unfolding heap_taken_def by blast
qed

lemma heap_inv_bound: "heap_inv s g n \<Longrightarrow> n < 2 ^ 64"
  by (simp add: heap_inv_def)

text \<open>A well-formed heap whose blocks and areas are those of another state of which only one block changed.\<close>

lemma views_cong:
  assumes "\<And>b ns. (b, ns) \<in> set Bs \<Longrightarrow> block_end t b = block_end s b"
    and "\<And>b ns m. (b, ns) \<in> set Bs \<Longrightarrow> m \<in> set ns \<Longrightarrow> area_of t m = area_of s m"
  shows "map (block_view t) Bs = map (block_view s) Bs"
  using assms by (auto simp: block_view_def)

lemma kmalloc_allocates:
  assumes inv: "heap_inv s g n" and k: "unat k + 72 \<le> n"
  shows "\<exists>p t g'. kmalloc k s = Some (p, t) \<and> heap_inv t g' (n - (unat k + 72)) \<and> p \<noteq> NULL \<and>
    heap_owns t g' p (unat k) g \<and> (\<forall>x. in_range p (unat k) x \<longrightarrow> \<not> heap_taken g x) \<and>
    kept (mem s) (heap_taken g) (mem t) (heap_taken g') \<and> heap_frame s t"
proof -
  obtain Bs where wf: "heap_wf s Bs" and g: "g = map (block_view s) Bs" and lock: "\<not> liballoc_lock_var s"
    and room: "view_room g n" using inv by (auto simp: heap_inv_def)
  have k64: "unat k + 72 < 2 ^ 64" using heap_inv_bound [OF inv] k by simp
  obtain B1 maj xs new ys B2 p t bet where c: "Bs = B1 @ (maj, xs @ ys) # B2" "kmalloc k s = Some (p, t)"
    "heap_wf t (B1 @ (maj, xs @ new # ys) # B2)" "\<not> liballoc_lock_var t"
    "block_fit s (k + 32) maj (xs @ ys) = Some (map (area_of t) (xs @ new # ys))"
    "map (area_of t) (xs @ new # ys) = map (area_of s) xs @ (unat new, unat k + 72) # map (area_of s) ys"
    "unat new + 56 \<le> unat p" "unat p < unat new + 72" and dvd: "16 dvd unat p"
    and t: "t = (insert_minor maj (last_or NULL xs) new (head_or NULL ys) k (k + 32) s)
      \<lparr>l_bestBet := bet, mem := (mem s)(p - 16 := ucast (p - (new + 40)))\<rparr>"
    using kmalloc_contract [OF wf lock k64 view_room_fits [OF room [unfolded g] k k64]] by blast
  let ?as = "map (area_of s) xs" and ?cs = "map (area_of s) ys" and ?a = "(unat new, unat k + 72)"
  let ?G1 = "map (block_view s) B1" and ?G2 = "map (block_view s) B2" and ?lo = "unat maj" and ?hi = "block_end s maj"
  let ?g = "?G1 @ (?lo, ?hi, ?as @ ?a # ?cs) # ?G2"
  have ok: "block_ok s maj (xs @ ys)" using wf c(1) by (auto simp: heap_wf_def)
  note gap = block_fit_gap [OF ok c(5), unfolded c(6)]
  note ap = new_area_apart [OF wf [unfolded c(1)] gap]
  have ends: "block_end t = block_end s" by (simp add: t block_end_def insert_minor_def fun_eq_iff)
  have old: "area_of t m = area_of s m" if "(b, ns) \<in> set Bs" "m \<in> set ns" for b ns m
  proof -
    have "m \<noteq> new" using ap [of b ns m] that c(1) by auto
    then show ?thesis by (simp add: t insert_minor_area)
  qed
  have gs: "g = ?G1 @ (?lo, ?hi, ?as @ ?cs) # ?G2" unfolding g c(1) by (simp add: block_view_def)
  have "map (block_view t) (B1 @ B2) = map (block_view s) (B1 @ B2)"
    using old c(1) ends by (intro views_cong) auto
  then have G: "map (block_view t) B1 = ?G1" "map (block_view t) B2 = ?G2" by simp_all
  have gt: "?g = map (block_view t) (B1 @ (maj, xs @ new # ys) # B2)"
    using c(6) G by (simp add: block_view_def ends)
  have gt': "g = map (block_view t) (B1 @ (maj, xs @ ys) # B2)"
    using views_cong [of Bs t s] old ends unfolding g c(1) by simp
  have k40: "unat (k + 32) + 40 = unat k + 72" using k64 by (simp add: unat_add_no_wrap)
  have "view_room ?g (n - (unat k + 72))"
  proof (rule view_room_change [OF room [unfolded gs]])
    have "areas_ok (?lo + 40) ?hi (map (area_of s) (xs @ ys))" using ok by (simp add: block_ok_def)
    from insert_first_tail [OF c(5) [unfolded c(6) block_fit_def k40] this]
    show "tail_end (?lo + 40) (?as @ ?a # ?cs) + (n - (unat k + 72)) \<le> tail_end (?lo + 40) (?as @ ?cs) + n"
      using k by simp
  qed simp
  moreover have "\<exists>Bs. heap_wf t Bs \<and> ?g = map (block_view t) Bs" using c(3) gt by blast
  moreover have "n - (unat k + 72) < 2 ^ 64" using heap_inv_bound [OF inv] by simp
  ultimately have inv': "heap_inv t ?g (n - (unat k + 72))" using c(4) unfolding heap_inv_def by blast
  have in_block: "?lo \<le> unat new" "unat new + (unat k + 72) \<le> ?hi" using gap by (auto simp: areas_ok_append dest!: areas_ok_le)
  have "\<And>l h bs a j. (l, h, bs) \<in> set (?G1 @ (?lo, ?hi, ?as @ ?cs) # ?G2) \<Longrightarrow> (a, j) \<in> set bs \<Longrightarrow>
    unat new + (unat k + 72) \<le> a \<or> a + j \<le> unat new"
  proof -
    fix l h bs a j
    assume m: "(l, h, bs) \<in> set (?G1 @ (?lo, ?hi, ?as @ ?cs) # ?G2)" "(a, j) \<in> set bs"
    from m [folded gs] obtain b ns v where "(b, ns) \<in> set Bs" "v \<in> set ns" "(a, j) = area_of s v"
      unfolding g by (auto simp: block_view_def)
    then show "unat new + (unat k + 72) \<le> a \<or> a + j \<le> unat new" using ap [of b ns v] c(1) by (auto simp: area_of_def)
  qed
  then have "\<forall>(l, h, bs) \<in> set (?G1 @ (?lo, ?hi, ?as @ ?cs) # ?G2). \<forall>(a, j) \<in> set bs.
    unat new + (unat k + 72) \<le> a \<or> a + j \<le> unat new" by blast
  note tk = taken_insert [OF this in_block]
  have b64: "?hi < 2 ^ 64" using ok by (simp add: block_ok_def)
  have user: "\<not> heap_taken g x" if "in_range p (unat k) x" for x
  proof -
    have "unat p \<le> unat x \<and> unat x < unat p + unat k" using that c(8) in_block b64 by (simp add: in_range_nat)
    then show ?thesis using tk(1) [where x = x] c(7,8) unfolding gs by simp
  qed
  have "unat (p - 16) = unat p - 16" using c(7) by (simp add: unat_diff_le word_le_nat_alt)
  then have mark: "\<not> heap_taken g (p - 16)" using tk(1) [where x = "p - 16"] c(7,8) unfolding gs by simp
  have "kept (mem s) (heap_taken g) (mem t) (heap_taken ?g)" unfolding kept_def
  proof (intro allI impI)
    fix x
    assume x: "heap_taken g x"
    then show "heap_taken ?g x \<and> mem t x = mem s x" using tk(3) [where x = x] mark gs by (auto simp: t)
  qed
  moreover have "heap_owns t ?g p (unat k) g"
  proof -
    have "xs @ ys \<noteq> []" using wf c(1) by (auto simp: heap_wf_def)
    moreover have "unat (min_size (minors t new)) = unat k + 32" using arg_cong [OF c(6), of "\<lambda>l. l ! length xs"]
      by (simp add: nth_append area_of_def [of t new])
    then have "unat p + unat k \<le> unat new + 40 + unat (min_size (minors t new))" using c(8) by simp
    moreover have "mem t (p - 16) = ucast (p - (new + 40))" by (simp add: t)
    ultimately show ?thesis using c(3,7,8) dvd gt gt' unfolding heap_owns_def by blast
  qed
  moreover have "heap_frame s t" unfolding t by (rule heap_frame_insert)
  moreover have "p \<noteq> NULL" using c(7) by auto
  ultimately show ?thesis using c(2) inv' user by blast
qed

lemma heap_owns_in_heap:
  assumes own: "heap_owns s g p j h" and x: "in_range p j x"
  shows "in_heap g x"
proof -
  obtain B1 maj xs m ys B2 where o: "heap_wf s (B1 @ (maj, xs @ m # ys) # B2)"
    "g = map (block_view s) (B1 @ (maj, xs @ m # ys) # B2)"
    "unat m + 56 \<le> unat p" "unat p + j \<le> unat m + 40 + unat (min_size (minors s m))"
    using own by (auto simp: heap_owns_def)
  have ok: "block_ok s maj (xs @ m # ys)" using o(1) by (auto simp: heap_wf_def)
  have "unat p + j \<le> 2 ^ 64" using o(4) block_ok_member(3) [OF ok, of m] ok by (simp add: block_ok_def)
  then have "unat m \<le> unat x" "unat x < unat m + (40 + unat (min_size (minors s m)))" using x o(3,4) by (simp_all add: in_range_nat)
  moreover have "area_of s m = (unat m, 40 + unat (min_size (minors s m)))" by (simp add: area_of_def)
  ultimately show ?thesis unfolding in_heap_def o(2) by (auto simp: block_view_def)
qed

lemma heap_owns_taken: "heap_owns s g p j h \<Longrightarrow> in_range p j x \<Longrightarrow> heap_taken g x"
  by (rule in_heap_taken [OF heap_owns_in_heap])

lemma heap_owns_set_mem:
  assumes own: "heap_owns s g p j h" and m: "\<And>x. \<not> in_range p j x \<Longrightarrow> m x = mem s x"
  shows "heap_owns (s\<lparr>mem := m\<rparr>) g p j h"
proof -
  obtain B1 maj xs a ys B2 where o: "heap_wf s (B1 @ (maj, xs @ a # ys) # B2)" "xs @ ys \<noteq> []"
    "g = map (block_view s) (B1 @ (maj, xs @ a # ys) # B2)" "h = map (block_view s) (B1 @ (maj, xs @ ys) # B2)"
    "unat a + 56 \<le> unat p" "unat p < unat a + 72" "unat p + j \<le> unat a + 40 + unat (min_size (minors s a))"
    "mem s (p - 16) = ucast (p - (a + 40))" "16 dvd unat p"
    using own unfolding heap_owns_def by blast
  have ok: "block_ok s maj (xs @ a # ys)" using o(1) by (auto simp: heap_wf_def)
  have "unat p + j \<le> 2 ^ 64" using o(7) block_ok_member(3) [OF ok, of a] ok by (simp add: block_ok_def)
  moreover have "unat (p - 16) = unat p - 16" using o(5) by (simp add: unat_diff_le word_le_nat_alt)
  ultimately have "\<not> in_range p j (p - 16)" using o(5) by (simp add: in_range_nat)
  then have "m (p - 16) = ucast (p - (a + 40))" using m o(8) by simp
  moreover have "block_view (s\<lparr>mem := m\<rparr>) = block_view s" by (simp add: block_view_def fun_eq_iff block_end_def)
  ultimately have "heap_wf (s\<lparr>mem := m\<rparr>) (B1 @ (maj, xs @ a # ys) # B2) \<and> xs @ ys \<noteq> [] \<and>
     g = map (block_view (s\<lparr>mem := m\<rparr>)) (B1 @ (maj, xs @ a # ys) # B2) \<and> h = map (block_view (s\<lparr>mem := m\<rparr>)) (B1 @ (maj, xs @ ys) # B2) \<and>
     unat a + 56 \<le> unat p \<and> unat p < unat a + 72 \<and> unat p + j \<le> unat a + 40 + unat (min_size (minors (s\<lparr>mem := m\<rparr>) a)) \<and>
     mem (s\<lparr>mem := m\<rparr>) (p - 16) = ucast (p - (a + 40)) \<and> 16 dvd unat p" using o by simp
  then show ?thesis unfolding heap_owns_def by blast
qed

lemma kfree_releases:
  assumes inv: "heap_inv s g n" and own: "heap_owns s g p j h"
  shows "\<exists>t. kfree p s = Some t \<and> heap_inv t h n \<and> mem t = mem s \<and> heap_frame s t"
proof -
  obtain B1 maj xs a ys B2 where o: "heap_wf s (B1 @ (maj, xs @ a # ys) # B2)" "xs @ ys \<noteq> []"
    "g = map (block_view s) (B1 @ (maj, xs @ a # ys) # B2)" "h = map (block_view s) (B1 @ (maj, xs @ ys) # B2)"
    "unat a + 56 \<le> unat p" "unat p < unat a + 72" "unat p + j \<le> unat a + 40 + unat (min_size (minors s a))"
    "mem s (p - 16) = ucast (p - (a + 40))"
    using own unfolding heap_owns_def by blast
  have lock: "\<not> liballoc_lock_var s" and room: "view_room g n" and n: "n < 2 ^ 64" using inv by (simp_all add: heap_inv_def)
  have ok: "block_ok s maj (xs @ a # ys)" using o(1) by (auto simp: heap_wf_def)
  have a40: "unat (a + 40) = unat a + 40"
    using block_ok_member(3) [OF ok, of a] ok by (subst unat_add_no_wrap) (auto simp: block_ok_def)
  have p0: "p \<noteq> NULL" using o(5) by auto
  have "UNALIGN p s = a + 40" using o(5,6,8) a40 by (intro UNALIGN_ALIGN) simp_all
  from kfree_contract [OF o(1,2) lock p0 this]
  obtain t bet where t: "kfree p s = Some t" "heap_wf t (B1 @ (maj, xs @ ys) # B2)" "\<not> liballoc_lock_var t"
    "t = (remove_minor maj (last_or NULL xs) a (head_or NULL ys) s)\<lparr>l_bestBet := bet\<rparr>" by blast
  have "area_of t = area_of s" using remove_minor_block_ok(2) [OF ok] by (simp add: t(4) fun_eq_iff)
  moreover have "block_end t = block_end s" by (simp add: t(4) block_end_def remove_minor_def fun_eq_iff)
  ultimately have bv: "block_view t = block_view s" by (simp add: block_view_def fun_eq_iff)
  have "view_room h n"
  proof -
    have ar: "areas_ok (unat maj + 40) (block_end s maj)
        (map (area_of s) xs @ (unat a, 40 + unat (min_size (minors s a))) # map (area_of s) ys)"
      using ok by (simp add: block_ok_def area_of_def [of s a])
    have "view_room (map (block_view s) B1 @ (unat maj, block_end s maj, map (area_of s) xs @
        (unat a, 40 + unat (min_size (minors s a))) # map (area_of s) ys) # map (block_view s) B2) n"
      using room unfolding o(3) by (simp add: block_view_def area_of_def [of s a])
    from view_room_change [OF this, of "map (area_of s) xs @ map (area_of s) ys" n] tail_end_remove [OF ar]
    show ?thesis unfolding o(4) by (simp add: block_view_def)
  qed
  then have "heap_inv t h n" using t(2,3) n unfolding heap_inv_def bv o(4) by blast
  moreover have "mem t = mem s" by (simp add: t(4) remove_minor_def)
  moreover have "heap_frame s t" unfolding t(4) by (rule heap_frame_remove)
  ultimately show ?thesis using t(1) by blast
qed

interpretation kheap: allocator kmalloc kfree heap_inv heap_taken heap_owns mem "\<lambda>m s. s\<lparr>mem := m\<rparr>" heap_frame
proof
  fix s t :: "'a heap_state_scheme" and g h n k m p j x
  show "heap_inv s g n \<Longrightarrow> unat k + 72 \<le> n \<Longrightarrow>
      \<exists>p t g'. kmalloc k s = Some (p, t) \<and> heap_inv t g' (n - (unat k + 72)) \<and> p \<noteq> NULL \<and> heap_owns t g' p (unat k) g \<and>
        (\<forall>x. in_range p (unat k) x \<longrightarrow> \<not> heap_taken g x) \<and> kept (mem s) (heap_taken g) (mem t) (heap_taken g') \<and> heap_frame s t"
    by (rule kmalloc_allocates)
  show "heap_inv s g n \<Longrightarrow> heap_owns s g p j h \<Longrightarrow> \<exists>t. kfree p s = Some t \<and> heap_inv t h n \<and> mem t = mem s \<and> heap_frame s t"
    by (rule kfree_releases)
  show "heap_owns s g p j h \<Longrightarrow> in_range p j x \<Longrightarrow> heap_taken g x" by (rule heap_owns_taken)
  show "heap_owns s g p j h \<Longrightarrow> (\<And>x. \<not> in_range p j x \<Longrightarrow> m x = mem s x) \<Longrightarrow> heap_owns (s\<lparr>mem := m\<rparr>) g p j h"
    by (rule heap_owns_set_mem)
  show "heap_inv s g n \<Longrightarrow> n < 2 ^ 64" by (rule heap_inv_bound)
  show "heap_inv (s\<lparr>mem := m\<rparr>) g n = heap_inv s g n"
    by (simp add: heap_inv_def block_view_def [abs_def] block_end_def)
  show "mem (s\<lparr>mem := m\<rparr>) = m" by simp
  show "heap_frame s t \<Longrightarrow> heap_frame s (t\<lparr>mem := m\<rparr>)" by (rule heap_frame_mem)
qed

section \<open>Pointers\<close>

text \<open>
  A pointer to \<open>j\<close> bytes of an allocation, as far as the abstract heap and the marker in front of the bytes tell. In
  each allocation there is only one place for it.
\<close>

definition heap_ptr :: "heap_view \<Rightarrow> memory \<Rightarrow> u64 \<Rightarrow> nat \<Rightarrow> bool" where
  "heap_ptr g m p j \<longleftrightarrow> (\<exists>(lo, hi, as) \<in> set g. \<exists>(a, k) \<in> set as.
     a + 56 \<le> unat p \<and> unat p < a + 72 \<and> unat p + j \<le> a + k \<and> a + k < 2 ^ 64 \<and>
     m (p - 16) = ucast (p - (of_nat a + 40)) \<and> 16 dvd unat p)"

definition block_grows :: "nat \<times> nat \<times> areas \<Rightarrow> nat \<times> nat \<times> areas \<Rightarrow> bool" where
  "block_grows b b' \<longleftrightarrow> fst b = fst b' \<and> fst (snd b) = fst (snd b') \<and> set (snd (snd b)) \<subseteq> set (snd (snd b')) \<and>
     length (snd (snd b)) \<le> length (snd (snd b'))"

definition heap_kept :: "memory \<Rightarrow> heap_view \<Rightarrow> memory \<Rightarrow> heap_view \<Rightarrow> bool" where
  "heap_kept m g m' g' \<longleftrightarrow> list_all2 block_grows g g' \<and> (\<forall>x. in_heap g x \<longrightarrow> m' x = m x)"

lemma heap_kept_block:
  assumes "heap_kept m g m' g'"
  shows "(lo, hi, as) \<in> set g \<Longrightarrow> \<exists>as'. (lo, hi, as') \<in> set g' \<and> set as \<subseteq> set as'"
    and "(lo, hi, as') \<in> set g' \<Longrightarrow> \<exists>as. (lo, hi, as) \<in> set g \<and> length as \<le> length as'"
proof -
  have all: "list_all2 block_grows g g'" using assms by (simp add: heap_kept_def)
  show "\<exists>as'. (lo, hi, as') \<in> set g' \<and> set as \<subseteq> set as'" if "(lo, hi, as) \<in> set g"
    using all that by (induction rule: list_all2_induct) (auto simp: block_grows_def)
  show "\<exists>as. (lo, hi, as) \<in> set g \<and> length as \<le> length as'" if "(lo, hi, as') \<in> set g'"
    using all that by (induction rule: list_all2_induct) (auto simp: block_grows_def)
qed

lemma heap_ptrI:
  "(lo, hi, as) \<in> set g \<Longrightarrow> (a, k) \<in> set as \<Longrightarrow> a + 56 \<le> unat p \<Longrightarrow> unat p < a + 72 \<Longrightarrow> unat p + j \<le> a + k \<Longrightarrow>
   a + k < 2 ^ 64 \<Longrightarrow> m (p - 16) = ucast (p - (of_nat a + 40)) \<Longrightarrow> 16 dvd unat p \<Longrightarrow> heap_ptr g m p j"
  unfolding heap_ptr_def by blast

lemma heap_ptrE:
  assumes "heap_ptr g m p j"
  obtains lo hi as a k where "(lo, hi, as) \<in> set g" "(a, k) \<in> set as" "a + 56 \<le> unat p" "unat p < a + 72" "unat p + j \<le> a + k"
    "a + k < 2 ^ 64" "m (p - 16) = ucast (p - (of_nat a + 40))" "16 dvd unat p"
  using assms unfolding heap_ptr_def by blast

lemma heap_ptr_in_heap:
  assumes "heap_ptr g m p j" and "in_range p j x"
  shows "in_heap g x"
  using assms(1)
proof (rule heap_ptrE)
  fix lo hi as a k
  assume p: "(lo, hi, as) \<in> set g" "(a, k) \<in> set as" "a + 56 \<le> unat p" "unat p + j \<le> a + k" "a + k < 2 ^ 64"
  then have "unat p + j \<le> 2 ^ 64" by simp
  then show ?thesis using assms(2) p(3,4) by (intro in_heapI [OF p(1,2)]) (simp_all add: in_range_nat)
qed

lemma heap_ptr_less:
  assumes "heap_ptr g m p j" and "i \<le> j"
  shows "heap_ptr g m p i"
  using assms(1)
proof (rule heap_ptrE)
  fix lo hi as a k
  assume p: "(lo, hi, as) \<in> set g" "(a, k) \<in> set as" "a + 56 \<le> unat p" "unat p < a + 72" "unat p + j \<le> a + k"
    "a + k < 2 ^ 64" "m (p - 16) = ucast (p - (of_nat a + 40))" "16 dvd unat p"
  have "unat p + i \<le> a + k" using p(5) assms(2) by simp
  then show ?thesis using p(7) by (intro heap_ptrI [OF p(1-4) _ p(6) _ p(8)])
qed

lemma heap_ptr_nonnull: "heap_ptr g m p j \<Longrightarrow> p \<noteq> NULL"
  by (erule heap_ptrE) auto

text \<open>The byte in front of it that says how far it was moved to be aligned belongs to the allocation.\<close>

lemma heap_ptr_mark:
  assumes "heap_ptr g m p j"
  shows "in_heap g (p - 16)"
  using assms
proof (rule heap_ptrE)
  fix lo hi as a k
  assume p: "(lo, hi, as) \<in> set g" "(a, k) \<in> set as" "a + 56 \<le> unat p" "unat p + j \<le> a + k"
  have "unat (p - 16) = unat p - 16" using p(3) by (simp add: unat_diff_le word_le_nat_alt)
  then show ?thesis using p(3,4) by (intro in_heapI [OF p(1,2)]) simp_all
qed

lemma heap_ptr_kept:
  assumes "heap_ptr g m p j" and k: "heap_kept m g m' g'"
  shows "heap_ptr g' m' p j"
  using assms(1)
proof (rule heap_ptrE)
  fix lo hi as a n
  assume a: "(lo, hi, as) \<in> set g" "(a, n) \<in> set as" "a + 56 \<le> unat p" "unat p < a + 72"
    "unat p + j \<le> a + n" "a + n < 2 ^ 64" "m (p - 16) = ucast (p - (of_nat a + 40))" "16 dvd unat p"
  have m: "m' (p - 16) = m (p - 16)" using k heap_ptr_mark [OF assms(1)] by (simp add: heap_kept_def)
  from heap_kept_block(1) [OF k a(1)] obtain as' where g': "(lo, hi, as') \<in> set g'" "set as \<subseteq> set as'" by blast
  then show ?thesis using a(2) m a(7) by (intro heap_ptrI [OF g'(1) _ a(3-6) _ a(8)]) auto
qed

lemma heap_kept_in_heap:
  assumes "heap_kept m g m' g'" and "in_heap g x"
  shows "in_heap g' x"
proof -
  from assms(2) obtain lo hi as a k where a: "(lo, hi, as) \<in> set g" "(a, k) \<in> set as" "a \<le> unat x" "unat x < a + k"
    unfolding in_heap_def by blast
  from heap_kept_block(1) [OF assms(1) a(1)] obtain as' where "(lo, hi, as') \<in> set g'" "set as \<subseteq> set as'" by blast
  then show ?thesis using a by (intro in_heapI [of lo hi as']) auto
qed

lemma heap_kept_trans:
  assumes "heap_kept m g m1 g1" and "heap_kept m1 g1 m2 g2"
  shows "heap_kept m g m2 g2"
proof -
  have "list_all2 block_grows g g2"
  proof (rule list_all2_trans)
    show "list_all2 block_grows g g1" "list_all2 block_grows g1 g2" using assms by (simp_all add: heap_kept_def)
  qed (auto simp: block_grows_def)
  moreover have "m2 x = m x" if "in_heap g x" for x
    using assms that heap_kept_in_heap [OF assms(1) that] by (simp add: heap_kept_def)
  ultimately show ?thesis unfolding heap_kept_def by blast
qed

lemma block_grows_refl: "list_all2 block_grows g g"
  by (simp add: list_all2_same block_grows_def)

lemma heap_kept_refl [simp]: "heap_kept m g m g"
  by (simp add: heap_kept_def block_grows_refl)

lemma heap_kept_mem: "(\<And>x. in_heap g x \<Longrightarrow> m' x = m x) \<Longrightarrow> heap_kept m g m' g"
  by (simp add: heap_kept_def block_grows_refl)

text \<open>The number of allocations a block has at least.\<close>

definition spare :: "nat \<Rightarrow> heap_view \<Rightarrow> bool" where
  "spare k g \<longleftrightarrow> (\<forall>(lo, hi, as) \<in> set g. k \<le> length as)"

lemma spare_kept:
  assumes "heap_kept m g m' g'" and "spare k g"
  shows "spare k g'"
  unfolding spare_def
proof clarify
  fix lo hi as'
  assume "(lo, hi, as') \<in> set g'"
  from heap_kept_block(2) [OF assms(1) this] obtain as where "(lo, hi, as) \<in> set g" "length as \<le> length as'" by blast
  then show "k \<le> length as'" using assms(2) unfolding spare_def by fastforce
qed

lemma spare_mono: "spare k g \<Longrightarrow> j \<le> k \<Longrightarrow> spare j g"
  unfolding spare_def by fastforce

lemma heap_owns_ptr:
  assumes "heap_owns s g p j h"
  shows "heap_ptr g (mem s) p j"
proof -
  from assms obtain B1 maj xs a ys B2 where o: "heap_wf s (B1 @ (maj, xs @ a # ys) # B2)" "xs @ ys \<noteq> []"
    "g = map (block_view s) (B1 @ (maj, xs @ a # ys) # B2)" "h = map (block_view s) (B1 @ (maj, xs @ ys) # B2)"
    "unat a + 56 \<le> unat p" "unat p < unat a + 72" "unat p + j \<le> unat a + 40 + unat (min_size (minors s a))"
    "mem s (p - 16) = ucast (p - (a + 40))" "16 dvd unat p"
    unfolding heap_owns_def by blast
  have ok: "block_ok s maj (xs @ a # ys)" using o(1) by (auto simp: heap_wf_def)
  have "unat a + (40 + unat (min_size (minors s a))) < 2 ^ 64"
    using block_ok_member(3) [OF ok, of a] ok by (simp add: block_ok_def)
  moreover have b: "(unat maj, block_end s maj, map (area_of s) (xs @ a # ys)) \<in> set g" by (simp add: o(3) block_view_def)
  moreover have m: "(unat a, 40 + unat (min_size (minors s a))) \<in> set (map (area_of s) (xs @ a # ys))" by (simp add: area_of_def)
  ultimately show ?thesis using o(5-9) by (intro heap_ptrI [OF b m]) simp_all
qed

lemma heap_owns_kept:
  assumes "heap_owns t g' p j g" and "\<And>x. in_heap g x \<Longrightarrow> mem t x = m x"
  shows "heap_kept m g (mem t) g'"
proof -
  from assms(1) obtain B1 maj xs a ys B2 where "g' = map (block_view t) (B1 @ (maj, xs @ a # ys) # B2)"
    "g = map (block_view t) (B1 @ (maj, xs @ ys) # B2)" unfolding heap_owns_def by blast
  then have "list_all2 block_grows g g'"
    by (auto simp: list_all2_append list_all2_map1 list_all2_map2 list_all2_same block_grows_def block_view_def)
  then show ?thesis using assms(2) unfolding heap_kept_def by blast
qed

text \<open>
  A pointer can be given back as long as its block holds another allocation; every other pointer stays.
\<close>

lemma heap_ptr_owns:
  assumes inv: "heap_inv s g n" and "heap_ptr g (mem s) p j" and two: "spare 2 g"
  shows "\<exists>h. heap_owns s g p j h"
  using assms(2)
proof (rule heap_ptrE)
  fix lo hi as a k
  assume p: "(lo, hi, as) \<in> set g" "(a, k) \<in> set as" "a + 56 \<le> unat p" "unat p < a + 72" "unat p + j \<le> a + k"
    "a + k < 2 ^ 64" "mem s (p - 16) = ucast (p - (of_nat a + 40))" "16 dvd unat p"
  obtain Bs where wf: "heap_wf s Bs" and g: "g = map (block_view s) Bs" using inv by (auto simp: heap_inv_def)
  from p(1) g obtain maj ms where B: "(maj, ms) \<in> set Bs" "as = map (area_of s) ms" by (auto simp: block_view_def)
  then obtain B1 B2 where Bs: "Bs = B1 @ (maj, ms) # B2" by (meson split_list)
  from p(2) B(2) obtain m where m: "m \<in> set ms" "a = unat m" "k = 40 + unat (min_size (minors s m))" by (auto simp: area_of_def)
  then obtain xs ys where ms: "ms = xs @ m # ys" by (meson split_list)
  have "2 \<le> length ms" using two p(1) B(2) by (auto simp: spare_def)
  then have "xs @ ys \<noteq> []" using ms by auto
  then show ?thesis using wf g p(3-8) m(2,3) unfolding Bs ms heap_owns_def
    by (intro exI [of _ "map (block_view s) (B1 @ (maj, xs @ ys) # B2)"] exI [of _ B1] exI [of _ maj] exI [of _ xs] exI [of _ m]
      exI [of _ ys] exI [of _ B2]) simp
qed

lemma aligned_window:
  fixes a p q :: nat
  assumes "a \<le> p" "p < a + 16" "16 dvd p" "a \<le> q" "q < a + 16" "16 dvd q"
  shows "p = q"
proof -
  from assms(3,6) obtain u v where "p = 16 * u" "q = 16 * v" by (auto simp: dvd_def)
  then show ?thesis using assms(1,2,4,5) by simp
qed

lemma heap_owns_rest:
  assumes own: "heap_owns s g p j h" and "heap_ptr g m q i" and "q \<noteq> p"
  shows "heap_ptr h m q i"
  using assms(2)
proof (rule heap_ptrE)
  fix lo hi as a k
  assume q: "(lo, hi, as) \<in> set g" "(a, k) \<in> set as" "a + 56 \<le> unat q" "unat q < a + 72" "unat q + i \<le> a + k"
    "a + k < 2 ^ 64" "m (q - 16) = ucast (q - (of_nat a + 40))" "16 dvd unat q"
  obtain B1 maj xs b ys B2 where o: "g = map (block_view s) (B1 @ (maj, xs @ b # ys) # B2)" "h = map (block_view s) (B1 @ (maj, xs @ ys) # B2)"
    "unat b + 56 \<le> unat p" "unat p < unat b + 72" "16 dvd unat p"
    using own unfolding heap_owns_def by blast
  have "unat q \<noteq> unat p" using assms(3) by (simp add: word_unat_eq_iff)
  then have "a \<noteq> unat b" using aligned_window [of "a + 56" "unat p" "unat q"] o(3-5) q(3,4,8) by auto
  then have "\<exists>as'. (lo, hi, as') \<in> set h \<and> (a, k) \<in> set as'" using q(1,2) o(1,2)
    by (auto simp: block_view_def area_of_def [of s b])
  then show ?thesis using q(3-8) heap_ptrI by blast
qed

lemma heap_owns_spare:
  assumes "heap_owns s g p j h" and "spare (Suc k) g"
  shows "spare k h"
  unfolding spare_def
proof clarify
  fix lo hi as
  assume as: "(lo, hi, as) \<in> set h"
  obtain B1 maj xs b ys B2 where o: "g = map (block_view s) (B1 @ (maj, xs @ b # ys) # B2)" "h = map (block_view s) (B1 @ (maj, xs @ ys) # B2)"
    using assms(1) unfolding heap_owns_def by blast
  consider "(lo, hi, as) \<in> set g" | "as = map (area_of s) (xs @ ys)" "(lo, hi, map (area_of s) (xs @ b # ys)) \<in> set g"
    using o as by (auto simp: block_view_def)
  then show "k \<le> length as" using assms(2) unfolding spare_def by cases fastforce+
qed

lemma views_inj: "map (block_view t) Cs = map (block_view s) Bs \<Longrightarrow> Cs = Bs"
proof (induction Bs arbitrary: Cs)
  case (Cons B Bs)
  then obtain C Cs' where C: "Cs = C # Cs'" "block_view t C = block_view s B" "map (block_view t) Cs' = map (block_view s) Bs"
    by (auto simp: map_eq_Cons_conv)
  have area: "map (area_of t) ms = map (area_of s) ns \<Longrightarrow> ms = ns" for ms ns
    by (induction ns arbitrary: ms) (auto simp: map_eq_Cons_conv area_of_def word_unat_eq_iff)
  from C(2) have "fst C = fst B" "snd C = snd B" by (auto simp: block_view_def word_unat_eq_iff intro: area)
  then have "C = B" by (simp add: prod_eq_iff)
  then show ?case using C Cons.IH by simp
qed simp

text \<open>A pointer can be given back in every state with the same abstract heap.\<close>

lemma heap_owns_transfer:
  assumes own: "heap_owns s g p j h" and inv: "heap_inv t g n" and m: "mem t (p - 16) = mem s (p - 16)"
  shows "heap_owns t g p j h"
proof -
  obtain B1 maj xs a ys B2 where o: "heap_wf s (B1 @ (maj, xs @ a # ys) # B2)" "xs @ ys \<noteq> []"
    "g = map (block_view s) (B1 @ (maj, xs @ a # ys) # B2)" "h = map (block_view s) (B1 @ (maj, xs @ ys) # B2)"
    "unat a + 56 \<le> unat p" "unat p < unat a + 72" "unat p + j \<le> unat a + 40 + unat (min_size (minors s a))"
    "mem s (p - 16) = ucast (p - (a + 40))" "16 dvd unat p"
    using own unfolding heap_owns_def by blast
  obtain Bs where Bs: "heap_wf t Bs" "g = map (block_view t) Bs" using inv by (auto simp: heap_inv_def)
  have eq: "Bs = B1 @ (maj, xs @ a # ys) # B2" using views_inj [of t Bs s] Bs(2) o(3) by simp
  have v: "map (block_view t) (B1 @ (maj, xs @ a # ys) # B2) = map (block_view s) (B1 @ (maj, xs @ a # ys) # B2)"
    using Bs(2) o(3) eq by simp
  then have "map (area_of t) (xs @ a # ys) = map (area_of s) (xs @ a # ys)" by (simp add: block_view_def)
  then have sz: "unat (min_size (minors t a)) = unat (min_size (minors s a))" by (simp add: area_of_def)
  have h: "map (block_view t) (B1 @ (maj, xs @ ys) # B2) = map (block_view s) (B1 @ (maj, xs @ ys) # B2)"
    using v by (simp add: block_view_def)
  show ?thesis unfolding heap_owns_def
    using Bs(1) o(2) v o(3-9) h sz m unfolding eq
    by (intro exI [of _ B1] exI [of _ maj] exI [of _ xs] exI [of _ a] exI [of _ ys] exI [of _ B2] conjI) (simp_all add: Bs(2) [unfolded eq])
qed

text \<open>\<open>strdup\<close> is the copy of the contract.\<close>

lemma strdup_copies:
  assumes "heap_inv s g n" and "string_at (mem s) (heap_taken g) a cs" and "length cs + 73 \<le> n"
  shows "\<exists>p t g'. strdup a s = Some (p, t) \<and> p \<noteq> NULL \<and> heap_inv t g' (n - (length cs + 73)) \<and>
    string_at (mem t) (heap_taken g') p cs \<and> heap_owns t g' p (Suc (length cs)) g \<and>
    kept (mem s) (heap_taken g) (mem t) (heap_taken g') \<and>
    (\<forall>x. in_range p (Suc (length cs)) x \<longrightarrow> \<not> heap_taken g x) \<and> heap_frame s t"
proof -
  obtain p t g' m where c: "kmalloc (of_nat (length cs) + 1) s = Some (p, t)" "p \<noteq> NULL" "strcpy (mem t) p a = Some (m, p)"
    "heap_inv (t\<lparr>mem := m\<rparr>) g' (n - (length cs + 73))" "string_at m (heap_taken g') p cs"
    "heap_owns (t\<lparr>mem := m\<rparr>) g' p (Suc (length cs)) g" "kept (mem s) (heap_taken g) m (heap_taken g')"
    "\<forall>x. in_range p (Suc (length cs)) x \<longrightarrow> \<not> heap_taken g x" "heap_frame s (t\<lparr>mem := m\<rparr>)"
    using kheap.copy_string [OF assms] by blast
  have "strlen (mem s) a = Some (of_nat (length cs))" using assms(2) by (simp add: string_at_def strlen_cstr)
  then have "strdup a s = Some (p, t\<lparr>mem := m\<rparr>)" using c(1-3) by (simp add: strdup_def)
  then show ?thesis using c(2,4-9) by (intro exI [of _ p] exI [of _ "t\<lparr>mem := m\<rparr>"] exI [of _ g']) simp
qed

text \<open>The heap does not depend on the other variables of the kernel.\<close>

lemma heap_inv_cong:
  assumes "majors t = majors s" and "minors t = minors s" and "l_memRoot t = l_memRoot s" and "l_bestBet t = l_bestBet s"
    and "liballoc_lock_var t = liballoc_lock_var s"
  shows "heap_inv t g n = heap_inv s g n"
  using assms by (simp add: heap_inv_def heap_wf_def block_ok_def block_end_def area_of_def [abs_def] apart_def [abs_def]
    block_view_def [abs_def])

lemma heap_owns_cong:
  assumes "majors t = majors s" and "minors t = minors s" and "l_memRoot t = l_memRoot s" and "l_bestBet t = l_bestBet s"
    and "liballoc_lock_var t = liballoc_lock_var s" and "mem t = mem s"
  shows "heap_owns t g p j h = heap_owns s g p j h"
  using assms by (simp add: heap_owns_def heap_wf_def block_ok_def block_end_def area_of_def [abs_def] apart_def [abs_def]
    block_view_def [abs_def])

text \<open>The first allocation of an empty heap: the abstract heap that it leaves, and memory outside of the block.\<close>

lemma kmalloc_opens_heap:
  assumes heap: "l_memRoot s = NULL" "l_bestBet s = NULL" "\<not> liballoc_lock_var s"
    and room: "region_room s pm (kernel_vma_context s) rs 16 a" and k: "unat k + 112 \<le> 65536"
    and maj: "maj = region_end s a" "maj \<noteq> NULL" "unat maj + 65536 < 2 ^ 64"
    and g: "g = [(unat maj, unat maj + 65536, [(unat maj + 40, unat k + 72)])]"
  shows "\<exists>p t. kmalloc k s = Some (p, t) \<and> p \<noteq> NULL \<and> heap_inv t g (65424 - unat k) \<and> heap_ptr g (mem t) p (unat k) \<and>
    (\<forall>x. untouched s pm x \<and> \<not> in_range a 4096 x \<and> \<not> (unat maj \<le> unat x \<and> unat x < unat maj + 65536) \<longrightarrow> mem t x = mem s x)"
proof -
  obtain p t where t: "kmalloc k s = Some (p, t)" "heap_wf t [(maj, [maj + 40])]" "\<not> liballoc_lock_var t"
    "block_end t maj = unat maj + 65536" "area_of t (maj + 40) = (unat maj + 40, unat k + 72)" "16 dvd unat p" "unat maj + 96 \<le> unat p"
    "unat p < unat maj + 112" "mem t (p - 16) = ucast (p - (maj + 80))"
    "\<forall>x. untouched s pm x \<and> \<not> in_range a 4096 x \<and> x \<noteq> p - 16 \<longrightarrow> mem t x = mem s x"
    using kmalloc_first_contract [OF heap room k maj] by blast
  have "map (block_view t) [(maj, [maj + 40])] = g" using t(4,5) by (simp add: block_view_def g)
  moreover have "view_room g (65424 - unat k)" using k by (simp add: view_room_def g)
  ultimately have "heap_inv t g (65424 - unat k)" using t(2,3) unfolding heap_inv_def by auto
  moreover have "heap_ptr g (mem t) p (unat k)"
    using t(6-9) maj(3) k by (simp add: heap_ptr_def g add.assoc)
  moreover have "mem t x = mem s x" if "untouched s pm x" "\<not> in_range a 4096 x" "\<not> (unat maj \<le> unat x \<and> unat x < unat maj + 65536)" for x
  proof -
    have "unat (p - 16) = unat p - 16" using t(7) by (simp add: unat_diff_le word_le_nat_alt)
    then have "x \<noteq> p - 16" using that(3) t(7,8) k by (auto)
    then show ?thesis using that t(10) by blast
  qed
  moreover have "p \<noteq> NULL" using t(7) by auto
  ultimately show ?thesis using t(1) by blast
qed

end
