(* ===== verification/Vfs.thy ===== *)
theory Vfs
  imports Alloc
begin

text \<open>
  The virtual file system: \<^verbatim>\<open>kernel/src/dev/vfs.c\<close>. A vnode is a structure on the heap that points to its
  parent, its first child and its next sibling; its name is a string on the heap. Vnodes are kept in a store
  indexed by their addresses; names and file contents are bytes of memory, and every allocation and
  release goes through the modelled heap. Output parameters are results. The address the
  linker gives to a string literal is the argument \<open>lit\<close>; the formatter behind \<open>snprintf\<close> is third-party code
  and an argument, \<open>npf_s dst n str m\<close> being what it does for the format \<open>%s\<close>.
\<close>

section \<open>State\<close>

datatype vnode_type_t = VNODE_DIRECTORY | VNODE_FILE

abbreviation (input) VNODE_PERMS_OWNER_READ :: u32 where "VNODE_PERMS_OWNER_READ \<equiv> 0x001"
abbreviation (input) VNODE_PERMS_OWNER_WRITE :: u32 where "VNODE_PERMS_OWNER_WRITE \<equiv> 0x002"
abbreviation (input) VNODE_PERMS_OWNER_EXECUTE :: u32 where "VNODE_PERMS_OWNER_EXECUTE \<equiv> 0x004"
abbreviation (input) VNODE_PERMS_GROUP_READ :: u32 where "VNODE_PERMS_GROUP_READ \<equiv> 0x010"
abbreviation (input) VNODE_PERMS_GROUP_WRITE :: u32 where "VNODE_PERMS_GROUP_WRITE \<equiv> 0x020"
abbreviation (input) VNODE_PERMS_GROUP_EXECUTE :: u32 where "VNODE_PERMS_GROUP_EXECUTE \<equiv> 0x040"
abbreviation (input) VNODE_PERMS_OTHERS_READ :: u32 where "VNODE_PERMS_OTHERS_READ \<equiv> 0x100"
abbreviation (input) VNODE_PERMS_OTHERS_WRITE :: u32 where "VNODE_PERMS_OTHERS_WRITE \<equiv> 0x200"
abbreviation (input) VNODE_PERMS_OTHERS_EXECUTE :: u32 where "VNODE_PERMS_OTHERS_EXECUTE \<equiv> 0x400"

text \<open>Read, write and search by the owner, read and search by everybody else: \<open>rwxr-xr-x\<close>.\<close>

definition root_permissions :: u32 where
  "root_permissions =
     VNODE_PERMS_OWNER_READ OR VNODE_PERMS_OWNER_WRITE OR VNODE_PERMS_OWNER_EXECUTE OR
     VNODE_PERMS_GROUP_READ OR VNODE_PERMS_GROUP_EXECUTE OR
     VNODE_PERMS_OTHERS_READ OR VNODE_PERMS_OTHERS_EXECUTE"

record vnode =
  vn_parent :: u64
  vn_next :: u64
  vn_child :: u64
  vn_type :: vnode_type_t
  vn_permissions :: u32
  vn_name :: u64
  vn_size :: u64
  vn_creation_time :: u64
  vn_modification_time :: u64
  vn_uid :: i32
  vn_data :: u64

record vfs_state = heap_state +
  vnodes :: "u64 \<Rightarrow> vnode"
  g_vfs_root :: u64
  strtok_last :: u64

abbreviation (input) sizeof_vnode :: u64 where "sizeof_vnode \<equiv> 80"

definition upd_vn :: "u64 \<Rightarrow> (vnode \<Rightarrow> vnode) \<Rightarrow> 'a vfs_state_scheme \<Rightarrow> 'a vfs_state_scheme" where
  "upd_vn a f s = s\<lparr>vnodes := (vnodes s)(a := f (vnodes s a))\<rparr>"

section \<open>Creation and removal\<close>

definition vfs_init :: "(string \<Rightarrow> u64) \<Rightarrow> 'a vfs_state_scheme \<Rightarrow> (i32 \<times> 'a vfs_state_scheme) option" where
  "vfs_init lit s =
     do {
       (root, s) \<leftarrow> kmalloc sizeof_vnode s;
       let s = s\<lparr>g_vfs_root := root\<rparr>;
       if root = NULL then Some (1, s)
       else do {
         let s = upd_vn root (\<lambda>v. v\<lparr>vn_parent := NULL, vn_child := NULL, vn_next := NULL\<rparr>) s;
         (name, s) \<leftarrow> strdup (lit ''/'') s;
         let s = upd_vn root (\<lambda>v. v\<lparr>vn_name := name, vn_type := VNODE_DIRECTORY, vn_permissions := root_permissions,
                   vn_size := 0, vn_uid := 0, vn_data := NULL\<rparr>) s;
         let (time, s) = get_rtc_timestamp s;
         Some (0, upd_vn root (\<lambda>v. v\<lparr>vn_creation_time := time\<rparr>) s)
       }
     }"

text \<open>The last sibling, behind which a new node is linked.\<close>

partial_function (option) last_sibling :: "u64 \<Rightarrow> 'a vfs_state_scheme \<Rightarrow> u64 option" where
  "last_sibling current s =
     (if vn_next (vnodes s current) \<noteq> NULL then last_sibling (vn_next (vnodes s current)) s else Some current)"

definition link_child :: "u64 \<Rightarrow> u64 \<Rightarrow> 'a vfs_state_scheme \<Rightarrow> 'a vfs_state_scheme option" where
  "link_child parent node s =
     (if vn_child (vnodes s parent) = NULL then Some (upd_vn parent (\<lambda>v. v\<lparr>vn_child := node\<rparr>) s)
      else do { current \<leftarrow> last_sibling (vn_child (vnodes s parent)) s;
                Some (upd_vn current (\<lambda>v. v\<lparr>vn_next := node\<rparr>) s) })"

text \<open>The second result is what is stored through \<open>new_node\<close>, if anything.\<close>

definition vfs_create ::
  "u64 \<Rightarrow> u64 \<Rightarrow> vnode_type_t \<Rightarrow> u32 \<Rightarrow> u64 \<Rightarrow> 'a vfs_state_scheme \<Rightarrow> (i32 \<times> u64 option \<times> 'a vfs_state_scheme) option" where
  "vfs_create parent name type perms new_node s =
     (if parent = NULL \<or> name = NULL \<or> new_node = NULL then Some (1, None, s)
      else do {
        (node, s) \<leftarrow> kmalloc sizeof_vnode s;
        if node = NULL then Some (1, None, s)
        else do {
          let s = upd_vn node (\<lambda>v. v\<lparr>vn_parent := parent, vn_child := NULL, vn_next := NULL\<rparr>) s;
          (copy, s) \<leftarrow> strdup name s;
          let s = upd_vn node (\<lambda>v. v\<lparr>vn_name := copy\<rparr>) s;
          if copy = NULL then do { s \<leftarrow> kfree node s; Some (1, None, s) }
          else do {
            let s = upd_vn node (\<lambda>v. v\<lparr>vn_type := type, vn_permissions := perms, vn_size := 0, vn_uid := 0, vn_data := NULL\<rparr>) s;
            let (time, s) = get_rtc_timestamp s;
            let s = upd_vn node (\<lambda>v. v\<lparr>vn_creation_time := time\<rparr>) s;
            s \<leftarrow> link_child parent node s;
            Some (0, Some node, s)
          }
        }
      })"

text \<open>The search for the node to remove, with the sibling in front of it.\<close>

partial_function (option) find_child :: "u64 \<Rightarrow> u64 \<Rightarrow> u64 \<Rightarrow> 'a vfs_state_scheme \<Rightarrow> (u64 \<times> u64) option" where
  "find_child node prev curr' s =
     (if curr' = NULL \<or> curr' = node then Some (prev, curr')
      else find_child node curr' (vn_next (vnodes s curr')) s)"

definition vfs_remove :: "u64 \<Rightarrow> u64 \<Rightarrow> 'a vfs_state_scheme \<Rightarrow> (i32 \<times> 'a vfs_state_scheme) option" where
  "vfs_remove parent node s =
     (if parent = NULL \<or> node = NULL then Some (1, s)
      else do {
        (prev, curr') \<leftarrow> find_child node NULL (vn_child (vnodes s parent)) s;
        if curr' = NULL then Some (1, s)
        else do {
          let next = vn_next (vnodes s curr');
          let s = (if prev \<noteq> NULL then upd_vn prev (\<lambda>v. v\<lparr>vn_next := next\<rparr>) s
                   else upd_vn parent (\<lambda>v. v\<lparr>vn_child := next\<rparr>) s);
          s \<leftarrow> kfree (vn_name (vnodes s curr')) s;
          s \<leftarrow> kfree curr' s;
          Some (0, s)
        }
      })"

section \<open>Attributes and contents\<close>

definition vfs_chmod :: "u64 \<Rightarrow> u32 \<Rightarrow> 'a vfs_state_scheme \<Rightarrow> i32 \<times> 'a vfs_state_scheme" where
  "vfs_chmod node permissions s =
     (if node = NULL then (1, s) else (0, upd_vn node (\<lambda>v. v\<lparr>vn_permissions := permissions\<rparr>) s))"

definition vfs_chown :: "u64 \<Rightarrow> i32 \<Rightarrow> 'a vfs_state_scheme \<Rightarrow> i32 \<times> 'a vfs_state_scheme" where
  "vfs_chown node uid s =
     (if node = NULL then (1, s) else (0, upd_vn node (\<lambda>v. v\<lparr>vn_uid := uid\<rparr>) s))"

definition vfs_read :: "u64 \<Rightarrow> u32 \<Rightarrow> u32 \<Rightarrow> u64 \<Rightarrow> 'a vfs_state_scheme \<Rightarrow> i32 \<times> 'a vfs_state_scheme" where
  "vfs_read node offset sz buffer s =
     (if node = NULL \<or> buffer = NULL then (1, s)
      else let v = vnodes s node;
               sz = (if vn_size v < ucast (offset + sz) then ucast (vn_size v - ucast offset) else sz)
           in (sz, s\<lparr>mem := fst (memcpy (mem s) buffer (vn_data v + ucast offset) (ucast sz))\<rparr>))"

definition vfs_write :: "u64 \<Rightarrow> u32 \<Rightarrow> u32 \<Rightarrow> u64 \<Rightarrow> 'a vfs_state_scheme \<Rightarrow> (i32 \<times> 'a vfs_state_scheme) option" where
  "vfs_write node offset sz buffer s =
     (if node = NULL \<or> buffer = NULL then Some (1, s)
      else do {
        let new_size = offset + sz;
        (ok, s) \<leftarrow>
          (if vn_size (vnodes s node) < ucast new_size
           then do { (new_data, s) \<leftarrow> krealloc (vn_data (vnodes s node)) (ucast new_size) s;
                     Some (if new_data = NULL then (False, s)
                           else (True, upd_vn node (\<lambda>v. v\<lparr>vn_data := new_data, vn_size := ucast new_size\<rparr>) s)) }
           else Some (True, s));
        Some (if \<not> ok then (1, s)
              else (sz, s\<lparr>mem := fst (memcpy (mem s) (vn_data (vnodes s node) + ucast offset) buffer (ucast sz))\<rparr>))
      })"

section \<open>Paths\<close>

partial_function (option) search_siblings :: "u64 \<Rightarrow> u64 \<Rightarrow> 'a vfs_state_scheme \<Rightarrow> u64 option" where
  "search_siblings name curr' s =
     (if curr' = NULL then Some NULL
      else do { r \<leftarrow> strcmp (mem s) (vn_name (vnodes s curr')) name;
                if r = 0 then Some curr' else search_siblings name (vn_next (vnodes s curr')) s })"

definition vfs_search_node :: "u64 \<Rightarrow> u64 \<Rightarrow> 'a vfs_state_scheme \<Rightarrow> u64 option" where
  "vfs_search_node parent name s =
     (if parent = NULL \<or> name = NULL then Some NULL else search_siblings name (vn_child (vnodes s parent)) s)"

definition next_token :: "u64 \<Rightarrow> u64 \<Rightarrow> 'a vfs_state_scheme \<Rightarrow> (u64 \<times> 'a vfs_state_scheme) option" where
  "next_token str delim s =
     do { (token, m, saved) \<leftarrow> strtok (mem s) (strtok_last s) str delim;
          Some (token, s\<lparr>mem := m, strtok_last := saved\<rparr>) }"

text \<open>The loop returns the node that was reached, NULL if a name on the way does not exist.\<close>

partial_function (option) traverse_tokens ::
  "u64 \<Rightarrow> u64 \<Rightarrow> u64 \<Rightarrow> 'a vfs_state_scheme \<Rightarrow> (u64 \<times> 'a vfs_state_scheme) option" where
  "traverse_tokens delim node token s =
     (if token = NULL then Some (node, s)
      else do {
        node \<leftarrow> vfs_search_node node token s;
        if node = NULL then Some (NULL, s)
        else do { (token, s) \<leftarrow> next_token NULL delim s; traverse_tokens delim node token s }
      })"

definition vfs_traverse_path :: "(string \<Rightarrow> u64) \<Rightarrow> u64 \<Rightarrow> 'a vfs_state_scheme \<Rightarrow> (u64 \<times> 'a vfs_state_scheme) option" where
  "vfs_traverse_path lit path s =
     (if g_vfs_root s = NULL \<or> path = NULL then Some (NULL, s)
      else do {
        r \<leftarrow> strcmp (mem s) path (lit ''/'');
        if r = 0 then Some (g_vfs_root s, s)
        else do {
          (path_copy, s) \<leftarrow> strdup path s;
          if path_copy = NULL then Some (NULL, s)
          else do {
            (token, s) \<leftarrow> next_token path_copy (lit ''/'') s;
            (node, s) \<leftarrow> traverse_tokens (lit ''/'') (g_vfs_root s) token s;
            s \<leftarrow> kfree path_copy s;
            Some (node, s)
          }
        }
      })"

definition vfs_lookup :: "(string \<Rightarrow> u64) \<Rightarrow> u64 \<Rightarrow> 'a vfs_state_scheme \<Rightarrow> (u64 \<times> 'a vfs_state_scheme) option" where
  "vfs_lookup lit path s = vfs_traverse_path lit path s"

definition put_byte :: "u64 \<Rightarrow> u8 \<Rightarrow> 'a machine_scheme \<Rightarrow> 'a machine_scheme" where
  "put_byte a c s = s\<lparr>mem := (mem s)(a := c)\<rparr>"

definition vfs_lookup_parent :: "(string \<Rightarrow> u64) \<Rightarrow> u64 \<Rightarrow> 'a vfs_state_scheme \<Rightarrow> (u64 \<times> 'a vfs_state_scheme) option" where
  "vfs_lookup_parent lit path s =
     (if path = NULL then Some (NULL, s)
      else do {
        r \<leftarrow> strcmp (mem s) path (lit ''/'');
        if r = 0 then Some (NULL, s)
        else do {
          (path_copy, s) \<leftarrow> strdup path s;
          if path_copy = NULL then Some (NULL, s)
          else do {
            last_slash \<leftarrow> strrchr (mem s) path_copy 0x2F;
            (last_slash, s) \<leftarrow>
              (if last_slash = path_copy
               then do { let s = put_byte last_slash 0 s; last_slash \<leftarrow> strrchr (mem s) path_copy 0x2F; Some (last_slash, s) }
               else Some (last_slash, s));
            let s = (if last_slash \<noteq> NULL then put_byte last_slash 0 s else s);
            (parent_node, s) \<leftarrow> vfs_lookup lit path_copy s;
            s \<leftarrow> kfree path_copy s;
            Some (parent_node, s)
          }
        }
      })"

text \<open>The two loops over the ancestors in \<open>vfs_get_path\<close>: adding up the lengths, and printing the names.\<close>

partial_function (option) path_length_loop :: "u64 \<Rightarrow> u64 \<Rightarrow> 'a vfs_state_scheme \<Rightarrow> u64 option" where
  "path_length_loop current len s =
     (if current = NULL then Some len
      else do { n \<leftarrow> strlen (mem s) (vn_name (vnodes s current));
                path_length_loop (vn_parent (vnodes s current)) (len + (n + 1)) s })"

definition append_name ::
  "(u64 \<Rightarrow> u64 \<Rightarrow> u64 \<Rightarrow> memory \<Rightarrow> int \<times> memory) \<Rightarrow> u64 \<Rightarrow> u64 \<Rightarrow> u64 \<Rightarrow> 'a vfs_state_scheme \<Rightarrow> 'a vfs_state_scheme option" where
  "append_name npf_s path path_length name s =
     do { n \<leftarrow> strlen (mem s) path;
          (_, s) \<leftarrow> snprintf (npf_s (path + n) (path_length - n + 1) name) s;
          Some s }"

partial_function (option) path_names_loop ::
  "(u64 \<Rightarrow> u64 \<Rightarrow> u64 \<Rightarrow> memory \<Rightarrow> int \<times> memory) \<Rightarrow> u64 \<Rightarrow> u64 \<Rightarrow> u64 \<Rightarrow> 'a vfs_state_scheme \<Rightarrow> 'a vfs_state_scheme option" where
  "path_names_loop npf_s path path_length current s =
     (if current = NULL then Some s
      else do { s \<leftarrow> append_name npf_s path path_length (vn_name (vnodes s current)) s;
                path_names_loop npf_s path path_length (vn_parent (vnodes s current)) s })"

definition vfs_get_path ::
  "(u64 \<Rightarrow> u64 \<Rightarrow> u64 \<Rightarrow> memory \<Rightarrow> int \<times> memory) \<Rightarrow> u64 \<Rightarrow> 'a vfs_state_scheme \<Rightarrow> (u64 \<times> 'a vfs_state_scheme) option" where
  "vfs_get_path npf_s node s =
     (if node = NULL then Some (NULL, s)
      else do {
        n \<leftarrow> strlen (mem s) (vn_name (vnodes s node));
        path_length \<leftarrow> path_length_loop (vn_parent (vnodes s node)) n s;
        (path, s) \<leftarrow> kmalloc (path_length + 1) s;
        if path = NULL then Some (NULL, s)
        else do {
          s \<leftarrow> path_names_loop npf_s path path_length (vn_parent (vnodes s node)) (put_byte path 0 s);
          s \<leftarrow> append_name npf_s path path_length (vn_name (vnodes s node)) s;
          Some (path, s)
        }
      })"

section \<open>Listing\<close>

text \<open>One line of a listing: permission string, owner, size, time and the address of the name.\<close>

definition ls_perms :: "vnode \<Rightarrow> string" where
  "ls_perms v =
     (let bit = (\<lambda>b c. if vn_permissions v AND b \<noteq> 0 then c else CHR ''-'')
      in [if vn_type v = VNODE_DIRECTORY then CHR ''d'' else CHR ''-'',
          bit VNODE_PERMS_OWNER_READ (CHR ''r''), bit VNODE_PERMS_OWNER_WRITE (CHR ''w''), bit VNODE_PERMS_OWNER_EXECUTE (CHR ''x''),
          bit VNODE_PERMS_GROUP_READ (CHR ''r''), bit VNODE_PERMS_GROUP_WRITE (CHR ''w''), bit VNODE_PERMS_GROUP_EXECUTE (CHR ''x''),
          bit VNODE_PERMS_OTHERS_READ (CHR ''r''), bit VNODE_PERMS_OTHERS_WRITE (CHR ''w''), bit VNODE_PERMS_OTHERS_EXECUTE (CHR ''x'')])"

type_synonym ls_line = "string \<times> string \<times> u64 \<times> u64 list \<times> u64"

definition ls_line_of :: "vnode \<Rightarrow> ls_line" where
  "ls_line_of v =
     (ls_perms v, if vn_uid v = 0 then ''root'' else ''unkown'', vn_size v, timestamp_fields (vn_creation_time v), vn_name v)"

partial_function (option) ls_loop :: "u64 \<Rightarrow> 'a vfs_state_scheme \<Rightarrow> ls_line list option" where
  "ls_loop current s =
     (if current = NULL then Some []
      else do { ls \<leftarrow> ls_loop (vn_next (vnodes s current)) s; Some (ls_line_of (vnodes s current) # ls) })"

definition vfs_debug_ls ::
  "(u64 \<Rightarrow> u64 \<Rightarrow> u64 \<Rightarrow> memory \<Rightarrow> int \<times> memory) \<Rightarrow> u64 \<Rightarrow> 'a vfs_state_scheme \<Rightarrow> (ls_line list \<times> 'a vfs_state_scheme) option" where
  "vfs_debug_ls npf_s node s =
     (if node = NULL then Some ([], s)
      else do { (path, s) \<leftarrow> vfs_get_path npf_s node s;
                ls \<leftarrow> ls_loop (vn_child (vnodes s node)) s;
                Some (ls, s) })"

definition vfs_debug_read :: "u64 \<Rightarrow> 'a vfs_state_scheme \<Rightarrow> (u64 \<times> 'a vfs_state_scheme) option" where
  "vfs_debug_read node s =
     (if node = NULL then Some (NULL, s)
      else if vn_type (vnodes s node) \<noteq> VNODE_FILE then Some (NULL, s)
      else do {
        (buffer, s) \<leftarrow> kmalloc (vn_size (vnodes s node)) s;
        let (bytes_read, s) = vfs_read node 0 (ucast (vn_size (vnodes s node))) buffer s;
        Some (if 0 < (scast bytes_read :: u64) then buffer else NULL, s)
      })"

end
