(* ===== verification/VfsTree.thy ===== *)
theory VfsTree
  imports Vfs
begin

text \<open>
  The virtual file system as a tree. The vnodes that a directory links together are a list, \<open>vfs_tree\<close> relates
  the store of vnodes to the children and the name of every node, and \<open>vfs_paths\<close> to the map from paths to nodes
  that a user of the file system sees. Creation, removal and lookup are shown to implement
  insertion into this map, removal of a subtree, and application.
\<close>

section \<open>Lists of siblings\<close>

fun sibling_chain :: "'a vfs_state_scheme \<Rightarrow> u64 \<Rightarrow> u64 list \<Rightarrow> bool" where
  "sibling_chain s c [] \<longleftrightarrow> c = NULL"
| "sibling_chain s c (n # ns) \<longleftrightarrow> c = n \<and> n \<noteq> NULL \<and> sibling_chain s (vn_next (vnodes s n)) ns"

text \<open>The children of a directory.\<close>

abbreviation children :: "'a vfs_state_scheme \<Rightarrow> u64 \<Rightarrow> u64 list \<Rightarrow> bool" where
  "children s d ns \<equiv> sibling_chain s (vn_child (vnodes s d)) ns"

lemma sibling_chain_cong:
  "(\<And>n. n \<in> set ns \<Longrightarrow> vn_next (vnodes t n) = vn_next (vnodes s n)) \<Longrightarrow> sibling_chain t c ns = sibling_chain s c ns"
  by (induction ns arbitrary: c) auto

lemma sibling_chain_head: "sibling_chain s c ns \<Longrightarrow> c = head_or NULL ns"
  by (cases ns) auto

lemma sibling_chain_nonnull: "sibling_chain s c ns \<Longrightarrow> n \<in> set ns \<Longrightarrow> n \<noteq> NULL"
  by (induction ns arbitrary: c) auto

lemma sibling_chain_unique: "sibling_chain s c xs \<Longrightarrow> sibling_chain s c ys \<Longrightarrow> xs = ys"
  by (induction xs arbitrary: c ys) (case_tac ys; auto)+

lemma sibling_chain_distinct: "sibling_chain s c ns \<Longrightarrow> distinct ns"
proof -
  have suffix: "sibling_chain s c (xs @ ys) \<Longrightarrow> ys \<noteq> [] \<Longrightarrow> sibling_chain s (hd ys) ys" for c xs ys
    by (induction xs arbitrary: c) (cases ys; auto)+
  assume chain: "sibling_chain s c ns"
  then show "distinct ns"
  proof (induction ns arbitrary: c)
    case (Cons n ns)
    have "n \<notin> set ns"
    proof
      assume "n \<in> set ns"
      then obtain xs ys where ns: "ns = xs @ n # ys" by (meson split_list)
      have "sibling_chain s n (n # ns)" using Cons.prems by simp
      moreover have "sibling_chain s n (n # ys)"
        using suffix [of c "n # xs" "n # ys"] Cons.prems ns by simp
      ultimately show False using sibling_chain_unique [of s n "n # ns" "n # ys"] ns by (simp add: append_eq_Cons_conv)
    qed
    with Cons show ?case by auto
  qed simp
qed

lemma last_sibling_chain: "sibling_chain s c ns \<Longrightarrow> ns \<noteq> [] \<Longrightarrow> last_sibling c s = Some (last ns)"
proof (induction ns arbitrary: c)
  case (Cons n ns)
  show ?case
  proof (cases ns)
    case Nil
    with Cons.prems show ?thesis by (subst last_sibling.simps) simp
  next
    case (Cons k ks)
    then have "vn_next (vnodes s n) \<noteq> NULL" using Cons.prems by simp
    then show ?thesis using Cons.IH [of "vn_next (vnodes s n)"] Cons.prems Cons by (subst last_sibling.simps) simp
  qed
qed simp

lemma sibling_chain_append:
  assumes "sibling_chain s c ns" and "ns \<noteq> []" and "node \<notin> set ns" and "node \<noteq> NULL" and "vn_next (vnodes t node) = NULL"
    and "vn_next (vnodes t (last ns)) = node" and "\<And>n. n \<in> set ns \<Longrightarrow> n \<noteq> last ns \<Longrightarrow> vn_next (vnodes t n) = vn_next (vnodes s n)"
  shows "sibling_chain t c (ns @ [node])"
  using assms sibling_chain_distinct [OF assms(1)]
proof (induction ns arbitrary: c)
  case (Cons n ns)
  show ?case
  proof (cases ns)
    case Nil
    with Cons.prems show ?thesis by simp
  next
    case (Cons k ks)
    then have "n \<noteq> last ns" using Cons.prems by auto
    then show ?thesis using Cons.IH [of "vn_next (vnodes s n)"] Cons.prems Cons by auto
  qed
qed simp

text \<open>What becomes of the nodes when one is linked in behind the others.\<close>

lemma link_child_contract:
  assumes ch: "children s parent ns" and node: "node \<notin> set ns" "node \<noteq> parent" "node \<noteq> NULL" "vn_next (vnodes s node) = NULL"
  shows "\<exists>vs. link_child parent node s = Some (s\<lparr>vnodes := vs\<rparr>) \<and> children (s\<lparr>vnodes := vs\<rparr>) parent (ns @ [node]) \<and>
    (\<forall>v. v \<noteq> parent \<longrightarrow> vn_child (vs v) = vn_child (vnodes s v)) \<and>
    (\<forall>v. v \<notin> set ns \<longrightarrow> vn_next (vs v) = vn_next (vnodes s v)) \<and>
    (\<forall>v. vs v = (vnodes s v)\<lparr>vn_child := vn_child (vs v), vn_next := vn_next (vs v)\<rparr>)"
proof (cases "ns = []")
  case True
  then have "link_child parent node s = Some (upd_vn parent (\<lambda>v. v\<lparr>vn_child := node\<rparr>) s)"
    using ch by (simp add: link_child_def)
  then show ?thesis using True node
    by (intro exI [of _ "(vnodes s)(parent := (vnodes s parent)\<lparr>vn_child := node\<rparr>)"]) (simp add: upd_vn_def)
next
  case False
  have c0: "vn_child (vnodes s parent) \<noteq> NULL" using ch False by (cases ns) auto
  have run: "link_child parent node s = Some (upd_vn (last ns) (\<lambda>v. v\<lparr>vn_next := node\<rparr>) s)"
    using c0 last_sibling_chain [OF ch False] by (simp add: link_child_def)
  let ?t = "upd_vn (last ns) (\<lambda>v. v\<lparr>vn_next := node\<rparr>) s"
  have ln: "last ns \<noteq> node" using node(1) False by auto
  have "sibling_chain ?t (vn_child (vnodes s parent)) (ns @ [node])"
    using node ln by (intro sibling_chain_append [OF ch False]) (simp_all add: upd_vn_def)
  moreover have "vn_child (vnodes ?t parent) = vn_child (vnodes s parent)" by (simp add: upd_vn_def)
  ultimately show ?thesis using run False
    by (intro exI [of _ "(vnodes s)(last ns := (vnodes s (last ns))\<lparr>vn_next := node\<rparr>)"]) (simp add: upd_vn_def)
qed

section \<open>Creation\<close>

lemma rtc_timestamp_frame: "\<exists>b tr. snd (get_rtc_timestamp s) = s\<lparr>int_flag := b, io_trace := tr\<rparr>"
proof -
  have r: "\<exists>b tr. snd (read_register x u) = u\<lparr>int_flag := b, io_trace := tr\<rparr>" for x and u :: "'a rtc_state_scheme"
    by (cases u) (auto simp: read_register_def inb_def outb_def sti_def cli_def Let_def)
  have r': "\<exists>b' tr'. snd (read_register x (s\<lparr>int_flag := b, io_trace := tr\<rparr>)) = s\<lparr>int_flag := b', io_trace := tr'\<rparr>" for x b tr
    using r [of x "s\<lparr>int_flag := b, io_trace := tr\<rparr>"] by simp
  have s0: "s = s\<lparr>int_flag := int_flag s, io_trace := io_trace s\<rparr>" by simp
  show ?thesis unfolding get_rtc_timestamp_def Let_def split_def snd_conv by (metis r' s0)
qed

lemma heap_frame_vfs:
  assumes "heap_frame s t"
  shows "vnodes t = vnodes s" and "g_vfs_root t = g_vfs_root s" and "strtok_last t = strtok_last s"
    and "vfs_state.more t = vfs_state.more s"
  using assms by (auto simp: heap_frame_def)

lemma heap_inv_vfs [simp]:
  "heap_inv (s\<lparr>vnodes := vs\<rparr>) g n = heap_inv s g n" "heap_inv (s\<lparr>strtok_last := x\<rparr>) g n = heap_inv s g n"
  "heap_inv (s\<lparr>g_vfs_root := x\<rparr>) g n = heap_inv s g n"
  "heap_inv (s\<lparr>int_flag := b, io_trace := tr\<rparr>) g n = heap_inv s g n"
  "heap_inv (s\<lparr>mem := m\<rparr>) g n = heap_inv s g n"
  by (rule heap_inv_cong; simp)+

lemma heap_owns_vfs [simp]:
  "heap_owns (s\<lparr>vnodes := vs\<rparr>) g p j h = heap_owns s g p j h" "heap_owns (s\<lparr>strtok_last := x\<rparr>) g p j h = heap_owns s g p j h"
  "heap_owns (s\<lparr>g_vfs_root := x\<rparr>) g p j h = heap_owns s g p j h"
  by (rule heap_owns_cong; simp)+

lemma vfs_create_contract:
  assumes inv: "heap_inv s g n" and n: "length cs + 225 \<le> n" and args: "parent \<noteq> NULL" "name \<noteq> NULL" "new_node \<noteq> NULL"
    and name: "string_at (mem s) (heap_taken g) name cs"
    and ch: "children s parent ns" and nodes: "\<forall>v \<in> set (parent # ns). heap_taken g v"
  shows "\<exists>node t g' nm time. vfs_create parent name type perms new_node s = Some (0, Some node, t) \<and>
    heap_inv t g' (n - (length cs + 225)) \<and> kept (mem s) (heap_taken g) (mem t) (heap_taken g') \<and>
    heap_kept (mem s) g (mem t) g' \<and> \<not> heap_taken g node \<and> heap_ptr g' (mem t) node 80 \<and>
    cstr (mem t) nm cs \<and> heap_ptr g' (mem t) nm (Suc (length cs)) \<and> \<not> heap_taken g nm \<and> nm \<noteq> node \<and>
    children t parent (ns @ [node]) \<and>
    vnodes t node = (vnodes s node)\<lparr>vn_parent := parent, vn_next := NULL, vn_child := NULL, vn_type := type, vn_permissions := perms,
      vn_name := nm, vn_size := 0, vn_creation_time := time, vn_uid := 0, vn_data := NULL\<rparr> \<and>
    (\<forall>v. v \<noteq> node \<longrightarrow> vnodes t v = (vnodes s v)\<lparr>vn_child := vn_child (vnodes t v), vn_next := vn_next (vnodes t v)\<rparr>) \<and>
    (\<forall>v. v \<noteq> node \<and> v \<noteq> parent \<longrightarrow> vn_child (vnodes t v) = vn_child (vnodes s v)) \<and>
    (\<forall>v. v \<noteq> node \<and> v \<notin> set ns \<longrightarrow> vn_next (vnodes t v) = vn_next (vnodes s v)) \<and>
    g_vfs_root t = g_vfs_root s \<and> strtok_last t = strtok_last s \<and> vfs_state.more t = vfs_state.more s"
proof -
  have n80: "unat (80 :: u64) + 72 \<le> n" "n - (unat (80 :: u64) + 72) = n - 152" using n by simp_all
  obtain node s1 g1 where a: "kmalloc 80 s = Some (node, s1)" "heap_inv s1 g1 (n - 152)" "node \<noteq> NULL"
    "heap_owns s1 g1 node 80 g" "\<forall>x. in_range node 80 x \<longrightarrow> \<not> heap_taken g x"
    "kept (mem s) (heap_taken g) (mem s1) (heap_taken g1)" "heap_frame s s1"
    using kmalloc_allocates [OF inv n80(1)] by (auto simp: n80(2))
  define s2 where "s2 = upd_vn node (\<lambda>v. v\<lparr>vn_parent := parent, vn_child := NULL, vn_next := NULL\<rparr>) s1"
  have i2: "heap_inv s2 g1 (n - 152)" "mem s2 = mem s1" using a(2) by (simp_all add: s2_def upd_vn_def)
  have nm2: "string_at (mem s2) (heap_taken g1) name cs" using string_at_kept [OF name a(6)] i2(2) by simp
  have n73: "length cs + 73 \<le> n - 152" using n by simp
  obtain nm s3 g3 where c: "strdup name s2 = Some (nm, s3)" "nm \<noteq> NULL" "heap_inv s3 g3 (n - 152 - (length cs + 73))"
    "string_at (mem s3) (heap_taken g3) nm cs" "kept (mem s2) (heap_taken g1) (mem s3) (heap_taken g3)" "heap_frame s2 s3"
    "heap_owns s3 g3 nm (Suc (length cs)) g1" "\<forall>x. in_range nm (Suc (length cs)) x \<longrightarrow> \<not> heap_taken g1 x"
    using strdup_copies [OF i2(1) nm2 n73] by blast
  define s4 where "s4 = upd_vn node (\<lambda>v. v\<lparr>vn_type := type, vn_permissions := perms, vn_size := 0, vn_uid := 0, vn_data := NULL\<rparr>)
    (upd_vn node (\<lambda>v. v\<lparr>vn_name := nm\<rparr>) s3)"
  obtain time s5 where ts: "get_rtc_timestamp s4 = (time, s5)" by fastforce
  obtain b tr where s5: "s5 = s4\<lparr>int_flag := b, io_trace := tr\<rparr>" using rtc_timestamp_frame [of s4] ts by auto
  define s6 where "s6 = upd_vn node (\<lambda>v. v\<lparr>vn_creation_time := time\<rparr>) s5"
  have f: "vnodes s1 = vnodes s" "vnodes s3 = vnodes s2" using heap_frame_vfs a(7) c(6) by auto
  have v6: "vnodes s6 = (vnodes s)(node := (vnodes s node)\<lparr>vn_parent := parent, vn_next := NULL, vn_child := NULL, vn_type := type,
      vn_permissions := perms, vn_name := nm, vn_size := 0, vn_creation_time := time, vn_uid := 0, vn_data := NULL\<rparr>)"
    by (simp add: s6_def s5 s4_def s2_def upd_vn_def f) (cases "vnodes s node", simp)
  have m6: "mem s6 = mem s3" "heap_inv s6 g3 (n - 152 - (length cs + 73))" "g_vfs_root s6 = g_vfs_root s3" "strtok_last s6 = strtok_last s3" "vfs_state.more s6 = vfs_state.more s3"
    using c(3) by (simp_all add: s6_def s5 s4_def upd_vn_def)
  have free: "\<not> heap_taken g node" "heap_taken g1 node"
    using a(5) heap_owns_taken [OF a(4), of node] by (simp_all add: in_range_start)
  then have out: "node \<notin> set ns" "node \<noteq> parent" using nodes by auto
  have "children s6 parent ns" using ch out by (subst sibling_chain_cong [of ns s6 s]) (auto simp: v6)
  from link_child_contract [OF this out a(3)]
  obtain vs where l: "link_child parent node s6 = Some (s6\<lparr>vnodes := vs\<rparr>)" "children (s6\<lparr>vnodes := vs\<rparr>) parent (ns @ [node])"
    "\<forall>v. v \<noteq> parent \<longrightarrow> vn_child (vs v) = vn_child (vnodes s6 v)" "\<forall>v. v \<notin> set ns \<longrightarrow> vn_next (vs v) = vn_next (vnodes s6 v)"
    and l4: "\<forall>v. vs v = (vnodes s6 v)\<lparr>vn_child := vn_child (vs v), vn_next := vn_next (vs v)\<rparr>" by (auto simp: v6)
  have "vn_child (vs node) = vn_child (vnodes s6 node)" "vn_next (vs node) = vn_next (vnodes s6 node)" using l(3,4) out by auto
  with spec [OF l4, of node] have vn: "vs node = vnodes s6 node" by simp
  let ?t = "s6\<lparr>vnodes := vs\<rparr>"
  have run: "vfs_create parent name type perms new_node s = Some (0, Some node, ?t)"
    using args a(1,3) c(1,2) l(1) ts unfolding vfs_create_def s6_def s4_def s2_def by (simp add: Let_def)
  have k: "kept (mem s) (heap_taken g) (mem ?t) (heap_taken g3)"
    using kept_trans [OF a(6) c(5) [unfolded i2(2)]] m6(1) by simp
  moreover have hk1: "heap_kept (mem s) g (mem s1) g1"
    using a(4,6) by (intro heap_owns_kept) (auto simp: kept_def dest: in_heap_taken)
  moreover have hk3: "heap_kept (mem s1) g1 (mem s3) g3"
    using c(5,7) i2(2) by (intro heap_owns_kept) (auto simp: kept_def dest: in_heap_taken)
  moreover have "heap_kept (mem s) g (mem ?t) g3" using heap_kept_trans [OF hk1 hk3] m6(1) by simp
  moreover have "heap_ptr g3 (mem ?t) node 80" using heap_ptr_kept [OF heap_owns_ptr [OF a(4)] hk3] m6(1) by simp
  moreover have "heap_ptr g3 (mem ?t) nm (Suc (length cs))" using heap_owns_ptr [OF c(7)] m6(1) by simp
  moreover have fr1: "\<not> heap_taken g1 nm" using c(8) by (simp add: in_range_start)
  moreover have "nm \<noteq> node" "\<not> heap_taken g nm" using fr1 free(2) a(6) by (auto simp: kept_def)
  moreover have "heap_inv ?t g3 (n - (length cs + 225))" using m6(2) by (simp add: add.commute)
  moreover have "\<forall>v. v \<noteq> node \<longrightarrow> vnodes ?t v = (vnodes s v)\<lparr>vn_child := vn_child (vnodes ?t v), vn_next := vn_next (vnodes ?t v)\<rparr>"
  proof (intro allI impI)
    fix v
    assume "v \<noteq> node"
    then have e: "vnodes s6 v = vnodes s v" by (simp add: v6)
    have vt: "vnodes ?t = vs" by simp
    show "vnodes ?t v = (vnodes s v)\<lparr>vn_child := vn_child (vnodes ?t v), vn_next := vn_next (vnodes ?t v)\<rparr>"
      using spec [OF l4, of v] unfolding e vt .
  qed
  moreover have "\<forall>v. v \<noteq> node \<and> v \<noteq> parent \<longrightarrow> vn_child (vnodes ?t v) = vn_child (vnodes s v)"
    "\<forall>v. v \<noteq> node \<and> v \<notin> set ns \<longrightarrow> vn_next (vnodes ?t v) = vn_next (vnodes s v)"
    using l(3,4) by (simp_all add: v6)
  moreover have "g_vfs_root ?t = g_vfs_root s" "strtok_last ?t = strtok_last s" "vfs_state.more ?t = vfs_state.more s"
    using m6(3-5) heap_frame_vfs [OF c(6)] heap_frame_vfs [OF a(7)] by (simp_all add: s2_def upd_vn_def)
  moreover have "vnodes ?t node = (vnodes s node)\<lparr>vn_parent := parent, vn_next := NULL, vn_child := NULL, vn_type := type,
      vn_permissions := perms, vn_name := nm, vn_size := 0, vn_creation_time := time, vn_uid := 0, vn_data := NULL\<rparr>"
    using vn by (simp add: v6)
  moreover have "cstr (mem ?t) nm cs" using c(4) m6(1) by (simp add: string_at_def)
  ultimately show ?thesis using run free(1) l(2) by blast
qed

section \<open>Lookup\<close>

lemma search_siblings_find:
  assumes "sibling_chain s c ns" and "\<forall>k \<in> set ns. cstr (mem s) (vn_name (vnodes s k)) (nm k)" and "cstr (mem s) name cs"
  shows "search_siblings name c s = Some (case find (\<lambda>k. nm k = cs) ns of None \<Rightarrow> NULL | Some k \<Rightarrow> k)"
  using assms(1,2)
proof (induction ns arbitrary: c)
  case Nil
  then show ?case by (subst search_siblings.simps) simp
next
  case (Cons k ns)
  then have k: "cstr (mem s) (vn_name (vnodes s k)) (nm k)" "k \<noteq> NULL" "c = k" by simp_all
  have "lexcmp (nm k) cs = 0 \<longleftrightarrow> nm k = cs" using k(1) assms(3) by (intro lexcmp_0) (auto dest: cstr_nonzero)
  then show ?case using Cons k strcmp_cstr [OF k(1) assms(3)] by (subst search_siblings.simps) auto
qed

text \<open>
  The abstract tree: the children and the name of every node in a set that is closed under children; the
  parent pointer of a child leads back.
\<close>

definition vfs_tree :: "'a vfs_state_scheme \<Rightarrow> heap_view \<Rightarrow> u64 set \<Rightarrow> (u64 \<Rightarrow> u64 list) \<Rightarrow> (u64 \<Rightarrow> u8 list) \<Rightarrow> bool" where
  "vfs_tree s g V kids nm \<longleftrightarrow>
     (\<forall>d \<in> V. heap_ptr g (mem s) d 80 \<and> children s d (kids d) \<and> set (kids d) \<subseteq> V \<and>
       (\<forall>k \<in> set (kids d). vn_parent (vnodes s k) = d) \<and>
       cstr (mem s) (vn_name (vnodes s d)) (nm d) \<and> heap_ptr g (mem s) (vn_name (vnodes s d)) (Suc (length (nm d))) \<and>
       vn_name (vnodes s d) \<notin> V) \<and>
     inj_on (\<lambda>d. vn_name (vnodes s d)) V"

lemma vfs_treeD:
  assumes "vfs_tree s g V kids nm" and "d \<in> V"
  shows "heap_ptr g (mem s) d 80" and "children s d (kids d)" and "k \<in> set (kids d) \<Longrightarrow> k \<in> V"
    and "k \<in> set (kids d) \<Longrightarrow> vn_parent (vnodes s k) = d"
    and "cstr (mem s) (vn_name (vnodes s d)) (nm d)" and "heap_ptr g (mem s) (vn_name (vnodes s d)) (Suc (length (nm d)))"
    and "vn_name (vnodes s d) \<notin> V"
  using assms unfolding vfs_tree_def by blast+

lemma heap_ptr_taken: "heap_ptr g m p j \<Longrightarrow> 0 < j \<Longrightarrow> heap_taken g p"
  using heap_ptr_in_heap in_heap_taken in_range_start by metis

lemma vfs_tree_nonnull: "vfs_tree s g V kids nm \<Longrightarrow> d \<in> V \<Longrightarrow> d \<noteq> NULL"
  using vfs_treeD(1) heap_ptr_nonnull by blast

lemma vfs_tree_taken: "vfs_tree s g V kids nm \<Longrightarrow> d \<in> V \<Longrightarrow> heap_taken g d"
  using vfs_treeD(1) heap_ptr_taken by fastforce

text \<open>The tree depends on the links and names of the vnodes and on the bytes of allocations only.\<close>

definition same_links :: "'a vfs_state_scheme \<Rightarrow> 'b vfs_state_scheme \<Rightarrow> bool" where
  "same_links t s \<longleftrightarrow> (\<forall>v. vn_parent (vnodes t v) = vn_parent (vnodes s v) \<and> vn_next (vnodes t v) = vn_next (vnodes s v) \<and>
     vn_child (vnodes t v) = vn_child (vnodes s v) \<and> vn_name (vnodes t v) = vn_name (vnodes s v))"

lemma same_links_vnodes: "vnodes t = vnodes s \<Longrightarrow> same_links t s"
  by (simp add: same_links_def)

lemma vfs_tree_frame:
  assumes tree: "vfs_tree s g V kids nm" and l: "same_links t s" and k: "heap_kept (mem s) g (mem t) g'"
  shows "vfs_tree t g' V kids nm"
proof -
  note v = l [unfolded same_links_def, rule_format]
  have ch: "sibling_chain t c ns = sibling_chain s c ns" for c ns using sibling_chain_cong [of ns t s] v by simp
  have p: "heap_ptr g' (mem t) q j" if "heap_ptr g (mem s) q j" for q j using heap_ptr_kept [OF that k] .
  have c: "cstr (mem t) (vn_name (vnodes s d)) (nm d)" if "d \<in> V" for d
  proof (rule cstr_cong [of "mem s"])
    show "cstr (mem s) (vn_name (vnodes s d)) (nm d)" using vfs_treeD(5) [OF tree that] .
    show "mem t x = mem s x" if "in_range (vn_name (vnodes s d)) (Suc (length (nm d))) x" for x
      using k heap_ptr_in_heap [OF vfs_treeD(6) [OF tree \<open>d \<in> V\<close>] that] by (simp add: heap_kept_def)
  qed
  show ?thesis using tree p c unfolding vfs_tree_def by (simp add: ch v)
qed

fun walk :: "(u64 \<Rightarrow> u64 list) \<Rightarrow> (u64 \<Rightarrow> u8 list) \<Rightarrow> u64 \<Rightarrow> u8 list list \<Rightarrow> u64" where
  "walk kids nm d [] = d"
| "walk kids nm d (t # ts) = (case find (\<lambda>k. nm k = t) (kids d) of None \<Rightarrow> NULL | Some k \<Rightarrow> walk kids nm k ts)"

text \<open>The parts of a path between its slashes.\<close>

function tokens :: "u8 list \<Rightarrow> u8 list list" where
  "tokens cs = (let r = dropWhile (\<lambda>c. c = 0x2F) cs
     in if r = [] then [] else takeWhile (\<lambda>c. c \<noteq> 0x2F) r # tokens (dropWhile (\<lambda>c. c \<noteq> 0x2F) r))"
  by pat_completeness auto
termination
proof (relation "measure length")
  fix cs r :: "u8 list"
  assume r: "r = dropWhile (\<lambda>c. c = 0x2F) cs" "r \<noteq> []"
  then have "hd r \<noteq> 0x2F" using hd_dropWhile [of "\<lambda>c. c = 0x2F" cs] by simp
  then have "length (dropWhile (\<lambda>c. c \<noteq> 0x2F) r) < length r"
    using r(2) by (cases r) (auto simp: less_Suc_eq_le length_dropWhile_le)
  also have "length r \<le> length cs" unfolding r(1) by (rule length_dropWhile_le)
  finally show "(dropWhile (\<lambda>c. c \<noteq> 0x2F) r, cs) \<in> measure length" by simp
qed simp

declare tokens.simps [simp del]

lemma tokens_slash: "tokens (0x2F # cs) = tokens cs"
  by (subst (1 2) tokens.simps) simp

lemma tokens_tl: "rest = [] \<or> hd rest = 0x2F \<Longrightarrow> tokens (tl rest) = tokens rest"
  by (cases rest) (auto simp: tokens_slash)

lemma vfs_tree_search:
  assumes tree: "vfs_tree s g V kids nm" and d: "d \<in> V" and name: "cstr (mem s) name cs" "name \<noteq> NULL"
  shows "vfs_search_node d name s = Some (case find (\<lambda>k. nm k = cs) (kids d) of None \<Rightarrow> NULL | Some k \<Rightarrow> k)"
proof -
  have "children s d (kids d)" "d \<noteq> NULL" using vfs_treeD(2) [OF tree d] vfs_tree_nonnull [OF tree d] by simp_all
  moreover have "\<forall>k \<in> set (kids d). cstr (mem s) (vn_name (vnodes s k)) (nm k)"
    using vfs_treeD(5) [OF tree] vfs_treeD(3) [OF tree d] by simp
  ultimately show ?thesis using name search_siblings_find by (simp add: vfs_search_node_def)
qed

text \<open>One token, from a string that ends where the copy of the path ends.\<close>

lemma next_token_spec:
  assumes a: "a = (if str = NULL then strtok_last s else str)" "a = q + of_nat i"
    and cs: "cstr (mem s) a cs" "i + length cs = L" and delim: "cstr (mem s) delim [0x2F]"
    and q: "0 < unat q" "unat q + L < 2 ^ 64"
  shows "tokens cs = [] \<Longrightarrow> next_token str delim s = Some (NULL, s)"
    and "tokens cs = t # ts \<Longrightarrow> \<exists>m k j rs. next_token str delim s = Some (q + of_nat k, s\<lparr>mem := m, strtok_last := q + of_nat j\<rparr>) \<and>
      q + of_nat k \<noteq> NULL \<and> cstr m (q + of_nat k) t \<and> k + length t \<le> L \<and> cstr m (q + of_nat j) rs \<and> j + length rs = L \<and> tokens rs = ts \<and>
      length rs < length cs \<and> (\<forall>x. \<not> in_range q (Suc L) x \<longrightarrow> m x = mem s x)"
proof -
  have nz: "q + of_nat i' \<noteq> NULL" if "i' \<le> L" for i'
  proof -
    have "unat (q + of_nat i') = unat q + i'" using q that by (subst unat_add_no_wrap) simp_all
    then show ?thesis using q(1) by auto
  qed
  have a0: "a \<noteq> NULL" using nz [of i] a(2) cs(2) by simp
  have st: "strtok (mem s) (strtok_last s) str delim = strtok (mem s) (strtok_last s) a delim"
    using a(1) a0 by (simp add: strtok_def)
  show "next_token str delim s = Some (NULL, s)" if "tokens cs = []"
  proof -
    have "dropWhile (\<lambda>c. c = 0x2F) cs = []" using that by (subst (asm) tokens.simps) (simp add: Let_def split: if_splits)
    then have "set cs \<subseteq> set [0x2F]" by (auto simp: dropWhile_eq_Nil_conv)
    from strtok_none [OF cs(1) delim this a0] show ?thesis by (simp add: next_token_def st)
  qed
  assume tk: "tokens cs = t # ts"
  define skip where "skip = takeWhile (\<lambda>c. c = 0x2F) cs"
  define r where "r = dropWhile (\<lambda>c. c = 0x2F) cs"
  define rest where "rest = dropWhile (\<lambda>c. c \<noteq> 0x2F) r"
  have r0: "r \<noteq> []" and t: "t = takeWhile (\<lambda>c. c \<noteq> 0x2F) r" and ts: "ts = tokens rest"
    using tk by (subst (asm) tokens.simps, simp add: Let_def r_def rest_def split: if_splits)+
  have split: "cs = skip @ t @ rest" by (simp add: skip_def t rest_def r_def)
  have "\<not> set cs \<subseteq> set [0x2F]" using r0 by (auto simp: r_def dropWhile_eq_Nil_conv)
  note tok = strtok_token [OF cs(1) delim this a0, of "strtok_last s"]
  have pw: "(\<lambda>c :: u8. c \<in> set [0x2F]) = (\<lambda>c. c = 0x2F)" "(\<lambda>c :: u8. c \<notin> set [0x2F]) = (\<lambda>c. c \<noteq> 0x2F)" by auto
  obtain m saved' where m: "strtok (mem s) (strtok_last s) a delim = Some (a + of_nat (length skip), m, saved')"
    "cstr m (a + of_nat (length skip)) t" "t \<noteq> []" "cstr m saved' (tl rest)"
    "\<And>x. m x \<noteq> mem s x \<Longrightarrow> x = a + of_nat (length skip) + of_nat (length t) \<and> rest \<noteq> []"
    "saved' = a + of_nat (length skip) + of_nat (length t) + (if rest = [] then 0 else 1)"
    unfolding skip_def t rest_def r_def using tok [unfolded pw] by blast
  define k where "k = i + length skip"
  define j where "j = k + length t + (if rest = [] then 0 else 1)"
  have kj: "a + of_nat (length skip) = q + of_nat k" "saved' = q + of_nat j"
    using m(6) by (simp_all add: k_def j_def a(2) add.assoc)
  have len: "k + length t + length rest = L" using cs(2) split by (simp add: k_def)
  then have "j + length (tl rest) = L" by (cases rest) (simp_all add: j_def)
  moreover have "tokens (tl rest) = ts"
    unfolding ts by (rule tokens_tl) (metis (lifting) hd_dropWhile rest_def)
  moreover have "length (tl rest) < length cs" using split m(3) by (cases t) auto
  moreover have "m x = mem s x" if "\<not> in_range q (Suc L) x" for x
  proof (rule ccontr)
    assume "m x \<noteq> mem s x"
    then have "x = q + of_nat (k + length t)" using m(5) kj(1) by (simp add: add.assoc)
    moreover have "k + length t \<le> L" "k + length t < 2 ^ 64" using len q(2) by simp_all
    then have "in_range q (Suc L) (q + of_nat (k + length t))" by (intro in_range_offset) (simp del: of_nat_add)
    ultimately show False using that by simp
  qed
  moreover have "q + of_nat k \<noteq> NULL" using nz [of k] len by simp
  moreover have "next_token str delim s = Some (q + of_nat k, s\<lparr>mem := m, strtok_last := q + of_nat j\<rparr>)"
    using m(1) kj by (simp add: next_token_def st)
  ultimately show "\<exists>m k j rs. next_token str delim s = Some (q + of_nat k, s\<lparr>mem := m, strtok_last := q + of_nat j\<rparr>) \<and>
      q + of_nat k \<noteq> NULL \<and> cstr m (q + of_nat k) t \<and> k + length t \<le> L \<and> cstr m (q + of_nat j) rs \<and> j + length rs = L \<and> tokens rs = ts \<and>
      length rs < length cs \<and> (\<forall>x. \<not> in_range q (Suc L) x \<longrightarrow> m x = mem s x)"
    using m(2,4) kj len by (intro exI [of _ m] exI [of _ k] exI [of _ j] exI [of _ "tl rest"]) simp
qed

lemma vfs_tree_outside:
  assumes tree: "vfs_tree s g V kids nm" and free: "\<forall>x. in_range q (Suc L) x \<longrightarrow> \<not> in_heap g x"
    and m: "\<forall>x. \<not> in_range q (Suc L) x \<longrightarrow> m x = mem s x"
  shows "vfs_tree (s\<lparr>mem := m, strtok_last := x\<rparr>) g V kids nm"
  using free m by (intro vfs_tree_frame [OF tree] same_links_vnodes) (auto intro: heap_kept_mem)

lemma traverse_tokens_walk:
  assumes "vfs_tree s g V kids nm" and "d \<in> V" and free: "\<forall>x. in_range q (Suc L) x \<longrightarrow> \<not> heap_taken g x"
    and "string_at (mem s) (heap_taken g) delim [0x2F]"
    and "cstr (mem s) token t" and "token \<noteq> NULL"
    and "cstr (mem s) (strtok_last s) rs" and "strtok_last s = q + of_nat j" and "j + length rs = L"
    and q: "0 < unat q" "unat q + L < 2 ^ 64"
  shows "\<exists>m x. traverse_tokens delim d token s = Some (walk kids nm d (t # tokens rs), s\<lparr>mem := m, strtok_last := x\<rparr>) \<and>
    (\<forall>x. \<not> in_range q (Suc L) x \<longrightarrow> m x = mem s x)"
  using assms(1,2,4-9)
proof (induction "length rs" arbitrary: s d token t rs j rule: less_induct)
  case less
  note tree = less.prems(1)
  have free': "\<forall>x. in_range q (Suc L) x \<longrightarrow> \<not> in_heap g x" using free in_heap_taken by blast
  have srch: "vfs_search_node d token s = Some (case find (\<lambda>k. nm k = t) (kids d) of None \<Rightarrow> NULL | Some k \<Rightarrow> k)"
    using vfs_tree_search [OF tree less.prems(2,4,5)] .
  have self: "s = s\<lparr>mem := mem s, strtok_last := strtok_last s\<rparr>" by simp
  show ?case
  proof (cases "find (\<lambda>k. nm k = t) (kids d)")
    case None
    then have "traverse_tokens delim d token s = Some (walk kids nm d (t # tokens rs), s)"
      using srch less.prems(5) by (subst traverse_tokens.simps) simp
    then show ?thesis using self by metis
  next
    case (Some k)
    then have "k \<in> set (kids d)" by (auto simp: find_Some_iff)
    then have k: "k \<in> V" "k \<noteq> NULL" using vfs_treeD(3) [OF tree less.prems(2)] vfs_tree_nonnull [OF tree] by auto
    have w: "walk kids nm d (t # tokens rs) = walk kids nm k (tokens rs)" using Some by simp
    have step: "traverse_tokens delim d token s =
        do { (token, s) \<leftarrow> next_token NULL delim s; traverse_tokens delim k token s }"
      using srch Some k(2) less.prems(5) by (subst traverse_tokens.simps) simp
    have dl: "cstr (mem s) delim [0x2F]" using less.prems(3) by (simp add: string_at_def)
    note nt = next_token_spec [OF _ less.prems(7) less.prems(6,8) dl q, of NULL]
    show ?thesis
    proof (cases "tokens rs")
      case Nil
      then have "next_token NULL delim s = Some (NULL, s)" using nt(1) by simp
      then have "traverse_tokens delim d token s = Some (k, s)" using step by (simp add: traverse_tokens.simps [of _ _ NULL])
      then show ?thesis using self w Nil by (metis walk.simps(1))
    next
      case (Cons t' ts)
      from nt(2) [OF _ this] obtain m i j' rs' where m: "next_token NULL delim s = Some (q + of_nat i, s\<lparr>mem := m, strtok_last := q + of_nat j'\<rparr>)"
        "q + of_nat i \<noteq> NULL" "cstr m (q + of_nat i) t'" "cstr m (q + of_nat j') rs'" "j' + length rs' = L" "tokens rs' = ts"
        "length rs' < length rs" "\<forall>x. \<not> in_range q (Suc L) x \<longrightarrow> m x = mem s x" by auto
      let ?s = "s\<lparr>mem := m, strtok_last := q + of_nat j'\<rparr>"
      have k': "kept (mem s) (heap_taken g) m (heap_taken g)" using free m(8) by (auto simp: kept_def)
      have "vfs_tree ?s g V kids nm" by (rule vfs_tree_outside [OF tree free' m(8)])
      moreover have "string_at (mem ?s) (heap_taken g) delim [0x2F]" using string_at_kept [OF less.prems(3) k'] by simp
      ultimately obtain m' x where r: "traverse_tokens delim k (q + of_nat i) ?s = Some (walk kids nm k (t' # tokens rs'), ?s\<lparr>mem := m', strtok_last := x\<rparr>)"
        "\<forall>x. \<not> in_range q (Suc L) x \<longrightarrow> m' x = m x"
        using less.hyps [OF m(7), of ?s k "q + of_nat i" t' j'] k(1) m(2-5) by auto
      have "traverse_tokens delim d token s = Some (walk kids nm d (t # tokens rs), s\<lparr>mem := m', strtok_last := x\<rparr>)"
        using step m(1) r(1) w Cons m(6) by simp
      then show ?thesis using r(2) m(8) by auto
    qed
  qed
qed

lemma heap_owns_bound: "heap_owns s g p j h \<Longrightarrow> unat p + j < 2 ^ 64"
proof -
  assume "heap_owns s g p j h"
  then obtain B1 maj xs m ys B2 where o: "heap_wf s (B1 @ (maj, xs @ m # ys) # B2)"
    "unat p + j \<le> unat m + 40 + unat (min_size (minors s m))" by (auto simp: heap_owns_def)
  then have ok: "block_ok s maj (xs @ m # ys)" by (auto simp: heap_wf_def)
  show ?thesis using block_ok_member(3) [OF ok, of m] o(2) ok by (simp add: block_ok_def)
qed

lemma heap_inv_room: "heap_inv t g k \<Longrightarrow> heap_inv s g n \<Longrightarrow> heap_inv t g n"
  by (simp add: heap_inv_def)

lemma vfs_lookup_contract:
  assumes inv: "heap_inv s g n" and n: "length cs + 73 \<le> n" and tree: "vfs_tree s g V kids nm" and root: "g_vfs_root s \<in> V"
    and path: "path \<noteq> NULL" "string_at (mem s) (heap_taken g) path cs"
    and slash: "string_at (mem s) (heap_taken g) (lit ''/'') [0x2F]"
  shows "\<exists>t. vfs_lookup lit path s = Some (walk kids nm (g_vfs_root s) (tokens cs), t) \<and>
    heap_inv t g n \<and> kept (mem s) (heap_taken g) (mem t) (heap_taken g) \<and> vnodes t = vnodes s \<and> g_vfs_root t = g_vfs_root s \<and>
    vfs_state.more t = vfs_state.more s \<and> kernel_core t = kernel_core s"
proof -
  have root0: "g_vfs_root s \<noteq> NULL" using vfs_tree_nonnull [OF tree root] .
  have c: "cstr (mem s) path cs" "cstr (mem s) (lit ''/'') [0x2F]" using path(2) slash by (simp_all add: string_at_def)
  have cmp: "strcmp (mem s) path (lit ''/'') = Some (lexcmp cs [0x2F])" "lexcmp cs [0x2F] = 0 \<longleftrightarrow> cs = [0x2F]"
    using strcmp_cstr [OF c] cstr_nonzero [OF c(1)] by (simp_all add: lexcmp_0)
  show ?thesis
  proof (cases "cs = [0x2F]")
    case True
    have "tokens [0x2F] = []" by (simp add: tokens.simps)
    then show ?thesis using True cmp root0 path(1) inv by (simp add: vfs_lookup_def vfs_traverse_path_def kept_def)
  next
    case False
    obtain p s1 g1 where p: "strdup path s = Some (p, s1)" "p \<noteq> NULL" "heap_inv s1 g1 (n - (length cs + 73))"
      "string_at (mem s1) (heap_taken g1) p cs" "heap_owns s1 g1 p (Suc (length cs)) g"
      "kept (mem s) (heap_taken g) (mem s1) (heap_taken g1)"
      "\<forall>x. in_range p (Suc (length cs)) x \<longrightarrow> \<not> heap_taken g x" "heap_frame s s1"
      using strdup_copies [OF inv path(2) n] by blast
    note fr = heap_frame_vfs [OF p(8)]
    have k1: "kept (mem s) (heap_taken g) (mem s1) (heap_taken g)" using p(6) by (simp add: kept_def)
    have hk1: "heap_kept (mem s) g (mem s1) g" using k1 by (intro heap_kept_mem) (auto simp: kept_def dest: in_heap_taken)
    have tree1: "vfs_tree s1 g V kids nm" using vfs_tree_frame [OF tree same_links_vnodes [OF fr(1)] hk1] .
    have free: "\<forall>x. in_range p (Suc (length cs)) x \<longrightarrow> \<not> in_heap g x" using p(7) in_heap_taken by blast
    have sl1: "string_at (mem s1) (heap_taken g) (lit ''/'') [0x2F]" using string_at_kept [OF slash k1] .
    have q: "0 < unat p" "unat p + length cs < 2 ^ 64" using p(2) heap_owns_bound [OF p(5)] by (simp_all add: unat_gt_0)
    have cp: "cstr (mem s1) p cs" "cstr (mem s1) (lit ''/'') [0x2F]" using p(4) sl1 by (simp_all add: string_at_def)
    note nt = next_token_spec [OF _ _ cp(1) _ cp(2) q, of p 0]
    have "\<exists>m x. (do { (token, s') \<leftarrow> next_token p (lit ''/'') s1; traverse_tokens (lit ''/'') (g_vfs_root s) token s' }) =
        Some (walk kids nm (g_vfs_root s) (tokens cs), s1\<lparr>mem := m, strtok_last := x\<rparr>) \<and>
      (\<forall>x. \<not> in_range p (Suc (length cs)) x \<longrightarrow> m x = mem s1 x)"
    proof (cases "tokens cs")
      case Nil
      then have "next_token p (lit ''/'') s1 = Some (NULL, s1)" using nt(1) p(2) by simp
      then show ?thesis using Nil
        by (intro exI [of _ "mem s1"] exI [of _ "strtok_last s1"]) (simp add: traverse_tokens.simps [of _ _ NULL])
    next
      case (Cons t ts)
      from nt(2) [OF _ _ _ this] p(2)
      obtain m k j rs where m: "next_token p (lit ''/'') s1 = Some (p + of_nat k, s1\<lparr>mem := m, strtok_last := p + of_nat j\<rparr>)"
        "p + of_nat k \<noteq> NULL" "cstr m (p + of_nat k) t" "cstr m (p + of_nat j) rs" "j + length rs = length cs" "tokens rs = ts"
        "\<forall>x. \<not> in_range p (Suc (length cs)) x \<longrightarrow> m x = mem s1 x" by auto
      let ?s = "s1\<lparr>mem := m, strtok_last := p + of_nat j\<rparr>"
      have k2: "kept (mem s1) (heap_taken g) m (heap_taken g)" using p(7) m(7) by (auto simp: kept_def)
      have "vfs_tree ?s g V kids nm" by (rule vfs_tree_outside [OF tree1 free m(7)])
      from traverse_tokens_walk [OF this root p(7), of "lit ''/''" "p + of_nat k" t rs j] q m string_at_kept [OF sl1 k2]
      obtain m' x where r: "traverse_tokens (lit ''/'') (g_vfs_root s) (p + of_nat k) ?s =
          Some (walk kids nm (g_vfs_root s) (t # tokens rs), ?s\<lparr>mem := m', strtok_last := x\<rparr>)"
        "\<forall>x. \<not> in_range p (Suc (length cs)) x \<longrightarrow> m' x = m x" by auto
      then show ?thesis using m(1,6,7) Cons by (intro exI [of _ m'] exI [of _ x]) simp
    qed
    then obtain m x token s2 where r: "next_token p (lit ''/'') s1 = Some (token, s2)"
      "traverse_tokens (lit ''/'') (g_vfs_root s) token s2 = Some (walk kids nm (g_vfs_root s) (tokens cs), s1\<lparr>mem := m, strtok_last := x\<rparr>)"
      "\<forall>x. \<not> in_range p (Suc (length cs)) x \<longrightarrow> m x = mem s1 x" by (auto simp: bind_eq_Some_conv)
    let ?u = "s1\<lparr>mem := m, strtok_last := x\<rparr>"
    have root2: "g_vfs_root s2 = g_vfs_root s" using r(1) fr(2) by (auto simp: next_token_def bind_eq_Some_conv)
    have "heap_owns (s1\<lparr>mem := m\<rparr>) g1 p (Suc (length cs)) g" using heap_owns_set_mem [OF p(5)] r(3) by blast
    then have "heap_owns ?u g1 p (Suc (length cs)) g" by simp
    moreover have "heap_inv ?u g1 (n - (length cs + 73))" using p(3) by simp
    ultimately obtain t where t: "kfree p ?u = Some t" "heap_inv t g (n - (length cs + 73))" "mem t = m" "heap_frame ?u t"
      using kfree_releases [of ?u g1 _ p _ g] by fastforce
    have "vfs_lookup lit path s = Some (walk kids nm (g_vfs_root s) (tokens cs), t)"
      using root0 path(1) cmp False p(1,2) r(1,2) root2 t(1) by (simp add: vfs_lookup_def vfs_traverse_path_def)
    moreover have "kept (mem s) (heap_taken g) (mem t) (heap_taken g)"
      using k1 p(7) r(3) t(3) by (auto simp: kept_def)
    moreover have "vnodes t = vnodes s" "g_vfs_root t = g_vfs_root s" "vfs_state.more t = vfs_state.more s"
      using heap_frame_vfs [OF t(4)] fr by simp_all
    moreover have "kernel_core t = kernel_core s" using heap_frame_core [OF t(4)] heap_frame_core [OF p(8)] by (simp add: kernel_core_def)
    ultimately show ?thesis using heap_inv_room [OF t(2) inv] by blast
  qed
qed

section \<open>The tree under creation\<close>

lemma vfs_create_tree:
  assumes tree: "vfs_tree s g V kids nm" and d: "d \<in> V" and k: "heap_kept (mem s) g (mem t) g'"
    and node: "\<not> heap_taken g node" "heap_ptr g' (mem t) node 80" "vn_parent (vnodes t node) = d" "vn_child (vnodes t node) = NULL"
    and name: "cstr (mem t) (vn_name (vnodes t node)) cs" "heap_ptr g' (mem t) (vn_name (vnodes t node)) (Suc (length cs))"
      "\<not> heap_taken g (vn_name (vnodes t node))" "vn_name (vnodes t node) \<noteq> node"
    and ch: "children t d (kids d @ [node])"
    and links: "\<forall>v. v \<noteq> node \<longrightarrow> vnodes t v = (vnodes s v)\<lparr>vn_child := vn_child (vnodes t v), vn_next := vn_next (vnodes t v)\<rparr>"
    and chd: "\<forall>v. v \<noteq> node \<and> v \<noteq> d \<longrightarrow> vn_child (vnodes t v) = vn_child (vnodes s v)"
    and nxt: "\<forall>v. v \<noteq> node \<and> v \<notin> set (kids d) \<longrightarrow> vn_next (vnodes t v) = vn_next (vnodes s v)"
  shows "vfs_tree t g' (insert node V) (kids(d := kids d @ [node], node := [])) (nm(node := cs))"
proof -
  let ?kids = "kids(d := kids d @ [node], node := [])" and ?nm = "nm(node := cs)"
  let ?s = "s\<lparr>mem := mem t\<rparr>"
  have tree': "vfs_tree ?s g' V kids nm" using k by (intro vfs_tree_frame [OF tree] same_links_vnodes) simp_all
  have nV: "node \<notin> V" using vfs_tree_taken [OF tree] node(1) by blast
  then have dn: "d \<noteq> node" using d by auto
  have f: "vn_parent (vnodes t v) = vn_parent (vnodes s v)" "vn_name (vnodes t v) = vn_name (vnodes s v)" if "v \<noteq> node" for v
    using arg_cong [OF links [rule_format, OF that], of vn_parent] arg_cong [OF links [rule_format, OF that], of vn_name] by simp_all
  have names: "heap_taken g (vn_name (vnodes s v))" if "v \<in> V" for v
    using heap_ptr_taken [OF vfs_treeD(6) [OF tree that]] by simp
  have ch_e: "children t e (kids e)" if eV: "e \<in> V" and "e \<noteq> d" for e
  proof -
    have "vn_next (vnodes t k) = vn_next (vnodes s k)" if "k \<in> set (kids e)" for k
    proof -
      have "k \<notin> set (kids d)" using vfs_treeD(4) [OF tree eV that] vfs_treeD(4) [OF tree d, of k] \<open>e \<noteq> d\<close> by auto
      moreover have "k \<noteq> node" using vfs_treeD(3) [OF tree eV that] nV by auto
      ultimately show ?thesis using nxt by simp
    qed
    moreover have "e \<noteq> node" using eV nV by auto
    ultimately show ?thesis using vfs_treeD(2) [OF tree eV] chd that sibling_chain_cong [of "kids e" t s] by simp
  qed
  have old: "heap_ptr g' (mem t) e 80 \<and> children t e (?kids e) \<and> set (?kids e) \<subseteq> insert node V \<and>
      (\<forall>k \<in> set (?kids e). vn_parent (vnodes t k) = e) \<and> cstr (mem t) (vn_name (vnodes t e)) (?nm e) \<and>
      heap_ptr g' (mem t) (vn_name (vnodes t e)) (Suc (length (?nm e))) \<and> vn_name (vnodes t e) \<notin> insert node V" if eV: "e \<in> V" for e
  proof -
    note te = vfs_treeD [OF tree' eV, simplified]
    have en: "e \<noteq> node" using eV nV by auto
    have "k \<noteq> node" if "k \<in> set (kids e)" for k using te(3) [OF that] nV by auto
    then have "\<forall>k \<in> set (kids e). vn_parent (vnodes t k) = e" using te(4) f(1) by simp
    moreover have "vn_name (vnodes s e) \<noteq> node" using names [OF eV] node(1) by auto
    ultimately show ?thesis using te ch_e [OF eV] ch node(3) en f(2) [OF en] by auto
  qed
  have "inj_on (\<lambda>e. vn_name (vnodes t e)) (insert node V)"
  proof -
    have "inj_on (\<lambda>e. vn_name (vnodes s e)) V" using tree by (simp add: vfs_tree_def)
    moreover have "vn_name (vnodes t e) = vn_name (vnodes s e)" if "e \<in> V" for e using that nV f(2) by metis
    ultimately have "inj_on (\<lambda>e. vn_name (vnodes t e)) V" by (simp add: inj_on_def)
    moreover have "vn_name (vnodes t node) \<notin> (\<lambda>e. vn_name (vnodes t e)) ` V"
      using names name(3) nV f(2) by (metis (mono_tags, lifting) image_iff)
    ultimately show ?thesis by auto
  qed
  moreover have "vn_name (vnodes t node) \<notin> insert node V" using name(3,4) vfs_tree_taken [OF tree] by auto
  ultimately show ?thesis unfolding vfs_tree_def using old node(2-4) name(1,2) dn by simp
qed

section \<open>Paths\<close>

lemma find_append: "find P (xs @ ys) = (case find P xs of None \<Rightarrow> find P ys | Some x \<Rightarrow> Some x)"
  by (induction xs) auto

lemma walk_in:
  assumes tree: "vfs_tree s g V kids nm"
  shows "r \<in> V \<Longrightarrow> walk kids nm r p \<noteq> NULL \<Longrightarrow> walk kids nm r p \<in> V"
proof (induction p arbitrary: r)
  case (Cons t p)
  then obtain k where k: "find (\<lambda>k. nm k = t) (kids r) = Some k" "walk kids nm r (t # p) = walk kids nm k p" by (auto split: option.splits)
  then have "k \<in> V" using vfs_treeD(3) [OF tree Cons.prems(1)] by (auto simp: find_Some_iff)
  then show ?case using Cons.IH [of k] Cons.prems(2) k(2) by simp
qed simp

lemma walk_append: "d \<noteq> NULL \<Longrightarrow> walk kids nm r p = d \<Longrightarrow> walk kids nm r (p @ q) = walk kids nm d q"
  by (induction p arbitrary: r) (auto split: option.splits)

lemma walk_prefix:
  assumes tree: "vfs_tree s g V kids nm"
  shows "r \<in> V \<Longrightarrow> walk kids nm r (p @ q) \<noteq> NULL \<Longrightarrow> walk kids nm r p \<noteq> NULL"
proof (induction p arbitrary: r)
  case Nil
  then show ?case using vfs_tree_nonnull [OF tree] by simp
next
  case (Cons t p)
  then obtain k where k: "find (\<lambda>k. nm k = t) (kids r) = Some k" "walk kids nm k (p @ q) \<noteq> NULL" by (auto split: option.splits)
  then have "k \<in> V" using vfs_treeD(3) [OF tree Cons.prems(1)] by (auto simp: find_Some_iff)
  then show ?case using Cons.IH [of k] k by simp
qed

lemma walk_snoc:
  assumes tree: "vfs_tree s g V kids nm" and r: "r \<in> V" and v: "walk kids nm r (p @ [t]) \<noteq> NULL"
  shows "walk kids nm r p \<in> V" and "walk kids nm r (p @ [t]) \<in> set (kids (walk kids nm r p))" and "nm (walk kids nm r (p @ [t])) = t"
proof -
  have "walk kids nm r p \<noteq> NULL" using walk_prefix [OF tree r v] .
  then show dV: "walk kids nm r p \<in> V" using walk_in [OF tree r] by simp
  have "walk kids nm r (p @ [t]) = walk kids nm (walk kids nm r p) [t]"
    using walk_append [OF vfs_tree_nonnull [OF tree dV] refl] .
  then have "find (\<lambda>k. nm k = t) (kids (walk kids nm r p)) = Some (walk kids nm r (p @ [t]))"
    using v by (cases "find (\<lambda>k. nm k = t) (kids (walk kids nm r p))") simp_all
  then show "walk kids nm r (p @ [t]) \<in> set (kids (walk kids nm r p))" "nm (walk kids nm r (p @ [t])) = t"
    by (auto simp: find_Some_iff)
qed

text \<open>Distinct paths lead to distinct nodes, since a node knows its parent and its name.\<close>

lemma walk_inj:
  assumes tree: "vfs_tree s g V kids nm" and r: "r \<in> V" "vn_parent (vnodes s r) = NULL"
    and "walk kids nm r p = walk kids nm r q" and "walk kids nm r p \<noteq> NULL"
  shows "p = q"
  using assms(4,5)
proof (induction p arbitrary: q rule: rev_induct)
  have par: "vn_parent (vnodes s (walk kids nm r (p @ [t]))) = walk kids nm r p \<and> walk kids nm r p \<noteq> NULL" if "walk kids nm r (p @ [t]) \<noteq> NULL" for p t
    using walk_snoc [OF tree r(1) that] vfs_treeD(4) [OF tree] vfs_tree_nonnull [OF tree] by blast
  {
    case Nil
    show ?case
    proof (cases q rule: rev_cases)
      case (snoc u t)
      then show ?thesis using Nil par [of u t] r(2) by simp
    qed simp
  next
    case (snoc t p)
    show ?case
    proof (cases q rule: rev_cases)
      case Nil
      then show ?thesis using snoc.prems par [of p t] r(2) by simp
    next
      case (snoc u t')
      note q = this
      have "walk kids nm r p = walk kids nm r u" "walk kids nm r p \<noteq> NULL" using par [of p t] par [of u t'] snoc.prems q by auto
      moreover have "t = t'" using walk_snoc(3) [OF tree r(1), of p t] walk_snoc(3) [OF tree r(1), of u t'] snoc.prems q by simp
      ultimately show ?thesis using snoc.IH q by simp
    qed
  }
qed

text \<open>The map from paths to nodes; every node is on some path, so that the children of a directory have different names.\<close>

definition vfs_paths :: "'a vfs_state_scheme \<Rightarrow> heap_view \<Rightarrow> (u8 list list \<Rightarrow> u64) \<Rightarrow> bool" where
  "vfs_paths s g F \<longleftrightarrow> (\<exists>kids nm. vfs_tree s g (range F - {NULL}) kids nm \<and> F = walk kids nm (g_vfs_root s)) \<and>
     g_vfs_root s \<noteq> NULL \<and> vn_parent (vnodes s (g_vfs_root s)) = NULL"

lemma vfs_pathsE:
  assumes "vfs_paths s g F"
  obtains V kids nm where "vfs_tree s g V kids nm" "V = range F - {NULL}" "\<And>p. F p = walk kids nm (g_vfs_root s) p" "g_vfs_root s \<in> V"
    "vn_parent (vnodes s (g_vfs_root s)) = NULL" "F [] = g_vfs_root s" "\<And>p q. F p = F q \<Longrightarrow> F p \<noteq> NULL \<Longrightarrow> p = q"
proof -
  from assms obtain kids nm where t: "vfs_tree s g (range F - {NULL}) kids nm" "F = walk kids nm (g_vfs_root s)"
    "g_vfs_root s \<noteq> NULL" "vn_parent (vnodes s (g_vfs_root s)) = NULL" by (auto simp: vfs_paths_def)
  have F: "F [] = g_vfs_root s" using t(2) by simp
  then have r: "g_vfs_root s \<in> range F - {NULL}" using t(3) by (metis Diff_iff rangeI singletonD)
  have "p = q" if "F p = F q" "F p \<noteq> NULL" for p q using that walk_inj [OF t(1) r t(4)] t(2) by simp
  then show ?thesis using that [OF t(1) refl _ r t(4) F] t(2) by simp
qed

lemma vfs_paths_root: "vfs_paths s g F \<Longrightarrow> F [] = g_vfs_root s"
  by (erule vfs_pathsE)

lemma vfs_paths_links:
  assumes "vfs_paths s g F" and "same_links t s" and "g_vfs_root t = g_vfs_root s" and "heap_kept (mem s) g (mem t) g'"
  shows "vfs_paths t g' F"
proof -
  have "vn_parent (vnodes t (g_vfs_root s)) = vn_parent (vnodes s (g_vfs_root s))" using assms(2) by (simp add: same_links_def)
  then show ?thesis using assms(1) vfs_tree_frame [OF _ assms(2,4)] unfolding vfs_paths_def assms(3) by metis
qed

lemma vfs_paths_frame:
  "vfs_paths s g F \<Longrightarrow> vnodes t = vnodes s \<Longrightarrow> g_vfs_root t = g_vfs_root s \<Longrightarrow> heap_kept (mem s) g (mem t) g' \<Longrightarrow> vfs_paths t g' F"
  by (rule vfs_paths_links [OF _ same_links_vnodes])

lemma vfs_paths_prefix: "vfs_paths s g F \<Longrightarrow> F (p @ q) \<noteq> NULL \<Longrightarrow> F p \<noteq> NULL"
  by (erule vfs_pathsE) (use walk_prefix in metis)

lemma vfs_search_paths:
  assumes "vfs_paths s g F" and "F p \<noteq> NULL" and "cstr (mem s) name t" and "name \<noteq> NULL"
  shows "vfs_search_node (F p) name s = Some (F (p @ [t]))"
  using assms(1)
proof (rule vfs_pathsE)
  fix V kids nm
  assume tree: "vfs_tree s g V kids nm" and V: "V = range F - {NULL}" and F: "\<And>p. F p = walk kids nm (g_vfs_root s) p"
  have "F (p @ [t]) = walk kids nm (F p) [t]" using walk_append [OF assms(2) F [symmetric]] F by metis
  then show ?thesis using vfs_tree_search [OF tree _ assms(3,4), of "F p"] assms(2) V by (auto split: option.splits)
qed

lemma vfs_paths_taken: "vfs_paths s g F \<Longrightarrow> F p \<noteq> NULL \<Longrightarrow> heap_taken g (F p)"
  by (erule vfs_pathsE) (use vfs_tree_taken in blast)

text \<open>The walks in a tree into which a node was inserted.\<close>

lemma walk_insert:
  assumes tree: "vfs_tree s g V kids nm" and node: "node \<notin> V" and d: "d \<in> V" and new: "\<forall>k \<in> set (kids d). nm k \<noteq> cs"
    and K: "\<And>v. K v = (if v = node then [] else if v = d then kids d @ [node] else kids v)"
    and N: "\<And>v. N v = (if v = node then cs else nm v)"
    and r: "r \<in> V"
  shows "walk K N r p = (if \<exists>u. p = u @ [cs] \<and> walk kids nm r u = d then node else walk kids nm r p)"
  using r
proof (induction p arbitrary: r)
  case (Cons t p)
  have fnd: "find (\<lambda>k. N k = t) (kids r) = find (\<lambda>k. nm k = t) (kids r)"
    using vfs_treeD(3) [OF tree Cons.prems] node by (intro find_cong) (auto simp: N)
  have rn: "r \<noteq> node" using Cons.prems node by auto
  have ex: "(\<exists>u. t # p = u @ [cs] \<and> walk kids nm r u = d) \<longleftrightarrow>
      (t = cs \<and> p = [] \<and> r = d) \<or> (\<exists>u. p = u @ [cs] \<and> walk kids nm r (t # u) = d)"
    by (auto simp: Cons_eq_append_conv)
  show ?case
  proof (cases "find (\<lambda>k. nm k = t) (kids r)")
    case (Some k)
    then have k: "k \<in> V" "k \<in> set (kids r)" "nm k = t" using vfs_treeD(3) [OF tree Cons.prems] by (auto simp: find_Some_iff)
    then have "\<not> (t = cs \<and> r = d)" using new by auto
    moreover have "find (\<lambda>k. N k = t) (K r) = Some k" using Some fnd rn unfolding K by (auto simp: find_append)
    ultimately show ?thesis unfolding ex using Cons.IH [OF k(1)] Some by auto
  next
    case None
    have d0: "d \<noteq> NULL" using vfs_tree_nonnull [OF tree d] .
    have "find (\<lambda>k. N k = t) (K r) = (if r = d \<and> t = cs then Some node else None)"
      using None fnd rn N [of node] unfolding K by (auto simp: find_append)
    moreover have "walk K N node p = (if p = [] then node else NULL)" using K [of node] by (cases p) simp_all
    ultimately show ?thesis unfolding ex using None d0 by auto
  qed
qed simp

lemma vfs_create_paths:
  assumes inv: "heap_inv s g n" and n: "length cs + 225 \<le> n" and paths: "vfs_paths s g F" and d: "F ts \<noteq> NULL" "F (ts @ [cs]) = NULL"
    and name: "name \<noteq> NULL" "string_at (mem s) (heap_taken g) name cs" and out: "new_node \<noteq> NULL"
  shows "\<exists>node t g' nm time. vfs_create (F ts) name type perms new_node s = Some (0, Some node, t) \<and> node \<notin> range F \<and> node \<noteq> NULL \<and>
    heap_inv t g' (n - (length cs + 225)) \<and> kept (mem s) (heap_taken g) (mem t) (heap_taken g') \<and> heap_kept (mem s) g (mem t) g' \<and>
    vfs_paths t g' (F(ts @ [cs] := node)) \<and> \<not> heap_taken g node \<and>
    vnodes t node = (vnodes s node)\<lparr>vn_parent := F ts, vn_next := NULL, vn_child := NULL, vn_type := type, vn_permissions := perms,
      vn_name := nm, vn_size := 0, vn_creation_time := time, vn_uid := 0, vn_data := NULL\<rparr> \<and>
    (\<forall>v. v \<noteq> node \<longrightarrow> vnodes t v = (vnodes s v)\<lparr>vn_child := vn_child (vnodes t v), vn_next := vn_next (vnodes t v)\<rparr>) \<and>
    g_vfs_root t = g_vfs_root s \<and> strtok_last t = strtok_last s \<and> vfs_state.more t = vfs_state.more s"
  using paths
proof (rule vfs_pathsE)
  fix V kids nm
  assume tree: "vfs_tree s g V kids nm" and V: "V = range F - {NULL}" and F: "\<And>p. F p = walk kids nm (g_vfs_root s) p" and root: "g_vfs_root s \<in> V"
    and par: "vn_parent (vnodes s (g_vfs_root s)) = NULL" and inj: "\<And>p q. F p = F q \<Longrightarrow> F p \<noteq> NULL \<Longrightarrow> p = q"
  have dV: "F ts \<in> V" using d(1) V by simp
  have nodes: "\<forall>v \<in> set (F ts # kids (F ts)). heap_taken g v" using vfs_tree_taken [OF tree] vfs_treeD(3) [OF tree dV] dV by auto
  obtain node t g' nm' time where c: "vfs_create (F ts) name type perms new_node s = Some (0, Some node, t)"
    "heap_inv t g' (n - (length cs + 225))" "kept (mem s) (heap_taken g) (mem t) (heap_taken g')" "heap_kept (mem s) g (mem t) g'"
    "\<not> heap_taken g node" "heap_ptr g' (mem t) node 80" "cstr (mem t) nm' cs" "heap_ptr g' (mem t) nm' (Suc (length cs))"
    "\<not> heap_taken g nm'" "nm' \<noteq> node" "children t (F ts) (kids (F ts) @ [node])"
    and v: "vnodes t node = (vnodes s node)\<lparr>vn_parent := F ts, vn_next := NULL, vn_child := NULL, vn_type := type, vn_permissions := perms,
      vn_name := nm', vn_size := 0, vn_creation_time := time, vn_uid := 0, vn_data := NULL\<rparr>"
    and l: "\<forall>v. v \<noteq> node \<longrightarrow> vnodes t v = (vnodes s v)\<lparr>vn_child := vn_child (vnodes t v), vn_next := vn_next (vnodes t v)\<rparr>"
    "\<forall>v. v \<noteq> node \<and> v \<noteq> F ts \<longrightarrow> vn_child (vnodes t v) = vn_child (vnodes s v)"
    "\<forall>v. v \<noteq> node \<and> v \<notin> set (kids (F ts)) \<longrightarrow> vn_next (vnodes t v) = vn_next (vnodes s v)"
    and r: "g_vfs_root t = g_vfs_root s" "strtok_last t = strtok_last s" "vfs_state.more t = vfs_state.more s"
    using vfs_create_contract [OF inv n vfs_tree_nonnull [OF tree dV] name(1) out name(2) vfs_treeD(2) [OF tree dV] nodes] by blast
  let ?kids = "kids(F ts := kids (F ts) @ [node], node := [])" and ?nm = "nm(node := cs)"
  have node0: "node \<noteq> NULL" using heap_ptr_nonnull [OF c(6)] .
  have nV: "node \<notin> V" using c(5) vfs_tree_taken [OF tree] by blast
  have tree': "vfs_tree t g' (insert node V) ?kids ?nm"
    using c v by (intro vfs_create_tree [OF tree dV c(4,5,6) _ _ _ _ _ _ c(11) l]) simp_all
  have new: "\<forall>k \<in> set (kids (F ts)). nm k \<noteq> cs"
  proof -
    have "walk kids nm (F ts) [cs] = NULL" using walk_append [OF d(1) F [symmetric]] F d(2) by metis
    moreover have "\<forall>k \<in> set (kids (F ts)). k \<noteq> NULL" using vfs_treeD(3) [OF tree dV] vfs_tree_nonnull [OF tree] by blast
    ultimately show ?thesis by (auto simp: find_None_iff find_Some_iff split: option.splits)
  qed
  have "walk ?kids ?nm (g_vfs_root s) p = (F(ts @ [cs] := node)) p" for p
  proof -
    have "(\<exists>u. p = u @ [cs] \<and> walk kids nm (g_vfs_root s) u = F ts) \<longleftrightarrow> p = ts @ [cs]" using inj d(1) unfolding F [symmetric] by metis
    then show ?thesis using walk_insert [where K = ?kids and N = ?nm and p = p, OF tree nV dV new _ _ root] by (simp add: F)
  qed
  then have F': "walk ?kids ?nm (g_vfs_root t) = F(ts @ [cs] := node)" using r(1) by auto
  have range: "range (F(ts @ [cs] := node)) - {NULL} = insert node V" using d(2) node0 unfolding V by (auto simp: fun_upd_def)
  have rn: "g_vfs_root s \<noteq> node" using root nV by auto
  have "vn_parent (vnodes t (g_vfs_root s)) = NULL" using arg_cong [OF l(1) [rule_format, OF rn], of vn_parent] par by simp
  then have "vfs_paths t g' (F(ts @ [cs] := node))"
    unfolding vfs_paths_def range r(1) using tree' F' [unfolded r(1), symmetric] vfs_tree_nonnull [OF tree root] by blast
  moreover have "node \<notin> range F" using nV node0 V by auto
  ultimately show ?thesis using c(1-5) v l(1) r node0 by blast
qed

section \<open>Removal\<close>

lemma find_child_split:
  "sibling_chain s c (xs @ node # ys) \<Longrightarrow> node \<notin> set xs \<Longrightarrow> find_child node prv c s = Some (last_or prv xs, node)"
proof (induction xs arbitrary: c prv)
  case Nil
  then show ?case by (subst find_child.simps) (simp add: last_or_def)
next
  case (Cons x xs)
  then show ?case by (subst find_child.simps) (auto simp: last_or_def)
qed

text \<open>Taking a node out of the list of its siblings.\<close>

definition unlink_child :: "u64 \<Rightarrow> u64 \<Rightarrow> u64 \<Rightarrow> 'a vfs_state_scheme \<Rightarrow> 'a vfs_state_scheme" where
  "unlink_child parent prev next s =
     (if prev \<noteq> NULL then upd_vn prev (\<lambda>v. v\<lparr>vn_next := next\<rparr>) s else upd_vn parent (\<lambda>v. v\<lparr>vn_child := next\<rparr>) s)"

lemma unlink_chain:
  assumes "sibling_chain s c (xs @ node # ys)" and "xs \<noteq> []" and "distinct (xs @ node # ys)"
    and "vn_next (vnodes t (last xs)) = vn_next (vnodes s node)"
    and "\<And>n. n \<noteq> last xs \<Longrightarrow> vn_next (vnodes t n) = vn_next (vnodes s n)"
  shows "sibling_chain t c (xs @ ys)"
  using assms
proof (induction xs arbitrary: c)
  case (Cons x xs)
  show ?case
  proof (cases xs)
    case Nil
    then have "sibling_chain s (vn_next (vnodes s node)) ys" "vn_next (vnodes t x) = vn_next (vnodes s node)" "c = x" "x \<noteq> NULL"
      using Cons.prems by auto
    moreover have "sibling_chain t (vn_next (vnodes s node)) ys = sibling_chain s (vn_next (vnodes s node)) ys"
      by (rule sibling_chain_cong, rule Cons.prems(5)) (use Cons.prems(3) Nil in auto)
    ultimately show ?thesis using Nil by simp
  next
    case (Cons y zs)
    then have "x \<noteq> last xs" "xs \<noteq> []" using Cons.prems(3) by auto
    then show ?thesis using Cons.IH [of "vn_next (vnodes s x)"] Cons.prems by simp
  qed
qed simp

lemma unlink_child_contract:
  assumes ch: "children s d (xs @ node # ys)"
  defines "t \<equiv> unlink_child d (last_or NULL xs) (vn_next (vnodes s node)) s"
  shows "children t d (xs @ ys)" and "v \<noteq> d \<Longrightarrow> vn_child (vnodes t v) = vn_child (vnodes s v)"
    and "v \<notin> set xs \<Longrightarrow> vn_next (vnodes t v) = vn_next (vnodes s v)"
    and "vnodes t v = (vnodes s v)\<lparr>vn_child := vn_child (vnodes t v), vn_next := vn_next (vnodes t v)\<rparr>"
    and "\<exists>vs. t = s\<lparr>vnodes := vs\<rparr>"
proof -
  have dist: "distinct (xs @ node # ys)" using sibling_chain_distinct [OF ch] .
  have pn: "xs \<noteq> [] \<Longrightarrow> last xs \<noteq> NULL" using sibling_chain_nonnull [OF ch, of "last xs"] by simp
  have t: "t = (if xs = [] then upd_vn d (\<lambda>v. v\<lparr>vn_child := vn_next (vnodes s node)\<rparr>) s
      else upd_vn (last xs) (\<lambda>v. v\<lparr>vn_next := vn_next (vnodes s node)\<rparr>) s)"
    using pn by (simp add: t_def unlink_child_def last_or_def)
  show "children t d (xs @ ys)"
  proof (cases "xs = []")
    case True
    then show ?thesis using ch sibling_chain_cong [of ys t s] by (auto simp: t upd_vn_def)
  next
    case False
    have "sibling_chain t (vn_child (vnodes s d)) (xs @ ys)"
      by (rule unlink_chain [OF ch False dist]) (use False in \<open>simp_all add: t upd_vn_def\<close>)
    moreover have "vn_child (vnodes t d) = vn_child (vnodes s d)" using False by (simp add: t upd_vn_def)
    ultimately show ?thesis by simp
  qed
  show "vn_child (vnodes t v) = vn_child (vnodes s v)" if "v \<noteq> d" using that by (simp add: t upd_vn_def)
  show "vn_next (vnodes t v) = vn_next (vnodes s v)" if "v \<notin> set xs" using that by (auto simp: t upd_vn_def)
  show "vnodes t v = (vnodes s v)\<lparr>vn_child := vn_child (vnodes t v), vn_next := vn_next (vnodes t v)\<rparr>"
    by (simp add: t upd_vn_def)
  show "\<exists>vs. t = s\<lparr>vnodes := vs\<rparr>" by (simp add: t upd_vn_def) blast
qed

lemma paths_kid:
  assumes tree: "vfs_tree s g V kids nm" and V: "V = range F - {NULL}" and F: "\<And>p. F p = walk kids nm (g_vfs_root s) p"
    and root: "g_vfs_root s \<in> V" "vn_parent (vnodes s (g_vfs_root s)) = NULL" and inj: "\<And>p q. F p = F q \<Longrightarrow> F p \<noteq> NULL \<Longrightarrow> p = q"
    and k: "k \<in> set (kids (F q))" "F q \<in> V"
  shows "F (q @ [nm k]) = k"
proof -
  have kV: "k \<in> V" and par: "vn_parent (vnodes s k) = F q" using vfs_treeD(3,4) [OF tree k(2,1)] .
  then obtain q' where q': "k = F q'" using V by auto
  have k0: "F q' \<noteq> NULL" using kV q' V by auto
  show ?thesis
  proof (cases q' rule: rev_cases)
    case Nil
    then have "k = g_vfs_root s" using q' F by simp
    then show ?thesis using par root(2) k(2) V by auto
  next
    case (snoc u t)
    have "walk kids nm (g_vfs_root s) (u @ [t]) \<noteq> NULL" using k0 snoc F by simp
    note w = walk_snoc [OF tree root(1) this]
    have "F u = F q" using vfs_treeD(4) [OF tree w(1,2)] par q' snoc F by simp
    then have "u = q" using inj [of u q] w(1) V F by auto
    then show ?thesis using w(3) q' snoc F by simp
  qed
qed

text \<open>
  Removing the node at a path takes away everything below it; the two pieces of memory that belong to
  the node go back to the heap.
\<close>

definition without :: "u8 list list \<Rightarrow> (u8 list list \<Rightarrow> u64) \<Rightarrow> u8 list list \<Rightarrow> u64" where
  "without p F q = (if take (length p) q = p then NULL else F q)"

lemma without_snoc_NULL: "without p F (q @ [t]) \<noteq> NULL \<Longrightarrow> (F (q @ [t]) \<noteq> NULL \<Longrightarrow> F q \<noteq> NULL) \<Longrightarrow> without p F q \<noteq> NULL"
  by (cases "length p \<le> length q") (auto simp: without_def split: if_splits)

text \<open>The nodes that are left: none of them is the removed one, and their other children are left too.\<close>

lemma without_nodes:
  assumes inj: "\<And>p q. F p = F q \<Longrightarrow> F p \<noteq> NULL \<Longrightarrow> p = q" and e: "e \<in> range (without p F) - {NULL}"
  obtains q where "e = F q" "take (length p) q \<noteq> p" "e \<in> range F - {NULL}" "e \<noteq> F p"
proof -
  from e obtain q where q: "e = F q" "take (length p) q \<noteq> p" "F q \<noteq> NULL" by (auto simp: without_def split: if_splits)
  moreover have "F q \<noteq> F p" using inj [of q p] q by auto
  ultimately show ?thesis using that [of q] by simp
qed

lemma without_kids:
  assumes inj: "\<And>p q. F p = F q \<Longrightarrow> F p \<noteq> NULL \<Longrightarrow> p = q"
    and kid: "\<And>k q. k \<in> set (kids (F q)) \<Longrightarrow> F q \<noteq> NULL \<Longrightarrow> F (q @ [nm k]) = k \<and> k \<noteq> NULL"
    and split: "kids (F ts) = xs @ F (ts @ [cs]) # ys" "distinct (kids (F ts))"
    and e: "e \<in> range (without (ts @ [cs]) F) - {NULL}"
  shows "set ((kids(F ts := xs @ ys)) e) \<subseteq> range (without (ts @ [cs]) F) - {NULL}"
proof
  fix k
  assume k: "k \<in> set ((kids(F ts := xs @ ys)) e)"
  obtain q where q: "e = F q" "take (length (ts @ [cs])) q \<noteq> ts @ [cs]" "e \<in> range F - {NULL}"
    using without_nodes [OF inj e] by blast
  have "k \<in> set (kids (F q))" using k split(1) q(1) by (auto split: if_splits)
  then have kq: "F (q @ [nm k]) = k" "k \<noteq> NULL" using kid [of k q] q by auto
  have "take (length (ts @ [cs])) (q @ [nm k]) \<noteq> ts @ [cs]"
  proof
    assume "take (length (ts @ [cs])) (q @ [nm k]) = ts @ [cs]"
    then have "q @ [nm k] = ts @ [cs]" using q(2) by (cases "length (ts @ [cs]) \<le> length q") auto
    then show False using kq(1) k q(1) split by auto
  qed
  then have "without (ts @ [cs]) F (q @ [nm k]) = k" using kq(1) by (simp add: without_def)
  then show "k \<in> range (without (ts @ [cs]) F) - {NULL}" using kq(2) by (metis Diff_iff rangeI singletonD)
qed

lemma remove_children:
  assumes tree: "vfs_tree s g V kids nm" and d: "d \<in> V" and split: "kids d = xs @ node # ys" and e: "e \<in> V"
    and t: "vnodes t = vnodes (unlink_child d (last_or NULL xs) (vn_next (vnodes s node)) s)"
  shows "children t e ((kids(d := xs @ ys)) e)"
proof -
  let ?u = "unlink_child d (last_or NULL xs) (vn_next (vnodes s node)) s"
  have ch: "children s d (xs @ node # ys)" using vfs_treeD(2) [OF tree d] split by simp
  note u = unlink_child_contract [OF ch]
  have tchain: "sibling_chain t c ns = sibling_chain ?u c ns" for c ns using t by (intro sibling_chain_cong) simp
  show ?thesis
  proof (cases "e = d")
    case True
    then show ?thesis using u(1) tchain t by simp
  next
    case False
    have "vn_next (vnodes ?u k) = vn_next (vnodes s k)" if "k \<in> set (kids e)" for k
    proof -
      have "k \<notin> set (kids d)" using vfs_treeD(4) [OF tree e that] vfs_treeD(4) [OF tree d, of k] False by auto
      then show ?thesis using split by (intro u(3)) auto
    qed
    then have "sibling_chain ?u c (kids e) = sibling_chain s c (kids e)" for c by (rule sibling_chain_cong)
    then show ?thesis using vfs_treeD(2) [OF tree e] False u(2) tchain t by simp
  qed
qed

lemma walk_remove:
  assumes tree: "vfs_tree s g V kids nm" and F: "\<And>p. F p = walk kids nm r p" and r: "r \<in> V"
    and K: "\<And>v. K v = (if v = F ts then xs @ ys else kids v)" and tree': "vfs_tree t h W K nm" and r': "r \<in> W"
    and inj: "\<And>p q. F p = F q \<Longrightarrow> F p \<noteq> NULL \<Longrightarrow> p = q"
    and split: "kids (F ts) = xs @ node # ys" "nm node = cs" "\<forall>k \<in> set (xs @ ys). nm k \<noteq> cs"
  shows "walk K nm r p = without (ts @ [cs]) F p"
proof (induction p rule: rev_induct)
  case Nil
  then show ?case using F [of "[]"] by (simp add: without_def)
next
  case (snoc t p)
  let ?F = "without (ts @ [cs]) F"
  have pre: "F (p @ [t]) \<noteq> NULL \<Longrightarrow> F p \<noteq> NULL" using walk_prefix [OF tree r] F by simp
  show ?case
  proof (cases "?F p = NULL")
    case True
    then have "walk K nm r (p @ [t]) = NULL" using walk_prefix [OF tree' r', of p "[t]"] snoc by auto
    then show ?thesis using without_snoc_NULL [of "ts @ [cs]" F p t] pre True by metis
  next
    case False
    then have p: "?F p = F p" "take (length (ts @ [cs])) p \<noteq> ts @ [cs]" "F p \<noteq> NULL" by (auto simp: without_def split: if_splits)
    have w: "walk K nm r (p @ [t]) = walk K nm (F p) [t]" by (rule walk_append [OF p(3) trans [OF snoc p(1)]])
    have w': "F (p @ [t]) = walk kids nm (F p) [t]" using walk_append [OF p(3)] F by metis
    show ?thesis
    proof (cases "p = ts")
      case True
      have "find (\<lambda>k. nm k = t) (xs @ ys) = (if t = cs then None else find (\<lambda>k. nm k = t) (xs @ node # ys))"
        using split(2,3) find_None_iff [of "\<lambda>k. nm k = cs" "xs @ ys"] 
        by (cases "t = cs") (auto simp: find_append split: option.split)
      then show ?thesis using w w' True split(1) K [of "F ts"] by (auto simp: without_def split: option.splits)
    next
      case False
      then have "F p \<noteq> F ts" using inj p(3) by blast
      moreover have "take (length (ts @ [cs])) (p @ [t]) \<noteq> ts @ [cs]"
        using p(2) False by (cases "length (ts @ [cs]) \<le> length p") auto
      ultimately show ?thesis using w w' K [of "F p"] by (simp add: without_def split: option.splits)
    qed
  qed
qed

text \<open>A node, the list it is in, and the memory it owns.\<close>

lemma paths_siblings:
  assumes "vfs_paths s g F" and node: "F (ts @ [cs]) \<noteq> NULL"
  obtains xs ys j where "children s (F ts) (xs @ F (ts @ [cs]) # ys)" "F ts \<noteq> NULL" "heap_ptr g (mem s) (F (ts @ [cs])) 80"
    "heap_ptr g (mem s) (vn_name (vnodes s (F (ts @ [cs])))) j" "vn_name (vnodes s (F (ts @ [cs]))) \<noteq> F (ts @ [cs])"
  using assms(1)
proof (rule vfs_pathsE)
  fix V kids nm
  assume tree: "vfs_tree s g V kids nm" and V: "V = range F - {NULL}" and F: "\<And>p. F p = walk kids nm (g_vfs_root s) p" and root: "g_vfs_root s \<in> V"
  have nd: "F ts \<in> V" "F (ts @ [cs]) \<in> set (kids (F ts))" using walk_snoc [OF tree root, of ts cs] node F by simp_all
  then obtain xs ys where "kids (F ts) = xs @ F (ts @ [cs]) # ys" by (meson split_list)
  then have "children s (F ts) (xs @ F (ts @ [cs]) # ys)" using vfs_treeD(2) [OF tree nd(1)] by simp
  moreover have nV: "F (ts @ [cs]) \<in> V" and "F ts \<noteq> NULL" using nd(1) node V by simp_all
  moreover have "vn_name (vnodes s (F (ts @ [cs]))) \<noteq> F (ts @ [cs])" using vfs_treeD(7) [OF tree nV] nV by auto
  ultimately show thesis using that [OF _ _ vfs_treeD(1,6) [OF tree nV]] by blast
qed

lemma remove_tree:
  assumes paths: "vfs_paths s g F" and node: "F (ts @ [cs]) \<noteq> NULL"
    and own: "heap_owns s1 g (vn_name (vnodes s (F (ts @ [cs])))) i h1" "heap_owns s2 h1 (F (ts @ [cs])) 80 h2"
    and ch: "children s (F ts) (xs @ F (ts @ [cs]) # ys)"
    and t: "vnodes t = vnodes (unlink_child (F ts) (last_or NULL xs) (vn_next (vnodes s (F (ts @ [cs])))) s)"
      "mem t = mem s" "g_vfs_root t = g_vfs_root s"
  shows "vfs_paths t h2 (without (ts @ [cs]) F)"
  using paths
proof (rule vfs_pathsE)
  fix V kids nm
  let ?node = "F (ts @ [cs])" and ?d = "F ts" and ?F = "without (ts @ [cs]) F" and ?r = "g_vfs_root s"
  assume tree: "vfs_tree s g V kids nm" and V: "V = range F - {NULL}" and F: "\<And>p. F p = walk kids nm ?r p" and root: "?r \<in> V"
    and par: "vn_parent (vnodes s ?r) = NULL" and inj: "\<And>p q. F p = F q \<Longrightarrow> F p \<noteq> NULL \<Longrightarrow> p = q"
  have kid: "F (q @ [nm k]) = k \<and> k \<noteq> NULL" if "k \<in> set (kids (F q))" "F q \<noteq> NULL" for k q
    using paths_kid [OF tree V F root par inj that(1)] vfs_treeD(3) [OF tree _ that(1)] that(2) V by simp
  have nd: "?d \<in> V" "nm ?node = cs" using walk_snoc [OF tree root, of ts cs] node F by simp_all
  have nV: "?node \<in> V" and d0: "?d \<noteq> NULL" using node nd(1) V by simp_all
  have split: "kids ?d = xs @ ?node # ys" using sibling_chain_unique [OF vfs_treeD(2) [OF tree nd(1)] ch] .
  have dist: "distinct (kids ?d)" using sibling_chain_distinct [OF ch] split by simp
  let ?kids = "kids(?d := xs @ ys)" and ?V = "range ?F - {NULL}"
  have only: "\<forall>k \<in> set (xs @ ys). nm k \<noteq> cs"
  proof
    fix k
    assume k: "k \<in> set (xs @ ys)"
    then have "F (ts @ [nm k]) = k" using kid [of k ts] split d0 by auto
    then show "nm k \<noteq> cs" using k dist split by auto
  qed
  have VV: "e \<in> V" "e \<noteq> ?node" if "e \<in> ?V" for e using without_nodes [OF inj that] V by blast+
  have rootV: "?r \<in> ?V" using root F [of "[]"] V by (auto simp: without_def intro!: image_eqI [of _ _ "[]"])
  note u4 = unlink_child_contract(4) [OF ch, folded t(1)]
  have f: "vn_parent (vnodes t v) = vn_parent (vnodes s v)" "vn_name (vnodes t v) = vn_name (vnodes s v)" for v
    using arg_cong [OF u4 [of v], of vn_parent] arg_cong [OF u4 [of v], of vn_name] by simp_all
  have keep: "heap_ptr h2 (mem t) e j" if "heap_ptr g (mem s) e j" "e \<noteq> vn_name (vnodes s ?node)" "e \<noteq> ?node" for e j
    using heap_owns_rest [OF own(2) heap_owns_rest [OF own(1) that(1,2)] that(3)] t(2) by simp
  have injn: "inj_on (\<lambda>e. vn_name (vnodes s e)) V" using tree by (simp add: vfs_tree_def)
  have names: "vn_name (vnodes s e) \<noteq> vn_name (vnodes s ?node)" "vn_name (vnodes s e) \<noteq> ?node" "e \<noteq> vn_name (vnodes s ?node)"
    if "e \<in> ?V" for e
    using VV [OF that] nV vfs_treeD(7) [OF tree] inj_onD [OF injn _ _ nV] by metis+
  have "vfs_tree t h2 ?V ?kids nm" unfolding vfs_tree_def f
  proof (intro conjI ballI)
    show "inj_on (\<lambda>e. vn_name (vnodes s e)) ?V" by (rule inj_on_subset [OF injn]) (use VV(1) in blast)
    fix e
    assume e: "e \<in> ?V"
    note te = vfs_treeD [OF tree VV(1) [OF e]]
    show "heap_ptr h2 (mem t) e 80" by (rule keep [OF te(1) names(3) [OF e] VV(2) [OF e]])
    show "heap_ptr h2 (mem t) (vn_name (vnodes s e)) (Suc (length (nm e)))" by (rule keep [OF te(6) names(1,2) [OF e]])
    show "children t e (?kids e)" by (rule remove_children [OF tree nd(1) split VV(1) [OF e] t(1)])
    show "set (?kids e) \<subseteq> ?V" by (rule without_kids [where F = F and kids = kids and nm = nm, OF _ _ split dist e]) (use inj kid in blast)+
    show "cstr (mem t) (vn_name (vnodes s e)) (nm e)" using te(5) t(2) by simp
    show "vn_name (vnodes s e) \<notin> ?V" using te(7) VV(1) by blast
    show "vn_parent (vnodes s k) = e" if "k \<in> set (?kids e)" for k using te(4) [of k] that split by (auto split: if_splits)
  qed
  moreover from walk_remove [where r = ?r and K = ?kids, OF tree F root _ this rootV inj split nd(2) only]
  have "?F = walk ?kids nm ?r" by (intro ext) simp
  ultimately show ?thesis unfolding vfs_paths_def t(3) f using rootV par by blast
qed

lemma vfs_remove_paths:
  assumes inv: "heap_inv s g n" and spare: "spare 3 g"
    and paths: "vfs_paths s g F" and node: "F (ts @ [cs]) \<noteq> NULL"
  shows "\<exists>t h. vfs_remove (F ts) (F (ts @ [cs])) s = Some (0, t) \<and> heap_inv t h n \<and> vfs_paths t h (without (ts @ [cs]) F) \<and>
    mem t = mem s \<and> (\<forall>v. vnodes t v = (vnodes s v)\<lparr>vn_child := vn_child (vnodes t v), vn_next := vn_next (vnodes t v)\<rparr>)"
proof -
  let ?node = "F (ts @ [cs])" and ?d = "F ts"
  let ?nm = "vn_name (vnodes s ?node)"
  obtain xs ys j where ch: "children s ?d (xs @ ?node # ys)" "?d \<noteq> NULL"
    and ptr: "heap_ptr g (mem s) ?node 80" "heap_ptr g (mem s) ?nm j" "?nm \<noteq> ?node" by (rule paths_siblings [OF paths node])
  let ?u = "unlink_child ?d (last_or NULL xs) (vn_next (vnodes s ?node)) s"
  note uc = unlink_child_contract [OF ch(1)]
  from uc(5) obtain vs where u: "?u = s\<lparr>vnodes := vs\<rparr>" by blast
  have nm: "vn_name (vnodes ?u ?node) = ?nm" using arg_cong [OF uc(4) [of ?node], of vn_name] by simp
  have inv1: "heap_inv ?u g n" and mu: "mem ?u = mem s" using inv unfolding u by simp_all
  have two: "spare 2 g" "spare (Suc 2) g" using spare spare_mono [OF spare] by simp_all
  obtain h1 where o1: "heap_owns ?u g ?nm j h1" using heap_ptr_owns [OF inv1 _ two(1)] ptr(2) mu by metis
  obtain t1 where t1: "kfree ?nm ?u = Some t1" "heap_inv t1 h1 n" "mem t1 = mem ?u" "heap_frame ?u t1"
    using kfree_releases [OF inv1 o1] by blast
  have "heap_ptr h1 (mem t1) ?node 80" using heap_owns_rest [OF o1 ptr(1)] ptr(3) t1(3) mu by simp
  then obtain h where o2: "heap_owns t1 h1 ?node 80 h" using heap_ptr_owns [OF t1(2) _ heap_owns_spare [OF o1 two(2)]] by blast
  obtain t where t: "kfree ?node t1 = Some t" "heap_inv t h n" "mem t = mem t1" "heap_frame t1 t"
    using kfree_releases [OF t1(2) o2] by blast
  have fr: "vnodes t = vnodes ?u" "mem t = mem s" "g_vfs_root t = g_vfs_root s"
    using heap_frame_vfs [OF t1(4)] heap_frame_vfs [OF t(4)] t(3) t1(3) u by simp_all
  have "find_child ?node NULL (vn_child (vnodes s ?d)) s = Some (last_or NULL xs, ?node)"
    using find_child_split [OF ch(1)] sibling_chain_distinct [OF ch(1)] by simp
  then have "vfs_remove ?d ?node s = Some (0, t)"
    using node ch(2) t1(1) t(1) nm by (simp add: vfs_remove_def unlink_child_def Let_def)
  moreover have "vfs_paths t h (without (ts @ [cs]) F)" by (rule remove_tree [OF paths node o1 o2 ch(1) fr])
  ultimately show ?thesis using t(2) fr uc(4) by (intro exI [of _ t] exI [of _ h]) simp
qed

section \<open>Lookup and initialisation on paths\<close>

lemma vfs_lookup_paths:
  assumes inv: "heap_inv s g n" and n: "length cs + 73 \<le> n" and paths: "vfs_paths s g F"
    and path: "path \<noteq> NULL" "string_at (mem s) (heap_taken g) path cs"
    and slash: "string_at (mem s) (heap_taken g) (lit ''/'') [0x2F]"
  shows "\<exists>t. vfs_lookup lit path s = Some (F (tokens cs), t) \<and> heap_inv t g n \<and> vfs_paths t g F \<and>
    kept (mem s) (heap_taken g) (mem t) (heap_taken g) \<and> vnodes t = vnodes s \<and> g_vfs_root t = g_vfs_root s \<and>
    vfs_state.more t = vfs_state.more s \<and> kernel_core t = kernel_core s"
  using paths
proof (rule vfs_pathsE)
  fix V kids nm
  assume tree: "vfs_tree s g V kids nm" and F: "\<And>p. F p = walk kids nm (g_vfs_root s) p" and root: "g_vfs_root s \<in> V"
  obtain t where t: "vfs_lookup lit path s = Some (F (tokens cs), t)" "heap_inv t g n"
    "kept (mem s) (heap_taken g) (mem t) (heap_taken g)" "vnodes t = vnodes s" "g_vfs_root t = g_vfs_root s"
    "vfs_state.more t = vfs_state.more s" "kernel_core t = kernel_core s"
    using vfs_lookup_contract [where lit = lit, OF inv n tree root path slash] F by metis
  have "heap_kept (mem s) g (mem t) g" using t(3) by (intro heap_kept_mem) (auto simp: kept_def dest: in_heap_taken)
  then show ?thesis using t vfs_paths_frame [OF paths t(4,5)] by blast
qed

text \<open>What initialisation does once the root has its memory.\<close>

lemma vfs_init_rest:
  assumes a: "kmalloc 80 s = Some (root, s1)" "heap_inv s1 g1 n" "root \<noteq> NULL" "heap_ptr g1 (mem s1) root 80"
    and slash: "string_at (mem s1) (heap_taken g1) (lit ''/'') [0x2F]" and n: "74 \<le> n"
  shows "\<exists>t g'. vfs_init lit s = Some (0, t) \<and> heap_inv t g' (n - 74) \<and>
    vfs_paths t g' ((\<lambda>_. NULL)([] := g_vfs_root t)) \<and> kept (mem s1) (heap_taken g1) (mem t) (heap_taken g') \<and>
    heap_kept (mem s1) g1 (mem t) g' \<and> vn_type (vnodes t (g_vfs_root t)) = VNODE_DIRECTORY \<and>
    vn_permissions (vnodes t (g_vfs_root t)) = 0x557 \<and> vn_uid (vnodes t (g_vfs_root t)) = 0 \<and>
    vn_child (vnodes t (g_vfs_root t)) = NULL \<and> vn_next (vnodes t (g_vfs_root t)) = NULL \<and> vfs_state.more t = vfs_state.more s1"
proof -
  define s2 where "s2 = upd_vn root (\<lambda>v. v\<lparr>vn_parent := NULL, vn_child := NULL, vn_next := NULL\<rparr>) (s1\<lparr>g_vfs_root := root\<rparr>)"
  have i2: "heap_inv s2 g1 n" "mem s2 = mem s1" "g_vfs_root s2 = root" using a(2) by (simp_all add: s2_def upd_vn_def)
  have sl2: "string_at (mem s2) (heap_taken g1) (lit ''/'') [0x2F]" using slash i2(2) by simp
  have n73: "length [0x2F :: u8] + 73 \<le> n" using n by simp
  obtain nm s3 g3 where c: "strdup (lit ''/'') s2 = Some (nm, s3)" "heap_inv s3 g3 (n - (length [0x2F :: u8] + 73))"
    "string_at (mem s3) (heap_taken g3) nm [0x2F]" "kept (mem s2) (heap_taken g1) (mem s3) (heap_taken g3)" "heap_frame s2 s3"
    "heap_owns s3 g3 nm (Suc (length [0x2F :: u8])) g1" "\<forall>x. in_range nm (Suc (length [0x2F :: u8])) x \<longrightarrow> \<not> heap_taken g1 x"
    using strdup_copies [OF i2(1) sl2 n73] by blast
  define s4 where "s4 = upd_vn root (\<lambda>v. v\<lparr>vn_name := nm, vn_type := VNODE_DIRECTORY, vn_permissions := root_permissions,
    vn_size := 0, vn_uid := 0, vn_data := NULL\<rparr>) s3"
  obtain time s5 where ts: "get_rtc_timestamp s4 = (time, s5)" by fastforce
  obtain b tr where s5: "s5 = s4\<lparr>int_flag := b, io_trace := tr\<rparr>" using rtc_timestamp_frame [of s4] ts by auto
  define t where "t = upd_vn root (\<lambda>v. v\<lparr>vn_creation_time := time\<rparr>) s5"
  have run: "vfs_init lit s = Some (0, t)"
    using a(1,3) c(1) ts unfolding vfs_init_def t_def s4_def s2_def by (simp add: Let_def)
  have m: "mem t = mem s3" "heap_inv t g3 (n - 74)" "g_vfs_root t = root"
    using c(2) i2(3) heap_frame_vfs(2) [OF c(5)] by (simp_all add: t_def s5 s4_def upd_vn_def)
  have v: "vn_parent (vnodes t root) = NULL" "vn_child (vnodes t root) = NULL" "vn_name (vnodes t root) = nm"
    "vn_type (vnodes t root) = VNODE_DIRECTORY" "vn_permissions (vnodes t root) = 0x557" "vn_uid (vnodes t root) = 0"
    "vn_next (vnodes t root) = NULL"
    using heap_frame_vfs(1) [OF c(5)] by (simp_all add: t_def s5 s4_def s2_def upd_vn_def root_permissions_def)
  have more: "vfs_state.more t = vfs_state.more s1"
    using heap_frame_vfs(4) [OF c(5)] by (simp add: t_def s5 s4_def s2_def upd_vn_def)
  have k: "kept (mem s1) (heap_taken g1) (mem t) (heap_taken g3)" using c(4) i2(2) m(1) by simp
  have hk: "heap_kept (mem s1) g1 (mem t) g3"
    using heap_owns_kept [OF c(6), of "mem s1"] c(4) i2(2) m(1) by (auto simp: kept_def dest: in_heap_taken)
  have ptr: "heap_ptr g3 (mem t) root 80" "heap_ptr g3 (mem t) nm (Suc (Suc 0))"
    using heap_ptr_kept [OF a(4) hk] heap_owns_ptr [OF c(6)] m(1) by simp_all
  have "nm \<noteq> root" using c(7) heap_ptr_taken [OF a(4)] in_range_start [of _ nm] by auto
  then have tree: "vfs_tree t g3 {root} (\<lambda>_. []) (\<lambda>_. [0x2F])" using c(3) v m(1) ptr by (simp add: vfs_tree_def string_at_def)
  have F: "walk (\<lambda>_. []) (\<lambda>_. [0x2F]) root = (\<lambda>_. NULL)([] := root)"
  proof
    show "walk (\<lambda>_. []) (\<lambda>_. [0x2F]) root p = ((\<lambda>_. NULL)([] := root)) p" for p by (cases p) simp_all
  qed
  have r: "range ((\<lambda>_. NULL)([] := root)) - {NULL} = {root}" using a(3) by (auto simp: fun_upd_def)
  have "vfs_paths t g3 ((\<lambda>_. NULL)([] := root))" unfolding vfs_paths_def r m(3) using tree F a(3) v(1) by metis
  then show ?thesis using run m k v more hk by (intro exI [of _ t] exI [of _ g3]) simp
qed

lemma vfs_init_contract:
  assumes inv: "heap_inv s g n" and n: "226 \<le> n" and slash: "string_at (mem s) (heap_taken g) (lit ''/'') [0x2F]"
  shows "\<exists>t g'. vfs_init lit s = Some (0, t) \<and> heap_inv t g' (n - 226) \<and>
    vfs_paths t g' ((\<lambda>_. NULL)([] := g_vfs_root t)) \<and> kept (mem s) (heap_taken g) (mem t) (heap_taken g') \<and>
    heap_kept (mem s) g (mem t) g' \<and> vn_type (vnodes t (g_vfs_root t)) = VNODE_DIRECTORY \<and>
    vn_permissions (vnodes t (g_vfs_root t)) = 0x557 \<and> vn_uid (vnodes t (g_vfs_root t)) = 0 \<and>
    vn_child (vnodes t (g_vfs_root t)) = NULL \<and> vn_next (vnodes t (g_vfs_root t)) = NULL \<and> vfs_state.more t = vfs_state.more s"
proof -
  have n80: "unat (80 :: u64) + 72 \<le> n" "n - (unat (80 :: u64) + 72) = n - 152" "74 \<le> n - 152" "n - 152 - 74 = n - 226" using n by simp_all
  obtain root s1 g1 where a: "kmalloc 80 s = Some (root, s1)" "heap_inv s1 g1 (n - 152)" "root \<noteq> NULL"
    "heap_owns s1 g1 root 80 g" "kept (mem s) (heap_taken g) (mem s1) (heap_taken g1)" "heap_frame s s1"
    using kmalloc_allocates [OF inv n80(1)] by (auto simp: n80(2))
  have hk: "heap_kept (mem s) g (mem s1) g1" using a(4,5) by (intro heap_owns_kept) (auto simp: kept_def dest: in_heap_taken)
  have more: "vfs_state.more s1 = vfs_state.more s" by (rule heap_frame_vfs(4) [OF a(6)])
  obtain t g' where t: "vfs_init lit s = Some (0, t)" "heap_inv t g' (n - 226)"
    "vfs_paths t g' ((\<lambda>_. NULL)([] := g_vfs_root t))" "kept (mem s1) (heap_taken g1) (mem t) (heap_taken g')" "heap_kept (mem s1) g1 (mem t) g'"
    "vn_type (vnodes t (g_vfs_root t)) = VNODE_DIRECTORY" "vn_permissions (vnodes t (g_vfs_root t)) = 0x557" "vn_uid (vnodes t (g_vfs_root t)) = 0"
    "vn_child (vnodes t (g_vfs_root t)) = NULL" "vn_next (vnodes t (g_vfs_root t)) = NULL" "vfs_state.more t = vfs_state.more s1"
    using vfs_init_rest [where lit = lit, OF a(1-3) heap_owns_ptr [OF a(4)] string_at_kept [OF slash a(5)] n80(3)] unfolding n80(4) by blast
  then show ?thesis using kept_trans [OF a(5) t(4)] heap_kept_trans [OF hk t(5)] more by metis
qed

section \<open>The file system as a store of paths\<close>

text \<open>
  What a client may rely on. \<open>str s g a cs\<close> says that the string \<open>cs\<close> is at \<open>a\<close>; \<open>n\<close> is the room that is left in
  the heap. Creation and lookup together give the map its laws.
\<close>

locale path_store =
  fixes ok :: "'s \<Rightarrow> 'g \<Rightarrow> nat \<Rightarrow> bool"
    and paths :: "'s \<Rightarrow> 'g \<Rightarrow> (u8 list list \<Rightarrow> u64) \<Rightarrow> bool"
    and str :: "'s \<Rightarrow> 'g \<Rightarrow> u64 \<Rightarrow> u8 list \<Rightarrow> bool"
    and create :: "u64 \<Rightarrow> u64 \<Rightarrow> u64 \<Rightarrow> 's \<Rightarrow> (u64 \<times> 's) option"
    and lookup :: "u64 \<Rightarrow> 's \<Rightarrow> (u64 \<times> 's) option"
  assumes create_ok: "ok s g n \<Longrightarrow> length cs + 225 \<le> n \<Longrightarrow> paths s g F \<Longrightarrow> F ts \<noteq> NULL \<Longrightarrow> F (ts @ [cs]) = NULL \<Longrightarrow>
      name \<noteq> NULL \<Longrightarrow> str s g name cs \<Longrightarrow> new_node \<noteq> NULL \<Longrightarrow>
      \<exists>node t g'. create (F ts) name new_node s = Some (node, t) \<and> ok t g' (n - (length cs + 225)) \<and>
        paths t g' (F(ts @ [cs] := node)) \<and> (\<forall>a as. str s g a as \<longrightarrow> str t g' a as)"
    and lookup_ok: "ok s g n \<Longrightarrow> length cs + 73 \<le> n \<Longrightarrow> paths s g F \<Longrightarrow> path \<noteq> NULL \<Longrightarrow> str s g path cs \<Longrightarrow>
      \<exists>t. lookup path s = Some (F (tokens cs), t)"
begin

lemma create_lookup:
  assumes "ok s g n" and n: "length cs + length ps + 298 \<le> n" and F: "paths s g F" "F ts \<noteq> NULL" "F (ts @ [cs]) = NULL"
    and args: "name \<noteq> NULL" "str s g name cs" "new_node \<noteq> NULL" and path: "path \<noteq> NULL" "str s g path ps"
  shows "\<exists>node t u. create (F ts) name new_node s = Some (node, t) \<and>
    lookup path t = Some (if tokens ps = ts @ [cs] then node else F (tokens ps), u)"
proof -
  have nc: "length cs + 225 \<le> n" using n by simp
  obtain node t g' where t: "create (F ts) name new_node s = Some (node, t)" "ok t g' (n - (length cs + 225))"
    "paths t g' (F(ts @ [cs] := node))" "\<forall>a as. str s g a as \<longrightarrow> str t g' a as"
    using create_ok [OF assms(1) nc F args] by blast
  have np: "length ps + 73 \<le> n - (length cs + 225)" using n by simp
  have "str t g' path ps" using t(4) path(2) by blast
  from lookup_ok [OF t(2) np t(3) path(1) this] show ?thesis using t(1) by auto
qed

end

definition create_node :: "vnode_type_t \<Rightarrow> u32 \<Rightarrow> u64 \<Rightarrow> u64 \<Rightarrow> u64 \<Rightarrow> 'a vfs_state_scheme \<Rightarrow> (u64 \<times> 'a vfs_state_scheme) option" where
  "create_node type perms d name new_node s =
     (case vfs_create d name type perms new_node s of Some (r, Some node, t) \<Rightarrow> if r = 0 then Some (node, t) else None | _ \<Rightarrow> None)"

lemma create_node_conv: "create_node type perms d name new_node s = Some (node, t) \<longleftrightarrow>
    vfs_create d name type perms new_node s = Some (0, Some node, t)"
  by (auto simp: create_node_def split: option.splits prod.splits if_splits)

interpretation vfs: path_store
  "\<lambda>s g n. heap_inv s g n \<and> string_at (mem s) (heap_taken g) (lit ''/'') [0x2F]" vfs_paths
  "\<lambda>s g. string_at (mem s) (heap_taken g)" "create_node type perms" "vfs_lookup lit"
  for lit type perms
proof
  fix s :: "'a vfs_state_scheme" and g n cs F ts name new_node path
  show "\<exists>node t g'. create_node type perms (F ts) name new_node s = Some (node, t) \<and>
      (heap_inv t g' (n - (length cs + 225)) \<and> string_at (mem t) (heap_taken g') (lit ''/'') [0x2F]) \<and>
      vfs_paths t g' (F(ts @ [cs] := node)) \<and>
      (\<forall>a as. string_at (mem s) (heap_taken g) a as \<longrightarrow> string_at (mem t) (heap_taken g') a as)"
    if "heap_inv s g n \<and> string_at (mem s) (heap_taken g) (lit ''/'') [0x2F]" "length cs + 225 \<le> n" "vfs_paths s g F" "F ts \<noteq> NULL"
      "F (ts @ [cs]) = NULL" "name \<noteq> NULL" "string_at (mem s) (heap_taken g) name cs" "new_node \<noteq> NULL"
    using vfs_create_paths [OF conjunct1 [OF that(1)] that(2-8), of type perms] that(1) string_at_kept
    unfolding create_node_conv by blast
  show "\<exists>t. vfs_lookup lit path s = Some (F (tokens cs), t)"
    if "heap_inv s g n \<and> string_at (mem s) (heap_taken g) (lit ''/'') [0x2F]" "length cs + 73 \<le> n" "vfs_paths s g F" "path \<noteq> NULL"
      "string_at (mem s) (heap_taken g) path cs"
    using vfs_lookup_paths [where lit = lit, OF conjunct1 [OF that(1)] that(2-5) conjunct2 [OF that(1)]] by blast
qed

section \<open>Properties\<close>

text \<open>
  A state with a heap of one block that holds three small allocations; the strings \<open>/\<close> at address 16 and \<open>/a\<close> at
  address 32 lie outside of it.
\<close>

definition small_fs :: "'a vfs_state_scheme \<Rightarrow> 'a vfs_state_scheme" where
  "small_fs s = (let m = \<lparr>min_prev = NULL, min_next = NULL, min_block = 0x100000, min_magic = LIBALLOC_MAGIC, min_size = 42, min_req_size = 10\<rparr>
     in s\<lparr>majors := (\<lambda>_. \<lparr>maj_prev = NULL, maj_next = NULL, maj_pages = 16, maj_size = 65536, maj_usage = 286, maj_first = 0x100028\<rparr>),
          minors := (\<lambda>_. m)(0x100028 := m\<lparr>min_next := 0x100100\<rparr>, 0x100100 := m\<lparr>min_prev := 0x100028, min_next := 0x100200\<rparr>,
            0x100200 := m\<lparr>min_prev := 0x100100\<rparr>),
          l_memRoot := 0x100000, l_bestBet := NULL, liballoc_lock_var := False,
          mem := (\<lambda>_. 0)(0x10 := 0x2F, 0x20 := 0x2F, 0x21 := 0x61)\<rparr>)"

abbreviation (input) small_view :: heap_view where
  "small_view \<equiv> [(0x100000, 0x110000, [(0x100028, 82), (0x100100, 82), (0x100200, 82)])]"

lemma small_fs_ok: "heap_inv (small_fs s) small_view 1000" "spare 3 small_view"
proof -
  have "heap_wf (small_fs s) [(0x100000, [0x100028, 0x100100, 0x100200])]"
    by (simp add: small_fs_def Let_def heap_wf_def block_ok_def block_end_def area_of_def)
  then show "heap_inv (small_fs s) small_view 1000"
    by (auto simp: heap_inv_def view_room_def small_fs_def Let_def block_view_def block_end_def area_of_def
        intro!: exI [of _ "[(0x100000, [0x100028, 0x100100, 0x100200])]"])
  show "spare 3 small_view" by (simp add: spare_def)
qed

lemma small_taken: "unat x < 0x100000 \<Longrightarrow> heap_taken small_view x"
  by (simp add: heap_taken_def)

lemma small_string:
  assumes "cstr (mem (small_fs s)) a cs" and "unat a + length cs < 0x100000"
  shows "string_at (mem (small_fs s)) (heap_taken small_view) a cs"
proof -
  have "heap_taken small_view x" if "in_range a (Suc (length cs)) x" for x
  proof -
    have "unat a \<le> unat x \<and> unat x < unat a + Suc (length cs)" using that assms(2) by (simp add: in_range_nat)
    then show ?thesis using assms(2) by (intro small_taken) simp
  qed
  then show ?thesis using assms(1) by (simp add: string_at_def)
qed

lemma small_fs_strings:
  "string_at (mem (small_fs s)) (heap_taken small_view) 0x10 [0x2F]"
  "string_at (mem (small_fs s)) (heap_taken small_view) 0x20 [0x2F, 0x61]"
  "string_at (mem (small_fs s)) (heap_taken small_view) 0x21 [0x61]"
  by (rule small_string; simp add: small_fs_def Let_def)+

text \<open>
  The file system starts as a single directory: \<open>vfs_init\<close> returns 0 and leaves the map that takes the empty path to
  the root and every other path to nothing, whenever the heap has room for the node and its name. The root is a
  directory of user 0 with the permissions \<open>rwxr-xr-x\<close>.
\<close>

theorem vfs_init_paths:
  assumes "heap_inv s g n" and "226 \<le> n" and "string_at (mem s) (heap_taken g) (lit ''/'') [0x2F]"
  shows "\<exists>t g'. vfs_init lit s = Some (0, t) \<and> heap_inv t g' (n - 226) \<and>
    vfs_paths t g' ((\<lambda>_. NULL)([] := g_vfs_root t)) \<and> ls_perms (vnodes t (g_vfs_root t)) = ''drwxr-xr-x'' \<and>
    vn_uid (vnodes t (g_vfs_root t)) = 0"
proof -
  obtain t g' where c: "vfs_init lit s = Some (0, t)" "heap_inv t g' (n - 226)" "vfs_paths t g' ((\<lambda>_. NULL)([] := g_vfs_root t))"
    "vn_type (vnodes t (g_vfs_root t)) = VNODE_DIRECTORY" "vn_permissions (vnodes t (g_vfs_root t)) = 0x557" "vn_uid (vnodes t (g_vfs_root t)) = 0"
    using vfs_init_contract [where lit = lit, OF assms] by blast
  have "ls_perms (vnodes t (g_vfs_root t)) = ''drwxr-xr-x''" using c(4,5) by (simp add: ls_perms_def)
  then show ?thesis using c by blast
qed

theorem vfs_init_paths_witness:
  "\<forall>s :: vfs_state. \<exists>t g'. vfs_init (\<lambda>_. 0x10) (small_fs s) = Some (0, t) \<and> heap_inv t g' 774 \<and>
     vfs_paths t g' ((\<lambda>_. NULL)([] := g_vfs_root t)) \<and> ls_perms (vnodes t (g_vfs_root t)) = ''drwxr-xr-x''"
proof
  fix s :: vfs_state
  show "\<exists>t g'. vfs_init (\<lambda>_. 0x10) (small_fs s) = Some (0, t) \<and> heap_inv t g' 774 \<and>
     vfs_paths t g' ((\<lambda>_. NULL)([] := g_vfs_root t)) \<and> ls_perms (vnodes t (g_vfs_root t)) = ''drwxr-xr-x''"
    using vfs_init_paths [where lit = "\<lambda>_. 0x10", OF small_fs_ok(1) _ small_fs_strings(1), of s] by auto
qed

text \<open>An initialised file system, for the other witnesses.\<close>

lemma small_fs_root:
  obtains t g where "vfs_init (\<lambda>_. 0x10) (small_fs s) = Some (0, t)" "heap_inv t g (1000 - 226)"
    "vfs_paths t g ((\<lambda>_. NULL)([] := g_vfs_root t))" "g_vfs_root t \<noteq> NULL" "spare 3 g"
    "\<forall>a cs. string_at (mem (small_fs s)) (heap_taken small_view) a cs \<longrightarrow> string_at (mem t) (heap_taken g) a cs"
    "\<forall>x. unat x < 0x100000 \<longrightarrow> heap_taken g x \<and> mem t x = mem (small_fs s) x"
proof -
  have room: "226 \<le> (1000 :: nat)" by simp
  obtain t g where t: "vfs_init (\<lambda>_. 0x10) (small_fs s) = Some (0, t)" "heap_inv t g (1000 - 226)"
    "vfs_paths t g ((\<lambda>_. NULL)([] := g_vfs_root t))" "kept (mem (small_fs s)) (heap_taken small_view) (mem t) (heap_taken g)"
    "heap_kept (mem (small_fs s)) small_view (mem t) g"
    using vfs_init_contract [where lit = "\<lambda>_. 0x10", OF small_fs_ok(1) room small_fs_strings(1), of s] by blast
  have "g_vfs_root t \<noteq> NULL" using t(3) by (simp add: vfs_paths_def)
  moreover have "heap_taken g x \<and> mem t x = mem (small_fs s) x" if "unat x < 0x100000" for x
    using t(4) small_taken [OF that] by (simp add: kept_def)
  ultimately show thesis using that t(1-3) spare_kept [OF t(5) small_fs_ok(2)] string_at_kept [OF _ t(4)] by blast
qed

text \<open>
  C10. Creating a node refines insertion into the map from paths to nodes. If the path \<open>ts\<close> leads to a node and nothing is at
  \<open>ts\<close> followed by the name, then \<open>vfs_create\<close> under that node succeeds when the heap has room, returns a node that
  was not on any path, and the map then takes the longer path to this node and every other path where it led
  before. The node has the given type and permissions, is empty and belongs to user 0; of the other nodes at
  most the links to children and siblings change.
\<close>

theorem vfs_create_refines:
  assumes "heap_inv s g n" and "length cs + 225 \<le> n" and "vfs_paths s g F" and "F ts \<noteq> NULL" and "F (ts @ [cs]) = NULL"
    and "name \<noteq> NULL" and "string_at (mem s) (heap_taken g) name cs" and "new_node \<noteq> NULL"
  shows "\<exists>node t g'. vfs_create (F ts) name type perms new_node s = Some (0, Some node, t) \<and> node \<notin> range F \<and>
    heap_inv t g' (n - (length cs + 225)) \<and> vfs_paths t g' (F(ts @ [cs] := node)) \<and>
    vn_type (vnodes t node) = type \<and> vn_permissions (vnodes t node) = perms \<and> vn_uid (vnodes t node) = 0 \<and>
    vn_size (vnodes t node) = 0 \<and> vn_data (vnodes t node) = NULL \<and>
    (\<forall>v. v \<noteq> node \<longrightarrow> vnodes t v = (vnodes s v)\<lparr>vn_child := vn_child (vnodes t v), vn_next := vn_next (vnodes t v)\<rparr>)"
proof -
  obtain node t g' nm time where c: "vfs_create (F ts) name type perms new_node s = Some (0, Some node, t)" "node \<notin> range F"
    "heap_inv t g' (n - (length cs + 225))" "vfs_paths t g' (F(ts @ [cs] := node))"
    "\<forall>v. v \<noteq> node \<longrightarrow> vnodes t v = (vnodes s v)\<lparr>vn_child := vn_child (vnodes t v), vn_next := vn_next (vnodes t v)\<rparr>"
    and v: "vnodes t node = (vnodes s node)\<lparr>vn_parent := F ts, vn_next := NULL, vn_child := NULL, vn_type := type, vn_permissions := perms,
      vn_name := nm, vn_size := 0, vn_creation_time := time, vn_uid := 0, vn_data := NULL\<rparr>"
    using vfs_create_paths [OF assms] by blast
  have "vn_type (vnodes t node) = type \<and> vn_permissions (vnodes t node) = perms \<and> vn_uid (vnodes t node) = 0 \<and>
    vn_size (vnodes t node) = 0 \<and> vn_data (vnodes t node) = NULL" by (simp add: v)
  then show ?thesis using c by blast
qed

theorem vfs_create_refines_witness:
  "\<forall>s :: vfs_state. \<exists>t node u g. vfs_init (\<lambda>_. 0x10) (small_fs s) = Some (0, t) \<and>
     vfs_create (g_vfs_root t) 0x21 VNODE_FILE 6 8 t = Some (0, Some node, u) \<and>
     vfs_paths u g ((\<lambda>_. NULL)([] := g_vfs_root t, [[0x61]] := node))"
proof
  fix s :: vfs_state
  obtain t g where t: "vfs_init (\<lambda>_. 0x10) (small_fs s) = Some (0, t)" "heap_inv t g (1000 - 226)"
    "vfs_paths t g ((\<lambda>_. NULL)([] := g_vfs_root t))" "g_vfs_root t \<noteq> NULL" "spare 3 g"
    "\<forall>a cs. string_at (mem (small_fs s)) (heap_taken small_view) a cs \<longrightarrow> string_at (mem t) (heap_taken g) a cs"
    "\<forall>x. unat x < 0x100000 \<longrightarrow> heap_taken g x \<and> mem t x = mem (small_fs s) x"
    by (rule small_fs_root [of s]) (rule that; assumption)
  show "\<exists>t node u g. vfs_init (\<lambda>_. 0x10) (small_fs s) = Some (0, t) \<and>
     vfs_create (g_vfs_root t) 0x21 VNODE_FILE 6 8 t = Some (0, Some node, u) \<and>
     vfs_paths u g ((\<lambda>_. NULL)([] := g_vfs_root t, [[0x61]] := node))"
    using vfs_create_refines [OF t(2) _ t(3), of "[0x61]" "[]" "0x21" 8 VNODE_FILE 6] t(1,4) t(6) [rule_format, OF small_fs_strings(3)] by auto
qed

text \<open>
  C12. Looking up a path applies the map. For a path given as a string \<open>vfs_lookup\<close> returns the node that the map has at the
  names between the slashes, and NULL if there is none; leading, trailing and repeated slashes do not matter. It
  terminates, gives its copy of the path back to the heap, and changes neither the file system nor any memory
  in use.
\<close>

theorem vfs_lookup_correct:
  assumes "heap_inv s g n" and "length cs + 73 \<le> n" and "vfs_paths s g F"
    and "path \<noteq> NULL" and "string_at (mem s) (heap_taken g) path cs" and "string_at (mem s) (heap_taken g) (lit ''/'') [0x2F]"
  shows "\<exists>t. vfs_lookup lit path s = Some (F (tokens cs), t) \<and> heap_inv t g n \<and> vfs_paths t g F \<and> vnodes t = vnodes s \<and>
    (\<forall>x. heap_taken g x \<longrightarrow> mem t x = mem s x)"
  using vfs_lookup_paths [where lit = lit, OF assms] unfolding kept_def by blast

theorem vfs_lookup_correct_witness:
  "\<forall>s :: vfs_state. \<exists>t u. vfs_init (\<lambda>_. 0x10) (small_fs s) = Some (0, t) \<and> vfs_lookup (\<lambda>_. 0x10) 0x20 t = Some (NULL, u)"
proof
  fix s :: vfs_state
  obtain t g where t: "vfs_init (\<lambda>_. 0x10) (small_fs s) = Some (0, t)" "heap_inv t g (1000 - 226)"
    "vfs_paths t g ((\<lambda>_. NULL)([] := g_vfs_root t))" "g_vfs_root t \<noteq> NULL" "spare 3 g"
    "\<forall>a cs. string_at (mem (small_fs s)) (heap_taken small_view) a cs \<longrightarrow> string_at (mem t) (heap_taken g) a cs"
    "\<forall>x. unat x < 0x100000 \<longrightarrow> heap_taken g x \<and> mem t x = mem (small_fs s) x"
    by (rule small_fs_root [of s]) (rule that; assumption)
  have "tokens [0x2F, 0x61] = [[0x61]]" by (simp add: tokens.simps)
  then show "\<exists>t u. vfs_init (\<lambda>_. 0x10) (small_fs s) = Some (0, t) \<and> vfs_lookup (\<lambda>_. 0x10) 0x20 t = Some (NULL, u)"
    using vfs_lookup_correct [where lit = "\<lambda>_. 0x10", OF t(2) _ t(3) _ t(6) [rule_format, OF small_fs_strings(2)] t(6) [rule_format, OF small_fs_strings(1)]] t(1)
    by auto
qed

text \<open>
  C13. A node that was created is found under its path, and no other path is disturbed. After \<open>vfs_create\<close> of a new name
  under the node at \<open>ts\<close>, looking up any path string returns the new node if the string spells \<open>ts\<close> followed by the
  name, and what the string led to before otherwise.
\<close>

theorem vfs_create_lookup:
  assumes "heap_inv s g n" and "length cs + length ps + 298 \<le> n" and "vfs_paths s g F" and "F ts \<noteq> NULL" and "F (ts @ [cs]) = NULL"
    and "name \<noteq> NULL" and "string_at (mem s) (heap_taken g) name cs" and "new_node \<noteq> NULL"
    and "path \<noteq> NULL" and "string_at (mem s) (heap_taken g) path ps" and "string_at (mem s) (heap_taken g) (lit ''/'') [0x2F]"
  shows "\<exists>node t u. vfs_create (F ts) name type perms new_node s = Some (0, Some node, t) \<and>
    vfs_lookup lit path t = Some (if tokens ps = ts @ [cs] then node else F (tokens ps), u)"
  using vfs.create_lookup [of s g n lit cs ps F ts name new_node path type perms] assms unfolding create_node_conv by blast

theorem vfs_create_lookup_witness:
  "\<forall>s :: vfs_state. \<exists>t node u v. vfs_init (\<lambda>_. 0x10) (small_fs s) = Some (0, t) \<and>
     vfs_create (g_vfs_root t) 0x21 VNODE_DIRECTORY 7 8 t = Some (0, Some node, u) \<and> vfs_lookup (\<lambda>_. 0x10) 0x20 u = Some (node, v)"
proof
  fix s :: vfs_state
  obtain t g where t: "vfs_init (\<lambda>_. 0x10) (small_fs s) = Some (0, t)" "heap_inv t g (1000 - 226)"
    "vfs_paths t g ((\<lambda>_. NULL)([] := g_vfs_root t))" "g_vfs_root t \<noteq> NULL" "spare 3 g"
    "\<forall>a cs. string_at (mem (small_fs s)) (heap_taken small_view) a cs \<longrightarrow> string_at (mem t) (heap_taken g) a cs"
    "\<forall>x. unat x < 0x100000 \<longrightarrow> heap_taken g x \<and> mem t x = mem (small_fs s) x"
    by (rule small_fs_root [of s]) (rule that; assumption)
  have "tokens [0x2F, 0x61] = [[0x61]]" by (simp add: tokens.simps)
  then show "\<exists>t node u v. vfs_init (\<lambda>_. 0x10) (small_fs s) = Some (0, t) \<and>
     vfs_create (g_vfs_root t) 0x21 VNODE_DIRECTORY 7 8 t = Some (0, Some node, u) \<and> vfs_lookup (\<lambda>_. 0x10) 0x20 u = Some (node, v)"
    using vfs_create_lookup [where lit = "\<lambda>_. 0x10" and ts = "[]" and new_node = 8 and type = VNODE_DIRECTORY and perms = 7,
      OF t(2) _ t(3) _ _ _ t(6) [rule_format, OF small_fs_strings(3)] _ _ t(6) [rule_format, OF small_fs_strings(2)] t(6) [rule_format, OF small_fs_strings(1)]] t(1,4)
    by auto
qed

text \<open>
  C11. Removing a node refines removal of a subtree. \<open>vfs_remove\<close> of the node at a path from its parent returns 0 and gives
  the node and its name back to the heap; afterwards the map has nothing at this path and at the paths that go on
  from it, and leads where it led before elsewhere. Contents of the remaining nodes and all memory stay as they
  are. (Every block of the heap is to hold three allocations, so that none is emptied.)
\<close>

theorem vfs_remove_refines:
  assumes "heap_inv s g n" and "spare 3 g" and "vfs_paths s g F" and "F (ts @ [cs]) \<noteq> NULL"
  shows "\<exists>t h. vfs_remove (F ts) (F (ts @ [cs])) s = Some (0, t) \<and> heap_inv t h n \<and> vfs_paths t h (without (ts @ [cs]) F) \<and>
    mem t = mem s \<and> (\<forall>v. vnodes t v = (vnodes s v)\<lparr>vn_child := vn_child (vnodes t v), vn_next := vn_next (vnodes t v)\<rparr>)"
  by (rule vfs_remove_paths [OF assms])

theorem vfs_remove_refines_witness:
  "\<forall>s :: vfs_state. \<exists>t node u v h. vfs_init (\<lambda>_. 0x10) (small_fs s) = Some (0, t) \<and>
     vfs_create (g_vfs_root t) 0x21 VNODE_FILE 6 8 t = Some (0, Some node, u) \<and> vfs_remove (g_vfs_root t) node u = Some (0, v) \<and>
     vfs_paths v h (without [[0x61]] ((\<lambda>_. NULL)([] := g_vfs_root t, [[0x61]] := node)))"
proof
  fix s :: vfs_state
  obtain t g where t: "vfs_init (\<lambda>_. 0x10) (small_fs s) = Some (0, t)" "heap_inv t g (1000 - 226)"
    "vfs_paths t g ((\<lambda>_. NULL)([] := g_vfs_root t))" "g_vfs_root t \<noteq> NULL" "spare 3 g"
    "\<forall>a cs. string_at (mem (small_fs s)) (heap_taken small_view) a cs \<longrightarrow> string_at (mem t) (heap_taken g) a cs"
    "\<forall>x. unat x < 0x100000 \<longrightarrow> heap_taken g x \<and> mem t x = mem (small_fs s) x"
    by (rule small_fs_root [of s]) (rule that; assumption)
  obtain node u g' where u: "vfs_create (g_vfs_root t) 0x21 VNODE_FILE 6 8 t = Some (0, Some node, u)" "node \<noteq> NULL"
    "heap_inv u g' (1000 - 226 - (length [0x61 :: u8] + 225))" "heap_kept (mem t) g (mem u) g'"
    "vfs_paths u g' ((\<lambda>_. NULL)([] := g_vfs_root t, [] @ [[0x61]] := node))"
    using vfs_create_paths [OF t(2) _ t(3), of "[0x61]" "[]" "0x21" 8 VNODE_FILE 6] t(4) t(6) [rule_format, OF small_fs_strings(3)] by auto
  let ?F = "(\<lambda>_. NULL)([] := g_vfs_root t, [] @ [[0x61]] := node)"
  have F: "?F [] = g_vfs_root t" "?F ([] @ [[0x61]]) = node" by simp_all
  then have "?F ([] @ [[0x61]]) \<noteq> NULL" using u(2) by simp
  from vfs_remove_refines [OF u(3) spare_kept [OF u(4) t(5)] u(5) this, unfolded F]
  obtain v h where "vfs_remove (g_vfs_root t) node u = Some (0, v)" "vfs_paths v h (without ([] @ [[0x61]]) ?F)" by blast
  then show "\<exists>t node u v h. vfs_init (\<lambda>_. 0x10) (small_fs s) = Some (0, t) \<and>
     vfs_create (g_vfs_root t) 0x21 VNODE_FILE 6 8 t = Some (0, Some node, u) \<and> vfs_remove (g_vfs_root t) node u = Some (0, v) \<and>
     vfs_paths v h (without [[0x61]] ((\<lambda>_. NULL)([] := g_vfs_root t, [[0x61]] := node)))"
    using t(1) u(1) unfolding append_Nil by blast
qed

end
