(* ===== verification/VfsFile.thy ===== *)
theory VfsFile
  imports VfsTree
begin

text \<open>
  Contents of files: what \<open>vfs_write\<close> stores and \<open>vfs_read\<close> returns, as bytes of memory.
\<close>

section \<open>File contents\<close>

lemma disjoint_ranges_mono: "disjoint_ranges a n b k \<Longrightarrow> n' \<le> n \<Longrightarrow> k' \<le> k \<Longrightarrow> disjoint_ranges a n' b k'"
  unfolding disjoint_ranges_def in_range_def by (meson less_le_trans)

lemma memcpy_apply:
  "disjoint_ranges d (unat n) s (unat n) \<Longrightarrow>
   fst (memcpy m d s n) x = (if in_range d (unat n) x then m (s + (x - d)) else m x)"
  using memcpy_loop_apply [of "unat n" d s m x] unat_u64_less [of n] by (simp add: memcpy_def)

text \<open>What a read returns while the offset is inside the file and the sum does not wrap.\<close>

lemma vfs_read_inside:
  assumes r_def: "r = (if unat off + unat k \<le> unat (vn_size (vnodes s node)) then k else ucast (vn_size (vnodes s node) - ucast off))"
    and args: "node \<noteq> NULL" "buffer \<noteq> NULL" and off: "unat off + unat k < 2 ^ 32" "unat off \<le> unat (vn_size (vnodes s node))"
    and dis: "disjoint_ranges buffer (unat k) (vn_data (vnodes s node) + ucast off) (unat (vn_size (vnodes s node)) - unat off)"
  shows "fst (vfs_read node off k buffer s) = r"
    and "unat r = min (unat k) (unat (vn_size (vnodes s node)) - unat off)"
    and "i < unat r \<Longrightarrow> mem (snd (vfs_read node off k buffer s)) (buffer + of_nat i) = mem s (vn_data (vnodes s node) + ucast off + of_nat i)"
proof -
  let ?sz = "vn_size (vnodes s node)"
  have sum: "unat (ucast (off + k) :: u64) = unat off + unat k"
    using off(1) unat_add_lem [of off k, THEN iffD1] by simp
  have c: "?sz < ucast (off + k) \<longleftrightarrow> \<not> unat off + unat k \<le> unat ?sz" unfolding word_less_nat_alt sum by auto
  show fst: "fst (vfs_read node off k buffer s) = r" using args c by (simp add: vfs_read_def Let_def r_def)
  have d: "unat (?sz - ucast off) = unat ?sz - unat off" using off(2)
    by (simp add: unat_diff_le word_le_nat_alt)
  show len: "unat r = min (unat k) (unat ?sz - unat off)"
  proof (cases "unat off + unat k \<le> unat ?sz")
    case False
    then have "unat (?sz - ucast off) < 2 ^ 32" using d off(1) by simp
    then have "unat (ucast (?sz - ucast off) :: u32) = unat ?sz - unat off" by (simp add: d unsigned_ucast_eq take_bit_nat_eq_self)
    then show ?thesis using False by (simp add: r_def)
  qed (simp add: r_def)
  have m: "mem (snd (vfs_read node off k buffer s)) = fst (memcpy (mem s) buffer (vn_data (vnodes s node) + ucast off) (ucast r))"
    using args c by (simp add: vfs_read_def Let_def r_def)
  assume i: "i < unat r"
  have rk: "unat (ucast r :: u64) = unat r" "unat r \<le> unat k" "unat r \<le> unat ?sz - unat off" using len by simp_all
  then have dr: "disjoint_ranges buffer (unat (ucast r :: u64)) (vn_data (vnodes s node) + ucast off) (unat (ucast r :: u64))"
    using disjoint_ranges_mono [OF dis] by simp
  have "unat (of_nat i :: u64) = i" using i rk(1) unat_u64_less [of "ucast r"] by (intro unat_of_nat_small) simp
  then have "in_range buffer (unat (ucast r :: u64)) (buffer + of_nat i)" using i rk by (simp add: in_range_def)
  then show "mem (snd (vfs_read node off k buffer s)) (buffer + of_nat i) = mem s (vn_data (vnodes s node) + ucast off + of_nat i)"
    unfolding m memcpy_apply [OF dr] by simp
qed

text \<open>The first write to an empty file.\<close>

lemma vfs_write_fresh:
  assumes inv: "heap_inv s g n" and n: "unat off + unat sz + 72 \<le> n" and sz: "0 < unat sz" "unat off + unat sz < 2 ^ 32"
    and node: "node \<noteq> NULL" "vn_data (vnodes s node) = NULL" "vn_size (vnodes s node) = 0"
    and src: "src \<noteq> NULL" "\<forall>x. in_range src (unat sz) x \<longrightarrow> heap_taken g x"
  shows "\<exists>t g' p. vfs_write node off sz src s = Some (sz, t) \<and> heap_inv t g' (n - (unat off + unat sz + 72)) \<and>
    vnodes t = (vnodes s)(node := (vnodes s node)\<lparr>vn_data := p, vn_size := of_nat (unat off + unat sz)\<rparr>) \<and>
    heap_owns t g' p (unat off + unat sz) g \<and> kept (mem s) (heap_taken g) (mem t) (heap_taken g') \<and>
    (\<forall>x. in_range p (unat off + unat sz) x \<longrightarrow> \<not> heap_taken g x) \<and>
    (\<forall>i < unat sz. mem t (p + ucast off + of_nat i) = mem s (src + of_nat i)) \<and> g_vfs_root t = g_vfs_root s"
proof -
  let ?n = "ucast (off + sz) :: u64"
  have sum: "unat ?n = unat off + unat sz" using sz(2) unat_add_lem [of off sz, THEN iffD1] by simp
  have n72: "unat ?n + 72 \<le> n" using n sum by simp
  obtain p s1 g' where a: "kmalloc ?n s = Some (p, s1)" "heap_inv s1 g' (n - (unat off + unat sz + 72))" "p \<noteq> NULL"
    "heap_owns s1 g' p (unat off + unat sz) g" "\<forall>x. in_range p (unat off + unat sz) x \<longrightarrow> \<not> heap_taken g x"
    "kept (mem s) (heap_taken g) (mem s1) (heap_taken g')" "heap_frame s s1"
    using kmalloc_allocates [OF inv n72] unfolding sum by blast
  have n0: "?n \<noteq> 0" "vn_size (vnodes s node) < ?n"
    using sum sz(1) node(3) by (metis unat_0 add_is_0 not_gr_zero, metis unat_0 add_pos_nonneg word_less_nat_alt zero_le add.commute)
  have kr: "krealloc (vn_data (vnodes s node)) ?n s = Some (p, s1)" using n0(1) node(2) a(1) by (simp add: krealloc_def)
  let ?v = "(vnodes s)(node := (vnodes s node)\<lparr>vn_data := p, vn_size := ?n\<rparr>)"
  let ?m = "fst (memcpy (mem s1) (p + ucast off) src (ucast sz))"
  have f: "vnodes s1 = vnodes s" "g_vfs_root s1 = g_vfs_root s" using heap_frame_vfs [OF a(7)] by simp_all
  have run: "vfs_write node off sz src s = Some (sz, s1\<lparr>vnodes := ?v, mem := ?m\<rparr>)"
    using node(1) src(1) n0 kr a(3) by (simp add: vfs_write_def upd_vn_def f Let_def)
  have szn: "unat (ucast sz :: u64) = unat sz" by simp
  have offn: "unat (ucast off :: u64) = unat off" by simp
  have p64: "unat p + (unat off + unat sz) < 2 ^ 64" using heap_owns_bound [OF a(4)] .
  have po: "unat (p + ucast off) = unat p + unat off" using p64 offn by (subst unat_add_no_wrap) simp_all
  have sub: "in_range p (unat off + unat sz) x" if "in_range (p + ucast off) (unat sz) x" for x
    using that p64 po by (simp add: in_range_nat)
  have dis: "disjoint_ranges (p + ucast off) (unat (ucast sz :: u64)) src (unat (ucast sz :: u64))"
    using sub a(5) src(2) unfolding disjoint_ranges_def szn by blast
  have m: "?m x = (if in_range (p + ucast off) (unat sz) x then mem s1 (src + (x - (p + ucast off))) else mem s1 x)" for x
    using memcpy_apply [OF dis, of "mem s1" x] szn by simp
  have "kept (mem s) (heap_taken g) ?m (heap_taken g')" using a(5,6) sub unfolding kept_def m by metis
  moreover have "?m (p + ucast off + of_nat i) = mem s (src + of_nat i)" if "i < unat sz" for i
  proof -
    have "unat (of_nat i :: u64) = i" using that sz(2) by (intro unat_of_nat_small) simp
    then have "in_range (p + ucast off) (unat sz) (p + ucast off + of_nat i)" "in_range src (unat sz) (src + of_nat i)"
      using that by (simp_all add: in_range_def)
    then show ?thesis using src(2) a(6) unfolding m by (simp add: kept_def)
  qed
  moreover have "heap_owns (s1\<lparr>vnodes := ?v, mem := ?m\<rparr>) g' p (unat off + unat sz) g"
    using heap_owns_set_mem [OF a(4), of ?m] sub m by (subst heap_owns_cong [where s = "s1\<lparr>mem := ?m\<rparr>"]) (simp_all, metis)
  moreover have "?n = of_nat (unat off + unat sz)" unfolding sum [symmetric] by simp
  ultimately show ?thesis using run a(2,5) f(2)
    by (intro exI [of _ "s1\<lparr>vnodes := ?v, mem := ?m\<rparr>"] exI [of _ g'] exI [of _ p]) simp
qed

text \<open>
  C14. What is written to an empty file can be read back. A write of \<open>sz > 0\<close> bytes at any offset to a file without contents,
  from memory that the heap has not got to give away, succeeds when the heap has room, returns \<open>sz\<close> and makes the file
  \<open>off + sz\<close> bytes long. A read of \<open>k\<close> bytes starting inside what was written then returns the smaller of \<open>k\<close>
  and the number of bytes up to the end of the file, and puts exactly these bytes of the original buffer
  into the destination.
\<close>

theorem vfs_write_read:
  assumes inv: "heap_inv s g n" and n: "unat off + unat sz + 72 \<le> n" and sz: "0 < unat sz" "unat off + unat sz < 2 ^ 32"
    and node: "node \<noteq> NULL" "vn_data (vnodes s node) = NULL" "vn_size (vnodes s node) = 0"
    and src: "src \<noteq> NULL" "\<forall>x. in_range src (unat sz) x \<longrightarrow> heap_taken g x"
    and dst: "dst \<noteq> NULL" "\<forall>x. in_range dst (unat k) x \<longrightarrow> heap_taken g x"
    and at: "unat d + unat off + unat k < 2 ^ 32" "unat d \<le> unat sz"
  shows "\<exists>t. vfs_write node off sz src s = Some (sz, t) \<and> unat (vn_size (vnodes t node)) = unat off + unat sz \<and>
    unat (fst (vfs_read node (off + d) k dst t)) = min (unat k) (unat sz - unat d) \<and>
    (\<forall>i < min (unat k) (unat sz - unat d).
       mem (snd (vfs_read node (off + d) k dst t)) (dst + of_nat i) = mem s (src + of_nat (unat d + i)))"
proof -
  obtain t g' p where t: "vfs_write node off sz src s = Some (sz, t)"
    "vnodes t = (vnodes s)(node := (vnodes s node)\<lparr>vn_data := p, vn_size := of_nat (unat off + unat sz)\<rparr>)"
    "heap_owns t g' p (unat off + unat sz) g" "\<forall>x. in_range p (unat off + unat sz) x \<longrightarrow> \<not> heap_taken g x"
    "\<forall>i < unat sz. mem t (p + ucast off + of_nat i) = mem s (src + of_nat i)"
    using vfs_write_fresh [OF inv n sz node src] by blast
  have od: "unat (off + d) = unat off + unat d" using at(1) by (intro unat_add_lem [THEN iffD1]) simp
  have size: "unat (vn_size (vnodes t node)) = unat off + unat sz"
    using sz(2) by (simp add: t(2) unat_add_no_wrap)
  have data: "vn_data (vnodes t node) = p" by (simp add: t(2))
  have p64: "unat p + (unat off + unat sz) < 2 ^ 64" using heap_owns_bound [OF t(3)] .
  have po: "unat (p + ucast (off + d)) = unat p + (unat off + unat d)" using p64 od at(2) by (subst unat_add_no_wrap) simp_all
  have "in_range p (unat off + unat sz) x" if "in_range (p + ucast (off + d)) (unat sz - unat d) x" for x
    using that p64 po at(2) by (simp add: in_range_nat)
  then have dis: "disjoint_ranges dst (unat k) (vn_data (vnodes t node) + ucast (off + d))
      (unat (vn_size (vnodes t node)) - unat (off + d))"
    using t(4) dst(2) od size data unfolding disjoint_ranges_def by auto
  have h: "unat (off + d) + unat k < 2 ^ 32" "unat (off + d) \<le> unat (vn_size (vnodes t node))" using at od size by simp_all
  note rd = vfs_read_inside [OF refl node(1) dst(1) h dis]
  have len: "unat (fst (vfs_read node (off + d) k dst t)) = min (unat k) (unat sz - unat d)" 
    using trans [OF arg_cong [OF rd(1), of unat] rd(2)] unfolding size od by simp
  have "mem (snd (vfs_read node (off + d) k dst t)) (dst + of_nat i) = mem s (src + of_nat (unat d + i))"
    if i: "i < min (unat k) (unat sz - unat d)" for i
  proof -
    have a: "p + ucast (off + d) + of_nat i = p + ucast off + of_nat (unat d + i)"
      using arg_cong [OF od, of "of_nat :: nat \<Rightarrow> u64"] by simp
    have "i < unat (fst (vfs_read node (off + d) k dst t))" "unat d + i < unat sz" using i len by auto
    then show ?thesis using rd(3) [of i] t(5) unfolding rd(1) [symmetric] data a by metis
  qed
  then show ?thesis using t(1) size len by blast
qed

theorem vfs_write_read_witness:
  "\<forall>s :: vfs_state. \<exists>t node u v. vfs_init (\<lambda>_. 0x10) (small_fs s) = Some (0, t) \<and>
     vfs_create (g_vfs_root t) 0x21 VNODE_FILE 6 8 t = Some (0, Some node, u) \<and>
     vfs_write node 5 2 0x20 u = Some (2, v) \<and> mem (snd (vfs_read node 6 1 0x40 v)) 0x40 = 0x61"
proof
  fix s :: vfs_state
  obtain t g where t: "vfs_init (\<lambda>_. 0x10) (small_fs s) = Some (0, t)" "heap_inv t g (1000 - 226)"
    "vfs_paths t g ((\<lambda>_. NULL)([] := g_vfs_root t))" "g_vfs_root t \<noteq> NULL" "spare 3 g"
    "\<forall>a cs. string_at (mem (small_fs s)) (heap_taken small_view) a cs \<longrightarrow> string_at (mem t) (heap_taken g) a cs"
    "\<forall>x. unat x < 0x100000 \<longrightarrow> heap_taken g x \<and> mem t x = mem (small_fs s) x"
    by (rule small_fs_root [of s]) (rule that; assumption)
  obtain node u g' where u: "vfs_create (g_vfs_root t) 0x21 VNODE_FILE 6 8 t = Some (0, Some node, u)" "node \<noteq> NULL"
    "heap_inv u g' 548" "kept (mem t) (heap_taken g) (mem u) (heap_taken g')"
    "vn_size (vnodes u node) = 0" "vn_data (vnodes u node) = NULL"
    using vfs_create_paths [OF t(2) _ t(3), of "[0x61]" "[]" "0x21" 8 VNODE_FILE 6] t(4) t(6) [rule_format, OF small_fs_strings(3)]
    by auto
  have low: "heap_taken g' x \<and> mem u x = mem (small_fs s) x" if "unat x < 0x100000" for x
    using u(4) t(7) that by (simp add: kept_def)
  have src: "\<forall>x. in_range 0x20 (unat (2 :: u32)) x \<longrightarrow> heap_taken g' x" "\<forall>x. in_range 0x40 (unat (1 :: u32)) x \<longrightarrow> heap_taken g' x"
    using low by (auto simp: in_range_nat)
  have "\<exists>v. vfs_write node 5 2 0x20 u = Some (2, v) \<and> unat (vn_size (vnodes v node)) = unat (5 :: u32) + unat (2 :: u32) \<and>
    unat (fst (vfs_read node (5 + 1) 1 0x40 v)) = min (unat (1 :: u32)) (unat (2 :: u32) - unat (1 :: u32)) \<and>
    (\<forall>i < min (unat (1 :: u32)) (unat (2 :: u32) - unat (1 :: u32)).
       mem (snd (vfs_read node (5 + 1) 1 0x40 v)) (0x40 + of_nat i) = mem u (0x20 + of_nat (unat (1 :: u32) + i)))"
    by (rule vfs_write_read [OF u(3) _ _ _ u(2,6,5) _ src(1) _ src(2)]) simp_all
  moreover have "mem u 0x21 = 0x61" using low [of "0x21"] by (simp add: small_fs_def Let_def)
  ultimately show "\<exists>t node u v. vfs_init (\<lambda>_. 0x10) (small_fs s) = Some (0, t) \<and>
     vfs_create (g_vfs_root t) 0x21 VNODE_FILE 6 8 t = Some (0, Some node, u) \<and>
     vfs_write node 5 2 0x20 u = Some (2, v) \<and> mem (snd (vfs_read node 6 1 0x40 v)) 0x40 = 0x61"
    using t(1) u(1) by auto
qed

text \<open>
  A read that starts behind the end of the file is not cut to nothing. The number of bytes left is computed as the size
  minus the offset, which wraps: the function then copies and returns \<open>2 ^ 32\<close> minus the distance to the end,
  almost four gigabytes, whatever was asked for.
\<close>

theorem vfs_read_past_end:
  assumes "node \<noteq> NULL" and "buffer \<noteq> NULL" and "unat (vn_size (vnodes s node)) < unat off" and "unat off + unat k < 2 ^ 32"
  shows "\<exists>n. unat n = 2 ^ 32 - (unat off - unat (vn_size (vnodes s node))) \<and>
    vfs_read node off k buffer s = (n, s\<lparr>mem := fst (memcpy (mem s) buffer (vn_data (vnodes s node) + ucast off) (ucast n))\<rparr>)"
proof -
  let ?z = "vn_size (vnodes s node)"
  have sum: "unat (ucast (off + k) :: u64) = unat off + unat k" using assms(4) unat_add_lem [of off k, THEN iffD1] by simp
  have less: "?z < ucast (off + k)" unfolding word_less_nat_alt sum using assms(3) by simp
  let ?d = "unat off - unat ?z"
  have d: "0 < ?d" "?d < 2 ^ 32" using assms(3,4) by simp_all
  have "unat (?z - ucast off) = 2 ^ 64 - ?d" using assms(3) by (simp add: unat_sub_if')
  also have "\<dots> = (2 ^ 32 - ?d) + (2 ^ 32 - 1) * 2 ^ 32" using d by simp
  finally have "unat (ucast (?z - ucast off) :: u32) = ((2 ^ 32 - ?d) + (2 ^ 32 - 1) * 2 ^ 32) mod 2 ^ 32"
    by (simp only: unsigned_ucast_eq take_bit_eq_mod len_num1 len_num0 len_bit0 len_bit1) simp
  also have "\<dots> = 2 ^ 32 - ?d" using d by (simp only: mod_mult_self1) simp
  finally have "unat (ucast (?z - ucast off) :: u32) = 2 ^ 32 - ?d" .
  then show ?thesis using assms(1,2) less by (intro exI [of _ "ucast (?z - ucast off)"]) (simp add: vfs_read_def Let_def)
qed

theorem vfs_read_past_end_witness:
  "\<exists>n. unat (n :: u32) = 4294967295 \<and> (\<forall>s :: vfs_state. fst (vfs_read 8 1 1 16 (s\<lparr>vnodes := (\<lambda>a. (vnodes s a)\<lparr>vn_size := 0\<rparr>)\<rparr>)) = n)"
proof (intro exI [of _ "0xFFFFFFFF"] conjI allI)
  fix s :: vfs_state
  let ?s = "s\<lparr>vnodes := (\<lambda>a. (vnodes s a)\<lparr>vn_size := 0\<rparr>)\<rparr>"
  obtain n where "unat n = 2 ^ 32 - (unat (1 :: u32) - unat (vn_size (vnodes ?s 8)))" "fst (vfs_read 8 1 1 16 ?s) = n"
    using vfs_read_past_end [of 8 16 ?s 1 1] by auto
  then have "unat (fst (vfs_read 8 1 1 16 ?s)) = unat (0xFFFFFFFF :: u32)" by simp
  then show "fst (vfs_read 8 1 1 16 ?s) = 0xFFFFFFFF" unfolding word_unat_eq_iff .
qed simp

end
