(* ===== verification/Hvfs.thy ===== *)
theory Hvfs
  imports VfsFile
begin

text \<open>
  File handles: \<^verbatim>\<open>kernel/src/dev/hvfs.c\<close>. A handle is a structure on the heap with the vnode, the open mode and the
  user; handles are kept in a store indexed by their addresses. Return values of -1 are the word of all ones.
\<close>

section \<open>State and operations\<close>

abbreviation (input) READ_ONLY :: i32 where "READ_ONLY \<equiv> 0"
abbreviation (input) WRITE_ONLY :: i32 where "WRITE_ONLY \<equiv> 1"
abbreviation (input) READ_WRITE :: i32 where "READ_WRITE \<equiv> 2"
abbreviation (input) CREATE :: i32 where "CREATE \<equiv> 4"

record FILE =
  file_fd :: i32
  file_uid :: i32
  file_vnode :: u64
  file_mode :: i32

record file_state = vfs_state +
  files :: "u64 \<Rightarrow> FILE"

abbreviation (input) sizeof_FILE :: u64 where "sizeof_FILE \<equiv> 24"

definition upd_file :: "u64 \<Rightarrow> (FILE \<Rightarrow> FILE) \<Rightarrow> 'a file_state_scheme \<Rightarrow> 'a file_state_scheme" where
  "upd_file a f s = s\<lparr>files := (files s)(a := f (files s a))\<rparr>"

definition hvfs_init :: "'a vfs_state_scheme \<Rightarrow> i32" where
  "hvfs_init s = (if g_vfs_root s = NULL then 1 else 0)"

definition open_file :: "(string \<Rightarrow> u64) \<Rightarrow> u64 \<Rightarrow> i32 \<Rightarrow> 'a file_state_scheme \<Rightarrow> (u64 \<times> 'a file_state_scheme) option" where
  "open_file lit path mode s =
     do {
       (fd, s) \<leftarrow> kmalloc sizeof_FILE s;
       if fd = NULL then Some (NULL, s)
       else do {
         let s = upd_file fd (\<lambda>f. f\<lparr>file_mode := mode\<rparr>) s;
         if mode AND CREATE \<noteq> 0 then Some (NULL, s)
         else do {
           (node, s) \<leftarrow> vfs_lookup lit path s;
           let s = upd_file fd (\<lambda>f. f\<lparr>file_vnode := node\<rparr>) s;
           if node = NULL then do { s \<leftarrow> kfree fd s; Some (NULL, s) }
           else Some (fd, upd_file fd (\<lambda>f. f\<lparr>file_fd := 0, file_uid := 0\<rparr>) s)
         }
       }
     }"

definition hvfs_permission_check :: "u64 \<Rightarrow> i32 \<Rightarrow> u32 \<Rightarrow> 'a vfs_state_scheme \<Rightarrow> bool" where
  "hvfs_permission_check node uid required_perms s =
     (if node = NULL then False
      else let v = vnodes s node;
               others = vn_permissions v AND push_bit 8 required_perms \<noteq> 0
           in if vn_uid v = uid
              then if vn_permissions v AND required_perms \<noteq> 0 then True
                   else if vn_permissions v AND push_bit 4 required_perms \<noteq> 0 then True
                   else if others then True else False
              else if others then True else False)"

definition read_file :: "u64 \<Rightarrow> u64 \<Rightarrow> u64 \<Rightarrow> 'a file_state_scheme \<Rightarrow> i32 \<times> 'a file_state_scheme" where
  "read_file file buffer sz s =
     (if file = NULL then (- 1, s)
      else let f = files s file; v = vnodes s (file_vnode f)
           in if file_mode f \<noteq> READ_ONLY \<and> file_mode f \<noteq> READ_WRITE then (- 1, s)
              else if vn_type v \<noteq> VNODE_FILE then (- 1, s)
              else if \<not> hvfs_permission_check (file_vnode f) (file_uid f) VNODE_PERMS_OWNER_READ s then (- 1, s)
              else let bytes_read = (if vn_size v < sz then vn_size v else sz)
                   in (ucast bytes_read, s\<lparr>mem := fst (memcpy (mem s) buffer (vn_data v) bytes_read)\<rparr>))"

definition write_file :: "u64 \<Rightarrow> u64 \<Rightarrow> u64 \<Rightarrow> 'a file_state_scheme \<Rightarrow> (i32 \<times> 'a file_state_scheme) option" where
  "write_file file buffer sz s =
     (if file = NULL then Some (- 1, s)
      else let f = files s file; v = vnodes s (file_vnode f)
           in if file_mode f \<noteq> WRITE_ONLY \<and> file_mode f \<noteq> READ_WRITE then Some (- 1, s)
              else if vn_type v \<noteq> VNODE_FILE then Some (- 1, s)
              else if \<not> hvfs_permission_check (file_vnode f) (file_uid f) VNODE_PERMS_OWNER_WRITE s then Some (- 1, s)
              else do { (result, s) \<leftarrow> vfs_write (file_vnode f) 0 (ucast sz) buffer s;
                        Some (if result <s 0 then (- 1, s) else (result, s)) })"

definition chmod :: "u64 \<Rightarrow> i32 \<Rightarrow> 'a file_state_scheme \<Rightarrow> i32 \<times> 'a file_state_scheme" where
  "chmod file permissions s =
     (if file = NULL then (- 1, s)
      else if file_vnode (files s file) = NULL then (- 1, s)
      else let (result, s) = vfs_chmod (file_vnode (files s file)) permissions s
           in if result \<noteq> 0 then (- 1, s) else (0, s))"

definition chown :: "u64 \<Rightarrow> i32 \<Rightarrow> 'a file_state_scheme \<Rightarrow> i32 \<times> 'a file_state_scheme" where
  "chown file uid s =
     (if file = NULL then (- 1, s)
      else if file_vnode (files s file) = NULL then (- 1, s)
      else let (result, s) = vfs_chown (file_vnode (files s file)) uid s
           in if result \<noteq> 0 then (- 1, s) else (0, s))"

definition close :: "u64 \<Rightarrow> 'a file_state_scheme \<Rightarrow> (i32 \<times> 'a file_state_scheme) option" where
  "close file s =
     (if file = NULL then Some (- 1, s) else do { s \<leftarrow> kfree file s; Some (0, s) })"

section \<open>Opening and closing\<close>

lemma heap_inv_files [simp]: "heap_inv (s\<lparr>files := fs\<rparr>) g n = heap_inv s g n"
  by (rule heap_inv_cong) simp_all

lemma vfs_paths_files [simp]: "vfs_paths (s\<lparr>files := fs\<rparr>) g F = vfs_paths s g F"
  using vfs_paths_frame [of s g F "s\<lparr>files := fs\<rparr>" g] vfs_paths_frame [of "s\<lparr>files := fs\<rparr>" g F s g] by auto

lemma heap_frame_files: "heap_frame s t \<Longrightarrow> files t = files s"
  by (auto simp: heap_frame_def)

lemma files_more: "vfs_state.more t = vfs_state.more s \<Longrightarrow> files t = files s" for s t :: "'a file_state_scheme"
  by (cases s, cases t) simp

lemma open_file_contract:
  assumes inv: "heap_inv s g n" and n: "length cs + 169 \<le> n" and paths: "vfs_paths s g F"
    and path: "path \<noteq> NULL" "string_at (mem s) (heap_taken g) path cs"
    and slash: "string_at (mem s) (heap_taken g) (lit ''/'') [0x2F]" and mode: "mode AND CREATE = 0"
  shows "F (tokens cs) = NULL \<Longrightarrow> \<exists>t. open_file lit path mode s = Some (NULL, t) \<and> heap_inv t g (n - 96) \<and> vfs_paths t g F \<and>
      vnodes t = vnodes s \<and> kept (mem s) (heap_taken g) (mem t) (heap_taken g) \<and> kernel_core t = kernel_core s"
    and "F (tokens cs) \<noteq> NULL \<Longrightarrow> \<exists>fd t g'. open_file lit path mode s = Some (fd, t) \<and> fd \<noteq> NULL \<and> heap_inv t g' (n - 96) \<and>
      vfs_paths t g' F \<and> vnodes t = vnodes s \<and> kept (mem s) (heap_taken g) (mem t) (heap_taken g') \<and> heap_owns t g' fd 24 g \<and>
      files t = (files s)(fd := \<lparr>file_fd = 0, file_uid = 0, file_vnode = F (tokens cs), file_mode = mode\<rparr>) \<and> kernel_core t = kernel_core s"
proof -
  have n24: "unat (24 :: u64) + 72 \<le> n" "n - (unat (24 :: u64) + 72) = n - 96" using n by simp_all
  obtain fd s1 g1 where a: "kmalloc 24 s = Some (fd, s1)" "heap_inv s1 g1 (n - 96)" "fd \<noteq> NULL" "heap_owns s1 g1 fd 24 g"
    "kept (mem s) (heap_taken g) (mem s1) (heap_taken g1)" "heap_frame s s1"
    using kmalloc_allocates [OF inv n24(1)] by (auto simp: n24(2))
  note fr = heap_frame_vfs [OF a(6)]
  have hk: "heap_kept (mem s) g (mem s1) g1" using a(4,5) by (intro heap_owns_kept) (auto simp: kept_def dest: in_heap_taken)
  define s2 where "s2 = upd_file fd (\<lambda>f. f\<lparr>file_mode := mode\<rparr>) s1"
  have s2: "heap_inv s2 g1 (n - 96)" "vfs_paths s2 g1 F" "mem s2 = mem s1" "vnodes s2 = vnodes s"
    using a(2) vfs_paths_frame [OF paths fr(1,2) hk] fr(1) by (simp_all add: s2_def upd_file_def)
  have np: "length cs + 73 \<le> n - 96" using n by simp
  obtain s3 where l: "vfs_lookup lit path s2 = Some (F (tokens cs), s3)" "heap_inv s3 g1 (n - 96)" "vfs_paths s3 g1 F"
    "kept (mem s2) (heap_taken g1) (mem s3) (heap_taken g1)" "vnodes s3 = vnodes s2" "vfs_state.more s3 = vfs_state.more s2"
    "g_vfs_root s3 = g_vfs_root s2" "kernel_core s3 = kernel_core s2"
    using vfs_lookup_paths [where lit = lit, OF s2(1) np s2(2) path(1)] string_at_kept [OF path(2) a(5)] string_at_kept [OF slash a(5)] s2(3)
    by metis
  have fs: "files s3 = files s2" by (rule files_more [OF l(6)])
  have core: "kernel_core s3 = kernel_core s" using l(8) heap_frame_core [OF a(6)] by (simp add: s2_def upd_file_def kernel_core_def)
  have mark: "in_heap g1 (fd - 16)" using heap_ptr_mark [OF heap_owns_ptr [OF a(4)]] .
  have m3: "mem s3 (fd - 16) = mem s1 (fd - 16)" using l(4) in_heap_taken [OF mark] s2(3) by (simp add: kept_def)
  have own: "heap_owns (s3\<lparr>files := fs\<rparr>) g1 fd 24 g" for fs
    using l(2) m3 by (intro heap_owns_transfer [OF a(4), of _ "n - 96"]) simp_all
  have k3: "kept (mem s) (heap_taken g) (mem s3) (heap_taken g1)" using kept_trans [OF a(5) l(4) [unfolded s2(3)]] .
  show "\<exists>t. open_file lit path mode s = Some (NULL, t) \<and> heap_inv t g (n - 96) \<and> vfs_paths t g F \<and>
      vnodes t = vnodes s \<and> kept (mem s) (heap_taken g) (mem t) (heap_taken g) \<and> kernel_core t = kernel_core s" if none: "F (tokens cs) = NULL"
  proof -
    let ?s = "upd_file fd (\<lambda>f. f\<lparr>file_vnode := NULL\<rparr>) s3"
    obtain t where t: "kfree fd ?s = Some t" "heap_inv t g (n - 96)" "mem t = mem ?s" "heap_frame ?s t"
      using kfree_releases [of ?s g1 "n - 96" fd 24 g] own l(2) by (auto simp: upd_file_def)
    have "open_file lit path mode s = Some (NULL, t)"
      using a(1,3) mode l(1) none t(1) by (simp add: open_file_def s2_def Let_def)
    moreover have vt: "vnodes t = vnodes s" "g_vfs_root t = g_vfs_root s"
      using heap_frame_vfs(1,2) [OF t(4)] l(5,7) s2(4) fr(2) by (simp_all add: upd_file_def s2_def)
    moreover have k: "kept (mem s) (heap_taken g) (mem t) (heap_taken g)" using k3 t(3) by (simp add: kept_def upd_file_def)
    moreover have "vfs_paths t g F"
      using k by (intro vfs_paths_frame [OF paths vt] heap_kept_mem) (auto simp: kept_def dest: in_heap_taken)
    moreover have "kernel_core t = kernel_core s" using heap_frame_core [OF t(4)] core by (simp add: upd_file_def kernel_core_def)
    ultimately show ?thesis using t(2) by blast
  qed
  show "\<exists>fd t g'. open_file lit path mode s = Some (fd, t) \<and> fd \<noteq> NULL \<and> heap_inv t g' (n - 96) \<and>
      vfs_paths t g' F \<and> vnodes t = vnodes s \<and> kept (mem s) (heap_taken g) (mem t) (heap_taken g') \<and> heap_owns t g' fd 24 g \<and>
      files t = (files s)(fd := \<lparr>file_fd = 0, file_uid = 0, file_vnode = F (tokens cs), file_mode = mode\<rparr>) \<and> kernel_core t = kernel_core s"
    if some: "F (tokens cs) \<noteq> NULL"
  proof -
    let ?t = "upd_file fd (\<lambda>f. f\<lparr>file_fd := 0, file_uid := 0\<rparr>) (upd_file fd (\<lambda>f. f\<lparr>file_vnode := F (tokens cs)\<rparr>) s3)"
    have "open_file lit path mode s = Some (fd, ?t)"
      using a(1,3) mode l(1) some by (simp add: open_file_def s2_def Let_def)
    moreover have "files ?t = (files s)(fd := \<lparr>file_fd = 0, file_uid = 0, file_vnode = F (tokens cs), file_mode = mode\<rparr>)"
      using fs heap_frame_files [OF a(6)] by (cases "files s fd") (simp add: upd_file_def s2_def)
    ultimately show ?thesis using a(3) l(2,3,5) s2(4) k3 own
      core [unfolded kernel_core_def] by (intro exI [of _ fd] exI [of _ ?t] exI [of _ g1]) (simp add: upd_file_def kernel_core_def)
  qed
qed

lemma read_file_spec:
  "read_file file buffer sz s =
     (let f = files s file; v = vnodes s (file_vnode f); n = min sz (vn_size v)
      in if file \<noteq> NULL \<and> file_mode f \<in> {READ_ONLY, READ_WRITE} \<and> vn_type v = VNODE_FILE \<and> file_vnode f \<noteq> NULL \<and>
            (bit (vn_permissions v) 8 \<or> vn_uid v = file_uid f \<and> (bit (vn_permissions v) 0 \<or> bit (vn_permissions v) 4))
         then (ucast n, s\<lparr>mem := fst (memcpy (mem s) buffer (vn_data v) n)\<rparr>)
         else (- 1, s))"
proof -
  have b: "p AND 2 ^ k = 0 \<longleftrightarrow> \<not> bit p k" for p :: u32 and k :: nat
    by (simp add: and_exp_eq_0_iff_not_bit)
  have "p AND 1 = 0 \<longleftrightarrow> \<not> bit p 0" "p AND 16 = 0 \<longleftrightarrow> \<not> bit p 4" "p AND 256 = 0 \<longleftrightarrow> \<not> bit p 8" for p :: u32
    using b [of p 0] b [of p 4] b [of p 8] by simp_all
  then have c: "hvfs_permission_check node uid VNODE_PERMS_OWNER_READ s \<longleftrightarrow> node \<noteq> NULL \<and>
      (bit (vn_permissions (vnodes s node)) 8 \<or> vn_uid (vnodes s node) = uid \<and>
       (bit (vn_permissions (vnodes s node)) 0 \<or> bit (vn_permissions (vnodes s node)) 4))" for node uid
    by (simp add: hvfs_permission_check_def Let_def push_bit_eq_mult)
  have m: "(if b < a then b else a) = min a b" for a b :: u64 by (auto simp: min_def)
  show ?thesis unfolding read_file_def Let_def c m by (cases "file = NULL") simp_all
qed

section \<open>Properties\<close>

text \<open>
  C18. Opening finds what the path leads to. Without the flag \<open>CREATE\<close>, \<open>open\<close> returns a handle on memory of its own with the node
  of the path, the mode and user 0 if the path leads to a node, and NULL if it does not; in the second case the
  handle has been given back, and in both the file system and all memory in use are as before. Closing the handle
  afterwards gives its memory back and returns 0.
\<close>

theorem open_close:
  assumes "heap_inv s g n" and "length cs + 169 \<le> n" and "vfs_paths s g F" and "path \<noteq> NULL"
    and "string_at (mem s) (heap_taken g) path cs" and "string_at (mem s) (heap_taken g) (lit ''/'') [0x2F]" and "mode AND CREATE = 0"
  shows "\<exists>fd t. open_file lit path mode s = Some (fd, t) \<and> vnodes t = vnodes s \<and> (\<forall>x. heap_taken g x \<longrightarrow> mem t x = mem s x) \<and>
    (if F (tokens cs) = NULL then fd = NULL \<and> heap_inv t g (n - 96) \<and> vfs_paths t g F
     else fd \<noteq> NULL \<and> files t fd = \<lparr>file_fd = 0, file_uid = 0, file_vnode = F (tokens cs), file_mode = mode\<rparr> \<and>
       (\<exists>u. close fd t = Some (0, u) \<and> heap_inv u g (n - 96) \<and> vfs_paths u g F))"
proof (cases "F (tokens cs) = NULL")
  case True
  then show ?thesis using open_file_contract(1) [where lit = lit, OF assms True] by (auto simp: kept_def)
next
  case False
  obtain fd t g' where t: "open_file lit path mode s = Some (fd, t)" "fd \<noteq> NULL" "heap_inv t g' (n - 96)"
    "vnodes t = vnodes s" "kept (mem s) (heap_taken g) (mem t) (heap_taken g')" "heap_owns t g' fd 24 g"
    "files t = (files s)(fd := \<lparr>file_fd = 0, file_uid = 0, file_vnode = F (tokens cs), file_mode = mode\<rparr>)" "vfs_paths t g' F"
    using open_file_contract(2) [where lit = lit, OF assms False] by blast
  obtain u where u: "kfree fd t = Some u" "heap_inv u g (n - 96)" "mem u = mem t" "heap_frame t u"
    using kfree_releases [OF t(3,6)] by blast
  have "g_vfs_root t = g_vfs_root s" 
    using assms(3) t(8) by (metis vfs_paths_root)
  then have "vnodes u = vnodes s" "g_vfs_root u = g_vfs_root s" using heap_frame_vfs [OF u(4)] t(4) by simp_all
  moreover have "heap_kept (mem s) g (mem u) g" using t(5) u(3) by (intro heap_kept_mem) (auto simp: kept_def dest: in_heap_taken)
  ultimately have "vfs_paths u g F" using vfs_paths_frame [OF assms(3)] by blast
  then show ?thesis using False t u by (auto simp: kept_def close_def)
qed

theorem open_close_witness:
  "\<forall>s :: file_state. \<exists>t fd u v. vfs_init (\<lambda>_. 0x10) (small_fs s) = Some (0, t) \<and> open_file (\<lambda>_. 0x10) 0x10 READ_ONLY t = Some (fd, u) \<and>
     file_vnode (files u fd) = g_vfs_root t \<and> close fd u = Some (0, v)"
proof
  fix s :: file_state
  obtain t g where t: "vfs_init (\<lambda>_. 0x10) (small_fs s) = Some (0, t)" "heap_inv t g (1000 - 226)"
    "vfs_paths t g ((\<lambda>_. NULL)([] := g_vfs_root t))" "g_vfs_root t \<noteq> NULL" "spare 3 g"
    "\<forall>a cs. string_at (mem (small_fs s)) (heap_taken small_view) a cs \<longrightarrow> string_at (mem t) (heap_taken g) a cs"
    "\<forall>x. unat x < 0x100000 \<longrightarrow> heap_taken g x \<and> mem t x = mem (small_fs s) x"
    by (rule small_fs_root [of s]) (rule that; assumption)
  note sl = t(6) [rule_format, OF small_fs_strings(1)]
  have "tokens [0x2F] = []" by (simp add: tokens.simps)
  then show "\<exists>t fd u v. vfs_init (\<lambda>_. 0x10) (small_fs s) = Some (0, t) \<and> open_file (\<lambda>_. 0x10) 0x10 READ_ONLY t = Some (fd, u) \<and>
     file_vnode (files u fd) = g_vfs_root t \<and> close fd u = Some (0, v)"
    using open_close [where lit = "\<lambda>_. 0x10" and mode = READ_ONLY, OF t(2) _ t(3) _ sl sl] t(1,4) by auto
qed


text \<open>
  Opening with the flag \<open>CREATE\<close> loses memory. The handle is allocated before the flag is looked at; the function then
  returns NULL without giving it back, so that each such call leaves one allocation more in the heap that no
  pointer leads to.
\<close>

theorem open_create_leaks:
  assumes "heap_inv s g n" and "96 \<le> n" and "mode AND CREATE \<noteq> 0"
  shows "\<exists>t g' fd. open_file lit path mode s = Some (NULL, t) \<and> heap_inv t g' (n - 96) \<and> heap_ptr g' (mem t) fd 24 \<and>
    \<not> heap_taken g fd \<and> (\<forall>p. p \<noteq> fd \<longrightarrow> files t p = files s p)"
proof -
  have n24: "unat (24 :: u64) + 72 \<le> n" "n - (unat (24 :: u64) + 72) = n - 96" using assms(2) by simp_all
  obtain fd s1 g1 where a: "kmalloc 24 s = Some (fd, s1)" "heap_inv s1 g1 (n - 96)" "fd \<noteq> NULL" "heap_owns s1 g1 fd 24 g"
    "\<forall>x. in_range fd 24 x \<longrightarrow> \<not> heap_taken g x" "heap_frame s s1"
    using kmalloc_allocates [OF assms(1) n24(1)] by (auto simp: n24(2))
  let ?t = "upd_file fd (\<lambda>f. f\<lparr>file_mode := mode\<rparr>) s1"
  have "open_file lit path mode s = Some (NULL, ?t)" using a(1,3) assms(3) by (simp add: open_file_def)
  moreover have "heap_inv ?t g1 (n - 96)" "heap_ptr g1 (mem ?t) fd 24" "\<forall>p. p \<noteq> fd \<longrightarrow> files ?t p = files s p"
    using a(2) heap_owns_ptr [OF a(4)] heap_frame_files [OF a(6)] by (simp_all add: upd_file_def)
  moreover have "\<not> heap_taken g fd" using a(5) by (simp add: in_range_start)
  ultimately show ?thesis by blast
qed

theorem open_create_leaks_witness:
  "\<forall>s :: file_state. \<exists>t g' fd. open_file (\<lambda>_. 0x10) 0x20 CREATE (small_fs s) = Some (NULL, t) \<and> heap_ptr g' (mem t) fd 24"
proof
  fix s :: file_state
  show "\<exists>t g' fd. open_file (\<lambda>_. 0x10) 0x20 CREATE (small_fs s) = Some (NULL, t) \<and> heap_ptr g' (mem t) fd 24"
    using open_create_leaks [OF small_fs_ok(1), of CREATE "\<lambda>_. 0x10" "0x20" s] by auto
qed

text \<open>
  A failed write looks like a short one: \<open>vfs_write\<close> reports errors as 1, and \<open>write\<close> tests for a negative result.
\<close>

lemma write_error_as_count:
  assumes "file \<noteq> NULL" and "file_mode (files s file) = READ_WRITE" and "vn_type (vnodes s (file_vnode (files s file))) = VNODE_FILE"
    and "hvfs_permission_check (file_vnode (files s file)) (file_uid (files s file)) VNODE_PERMS_OWNER_WRITE s"
  shows "write_file file NULL sz s = Some (1, s)"
  using assms by (simp add: write_file_def Let_def vfs_write_def word_sless_alt)

lemma attributes_change:
  assumes "file \<noteq> NULL" and "file_vnode (files s file) = node" and "node \<noteq> NULL"
  shows "chmod file p s = (0, upd_vn node (\<lambda>v. v\<lparr>vn_permissions := p\<rparr>) s)" and "chown file u s = (0, upd_vn node (\<lambda>v. v\<lparr>vn_uid := u\<rparr>) s)"
  using assms by (simp_all add: chmod_def chown_def vfs_chmod_def vfs_chown_def)

end
