(* ===== verification/Ramfs.thy ===== *)
theory Ramfs
  imports Hvfs
begin

text \<open>
  The RAM disk: \<^verbatim>\<open>kernel/src/fs/ramfs.c\<close>. The boot loader leaves a tar archive in memory; \<open>ramfs_parse\<close> walks over its
  headers and creates a vnode for every entry, whose contents stay in the archive. The parser cuts the names of the
  archive into tokens where they are, so it writes to the archive.
\<close>

section \<open>State\<close>

record ramfs_state = file_state +
  ramfs_data :: u64
  ramfs_size :: u64

text \<open>The fields of a header the parser looks at.\<close>

abbreviation (input) USTAR_HEADER_SIZE :: u32 where "USTAR_HEADER_SIZE \<equiv> 512"

definition header_mode :: "u64 \<Rightarrow> u64" where "header_mode header = header + 100"
definition header_size :: "u64 \<Rightarrow> u64" where "header_size header = header + 124"
definition header_typeflag :: "memory \<Rightarrow> u64 \<Rightarrow> u8" where "header_typeflag m header = m (header + 156)"

text \<open>Permission bits of an archive, in octal: user, group and others.\<close>

abbreviation (input) TUREAD :: i32 where "TUREAD \<equiv> 256"
abbreviation (input) TUWRITE :: i32 where "TUWRITE \<equiv> 128"
abbreviation (input) TUEXEC :: i32 where "TUEXEC \<equiv> 64"
abbreviation (input) TGREAD :: i32 where "TGREAD \<equiv> 32"
abbreviation (input) TGWRITE :: i32 where "TGWRITE \<equiv> 16"
abbreviation (input) TGEXEC :: i32 where "TGEXEC \<equiv> 8"
abbreviation (input) TOREAD :: i32 where "TOREAD \<equiv> 4"
abbreviation (input) TOWRITE :: i32 where "TOWRITE \<equiv> 2"
abbreviation (input) TOEXEC :: i32 where "TOEXEC \<equiv> 1"

definition ramfs_permissions :: "i32 \<Rightarrow> u32" where
  "ramfs_permissions mode =
     (let bit = (\<lambda>t v. if mode AND t \<noteq> 0 then v else 0)
      in 0 OR bit TUREAD VNODE_PERMS_OWNER_READ OR bit TUWRITE VNODE_PERMS_OWNER_WRITE OR bit TUEXEC VNODE_PERMS_OWNER_EXECUTE OR
         bit TGREAD VNODE_PERMS_GROUP_READ OR bit TGWRITE VNODE_PERMS_GROUP_WRITE OR bit TGEXEC VNODE_PERMS_GROUP_EXECUTE OR
         bit TOREAD VNODE_PERMS_OTHERS_READ OR bit TOWRITE VNODE_PERMS_OTHERS_WRITE OR bit TOEXEC VNODE_PERMS_OTHERS_EXECUTE)"

section \<open>The parser\<close>

text \<open>What \<open>&subdir\<close> and \<open>&new_file\<close> are: addresses of local variables, which are not NULL.\<close>

abbreviation (input) local_variable :: u64 where "local_variable \<equiv> 1"

text \<open>
  The loop over the names of a path. The result is None when a directory could not be created, and otherwise the
  node that was reached and the token at which the loop stopped.
\<close>

partial_function (option) walk_directories ::
  "(string \<Rightarrow> u64) \<Rightarrow> bool \<Rightarrow> i32 \<Rightarrow> u64 \<Rightarrow> u64 \<Rightarrow> 'a ramfs_state_scheme \<Rightarrow> ((u64 \<times> u64) option \<times> 'a ramfs_state_scheme) option" where
  "walk_directories lit is_directory mode current_parent token s =
     (if token = NULL then Some (Some (current_parent, token), s)
      else do {
        subdir \<leftarrow> vfs_search_node current_parent token s;
        if subdir = NULL
        then if is_directory
             then do {
               (r, node, s) \<leftarrow> vfs_create current_parent token VNODE_DIRECTORY (ramfs_permissions mode) local_variable s;
               if r \<noteq> 0 \<or> node = None then Some (None, s)
               else do {
                 let subdir = the node;
                 let (time, s) = get_rtc_timestamp s;
                 let s = upd_vn subdir (\<lambda>v. v\<lparr>vn_creation_time := time\<rparr>) s;
                 (token, s) \<leftarrow> next_token NULL (lit ''/'') s;
                 walk_directories lit is_directory mode subdir token s
               }
             }
             else Some (Some (current_parent, token), s)
        else do {
          (token, s) \<leftarrow> next_token NULL (lit ''/'') s;
          walk_directories lit is_directory mode subdir token s
        }
      })"

text \<open>The creation of a file; False stands for the early return with 1.\<close>

definition create_file ::
  "(string \<Rightarrow> u64) \<Rightarrow> u64 \<Rightarrow> u32 \<Rightarrow> i32 \<Rightarrow> u64 \<Rightarrow> u64 \<Rightarrow> 'a ramfs_state_scheme \<Rightarrow> (bool \<times> 'a ramfs_state_scheme) option" where
  "create_file lit header file_size mode current_parent token s =
     do {
       (file_name, s) \<leftarrow> next_token token (lit ''/'') s;
       if file_name = NULL then Some (True, s)
       else do {
         len \<leftarrow> strlen (mem s) file_name;
         if len = 0 then Some (True, s)
         else do {
           (r, node, s) \<leftarrow> vfs_create current_parent file_name VNODE_FILE (ramfs_permissions mode) local_variable s;
           if r \<noteq> 0 \<or> node = None then Some (False, s)
           else do {
             let new_file = the node;
             let (time, s) = get_rtc_timestamp s;
             Some (True, upd_vn new_file (\<lambda>v. v\<lparr>vn_creation_time := time, vn_data := header + ucast USTAR_HEADER_SIZE,
               vn_size := ucast file_size\<rparr>) s)
           }
         }
       }
     }"

text \<open>An entry that is not skipped; again, False stands for the early return.\<close>

definition ramfs_entry ::
  "(string \<Rightarrow> u64) \<Rightarrow> u64 \<Rightarrow> u64 \<Rightarrow> u32 \<Rightarrow> bool \<Rightarrow> i32 \<Rightarrow> u64 \<Rightarrow> 'a ramfs_state_scheme \<Rightarrow> (bool \<times> 'a ramfs_state_scheme) option" where
  "ramfs_entry lit parent header file_size is_directory mode name s =
     do {
       (token, s) \<leftarrow> next_token name (lit ''/'') s;
       (reached, s) \<leftarrow> walk_directories lit is_directory mode parent token s;
       if reached = None then Some (False, s)
       else do {
         let (current_parent, token) = the reached;
         if is_directory then Some (True, s) else create_file lit header file_size mode current_parent token s
       }
     }"

text \<open>The distance to the next header is computed in 32 bits.\<close>

definition entry_span :: "u32 \<Rightarrow> u32" where
  "entry_span file_size = USTAR_HEADER_SIZE + ((file_size + 511) AND NOT 511)"

partial_function (option) ramfs_loop ::
  "(string \<Rightarrow> u64) \<Rightarrow> u64 \<Rightarrow> u64 \<Rightarrow> 'a ramfs_state_scheme \<Rightarrow> (i32 \<times> 'a ramfs_state_scheme) option" where
  "ramfs_loop lit parent offset s =
     (if \<not> offset < ramfs_size s then Some (0, s)
      else do {
        let header = ramfs_data s + offset;
        if mem s header = 0 then Some (0, s)
        else do {
          (size_value, _) \<leftarrow> strtol (mem s) (header_size header) 8;
          let file_size = of_int size_value;
          let is_directory = (header_typeflag (mem s) header = 0x35);
          (mode_value, _) \<leftarrow> strtol (mem s) (header_mode header) 8;
          let mode = of_int mode_value;
          let name = (if strncmp (mem s) header (lit ''./'') 2 = 0 then header + 2 else header);
          len \<leftarrow> strlen (mem s) name;
          skip \<leftarrow> (if len = 0 then Some True else do { r \<leftarrow> strcmp (mem s) name (lit ''.''); Some (r = 0) });
          if skip then ramfs_loop lit parent (offset + ucast (entry_span file_size)) s
          else do {
            (ok, s) \<leftarrow> ramfs_entry lit parent header file_size is_directory mode name s;
            if ok then ramfs_loop lit parent (offset + ucast (entry_span file_size)) s else Some (1, s)
          }
        }
      })"

definition ramfs_parse :: "(string \<Rightarrow> u64) \<Rightarrow> u64 \<Rightarrow> 'a ramfs_state_scheme \<Rightarrow> (i32 \<times> 'a ramfs_state_scheme) option" where
  "ramfs_parse lit parent s =
     (if ramfs_data s = NULL \<or> ramfs_size s = 0 then Some (1, s) else ramfs_loop lit parent 0 s)"

definition ramfs_init :: "(string \<Rightarrow> u64) \<Rightarrow> u64 \<Rightarrow> u64 \<Rightarrow> 'a ramfs_state_scheme \<Rightarrow> (i32 \<times> 'a ramfs_state_scheme) option" where
  "ramfs_init lit data sz s =
     (if data = NULL \<or> sz = 0 then Some (1, s)
      else do {
        let s = s\<lparr>ramfs_data := data, ramfs_size := sz\<rparr>;
        let initrd = g_vfs_root s;
        let s = upd_vn initrd (\<lambda>v. v\<lparr>vn_type := VNODE_DIRECTORY, vn_size := sz, vn_permissions := root_permissions,
                  vn_child := NULL, vn_next := NULL\<rparr>) s;
        let (time, s) = get_rtc_timestamp s;
        let s = upd_vn initrd (\<lambda>v. v\<lparr>vn_creation_time := time\<rparr>) s;
        ramfs_parse lit initrd s
      })"

section \<open>Memory outside of the heap\<close>

definition outside :: "heap_view \<Rightarrow> u64 \<Rightarrow> bool" where
  "outside g x \<longleftrightarrow> (\<forall>(lo, hi, as) \<in> set g. \<not> (lo \<le> unat x \<and> unat x < hi))"

lemma outside_taken: "outside g x \<Longrightarrow> heap_taken g x"
  by (simp add: outside_def heap_taken_def)

lemma outside_not_in_heap:
  assumes "heap_inv s g n" and "outside g x"
  shows "\<not> in_heap g x"
proof
  assume "in_heap g x"
  then obtain lo hi as a k where a: "(lo, hi, as) \<in> set g" "(a, k) \<in> set as" "a \<le> unat x" "unat x < a + k"
    unfolding in_heap_def by blast
  obtain Bs where Bs: "heap_wf s Bs" "g = map (block_view s) Bs" using assms(1) by (auto simp: heap_inv_def)
  from a(1) Bs(2) obtain maj ms where B: "(maj, ms) \<in> set Bs" "lo = unat maj" "hi = block_end s maj" "as = map (area_of s) ms"
    by (auto simp: block_view_def)
  have "areas_ok (lo + 40) hi as" using Bs(1) B by (auto simp: heap_wf_def block_ok_def)
  from areas_ok_within [OF this a(2)] have "lo \<le> unat x" "unat x < hi" using a(3,4) by simp_all
  then show False using assms(2) a(1) unfolding outside_def by blast
qed

lemma outside_kept:
  assumes "heap_kept m g m' g'" and "outside g x"
  shows "outside g' x"
  unfolding outside_def
proof clarify
  fix lo hi as'
  assume "(lo, hi, as') \<in> set g'" "lo \<le> unat x" "unat x < hi"
  then show False using heap_kept_block(2) [OF assms(1)] assms(2) unfolding outside_def by blast
qed

section \<open>The states of the parser\<close>

text \<open>The archive and the string literals lie outside of the heap and do not overlap.\<close>

definition in_disk :: "'a ramfs_state_scheme \<Rightarrow> u64 \<Rightarrow> bool" where
  "in_disk s x \<longleftrightarrow> in_range (ramfs_data s) (unat (ramfs_size s)) x"

definition disk_ok :: "(string \<Rightarrow> u64) \<Rightarrow> 'a ramfs_state_scheme \<Rightarrow> heap_view \<Rightarrow> nat \<Rightarrow> bool" where
  "disk_ok lit s g n \<longleftrightarrow> heap_inv s g n \<and> 0 < unat (ramfs_data s) \<and> unat (ramfs_data s) + unat (ramfs_size s) < 2 ^ 64 \<and>
     (\<forall>x. in_disk s x \<longrightarrow> outside g x) \<and>
     string_at (mem s) (\<lambda>x. heap_taken g x \<and> \<not> in_disk s x) (lit ''/'') [0x2F] \<and>
     string_at (mem s) (\<lambda>x. heap_taken g x \<and> \<not> in_disk s x) (lit ''./'') [0x2E, 0x2F] \<and>
     string_at (mem s) (\<lambda>x. heap_taken g x \<and> \<not> in_disk s x) (lit ''.'') [0x2E]"

text \<open>A step of the parser: it may write to part of the archive, allocate, and change vnodes.\<close>

lemma disk_ok_step:
  assumes ok: "disk_ok lit s g n" and inv: "heap_inv t g' n'" and more: "vfs_state.more t = vfs_state.more s"
    and m: "\<forall>x. heap_taken g x \<and> \<not> in_disk s x \<longrightarrow> heap_taken g' x \<and> mem t x = mem s x" and k: "heap_kept (mem s) g m' g'"
  shows "disk_ok lit t g' n'" and "ramfs_data t = ramfs_data s" and "ramfs_size t = ramfs_size s" and "in_disk t = in_disk s"
proof -
  show d: "ramfs_data t = ramfs_data s" "ramfs_size t = ramfs_size s" using more by (cases s, cases t, simp)+
  then show i: "in_disk t = in_disk s" by (simp add: in_disk_def fun_eq_iff)
  have "kept (mem s) (\<lambda>x. heap_taken g x \<and> \<not> in_disk s x) (mem t) (\<lambda>x. heap_taken g' x \<and> \<not> in_disk s x)"
    using m by (simp add: kept_def)
  from string_at_kept [OF _ this] show "disk_ok lit t g' n'"
    using ok inv outside_kept [OF k] unfolding disk_ok_def d i by blast
qed

lemma in_disk_sub:
  assumes "unat off + k \<le> unat (ramfs_size s)" and "unat (ramfs_data s) + unat (ramfs_size s) < 2 ^ 64" and "in_range (ramfs_data s + off) k x"
  shows "in_disk s x"
proof -
  have "unat (ramfs_data s + off) = unat (ramfs_data s) + unat off" using assms(1,2) by (intro unat_add_no_wrap) simp
  then show ?thesis using assms by (simp add: in_disk_def in_range_nat)
qed

section \<open>The names of a path\<close>

lemma tokens_token:
  assumes "t \<in> set (tokens cs)"
  shows "t \<noteq> []" and "0x2F \<notin> set t" and "tokens t = [t]"
proof -
  have "t \<noteq> [] \<and> 0x2F \<notin> set t" using assms
  proof (induction cs rule: tokens.induct)
    case (1 cs)
    let ?r = "dropWhile (\<lambda>c. c = 0x2F) cs"
    show ?case
    proof (cases "?r = []")
      case True
      then show ?thesis using 1 by (simp add: tokens.simps)
    next
      case False
      then have "hd ?r \<noteq> 0x2F" using hd_dropWhile [of "\<lambda>c. c = 0x2F" cs] by simp
      then have "takeWhile (\<lambda>c. c \<noteq> 0x2F) ?r \<noteq> []" using False by (cases ?r) auto
      moreover have "0x2F \<notin> set (takeWhile (\<lambda>c. c \<noteq> 0x2F) ?r)" by (auto dest: set_takeWhileD)
      moreover have "tokens cs = takeWhile (\<lambda>c. c \<noteq> 0x2F) ?r # tokens (dropWhile (\<lambda>c. c \<noteq> 0x2F) ?r)"
        using False by (subst tokens.simps) (simp add: Let_def)
      ultimately show ?thesis using 1 False by auto
    qed
  qed
  then show nt: "t \<noteq> []" "0x2F \<notin> set t" by simp_all
  then have d: "dropWhile (\<lambda>c. c = 0x2F) t = t" "takeWhile (\<lambda>c. c \<noteq> 0x2F) t = t" "dropWhile (\<lambda>c. c \<noteq> 0x2F) t = []"
    by (cases t; auto simp: takeWhile_eq_all_conv dropWhile_eq_Nil_conv)+
  show "tokens t = [t]" unfolding tokens.simps [of t] Let_def d using nt(1) by (simp add: tokens.simps [of "[]"])
qed

text \<open>
  The part of a path that exists is walked down without changes but to the name that is being cut: \<open>q\<close> is where the
  name starts in the archive, and \<open>L\<close> its length.
\<close>

lemma walk_to_last:
  assumes "vfs_paths s g F" and free: "\<forall>x. in_range q (Suc L) x \<longrightarrow> \<not> in_heap g x"
    and "string_at (mem s) (\<lambda>x. \<not> in_range q (Suc L) x) (lit ''/'') [0x2F]"
    and "cstr (mem s) (q + of_nat k) t" and "q + of_nat k \<noteq> NULL" and "k + length t \<le> L"
    and "cstr (mem s) (strtok_last s) rs" and "strtok_last s = q + of_nat j" and "j + length rs = L"
    and "p @ t # tokens rs = ts @ [cs]" and q: "0 < unat q" "unat q + L < 2 ^ 64" and ts: "F ts \<noteq> NULL"
  shows "\<exists>m i j rs. walk_directories lit isd mode (F p) (q + of_nat k) s =
      walk_directories lit isd mode (F ts) (q + of_nat i) (s\<lparr>mem := m, strtok_last := q + of_nat j\<rparr>) \<and> q + of_nat i \<noteq> NULL \<and>
    cstr m (q + of_nat i) cs \<and> i + length cs \<le> L \<and> cstr m (q + of_nat j) rs \<and> j + length rs = L \<and> tokens rs = [] \<and>
    (\<forall>x. \<not> in_range q (Suc L) x \<longrightarrow> m x = mem s x)"
  using assms(1,3-10)
proof (induction "length rs" arbitrary: s p k t rs j rule: less_induct)
  case less
  note paths = less.prems(1)
  show ?case
  proof (cases "tokens rs")
    case Nil
    then have pt: "p = ts" "t = cs" using less.prems(9) by simp_all
    have "s\<lparr>mem := mem s, strtok_last := q + of_nat j\<rparr> = s" using less.prems(7) by (cases s) simp
    then show ?thesis unfolding pt [symmetric] using less.prems(3-8) Nil by metis
  next
    case (Cons t' us)
    then have "ts = (p @ [t]) @ butlast (tokens rs)" using less.prems(9)
      by (metis append.assoc append_Cons append_Nil butlast_append butlast_snoc list.distinct(1) butlast.simps(2))
    then have sub: "F (p @ [t]) \<noteq> NULL" using vfs_paths_prefix [OF paths] ts by metis
    then have d: "F p \<noteq> NULL" using vfs_paths_prefix [OF paths] by metis
    have srch: "vfs_search_node (F p) (q + of_nat k) s = Some (F (p @ [t]))"
      by (rule vfs_search_paths [OF paths d less.prems(3,4)])
    have dl: "cstr (mem s) (lit ''/'') [0x2F]" using less.prems(2) by (simp add: string_at_def)
    have sl: "strtok_last s = (if NULL = NULL then strtok_last s else NULL)" by simp
    from next_token_spec(2) [OF sl less.prems(7,6,8) dl q Cons]
    obtain m k' j' rs' where m: "next_token NULL (lit ''/'') s = Some (q + of_nat k', s\<lparr>mem := m, strtok_last := q + of_nat j'\<rparr>)"
      "q + of_nat k' \<noteq> NULL" "cstr m (q + of_nat k') t'" "k' + length t' \<le> L" "cstr m (q + of_nat j') rs'" "j' + length rs' = L"
      "tokens rs' = us" "length rs' < length rs" "\<forall>x. \<not> in_range q (Suc L) x \<longrightarrow> m x = mem s x" by auto
    let ?s = "s\<lparr>mem := m, strtok_last := q + of_nat j'\<rparr>"
    have step: "walk_directories lit isd mode (F p) (q + of_nat k) s = walk_directories lit isd mode (F (p @ [t])) (q + of_nat k') ?s"
      using srch sub less.prems(4) m(1) by (subst walk_directories.simps) simp
    have paths': "vfs_paths ?s g F" using free m(9) by (intro vfs_paths_frame [OF paths] heap_kept_mem) auto
    have dl': "string_at (mem ?s) (\<lambda>x. \<not> in_range q (Suc L) x) (lit ''/'') [0x2F]"
      using m(9) by (intro string_at_kept [OF less.prems(2)]) (simp add: kept_def)
    have "(p @ [t]) @ t' # tokens rs' = ts @ [cs]" using less.prems(9) Cons m(7) by simp
    from less.hyps [OF m(8), of ?s k' t' j' "p @ [t]"] paths' dl' m(2-6) this
    obtain m' i l rs'' where r: "walk_directories lit isd mode (F (p @ [t])) (q + of_nat k') ?s =
        walk_directories lit isd mode (F ts) (q + of_nat i) (?s\<lparr>mem := m', strtok_last := q + of_nat l\<rparr>)" "q + of_nat i \<noteq> NULL"
      "cstr m' (q + of_nat i) cs" "i + length cs \<le> L" "cstr m' (q + of_nat l) rs''" "l + length rs'' = L" "tokens rs'' = []"
      "\<forall>x. \<not> in_range q (Suc L) x \<longrightarrow> m' x = m x" by auto
    moreover have "?s\<lparr>mem := m', strtok_last := q + of_nat l\<rparr> = s\<lparr>mem := m', strtok_last := q + of_nat l\<rparr>" by simp
    moreover have "\<forall>x. \<not> in_range q (Suc L) x \<longrightarrow> m' x = mem s x" using r(8) m(9) by simp
    ultimately show ?thesis unfolding step by metis
  qed
qed

section \<open>One entry\<close>

lemma disk_literals:
  assumes "disk_ok lit s g n"
  shows "cstr (mem s) (lit ''/'') [0x2F]" and "cstr (mem s) (lit ''./'') [0x2E, 0x2F]" and "cstr (mem s) (lit ''.'') [0x2E]"
    and "string_at (mem s) (\<lambda>x. heap_taken g x \<and> \<not> in_disk s x) (lit ''/'') [0x2F]"
  using assms by (simp_all add: disk_ok_def string_at_def)

text \<open>What holds after a node was put at a path.\<close>

definition node_added ::
  "(string \<Rightarrow> u64) \<Rightarrow> 'a ramfs_state_scheme \<Rightarrow> heap_view \<Rightarrow> (u8 list list \<Rightarrow> u64) \<Rightarrow> u8 list list \<Rightarrow> 'a ramfs_state_scheme \<Rightarrow> u64 \<Rightarrow>
   heap_view \<Rightarrow> nat \<Rightarrow> bool" where
  "node_added lit s g F p t node g' n' \<longleftrightarrow>
     disk_ok lit t g' n' \<and> vfs_paths t g' (F(p := node)) \<and> node \<notin> range F \<and> node \<noteq> NULL \<and>
     (\<forall>v. v \<noteq> node \<longrightarrow> (\<exists>c x. vnodes t v = (vnodes s v)\<lparr>vn_child := c, vn_next := x\<rparr>)) \<and>
     vfs_state.more t = vfs_state.more s \<and> g_vfs_root t = g_vfs_root s \<and> (\<forall>x. heap_taken g x \<longrightarrow> heap_taken g' x \<and> mem t x = mem s x)"

text \<open>
  A new node whose attributes are then filled in, as for directories and files. \<open>f\<close> is the change of the
  attributes, which leaves the links and the name alone.
\<close>

lemma make_node:
  assumes ok: "disk_ok lit s g n" and n: "length cs + 225 \<le> n" and paths: "vfs_paths s g F" and d: "F ts \<noteq> NULL" "F (ts @ [cs]) = NULL"
    and a: "cstr (mem s) a cs" "a \<noteq> NULL" "\<forall>x. in_range a (Suc (length cs)) x \<longrightarrow> in_disk s x"
    and f: "\<forall>time v. vn_parent (f time v) = vn_parent v \<and> vn_next (f time v) = vn_next v \<and> vn_child (f time v) = vn_child v \<and>
      vn_name (f time v) = vn_name v"
  shows "\<exists>node s1 time s2 t g' v0. vfs_create (F ts) a type perms local_variable s = Some (0, Some node, s1) \<and>
    get_rtc_timestamp s1 = (time, s2) \<and> upd_vn node (f time) s2 = t \<and> node_added lit s g F (ts @ [cs]) t node g' (n - (length cs + 225)) \<and>
    strtok_last t = strtok_last s \<and> vnodes t node = f time v0 \<and> vn_type v0 = type \<and> vn_permissions v0 = perms \<and> vn_uid v0 = 0"
proof -
  have inv: "heap_inv s g n" and out: "\<And>x. in_disk s x \<Longrightarrow> outside g x" using ok by (auto simp: disk_ok_def)
  have str: "string_at (mem s) (heap_taken g) a cs" using a(1,3) out outside_taken by (auto simp: string_at_def)
  obtain node s1 g' nm tm where c: "vfs_create (F ts) a type perms local_variable s = Some (0, Some node, s1)" "node \<notin> range F" "node \<noteq> NULL"
    "heap_inv s1 g' (n - (length cs + 225))" "kept (mem s) (heap_taken g) (mem s1) (heap_taken g')" "heap_kept (mem s) g (mem s1) g'"
    "vfs_paths s1 g' (F(ts @ [cs] := node))"
    and v: "vnodes s1 node = (vnodes s node)\<lparr>vn_parent := F ts, vn_next := NULL, vn_child := NULL, vn_type := type, vn_permissions := perms,
      vn_name := nm, vn_size := 0, vn_creation_time := tm, vn_uid := 0, vn_data := NULL\<rparr>"
    and l: "\<forall>v. v \<noteq> node \<longrightarrow> vnodes s1 v = (vnodes s v)\<lparr>vn_child := vn_child (vnodes s1 v), vn_next := vn_next (vnodes s1 v)\<rparr>"
    and r: "g_vfs_root s1 = g_vfs_root s" "strtok_last s1 = strtok_last s" "vfs_state.more s1 = vfs_state.more s"
    using vfs_create_paths [OF inv n paths d a(2) str, of local_variable type perms] by auto
  obtain time s2 where ts: "get_rtc_timestamp s1 = (time, s2)" by fastforce
  obtain b tr where s2: "s2 = s1\<lparr>int_flag := b, io_trace := tr\<rparr>" using rtc_timestamp_frame [of s1] ts by auto
  define t where "t = upd_vn node (f time) s2"
  have u: "heap_inv t g' (n - (length cs + 225))" "mem t = mem s1" "vfs_state.more t = vfs_state.more s" "strtok_last t = strtok_last s"
    "g_vfs_root t = g_vfs_root s1" "vnodes t = (vnodes s1)(node := f time (vnodes s1 node))"
    using c(4) r by (simp_all add: t_def upd_vn_def s2)
  have "same_links t s1" using f by (simp add: same_links_def u(6))
  then have "vfs_paths t g' (F(ts @ [cs] := node))" using u(2,5) by (intro vfs_paths_links [OF c(7)]) simp_all
  moreover have "disk_ok lit t g' (n - (length cs + 225))"
    using c(5,6) u(2) by (intro disk_ok_step(1) [OF ok u(1,3), of "mem s1"]) (auto simp: kept_def)
  moreover have "\<exists>c x. vnodes t v = (vnodes s v)\<lparr>vn_child := c, vn_next := x\<rparr>" if "v \<noteq> node" for v
    using l [rule_format, OF that] that u(6) by auto
  moreover have "\<forall>x. heap_taken g x \<longrightarrow> heap_taken g' x \<and> mem t x = mem s x" using c(5) u(2) by (simp add: kept_def)
  ultimately have "node_added lit s g F (ts @ [cs]) t node g' (n - (length cs + 225))"
    using c(2,3) u(3,5) r(1) unfolding node_added_def by auto
  moreover have "vnodes t node = f time (vnodes s1 node)" "vn_type (vnodes s1 node) = type" "vn_permissions (vnodes s1 node) = perms"
    "vn_uid (vnodes s1 node) = 0" using v u(6) by simp_all
  ultimately show ?thesis using c(1) ts t_def u(4) by blast
qed

text \<open>The rest of a name is empty: there is no further token, and nothing changes.\<close>

lemma next_token_end:
  assumes "cstr (mem s) (strtok_last s) rs" and "tokens rs = []" and "cstr (mem s) delim [0x2F]" and "strtok_last s = q + of_nat j"
    and "j + length rs = L" and "0 < unat q" and "unat q + L < 2 ^ 64"
  shows "next_token NULL delim s = Some (NULL, s)"
  using next_token_spec(1) [of "strtok_last s" NULL s q j rs L delim] assms by simp

lemma directory_entry:
  assumes ok: "disk_ok lit s g n" and n: "length cs + 225 \<le> n" and paths: "vfs_paths s g F" and d: "F ts \<noteq> NULL" "F (ts @ [cs]) = NULL"
    and a: "cstr (mem s) a cs" "a \<noteq> NULL" "\<forall>x. in_range a (Suc (length cs)) x \<longrightarrow> in_disk s x"
    and rest: "cstr (mem s) (strtok_last s) rs" "tokens rs = []" "strtok_last s = q + of_nat j" "j + length rs = L" "0 < unat q" "unat q + L < 2 ^ 64"
      "\<forall>x. in_range q (Suc L) x \<longrightarrow> in_disk s x"
  shows "\<exists>node t g'. walk_directories lit True mode (F ts) a s = Some (Some (node, NULL), t) \<and>
    node_added lit s g F (ts @ [cs]) t node g' (n - (length cs + 225)) \<and>
    vn_type (vnodes t node) = VNODE_DIRECTORY \<and> vn_permissions (vnodes t node) = ramfs_permissions mode \<and> vn_uid (vnodes t node) = 0"
proof -
  let ?f = "\<lambda>time v. v\<lparr>vn_creation_time := time\<rparr>"
  have f: "\<forall>time v. vn_parent (?f time v) = vn_parent v \<and> vn_next (?f time v) = vn_next v \<and> vn_child (?f time v) = vn_child v \<and>
      vn_name (?f time v) = vn_name v" by simp
  obtain node s1 time s2 t g' v0 where c: "vfs_create (F ts) a VNODE_DIRECTORY (ramfs_permissions mode) local_variable s = Some (0, Some node, s1)"
    "get_rtc_timestamp s1 = (time, s2)" "upd_vn node (?f time) s2 = t"
    and t: "node_added lit s g F (ts @ [cs]) t node g' (n - (length cs + 225))" "strtok_last t = strtok_last s"
    "vnodes t node = ?f time v0" "vn_type v0 = VNODE_DIRECTORY" "vn_permissions v0 = ramfs_permissions mode" "vn_uid v0 = 0"
    using make_node [OF ok n paths d a f] by blast
  have out: "heap_taken g x" if "in_disk s x" for x using ok that outside_taken by (auto simp: disk_ok_def)
  have "cstr (mem t) (strtok_last s) rs"
  proof (rule cstr_cong [OF rest(1)])
    fix x
    assume x: "in_range (strtok_last s) (Suc (length rs)) x"
    have "unat (strtok_last s) = unat q + j" using rest(3-6) by (simp add: unat_add_no_wrap)
    then have "in_range q (Suc L) x" using x rest(4-6) by (simp add: in_range_nat)
    then show "mem t x = mem s x" using t(1) out rest(7) by (simp add: node_added_def)
  qed
  moreover have "cstr (mem t) (lit ''/'') [0x2F]" using t(1) disk_literals(1) by (auto simp: node_added_def)
  ultimately have nt: "next_token NULL (lit ''/'') t = Some (NULL, t)"
    using next_token_end [of t rs "lit ''/''" q j L] t(2) rest(2-6) by simp
  have "vfs_search_node (F ts) a s = Some NULL" using vfs_search_paths [OF paths d(1) a(1,2)] d(2) by simp
  then have "walk_directories lit True mode (F ts) a s = Some (Some (node, NULL), t)"
    using a(2) c nt by (subst walk_directories.simps) (simp add: walk_directories.simps [of _ _ _ _ NULL])
  then show ?thesis using t by (intro exI [of _ node] exI [of _ t] exI [of _ g']) simp
qed

text \<open>Cutting the name of an entry changes the archive only.\<close>

lemma archive_written:
  assumes ok: "disk_ok lit s g n" and paths: "vfs_paths s g F" and q: "\<forall>x. in_range q k x \<longrightarrow> in_disk s x"
    and m: "\<forall>x. \<not> in_range q k x \<longrightarrow> m x = mem s x"
  shows "disk_ok lit (s\<lparr>mem := m, strtok_last := l\<rparr>) g n" and "vfs_paths (s\<lparr>mem := m, strtok_last := l\<rparr>) g F"
    and "in_disk (s\<lparr>mem := m, strtok_last := l\<rparr>) = in_disk s"
proof -
  let ?s = "s\<lparr>mem := m, strtok_last := l\<rparr>"
  have inv: "heap_inv s g n" and out: "\<And>x. in_disk s x \<Longrightarrow> outside g x" using ok by (auto simp: disk_ok_def)
  have hk: "heap_kept (mem s) g m g" using m q outside_not_in_heap [OF inv out] by (intro heap_kept_mem) blast
  show "vfs_paths ?s g F" using hk by (intro vfs_paths_frame [OF paths]) simp_all
  have "heap_inv ?s g n" using inv by simp
  then show "disk_ok lit ?s g n" using m q by (intro disk_ok_step(1) [OF ok _ _ _ hk]) auto
  show "in_disk ?s = in_disk s" by (simp add: in_disk_def fun_eq_iff)
qed

lemma file_entry:
  assumes ok: "disk_ok lit s g n" and n: "length cs + 225 \<le> n" and paths: "vfs_paths s g F" and d: "F ts \<noteq> NULL" "F (ts @ [cs]) = NULL"
    and a: "cstr (mem s) a cs" "a \<noteq> NULL" "a = q + of_nat k" "tokens cs = [cs]"
    and q: "k + length cs \<le> L" "0 < unat q" "unat q + L < 2 ^ 64" "\<forall>x. in_range q (Suc L) x \<longrightarrow> in_disk s x"
  shows "\<exists>node t g'. walk_directories lit False mode (F ts) a s = Some (Some (F ts, a), s) \<and>
    create_file lit header file_size mode (F ts) a s = Some (True, t) \<and>
    disk_ok lit t g' (n - (length cs + 225)) \<and> vfs_paths t g' (F(ts @ [cs] := node)) \<and> node \<notin> range F \<and> node \<noteq> NULL \<and>
    (\<forall>v. v \<noteq> node \<longrightarrow> (\<exists>c x. vnodes t v = (vnodes s v)\<lparr>vn_child := c, vn_next := x\<rparr>)) \<and>
    vfs_state.more t = vfs_state.more s \<and> g_vfs_root t = g_vfs_root s \<and>
    (\<forall>x. heap_taken g x \<longrightarrow> heap_taken g' x \<and> (\<not> in_range q (Suc L) x \<longrightarrow> mem t x = mem s x)) \<and>
    vn_type (vnodes t node) = VNODE_FILE \<and> vn_permissions (vnodes t node) = ramfs_permissions mode \<and> vn_uid (vnodes t node) = 0 \<and>
    vn_data (vnodes t node) = header + 512 \<and> vn_size (vnodes t node) = ucast file_size"
proof -
  have srch: "vfs_search_node (F ts) a s = Some NULL" using vfs_search_paths [OF paths d(1) a(1,2)] d(2) by simp
  have walk: "walk_directories lit False mode (F ts) a s = Some (Some (F ts, a), s)"
    using a(2) srch by (subst walk_directories.simps) simp
  have qk: "unat q + (k + length cs) < 2 ^ 64" using q(1,3) by simp
  have a0: "a = (if a = NULL then strtok_last s else a)" using a(2) by simp
  from next_token_spec(2) [OF a0 a(3,1) refl disk_literals(1) [OF ok] q(2) qk a(4)]
  obtain m i j where m: "next_token a (lit ''/'') s = Some (q + of_nat i, s\<lparr>mem := m, strtok_last := q + of_nat j\<rparr>)" "q + of_nat i \<noteq> NULL"
    "cstr m (q + of_nat i) cs" "i + length cs \<le> k + length cs" "\<forall>x. \<not> in_range q (Suc (k + length cs)) x \<longrightarrow> m x = mem s x" by auto
  let ?s = "s\<lparr>mem := m, strtok_last := q + of_nat j\<rparr>"
  have mL: "m x = mem s x" if "\<not> in_range q (Suc L) x" for x using m(5) that q(1) by (simp add: in_range_def)
  have mL': "\<forall>x. \<not> in_range q (Suc L) x \<longrightarrow> m x = mem s x" using mL by blast
  note s' = archive_written [OF ok paths q(4) mL', of "q + of_nat j"]
  have rng: "\<forall>x. in_range (q + of_nat i) (Suc (length cs)) x \<longrightarrow> in_disk ?s x"
  proof (intro allI impI)
    fix x
    assume x: "in_range (q + of_nat i) (Suc (length cs)) x"
    have "unat (q + of_nat i) = unat q + i" using m(4) qk by (simp add: unat_add_no_wrap)
    then have "in_range q (Suc L) x" using x m(4) q(1,3) by (simp add: in_range_nat)
    then show "in_disk ?s x" using q(4) s'(3) by simp
  qed
  let ?f = "\<lambda>time v. v\<lparr>vn_creation_time := time, vn_data := header + 512, vn_size := ucast file_size\<rparr>"
  have f: "\<forall>time v. vn_parent (?f time v) = vn_parent v \<and> vn_next (?f time v) = vn_next v \<and> vn_child (?f time v) = vn_child v \<and>
      vn_name (?f time v) = vn_name v" by simp
  have c': "cstr (mem ?s) (q + of_nat i) cs" using m(3) by simp
  obtain node s1 time s2 t g' v0 where c: "vfs_create (F ts) (q + of_nat i) VNODE_FILE (ramfs_permissions mode) local_variable ?s = Some (0, Some node, s1)"
    "get_rtc_timestamp s1 = (time, s2)" "upd_vn node (?f time) s2 = t"
    and t: "node_added lit ?s g F (ts @ [cs]) t node g' (n - (length cs + 225))"
    "vnodes t node = ?f time v0" "vn_type v0 = VNODE_FILE" "vn_permissions v0 = ramfs_permissions mode" "vn_uid v0 = 0"
    using make_node [OF s'(1) n s'(2) d c' m(2) rng f] by blast
  have len: "strlen m (q + of_nat i) = Some (of_nat (length cs))" "of_nat (length cs) \<noteq> (0 :: u64)"
  proof -
    show "strlen m (q + of_nat i) = Some (of_nat (length cs))" by (rule strlen_cstr [OF m(3)])
    have "cs \<noteq> []" using tokens_token(1) [of cs cs] a(4) by simp
    moreover have "unat (of_nat (length cs) :: u64) = length cs" using qk by simp
    ultimately show "of_nat (length cs) \<noteq> (0 :: u64)" by (metis length_0_conv unat_0)
  qed
  have "create_file lit header file_size mode (F ts) a s = Some (True, t)"
    using m(1,2) len c by (simp add: create_file_def)
  moreover have "\<forall>x. heap_taken g x \<longrightarrow> heap_taken g' x \<and> (\<not> in_range q (Suc L) x \<longrightarrow> mem t x = mem s x)" using t(1) mL by (simp add: node_added_def)
  ultimately show ?thesis using walk t unfolding node_added_def
    by (intro exI [of _ node] exI [of _ t] exI [of _ g']) simp
qed

end
