(* ===== verification/RamfsLoad.thy ===== *)
theory RamfsLoad
  imports Ramfs
begin

text \<open>
  What the parser of \<^verbatim>\<open>kernel/src/fs/ramfs.c\<close> makes of a well-formed archive: every entry becomes a node of the file
  system at its path, with the contents of the archive as its data. The theory Ramfs has the parser itself.
\<close>

section \<open>Archives\<close>

text \<open>
  An entry as the archive has it: the name as it stands in the header, mode and size as strings of octal digits, and
  the type. Its path are the names between the slashes, without a leading \<open>./\<close>; the path of \<open>./\<close> itself is empty.
\<close>

record tar_entry =
  te_name :: "u8 list"
  te_mode :: "u8 list"
  te_size :: "u8 list"
  te_type :: u8

definition octal :: "u8 list \<Rightarrow> nat" where
  "octal ds = nat (digits_value 8 0 ds)"

definition octal_field :: "memory \<Rightarrow> u64 \<Rightarrow> nat \<Rightarrow> u8 list \<Rightarrow> bool" where
  "octal_field m a w ds \<longleftrightarrow> cstr m a ds \<and> ds \<noteq> [] \<and> length ds < w \<and> (\<forall>c \<in> set ds. valid_digit 8 c)"

definition te_rest :: "tar_entry \<Rightarrow> u8 list" where
  "te_rest e = (if take 2 (te_name e) = [0x2E, 0x2F] then drop 2 (te_name e) else te_name e)"

definition te_path :: "tar_entry \<Rightarrow> u8 list list" where
  "te_path e = (if te_rest e \<in> {[], [0x2E]} then [] else tokens (te_rest e))"

definition te_bytes :: "tar_entry \<Rightarrow> nat" where
  "te_bytes e = octal (te_size e)"

definition te_isdir :: "tar_entry \<Rightarrow> bool" where
  "te_isdir e \<longleftrightarrow> te_type e = 0x35"

text \<open>A header, then the contents in whole blocks of 512 bytes.\<close>

definition te_span :: "tar_entry \<Rightarrow> nat" where
  "te_span e = 512 + 512 * ((te_bytes e + 511) div 512)"

definition header_at :: "memory \<Rightarrow> u64 \<Rightarrow> tar_entry \<Rightarrow> bool" where
  "header_at m h e \<longleftrightarrow> cstr m h (te_name e) \<and> te_name e \<noteq> [] \<and> length (te_name e) < 100 \<and>
     octal_field m (h + 100) 8 (te_mode e) \<and> octal_field m (h + 124) 12 (te_size e) \<and> m (h + 156) = te_type e \<and>
     te_bytes e + 1023 < 2 ^ 32 \<and> (te_rest e \<notin> {[], [0x2E]} \<longrightarrow> tokens (te_rest e) \<noteq> [])"

fun archive :: "memory \<Rightarrow> u64 \<Rightarrow> nat \<Rightarrow> nat \<Rightarrow> tar_entry list \<Rightarrow> bool" where
  "archive m a z off [] \<longleftrightarrow> off = z \<or> off < z \<and> m (a + of_nat off) = 0"
| "archive m a z off (e # es) \<longleftrightarrow> off + te_span e \<le> z \<and> header_at m (a + of_nat off) e \<and> archive m a z (off + te_span e) es"

lemma digits_value_less:
  assumes "\<forall>c \<in> set ds. valid_digit 8 c"
  shows "0 \<le> digits_value 8 0 ds \<and> digits_value 8 0 ds < 8 ^ length ds"
  using assms
proof (induction ds rule: rev_induct)
  case (snoc c ds)
  then obtain d where d: "strtol_digit c = Some d" "d < 8" by (auto simp: valid_digit_def split: option.splits)
  then show ?case using snoc strtol_digit_nonneg [OF d(1)] by (simp add: digits_value_def)
qed (simp add: digits_value_def)

lemma strtol_octal:
  assumes "octal_field m a w ds" and "w \<le> 12"
  shows "\<exists>p. strtol m a 8 = Some (int (octal ds), p)"
proof -
  have f: "cstr m a (ds @ [])" "ds \<noteq> []" "\<forall>c \<in> set ds. valid_digit 8 c" "length ds \<le> 11" using assms by (auto simp: octal_field_def)
  note v = digits_value_less [OF f(3)]
  have "(8 :: int) ^ length ds \<le> 8 ^ 11" using f(4) by (intro power_increasing) simp_all
  then have "digits_value 8 0 ds \<le> LONG_MAX" using v by simp
  then show ?thesis using strtol_unsigned [OF _ _ f(1-3)] v by (auto simp: octal_def)
qed

lemma octal_field_cong:
  assumes "\<And>x. in_range a w x \<Longrightarrow> m' x = m x" and "octal_field m a w ds"
  shows "octal_field m' a w ds"
proof -
  have f: "cstr m a ds" "length ds < w" using assms(2) by (simp_all add: octal_field_def)
  have "cstr m' a ds"
  proof (rule cstr_cong [OF f(1)])
    fix x
    assume "in_range a (Suc (length ds)) x"
    then have "in_range a w x" using f(2) by (simp add: in_range_def)
    then show "m' x = m x" by (rule assms(1))
  qed
  then show ?thesis using assms(2) by (simp add: octal_field_def)
qed

lemma header_at_cong:
  assumes m: "\<And>x. in_range h 512 x \<Longrightarrow> m' x = m x" and h: "unat h + 512 \<le> 2 ^ 64" and at: "header_at m h e"
  shows "header_at m' h e"
proof -
  have sub: "m' x = m x" if "in_range (h + k) w x" "unat k + w \<le> 512" for k w x
  proof (rule m)
    have "unat (h + k) = unat h + unat k" using h that by (cases "w = 0") (auto simp: in_range_def unat_add_no_wrap)
    then show "in_range h 512 x" using that h by (simp add: in_range_nat)
  qed
  have nm: "cstr m h (te_name e)" "length (te_name e) < 100" using at by (simp_all add: header_at_def)
  have "cstr m' h (te_name e)"
  proof (rule cstr_cong [OF nm(1)])
    fix x
    assume "in_range h (Suc (length (te_name e))) x"
    then have "in_range h 512 x" using nm(2) by (simp add: in_range_def)
    then show "m' x = m x" by (rule m)
  qed
  moreover have "octal_field m' (h + 100) 8 (te_mode e)" using at sub [of 100 8] by (intro octal_field_cong [of _ 8 m' m]) (auto simp: header_at_def)
  moreover have "octal_field m' (h + 124) 12 (te_size e)" using at sub [of 124 12] by (intro octal_field_cong [of _ 12 m' m]) (auto simp: header_at_def)
  moreover have "m' (h + 156) = m (h + 156)" using sub [of 156 1 "h + 156"] by (simp add: in_range_start)
  ultimately show ?thesis using at by (simp add: header_at_def)
qed

lemma archive_cong:
  assumes "\<And>x. in_range (a + of_nat off) (z - off) x \<Longrightarrow> m' x = m x" and "unat a + z < 2 ^ 64" and "off \<le> z" and "archive m a z off es"
  shows "archive m' a z off es"
  using assms(1,3,4)
proof (induction es arbitrary: off)
  case Nil
  then show ?case using in_range_start [of "z - off" "a + of_nat off"] by auto
next
  case (Cons e es)
  have at: "unat (a + of_nat i) = unat a + i" if "i \<le> z" for i using that assms(2) by (simp add: unat_add_no_wrap)
  have sp: "off + te_span e \<le> z" "512 \<le> te_span e" using Cons.prems by (simp_all add: te_span_def)
  have 1: "m' x = m x" if "in_range (a + of_nat off) 512 x" for x
    using that sp Cons.prems(1) [of x] by (simp add: in_range_def)
  have 2: "m' x = m x" if "in_range (a + of_nat (off + te_span e)) (z - (off + te_span e)) x" for x
  proof (rule Cons.prems(1))
    have "unat (a + of_nat (off + te_span e)) = unat a + (off + te_span e)" "unat (a + of_nat off) = unat a + off"
      using at [of off] at [of "off + te_span e"] sp by simp_all
    then show "in_range (a + of_nat off) (z - off) x" using that sp assms(2) by (simp add: in_range_nat)
  qed
  have "header_at m' (a + of_nat off) e"
    using Cons.prems(3) 1 sp assms(2) at [of off] by (intro header_at_cong [of _ m' m]) simp_all
  then show ?case using Cons.IH [OF 2 sp(1)] Cons.prems(3) by simp
qed


section \<open>Loading one entry\<close>

text \<open>
  The state after an entry was loaded: a node at its path with the entry's attributes, every other node as it was up
  to its links, and the archive as it was up to the name of this entry.
\<close>

definition entry_loaded ::
  "(string \<Rightarrow> u64) \<Rightarrow> 'a ramfs_state_scheme \<Rightarrow> heap_view \<Rightarrow> (u8 list list \<Rightarrow> u64) \<Rightarrow> u8 list list \<Rightarrow> (u64 \<Rightarrow> bool) \<Rightarrow> 'a ramfs_state_scheme \<Rightarrow> u64 \<Rightarrow>
   heap_view \<Rightarrow> nat \<Rightarrow> bool" where
  "entry_loaded lit s g F p touched t node g' n' \<longleftrightarrow>
     disk_ok lit t g' n' \<and> vfs_paths t g' (F(p := node)) \<and> node \<notin> range F \<and> node \<noteq> NULL \<and>
     (\<forall>v. v \<noteq> node \<longrightarrow> (\<exists>c x. vnodes t v = (vnodes s v)\<lparr>vn_child := c, vn_next := x\<rparr>)) \<and>
     vfs_state.more t = vfs_state.more s \<and> g_vfs_root t = g_vfs_root s \<and> (\<forall>x. heap_taken g x \<longrightarrow> heap_taken g' x \<and> (\<not> touched x \<longrightarrow> mem t x = mem s x))"

definition entry_attributes :: "bool \<Rightarrow> i32 \<Rightarrow> u64 \<Rightarrow> u32 \<Rightarrow> vnode \<Rightarrow> bool" where
  "entry_attributes isd mode header file_size v \<longleftrightarrow>
     vn_type v = (if isd then VNODE_DIRECTORY else VNODE_FILE) \<and> vn_permissions v = ramfs_permissions mode \<and> vn_uid v = 0 \<and>
     (\<not> isd \<longrightarrow> vn_data v = header + 512 \<and> vn_size v = ucast file_size)"

lemma ramfs_entry_loads:
  assumes ok: "disk_ok lit s g n" and paths: "vfs_paths s g F" and nm: "cstr (mem s) q cs" "\<forall>x. in_range q (Suc (length cs)) x \<longrightarrow> in_disk s x"
    and q: "0 < unat q" "unat q + length cs < 2 ^ 64" and toks: "tokens cs = ts @ [c]" and n: "length c + 225 \<le> n"
    and d: "F ts \<noteq> NULL" "F (ts @ [c]) = NULL"
  shows "\<exists>node t g'. ramfs_entry lit (F []) header file_size isd mode q s = Some (True, t) \<and>
    entry_loaded lit s g F (ts @ [c]) (in_range q (Suc (length cs))) t node g' (n - (length c + 225)) \<and>
    entry_attributes isd mode header file_size (vnodes t node)"
proof -
  let ?L = "length cs"
  have q0: "q \<noteq> NULL" using q(1) by auto
  obtain t1 rest where t1: "tokens cs = t1 # rest" using toks by (cases ts) auto
  have q': "q = q + of_nat 0" by simp
  obtain m1 k1 j1 rs1 where m1: "next_token q (lit ''/'') s = Some (q + of_nat k1, s\<lparr>mem := m1, strtok_last := q + of_nat j1\<rparr>)"
    "q + of_nat k1 \<noteq> NULL" "cstr m1 (q + of_nat k1) t1" "k1 + length t1 \<le> ?L" "cstr m1 (q + of_nat j1) rs1" "j1 + length rs1 = ?L"
    "tokens rs1 = rest" "\<forall>x. \<not> in_range q (Suc ?L) x \<longrightarrow> m1 x = mem s x"
    using next_token_spec(2) [OF _ q' nm(1) add_0 disk_literals(1) [OF ok] q t1, of q] q0 by auto
  let ?s1 = "s\<lparr>mem := m1, strtok_last := q + of_nat j1\<rparr>"
  note s1 = archive_written [OF ok paths nm(2) m1(8), of "q + of_nat j1"]
  have nh: "\<forall>x. in_range q (Suc ?L) x \<longrightarrow> \<not> in_heap g x"
    using ok nm(2) outside_not_in_heap [of s g n] unfolding disk_ok_def by blast
  have str: "string_at (mem ?s1) (\<lambda>x. \<not> in_range q (Suc ?L) x) (lit ''/'') [0x2F]"
    using disk_literals(4) [OF s1(1)] nm(2) s1(3) by (auto simp: string_at_def)
  have w: "cstr (mem ?s1) (q + of_nat k1) t1" "cstr (mem ?s1) (strtok_last ?s1) rs1" "strtok_last ?s1 = q + of_nat j1"
    "[] @ t1 # tokens rs1 = ts @ [c]" using m1 t1 toks by simp_all
  obtain m2 i j rs where m2: "walk_directories lit isd mode (F []) (q + of_nat k1) ?s1 =
      walk_directories lit isd mode (F ts) (q + of_nat i) (?s1\<lparr>mem := m2, strtok_last := q + of_nat j\<rparr>)" "q + of_nat i \<noteq> NULL"
    "cstr m2 (q + of_nat i) c" "i + length c \<le> ?L" "cstr m2 (q + of_nat j) rs" "j + length rs = ?L" "tokens rs = []"
    "\<forall>x. \<not> in_range q (Suc ?L) x \<longrightarrow> m2 x = mem ?s1 x"
    using walk_to_last [where lit = lit, OF s1(2) nh str w(1) m1(2,4) w(2,3) m1(6) w(4) q d(1), of isd mode] by blast
  let ?s2 = "s\<lparr>mem := m2, strtok_last := q + of_nat j\<rparr>"
  have m2': "\<forall>x. \<not> in_range q (Suc ?L) x \<longrightarrow> m2 x = mem s x" using m2(8) m1(8) by simp
  note s2 = archive_written [OF ok paths nm(2) m2', of "q + of_nat j"]
  have rng: "\<forall>x. in_range q (Suc ?L) x \<longrightarrow> in_disk ?s2 x" using nm(2) s2(3) by simp
  have walk: "next_token q (lit ''/'') s = Some (q + of_nat k1, ?s1)"
    "walk_directories lit isd mode (F []) (q + of_nat k1) ?s1 = walk_directories lit isd mode (F ts) (q + of_nat i) ?s2"
    using m1(1) m2(1) by simp_all
  show ?thesis
  proof (cases isd)
    case True
    have rng': "\<forall>x. in_range (q + of_nat i) (Suc (length c)) x \<longrightarrow> in_disk ?s2 x"
    proof (intro allI impI)
      fix x
      assume x: "in_range (q + of_nat i) (Suc (length c)) x"
      have "unat (q + of_nat i) = unat q + i" using m2(4) q by (simp add: unat_add_no_wrap)
      then have "in_range q (Suc ?L) x" using x m2(4) q by (simp add: in_range_nat)
      then show "in_disk ?s2 x" using rng by simp
    qed
    obtain node t g' where t: "walk_directories lit True mode (F ts) (q + of_nat i) ?s2 = Some (Some (node, NULL), t)"
      "node_added lit ?s2 g F (ts @ [c]) t node g' (n - (length c + 225))"
      "vn_type (vnodes t node) = VNODE_DIRECTORY" "vn_permissions (vnodes t node) = ramfs_permissions mode" "vn_uid (vnodes t node) = 0"
      using directory_entry [where lit = lit, OF s2(1) n s2(2) d _ m2(2) rng' _ m2(7) _ m2(6) q rng, of mode] m2(3,5) by auto
    have "ramfs_entry lit (F []) header file_size isd mode q s = Some (True, t)"
      using walk t(1) True by (simp add: ramfs_entry_def)
    moreover have "entry_loaded lit s g F (ts @ [c]) (in_range q (Suc ?L)) t node g' (n - (length c + 225))"
      using t(2) m2' unfolding entry_loaded_def node_added_def by simp
    ultimately show ?thesis using t(3-5) True unfolding entry_attributes_def by (intro exI [of _ node] exI [of _ t] exI [of _ g']) simp
  next
    case False
    have tc: "tokens c = [c]" using tokens_token(3) [of c cs] toks by simp
    obtain node t g' where t: "walk_directories lit False mode (F ts) (q + of_nat i) ?s2 = Some (Some (F ts, q + of_nat i), ?s2)"
      "create_file lit header file_size mode (F ts) (q + of_nat i) ?s2 = Some (True, t)"
      "disk_ok lit t g' (n - (length c + 225))" "vfs_paths t g' (F(ts @ [c] := node))" "node \<notin> range F" "node \<noteq> NULL"
      "\<forall>v. v \<noteq> node \<longrightarrow> (\<exists>c x. vnodes t v = (vnodes ?s2 v)\<lparr>vn_child := c, vn_next := x\<rparr>)"
      "vfs_state.more t = vfs_state.more ?s2" "g_vfs_root t = g_vfs_root ?s2"
      "\<forall>x. heap_taken g x \<longrightarrow> heap_taken g' x \<and> (\<not> in_range q (Suc ?L) x \<longrightarrow> mem t x = mem ?s2 x)"
      "vn_type (vnodes t node) = VNODE_FILE" "vn_permissions (vnodes t node) = ramfs_permissions mode" "vn_uid (vnodes t node) = 0"
      "vn_data (vnodes t node) = header + 512" "vn_size (vnodes t node) = ucast file_size"
      using file_entry [where lit = lit, OF s2(1) n s2(2) d _ m2(2) refl tc m2(4) q rng, of mode header file_size] m2(3) by auto
    have "ramfs_entry lit (F []) header file_size isd mode q s = Some (True, t)"
      using walk t(1,2) False by (simp add: ramfs_entry_def)
    moreover have "entry_loaded lit s g F (ts @ [c]) (in_range q (Suc ?L)) t node g' (n - (length c + 225))"
      using t(3-10) m2' unfolding entry_loaded_def by simp
    ultimately show ?thesis using t(11-15) False unfolding entry_attributes_def by (intro exI [of _ node] exI [of _ t] exI [of _ g']) simp
  qed
qed

section \<open>One round of the loop\<close>

lemma round_down_512:
  assumes "k < 2 ^ 32"
  shows "(of_nat k :: u32) AND NOT 511 = of_nat (512 * (k div 512))"
proof -
  have m: "(511 :: u32) = mask 9" by (simp add: mask_eq_exp_minus_1)
  have "(of_nat k :: u32) AND NOT 511 = push_bit 9 (drop_bit 9 (of_nat k))" unfolding m by (rule bit_word_eqI) (auto simp: bit_simps)
  moreover have "unat (drop_bit 9 (of_nat k :: u32)) = k div 512" using assms unfolding unat_drop_bit_eq by (simp add: drop_bit_eq_div)
  moreover have "unat (of_nat (k div 512) :: u32) = k div 512" using assms by simp
  ultimately have "drop_bit 9 (of_nat k :: u32) = of_nat (k div 512)" "(of_nat k :: u32) AND NOT 511 = push_bit 9 (drop_bit 9 (of_nat k))"
    unfolding word_unat_eq_iff by simp_all
  then show ?thesis by (simp add: push_bit_eq_mult)
qed

lemma entry_span_te:
  assumes "te_bytes e + 1023 < 2 ^ 32"
  shows "ucast (entry_span (of_nat (te_bytes e))) = (of_nat (te_span e) :: u64)"
proof -
  have "(of_nat (te_bytes e + 511) :: u32) AND NOT 511 = of_nat (512 * ((te_bytes e + 511) div 512))"
    using assms by (intro round_down_512) simp
  then have "entry_span (of_nat (te_bytes e)) = of_nat (te_span e)" by (simp add: entry_span_def te_span_def)
  moreover have "te_span e < 2 ^ 32"
    using assms times_div_less_eq_dividend [of 512 "te_bytes e + 511"] by (simp add: te_span_def)
  ultimately show ?thesis by (simp add: unsigned_of_nat take_bit_nat_eq_self)
qed

definition te_start :: "tar_entry \<Rightarrow> u64" where
  "te_start e = (if take 2 (te_name e) = [0x2E, 0x2F] then 2 else 0)"

lemma header_read:
  assumes ok: "disk_ok lit s g n" and at: "header_at (mem s) h e"
  shows "mem s h \<noteq> 0" and "strncmp (mem s) h (lit ''./'') 2 = 0 \<longleftrightarrow> te_start e = 2" and "cstr (mem s) (h + te_start e) (te_rest e)"
    and "\<exists>p. strtol (mem s) (header_size h) 8 = Some (int (te_bytes e), p)" and "\<exists>p. strtol (mem s) (header_mode h) 8 = Some (int (octal (te_mode e)), p)"
    and "te_start e = 0 \<or> te_start e = 2" and "unat (te_start e) + length (te_rest e) = length (te_name e)"
proof -
  have nm: "cstr (mem s) h (te_name e)" "te_name e \<noteq> []" using at by (simp_all add: header_at_def)
  show "mem s h \<noteq> 0" using nm by (cases "te_name e") auto
  note nz = cstr_nonzero [OF nm(1)]
  have t: "lexcmp (take 2 (te_name e)) [0x2E, 0x2F] = 0 \<longleftrightarrow> take 2 (te_name e) = [0x2E, 0x2F]"
    using nz by (intro lexcmp_0) (auto dest: in_set_takeD)
  show "strncmp (mem s) h (lit ''./'') 2 = 0 \<longleftrightarrow> te_start e = 2"
    using t by (simp add: strncmp_def lexcmp_take [OF nm(1) disk_literals(2) [OF ok]] te_start_def)
  show "cstr (mem s) (h + te_start e) (te_rest e)"
  proof (cases "take 2 (te_name e) = [0x2E, 0x2F]")
    case True
    then have "te_name e = [0x2E, 0x2F] @ te_rest e" using append_take_drop_id [of 2 "te_name e"] by (simp add: te_rest_def)
    then show ?thesis using nm(1) True unfolding te_start_def by (simp add: add.assoc)
  qed (use nm in \<open>simp_all add: te_rest_def te_start_def\<close>)
  show "\<exists>p. strtol (mem s) (header_size h) 8 = Some (int (te_bytes e), p)"
    using at strtol_octal [of "mem s" "header_size h" 12 "te_size e"] by (simp add: header_at_def header_size_def te_bytes_def)
  show "\<exists>p. strtol (mem s) (header_mode h) 8 = Some (int (octal (te_mode e)), p)"
    using at strtol_octal [of "mem s" "header_mode h" 8 "te_mode e"] by (simp add: header_at_def header_mode_def)
  show "te_start e = 0 \<or> te_start e = 2" by (simp add: te_start_def)
  show "unat (te_start e) + length (te_rest e) = length (te_name e)"
  proof (cases "take 2 (te_name e) = [0x2E, 0x2F]")
    case True
    then have "2 \<le> length (te_name e)" using arg_cong [OF True, of length] unfolding length_take by simp
    then show ?thesis using True by (simp add: te_start_def te_rest_def)
  qed (simp add: te_start_def te_rest_def)
qed

lemma skip_test:
  assumes "disk_ok lit s g n" and "cstr (mem s) a cs"
  shows "(do { len \<leftarrow> strlen (mem s) a; skip \<leftarrow> (if len = 0 then Some True else do { r \<leftarrow> strcmp (mem s) a (lit ''.''); Some (r = 0) }); f skip }) =
    f (cs \<in> {[], [0x2E]})"
proof -
  have l: "of_nat (length cs) = (0 :: u64) \<longleftrightarrow> cs = []"
    using cstr_length [OF assms(2)] by (simp add: word_unat_eq_iff)
  have "lexcmp cs [0x2E] = 0 \<longleftrightarrow> cs = [0x2E]" using cstr_nonzero [OF assms(2)] by (intro lexcmp_0) auto
  then show ?thesis using l strlen_cstr [OF assms(2)] strcmp_cstr [OF assms(2) disk_literals(3) [OF assms(1)]] by simp
qed

lemma ramfs_loop_round:
  assumes ok: "disk_ok lit s g n" and off: "off < ramfs_size s" and at: "header_at (mem s) (ramfs_data s + off) e"
  shows "ramfs_loop lit parent off s =
    (if te_path e = [] then ramfs_loop lit parent (off + of_nat (te_span e)) s
     else do {
       (r, t) \<leftarrow> ramfs_entry lit parent (ramfs_data s + off) (of_nat (te_bytes e)) (te_isdir e) (of_nat (octal (te_mode e)))
         (ramfs_data s + off + te_start e) s;
       if r then ramfs_loop lit parent (off + of_nat (te_span e)) t else Some (1, t)
     })"
proof -
  let ?h = "ramfs_data s + off"
  note r = header_read [OF ok at]
  obtain p1 p2 where st: "strtol (mem s) (header_size ?h) 8 = Some (int (te_bytes e), p1)" "strtol (mem s) (header_mode ?h) 8 = Some (int (octal (te_mode e)), p2)"
    using r(4,5) by auto
  have name: "(if strncmp (mem s) ?h (lit ''./'') 2 = 0 then ?h + 2 else ?h) = ?h + te_start e" using r(2,6) by auto
  have ty: "header_typeflag (mem s) ?h = te_type e" using at by (simp add: header_at_def header_typeflag_def)
  have sp: "ucast (entry_span (of_nat (te_bytes e))) = (of_nat (te_span e) :: u64)" using at by (intro entry_span_te) (simp add: header_at_def)
  have sk: "te_path e = [] \<longleftrightarrow> te_rest e \<in> {[], [0x2E]}" using at by (auto simp: header_at_def te_path_def)
  show ?thesis
    unfolding sk
    by (subst ramfs_loop.simps)
      (use off r(1) in \<open>simp add: Let_def st name ty te_isdir_def sp skip_test [OF ok r(3)] cong del: if_weak_cong\<close>)
qed

section \<open>Loading an archive\<close>

text \<open>
  Where the headers of an archive are, and what the parser needs: the directory of an entry comes before it, no path
  comes twice, and there is room for the nodes and their names.
\<close>

fun placed :: "nat \<Rightarrow> tar_entry list \<Rightarrow> (nat \<times> tar_entry) list" where
  "placed off [] = []"
| "placed off (e # es) = (off, e) # placed (off + te_span e) es"

fun loadable :: "u8 list list set \<Rightarrow> tar_entry list \<Rightarrow> bool" where
  "loadable D [] \<longleftrightarrow> True"
| "loadable D (e # es) \<longleftrightarrow>
     (if te_path e = [] then loadable D es
      else te_path e \<notin> D \<and> butlast (te_path e) \<in> D \<and> loadable (insert (te_path e) D) es)"

fun room :: "tar_entry list \<Rightarrow> nat" where
  "room [] = 0"
| "room (e # es) = (if te_path e = [] then 0 else length (last (te_path e)) + 225) + room es"

text \<open>A node that stands for an entry, with the contents that the archive had in the memory \<open>m\<close> before.\<close>

definition stands_for :: "memory \<Rightarrow> 'a ramfs_state_scheme \<Rightarrow> u64 \<Rightarrow> tar_entry \<Rightarrow> u64 \<Rightarrow> bool" where
  "stands_for m t header e node \<longleftrightarrow> node \<noteq> NULL \<and>
     entry_attributes (te_isdir e) (of_nat (octal (te_mode e))) header (of_nat (te_bytes e)) (vnodes t node) \<and>
     (\<forall>i < te_bytes e. mem t (header + 512 + of_nat i) = m (header + 512 + of_nat i))"

definition same_attributes :: "vnode \<Rightarrow> vnode \<Rightarrow> bool" where
  "same_attributes v w \<longleftrightarrow> (\<exists>c x. v = w\<lparr>vn_child := c, vn_next := x\<rparr>)"

lemma same_attributes_trans: "same_attributes u v \<Longrightarrow> same_attributes v w \<Longrightarrow> same_attributes u w"
  by (force simp: same_attributes_def)

lemma same_attributes_refl: "same_attributes v v"
  unfolding same_attributes_def by (rule exI [of _ "vn_child v"], rule exI [of _ "vn_next v"]) simp

lemma entry_attributes_same: "same_attributes v w \<Longrightarrow> entry_attributes isd mode h k w \<Longrightarrow> entry_attributes isd mode h k v"
  by (auto simp: same_attributes_def entry_attributes_def)

lemma placed_bounds:
  "archive m a z off es \<Longrightarrow> (ofs, e) \<in> set (placed off es) \<Longrightarrow> off \<le> ofs \<and> ofs + te_span e \<le> z"
proof (induction es arbitrary: off)
  case (Cons e' es)
  then show ?case by (cases "(ofs, e) = (off, e')") (fastforce simp: te_span_def)+
qed simp

lemma te_span_bytes: "512 + te_bytes e \<le> te_span e"
proof -
  have "te_bytes e + 511 < 512 * ((te_bytes e + 511) div 512) + 512"
    using mod_less_divisor [of 512 "te_bytes e + 511"] mult_div_mod_eq [of 512 "te_bytes e + 511"] by linarith
  then show ?thesis by (simp add: te_span_def)
qed

text \<open>Ranges of the disk, in natural numbers.\<close>

lemma disk_range:
  assumes "unat a + ofs + k \<le> 2 ^ 64"
  shows "in_range (a + of_nat ofs) k x \<longleftrightarrow> k \<noteq> 0 \<and> unat a + ofs \<le> unat x \<and> unat x < unat a + ofs + k"
proof (cases "k = 0")
  case False
  then have "unat (a + of_nat ofs) = unat a + ofs" using assms by (simp add: unat_add_no_wrap)
  then show ?thesis using assms False by (auto simp: in_range_nat)
qed (simp add: in_range_def)

text \<open>The loop loads an entry that is not skipped, and goes on with the rest of the archive.\<close>

lemma load_round:
  assumes ok: "disk_ok lit s g n" and paths: "vfs_paths s g F" and off: "off + te_span e \<le> unat (ramfs_size s)"
    and at: "header_at (mem s) (ramfs_data s + of_nat off) e" and p: "te_path e \<noteq> []" "F (te_path e) = NULL" "F (butlast (te_path e)) \<noteq> NULL"
    and n: "length (last (te_path e)) + 225 \<le> n"
  shows "\<exists>node t g'. ramfs_loop lit (F []) (of_nat off) s = ramfs_loop lit (F []) (of_nat (off + te_span e)) t \<and>
    entry_loaded lit s g F (te_path e) (in_range (ramfs_data s + of_nat off) 100) t node g' (n - (length (last (te_path e)) + 225)) \<and>
    entry_attributes (te_isdir e) (of_nat (octal (te_mode e))) (ramfs_data s + of_nat off) (of_nat (te_bytes e)) (vnodes t node)"
proof -
  let ?h = "ramfs_data s + of_nat off" and ?q = "ramfs_data s + of_nat off + te_start e"
  have D: "0 < unat (ramfs_data s)" "unat (ramfs_data s) + unat (ramfs_size s) < 2 ^ 64" using ok by (simp_all add: disk_ok_def)
  have sp: "512 \<le> te_span e" by (simp add: te_span_def)
  have uoff: "unat (of_nat off :: u64) = off" using off D(2) by simp
  then have lt: "of_nat off < ramfs_size s" using off sp by (simp add: word_less_nat_alt)
  have h: "unat ?h = unat (ramfs_data s) + off" using off sp D(2) by (subst unat_add_no_wrap) (simp_all add: uoff)
  note r = header_read [OF ok at]
  have len: "unat (te_start e) + Suc (length (te_rest e)) \<le> 100" using r(7) at by (simp add: header_at_def)
  have qh: "in_range ?h 100 x" if "in_range ?q (Suc (length (te_rest e))) x" for x
    using in_range_sub [OF len _ that] by simp
  have hd: "in_disk s x" if "in_range ?h 100 x" for x
    using that off sp D(2) by (intro in_disk_sub [of "of_nat off" 100]) (simp_all add: uoff)
  have q: "0 < unat ?q" "unat ?q + length (te_rest e) < 2 ^ 64"
    using h len off sp D by (simp_all add: unat_add_no_wrap)
  have tp: "tokens (te_rest e) = butlast (te_path e) @ [last (te_path e)]"
    using p(1) at by (simp add: te_path_def split: if_splits)
  have fp: "F (butlast (te_path e) @ [last (te_path e)]) = NULL" using p by simp
  have rng: "\<forall>x. in_range ?q (Suc (length (te_rest e))) x \<longrightarrow> in_disk s x" using qh hd by blast
  obtain node t g' where t: "ramfs_entry lit (F []) ?h (of_nat (te_bytes e)) (te_isdir e) (of_nat (octal (te_mode e))) ?q s = Some (True, t)"
    "entry_loaded lit s g F (te_path e) (in_range ?q (Suc (length (te_rest e)))) t node g' (n - (length (last (te_path e)) + 225))"
    "entry_attributes (te_isdir e) (of_nat (octal (te_mode e))) ?h (of_nat (te_bytes e)) (vnodes t node)"
    using ramfs_entry_loads [where lit = lit, OF ok paths r(3) rng q tp n p(3) fp, of ?h "of_nat (te_bytes e)" "te_isdir e" "of_nat (octal (te_mode e))"]
      p(1) by auto
  have "ramfs_loop lit (F []) (of_nat off) s = ramfs_loop lit (F []) (of_nat (off + te_span e)) t"
    using ramfs_loop_round [OF ok lt at, of "F []"] p(1) t(1) by simp
  moreover have "entry_loaded lit s g F (te_path e) (in_range ?h 100) t node g' (n - (length (last (te_path e)) + 225))"
    using t(2) qh unfolding entry_loaded_def by blast
  ultimately show ?thesis using t(3) by blast
qed

definition archive_loaded ::
  "(string \<Rightarrow> u64) \<Rightarrow> 'a ramfs_state_scheme \<Rightarrow> heap_view \<Rightarrow> (u8 list list \<Rightarrow> u64) \<Rightarrow> nat \<Rightarrow> tar_entry list \<Rightarrow> 'a ramfs_state_scheme \<Rightarrow>
   heap_view \<Rightarrow> nat \<Rightarrow> (u8 list list \<Rightarrow> u64) \<Rightarrow> bool" where
  "archive_loaded lit s g F off es t g' n' G \<longleftrightarrow>
     disk_ok lit t g' n' \<and> vfs_paths t g' G \<and> vfs_state.more t = vfs_state.more s \<and> g_vfs_root t = g_vfs_root s \<and>
     (\<forall>p. F p \<noteq> NULL \<longrightarrow> G p = F p \<and> same_attributes (vnodes t (F p)) (vnodes s (F p))) \<and>
     (\<forall>p. G p \<noteq> NULL \<longleftrightarrow> F p \<noteq> NULL \<or> p \<in> te_path ` set es) \<and>
     (\<forall>(ofs, e) \<in> set (placed off es). te_path e \<noteq> [] \<longrightarrow> stands_for (mem s) t (ramfs_data s + of_nat ofs) e (G (te_path e))) \<and>
     (\<forall>x. heap_taken g x \<and> \<not> in_range (ramfs_data s + of_nat off) (unat (ramfs_size s) - off) x \<longrightarrow> heap_taken g' x \<and> mem t x = mem s x)"

lemma archive_end:
  assumes "archive (mem s) (ramfs_data s) (unat (ramfs_size s)) off []"
  shows "ramfs_loop lit parent (of_nat off) s = Some (0, s)"
proof (cases "off = unat (ramfs_size s)")
  case True
  then show ?thesis by (subst ramfs_loop.simps) simp
next
  case False
  then show ?thesis using assms by (subst ramfs_loop.simps) simp
qed

lemma archive_loaded_Nil:
  assumes "disk_ok lit s g n" and "vfs_paths s g F"
  shows "archive_loaded lit s g F off [] s g n F"
  using assms by (simp add: archive_loaded_def same_attributes_refl)

text \<open>An entry that was loaded stays as it is when the rest of the archive is loaded.\<close>

lemma stands_for_later:
  assumes "stands_for m t h e node" and "same_attributes (vnodes u node) (vnodes t node)"
    and "\<And>i. i < te_bytes e \<Longrightarrow> mem u (h + 512 + of_nat i) = mem t (h + 512 + of_nat i)"
  shows "stands_for m u h e node"
  using assms entry_attributes_same [OF assms(2)] by (simp add: stands_for_def)

lemma archive_loaded_Cons:
  assumes one: "entry_loaded lit s g F (te_path e) (in_range (ramfs_data s + of_nat off) 100) t node g1 n1"
    and at: "entry_attributes (te_isdir e) (of_nat (octal (te_mode e))) (ramfs_data s + of_nat off) (of_nat (te_bytes e)) (vnodes t node)"
    and rest: "archive_loaded lit t g1 (F(te_path e := node)) (off + te_span e) es u g2 n2 G"
    and ok: "disk_ok lit s g n" and arch: "archive (mem s) (ramfs_data s) (unat (ramfs_size s)) off (e # es)"
    and p: "te_path e \<noteq> []" "F (te_path e) = NULL"
  shows "archive_loaded lit s g F off (e # es) u g2 n2 G"
proof -
  let ?a = "ramfs_data s" and ?z = "unat (ramfs_size s)" and ?o = "off + te_span e"
  have D: "0 < unat ?a" "unat ?a + ?z < 2 ^ 64" "\<And>x. in_disk s x \<Longrightarrow> heap_taken g x" using ok outside_taken by (auto simp: disk_ok_def)
  have more: "vfs_state.more t = vfs_state.more s" using one by (simp add: entry_loaded_def)
  have same: "ramfs_data t = ?a" "ramfs_size t = ramfs_size s" using more by (cases s, cases t, simp)+
  have o: "?o \<le> ?z" "512 + te_bytes e \<le> te_span e" using arch te_span_bytes by simp_all
  have m1: "heap_taken g1 x \<and> (\<not> in_range (?a + of_nat off) 100 x \<longrightarrow> mem t x = mem s x)" if "heap_taken g x" for x
    using one that by (simp add: entry_loaded_def)
  have m2: "heap_taken g2 x \<and> mem u x = mem t x" if "heap_taken g1 x" "\<not> in_range (?a + of_nat ?o) (?z - ?o) x" for x
    using rest that by (simp add: archive_loaded_def same)
  have rng: "in_range (?a + of_nat ofs) k x \<longleftrightarrow> k \<noteq> 0 \<and> unat ?a + ofs \<le> unat x \<and> unat x < unat ?a + ofs + k" if "ofs + k \<le> ?z" for ofs k x
    using that D(2) by (intro disk_range) simp
  have addr: "unat (?a + of_nat ofs + 512 + of_nat i) = unat ?a + ofs + 512 + i" if "ofs + te_span e' \<le> ?z" "i < te_bytes e'" for ofs i e'
  proof -
    have b: "unat ?a + (ofs + 512 + i) < 2 ^ 64" using that te_span_bytes [of e'] D(2) by linarith
    then have "unat (of_nat (ofs + 512 + i) :: u64) = ofs + 512 + i" by (simp del: of_nat_add)
    moreover have "?a + of_nat ofs + 512 + of_nat i = ?a + of_nat (ofs + 512 + i)" by simp
    ultimately show ?thesis using b by (simp add: unat_add_no_wrap del: of_nat_add)
  qed
  have tk: "heap_taken g x" if "unat ?a \<le> unat x" "unat x < unat ?a + ?z" for x
    using that D by (simp add: in_disk_def in_range_nat)
  have F1: "F q \<noteq> NULL \<Longrightarrow> (F(te_path e := node)) q = F q \<and> (F(te_path e := node)) q \<noteq> NULL" for q using p(2) by auto
  have node: "node \<noteq> NULL" "\<And>q. F q \<noteq> node" using one by (auto simp: entry_loaded_def)
  have G: "G q = (F(te_path e := node)) q \<and> same_attributes (vnodes u (G q)) (vnodes t (G q))" if q: "(F(te_path e := node)) q \<noteq> NULL" for q
  proof -
    have "\<forall>p. (F(te_path e := node)) p \<noteq> NULL \<longrightarrow> G p = (F(te_path e := node)) p \<and>
        same_attributes (vnodes u ((F(te_path e := node)) p)) (vnodes t ((F(te_path e := node)) p))"
      using rest unfolding archive_loaded_def by (elim conjE)
    from this [rule_format, OF q] show ?thesis by (elim conjE) (rule conjI, assumption, simp only:)
  qed
  have old: "G q = F q \<and> same_attributes (vnodes u (F q)) (vnodes s (F q))" if "F q \<noteq> NULL" for q
  proof -
    have "same_attributes (vnodes t (F q)) (vnodes s (F q))" using one node(2) [of q] unfolding entry_loaded_def same_attributes_def by blast
    then show ?thesis using G [of q] F1 [OF that] same_attributes_trans by metis
  qed
  have new: "stands_for (mem s) u (?a + of_nat off) e (G (te_path e))"
  proof (rule stands_for_later)
    have "G (te_path e) = node" "same_attributes (vnodes u node) (vnodes t node)" using G [of "te_path e"] node(1) by auto
    then show "same_attributes (vnodes u (G (te_path e))) (vnodes t (G (te_path e)))" by simp
    show "stands_for (mem s) t (?a + of_nat off) e (G (te_path e))"
      unfolding stands_for_def \<open>G (te_path e) = node\<close>
    proof (intro conjI allI impI)
      fix i
      assume i: "i < te_bytes e"
      note x = addr [of off e i, OF o(1) i]
      show "mem t (?a + of_nat off + 512 + of_nat i) = mem s (?a + of_nat off + 512 + of_nat i)"
        using m1 [OF tk] x i o rng [of off 100] by simp
    qed (use node(1) at in auto)
    fix i
    assume i: "i < te_bytes e"
    note x = addr [of off e i, OF o(1) i]
    show "mem u (?a + of_nat off + 512 + of_nat i) = mem t (?a + of_nat off + 512 + of_nat i)"
      using m2 m1 [OF tk] x i o rng [of ?o "?z - ?o"] by simp
  qed
  have later: "stands_for (mem s) u (?a + of_nat ofs) e' (G (te_path e'))" if e': "(ofs, e') \<in> set (placed ?o es)" "te_path e' \<noteq> []" for ofs e'
  proof -
    have b: "?o \<le> ofs" "ofs + te_span e' \<le> ?z" using placed_bounds [OF _ e'(1)] arch by auto
    have "stands_for (mem t) u (?a + of_nat ofs) e' (G (te_path e'))" using rest e' by (auto simp: archive_loaded_def same)
    moreover have "mem t (?a + of_nat ofs + 512 + of_nat i) = mem s (?a + of_nat ofs + 512 + of_nat i)" if "i < te_bytes e'" for i
      using m1 [OF tk] addr [OF b(2) that] that b o te_span_bytes [of e'] rng [of off 100] by simp
    ultimately show ?thesis by (simp add: stands_for_def)
  qed
  have mem: "heap_taken g2 x \<and> mem u x = mem s x" if "heap_taken g x" "\<not> in_range (?a + of_nat off) (?z - off) x" for x
    using m1 [OF that(1)] m2 [of x] that(2) o rng [of off 100] rng [of ?o "?z - ?o"] rng [of off "?z - off"] by auto
  have dom: "G q \<noteq> NULL \<longleftrightarrow> F q \<noteq> NULL \<or> q \<in> te_path ` set (e # es)" for q
    using rest node(1) by (auto simp: archive_loaded_def)
  show ?thesis
    unfolding archive_loaded_def
    using rest one old new later dom mem by (auto simp: archive_loaded_def entry_loaded_def)
qed

lemma archive_loaded_skip:
  assumes "archive_loaded lit s g F (off + te_span e) es t g' n' G" and "te_path e = []" and "F [] \<noteq> NULL"
    and "unat (ramfs_data s) + unat (ramfs_size s) < 2 ^ 64" and "off + te_span e \<le> unat (ramfs_size s)"
  shows "archive_loaded lit s g F off (e # es) t g' n' G"
proof -
  have sub: "in_range (ramfs_data s + of_nat off) (unat (ramfs_size s) - off) x"
    if "in_range (ramfs_data s + of_nat (off + te_span e)) (unat (ramfs_size s) - (off + te_span e)) x" for x
    using that assms(4,5) by (subst (asm) disk_range; (subst disk_range)?) auto
  show ?thesis using assms(1-3) sub unfolding archive_loaded_def by auto
qed

lemma ramfs_loop_loads:
  assumes "disk_ok lit s g n" and "vfs_paths s g F" and "archive (mem s) (ramfs_data s) (unat (ramfs_size s)) off es"
    and "off \<le> unat (ramfs_size s)" and "loadable {p. F p \<noteq> NULL} es" and "room es \<le> n"
  shows "\<exists>t g' G. ramfs_loop lit (F []) (of_nat off) s = Some (0, t) \<and> archive_loaded lit s g F off es t g' (n - room es) G"
  using assms
proof (induction es arbitrary: s g n F off)
  case Nil
  have "archive_loaded lit s g F off [] s g (n - room []) F" using archive_loaded_Nil [OF Nil(1,2)] by simp
  then show ?case using archive_end [OF Nil(3)] by blast
next
  case (Cons e es)
  note ok = Cons.prems(1) and paths = Cons.prems(2) and arch = Cons.prems(3)
  let ?a = "ramfs_data s" and ?z = "unat (ramfs_size s)"
  have D: "unat ?a + ?z < 2 ^ 64" "\<And>x. in_disk s x \<Longrightarrow> heap_taken g x" using ok outside_taken by (auto simp: disk_ok_def)
  have at: "header_at (mem s) (?a + of_nat off) e" and o: "off + te_span e \<le> ?z" "512 \<le> te_span e"
    and ar: "archive (mem s) ?a ?z (off + te_span e) es" using arch by (simp_all add: te_span_def)
  show ?case
  proof (cases "te_path e = []")
    case True
    have uoff: "unat (of_nat off :: u64) = off" using o D(1) by simp
    then have lt: "of_nat off < ramfs_size s" using o by (simp add: word_less_nat_alt)
    have F0: "F [] \<noteq> NULL" using paths vfs_paths_root [OF paths] by (simp add: vfs_paths_def)
    obtain t g' G where t: "ramfs_loop lit (F []) (of_nat (off + te_span e)) s = Some (0, t)"
      "archive_loaded lit s g F (off + te_span e) es t g' (n - room es) G"
      using Cons.IH [OF ok paths ar o(1)] Cons.prems(5,6) True by auto
    have "ramfs_loop lit (F []) (of_nat off) s = Some (0, t)" using ramfs_loop_round [OF ok lt at, of "F []"] True t(1) by simp
    then show ?thesis using archive_loaded_skip [OF t(2) True F0 D(1) o(1)] True by auto
  next
    case False
    have p: "F (te_path e) = NULL" "F (butlast (te_path e)) \<noteq> NULL" "loadable (insert (te_path e) {p. F p \<noteq> NULL}) es"
      using Cons.prems(5) False by auto
    have n: "length (last (te_path e)) + 225 \<le> n" "room es \<le> n - (length (last (te_path e)) + 225)"
      "n - (length (last (te_path e)) + 225) - room es = n - room (e # es)" using Cons.prems(6) False by simp_all
    obtain node t g1 where t: "ramfs_loop lit (F []) (of_nat off) s = ramfs_loop lit (F []) (of_nat (off + te_span e)) t"
      "entry_loaded lit s g F (te_path e) (in_range (?a + of_nat off) 100) t node g1 (n - (length (last (te_path e)) + 225))"
      "entry_attributes (te_isdir e) (of_nat (octal (te_mode e))) (?a + of_nat off) (of_nat (te_bytes e)) (vnodes t node)"
      using load_round [OF ok paths o(1) at False p(1,2) n(1)] by blast
    let ?F = "F(te_path e := node)"
    have e: "disk_ok lit t g1 (n - (length (last (te_path e)) + 225))" "vfs_paths t g1 ?F" "node \<noteq> NULL" "vfs_state.more t = vfs_state.more s"
      using t(2) by (auto simp: entry_loaded_def)
    have same: "ramfs_data t = ?a" "ramfs_size t = ramfs_size s" using e(4) by (cases s, cases t, simp)+
    have dom: "{p. ?F p \<noteq> NULL} = insert (te_path e) {p. F p \<noteq> NULL}" using e(3) by auto
    have m: "mem t x = mem s x" if x: "in_range (?a + of_nat (off + te_span e)) (?z - (off + te_span e)) x" for x
    proof -
      have u: "unat ?a + (off + te_span e) \<le> unat x" "unat x < unat ?a + ?z" using x D(1) o(1) by (subst (asm) disk_range; simp)+
      then have "in_disk s x" using D(1) by (simp add: in_disk_def in_range_nat)
      moreover have "\<not> in_range (?a + of_nat off) 100 x" using u o D(1) by (subst disk_range) simp_all
      ultimately show ?thesis using t(2) D(2) by (simp add: entry_loaded_def)
    qed
    have ar': "archive (mem t) (ramfs_data t) (unat (ramfs_size t)) (off + te_span e) es"
      unfolding same by (rule archive_cong [OF m D(1) o(1) ar])
    obtain u g2 G where u: "ramfs_loop lit (?F []) (of_nat (off + te_span e)) t = Some (0, u)"
      "archive_loaded lit t g1 ?F (off + te_span e) es u g2 (n - (length (last (te_path e)) + 225) - room es) G"
      using Cons.IH [OF e(1,2) ar' _ p(3) [folded dom] n(2)] o(1) unfolding same by blast
    have "?F [] = F []" using False by simp
    then have "ramfs_loop lit (F []) (of_nat off) s = Some (0, u)" using t(1) u(1) by simp
    then show ?thesis using archive_loaded_Cons [OF t(2,3) u(2) ok arch False p(1), unfolded n(3)] by blast
  qed
qed
end
