(* ===== verification/Mount.thy ===== *)
theory Mount
  imports RamfsLoad
begin

text \<open>
  The root file system of the running kernel: \<open>vfs_init\<close> and \<open>ramfs_init\<close> as \<^verbatim>\<open>kernel/src/main.c\<close> calls them, and
  file handles (\<^verbatim>\<open>kernel/src/dev/hvfs.c\<close>) on the files of the RAM disk.
\<close>

section \<open>Mounting\<close>

text \<open>The first node is taken from a heap that may still be empty; everything after it needs a heap with a block.\<close>

lemma disk_ok_setup:
  assumes first: "kmalloc 80 s0 = Some (root, s)" "root \<noteq> NULL" "heap_ptr g (mem s) root 80"
    and ok: "disk_ok lit (s\<lparr>ramfs_data := data, ramfs_size := sz\<rparr>) g n" and n: "74 \<le> n" and sz: "sz \<noteq> 0"
  shows "\<exists>s1 s2 g1. vfs_init lit s0 = Some (0, s1) \<and> ramfs_init lit data sz s1 = ramfs_parse lit (g_vfs_root s2) s2 \<and>
    disk_ok lit s2 g1 (n - 74) \<and> vfs_paths s2 g1 ((\<lambda>_. NULL)([] := g_vfs_root s2)) \<and> kept (mem s) (heap_taken g) (mem s2) (heap_taken g1) \<and>
    vfs_state.more s2 = vfs_state.more (s\<lparr>ramfs_data := data, ramfs_size := sz\<rparr>)"
proof -
  let ?s = "s\<lparr>ramfs_data := data, ramfs_size := sz\<rparr>"
  have inv: "heap_inv s g n" using ok heap_inv_cong [of s ?s g n] by (simp add: disk_ok_def)
  have slash: "string_at (mem s) (heap_taken g) (lit ''/'') [0x2F]" using disk_literals(4) [OF ok] by (simp add: string_at_def)
  obtain s1 g1 where i: "vfs_init lit s0 = Some (0, s1)" "heap_inv s1 g1 (n - 74)" "vfs_paths s1 g1 ((\<lambda>_. NULL)([] := g_vfs_root s1))"
    "kept (mem s) (heap_taken g) (mem s1) (heap_taken g1)" "heap_kept (mem s) g (mem s1) g1"
    and c: "vn_child (vnodes s1 (g_vfs_root s1)) = NULL" "vn_next (vnodes s1 (g_vfs_root s1)) = NULL" and more: "vfs_state.more s1 = vfs_state.more s"
    using vfs_init_rest [where lit = lit, OF first(1) inv first(2,3) slash n] by blast
  define s' where "s' = upd_vn (g_vfs_root s1) (\<lambda>v. v\<lparr>vn_type := VNODE_DIRECTORY, vn_size := sz, vn_permissions := root_permissions,
    vn_child := NULL, vn_next := NULL\<rparr>) (s1\<lparr>ramfs_data := data, ramfs_size := sz\<rparr>)"
  obtain time s'' where ts: "get_rtc_timestamp s' = (time, s'')" by fastforce
  obtain b tr where s'': "s'' = s'\<lparr>int_flag := b, io_trace := tr\<rparr>" using rtc_timestamp_frame [of s'] ts by auto
  define s2 where "s2 = upd_vn (g_vfs_root s1) (\<lambda>v. v\<lparr>vn_creation_time := time\<rparr>) s''"
  have r: "g_vfs_root s2 = g_vfs_root s1" "mem s2 = mem s1" by (simp_all add: s2_def s'' s'_def upd_vn_def)
  have "data \<noteq> NULL" using ok by (auto simp: disk_ok_def)
  then have "ramfs_init lit data sz s1 = ramfs_parse lit (g_vfs_root s1) s2"
    using sz ts unfolding s2_def s'_def ramfs_init_def by (simp add: Let_def)
  then have run: "ramfs_init lit data sz s1 = ramfs_parse lit (g_vfs_root s2) s2" by (simp only: r)
  have inv2: "heap_inv s2 g1 (n - 74)" using i(2) by (rule heap_inv_cong [THEN iffD1, rotated -1]) (simp_all add: s2_def s'' s'_def upd_vn_def)
  have more2: "vfs_state.more s2 = vfs_state.more ?s" using more by (cases s, cases s1) (simp add: s2_def s'' s'_def upd_vn_def)
  have "same_links s2 s1" using c by (simp add: same_links_def s2_def s'' s'_def upd_vn_def)
  then have "vfs_paths s2 g1 ((\<lambda>_. NULL)([] := g_vfs_root s2))"
    using vfs_paths_links [OF i(3), of s2 g1] r by (simp add: heap_kept_mem)
  moreover have "disk_ok lit s2 g1 (n - 74)"
    using i(4,5) r(2) by (intro disk_ok_step(1) [OF ok inv2 more2, of "mem s1"]) (auto simp: kept_def)
  ultimately show ?thesis using i(1,4) run more2 r(2) by metis
qed

text \<open>The contents of an entry lie in the archive, so what a node stands for depends on no other memory.\<close>

lemma stands_for_archive:
  assumes arch: "archive m data (unat sz) 0 es" "(ofs, e) \<in> set (placed 0 es)" "unat data + unat sz < 2 ^ 64"
    and st: "stands_for m1 t (data + of_nat ofs) e v" and same: "\<And>x. in_range data (unat sz) x \<Longrightarrow> m1 x = m2 x"
  shows "stands_for m2 t (data + of_nat ofs) e v"
proof -
  have "m1 (data + of_nat ofs + 512 + of_nat i) = m2 (data + of_nat ofs + 512 + of_nat i)" if i: "i < te_bytes e" for i
  proof (rule same)
    have "ofs + te_span e \<le> unat sz" using placed_bounds [OF arch(1,2)] by simp
    then have l: "ofs + 512 + i < unat sz" using i te_span_bytes [of e] by simp
    then have "unat (of_nat (ofs + 512 + i) :: u64) = ofs + 512 + i" using arch(3) by (simp del: of_nat_add)
    from in_range_offset [of "of_nat (ofs + 512 + i)" "unat sz" data, unfolded this, OF l]
    show "in_range data (unat sz) (data + of_nat ofs + 512 + of_nat i)" by (simp add: ac_simps)
  qed
  then show ?thesis using st by (simp add: stands_for_def)
qed

lemma mount_after_first:
  assumes first: "kmalloc 80 s0 = Some (root, s)" "root \<noteq> NULL" "heap_ptr g (mem s) root 80"
    and ok: "disk_ok lit (s\<lparr>ramfs_data := data, ramfs_size := sz\<rparr>) g n" and arch: "archive (mem s) data (unat sz) 0 es"
    and sz: "sz \<noteq> 0" and load: "loadable {[]} es" and n: "74 + room es \<le> n"
  shows "\<exists>s1 t g' G. vfs_init lit s0 = Some (0, s1) \<and> ramfs_init lit data sz s1 = Some (0, t) \<and>
    disk_ok lit t g' (n - (74 + room es)) \<and> vfs_paths t g' G \<and> vfs_state.more t = vfs_state.more (s\<lparr>ramfs_data := data, ramfs_size := sz\<rparr>) \<and>
    (\<forall>p. G p \<noteq> NULL \<longleftrightarrow> p = [] \<or> p \<in> te_path ` set es) \<and>
    (\<forall>(ofs, e) \<in> set (placed 0 es). te_path e \<noteq> [] \<longrightarrow> stands_for (mem s) t (data + of_nat ofs) e (G (te_path e))) \<and>
    (\<forall>x. heap_taken g x \<and> \<not> in_range data (unat sz) x \<longrightarrow> heap_taken g' x \<and> mem t x = mem s x)"
proof -
  let ?s = "s\<lparr>ramfs_data := data, ramfs_size := sz\<rparr>"
  have n74: "74 \<le> n" using n by simp
  obtain s1 s2 g1 where i: "vfs_init lit s0 = Some (0, s1)" "ramfs_init lit data sz s1 = ramfs_parse lit (g_vfs_root s2) s2"
    "disk_ok lit s2 g1 (n - 74)" "vfs_paths s2 g1 ((\<lambda>_. NULL)([] := g_vfs_root s2))" "kept (mem s) (heap_taken g) (mem s2) (heap_taken g1)"
    "vfs_state.more s2 = vfs_state.more ?s" using disk_ok_setup [OF first ok n74 sz] by blast
  have same: "ramfs_data s2 = data" "ramfs_size s2 = sz" using i(6) by (cases s, cases s2, simp)+
  have D: "unat data + unat sz < 2 ^ 64" "data \<noteq> NULL" "\<And>x. in_range data (unat sz) x \<Longrightarrow> heap_taken g x"
    using ok outside_taken by (auto simp: disk_ok_def in_disk_def)
  have m: "mem s2 x = mem s x" if "in_range data (unat sz) x" for x using i(5) D(3) [OF that] by (simp add: kept_def)
  then have "archive (mem s2) data (unat sz) 0 es" using D(1) by (intro archive_cong [OF _ _ _ arch]) simp_all
  then have ar: "archive (mem s2) (ramfs_data s2) (unat (ramfs_size s2)) 0 es" by (simp add: same)
  let ?F = "(\<lambda>_ :: u8 list list. NULL)([] := g_vfs_root s2)"
  have root: "g_vfs_root s2 \<noteq> NULL" using i(4) by (simp add: vfs_paths_def)
  then have dom: "{p. ?F p \<noteq> NULL} = {[]}" by auto
  have n2: "room es \<le> n - 74" "n - 74 - room es = n - (74 + room es)" using n by simp_all
  have le0: "0 \<le> unat (ramfs_size s2)" by simp
  obtain t g' G where t: "ramfs_loop lit (?F []) (of_nat 0) s2 = Some (0, t)" "archive_loaded lit s2 g1 ?F 0 es t g' (n - (74 + room es)) G"
    using ramfs_loop_loads [OF i(3,4) ar le0 load [folded dom] n2(1), unfolded n2(2)] by (elim exE conjE) (rule that; assumption)
  have run: "ramfs_init lit data sz s1 = Some (0, t)" using i(2) t(1) D(2) sz by (simp add: ramfs_parse_def same)
  have st: "stands_for (mem s) t (data + of_nat ofs) e (G (te_path e))" if e: "(ofs, e) \<in> set (placed 0 es)" "te_path e \<noteq> []" for ofs e
  proof -
    have "stands_for (mem s2) t (data + of_nat ofs) e (G (te_path e))" using t(2) e by (auto simp: archive_loaded_def same)
    then show ?thesis using m by (rule stands_for_archive [OF arch e(1) D(1)])
  qed
  have S: "\<forall>(ofs, e) \<in> set (placed 0 es). te_path e \<noteq> [] \<longrightarrow> stands_for (mem s) t (data + of_nat ofs) e (G (te_path e))"
    using st by auto
  have M: "\<forall>x. heap_taken g x \<and> \<not> in_range data (unat sz) x \<longrightarrow> heap_taken g' x \<and> mem t x = mem s x"
    using i(5) t(2) by (simp add: archive_loaded_def kept_def same)
  have P: "\<forall>p. G p \<noteq> NULL \<longleftrightarrow> p = [] \<or> p \<in> te_path ` set es" using t(2) root by (auto simp: archive_loaded_def)
  have "disk_ok lit t g' (n - (74 + room es))" "vfs_paths t g' G" "vfs_state.more t = vfs_state.more ?s"
    using t(2) i(6) by (simp_all only: archive_loaded_def)
  with i(1) run P S M show ?thesis by (intro exI conjI)
qed

lemma mount:
  assumes ok: "disk_ok lit (s\<lparr>ramfs_data := data, ramfs_size := sz\<rparr>) g n" and arch: "archive (mem s) data (unat sz) 0 es"
    and sz: "sz \<noteq> 0" and load: "loadable {[]} es" and n: "226 + room es \<le> n"
  shows "\<exists>s1 t g' G. vfs_init lit s = Some (0, s1) \<and> ramfs_init lit data sz s1 = Some (0, t) \<and>
    disk_ok lit t g' (n - (226 + room es)) \<and> vfs_paths t g' G \<and> vfs_state.more t = vfs_state.more (s\<lparr>ramfs_data := data, ramfs_size := sz\<rparr>) \<and>
    (\<forall>p. G p \<noteq> NULL \<longleftrightarrow> p = [] \<or> p \<in> te_path ` set es) \<and>
    (\<forall>(ofs, e) \<in> set (placed 0 es). te_path e \<noteq> [] \<longrightarrow> stands_for (mem s) t (data + of_nat ofs) e (G (te_path e))) \<and>
    (\<forall>x. heap_taken g x \<and> \<not> in_range data (unat sz) x \<longrightarrow> heap_taken g' x \<and> mem t x = mem s x)"
proof -
  let ?d = "\<lambda>s :: 'a ramfs_state_scheme. s\<lparr>ramfs_data := data, ramfs_size := sz\<rparr>"
  have n': "unat (80 :: u64) + 72 \<le> n" "n - (unat (80 :: u64) + 72) = n - 152" "74 + room es \<le> n - 152"
    "n - 152 - (74 + room es) = n - (226 + room es)" using n by simp_all
  have inv: "heap_inv s g n" using ok heap_inv_cong [of s "?d s" g n] by (simp add: disk_ok_def)
  obtain root s1 g1 where a: "kmalloc 80 s = Some (root, s1)" "heap_inv s1 g1 (n - 152)" "root \<noteq> NULL"
    "heap_owns s1 g1 root 80 g" "kept (mem s) (heap_taken g) (mem s1) (heap_taken g1)" "heap_frame s s1"
    using kmalloc_allocates [OF inv n'(1)] by (auto simp: n'(2))
  have "vfs_state.more s1 = vfs_state.more s" by (rule heap_frame_vfs(4) [OF a(6)])
  then have more: "vfs_state.more (?d s1) = vfs_state.more (?d s)" by (cases s, cases s1) simp
  have hk: "heap_kept (mem s) g (mem s1) g1" using a(4,5) by (intro heap_owns_kept) (auto simp: kept_def dest: in_heap_taken)
  have inv1: "heap_inv (?d s1) g1 (n - 152)" using a(2) heap_inv_cong [of s1 "?d s1" g1 "n - 152"] by simp
  have ok1: "disk_ok lit (?d s1) g1 (n - 152)" using a(5) hk by (intro disk_ok_step(1) [OF ok inv1 more, of "mem s1"]) (auto simp: kept_def)
  have D: "unat data + unat sz < 2 ^ 64" "\<And>x. in_range data (unat sz) x \<Longrightarrow> heap_taken g x"
    using ok outside_taken by (auto simp: disk_ok_def in_disk_def)
  have m: "mem s1 x = mem s x" if "in_range data (unat sz) x" for x using a(5) D(2) [OF that] by (simp add: kept_def)
  have ar: "archive (mem s1) data (unat sz) 0 es" using D(1) m by (intro archive_cong [OF _ _ _ arch]) simp_all
  obtain s2 t g' G where t: "vfs_init lit s = Some (0, s2)" "ramfs_init lit data sz s2 = Some (0, t)"
    "disk_ok lit t g' (n - (226 + room es))" "vfs_paths t g' G" "vfs_state.more t = vfs_state.more (?d s1)"
    "\<forall>p. G p \<noteq> NULL \<longleftrightarrow> p = [] \<or> p \<in> te_path ` set es"
    "\<forall>(ofs, e) \<in> set (placed 0 es). te_path e \<noteq> [] \<longrightarrow> stands_for (mem s1) t (data + of_nat ofs) e (G (te_path e))"
    "\<forall>x. heap_taken g1 x \<and> \<not> in_range data (unat sz) x \<longrightarrow> heap_taken g' x \<and> mem t x = mem s1 x"
    using mount_after_first [OF a(1,3) heap_owns_ptr [OF a(4)] ok1 ar sz load n'(3)] unfolding n'(4)
    by (elim exE conjE) (rule that; assumption)
  have S: "stands_for (mem s) t (data + of_nat ofs) e v" if e: "(ofs, e) \<in> set (placed 0 es)" "stands_for (mem s1) t (data + of_nat ofs) e v" for ofs e v
    using stands_for_archive [OF arch e(1) D(1) e(2) m] .
  have "\<forall>(ofs, e) \<in> set (placed 0 es). te_path e \<noteq> [] \<longrightarrow> stands_for (mem s) t (data + of_nat ofs) e (G (te_path e))"
    using t(7) S by blast
  moreover have "\<forall>x. heap_taken g x \<and> \<not> in_range data (unat sz) x \<longrightarrow> heap_taken g' x \<and> mem t x = mem s x"
    using a(5) t(8) by (simp add: kept_def)
  ultimately show ?thesis using t(1-4,6) t(5) [unfolded more] by (intro exI conjI)
qed

text \<open>
  C15. The RAM disk is mounted. Given a well-formed archive (every directory before its contents, no path twice) and room
  in the heap for a node and a name per entry, \<open>vfs_init\<close> and then \<open>ramfs_init\<close> return 0. The paths that exist
  afterwards are the root and the paths of the entries, and the node at the path of an entry has the type, the permissions and the
  size of the entry and the contents it had in the archive.
\<close>

theorem ramfs_mounts:
  assumes "disk_ok lit (s\<lparr>ramfs_data := data, ramfs_size := sz\<rparr>) g n" and "archive (mem s) data (unat sz) 0 es"
    and "sz \<noteq> 0" and "loadable {[]} es" and "226 + room es \<le> n"
  shows "\<exists>s1 t g' G. vfs_init lit s = Some (0, s1) \<and> ramfs_init lit data sz s1 = Some (0, t) \<and>
    vfs_paths t g' G \<and> heap_inv t g' (n - (226 + room es)) \<and> (\<forall>p. G p \<noteq> NULL \<longleftrightarrow> p = [] \<or> p \<in> te_path ` set es) \<and>
    (\<forall>(ofs, e) \<in> set (placed 0 es). te_path e \<noteq> [] \<longrightarrow> stands_for (mem s) t (data + of_nat ofs) e (G (te_path e)))"
proof -
  obtain s1 t g' G where m: "vfs_init lit s = Some (0, s1)" "ramfs_init lit data sz s1 = Some (0, t)" "disk_ok lit t g' (n - (226 + room es))"
    "vfs_paths t g' G" "\<forall>p. G p \<noteq> NULL \<longleftrightarrow> p = [] \<or> p \<in> te_path ` set es"
    "\<forall>(ofs, e) \<in> set (placed 0 es). te_path e \<noteq> [] \<longrightarrow> stands_for (mem s) t (data + of_nat ofs) e (G (te_path e))"
    using mount [OF assms] by (elim exE conjE) (rule that; assumption)
  have "heap_inv t g' (n - (226 + room es))" using m(3) by (simp add: disk_ok_def)
  then show ?thesis using m(1,2,4-6) by (intro exI conjI)
qed

section \<open>Reading a file of the disk\<close>

text \<open>The nine permission bits of an entry end up at the places where the file system looks for them.\<close>

lemma ramfs_permissions_bits:
  fixes mode :: i32
  shows "bit (ramfs_permissions mode) k \<longleftrightarrow>
    k < 3 \<and> bit mode (8 - k) \<or> 4 \<le> k \<and> k < 7 \<and> bit mode (9 - k) \<or> 8 \<le> k \<and> k < 11 \<and> bit mode (10 - k)"
proof -
  have b: "mode AND 2 ^ j \<noteq> 0 \<longleftrightarrow> bit mode j" for j by (simp add: and_exp_eq_0_iff_not_bit)
  have m: "(mode AND 256 \<noteq> 0) = bit mode 8" "(mode AND 128 \<noteq> 0) = bit mode 7" "(mode AND 64 \<noteq> 0) = bit mode 6"
    "(mode AND 32 \<noteq> 0) = bit mode 5" "(mode AND 16 \<noteq> 0) = bit mode 4" "(mode AND 8 \<noteq> 0) = bit mode 3"
    "(mode AND 4 \<noteq> 0) = bit mode 2" "(mode AND 2 \<noteq> 0) = bit mode 1" "(mode AND 1 \<noteq> 0) = bit mode 0"
    using b [of 8] b [of 7] b [of 6] b [of 5] b [of 4] b [of 3] b [of 2] b [of 1] b [of 0] by simp_all
  have e: "bit (2 ^ j :: u32) k \<longleftrightarrow> k = j" if "j < 32" for j k using that by (auto simp: bit_exp_iff)
  have n: "bit (1 :: u32) k = (k = 0)" "bit (2 :: u32) k = (k = 1)" "bit (4 :: u32) k = (k = 2)" "bit (0x10 :: u32) k = (k = 4)"
    "bit (0x20 :: u32) k = (k = 5)" "bit (0x40 :: u32) k = (k = 6)" "bit (0x100 :: u32) k = (k = 8)" "bit (0x200 :: u32) k = (k = 9)"
    "bit (0x400 :: u32) k = (k = 10)" for k
    using e [of 0 k] e [of 1 k] e [of 2 k] e [of 4 k] e [of 5 k] e [of 6 k] e [of 8 k] e [of 9 k] e [of 10 k] by simp_all
  have i: "bit (if c then v else 0) k = (c \<and> bit v k)" for c and v :: u32 and k by simp
  have "k = 0 \<or> k = 1 \<or> k = 2 \<or> k = 3 \<or> k = 4 \<or> k = 5 \<or> k = 6 \<or> k = 7 \<or> k = 8 \<or> k = 9 \<or> k = 10 \<or> 11 \<le> k" by arith
  then show ?thesis
    unfolding ramfs_permissions_def Let_def m bit_or_iff i n by (elim disjE) simp_all
qed

lemma placed_header: "archive m a z off es \<Longrightarrow> (ofs, e) \<in> set (placed off es) \<Longrightarrow> header_at m (a + of_nat ofs) e"
  by (induction es arbitrary: off) auto

text \<open>
  C16. From the archive to the reader. After the RAM disk was mounted, a file of the archive that its owner may read can be opened by its
  path, and \<open>read\<close> with a buffer outside of the disk returns as many bytes as were asked for or the file has, which are the bytes
  that follow the header of its entry in the archive.
\<close>

theorem ramfs_file_read:
  assumes ok: "disk_ok lit (s\<lparr>ramfs_data := data, ramfs_size := sz\<rparr>) g n" and arch: "archive (mem s) data (unat sz) 0 es"
    and sz: "sz \<noteq> 0" and load: "loadable {[]} es" and n: "395 + room es + length cs \<le> n"
    and e: "(ofs, e) \<in> set (placed 0 es)" "te_path e \<noteq> []" "\<not> te_isdir e" "bit (of_nat (octal (te_mode e)) :: i32) 8"
    and path: "path \<noteq> NULL" "string_at (mem s) (\<lambda>x. heap_taken g x \<and> \<not> in_range data (unat sz) x) path cs" "tokens cs = te_path e"
    and buf: "disjoint_ranges buffer (unat k) data (unat sz)"
  shows "\<exists>s1 t fd u v. vfs_init lit s = Some (0, s1) \<and> ramfs_init lit data sz s1 = Some (0, t) \<and> open_file lit path READ_ONLY t = Some (fd, u) \<and>
    read_file fd buffer k u = (of_nat (min (unat k) (te_bytes e)), v) \<and>
    (\<forall>i < min (unat k) (te_bytes e). mem v (buffer + of_nat i) = mem s (data + of_nat ofs + 512 + of_nat i))"
proof -
  have n1: "226 + room es \<le> n" and n2: "length cs + 169 \<le> n - (226 + room es)" using n by simp_all
  obtain s1 t g' G where m: "vfs_init lit s = Some (0, s1)" "ramfs_init lit data sz s1 = Some (0, t)" "disk_ok lit t g' (n - (226 + room es))"
    "vfs_paths t g' G" "vfs_state.more t = vfs_state.more (s\<lparr>ramfs_data := data, ramfs_size := sz\<rparr>)"
    "\<forall>(ofs, e) \<in> set (placed 0 es). te_path e \<noteq> [] \<longrightarrow> stands_for (mem s) t (data + of_nat ofs) e (G (te_path e))"
    "\<forall>x. heap_taken g x \<and> \<not> in_range data (unat sz) x \<longrightarrow> heap_taken g' x \<and> mem t x = mem s x"
    using mount [OF ok arch sz load n1] by (elim exE conjE) (rule that; assumption)
  have same: "ramfs_data t = data" "ramfs_size t = sz" using m(5) by (cases s, cases t, simp)+
  have disk: "heap_inv t g' (n - (226 + room es))" "\<And>x. in_range data (unat sz) x \<Longrightarrow> heap_taken g' x" "unat data + unat sz < 2 ^ 64"
    using m(3) outside_taken by (auto simp: disk_ok_def in_disk_def same)
  have p: "string_at (mem t) (heap_taken g') path cs" using string_at_kept [OF path(2), of "mem t" "heap_taken g'"] m(7) by (simp add: kept_def)
  have sl: "string_at (mem t) (heap_taken g') (lit ''/'') [0x2F]" using disk_literals(4) [OF m(3)] by (simp add: string_at_def)
  let ?h = "data + of_nat ofs" and ?v = "G (te_path e)"
  have st: "stands_for (mem s) t ?h e ?v" using m(6) e(1,2) by auto
  have ro: "READ_ONLY AND CREATE = 0" "G (tokens cs) \<noteq> NULL" using st path(3) by (simp_all add: stands_for_def)
  obtain fd u g2 where u: "open_file lit path READ_ONLY t = Some (fd, u)" "fd \<noteq> NULL" "vnodes u = vnodes t"
    "kept (mem t) (heap_taken g') (mem u) (heap_taken g2)"
    "files u = (files t)(fd := \<lparr>file_fd = 0, file_uid = 0, file_vnode = G (tokens cs), file_mode = READ_ONLY\<rparr>)"
    using open_file_contract(2) [where lit = lit, OF disk(1) n2 m(4) path(1) p sl ro] by blast
  have f: "file_vnode (files u fd) = ?v" "file_mode (files u fd) = READ_ONLY" "file_uid (files u fd) = 0" using u(5) path(3) by simp_all
  have at: "vn_type (vnodes t ?v) = VNODE_FILE" "bit (vn_permissions (vnodes t ?v)) 0" "vn_uid (vnodes t ?v) = 0" "vn_data (vnodes t ?v) = ?h + 512"
    "vn_size (vnodes t ?v) = ucast (of_nat (te_bytes e) :: u32)" "?v \<noteq> NULL"
    using st e(3,4) by (simp_all add: stands_for_def entry_attributes_def ramfs_permissions_bits)
  have b32: "te_bytes e < 2 ^ 32" using placed_header [OF arch e(1)] by (simp add: header_at_def)
  then have vs: "unat (vn_size (vnodes t ?v)) = te_bytes e" unfolding at(5) by (simp add: unsigned_ucast_eq take_bit_nat_eq_self)
  let ?n = "min k (vn_size (vnodes t ?v))" and ?l = "min (unat k) (te_bytes e)"
  have un: "unat ?n = ?l" using vs by (simp add: min_def word_le_nat_alt)
  have b: "ofs + 512 + te_bytes e \<le> unat sz" using placed_bounds [OF arch e(1)] te_span_bytes [of e] by simp
  have src: "in_range data (unat sz) x" if "in_range (?h + 512) ?l x" for x
  proof -
    have "unat (of_nat (ofs + 512) :: u64) = ofs + 512" using b disk(3) by (simp del: of_nat_add)
    then show ?thesis using that b disk(3) by (intro in_range_sub [of "of_nat (ofs + 512)" ?l "unat sz"]) (simp_all add: ac_simps)
  qed
  have dr: "disjoint_ranges buffer (unat ?n) (?h + 512) (unat ?n)"
    using buf src unfolding un disjoint_ranges_def in_range_def by fastforce
  have "read_file fd buffer k u = (ucast ?n, u\<lparr>mem := fst (memcpy (mem u) buffer (?h + 512) ?n)\<rparr>)"
    using u(2,3) f at by (simp add: read_file_spec Let_def)
  moreover have "(ucast ?n :: i32) = of_nat ?l" by (simp flip: un)
  moreover have "fst (memcpy (mem u) buffer (?h + 512) ?n) (buffer + of_nat i) = mem s (?h + 512 + of_nat i)" if i: "i < ?l" for i
  proof -
    have ui: "unat (of_nat i :: u64) = i" using i unat_u64_less [of k] by (intro unat_of_nat_small) simp
    then have "fst (memcpy (mem u) buffer (?h + 512) ?n) (buffer + of_nat i) = mem u (?h + 512 + of_nat i)"
      using i un unfolding memcpy_apply [OF dr] by (simp add: in_range_def)
    moreover have "in_range data (unat sz) (?h + 512 + of_nat i)" using i ui by (intro src in_range_offset) simp
    ultimately have "fst (memcpy (mem u) buffer (?h + 512) ?n) (buffer + of_nat i) = mem t (?h + 512 + of_nat i)"
      using u(4) disk(2) by (simp add: kept_def)
    also have "\<dots> = mem s (?h + 512 + of_nat i)" using st i by (simp add: stands_for_def)
    finally show ?thesis .
  qed
  ultimately show ?thesis using m(1,2) u(1) by (intro exI conjI) (assumption | simp)+
qed

text \<open>
  A disk of two entries at address 4096, the directory \<open>./\<close> and the file \<open>./f\<close> with two bytes; the literals and the
  path \<open>/f\<close> are at addresses below.
\<close>

definition disk_fs :: "'a ramfs_state_scheme \<Rightarrow> 'a ramfs_state_scheme" where
  "disk_fs s = (small_fs s)\<lparr>mem := (\<lambda>_. 0)
     (0x10 := 0x2F, 0x20 := 0x2E, 0x21 := 0x2F, 0x30 := 0x2E, 0x40 := 0x2F, 0x41 := 0x66,
      0x1000 := 0x2E, 0x1001 := 0x2F, 0x1064 := 0x37, 0x107C := 0x30, 0x109C := 0x35,
      0x1200 := 0x2E, 0x1201 := 0x2F, 0x1202 := 0x66, 0x1264 := 0x34, 0x1265 := 0x30, 0x1266 := 0x30, 0x127C := 0x32, 0x129C := 0x30,
      0x1400 := 0x68, 0x1401 := 0x69)\<rparr>"

abbreviation (input) disk_lit :: "string \<Rightarrow> u64" where
  "disk_lit \<equiv> (\<lambda>_. 0)(''/'' := 0x10, ''./'' := 0x20, ''.'' := 0x30)"

abbreviation (input) disk_entries :: "tar_entry list" where
  "disk_entries \<equiv> [\<lparr>te_name = [0x2E, 0x2F], te_mode = [0x37], te_size = [0x30], te_type = 0x35\<rparr>,
     \<lparr>te_name = [0x2E, 0x2F, 0x66], te_mode = [0x34, 0x30, 0x30], te_size = [0x32], te_type = 0x30\<rparr>]"

lemma disk_entries_eval:
  "map te_path disk_entries = [[], [[0x66]]]" "map te_bytes disk_entries = [0, 2]" "map te_span disk_entries = [512, 1024]"
  "map (octal \<circ> te_mode) disk_entries = [7, 256]"
  by (simp_all add: te_path_def te_rest_def tokens.simps te_bytes_def te_span_def octal_def digits_value_def strtol_digit_def)

lemma disk_fs_archive: "archive (mem (disk_fs s)) 0x1000 1536 0 disk_entries"
  using disk_entries_eval
  by (simp add: header_at_def octal_field_def te_rest_def disk_fs_def valid_digit_def strtol_digit_def tokens.simps)

lemma disk_fs_string:
  assumes "cstr m a cs" and "unat a + length cs < 0x1000"
  shows "string_at m (\<lambda>x. heap_taken small_view x \<and> \<not> in_range 0x1000 1536 x) a cs"
  unfolding string_at_def
proof (intro conjI allI impI)
  fix x
  assume "in_range a (Suc (length cs)) x"
  then have "unat x < 0x1000" using assms(2) by (simp add: in_range_nat)
  then show "heap_taken small_view x" "\<not> in_range 0x1000 1536 x" by (simp_all add: small_taken in_range_nat)
qed (use assms in simp)

lemma disk_fs_ok: "disk_ok disk_lit ((disk_fs s)\<lparr>ramfs_data := 0x1000, ramfs_size := 1536\<rparr>) small_view 1000"
proof -
  have inv: "heap_inv ((disk_fs s)\<lparr>ramfs_data := 0x1000, ramfs_size := 1536\<rparr>) small_view 1000"
    by (rule heap_inv_cong [THEN iffD1, OF _ _ _ _ _ small_fs_ok(1) [of s]]) (simp_all add: disk_fs_def)
  have out: "outside small_view x" if "in_range 0x1000 1536 x" for x using that by (simp add: in_range_nat outside_def)
  have str: "string_at (mem (disk_fs s)) (\<lambda>x. heap_taken small_view x \<and> \<not> in_range 0x1000 1536 x) 0x10 [0x2F]"
    "string_at (mem (disk_fs s)) (\<lambda>x. heap_taken small_view x \<and> \<not> in_range 0x1000 1536 x) 0x20 [0x2E, 0x2F]"
    "string_at (mem (disk_fs s)) (\<lambda>x. heap_taken small_view x \<and> \<not> in_range 0x1000 1536 x) 0x30 [0x2E]"
    by (rule disk_fs_string; simp add: disk_fs_def)+
  then show ?thesis using inv out by (simp add: disk_ok_def in_disk_def)
qed

lemma disk_fs_loads: "loadable {[]} disk_entries" "room disk_entries = 226"
  using disk_entries_eval by simp_all

theorem ramfs_mounts_witness:
  "\<forall>s :: ramfs_state. \<exists>s1 t g G. vfs_init disk_lit (disk_fs s) = Some (0, s1) \<and> ramfs_init disk_lit 0x1000 1536 s1 = Some (0, t) \<and>
     vfs_paths t g G \<and> {p. G p \<noteq> NULL} = {[], [[0x66]]} \<and> vn_size (vnodes t (G [[0x66]])) = 2"
proof
  fix s :: ramfs_state
  have arch: "archive (mem (disk_fs s)) 0x1000 (unat (1536 :: u64)) 0 disk_entries" using disk_fs_archive [of s] by simp
  obtain s1 t g G where m: "vfs_init disk_lit (disk_fs s) = Some (0, s1)" "ramfs_init disk_lit 0x1000 1536 s1 = Some (0, t)" "vfs_paths t g G"
    "\<forall>p. G p \<noteq> NULL \<longleftrightarrow> p = [] \<or> p \<in> te_path ` set disk_entries"
    "\<forall>(ofs, e) \<in> set (placed 0 disk_entries). te_path e \<noteq> [] \<longrightarrow> stands_for (mem (disk_fs s)) t (0x1000 + of_nat ofs) e (G (te_path e))"
    using ramfs_mounts [OF disk_fs_ok arch _ disk_fs_loads(1), unfolded disk_fs_loads(2)] by auto
  have "{p. G p \<noteq> NULL} = {[], [[0x66]]}" using m(4) disk_entries_eval by auto
  moreover have "vn_size (vnodes t (G [[0x66]])) = 2"
    using m(5) disk_entries_eval by (simp add: stands_for_def entry_attributes_def te_isdir_def)
  ultimately show "\<exists>s1 t g G. vfs_init disk_lit (disk_fs s) = Some (0, s1) \<and> ramfs_init disk_lit 0x1000 1536 s1 = Some (0, t) \<and>
     vfs_paths t g G \<and> {p. G p \<noteq> NULL} = {[], [[0x66]]} \<and> vn_size (vnodes t (G [[0x66]])) = 2" using m(1-3) by blast
qed

theorem ramfs_file_read_witness:
  "\<forall>s :: ramfs_state. \<exists>s1 t fd u v. vfs_init disk_lit (disk_fs s) = Some (0, s1) \<and> ramfs_init disk_lit 0x1000 1536 s1 = Some (0, t) \<and>
     open_file disk_lit 0x40 READ_ONLY t = Some (fd, u) \<and> read_file fd 0x3000 16 u = (2, v) \<and> mem v 0x3000 = 0x68 \<and> mem v 0x3001 = 0x69"
proof
  fix s :: ramfs_state
  let ?e = "disk_entries ! 1"
  have arch: "archive (mem (disk_fs s)) 0x1000 (unat (1536 :: u64)) 0 disk_entries" using disk_fs_archive [of s] by simp
  have e: "(512, ?e) \<in> set (placed 0 disk_entries)" "te_path ?e \<noteq> []" "\<not> te_isdir ?e" "bit (of_nat (octal (te_mode ?e)) :: i32) 8" "te_bytes ?e = 2"
    using disk_entries_eval by (simp_all add: te_isdir_def bit_iff_odd)
  have path: "string_at (mem (disk_fs s)) (\<lambda>x. heap_taken small_view x \<and> \<not> in_range 0x1000 (unat (1536 :: u64)) x) 0x40 [0x2F, 0x66]"
    unfolding unat_numeral by (simp, rule disk_fs_string) (simp_all add: disk_fs_def)
  have toks: "tokens [0x2F, 0x66] = te_path ?e" using disk_entries_eval(1) by (simp add: tokens.simps)
  have buf: "disjoint_ranges 0x3000 (unat (16 :: u64)) 0x1000 (unat (1536 :: u64))" by (simp add: disjoint_ranges_def in_range_nat)
  obtain s1 t fd u v where r: "vfs_init disk_lit (disk_fs s) = Some (0, s1)" "ramfs_init disk_lit 0x1000 1536 s1 = Some (0, t)"
    "open_file disk_lit 0x40 READ_ONLY t = Some (fd, u)" "read_file fd 0x3000 16 u = (of_nat (min (unat (16 :: u64)) (te_bytes ?e)), v)"
    "\<forall>i < min (unat (16 :: u64)) (te_bytes ?e). mem v (0x3000 + of_nat i) = mem (disk_fs s) (0x1000 + of_nat 512 + 512 + of_nat i)"
    using ramfs_file_read [OF disk_fs_ok arch _ disk_fs_loads(1) _ e(1-4) _ path toks buf, unfolded disk_fs_loads(2)] by auto
  have "mem v 0x3000 = 0x68" "mem v 0x3001 = 0x69"
    using r(5) [rule_format, of 0] r(5) [rule_format, of 1] e(5) by (simp_all add: disk_fs_def)
  then show "\<exists>s1 t fd u v. vfs_init disk_lit (disk_fs s) = Some (0, s1) \<and> ramfs_init disk_lit 0x1000 1536 s1 = Some (0, t) \<and>
     open_file disk_lit 0x40 READ_ONLY t = Some (fd, u) \<and> read_file fd 0x3000 16 u = (2, v) \<and> mem v 0x3000 = 0x68 \<and> mem v 0x3001 = 0x69"
    using r(1-4) e(5) by auto
qed

section \<open>Archives the parser does not get through\<close>

text \<open>
  C40. A header can stop the kernel. If an entry \<open>./\<close> states a size between \<open>2^32 - 1023\<close> and \<open>2^32 - 512\<close>, the distance
  to the next header, which is computed in 32 bits, is 0: the parser looks at the same header for ever.
\<close>

theorem ramfs_hangs:
  assumes ok: "disk_ok lit s g n" and off: "off < ramfs_size s"
    and nm: "cstr (mem s) (ramfs_data s + off) [0x2E, 0x2F]" and mode: "octal_field (mem s) (ramfs_data s + off + 100) 8 ms"
    and sz: "octal_field (mem s) (ramfs_data s + off + 124) 12 ds" "2 ^ 32 - 1024 < octal ds" "octal ds \<le> 2 ^ 32 - 512"
  shows "ramfs_loop lit parent off s = None"
proof -
  let ?h = "ramfs_data s + off"
  obtain p1 p2 where st: "strtol (mem s) (header_size ?h) 8 = Some (int (octal ds), p1)" "strtol (mem s) (header_mode ?h) 8 = Some (int (octal ms), p2)"
    using strtol_octal [OF sz(1)] strtol_octal [OF mode] by (auto simp: header_size_def header_mode_def)
  have "strncmp (mem s) ?h (lit ''./'') 2 = 0" by (simp add: strncmp_def lexcmp_take [OF nm disk_literals(2) [OF ok]])
  then have name: "(if strncmp (mem s) ?h (lit ''./'') 2 = 0 then ?h + 2 else ?h) = ?h + 2" by simp
  have "cstr (mem s) (?h + 2) []" using nm by (simp add: add.assoc)
  note skip = skip_test [OF ok this]
  have k: "octal ds + 511 < 2 ^ 32" "(octal ds + 511) div 512 = 8388607" using sz(2,3) by simp_all
  have span: "entry_span (of_nat (octal ds)) = 0" using round_down_512 [OF k(1)] k(2) by (simp add: entry_span_def)
  have h0: "mem s ?h \<noteq> 0" using nm by simp
  let ?P = "\<lambda>lit' parent' off' s' y. \<not> (lit' = lit \<and> parent' = parent \<and> off' = off \<and> s' = s)"
  have "?P lit parent off s y" if ret: "ramfs_loop lit parent off s = Some y" for y
  proof (rule ramfs_loop.raw_induct [where P = ?P, OF _ ret], goal_cases)
    case (1 f lit' parent' off' s' y)
    show ?case
    proof
      assume "lit' = lit \<and> parent' = parent \<and> off' = off \<and> s' = s"
      then have e: "lit' = lit" "parent' = parent" "off' = off" "s' = s" by simp_all
      have "f lit parent off s = Some y"
        using 1(2) off h0 unfolding e by (simp add: Let_def st name skip span)
      from 1(1) [OF this] show False by simp
    qed
  qed
  then show ?thesis by (cases "ramfs_loop lit parent off s") auto
qed

theorem ramfs_hangs_witness:
  "\<forall>s :: ramfs_state. \<exists>m. ramfs_parse disk_lit 0 ((disk_fs s)\<lparr>ramfs_data := 0x1000, ramfs_size := 1536, mem := m\<rparr>) = None"
proof
  fix s :: ramfs_state
  let ?s = "(disk_fs s)\<lparr>ramfs_data := 0x1000, ramfs_size := 1536\<rparr>"
  let ?m = "(mem (disk_fs s))(0x107C := 0x33, 0x107D := 0x37, 0x107E := 0x37, 0x107F := 0x37, 0x1080 := 0x37, 0x1081 := 0x37, 0x1082 := 0x37,
    0x1083 := 0x37, 0x1084 := 0x30, 0x1085 := 0x30, 0x1086 := 0x30)"
  let ?t = "?s\<lparr>mem := ?m\<rparr>"
  have inv: "heap_inv ?t small_view 1000" using disk_fs_ok [of s] by (simp add: disk_ok_def)
  have m: "?m x = mem (disk_fs s) x" if "\<not> in_range 0x1000 1536 x" for x using that by (auto simp: in_range_nat)
  have "\<not> in_heap small_view x" if "in_range 0x1000 1536 x" for x using that by (simp add: in_range_nat in_heap_def)
  then have "heap_kept (mem ?s) small_view ?m small_view" using m by (intro heap_kept_mem) force
  then have ok: "disk_ok disk_lit ?t small_view 1000"
    using m by (intro disk_ok_step(1) [OF disk_fs_ok [of s] inv]) (auto simp: in_disk_def)
  have "ramfs_loop disk_lit 0 0 ?t = None"
    using ramfs_hangs [OF ok, of 0 "[0x37]" "[0x33, 0x37, 0x37, 0x37, 0x37, 0x37, 0x37, 0x37, 0x30, 0x30, 0x30]" 0]
    by (simp add: disk_fs_def octal_field_def valid_digit_def strtol_digit_def octal_def digits_value_def)
  then show "\<exists>m. ramfs_parse disk_lit 0 ((disk_fs s)\<lparr>ramfs_data := 0x1000, ramfs_size := 1536, mem := m\<rparr>) = None"
    by (intro exI [of _ ?m]) (simp add: ramfs_parse_def)
qed

end
