(* ===== verification/Picture.thy ===== *)
theory Picture
  imports Prelude
begin

text \<open>
  The boot picture: \<open>putpixel\<close> and \<open>draw_image\<close> of \<^verbatim>\<open>kernel/src/main.c\<close>, with the image format of
  \<^verbatim>\<open>kernel/include/lib/seif.h\<close>. The frame buffer is the structure that the boot loader hands over; images and the
  frame buffer are in memory, and the loops read the header of the image again in every round.
\<close>

section \<open>Pixels\<close>

record limine_framebuffer =
  fb_address :: u64
  fb_width :: u64
  fb_height :: u64
  fb_pitch :: u64
  fb_bpp :: u16

text \<open>The distance from the start of the line is computed in 32 bits.\<close>

definition pixel_addr :: "limine_framebuffer \<Rightarrow> u32 \<Rightarrow> u32 \<Rightarrow> u64" where
  "pixel_addr fb x y = fb_address fb + ucast y * fb_pitch fb + ucast (x * ucast (fb_bpp fb div 8))"

definition pixel_color :: "u8 \<times> u8 \<times> u8 \<Rightarrow> u32" where
  "pixel_color = (\<lambda>(r, g, b). 0xFF000000 OR push_bit 16 (ucast r) OR push_bit 8 (ucast g) OR ucast b)"

definition putpixel :: "limine_framebuffer \<Rightarrow> u32 \<Rightarrow> u32 \<Rightarrow> u8 \<times> u8 \<times> u8 \<Rightarrow> memory \<Rightarrow> memory" where
  "putpixel fb x y rgb m =
     (if fb_width fb \<le> ucast x \<or> fb_height fb \<le> ucast y then m
      else store_le 4 m (pixel_addr fb x y) (pixel_color rgb))"

section \<open>Images\<close>

abbreviation (input) SEIF_ENCODING_RGBA :: u8 where "SEIF_ENCODING_RGBA \<equiv> 1"
abbreviation (input) SEIF_ENCODING_RGB :: u8 where "SEIF_ENCODING_RGB \<equiv> 2"
abbreviation (input) SEIF_ENCODING_ARGB :: u8 where "SEIF_ENCODING_ARGB \<equiv> 3"

text \<open>The fields of the packed header and of the header of the chunk behind it.\<close>

definition seif_magic :: "memory \<Rightarrow> u64 \<Rightarrow> u8 list" where
  "seif_magic m img = [m img, m (img + 1), m (img + 2), m (img + 3)]"

definition seif_encoding :: "memory \<Rightarrow> u64 \<Rightarrow> u8" where "seif_encoding m img = m (img + 5)"
definition seif_width :: "memory \<Rightarrow> u64 \<Rightarrow> u32" where "seif_width m img = load32 m (img + 14)"
definition seif_height :: "memory \<Rightarrow> u64 \<Rightarrow> u32" where "seif_height m img = load32 m (img + 18)"
definition seif_chunk_count :: "memory \<Rightarrow> u64 \<Rightarrow> u32" where "seif_chunk_count m img = load32 m (img + 22)"

abbreviation (input) sizeof_SEIF_Header :: u64 where "sizeof_SEIF_Header \<equiv> 30"
abbreviation (input) sizeof_SEIF_ChunkHeader :: u64 where "sizeof_SEIF_ChunkHeader \<equiv> 8"

definition chunk_width :: "memory \<Rightarrow> u64 \<Rightarrow> u32" where "chunk_width m chunk = load32 m chunk"
definition chunk_height :: "memory \<Rightarrow> u64 \<Rightarrow> u32" where "chunk_height m chunk = load32 m (chunk + 4)"

definition encoding_bytes :: "u8 \<Rightarrow> u8 option" where
  "encoding_bytes encoding =
     (if encoding = SEIF_ENCODING_RGB then Some 3
      else if encoding = SEIF_ENCODING_RGBA \<or> encoding = SEIF_ENCODING_ARGB then Some 4
      else None)"

definition pixel_rgb :: "memory \<Rightarrow> u8 \<Rightarrow> u64 \<Rightarrow> u32 \<Rightarrow> u8 \<times> u8 \<times> u8" where
  "pixel_rgb m encoding data index =
     (if encoding = SEIF_ENCODING_RGB \<or> encoding = SEIF_ENCODING_RGBA
      then (m (data + ucast index), m (data + ucast (index + 1)), m (data + ucast (index + 2)))
      else if encoding = SEIF_ENCODING_ARGB
      then (m (data + ucast (index + 1)), m (data + ucast (index + 2)), m (data + ucast (index + 3)))
      else (0, 0, 0))"

datatype seif_error = Invalid_header | Unknown_encoding | Invalid_chunk_header | Index_out_of_bounds

section \<open>Drawing\<close>

text \<open>A row from column \<open>x\<close> on; the flag tells whether the loops go on.\<close>

function draw_row :: "limine_framebuffer \<Rightarrow> u64 \<Rightarrow> u64 \<Rightarrow> u8 \<Rightarrow> u32 \<Rightarrow> u32 \<Rightarrow> memory \<Rightarrow> bool \<times> memory" where
  "draw_row fb img data encoding_size y x m =
     (if x < seif_width m img
      then let index = (y * seif_width m img + x) * ucast encoding_size
           in if index + ucast encoding_size \<le> seif_width m img * seif_height m img * ucast encoding_size
              then draw_row fb img data encoding_size y (x + 1) (putpixel fb x y (pixel_rgb m (seif_encoding m img) data index) m)
              else (False, m)
      else (True, m))"
  by pat_completeness auto

lemma unat_succ_less: "x < w \<Longrightarrow> unat (x + 1) = Suc (unat x)" for x w :: u32
  using unsigned_less [of w, where ?'a = nat] by (subst unat_add_no_wrap) (simp_all add: word_less_nat_alt)

lemma succ_measure: "x < w \<Longrightarrow> 2 ^ 32 - unat (x + 1) < 2 ^ 32 - unat x" for x w :: u32
  using unsigned_less [of x, where ?'a = nat] by (simp add: unat_succ_less)

termination draw_row
  by (relation "measure (\<lambda>(fb, img, data, encoding_size, y, x, m). 2 ^ 32 - unat x)")
    (use succ_measure in force)+

function draw_rows :: "limine_framebuffer \<Rightarrow> u64 \<Rightarrow> u64 \<Rightarrow> u8 \<Rightarrow> u32 \<Rightarrow> memory \<Rightarrow> bool \<times> memory" where
  "draw_rows fb img data encoding_size y m =
     (if y < seif_height m img
      then let (go, m) = draw_row fb img data encoding_size y 0 m
           in if go then draw_rows fb img data encoding_size (y + 1) m else (False, m)
      else (True, m))"
  by pat_completeness auto

termination draw_rows
  by (relation "measure (\<lambda>(fb, img, data, encoding_size, y, m). 2 ^ 32 - unat y)")
    (use succ_measure in force)+

definition draw_image :: "limine_framebuffer \<Rightarrow> u64 \<Rightarrow> memory \<Rightarrow> seif_error option \<times> memory" where
  "draw_image fb img m =
     (if seif_magic m img \<noteq> [0x53, 0x45, 0x49, 0x46] then (Some Invalid_header, m)
      else case encoding_bytes (seif_encoding m img) of
        None \<Rightarrow> (Some Unknown_encoding, m)
      | Some encoding_size \<Rightarrow>
          let chunk_header = img + sizeof_SEIF_Header
          in if seif_chunk_count m img \<noteq> 1 \<or> chunk_width m chunk_header \<noteq> seif_width m img \<or>
                chunk_height m chunk_header \<noteq> seif_height m img
             then (Some Invalid_chunk_header, m)
             else let (go, m) = draw_rows fb img (img + sizeof_SEIF_Header + sizeof_SEIF_ChunkHeader) encoding_size 0 m
                  in (if go then None else Some Index_out_of_bounds, m))"

declare draw_row.simps [simp del] draw_rows.simps [simp del]

section \<open>The screen\<close>

text \<open>A frame buffer with four bytes per pixel whose lines do not overlap and whose memory does not wrap around.\<close>

definition screen_ok :: "limine_framebuffer \<Rightarrow> bool" where
  "screen_ok fb \<longleftrightarrow> fb_bpp fb = 32 \<and> 4 * unat (fb_width fb) \<le> unat (fb_pitch fb) \<and> unat (fb_width fb) \<le> 2 ^ 30 \<and> unat (fb_height fb) \<le> 2 ^ 32 \<and>
     unat (fb_address fb) + unat (fb_pitch fb) * unat (fb_height fb) \<le> 2 ^ 64"

definition on_screen :: "limine_framebuffer \<Rightarrow> nat \<Rightarrow> nat \<Rightarrow> bool" where
  "on_screen fb x y \<longleftrightarrow> x < unat (fb_width fb) \<and> y < unat (fb_height fb)"

definition pixel_at :: "limine_framebuffer \<Rightarrow> nat \<Rightarrow> nat \<Rightarrow> u64" where
  "pixel_at fb x y = fb_address fb + of_nat (y * unat (fb_pitch fb) + 4 * x)"

definition in_screen :: "limine_framebuffer \<Rightarrow> u64 \<Rightarrow> bool" where
  "in_screen fb a \<longleftrightarrow> (\<exists>x y. on_screen fb x y \<and> in_range (pixel_at fb x y) 4 a)"

lemma unat_pixel_at:
  assumes "screen_ok fb" and "on_screen fb x y"
  shows "unat (pixel_at fb x y) = unat (fb_address fb) + y * unat (fb_pitch fb) + 4 * x"
    and "unat (fb_address fb) + y * unat (fb_pitch fb) + 4 * x + 4 \<le> 2 ^ 64"
proof -
  let ?p = "unat (fb_pitch fb)" and ?h = "unat (fb_height fb)"
  have "Suc y * ?p \<le> ?h * ?p" using assms(2) by (intro mult_le_mono1) (simp add: on_screen_def)
  moreover have "4 * x + 4 \<le> ?p" using assms by (simp add: screen_ok_def on_screen_def)
  ultimately show b: "unat (fb_address fb) + y * ?p + 4 * x + 4 \<le> 2 ^ 64"
    using assms(1) by (simp add: screen_ok_def mult.commute)
  then have "unat (of_nat (y * ?p + 4 * x) :: u64) = y * ?p + 4 * x" by (intro unat_of_nat_small) simp
  then show "unat (pixel_at fb x y) = unat (fb_address fb) + y * ?p + 4 * x"
    using b unfolding pixel_at_def by (subst unat_add_no_wrap) simp_all
qed

lemma pixels_disjoint:
  assumes ok: "screen_ok fb" and xy: "on_screen fb x y" "on_screen fb x' y'" and ne: "(x, y) \<noteq> (x', y')"
  shows "disjoint_ranges (pixel_at fb x y) 4 (pixel_at fb x' y') 4"
proof -
  let ?p = "unat (fb_pitch fb)"
  note u = unat_pixel_at [OF ok xy(1)] unat_pixel_at [OF ok xy(2)]
  have later: "b * ?p + 4 * a + 4 \<le> b' * ?p + 4 * a'" if "b < b'" "on_screen fb a b" for a b a' b'
  proof -
    have "b * ?p + ?p \<le> b' * ?p" using that(1) by (metis Suc_leI mult_Suc mult_le_mono1 add.commute)
    moreover have "4 * a + 4 \<le> ?p" using that(2) ok by (simp add: on_screen_def screen_ok_def)
    ultimately show ?thesis by linarith
  qed
  consider "y < y'" | "y' < y" | "y = y'" "x < x'" | "y = y'" "x' < x" using ne by fastforce
  then have "unat (pixel_at fb x y) + 4 \<le> unat (pixel_at fb x' y') \<or> unat (pixel_at fb x' y') + 4 \<le> unat (pixel_at fb x y)"
    unfolding u(1,3) using later [of y y' x x'] later [of y' y x' x] xy by cases auto
  then show ?thesis using u by (auto simp: disjoint_ranges_def in_range_nat)
qed

lemma ucast_of_nat_32: "n < 2 ^ 32 \<Longrightarrow> ucast (of_nat n :: u32) = (of_nat n :: u64)"
  by (simp add: unsigned_of_nat take_bit_nat_eq_self)

lemma putpixel_nat:
  assumes ok: "screen_ok fb" and x: "x < 2 ^ 32" "y < 2 ^ 32"
  shows "putpixel fb (of_nat x) (of_nat y) rgb m = (if on_screen fb x y then store_le 4 m (pixel_at fb x y) (pixel_color rgb) else m)"
proof -
  have "pixel_addr fb (of_nat x) (of_nat y) = pixel_at fb x y" if "on_screen fb x y"
  proof -
    have "4 * x < 2 ^ 32" using that ok by (simp add: on_screen_def screen_ok_def)
    from ucast_of_nat_32 [OF this] have "ucast (of_nat x * 4 :: u32) = (of_nat (4 * x) :: u64)" by (simp add: mult.commute)
    then show ?thesis using ok ucast_of_nat_32 [OF x(2)] by (simp add: pixel_addr_def pixel_at_def screen_ok_def)
  qed
  then show ?thesis using x by (auto simp: putpixel_def on_screen_def word_le_nat_alt ucast_of_nat_32)
qed

text \<open>Painting a list of pixels, each with the colour that belongs to its place.\<close>

definition paint :: "limine_framebuffer \<Rightarrow> (nat \<Rightarrow> nat \<Rightarrow> u8 \<times> u8 \<times> u8) \<Rightarrow> nat \<times> nat \<Rightarrow> memory \<Rightarrow> memory" where
  "paint fb rgb = (\<lambda>(x, y). putpixel fb (of_nat x) (of_nat y) (rgb x y))"

lemma load32_store [simp]: "load32 (store_le 4 m a v) a = v" for v :: u32
  using take_bit_length_eq [of v] by (simp add: load32_def load_store_le_same)

lemma paint_pixel:
  assumes ok: "screen_ok fb" and "\<forall>(x, y) \<in> set ps. x < 2 ^ 32 \<and> y < 2 ^ 32" and xy: "on_screen fb x y"
  shows "load32 (fold (paint fb rgb) ps m) (pixel_at fb x y) =
      (if (x, y) \<in> set ps then pixel_color (rgb x y) else load32 m (pixel_at fb x y))"
  using assms(2)
proof (induction ps rule: rev_induct)
  case (snoc p ps)
  obtain x' y' where p: "p = (x', y')" by fastforce
  have "x' < 2 ^ 32" "y' < 2 ^ 32" using snoc.prems p by auto
  note put = putpixel_nat [OF ok this, of "rgb x' y'"]
  show ?case
  proof (cases "on_screen fb x' y' \<and> (x', y') \<noteq> (x, y)")
    case True
    then have "disjoint_ranges (pixel_at fb x' y') 4 (pixel_at fb x y) 4" using xy by (intro pixels_disjoint [OF ok]) auto
    then have "load32 (store_le 4 m' (pixel_at fb x' y') c) (pixel_at fb x y) = load32 m' (pixel_at fb x y)" for m' and c :: u32
      unfolding load32_def by (intro load_le_cong) (auto simp: store_le_apply dest: disjoint_rangesD)
    then show ?thesis using snoc True by (auto simp: p paint_def put)
  next
    case False
    then show ?thesis using snoc xy by (auto simp: p paint_def put)
  qed
qed simp

lemma paint_outside:
  assumes "screen_ok fb" and "\<forall>(x, y) \<in> set ps. x < 2 ^ 32 \<and> y < 2 ^ 32" and "\<not> in_screen fb a"
  shows "fold (paint fb rgb) ps m a = m a"
  using assms(2)
proof (induction ps rule: rev_induct)
  case (snoc p ps)
  then show ?case using assms(1,3)
    by (cases p) (auto simp: paint_def putpixel_nat store_le_apply in_screen_def)
qed simp

section \<open>Drawing an image\<close>

text \<open>
  A valid image with \<open>w\<close> columns, \<open>h\<close> rows and \<open>k\<close> bytes per pixel, whose size fits in 32 bits, and the colour it has at a place.
\<close>

definition seif_image :: "memory \<Rightarrow> u64 \<Rightarrow> nat \<Rightarrow> nat \<Rightarrow> nat \<Rightarrow> bool" where
  "seif_image m img w h k \<longleftrightarrow> seif_magic m img = [0x53, 0x45, 0x49, 0x46] \<and> seif_chunk_count m img = 1 \<and>
     encoding_bytes (seif_encoding m img) = Some (of_nat k) \<and> k \<in> {3, 4} \<and>
     seif_width m img = of_nat w \<and> seif_height m img = of_nat h \<and> chunk_width m (img + 30) = of_nat w \<and> chunk_height m (img + 30) = of_nat h \<and>
     w < 2 ^ 32 \<and> h < 2 ^ 32 \<and> w * h * k < 2 ^ 32"

definition seif_rgb :: "memory \<Rightarrow> u64 \<Rightarrow> nat \<Rightarrow> nat \<Rightarrow> nat \<Rightarrow> nat \<Rightarrow> u8 \<times> u8 \<times> u8" where
  "seif_rgb m img w k x y =
     (let i = 38 + (y * w + x) * k + (if seif_encoding m img = SEIF_ENCODING_ARGB then 1 else 0)
      in (m (img + of_nat i), m (img + of_nat (i + 1)), m (img + of_nat (i + 2))))"

lemma pixel_index:
  fixes x y w h k :: nat
  assumes "x < w" and "y < h"
  shows "(y * w + x) * k + k \<le> w * h * k"
proof -
  have "y * w + x + 1 \<le> y * w + w" using assms(1) by simp
  also have "\<dots> \<le> h * w" using assms(2) by (metis Suc_leI add.commute mult_Suc mult_le_mono1)
  finally have "(y * w + x + 1) * k \<le> h * w * k" by (rule mult_le_mono1)
  then show ?thesis by (simp add: algebra_simps)
qed

lemma pixel_rgb_seif:
  assumes im: "seif_image m img w h k" and xy: "x < w" "y < h"
  shows "pixel_rgb m (seif_encoding m img) (img + 38) (of_nat ((y * w + x) * k)) = seif_rgb m img w k x y"
proof -
  let ?i = "(y * w + x) * k"
  have b: "?i + k < 2 ^ 32" using pixel_index [OF xy, of k] im by (simp add: seif_image_def)
  have enc: "seif_encoding m img \<in> {SEIF_ENCODING_RGB, SEIF_ENCODING_RGBA, SEIF_ENCODING_ARGB}" "3 \<le> k"
    using im by (auto simp: seif_image_def encoding_bytes_def split: if_splits)
  have o: "ucast (of_nat ?i + of_nat j :: u32) = (of_nat (?i + j) :: u64)" if "j \<le> 3" for j
    using ucast_of_nat_32 [of "?i + j"] that b enc(2) by simp
  have "img + 38 + ucast (of_nat ?i + of_nat j :: u32) = img + of_nat (38 + ?i + j)" if "j \<le> 3" for j
    unfolding o [OF that] by (simp add: add.assoc)
  from this [of 0] this [of 1] this [of 2] this [of 3] show ?thesis
    using enc(1) by (auto simp: pixel_rgb_def seif_rgb_def Let_def ac_simps)
qed

text \<open>The image may be anywhere outside of the screen.\<close>

definition image_apart :: "limine_framebuffer \<Rightarrow> u64 \<Rightarrow> nat \<Rightarrow> bool" where
  "image_apart fb img n \<longleftrightarrow> (\<forall>a. in_range img n a \<longrightarrow> \<not> in_screen fb a)"

definition agree :: "u64 \<Rightarrow> nat \<Rightarrow> memory \<Rightarrow> memory \<Rightarrow> bool" where
  "agree img n m m' \<longleftrightarrow> (\<forall>a. in_range img n a \<longrightarrow> m' a = m a)"

lemma agree_offset: "agree img n m m' \<Longrightarrow> j < n \<Longrightarrow> j < 2 ^ 64 \<Longrightarrow> m' (img + of_nat j) = m (img + of_nat j)"
  by (simp add: agree_def in_range_offset)

lemma agree_load32: "agree img n m m' \<Longrightarrow> unat j + 4 \<le> n \<Longrightarrow> n < 2 ^ 64 \<Longrightarrow> load32 m' (img + j) = load32 m (img + j)"
  unfolding load32_def by (intro load_le_cong) (auto simp: agree_def dest: in_range_sub)

lemma agree_seif:
  assumes im: "seif_image m img w h k" and ag: "agree img (38 + w * h * k) m m'"
  shows "seif_image m' img w h k" and "seif_encoding m' img = seif_encoding m img"
    and "x < w \<Longrightarrow> y < h \<Longrightarrow> seif_rgb m' img w k x y = seif_rgb m img w k x y"
proof -
  have N: "38 + w * h * k < 2 ^ 64" using im by (simp add: seif_image_def)
  have b: "m' (img + of_nat j) = m (img + of_nat j)" if "j < 38 + w * h * k" for j using agree_offset [OF ag that] N that by simp
  have l: "load32 m' (img + j) = load32 m (img + j)" if "unat j + 4 \<le> 38" for j using agree_load32 [OF ag _ N, of j] that by simp
  show enc: "seif_encoding m' img = seif_encoding m img" using b [of 5] by (simp add: seif_encoding_def)
  show "seif_image m' img w h k"
    using im enc b [of 0] b [of 1] b [of 2] b [of 3] l [of 14] l [of 18] l [of 22] l [of 30] l [of "30 + 4"]
    by (simp add: seif_image_def seif_magic_def seif_chunk_count_def seif_width_def seif_height_def chunk_width_def chunk_height_def add.assoc)
  assume xy: "x < w" "y < h"
  define c where "c = (if seif_encoding m img = SEIF_ENCODING_ARGB then 1 else 0 :: nat)"
  define i where "i = 38 + (y * w + x) * k + c"
  have "3 + c \<le> k" using im by (auto simp: c_def seif_image_def encoding_bytes_def split: if_splits)
  then have "i + 2 < 38 + w * h * k" using pixel_index [OF xy, of k] unfolding i_def by linarith
  then have "m' (img + of_nat i) = m (img + of_nat i)" "m' (img + of_nat (i + 1)) = m (img + of_nat (i + 1))"
    "m' (img + of_nat (i + 2)) = m (img + of_nat (i + 2))" using b [of i] b [of "i + 1"] b [of "i + 2"] by simp_all
  then show "seif_rgb m' img w k x y = seif_rgb m img w k x y"
    unfolding seif_rgb_def Let_def enc c_def [symmetric] i_def [symmetric] by simp
qed

lemma agree_paint:
  assumes "screen_ok fb" and "image_apart fb img n" and "agree img n m m'" and "x < 2 ^ 32" and "y < 2 ^ 32"
  shows "agree img n m (paint fb rgb (x, y) m')"
  using assms paint_outside [of fb "[(x, y)]" _ rgb m'] by (simp add: agree_def image_apart_def)

lemma draw_row_fold:
  assumes ok: "screen_ok fb" and im: "seif_image m img w h k" and ap: "image_apart fb img (38 + w * h * k)" and y: "y < h"
    and "agree img (38 + w * h * k) m m'" and "x \<le> w"
  shows "draw_row fb img (img + 38) (of_nat k) (of_nat y) (of_nat x) m' =
      (True, fold (paint fb (seif_rgb m img w k)) (map (\<lambda>i. (i, y)) [x..<w]) m')"
  using assms(5,6)
proof (induction "w - x" arbitrary: x m')
  case 0
  then have "x = w" by simp
  moreover have "seif_width m' img = of_nat w" using agree_seif(1) [OF im 0(2)] by (simp add: seif_image_def)
  ultimately show ?case by (subst draw_row.simps) simp
next
  case (Suc d)
  then have x: "x < w" by simp
  note s = agree_seif [OF im Suc.prems(1)]
  have f: "w < 2 ^ 32" "h < 2 ^ 32" "w * h * k < 2 ^ 32" "k \<in> {3, 4}" "seif_width m' img = of_nat w" "seif_height m' img = of_nat h"
    using s(1) by (simp_all add: seif_image_def)
  have k: "ucast (of_nat k :: u8) = (of_nat k :: u32)" using f(4) by auto
  let ?i = "(y * w + x) * k"
  have idx: "(of_nat y * of_nat w + of_nat x) * of_nat k = (of_nat ?i :: u32)" by simp
  have pi: "?i + k \<le> w * h * k" by (rule pixel_index [OF x y])
  have le: "(of_nat ?i :: u32) + of_nat k \<le> of_nat w * of_nat h * of_nat k"
  proof -
    have "unat (of_nat (?i + k) :: u32) = ?i + k" "unat (of_nat (w * h * k) :: u32) = w * h * k"
      using pi f(3) by (auto intro!: unat_of_nat_small simp del: of_nat_add of_nat_mult)
    then show ?thesis using pi by (simp add: word_le_nat_alt)
  qed
  have lt: "(of_nat x :: u32) < of_nat w" using x f(1) by (simp add: word_less_nat_alt)
  have rgb: "pixel_rgb m' (seif_encoding m' img) (img + 38) (of_nat ?i) = seif_rgb m img w k x y"
    using pixel_rgb_seif [OF s(1) x y] s(3) [OF x y] by simp
  let ?m = "paint fb (seif_rgb m img w k) (x, y) m'"
  have "draw_row fb img (img + 38) (of_nat k) (of_nat y) (of_nat x) m' = draw_row fb img (img + 38) (of_nat k) (of_nat y) (of_nat (Suc x)) ?m"
    by (subst draw_row.simps) (simp only: Let_def f(5,6) k idx le lt rgb if_True paint_def prod.case of_nat_Suc add.commute [of 1])
  moreover have "agree img (38 + w * h * k) m ?m" using x y f(1,2) by (intro agree_paint [OF ok ap Suc.prems(1)]) simp_all
  moreover have "[x..<w] = x # [Suc x..<w]" using x by (rule upt_conv_Cons)
  ultimately show ?case using Suc.hyps(1) [of "Suc x" ?m] Suc.hyps(2) x by simp
qed

lemma draw_rows_fold:
  assumes ok: "screen_ok fb" and im: "seif_image m img w h k" and ap: "image_apart fb img (38 + w * h * k)"
    and "agree img (38 + w * h * k) m m'" and "y \<le> h"
  shows "draw_rows fb img (img + 38) (of_nat k) (of_nat y) m' =
      (True, fold (paint fb (seif_rgb m img w k)) (concat (map (\<lambda>y. map (\<lambda>x. (x, y)) [0..<w]) [y..<h])) m')"
  using assms(4,5)
proof (induction "h - y" arbitrary: y m')
  case 0
  then have "y = h" by simp
  moreover have "seif_height m' img = of_nat h" using agree_seif(1) [OF im 0(2)] by (simp add: seif_image_def)
  ultimately show ?case by (subst draw_rows.simps) simp
next
  case (Suc d)
  then have y: "y < h" by simp
  let ?N = "38 + w * h * k" and ?ps = "map (\<lambda>x. (x, y)) [0..<w]"
  have f: "w < 2 ^ 32" "h < 2 ^ 32" "seif_height m' img = of_nat h" using agree_seif(1) [OF im Suc.prems(1)] by (simp_all add: seif_image_def)
  let ?m = "fold (paint fb (seif_rgb m img w k)) ?ps m'"
  have row: "draw_row fb img (img + 38) (of_nat k) (of_nat y) 0 m' = (True, ?m)"
    using draw_row_fold [OF ok im ap y Suc.prems(1), of 0] by simp
  have "(of_nat y :: u32) < of_nat h" using y f(2) by (simp add: word_less_nat_alt)
  then have "draw_rows fb img (img + 38) (of_nat k) (of_nat y) m' = draw_rows fb img (img + 38) (of_nat k) (of_nat (Suc y)) ?m"
    by (subst draw_rows.simps) (simp add: f(3) row add.commute)
  moreover have "agree img ?N m ?m"
  proof -
    have "\<forall>(x, y) \<in> set ?ps. x < 2 ^ 32 \<and> y < 2 ^ 32" using f y by auto
    then show ?thesis using Suc.prems(1) ap paint_outside [OF ok] by (simp add: agree_def image_apart_def)
  qed
  moreover have "[y..<h] = y # [Suc y..<h]" using y by (rule upt_conv_Cons)
  ultimately show ?case using Suc.hyps(1) [of "Suc y" ?m] Suc.hyps(2) y by simp
qed

section \<open>Properties\<close>

text \<open>
  C35. The picture is on the screen. For a valid image outside of the frame buffer, \<open>draw_image\<close> ends without an error;
  afterwards every pixel of the screen within the image has the colour that the image has there, for all three
  encodings, every other pixel is as before, and no byte outside of the screen has changed.
\<close>

theorem draw_image_correct:
  assumes "screen_ok fb" and "seif_image m img w h k" and "image_apart fb img (38 + w * h * k)"
  shows "\<exists>m'. draw_image fb img m = (None, m') \<and>
    (\<forall>x y. on_screen fb x y \<longrightarrow> load32 m' (pixel_at fb x y) =
       (if x < w \<and> y < h then pixel_color (seif_rgb m img w k x y) else load32 m (pixel_at fb x y))) \<and>
    (\<forall>a. \<not> in_screen fb a \<longrightarrow> m' a = m a)"
proof -
  let ?ps = "concat (map (\<lambda>y. map (\<lambda>x. (x, y)) [0..<w]) [0..<h])"
  let ?m = "fold (paint fb (seif_rgb m img w k)) ?ps m"
  have "agree img (38 + w * h * k) m m" by (simp add: agree_def)
  from draw_rows_fold [OF assms this, of 0]
  have rows: "draw_rows fb img (img + 38) (of_nat k) 0 m = (True, ?m)" by simp
  have "draw_image fb img m = (None, ?m)"
    using assms(2) rows by (simp add: draw_image_def seif_image_def Let_def add.assoc)
  moreover have "\<forall>(x, y) \<in> set ?ps. x < 2 ^ 32 \<and> y < 2 ^ 32" using assms(2) by (auto simp: seif_image_def)
  moreover have "(x, y) \<in> set ?ps \<longleftrightarrow> x < w \<and> y < h" for x y by (auto simp: image_iff)
  ultimately show ?thesis using paint_pixel [OF assms(1), of ?ps] paint_outside [OF assms(1), of ?ps] by (intro exI [of _ ?m]) simp
qed

theorem draw_image_correct_witness:
  "\<exists>fb m m'. draw_image fb 0x100 m = (None, m') \<and> load32 m' 0x10000 = 0xFF010203 \<and> load32 m' 0x10004 = 0"
proof -
  let ?fb = "\<lparr>fb_address = 0x10000, fb_width = 2, fb_height = 1, fb_pitch = 8, fb_bpp = 32\<rparr>"
  let ?m = "(\<lambda>_. 0)(0x100 := 0x53, 0x101 := 0x45, 0x102 := 0x49, 0x103 := 0x46, 0x105 := 2, 0x10E := 1, 0x112 := 1, 0x116 := 1,
    0x11E := 1, 0x122 := 1, 0x126 := 1, 0x127 := 2, 0x128 := 3) :: memory"
  have fb: "screen_ok ?fb" "on_screen ?fb 0 0" "on_screen ?fb 1 0" by (simp_all add: screen_ok_def on_screen_def)
  have im: "seif_image ?m 0x100 1 1 3"
    by (simp add: seif_image_def seif_magic_def seif_encoding_def encoding_bytes_def seif_chunk_count_def seif_width_def seif_height_def
        chunk_width_def chunk_height_def load32_bytes)
  have ap: "image_apart ?fb 0x100 (38 + 1 * 1 * 3)"
    unfolding image_apart_def in_screen_def
  proof (intro allI impI notI, elim exE conjE)
    fix a x y
    assume a: "in_range 0x100 (38 + 1 * 1 * 3) a" and s: "on_screen ?fb x y" and p: "in_range (pixel_at ?fb x y) 4 a"
    show False using a p unat_pixel_at [OF fb(1) s] by (simp add: in_range_nat)
  qed
  obtain m' where m': "draw_image ?fb 0x100 ?m = (None, m')" "\<forall>x y. on_screen ?fb x y \<longrightarrow> load32 m' (pixel_at ?fb x y) =
      (if x < 1 \<and> y < 1 then pixel_color (seif_rgb ?m 0x100 1 3 x y) else load32 ?m (pixel_at ?fb x y))"
    using draw_image_correct [OF fb(1) im ap] by blast
  have "pixel_at ?fb 0 0 = 0x10000" "pixel_at ?fb 1 0 = 0x10004" by (simp_all add: pixel_at_def)
  moreover have "pixel_color (seif_rgb ?m 0x100 1 3 0 0) = 0xFF010203"
    by (simp add: seif_rgb_def seif_encoding_def pixel_color_def)
  moreover have "load32 ?m 0x10004 = 0" by (simp add: load32_bytes)
  ultimately have "load32 m' 0x10000 = 0xFF010203" "load32 m' 0x10004 = 0"
    using m'(2) [rule_format, OF fb(2)] m'(2) [rule_format, OF fb(3)] by simp_all
  then show ?thesis using m'(1) by blast
qed

text \<open>Without a valid header nothing is drawn.\<close>

lemma draw_image_rejects:
  "seif_magic m img \<noteq> [0x53, 0x45, 0x49, 0x46] \<Longrightarrow> draw_image fb img m = (Some Invalid_header, m)"
  "seif_magic m img = [0x53, 0x45, 0x49, 0x46] \<Longrightarrow> seif_encoding m img \<notin> {1, 2, 3} \<Longrightarrow> draw_image fb img m = (Some Unknown_encoding, m)"
  by (simp_all add: draw_image_def encoding_bytes_def)
end
