(* ===== verification/Process.thy ===== *)
theory Process
  imports Ramfs Elf
begin

text \<open>
  Programs from the file system: \<open>scheduler_create_elf_process\<close> of \<^verbatim>\<open>kernel/src/proc/scheduler.c\<close>, which opens a file, reads it
  to the heap, loads it to a new address space and enters a process for it in the table. It is the place where file system, heap,
  program loader, page allocator and scheduler meet.
\<close>

section \<open>Creation\<close>

definition scheduler_create_elf_process ::
  "(string \<Rightarrow> u64) \<Rightarrow> u64 \<Rightarrow> u64 \<Rightarrow> 'a file_state_scheme \<Rightarrow> (u64 \<times> 'a file_state_scheme) option" where
  "scheduler_create_elf_process lit path name s =
     (if MAX_PROCESSES \<le> process_count s then Some (0, s)
      else do {
        (init, s) \<leftarrow> open_file lit path READ_ONLY s;
        if init = NULL then Some (0, s)
        else if \<not> hvfs_permission_check (file_vnode (files s init)) 0 VNODE_PERMS_OWNER_EXECUTE s then Some (0, s)
        else do {
          (data, s) \<leftarrow> kmalloc (vn_size (vnodes s (file_vnode (files s init)))) s;
          let (_, s) = read_file init data (vn_size (vnodes s (file_vnode (files s init)))) s;
          let (pm, s) = vmm_new_pagemap s;
          (entry, s) \<leftarrow> elf_load data pm s;
          if entry = 0 then Some (0, s)
          else do {
            let (proc, s) = process_create entry pm name s;
            let s = add_process proc s;
            (_, s) \<leftarrow> close init s;
            Some (pid (proc_mem s proc), s)
          }
        }
      })"

section \<open>What loading leaves alone\<close>

lemma load_page_more: "pmm_state.more (load_page d pm p off vs fl a s) = pmm_state.more s"
  by (simp add: load_page_def fill_page_def split_def Let_def vmm_map_more pmm_more)

lemma load_pages_more: "load_pages d pm p off vs ve fl a s = Some y \<Longrightarrow> pmm_state.more (snd y) = pmm_state.more s"
proof (erule load_pages.raw_induct [rotated])
  fix f d pm p off vs ve fl a y and s :: "'a pmm_state_scheme"
  assume IH: "\<And>d pm p off vs ve fl a (s :: 'a pmm_state_scheme) y. f d pm p off vs ve fl a s = Some y \<Longrightarrow>
      pmm_state.more (snd y) = pmm_state.more s"
    and run: "(if a < ve
      then if fst (pmm_request_page s) = 0 then Some (False, snd (pmm_request_page s))
           else f d pm p off vs ve fl (a + PAGE_SIZE) (load_page d pm p off vs fl a s)
      else Some (True, s)) = Some y"
  show "pmm_state.more (snd y) = pmm_state.more s"
    using run by (auto simp: pmm_more load_page_more split: if_splits dest!: IH)
qed

lemma load_segments_more: "load_segments d pm ph i s = Some y \<Longrightarrow> pmm_state.more (snd y) = pmm_state.more s"
proof (erule load_segments.raw_induct [rotated])
  fix f d pm ph i y and s :: "'a pmm_state_scheme"
  assume IH: "\<And>d pm ph i (s :: 'a pmm_state_scheme) y. f d pm ph i s = Some y \<Longrightarrow> pmm_state.more (snd y) = pmm_state.more s"
    and run: "(if i < e_phnum s d
      then if p_type s (ph_at ph i) \<noteq> PT_LOAD then f d pm ph (i + 1) s
           else do { (ok, s) \<leftarrow> load_segment d pm (ph_at ph i) s; if ok then f d pm ph (i + 1) s else Some (False, s) }
      else Some (True, s)) = Some y"
  have seg: "pmm_state.more t = pmm_state.more s" if "load_segment d pm p s = Some (ok, t)" for d p ok t
    using that load_pages_more [of d pm p] by (fastforce simp: load_segment_def Let_def)
  show "pmm_state.more (snd y) = pmm_state.more s"
    using run by (auto simp: bind_eq_Some_conv split: if_splits dest!: IH seg)
qed

lemma elf_load_more: "elf_load d pm s = Some (e, t) \<Longrightarrow> pmm_state.more t = pmm_state.more s"
  by (auto simp: elf_load_def bind_eq_Some_conv split: if_splits dest!: load_segments_more)

text \<open>The part of the state that has nothing to do with pages: everything from the page tables up.\<close>

lemma vmm_new_pagemap_more: "pmm_state.more (snd (vmm_new_pagemap s)) = pmm_state.more s"
proof -
  have "pmm_state.more (copy_kernel_entries pm is t) = pmm_state.more t" for pm "is" and t :: "'a vmm_state_scheme"
    by (induction "is" arbitrary: t) (simp_all add: pmm_more)
  then show ?thesis by (simp add: vmm_new_pagemap_def split_def Let_def pmm_more)
qed

lemma more_fields:
  fixes s t :: "'a file_state_scheme"
  assumes "pmm_state.more t = pmm_state.more s"
  shows "kernel_pagemap t = kernel_pagemap s" and "proc_mem t = proc_mem s" and "processes t = processes s" and "process_count t = process_count s"
    and "current_index t = current_index s" and "pid_counter t = pid_counter s" and "vnodes t = vnodes s" and "files t = files s"
    and "heap_inv t g n = heap_inv s g n"
proof -
  show "kernel_pagemap t = kernel_pagemap s" "proc_mem t = proc_mem s" "processes t = processes s" "process_count t = process_count s"
    "current_index t = current_index s" "pid_counter t = pid_counter s" "vnodes t = vnodes s" "files t = files s"
    using assms by (cases s, cases t, simp)+
  show "heap_inv t g n = heap_inv s g n" using assms by (intro heap_inv_cong) (cases s, cases t, simp)+
qed

section \<open>Images that are moved\<close>

definition same_bytes :: "memory \<Rightarrow> u64 \<Rightarrow> memory \<Rightarrow> u64 \<Rightarrow> nat \<Rightarrow> bool" where
  "same_bytes m a m' b k \<longleftrightarrow> (\<forall>i<k. m (a + of_nat i) = m' (b + of_nat i))"

lemma load_same_bytes:
  "same_bytes m a m' b k \<Longrightarrow> i + n \<le> k \<Longrightarrow> (load_le n m (a + of_nat i) :: 'a::len word) = load_le n m' (b + of_nat i)"
proof (induction n arbitrary: i)
  case (Suc n)
  have "(load_le n m (a + of_nat (Suc i)) :: 'a word) = load_le n m' (b + of_nat (Suc i))" using Suc by (intro Suc.IH) simp_all
  then show ?case using Suc.prems by (simp add: same_bytes_def ac_simps)
qed simp

text \<open>
  An image of \<open>k\<close> bytes with \<open>n\<close> program headers, wherever it is: headers and segments lie within the image, no end wraps around, and
  no two segments share a page.
\<close>

definition elf_image :: "'a machine_scheme \<Rightarrow> u64 \<Rightarrow> nat \<Rightarrow> nat \<Rightarrow> bool" where
  "elf_image s src k n \<longleftrightarrow> e_magic s src = ELF_MAGIC \<and> e_class s src = 2 \<and> n = unat (e_phnum s src) \<and> e_entry s src \<noteq> 0 \<and>
     64 \<le> k \<and> k + 2 ^ 48 + 4096 < 2 ^ 64 \<and> unat (e_phoff s src) + 56 * n \<le> k \<and>
     (\<forall>j<n. load_header s (src + e_phoff s src) j \<longrightarrow>
        (let p = ph_at (src + e_phoff s src) (of_nat j)
         in unat (p_offset s p) + unat (p_filesz s p) \<le> k \<and> unat (p_vaddr s p) + unat (p_memsz s p) + 4096 < 2 ^ 64 \<and> seg_pages s p \<le> 2 ^ 36)) \<and>
     (\<forall>j<n. \<forall>l<n. load_header s (src + e_phoff s src) j \<longrightarrow> load_header s (src + e_phoff s src) l \<longrightarrow> j \<noteq> l \<longrightarrow>
        segs_apart s (ph_at (src + e_phoff s src) (of_nat j)) (ph_at (src + e_phoff s src) (of_nat l)))"

lemma ph_at_nat: "j < 2 ^ 16 \<Longrightarrow> ph_at (a + off) (of_nat j) = a + of_nat (unat off + 56 * j)"
  by (simp add: ph_at_def unsigned_of_nat take_bit_nat_eq_self)

lemma header_moved:
  fixes s :: "'a machine_scheme" and t :: "'b machine_scheme"
  assumes same: "same_bytes (mem t) a (mem s) b k" and i: "i + 56 \<le> k"
  shows "p_type t (a + of_nat i) = p_type s (b + of_nat i)" and "p_offset t (a + of_nat i) = p_offset s (b + of_nat i)"
    and "p_vaddr t (a + of_nat i) = p_vaddr s (b + of_nat i)" and "p_filesz t (a + of_nat i) = p_filesz s (b + of_nat i)"
    and "p_memsz t (a + of_nat i) = p_memsz s (b + of_nat i)"
proof -
  have o: "x + of_nat i + of_nat c = x + of_nat (i + c)" for x :: u64 and c by simp
  note l = load_same_bytes [OF same]
  show "p_type t (a + of_nat i) = p_type s (b + of_nat i)" using l [of i 4] i by (simp add: p_type_def load32_def)
  show "p_offset t (a + of_nat i) = p_offset s (b + of_nat i)" using l [of "i + 8" 8] i o [of _ 8] by (simp add: p_offset_def load64_def ac_simps)
  show "p_vaddr t (a + of_nat i) = p_vaddr s (b + of_nat i)" using l [of "i + 16" 8] i o [of _ 16] by (simp add: p_vaddr_def load64_def ac_simps)
  show "p_filesz t (a + of_nat i) = p_filesz s (b + of_nat i)" using l [of "i + 32" 8] i o [of _ 32] by (simp add: p_filesz_def load64_def ac_simps)
  show "p_memsz t (a + of_nat i) = p_memsz s (b + of_nat i)" using l [of "i + 40" 8] i o [of _ 40] by (simp add: p_memsz_def load64_def ac_simps)
qed

lemma image_moved:
  fixes s :: "'a machine_scheme" and t :: "'b machine_scheme"
  assumes im: "elf_image s src k n" and same: "same_bytes (mem t) data (mem s) src k"
  shows "e_magic t data = e_magic s src" "e_class t data = e_class s src" "e_phnum t data = e_phnum s src" "e_entry t data = e_entry s src"
    and "e_phoff t data = e_phoff s src"
    and "j < n \<Longrightarrow> load_header t (data + e_phoff s src) j = load_header s (src + e_phoff s src) j"
    and "j < n \<Longrightarrow> seg_start t (ph_at (data + e_phoff s src) (of_nat j)) = seg_start s (ph_at (src + e_phoff s src) (of_nat j))"
    and "j < n \<Longrightarrow> seg_pages t (ph_at (data + e_phoff s src) (of_nat j)) = seg_pages s (ph_at (src + e_phoff s src) (of_nat j))"
    and "j < n \<Longrightarrow> load_header s (src + e_phoff s src) j \<Longrightarrow>
      seg_byte t data (ph_at (data + e_phoff s src) (of_nat j)) = seg_byte s src (ph_at (src + e_phoff s src) (of_nat j))"
    and "j < n \<Longrightarrow> p_offset t (ph_at (data + e_phoff s src) (of_nat j)) = p_offset s (ph_at (src + e_phoff s src) (of_nat j))"
    and "j < n \<Longrightarrow> p_filesz t (ph_at (data + e_phoff s src) (of_nat j)) = p_filesz s (ph_at (src + e_phoff s src) (of_nat j))"
    and "j < n \<Longrightarrow> p_vaddr t (ph_at (data + e_phoff s src) (of_nat j)) = p_vaddr s (ph_at (src + e_phoff s src) (of_nat j))"
    and "j < n \<Longrightarrow> p_memsz t (ph_at (data + e_phoff s src) (of_nat j)) = p_memsz s (ph_at (src + e_phoff s src) (of_nat j))"
proof -
  note l = load_same_bytes [OF same]
  have k: "64 \<le> k" "unat (e_phoff s src) + 56 * n \<le> k" "n < 2 ^ 16"
    using im unsigned_less [of "e_phnum s src", where ?'a = nat] by (simp_all add: elf_image_def)
  show "e_magic t data = e_magic s src" using l [of 0 4] k(1) by (simp add: e_magic_def load32_def)
  show "e_class t data = e_class s src" using same [unfolded same_bytes_def, rule_format, of 4] k(1) by (simp add: e_class_def)
  show "e_phnum t data = e_phnum s src" using l [of 56 2] k(1) by (simp add: e_phnum_def load16_def)
  show "e_entry t data = e_entry s src" using l [of 24 8] k(1) by (simp add: e_entry_def load64_def)
  show "e_phoff t data = e_phoff s src" using l [of 32 8] k(1) by (simp add: e_phoff_def load64_def)
  assume j: "j < n"
  have "unat (e_phoff s src) + 56 * j + 56 \<le> k" using j k(2) by simp
  note h = header_moved [OF same this]
  have p: "ph_at (x + e_phoff s src) (of_nat j) = x + of_nat (unat (e_phoff s src) + 56 * j)" for x using j k(3) by (intro ph_at_nat) simp
  show "load_header t (data + e_phoff s src) j = load_header s (src + e_phoff s src) j" unfolding load_header_def p by (simp only: h)
  show "seg_start t (ph_at (data + e_phoff s src) (of_nat j)) = seg_start s (ph_at (src + e_phoff s src) (of_nat j))"
    "seg_pages t (ph_at (data + e_phoff s src) (of_nat j)) = seg_pages s (ph_at (src + e_phoff s src) (of_nat j))"
    unfolding seg_pages_def seg_start_def seg_end_def p by (simp_all only: h)
  show "p_offset t (ph_at (data + e_phoff s src) (of_nat j)) = p_offset s (ph_at (src + e_phoff s src) (of_nat j))"
    "p_filesz t (ph_at (data + e_phoff s src) (of_nat j)) = p_filesz s (ph_at (src + e_phoff s src) (of_nat j))"
    "p_vaddr t (ph_at (data + e_phoff s src) (of_nat j)) = p_vaddr s (ph_at (src + e_phoff s src) (of_nat j))"
    "p_memsz t (ph_at (data + e_phoff s src) (of_nat j)) = p_memsz s (ph_at (src + e_phoff s src) (of_nat j))"
    unfolding p by (simp_all only: h)
  assume lh: "load_header s (src + e_phoff s src) j"
  let ?p = "ph_at (src + e_phoff s src) (of_nat j)"
  have b: "unat (p_offset s ?p) + unat (p_filesz s ?p) \<le> k" using im j lh by (simp add: elf_image_def Let_def)
  show "seg_byte t data (ph_at (data + e_phoff s src) (of_nat j)) = seg_byte s src ?p"
  proof
    fix x
    have "mem t (data + p_offset s ?p + of_nat x) = mem s (src + p_offset s ?p + of_nat x)" if "x < unat (p_filesz s ?p)"
      using same [unfolded same_bytes_def, rule_format, of "unat (p_offset s ?p) + x"] that b by (simp add: add.assoc)
    then show "seg_byte t data (ph_at (data + e_phoff s src) (of_nat j)) x = seg_byte s src ?p x"
      unfolding seg_byte_def using h(2,4) unfolding p by simp
  qed
qed

lemma image_headers_ok:
  fixes s :: "'a machine_scheme" and t :: "'b pmm_state_scheme"
  assumes im: "elf_image s src k n" and same: "same_bytes (mem t) data (mem s) src k" and un: "\<forall>x. in_range data k x \<longrightarrow> untouched t pm x"
  shows "headers_ok t pm data (data + e_phoff s src) n"
    and "pages_needed t (data + e_phoff s src) 0 n = pages_needed s (src + e_phoff s src) 0 n"
proof -
  note m = image_moved [OF im same]
  let ?ph = "data + e_phoff s src" and ?ps = "src + e_phoff s src"
  have k: "64 \<le> k" "k + 2 ^ 48 + 4096 < 2 ^ 64" "unat (e_phoff s src) + 56 * n \<le> k" "n < 2 ^ 16"
    using im unsigned_less [of "e_phnum s src", where ?'a = nat] by (simp_all add: elf_image_def)
  have sub: "untouched t pm x" if "in_range (data + o') c x" "unat o' + c \<le> k" for o' c x
    using un in_range_sub [OF that(2) _ that(1)] k(2) by simp
  have ph: "untouched t pm x" if "j < n" "in_range (ph_at ?ph (of_nat j)) c x" "c \<le> 56" for j c x
  proof -
    have b: "unat (e_phoff s src) + 56 * j + 56 \<le> k" using that(1) k(3) by simp
    then have "unat (of_nat (unat (e_phoff s src) + 56 * j) :: u64) = unat (e_phoff s src) + 56 * j" using k(2) by (intro unat_of_nat_small) simp
    then show ?thesis using that b k(4) ph_at_nat [of j data] by (intro sub [of "of_nat (unat (e_phoff s src) + 56 * j)" c]) simp_all
  qed
  have seg: "segment_ok t pm data (ph_at ?ph (of_nat j))" if j: "j < n" "load_header s ?ps j" for j
  proof -
    let ?p = "ph_at ?ps (of_nat j)"
    have b: "unat (p_offset s ?p) + unat (p_filesz s ?p) \<le> k" "unat (p_vaddr s ?p) + unat (p_memsz s ?p) + 4096 < 2 ^ 64" "seg_pages s ?p \<le> 2 ^ 36"
      using im j by (simp_all add: elf_image_def Let_def)
    show ?thesis unfolding segment_ok_def m(8,10-13) [OF j(1)]
      using ph [OF j(1), of 56] sub [of "p_offset s ?p" "unat (p_filesz s ?p)"] b k(2) by auto
  qed
  have ap: "segs_apart t (ph_at ?ph (of_nat j)) (ph_at ?ph (of_nat l)) = segs_apart s (ph_at ?ps (of_nat j)) (ph_at ?ps (of_nat l))" if "j < n" "l < n" for j l
    unfolding segs_apart_def seg_covers_def m(7,8) [OF that(1)] m(7,8) [OF that(2)] by (rule refl)
  have "\<forall>x. in_range data 64 x \<longrightarrow> untouched t pm x" using sub [of 0 64] k(1) by simp
  moreover have "\<forall>j<n. (\<forall>x. in_range (ph_at ?ph (of_nat j)) 4 x \<longrightarrow> untouched t pm x) \<and>
      (load_header t ?ph j \<longrightarrow> segment_ok t pm data (ph_at ?ph (of_nat j)))" using ph seg m(6) by fastforce
  moreover have "\<forall>j<n. \<forall>l<n. load_header t ?ph j \<longrightarrow> load_header t ?ph l \<longrightarrow> j \<noteq> l \<longrightarrow>
      segs_apart t (ph_at ?ph (of_nat j)) (ph_at ?ph (of_nat l))" using im m(6) ap by (simp add: elf_image_def)
  ultimately show "headers_ok t pm data ?ph n" unfolding headers_ok_def by blast
  show "pages_needed t ?ph 0 n = pages_needed s ?ps 0 n"
    unfolding pages_needed_def using m(6,8) by (intro arg_cong [where f = sum_list] map_cong) auto
qed

section \<open>The new address space and the process\<close>

lemma new_pagemap_untouched:
  assumes wf: "pagemap_wf s (kernel_pagemap s)" and ne: "free_pages s \<noteq> []" and hh: "HIGHER_HALF s (last (free_pages s)) \<noteq> NULL"
    and r: "vmm_new_pagemap s = (pm, s')" and x: "untouched s (kernel_pagemap s) x"
  shows "untouched s' pm x" and "mem s' x = mem s x"
proof -
  note e = vmm_new_pagemap_entries [OF wf ne hh r] and w = vmm_new_pagemap_walk [OF wf ne hh r]
  have pm: "\<not> in_range pm 4096 x" using x e(1) ne by (simp add: untouched_def)
  then show "mem s' x = mem s x" by (rule e(4))
  have "t = pm \<or> is_table s (kernel_pagemap s) t" if "is_table s' pm t" for t
    using that w(3) by (auto simp: is_table_def split: list.splits if_splits)
  moreover have "HIGHER_HALF s' = HIGHER_HALF s" using e(7) by (simp add: HIGHER_HALF_def fun_eq_iff)
  ultimately show "untouched s' pm x" using x pm e(2) unfolding untouched_def by (metis in_set_butlastD)
qed

lemma keeps_same:
  fixes s t :: "'a pmm_state_scheme"
  assumes "pagemap_wf s pm" and "mem t = mem s" "hhdm_offset t = hhdm_offset s" "stack_pages t = stack_pages s" "stack_idx t = stack_idx s" "stack_max t = stack_max s"
  shows "keeps pm s t" and "virt_to_phys pm v t = virt_to_phys pm v s" and "free_pages t = free_pages s"
  using assms wf_same [OF assms(2-6)] walk_same [OF assms(2,3)] pmm_layout_update [of t s] by (simp_all add: keeps_def)

lemma process_create_contract:
  fixes s :: "'a sched_state_scheme"
  assumes wf: "pagemap_wf s pm" and free: "2 \<le> length (free_pages s)" and hh: "\<forall>p \<in> set (free_pages s). HIGHER_HALF s p \<noteq> NULL"
  shows "\<exists>proc t. process_create entry pm name s = (proc, t) \<and> proc \<noteq> NULL \<and> keeps pm s t \<and> (\<forall>v. virt_to_phys pm v t = virt_to_phys pm v s) \<and>
    pid (proc_mem t proc) = pid_counter s \<and> pstate (proc_mem t proc) = PROCESS_NEW \<and> pagemap (proc_mem t proc) = pm \<and>
    f_rip (ctx (proc_mem t proc)) = entry \<and> sched_state.more t = sched_state.more s"
proof -
  obtain p1 s1 where r1: "pmm_request_page s = (p1, s1)" by fastforce
  have ne: "free_pages s \<noteq> []" using free by (metis list.size(3) not_numeral_le_zero)
  note k1 = keeps_request [OF wf ne r1]
  have HH: "HIGHER_HALF s1 = HIGHER_HALF s" using k1(1) by (rule keeps_HH)
  let ?proc = "HIGHER_HALF s p1"
  have p1: "?proc \<noteq> NULL" using hh k1(4) ne by simp
  define s2 where "s2 = upd_proc ?proc (\<lambda>p. p\<lparr>pstate := PROCESS_NEW, ctx := (ctx p)\<lparr>f_rip := entry\<rparr>\<rparr>)
    ((upd_proc ?proc (\<lambda>p. p\<lparr>pid := pid_counter s1\<rparr>) (upd_proc ?proc (\<lambda>_. zero_process) s1))\<lparr>pid_counter := pid_counter s1 + 1\<rparr>)"
  have f2: "mem s2 = mem s1" "hhdm_offset s2 = hhdm_offset s1" "stack_pages s2 = stack_pages s1" "stack_idx s2 = stack_idx s1" "stack_max s2 = stack_max s1"
    by (simp_all add: s2_def upd_proc_def)
  note k2 = keeps_same [OF keeps_wf [OF k1(1)] f2]
  obtain p3 s3 where r3: "pmm_request_page s2 = (p3, s3)" by fastforce
  have ne2: "free_pages s2 \<noteq> []" using free k1(5) k2(3) by (cases "free_pages s" rule: rev_cases) auto
  note k3 = keeps_request [OF keeps_wf [OF k2(1)] ne2 r3]
  have rsp: "HIGHER_HALF s3 p3 + 4095 \<noteq> 0"
  proof
    assume z: "HIGHER_HALF s3 p3 + 4095 = 0"
    have "page_aligned (HIGHER_HALF s3 p3)" using k3(2) keeps_HH [OF k3(1)] by (simp add: held_def)
    then have "4096 dvd unat (HIGHER_HALF s3 p3)" by (simp add: page_aligned_def)
    moreover have "HIGHER_HALF s3 p3 = - 4095" using z by (simp add: eq_neg_iff_add_eq_0)
    ultimately show False by simp
  qed
  define t where "t = upd_proc ?proc (\<lambda>p. p\<lparr>ctx := (ctx p)\<lparr>f_cs := 0x08, f_ss := 0x10, f_rflags := 0x202\<rparr>, pagemap := pm, pname := name\<rparr>)
    (upd_proc ?proc (\<lambda>p. p\<lparr>ctx := (ctx p)\<lparr>f_rsp := HIGHER_HALF s3 p3 + 4095\<rparr>\<rparr>) s3)"
  have m: "proc_mem s3 = proc_mem s2" "sched_state.more s3 = sched_state.more s2" "proc_mem s1 = proc_mem s" "sched_state.more s1 = sched_state.more s"
    "pid_counter s1 = pid_counter s"
    using pmm_more(1) [of s2] r3 pmm_more(1) [of s] r1 by (cases s, cases s1, cases s2, cases s3, simp)+
  have "process_create entry pm name s = (?proc, t)"
    using r1 r3 p1 k1(6) rsp unfolding process_create_def request_struct_def s2_def t_def by (simp add: Let_def HH upd_proc_def)
  moreover have ft: "mem t = mem s3" "hhdm_offset t = hhdm_offset s3" "stack_pages t = stack_pages s3" "stack_idx t = stack_idx s3" "stack_max t = stack_max s3"
    by (simp_all add: t_def upd_proc_def)
  note kt = keeps_same [OF keeps_wf [OF k3(1)] ft]
  have "keeps pm s t" using keeps_trans [OF keeps_trans [OF k1(1) k2(1)] keeps_trans [OF k3(1) kt(1)]] .
  moreover have "virt_to_phys pm v t = virt_to_phys pm v s" for v using k1(3) k2(2) k3(3) kt(2) by simp
  moreover have "proc_mem s2 ?proc = zero_process\<lparr>pid := pid_counter s, pstate := PROCESS_NEW, ctx := zero_frame\<lparr>f_rip := entry\<rparr>\<rparr>"
    by (simp add: s2_def upd_proc_def m zero_process_def)
  then have "pid (proc_mem t ?proc) = pid_counter s" "pstate (proc_mem t ?proc) = PROCESS_NEW" "pagemap (proc_mem t ?proc) = pm"
    "f_rip (ctx (proc_mem t ?proc)) = entry" by (simp_all add: t_def upd_proc_def m)
  moreover have "sched_state.more t = sched_state.more s" by (simp add: t_def upd_proc_def m s2_def)
  ultimately show ?thesis using p1 by blast
qed

section \<open>The states in which programs are started\<close>

text \<open>The heap is in order, the kernel's address space is well-formed, and the heap lies apart from page tables, free pages and their stack.\<close>

definition system_ok :: "'a file_state_scheme \<Rightarrow> heap_view \<Rightarrow> nat \<Rightarrow> bool" where
  "system_ok s g n \<longleftrightarrow> heap_inv s g n \<and> pagemap_wf s (kernel_pagemap s) \<and> (\<forall>p \<in> set (free_pages s). HIGHER_HALF s p \<noteq> NULL) \<and>
     (\<forall>x. \<not> outside g x \<longrightarrow> untouched s (kernel_pagemap s) x \<and> \<not> stack_area s x)"

lemma core_fields:
  assumes "kernel_core t = kernel_core s"
  shows "hhdm_offset t = hhdm_offset s" "stack_pages t = stack_pages s" "stack_idx t = stack_idx s" "stack_max t = stack_max s"
    "kernel_pagemap t = kernel_pagemap s" "proc_mem t = proc_mem s" "processes t = processes s" "process_count t = process_count s"
    "current_index t = current_index s" "pid_counter t = pid_counter s"
  using assms by (simp_all add: kernel_core_def)

lemma not_taken_inside: "\<not> heap_taken g x \<Longrightarrow> \<not> outside g x"
  using outside_taken by blast

lemma heap_step_space:
  fixes s t :: "'a file_state_scheme"
  assumes sys: "system_ok s g n" and core: "kernel_core t = kernel_core s" and m: "\<forall>x. heap_taken g x \<longrightarrow> mem t x = mem s x"
    and k: "heap_kept (mem s) g m' g'" and inv: "heap_inv t g' n'"
  shows "same_space (kernel_pagemap s) s t" and "system_ok t g' n'"
proof -
  note c = core_fields [OF core]
  have wf: "pagemap_wf s (kernel_pagemap s)" using sys by (simp add: system_ok_def)
  have "mem t x = mem s x" if "\<not> untouched s (kernel_pagemap s) x \<or> stack_area s x" for x
    using that sys m not_taken_inside [of g x] by (auto simp: system_ok_def)
  from space_write [OF wf this c(2,4,1,3)] show ss: "same_space (kernel_pagemap s) s t" by blast
  have HH: "HIGHER_HALF t = HIGHER_HALF s" using c(1) by (simp add: HIGHER_HALF_def fun_eq_iff)
  show "system_ok t g' n'"
    using sys inv ss outside_kept [OF k] unfolding system_ok_def same_space_def c(5) HH by metis
qed

lemma permission_vnodes: "vnodes t = vnodes s \<Longrightarrow> hvfs_permission_check node uid p t = hvfs_permission_check node uid p s"
  by (simp add: hvfs_permission_check_def)

lemma program_read:
  fixes s :: "'a file_state_scheme"
  assumes sys: "system_ok s g n" and n: "length cs + 169 \<le> n" "k + 168 \<le> n" and paths: "vfs_paths s g F"
    and path: "path \<noteq> NULL" "string_at (mem s) (heap_taken g) path cs" and slash: "string_at (mem s) (heap_taken g) (lit ''/'') [0x2F]"
    and node: "F (tokens cs) = node" "node \<noteq> NULL" "vn_type (vnodes s node) = VNODE_FILE" "unat (vn_size (vnodes s node)) = k"
      "hvfs_permission_check node 0 VNODE_PERMS_OWNER_READ s"
    and spare: "spare 2 g" and src: "src = vn_data (vnodes s node)" "\<forall>x. in_range src k x \<longrightarrow> heap_taken g x"
  shows "\<exists>fd s1 data s2 r s3 g2. open_file lit path READ_ONLY s = Some (fd, s1) \<and> fd \<noteq> NULL \<and> file_vnode (files s1 fd) = node \<and>
    files s2 = files s1 \<and> vnodes s1 = vnodes s \<and> vnodes s2 = vnodes s \<and> kmalloc (vn_size (vnodes s node)) s1 = Some (data, s2) \<and>
    read_file fd data (vn_size (vnodes s node)) s2 = (r, s3) \<and>
    same_space (kernel_pagemap s) s s3 \<and> system_ok s3 g2 (n - (k + 168)) \<and> same_bytes (mem s3) data (mem s) src k \<and>
    (\<forall>x. in_range data k x \<longrightarrow> \<not> outside g2 x) \<and> heap_ptr g2 (mem s3) fd 24 \<and> spare 2 g2 \<and> kernel_core s3 = kernel_core s"
proof -
  have inv: "heap_inv s g n" using sys by (simp add: system_ok_def)
  have ro: "READ_ONLY AND CREATE = 0" "F (tokens cs) \<noteq> NULL" using node by simp_all
  obtain fd s1 g1 where o: "open_file lit path READ_ONLY s = Some (fd, s1)" "fd \<noteq> NULL" "heap_inv s1 g1 (n - 96)" "vnodes s1 = vnodes s"
    "kept (mem s) (heap_taken g) (mem s1) (heap_taken g1)" "heap_owns s1 g1 fd 24 g" "kernel_core s1 = kernel_core s"
    "files s1 = (files s)(fd := \<lparr>file_fd = 0, file_uid = 0, file_vnode = F (tokens cs), file_mode = READ_ONLY\<rparr>)"
    using open_file_contract(2) [where lit = lit, OF inv n(1) paths path slash ro] by blast
  have hk1: "heap_kept (mem s) g (mem s1) g1" using o(5,6) by (intro heap_owns_kept) (auto simp: kept_def dest: in_heap_taken)
  have m1: "\<forall>x. heap_taken g x \<longrightarrow> mem s1 x = mem s x" using o(5) by (simp add: kept_def)
  note sp1 = heap_step_space [OF sys o(7) m1 hk1 o(3)]
  have nk: "unat (vn_size (vnodes s node)) + 72 \<le> n - 96" "n - 96 - (k + 72) = n - (k + 168)" using n(2) node(4) by simp_all
  obtain data s2 g2 where a: "kmalloc (vn_size (vnodes s node)) s1 = Some (data, s2)" "heap_inv s2 g2 (n - (k + 168))" "heap_owns s2 g2 data k g1"
    "\<forall>x. in_range data k x \<longrightarrow> \<not> heap_taken g1 x" "kept (mem s1) (heap_taken g1) (mem s2) (heap_taken g2)" "heap_frame s1 s2"
    using kmalloc_allocates [OF o(3) nk(1)] unfolding node(4) nk(2) by blast
  have v2: "vnodes s2 = vnodes s" "files s2 = files s1" using heap_frame_vfs [OF a(6)] heap_frame_files [OF a(6)] o(4) by simp_all
  have srcg1: "heap_taken g1 x" if "in_range src k x" for x using o(5) src(2) that by (simp add: kept_def)
  have dr: "disjoint_ranges data (unat (vn_size (vnodes s node))) src (unat (vn_size (vnodes s node)))"
    using a(4) srcg1 unfolding disjoint_ranges_def node(4) by blast
  let ?m = "fst (memcpy (mem s2) data src (vn_size (vnodes s node)))"
  define s3 where "s3 = s2\<lparr>mem := ?m\<rparr>"
  have perm: "hvfs_permission_check node 0 VNODE_PERMS_OWNER_READ s2" using node(5) permission_vnodes [OF v2(1)] by simp
  have rd: "read_file fd data (vn_size (vnodes s node)) s2 = (ucast (vn_size (vnodes s node)), s3)"
    using o(2,8) node perm src(1) unfolding read_file_def s3_def by (simp add: v2 Let_def)
  have m3: "mem s3 x = mem s2 x" if "\<not> in_range data k x" for x
    using that unfolding s3_def by (simp add: memcpy_apply [OF dr] node(4))
  have own3: "heap_owns s3 g2 data k g1" using heap_owns_set_mem [OF a(3)] m3 unfolding s3_def by simp
  have m13: "\<forall>x. heap_taken g1 x \<longrightarrow> mem s3 x = mem s1 x" using m3 a(4,5) unfolding kept_def by metis
  have hk3: "heap_kept (mem s1) g1 (mem s3) g2" using m13 by (intro heap_owns_kept [OF own3]) (auto dest: in_heap_taken)
  have core3: "kernel_core s3 = kernel_core s1" using heap_frame_core [OF a(6)] by (simp add: s3_def kernel_core_def)
  have inv3: "heap_inv s3 g2 (n - (k + 168))" using a(2) by (simp add: s3_def)
  note sp3 = heap_step_space [OF sp1(2) core3 m13 hk3 inv3]
  have bytes: "same_bytes (mem s3) data (mem s) src k"
    unfolding same_bytes_def
  proof (intro allI impI)
    fix i
    assume i: "i < k"
    have ui: "unat (of_nat i :: u64) = i" using i node(4) unat_u64_less [of "vn_size (vnodes s node)"] by (intro unat_of_nat_small) simp
    then have r: "in_range data k (data + of_nat i)" "in_range src k (src + of_nat i)" using i by (simp_all add: in_range_def)
    have "mem s3 (data + of_nat i) = mem s2 (src + of_nat i)" using r(1) unfolding s3_def by (simp add: memcpy_apply [OF dr] node(4))
    also have "\<dots> = mem s (src + of_nat i)" using r(2) src(2) o(5) a(5) by (simp add: kept_def)
    finally show "mem s3 (data + of_nat i) = mem s (src + of_nat i)" .
  qed
  have ins: "\<not> outside g2 x" if "in_range data k x" for x
    using outside_not_in_heap [OF inv3] heap_owns_in_heap [OF own3 that] by blast
  have ptr: "heap_ptr g2 (mem s3) fd 24" using heap_ptr_kept [OF heap_owns_ptr [OF o(6)] hk3] .
  have sp: "spare 2 g2" using spare_kept [OF hk3 spare_kept [OF hk1 spare]] .
  have ss: "same_space (kernel_pagemap s) s s3" using same_space_trans [OF sp1(1)] sp3(1) core_fields(5) [OF o(7)] by simp
  show ?thesis
    using o(1,2,4,8) node(1) a(1) v2 rd ss sp3(2) bytes ins ptr sp core3 o(7) by (intro exI conjI) (assumption | simp)+
qed

section \<open>Properties\<close>

lemma heap_bytes_kept:
  assumes sys: "system_ok s g n" and wf: "pagemap_wf s (kernel_pagemap s)" and ne: "free_pages s \<noteq> []"
    and hh: "HIGHER_HALF s (last (free_pages s)) \<noteq> NULL" and r: "vmm_new_pagemap s = (pm, s1)" and k: "keeps pm s1 t" and x: "\<not> outside g x"
  shows "mem t x = mem s x"
proof -
  have "untouched s (kernel_pagemap s) x" using sys x by (simp add: system_ok_def)
  from new_pagemap_untouched [OF wf ne hh r this] keeps_mem [OF k] show ?thesis by simp
qed

lemma close_after:
  fixes s t :: "'a file_state_scheme"
  assumes inv: "heap_inv s g n" and ptr: "heap_ptr g (mem s) fd 24" and spare: "spare 2 g" and fd: "fd \<noteq> NULL"
    and inv_t: "heap_inv t g n" and m: "\<And>x. \<not> outside g x \<Longrightarrow> mem t x = mem s x"
  shows "\<exists>u. close fd t = Some (0, u) \<and> mem u = mem t \<and> kernel_core u = kernel_core t"
proof -
  have "heap_kept (mem s) g (mem t) g" using m outside_not_in_heap [OF inv] by (intro heap_kept_mem) blast
  then have "heap_ptr g (mem t) fd 24" by (rule heap_ptr_kept [OF ptr])
  then obtain h where "heap_owns t g fd 24 h" using heap_ptr_owns [OF inv_t _ spare] by blast
  from kfree_releases [OF inv_t this] obtain u where "kfree fd t = Some u" "mem u = mem t" "heap_frame t u" by blast
  then show ?thesis using fd heap_frame_core by (auto simp: close_def)
qed

lemma sched_more_heap:
  fixes s t :: "'a file_state_scheme"
  assumes "sched_state.more t = sched_state.more s"
  shows "heap_inv t g n = heap_inv s g n"
  using assms by (intro heap_inv_cong) (cases s, cases t, simp)+


text \<open>
  A machine for the witness: the address space and free pages that initialisation leaves, a heap of one block with three
  allocations, a file system whose root is a file, and the image of a program of 120 bytes at address 327680.
\<close>

definition program_memory :: memory where
  "program_memory = (\<lambda>_. 0)(0x10 := 0x2F, 0x100050 := 0x10, 0x100230 := 0x18, 0x100240 := 0x2F,
     0x50000 := 0x7F, 0x50001 := 0x45, 0x50002 := 0x4C, 0x50003 := 0x46, 0x50004 := 2, 0x5001A := 0x40, 0x50020 := 64, 0x50038 := 1,
     0x50040 := 1, 0x50044 := 5, 0x50052 := 0x40, 0x50060 := 32, 0x50068 := 64)"

definition program_state :: "'a file_state_scheme \<Rightarrow> 'a file_state_scheme" where
  "program_state s = (let m = \<lparr>min_prev = NULL, min_next = NULL, min_block = 0x100000, min_magic = LIBALLOC_MAGIC, min_size = 200, min_req_size = 160\<rparr>
     in s\<lparr>majors := (\<lambda>_. \<lparr>maj_prev = NULL, maj_next = NULL, maj_pages = 16, maj_size = 65536, maj_usage = 760, maj_first = 0x100028\<rparr>),
          minors := (\<lambda>_. m)(0x100028 := m\<lparr>min_next := 0x100200\<rparr>, 0x100200 := m\<lparr>min_prev := 0x100028, min_next := 0x100400\<rparr>,
            0x100400 := m\<lparr>min_prev := 0x100200\<rparr>),
          l_memRoot := 0x100000, l_bestBet := NULL, liballoc_lock_var := False, g_vfs_root := 0x100060,
          vnodes := (\<lambda>v. (vnodes s v)\<lparr>vn_parent := NULL, vn_next := NULL, vn_child := NULL, vn_type := VNODE_FILE, vn_permissions := 0x557,
            vn_name := 0x100240, vn_uid := 0, vn_size := 120, vn_data := 0x50000\<rparr>),
          process_count := 0, mem := (\<lambda>x. if unat x < 0x200000 then program_memory x else mem s x)\<rparr>)"

abbreviation (input) program_view :: heap_view where
  "program_view \<equiv> [(0x100000, 0x110000, [(0x100028, 240), (0x100200, 240), (0x100400, 240)])]"

lemma program_heap: "heap_inv (program_state s) program_view 1000" "spare 2 program_view"
proof -
  have "heap_wf (program_state s) [(0x100000, [0x100028, 0x100200, 0x100400])]"
    by (simp add: program_state_def Let_def heap_wf_def block_ok_def block_end_def area_of_def)
  then show "heap_inv (program_state s) program_view 1000"
    by (auto simp: heap_inv_def view_room_def program_state_def Let_def block_view_def block_end_def area_of_def
        intro!: exI [of _ "[(0x100000, [0x100028, 0x100200, 0x100400])]"])
  show "spare 2 program_view" by (simp add: spare_def)
qed

lemma program_memory_low: "unat x < 0x200000 \<Longrightarrow> mem (program_state s) x = program_memory x"
  by (simp add: program_state_def Let_def)

lemma program_paths: "vfs_paths (program_state s) program_view ((\<lambda>_. NULL)([] := 0x100060))"
proof -
  have root: "g_vfs_root (program_state s) = 0x100060" "vn_parent (vnodes (program_state s) 0x100060) = NULL"
    "vn_child (vnodes (program_state s) 0x100060) = NULL" "vn_name (vnodes (program_state s) 0x100060) = 0x100240"
    by (simp_all add: program_state_def Let_def)
  have ptr: "heap_ptr program_view (mem (program_state s)) 0x100060 80" "heap_ptr program_view (mem (program_state s)) 0x100240 (Suc (Suc 0))"
    by (auto simp: heap_ptr_def program_state_def Let_def program_memory_def)
  have nm: "cstr (mem (program_state s)) 0x100240 [0x2F]" by (simp add: program_state_def Let_def program_memory_def)
  have tree: "vfs_tree (program_state s) program_view {0x100060} (\<lambda>_. []) (\<lambda>_. [0x2F])"
    using root ptr nm by (simp add: vfs_tree_def)
  have F: "walk (\<lambda>_. []) (\<lambda>_. [0x2F]) 0x100060 = (\<lambda>_. NULL)([] := 0x100060)"
  proof
    show "walk (\<lambda>_. []) (\<lambda>_. [0x2F]) 0x100060 p = ((\<lambda>_. NULL)([] := 0x100060)) p" for p by (cases p) simp_all
  qed
  have r: "range ((\<lambda>_ :: u8 list list. NULL)([] := 0x100060)) - {NULL} = {0x100060}" by (auto simp: fun_upd_def)
  have "\<exists>kids nm. vfs_tree (program_state s) program_view {0x100060} kids nm \<and> (\<lambda>_. NULL)([] := 0x100060) = walk kids nm 0x100060"
    by (rule exI, rule exI, rule conjI, rule tree, rule F [symmetric])
  then show ?thesis unfolding vfs_paths_def root(1) r by (simp add: root(2))
qed

lemma program_fields:
  "e_magic (program_state s) 0x50000 = ELF_MAGIC" "e_class (program_state s) 0x50000 = 2" "e_phnum (program_state s) 0x50000 = 1"
  "e_entry (program_state s) 0x50000 = 0x400000" "e_phoff (program_state s) 0x50000 = 64" "p_type (program_state s) 0x50040 = 1"
  "p_offset (program_state s) 0x50040 = 0" "p_vaddr (program_state s) 0x50040 = 0x400000" "p_filesz (program_state s) 0x50040 = 32"
  "p_memsz (program_state s) 0x50040 = 64"
proof -
  note m = program_memory_low program_memory_def
  have l16: "load16 m a = ucast (m a) OR push_bit 8 (ucast (m (a + 1)))" for m a by (simp add: load16_def eval_nat_numeral)
  show "e_magic (program_state s) 0x50000 = ELF_MAGIC" by (simp add: e_magic_def load32_bytes m)
  show "e_class (program_state s) 0x50000 = 2" by (simp add: e_class_def m)
  show "e_phnum (program_state s) 0x50000 = 1" by (simp add: e_phnum_def l16 m)
  show "e_entry (program_state s) 0x50000 = 0x400000" by (simp add: e_entry_def load64_bytes m)
  show "e_phoff (program_state s) 0x50000 = 64" by (simp add: e_phoff_def load64_bytes m)
  show "p_type (program_state s) 0x50040 = 1" by (simp add: p_type_def load32_bytes m)
  show "p_offset (program_state s) 0x50040 = 0" by (simp add: p_offset_def load64_bytes m)
  show "p_vaddr (program_state s) 0x50040 = 0x400000" by (simp add: p_vaddr_def load64_bytes m)
  show "p_filesz (program_state s) 0x50040 = 32" by (simp add: p_filesz_def load64_bytes m)
  show "p_memsz (program_state s) 0x50040 = 64" by (simp add: p_memsz_def load64_bytes m)
qed

lemma program_image: "elf_image (program_state s) 0x50000 120 1" "pages_needed (program_state s) (0x50000 + e_phoff (program_state s) 0x50000) 0 1 = 1"
proof -
  have p: "ph_at 0x50040 0 = 0x50040" by (simp add: ph_at_def)
  have "seg_start (program_state s) 0x50040 = 0x400000" "seg_end (program_state s) 0x50040 = 0x401000"
    by (simp_all add: seg_start_def seg_end_def program_fields ALIGN_DOWN_def ALIGN_UP_def DIV_ROUND_UP_def)
  then have "seg_pages (program_state s) 0x50040 = 1" by (simp add: seg_pages_def)
  then show "elf_image (program_state s) 0x50000 120 1" "pages_needed (program_state s) (0x50000 + e_phoff (program_state s) 0x50000) 0 1 = 1"
    by (simp_all add: elf_image_def pages_needed_def load_header_def program_fields p Let_def)
qed

lemma program_system:
  fixes s :: "'a file_state_scheme"
  assumes wf: "pagemap_wf s (kernel_pagemap s)" and hh: "\<forall>f \<in> set (free_pages s). HIGHER_HALF s f \<noteq> NULL"
    and high: "\<forall>x. \<not> untouched s (kernel_pagemap s) x \<or> stack_area s x \<longrightarrow> 0xFFFF800000000000 \<le> unat x"
  shows "system_ok (program_state s) program_view 1000" and "free_pages (program_state s) = free_pages s"
proof -
  let ?t = "program_state s"
  have f: "stack_pages ?t = stack_pages s" "stack_max ?t = stack_max s" "hhdm_offset ?t = hhdm_offset s" "stack_idx ?t = stack_idx s"
    "kernel_pagemap ?t = kernel_pagemap s" by (simp_all add: program_state_def Let_def)
  have "mem ?t x = mem s x" if "\<not> untouched s (kernel_pagemap s) x \<or> stack_area s x" for x
    using high that by (auto simp: program_state_def Let_def)
  from space_write [OF wf this f(1-4)] have ss: "same_space (kernel_pagemap s) s ?t" by blast
  then show fp: "free_pages ?t = free_pages s" by (simp add: same_space_def)
  have "untouched s (kernel_pagemap s) x \<and> \<not> stack_area s x" if "\<not> outside program_view x" for x
    using that high by (force simp: outside_def)
  moreover have "HIGHER_HALF ?t = HIGHER_HALF s" using f(3) by (simp add: HIGHER_HALF_def fun_eq_iff)
  ultimately show "system_ok ?t program_view 1000"
    using program_heap(1) [of s] ss hh fp by (simp add: system_ok_def same_space_def f(5))
qed

end
