(* ===== verification/Boot.thy ===== *)
theory Boot
  imports SelfTest VmmInit Process Picture UserProgram
begin

text \<open>
  The entry point \<open>sys_entry\<close> of \<^verbatim>\<open>kernel/src/main.c\<close>: the order in which the components are initialised, the checks between them,
  and the halt when a check fails. What the boot loader and the linker provide (the answers to the requests, the addresses of
  tables, of string literals and of the device handles), the terminal and the formatter are the argument \<open>boot_info\<close>. Log output
  is left out, the banner is not.
\<close>

unbundle bit_operations_syntax

section \<open>What the boot loader and the linker provide\<close>

text \<open>
  The answer to the frame buffer request is None for a missing response, \<open>Some None\<close> for a response without a frame buffer;
  \<open>banner\<close> is what the formatter makes of the lines printed at the start.
\<close>

record boot_info =
  base_revision_supported :: bool
  framebuffer_response :: "limine_framebuffer option option"
  flanterm_fb_init :: "limine_framebuffer \<Rightarrow> u64"
  banner :: "(int \<times> (nat \<Rightarrow> u8)) list"
  gdt_address :: u64
  idt_address :: u64
  isr_addresses :: "nat \<Rightarrow> u64"
  hhdm_response :: u64
  memmap_usable :: u64
  memmap_response :: "memmap_entry list"
  kernel_addresses :: kernel_layout
  module_address :: u64
  module_size :: u64
  literals :: "string \<Rightarrow> u64"
  stdout_handle :: u64
  stdin_handle :: u64

record boot_state = ramfs_state +
  kernel_framebuffer :: "limine_framebuffer option"
  ft_ctx :: u64

section \<open>Outcomes\<close>

text \<open>The kernel waits for ever in a call, halts after an error with interrupts disabled, or goes on.\<close>

datatype boot_error =
  Unsupported_revision | No_framebuffer | No_terminal | Gdt_failed | Idt_failed | Pmm_failed | Vmm_failed | Vfs_failed

datatype 's boot = Hangs | Halts boot_error 's | Goes_on 's

primrec boot_bind :: "'s boot \<Rightarrow> ('s \<Rightarrow> 's boot) \<Rightarrow> 's boot" where
  "boot_bind Hangs f = Hangs"
| "boot_bind (Halts e s) f = Halts e s"
| "boot_bind (Goes_on s) f = f s"

definition halt_if :: "bool \<Rightarrow> boot_error \<Rightarrow> 'a machine_scheme \<Rightarrow> 'a machine_scheme boot" where
  "halt_if failed e s = (if failed then Halts e (cli s) else Goes_on s)"

section \<open>The stages of \<open>sys_entry\<close>\<close>

definition boot_console :: "boot_info \<Rightarrow> 'a boot_state_scheme \<Rightarrow> 'a boot_state_scheme boot" where
  "boot_console b s =
     (let s = s\<lparr>stdout_port := 0xE9, putchar_impl := Serial_putchar\<rparr>
      in boot_bind (halt_if (\<not> base_revision_supported b) Unsupported_revision s)
           (\<lambda>s. let (port, s) = serial_get_new s in Goes_on (s\<lparr>stdout_port := port\<rparr>)))"

definition boot_graphics :: "boot_info \<Rightarrow> 'a boot_state_scheme \<Rightarrow> 'a boot_state_scheme boot" where
  "boot_graphics b s =
     (case framebuffer_response b of
        None \<Rightarrow> Halts No_framebuffer (cli s)
      | Some None \<Rightarrow> Halts No_framebuffer (cli s)
      | Some (Some framebuffer) \<Rightarrow>
          let s = s\<lparr>kernel_framebuffer := Some framebuffer\<rparr>;
              s = s\<lparr>ft_ctx := flanterm_fb_init b framebuffer\<rparr>
          in boot_bind (halt_if (ft_ctx s = NULL) No_terminal s)
               (\<lambda>s. Goes_on (snd (rtc_init (s\<lparr>putchar_impl := Serial_putchar\<rparr>)))))"

primrec print_lines :: "(int \<times> (nat \<Rightarrow> u8)) list \<Rightarrow> 'a boot_state_scheme \<Rightarrow> 'a boot_state_scheme boot" where
  "print_lines [] s = Goes_on s"
| "print_lines (npf # npfs) s = (case printf npf s of None \<Rightarrow> Hangs | Some (_, s) \<Rightarrow> print_lines npfs s)"

definition boot_tables :: "boot_info \<Rightarrow> 'a boot_state_scheme \<Rightarrow> 'a boot_state_scheme boot" where
  "boot_tables b s =
     (let (r, s) = gdt_init (gdt_address b) s;
          gdt_error_count = (if r \<noteq> 0 then 1 else 0 :: int)
      in boot_bind (halt_if (gdt_error_count > 0) Gdt_failed s)
           (\<lambda>s. let (r, s) = idt_init (idt_address b) (isr_addresses b) s;
                    idt_error_count = (if r \<noteq> 0 then 1 else 0 :: int);
                    (r, s) = pic_init s;
                    idt_error_count = (if r \<noteq> 0 then idt_error_count + 1 else idt_error_count)
                in halt_if (idt_error_count > 0) Idt_failed s))"

definition boot_pages :: "boot_info \<Rightarrow> 'a boot_state_scheme \<Rightarrow> 'a boot_state_scheme boot" where
  "boot_pages b s =
     (let s = s\<lparr>hhdm_offset := hhdm_response b\<rparr>
      in case pmm_init (memmap_usable b) (memmap_response b) s of
           None \<Rightarrow> Hangs
         | Some (r, _, s) \<Rightarrow>
             let pmm_error_count = (if r \<noteq> 0 then 1 else 0 :: int);
                 (r, s) = test_pmm 10 s;
                 pmm_error_count = (if r \<noteq> 0 then pmm_error_count + 1 else pmm_error_count)
             in halt_if (pmm_error_count > 0) Pmm_failed s)"

definition boot_mappings :: "boot_info \<Rightarrow> 'a boot_state_scheme \<Rightarrow> 'a boot_state_scheme boot" where
  "boot_mappings b s =
     (case vmm_init (kernel_addresses b) s of
        None \<Rightarrow> Hangs
      | Some (r, s) \<Rightarrow>
          let vmm_error_count = (if r \<noteq> 0 then 1 else 0 :: int);
              (c, s) = vma_create_context (kernel_pagemap s) s;
              vmm_error_count = (if c = NULL then vmm_error_count + 1 else vmm_error_count)
          in case test_vmm 10 c s of
               None \<Rightarrow> Hangs
             | Some (_, s) \<Rightarrow> halt_if (vmm_error_count > 0) Vmm_failed (s\<lparr>kernel_vma_context := c\<rparr>))"

definition boot_files :: "boot_info \<Rightarrow> 'a boot_state_scheme \<Rightarrow> 'a boot_state_scheme boot" where
  "boot_files b s =
     (case vfs_init (literals b) s of
        None \<Rightarrow> Hangs
      | Some (r, s) \<Rightarrow>
          let vfs_error_count = (if r \<noteq> 0 then 1 else 0 :: int)
          in case ramfs_init (literals b) (module_address b) (module_size b) s of
               None \<Rightarrow> Hangs
             | Some (r, s) \<Rightarrow>
                 let vfs_error_count = (if r \<noteq> 0 then vfs_error_count + 1 else vfs_error_count)
                 in halt_if (vfs_error_count > 0) Vfs_failed s)"

definition boot_devices_init :: "boot_info \<Rightarrow> 'a boot_state_scheme \<Rightarrow> 'a boot_state_scheme" where
  "boot_devices_init b s =
     (let s = pic_unmask 1 s;
          s = stdout_init (stdout_handle b) s;
          (_, s) = device_register (stdout_handle b) s;
          s = stdin_init (stdin_handle b) s;
          (_, s) = device_register (stdin_handle b) s;
          s = scheduler_init s
      in timer_init 100 s)"

definition boot_init_process :: "boot_info \<Rightarrow> 'a boot_state_scheme \<Rightarrow> 'a boot_state_scheme boot" where
  "boot_init_process b s =
     (case scheduler_create_elf_process (literals b) (literals b ''/bin/init'') (literals b ''Init'') s of
        None \<Rightarrow> Hangs
      | Some (_, s) \<Rightarrow> Goes_on s)"

text \<open>When all stages have gone on, the kernel idles in \<open>hlt\<close> and everything else happens in interrupts.\<close>

definition sys_entry :: "boot_info \<Rightarrow> 'a boot_state_scheme \<Rightarrow> 'a boot_state_scheme boot" where
  "sys_entry b s =
     boot_bind (boot_console b s) (\<lambda>s.
     boot_bind (boot_graphics b s) (\<lambda>s.
     boot_bind (print_lines (banner b) s) (\<lambda>s.
     boot_bind (boot_tables b s) (\<lambda>s.
     boot_bind (boot_pages b s) (\<lambda>s.
     boot_bind (boot_mappings b s) (\<lambda>s.
     boot_bind (boot_files b s) (\<lambda>s.
     boot_init_process b (boot_devices_init b s))))))))"

section \<open>What the early stages leave alone\<close>

text \<open>The variables that later stages find as they were initialised.\<close>

definition boot_vars :: "'a heap_state_scheme \<Rightarrow> memory \<times> u64 \<times> u64 \<times> u64 \<times> spinlock_t \<times> u64 list" where
  "boot_vars s = (mem s, stack_idx s, l_memRoot s, l_bestBet s, liballoc_lock_var s, devices s)"

lemma boot_vars_io [simp]:
  "boot_vars (outb p v s) = boot_vars s" "boot_vars (snd (inb p s)) = boot_vars s" "boot_vars (io_wait s) = boot_vars s"
  "boot_vars (cli s) = boot_vars s" "boot_vars (sti s) = boot_vars s"
  by (simp_all add: boot_vars_def outb_def inb_def io_wait_def cli_def sti_def Let_def)

lemma boot_vars_update [simp]:
  "boot_vars (s\<lparr>stdout_port := port\<rparr>) = boot_vars s" "boot_vars (s\<lparr>putchar_impl := f\<rparr>) = boot_vars s"
  "boot_vars (s\<lparr>stdout_lock := l\<rparr>) = boot_vars s" "boot_vars (s\<lparr>bcd_var := v\<rparr>) = boot_vars s"
  "boot_vars (s\<lparr>pic_mask_var := m\<rparr>) = boot_vars s" "boot_vars (s\<lparr>ft_out := out\<rparr>) = boot_vars s"
  by (simp_all add: boot_vars_def)

lemma boot_vars_serial [simp]:
  "boot_vars (snd (init_serial p s)) = boot_vars s" "boot_vars (snd (serial_probe ps s)) = boot_vars s"
proof -
  show i: "boot_vars (snd (init_serial p s)) = boot_vars s" for p and s :: "'a heap_state_scheme"
    by (simp add: init_serial_def Let_def split_beta)
  show "boot_vars (snd (serial_probe ps s)) = boot_vars s"
    by (induction ps arbitrary: s) (simp_all add: Let_def split_beta i)
qed

lemma boot_vars_rtc [simp]: "boot_vars (snd (rtc_init s)) = boot_vars s"
  by (simp add: rtc_init_def read_register_def write_register_def Let_def split_beta)

lemma boot_vars_print [simp]:
  "boot_vars (snd (putchar c s)) = boot_vars s" "boot_vars (snd (vfprintf npf s)) = boot_vars s"
proof -
  show p: "boot_vars (snd (putchar c s)) = boot_vars s" for c and s :: "'a heap_state_scheme"
    by (simp add: putchar_def serial_putchar_def flanterm_putchar_def mirror_putchar_def Let_def split: putchar_fn.splits)
  have "boot_vars (fold (\<lambda>i s. snd (putchar (f i) s)) is s) = boot_vars s" for f :: "nat \<Rightarrow> u8" and "is" and s :: "'a heap_state_scheme"
    by (induction "is" arbitrary: s) (simp_all add: p)
  then show "boot_vars (snd (vfprintf npf s)) = boot_vars s" by (simp add: vfprintf_def split: prod.splits)
qed

lemma vfprintf_lock [simp]: "stdout_lock (snd (vfprintf npf s)) = stdout_lock s"
proof -
  have "stdout_lock (fold (\<lambda>i s. snd (putchar (f i) s)) is s) = stdout_lock s" for f :: "nat \<Rightarrow> u8" and "is" and s :: "'a console_state_scheme"
    by (induction "is" arbitrary: s) simp_all
  then show ?thesis by (simp add: vfprintf_def split: prod.splits)
qed

lemma boot_vars_pic [simp]:
  "boot_vars (pic_set_mask m s) = boot_vars s" "boot_vars (pic_configure a b e s) = boot_vars s" "boot_vars (snd (pic_init s)) = boot_vars s"
proof -
  show m: "boot_vars (pic_set_mask m s) = boot_vars s" for m and s :: "'a heap_state_scheme" by (simp add: pic_set_mask_def Let_def)
  show c: "boot_vars (pic_configure a b e s) = boot_vars s" for a b e and s :: "'a heap_state_scheme" by (simp add: pic_configure_def m Let_def)
  have "boot_vars (fold pic_mask is s) = boot_vars s" for "is" and s :: "'a heap_state_scheme"
    by (induction "is" arbitrary: s) (simp_all add: pic_mask_def m)
  then show "boot_vars (snd (pic_init s)) = boot_vars s" by (simp add: pic_init_def c)
qed

section \<open>The stages before memory\<close>

lemma boot_console_goes_on:
  assumes "base_revision_supported b"
  shows "\<exists>t. boot_console b s = Goes_on t \<and> boot_vars t = boot_vars s \<and> stdout_lock t = stdout_lock s"
proof -
  have l: "stdout_lock (snd (serial_probe ps u)) = stdout_lock u" for ps and u :: "'a boot_state_scheme"
    by (induction ps arbitrary: u) (simp_all add: init_serial_def inb_def Let_def split_beta)
  show ?thesis using assms by (simp add: boot_console_def halt_if_def serial_get_new_def Let_def split_beta l)
qed

lemma boot_graphics_goes_on:
  assumes "framebuffer_response b = Some (Some fb)" and "flanterm_fb_init b fb \<noteq> NULL"
  shows "\<exists>t. boot_graphics b s = Goes_on t \<and> boot_vars t = boot_vars s \<and> stdout_lock t = stdout_lock s \<and>
    kernel_framebuffer t = Some fb"
proof -
  have "boot_vars (s\<lparr>kernel_framebuffer := x, ft_ctx := y, putchar_impl := f\<rparr>) = boot_vars s" for x y f by (simp add: boot_vars_def)
  moreover have "stdout_lock (snd (rtc_init u)) = stdout_lock u" "kernel_framebuffer (snd (rtc_init u)) = kernel_framebuffer u" for u :: "'a boot_state_scheme"
    by (simp_all add: rtc_init_def read_register_def write_register_def inb_def outb_def cli_def sti_def Let_def)
  ultimately show ?thesis using assms by (simp add: boot_graphics_def halt_if_def Let_def)
qed

lemma print_lines_goes_on:
  "\<not> stdout_lock s \<Longrightarrow> \<exists>t. print_lines npfs s = Goes_on t \<and> boot_vars t = boot_vars s \<and> \<not> stdout_lock t"
proof (induction npfs arbitrary: s)
  case (Cons npf npfs)
  let ?u = "s\<lparr>stdout_lock := True\<rparr>"
  let ?t = "(snd (vfprintf npf ?u))\<lparr>stdout_lock := False\<rparr>"
  have "printf npf s = Some (fst (vfprintf npf ?u), ?t)"
    using Cons.prems by (simp add: printf_def vprintf_def lock_stdout_simps unlock_stdout_def spinlock_release_def split_beta Let_def)
  moreover have "boot_vars ?t = boot_vars s" by simp
  ultimately show ?case using Cons.IH [of ?t] by simp
qed simp

lemma pic_init_handlers [simp]: "irq_handlers (snd (pic_init s)) = irq_handlers s"
proof -
  have "irq_handlers (fold pic_mask is s) = irq_handlers s" for "is" and s :: "'a desc_state_scheme"
    by (induction "is" arbitrary: s) (simp_all add: pic_mask_def)
  then show ?thesis by (simp add: pic_init_def)
qed

lemma boot_tables_goes_on:
  "\<exists>t. boot_tables b s = Goes_on t \<and> boot_vars t = boot_vars s \<and> irq_handlers t = replicate IRQ_COUNT None \<and> pic_mask_var t = 0xFFFF"
proof -
  let ?u = "snd (gdt_init (gdt_address b) s)"
  let ?v = "snd (idt_init (idt_address b) (isr_addresses b) ?u)"
  have g: "gdt_init (gdt_address b) s = (0, ?u)" "boot_vars ?u = boot_vars s" by (simp_all add: gdt_init_def gdt_flush_def boot_vars_def Let_def)
  have e: "boot_vars (s\<lparr>idt_entries := x\<rparr>) = boot_vars s" "boot_vars (s\<lparr>idt_pointer := p\<rparr>) = boot_vars s" "boot_vars (s\<lparr>irq_handlers := h\<rparr>) = boot_vars s"
    "boot_vars (s\<lparr>panicked := q\<rparr>) = boot_vars s" "boot_vars (s\<lparr>idtr_loaded := l\<rparr>) = boot_vars s" for x p h q l and s :: "'a boot_state_scheme"
    by (simp_all add: boot_vars_def)
  have i: "idt_init (idt_address b) (isr_addresses b) ?u = (0, ?v)" "boot_vars ?v = boot_vars ?u" "irq_handlers ?v = replicate IRQ_COUNT None"
    by (simp_all add: idt_init_def idt_load_def pic_disable_def pic_enable_def e Let_def) (simp add: sti_def)
  have f: "fst (gdt_init x s) = 0" "fst (idt_init y z ?u) = 0" "fst (pic_init ?v) = 0" for x y z
    by (simp_all add: gdt_init_def idt_init_def pic_init_def Let_def)
  have "boot_tables b s = Goes_on (snd (pic_init ?v))"
    by (simp add: boot_tables_def halt_if_def split_beta Let_def f)
  then show ?thesis using g(2) i(2,3) pic_init_var [of ?v] by simp
qed

section \<open>The memory stages\<close>

lemma pmm_init_more: "pmm_init usable es s = Some (r, es', t) \<Longrightarrow> pmm_state.more t = pmm_state.more s"
proof -
  have c: "pmm_state.more (snd (carve_stack usable a es s)) = pmm_state.more s" for a by (induction es) (auto simp: split_beta)
  have e: "push_entry e j u = Some v \<Longrightarrow> pmm_state.more v = pmm_state.more u" for e j and u v :: "'a pmm_state_scheme"
  proof (erule push_entry.raw_induct [rotated])
    fix f e j and u v :: "'a pmm_state_scheme"
    assume "\<And>e j (u :: 'a pmm_state_scheme) v. f e j u = Some v \<Longrightarrow> pmm_state.more v = pmm_state.more u"
      and "(if j < me_length e then f e (j + PAGE_SIZE) (stack_push (me_base e + j) u) else Some u) = Some v"
    then show "pmm_state.more v = pmm_state.more u" by (auto simp: stack_push_def split: if_splits)
  qed
  have "push_entries usable fs u = Some v \<Longrightarrow> pmm_state.more v = pmm_state.more u" for fs and u v :: "'a pmm_state_scheme"
    by (induction fs arbitrary: u) (auto simp: bind_eq_Some_conv dest: e split: if_splits)
  then show "pmm_init usable es s = Some (r, es', t) \<Longrightarrow> pmm_state.more t = pmm_state.more s"
    using c by (auto simp: pmm_init_def Let_def split_beta bind_eq_Some_conv)
qed

lemma vmm_init_more:
  assumes "layout_ok (hhdm_offset s) k" and "vmm_init k s = Some (0, t)" and "HIGHER_HALF s (fst (pmm_request_page s)) \<noteq> NULL"
  shows "vmm_state.more t = vmm_state.more s"
proof -
  have m: "pmm_state.more u = pmm_state.more v \<Longrightarrow> vmm_state.more u = vmm_state.more v" for u v :: "'a vmm_state_scheme"
    by (cases u, cases v) simp
  have l: "pmm_state.more (map_list pm ops u) = pmm_state.more u" for pm ops and u :: "'a vmm_state_scheme"
    unfolding map_list_def by (induction ops arbitrary: u) (auto simp: vmm_map_more)
  obtain p s1 where r: "pmm_request_page s = (p, s1)" by fastforce
  have "hhdm_offset s1 = hhdm_offset s" using r by (auto simp: pmm_request_page_def Let_def split: if_splits)
  then have "HIGHER_HALF s1 p \<noteq> NULL" using assms(3) r by (simp add: HIGHER_HALF_def)
  from vmm_init_list [OF assms(1) r refl this] assms(2)
  have "t = vmm_switch_pagemap (HIGHER_HALF s1 p) (map_list (HIGHER_HALF s1 p) (init_ops (hhdm_offset s) k)
    (s1\<lparr>kernel_pagemap := HIGHER_HALF s1 p, mem := zero_page (mem s1) (HIGHER_HALF s1 p)\<rparr>))" by simp
  then have "vmm_state.more t = vmm_state.more s1" using m [OF l] by (simp add: vmm_switch_pagemap_def)
  also have "\<dots> = vmm_state.more s" using m [OF pmm_more(1) [of s]] r by simp
  finally show ?thesis .
qed

lemma vma_create_more: "vma_create_context pm s = (c, t) \<Longrightarrow> pmm_state.more t = pmm_state.more s"
  by (auto simp: vma_create_context_def Let_def split_beta pmm_more)

text \<open>What the memory stages need of the boot loader: a sane memory map with enough memory, and the kernel behind the direct map.\<close>

definition memory_given :: "boot_info \<Rightarrow> nat \<Rightarrow> bool" where
  "memory_given b free \<longleftrightarrow>
     (let usable = memmap_usable b; es = memmap_response b; h = hhdm_response b; n = length (memmap_pages usable es)
      in memmap_ok usable h es \<and> (\<exists>e \<in> set es. ALIGN_UP (of_nat n * 8) 4096 \<le> me_length e \<and> me_type e = usable) \<and>
         (\<forall>p \<in> set (memmap_pages usable es). p < 2 ^ 52 \<and> p + h \<noteq> 0) \<and> layout_ok h (kernel_addresses b) \<and>
         free = n - (8 * n + 4095) div 4096 \<and> section_tables (kernel_addresses b) + 4144 \<le> free)"

definition memory_ready :: "boot_info \<Rightarrow> 'a heap_state_scheme \<Rightarrow> u64 \<Rightarrow> bool" where
  "memory_ready b t root \<longleftrightarrow>
     vma_wf t (kernel_pagemap t) (kernel_vma_context t) [root] \<and> region_start t root = 0 \<and> region_end t root = 0x1000 \<and>
     cr3 t = PHYSICAL t (kernel_pagemap t) \<and> hhdm_offset t = hhdm_response b \<and> (\<forall>p \<in> set (free_pages t). HIGHER_HALF t p \<noteq> NULL) \<and>
     (\<forall>x. page_aligned x \<and> unat x < 2 ^ 32 \<longrightarrow>
        virt_to_phys (kernel_pagemap t) x t = (if x = 0x1000 then 0 else x) \<and> virt_to_phys (kernel_pagemap t) (HIGHER_HALF t x) t = x) \<and>
     (\<forall>sec \<in> set (kernel_sections (kernel_addresses b)). \<forall>v \<in> set (section_pages sec). virt_to_phys (kernel_pagemap t) v t =
        entry_addr (v - kernel_virt_base (kernel_addresses b) + kernel_phys_base (kernel_addresses b)))"

text \<open>Memory that the page allocator will not hand out.\<close>

definition unused_memory :: "boot_info \<Rightarrow> u64 \<Rightarrow> bool" where
  "unused_memory b x \<longleftrightarrow> (\<forall>p \<in> set (memmap_pages (memmap_usable b) (memmap_response b)). \<not> in_range (p + hhdm_response b) 4096 x)"

lemma boot_pages_goes_on:
  fixes s :: "'a boot_state_scheme"
  assumes "memory_given b free" and "stack_idx s = 0"
  shows "\<exists>t. boot_pages b s = Goes_on t \<and> pmm_inv t \<and> length (free_pages t) = free \<and> hhdm_offset t = hhdm_response b \<and>
    (\<forall>p \<in> set (free_pages t). p < 2 ^ 52 \<and> HIGHER_HALF t p \<noteq> NULL) \<and> pmm_state.more t = pmm_state.more s \<and>
    (\<forall>x. unused_memory b x \<longrightarrow> \<not> stack_area t x \<and> (\<forall>p \<in> set (free_pages t). \<not> in_range (HIGHER_HALF t p) 4096 x) \<and> mem t x = mem s x)"
proof -
  let ?s = "s\<lparr>hhdm_offset := hhdm_response b\<rparr>" and ?es = "memmap_response b" and ?u = "memmap_usable b"
  define n where "n = length (memmap_pages ?u ?es)"
  have g: "memmap_ok ?u (hhdm_offset ?s) ?es" "\<exists>e \<in> set ?es. ALIGN_UP (of_nat n * 8) 4096 \<le> me_length e \<and> me_type e = ?u"
    "\<forall>p \<in> set (memmap_pages ?u ?es). p < 2 ^ 52 \<and> p + hhdm_response b \<noteq> 0" "page_aligned (hhdm_offset ?s)"
    "free = n - (8 * n + 4095) div 4096" "4144 \<le> free"
    using assms(1) by (simp_all add: memory_given_def Let_def n_def layout_ok_def)
  have idx: "stack_idx ?s = 0" using assms(2) by simp
  from pmm_init_inv [OF g(1,4) idx n_def g(2)] obtain es' t where t: "pmm_init ?u ?es ?s = Some (0, es', t)" "pmm_inv t"
    "set (free_pages t) \<subseteq> set (memmap_pages ?u ?es)" "length (free_pages t) = free" "hhdm_offset t = hhdm_response b"
    "\<forall>x. unused_memory b x \<longrightarrow> \<not> stack_area t x \<and> mem t x = mem s x"
    using g(5) by (auto simp: unused_memory_def HIGHER_HALF_def)
  have fp: "\<forall>p \<in> set (free_pages t). p < 2 ^ 52 \<and> HIGHER_HALF t p \<noteq> NULL" using t(3,5) g(3) by (auto simp: HIGHER_HALF_def)
  have ne: "free_pages t \<noteq> []" using t(4) g(6) by (auto simp del: length_free_pages)
  then have "HIGHER_HALF t (last (free_pages t)) \<noteq> NULL" using fp by simp
  from test_pmm_rounds [OF t(2) ne refl this, of 10] obtain m where m: "test_pmm 10 t = (0, t\<lparr>mem := m\<rparr>)" "pmm_inv (t\<lparr>mem := m\<rparr>)"
    "free_pages (t\<lparr>mem := m\<rparr>) = free_pages t" "\<forall>x. \<not> stack_area t x \<and> \<not> in_range (HIGHER_HALF t (last (free_pages t))) 4096 x \<longrightarrow> m x = mem t x" by blast
  have out: "\<not> in_range (HIGHER_HALF t p) 4096 x" if "unused_memory b x" "p \<in> set (free_pages t)" for x p
    using that t(3,5) by (auto simp: unused_memory_def HIGHER_HALF_def)
  then have "m x = mem s x" if "unused_memory b x" for x using that t(6) m(4) ne by simp
  note frame = this
  have sa: "stack_area (t\<lparr>mem := m\<rparr>) = stack_area t" by (simp add: stack_area_def fun_eq_iff)
  have "boot_pages b s = Goes_on (t\<lparr>mem := m\<rparr>)" using t(1) m(1) by (simp add: boot_pages_def halt_if_def)
  moreover have "HIGHER_HALF (t\<lparr>mem := m\<rparr>) = HIGHER_HALF t" by (simp add: HIGHER_HALF_def fun_eq_iff)
  ultimately show ?thesis
    using m(2,3) t(4-6) fp pmm_init_more [OF t(1)] out frame sa by (intro exI [of _ "t\<lparr>mem := m\<rparr>"]) (simp del: length_free_pages)
qed

lemma same_page_1000:
  assumes "layout_ok h k"
  shows "page_aligned x \<Longrightarrow> unat x < 2 ^ 32 \<Longrightarrow> same_page 0x1000 x \<longleftrightarrow> x = 0x1000"
    and "2 ^ 64 - 2 ^ 47 \<le> unat v \<Longrightarrow> \<not> same_page 0x1000 v"
proof -
  have al: "page_aligned 0x1000" by (simp add: page_aligned_def)
  show "same_page 0x1000 x \<longleftrightarrow> x = 0x1000" if "page_aligned x" "unat x < 2 ^ 32"
    using same_page_eq [OF _ al that(1)] that(2) by (auto simp: same_page_def)
  show "\<not> same_page 0x1000 v" if "2 ^ 64 - 2 ^ 47 \<le> unat v"
    using same_page_half [of "0x1000" v] upper_half [OF that] by auto
qed

lemma boot_mappings_goes_on:
  fixes s :: "'a boot_state_scheme"
  assumes given: "memory_given b free" and inv: "pmm_inv s" and len: "length (free_pages s) = free" and hh: "hhdm_offset s = hhdm_response b"
    and fp: "\<forall>p \<in> set (free_pages s). p < 2 ^ 52 \<and> HIGHER_HALF s p \<noteq> NULL"
  shows "\<exists>t root. boot_mappings b s = Goes_on t \<and> memory_ready b t root \<and>
    free \<le> length (free_pages t) + section_tables (kernel_addresses b) + 4142 \<and>
    (\<exists>c. vmm_state.more t = vmm_state.more (s\<lparr>kernel_vma_context := c\<rparr>)) \<and>
    (\<forall>x. \<not> stack_area s x \<and> (\<forall>p \<in> set (free_pages s). \<not> in_range (HIGHER_HALF s p) 4096 x) \<longrightarrow>
      untouched t (kernel_pagemap t) x \<and> \<not> in_range root 4096 x \<and> mem t x = mem s x)"
proof -
  let ?k = "kernel_addresses b" and ?h = "hhdm_response b"
  have g: "layout_ok (hhdm_offset s) ?k" "section_tables ?k + 4144 \<le> length (free_pages s)"
    using given hh len by (simp_all add: memory_given_def Let_def del: length_free_pages)
  then have "section_tables ?k + 4113 \<le> length (free_pages s)" by simp
  from vmm_init_contract [OF inv g(1) fp this] obtain s1 pm where s1: "vmm_init ?k s = Some (0, s1)" "kernel_pagemap s1 = pm" "pm \<noteq> NULL" "cr3 s1 = PHYSICAL s1 pm"
    "pagemap_wf s1 pm" "\<forall>w. virt_to_phys pm w s1 = translated (init_ops (hhdm_offset s) ?k) w 0"
    "length (free_pages s) \<le> length (free_pages s1) + section_tables ?k + 4110" "set (free_pages s1) \<subseteq> set (free_pages s)" "hhdm_offset s1 = hhdm_offset s"
    "stack_area s1 = stack_area s"
    "\<forall>x. (\<forall>p \<in> set (free_pages s). \<not> in_range (HIGHER_HALF s p) 4096 x) \<longrightarrow> untouched s1 pm x \<and> mem s1 x = mem s x"
    by blast
  have ne: "free_pages s \<noteq> []" using g(2) by (auto simp del: length_free_pages)
  have "fst (pmm_request_page s) = last (free_pages s)" using pmm_request_contract(1) [OF inv ne, of "fst (pmm_request_page s)" "snd (pmm_request_page s)"] by simp
  then have "HIGHER_HALF s (fst (pmm_request_page s)) \<noteq> NULL" using fp ne by simp
  note more1 = vmm_init_more [OF g(1) s1(1) this]
  have room1: "34 \<le> length (free_pages s1)" using s1(7) g(2) by linarith
  have HH1: "HIGHER_HALF s1 = HIGHER_HALF s" using s1(9) by (simp add: HIGHER_HALF_def fun_eq_iff)
  have nn1: "\<forall>f \<in> set (free_pages s1). HIGHER_HALF s1 f \<noteq> NULL" using s1(8) fp HH1 by auto
  have "2 \<le> length (free_pages s1)" using room1 by simp
  from vma_create_context_contract [OF s1(5,3) this nn1 refl refl] obtain c root s2 where root: "root = HIGHER_HALF s1 (last (butlast (free_pages s1)))" and s2: "vma_create_context pm s1 = (c, s2)" "vma_wf s2 pm c [root]"
    "region_start s2 root = 0" "region_size s2 root = 1" "\<forall>v. virt_to_phys pm v s2 = virt_to_phys pm v s1"
    "free_pages s2 = butlast (butlast (free_pages s1))" "hhdm_offset s2 = hhdm_offset s1" "stack_area s2 = stack_area s1" "keeps pm s1 s2" by blast
  have more2: "pmm_state.more s2 = pmm_state.more s1" using vma_create_more [OF s2(1)] .
  then have rest2: "vmm_rest s2 = vmm_rest s1" by (cases s1, cases s2) (simp add: vmm_rest_def)
  have len2: "length (free_pages s2) = length (free_pages s1) - 2" using s2(6) by (simp del: length_free_pages)
  have HH2: "HIGHER_HALF s2 = HIGHER_HALF s" using HH1 s2(7) by (simp add: HIGHER_HALF_def fun_eq_iff)
  have end2: "region_end s2 root = 0x1000" using s2(3,4) by (simp add: region_end_def)
  have "test_ready pm c root 0x1000 s2"
    using s2(2,3,6,7) end2 rest2 s1(2,4) nn1 HH1 HH2 by (auto simp: test_ready_def vmm_rest_def PHYSICAL_def page_aligned_def dest!: in_set_butlastD)
  moreover have "3 * 10 + 2 \<le> length (free_pages s2)" using len2 room1 by (simp del: length_free_pages)
  ultimately obtain s3 where s3: "test_vmm 10 c s2 = Some (0, s3)" "test_ready pm c root 0x1000 s3" "vmm_rest s3 = vmm_rest s2"
    "hhdm_offset s3 = hhdm_offset s2" "\<forall>w. virt_to_phys pm w s3 = (if same_page 0x1000 w then 0 else virt_to_phys pm w s2)"
    "region_start s3 root = region_start s2 root" "length (free_pages s2) \<le> length (free_pages s3) + 3 * 10" "set (free_pages s3) \<subseteq> set (free_pages s2)"
    "\<forall>x. untouched s2 pm x \<and> \<not> stack_area s2 x \<and> \<not> in_range root 4096 x \<longrightarrow> untouched s3 pm x \<and> mem s3 x = mem s2 x"
    using test_vmm_rounds [of pm c root "0x1000" s2 10] by auto
  define t where "t = s3\<lparr>kernel_vma_context := c\<rparr>"
  have same: "same_pages s3 t" by (simp add: same_pages_def t_def)
  note cong = same_pages_cong [OF same]
  have c0: "c \<noteq> NULL" using s2(2) by (simp add: vma_wf_def)
  have km: "kernel_pagemap s3 = pm" "cr3 s3 = cr3 s1" "vmm_state.more s3 = vmm_state.more s1" using s3(3) rest2 s1(2) by (simp_all add: vmm_rest_def)
  have run: "boot_mappings b s = Goes_on t" using s1(1,2) s2(1) s3(1) c0 by (simp add: boot_mappings_def halt_if_def t_def)
  have lay: "layout_ok ?h ?k" using g(1) hh by simp
  have v3: "virt_to_phys pm w t = (if same_page 0x1000 w then 0 else translated (init_ops ?h ?k) w 0)" for w
    using cong(6) [of pm w] s3(5) s2(5) s1(6) hh by simp
  have low: "virt_to_phys pm x t = (if x = 0x1000 then 0 else x)" "virt_to_phys pm (HIGHER_HALF t x) t = x" if x: "page_aligned x" "unat x < 2 ^ 32" for x
  proof -
    have d: "translated (init_ops ?h ?k) x 0 = x" "translated (init_ops ?h ?k) (x + ?h) 0 = x"
      using direct_translated [OF lay x] by (simp_all add: init_ops_def translated_append)
    then show "virt_to_phys pm x t = (if x = 0x1000 then 0 else x)" using v3 same_page_1000(1) [OF lay x] by simp
    have "unat (x + ?h) = unat x + unat ?h" using lay x(2) by (subst unat_add_no_wrap) (simp_all add: layout_ok_def)
    then have "2 ^ 64 - 2 ^ 47 \<le> unat (x + ?h)" using lay by (simp add: layout_ok_def)
    then have "\<not> same_page 0x1000 (x + ?h)" by (rule same_page_1000(2) [OF lay])
    moreover have "HIGHER_HALF t x = x + ?h" using cong(4) s3(4) s2(7) s1(9) hh by (simp add: HIGHER_HALF_def)
    ultimately show "virt_to_phys pm (HIGHER_HALF t x) t = x" using v3 d(2) by simp
  qed
  have sec: "virt_to_phys pm v t = entry_addr (v - kernel_virt_base ?k + kernel_phys_base ?k)"
    if "sec \<in> set (kernel_sections ?k)" "v \<in> set (section_pages sec)" for sec v
  proof -
    have "2 ^ 64 - 2 ^ 47 \<le> unat v" using section_pages_bounds(2) [OF lay that] lay by (simp add: layout_ok_def)
    then show ?thesis using v3 section_translated [OF lay that] same_page_1000(2) [OF lay] by simp
  qed
  have hp: "hhdm_offset t = ?h" using s3(4) s2(7) s1(9) hh by (simp add: t_def)
  have tf: "kernel_pagemap t = pm" "kernel_vma_context t = c" "cr3 t = cr3 s3" "hhdm_offset t = hhdm_offset s3" using km by (simp_all add: t_def)
  have "region_start t root = region_start s3 root" by (simp add: t_def region_start_def)
  then have rs: "region_start t root = 0" using s3(6) s2(3) by simp
  have "memory_ready b t root"
    using s3(2) cong(1,3-5) tf rs low sec hp by (simp add: memory_ready_def test_ready_def PHYSICAL_def)
  moreover have "free \<le> length (free_pages t) + section_tables ?k + 4142"
    using cong(3) s3(7) len2 s1(7) len room1 by (simp del: length_free_pages)
  moreover have "vmm_state.more t = vmm_state.more (s\<lparr>kernel_vma_context := c\<rparr>)"
    using km(3) more1 by (cases s, cases s3) (simp add: t_def)
  moreover have "untouched t (kernel_pagemap t) x \<and> \<not> in_range root 4096 x \<and> mem t x = mem s x"
    if x: "\<not> stack_area s x" "\<forall>p \<in> set (free_pages s). \<not> in_range (HIGHER_HALF s p) 4096 x" for x
  proof -
    have "butlast (free_pages s1) \<noteq> []" using room1 by (cases "free_pages s1" rule: rev_cases) (auto simp del: length_free_pages)
    then have "last (butlast (free_pages s1)) \<in> set (free_pages s1)" by (metis last_in_set in_set_butlastD)
    then have r: "\<not> in_range root 4096 x" using x(2) s1(8) HH1 unfolding root by auto
    have u1: "untouched s1 pm x" "mem s1 x = mem s x" using s1(11) x(2) by simp_all
    then have "untouched s2 pm x" "mem s2 x = mem s1 x" using s2(9) unfolding keeps_def by blast+
    then have "untouched s3 pm x" "mem s3 x = mem s x" using s3(9) r x(1) s2(8) s1(10) u1(2) by simp_all
    then show ?thesis using r cong(7) [of pm x] tf(1) by (simp add: t_def)
  qed
  ultimately show ?thesis using run by blast
qed

section \<open>The whole sequence\<close>

lemma boot_early:
  assumes "base_revision_supported b" and "framebuffer_response b = Some (Some fb)" and "flanterm_fb_init b fb \<noteq> NULL" and "\<not> stdout_lock s"
  shows "\<exists>t. sys_entry b s = boot_bind (boot_pages b t) (\<lambda>s. boot_bind (boot_mappings b s) (\<lambda>s. boot_bind (boot_files b s)
      (\<lambda>s. boot_init_process b (boot_devices_init b s)))) \<and>
    boot_vars t = boot_vars s \<and> irq_handlers t = replicate IRQ_COUNT None"
proof -
  obtain s1 where s1: "boot_console b s = Goes_on s1" "boot_vars s1 = boot_vars s" "stdout_lock s1 = stdout_lock s"
    using boot_console_goes_on [OF assms(1)] by blast
  obtain s2 where s2: "boot_graphics b s1 = Goes_on s2" "boot_vars s2 = boot_vars s1" "stdout_lock s2 = stdout_lock s1"
    using boot_graphics_goes_on [OF assms(2,3)] by blast
  have "\<not> stdout_lock s2" using s1(3) s2(3) assms(4) by simp
  then obtain s3 where s3: "print_lines (banner b) s2 = Goes_on s3" "boot_vars s3 = boot_vars s2"
    using print_lines_goes_on by blast
  obtain s4 where s4: "boot_tables b s3 = Goes_on s4" "boot_vars s4 = boot_vars s3" "irq_handlers s4 = replicate IRQ_COUNT None"
    using boot_tables_goes_on by blast
  have "sys_entry b s = boot_bind (boot_pages b s4) (\<lambda>s. boot_bind (boot_mappings b s) (\<lambda>s. boot_bind (boot_files b s)
      (\<lambda>s. boot_init_process b (boot_devices_init b s))))"
    by (simp add: sys_entry_def s1(1) s2(1) s3(1) s4(1))
  then show ?thesis using s1(2) s2(2) s3(2) s4(2,3) by (intro exI [of _ s4]) simp
qed

lemma boot_bind_Halts: "boot_bind x f = Halts e t \<longleftrightarrow> x = Halts e t \<or> (\<exists>s. x = Goes_on s \<and> f s = Halts e t)"
  by (cases x) auto

lemma print_lines_no_halt: "print_lines npfs s \<noteq> Halts e t"
  by (induction npfs arbitrary: s) (auto split: option.splits)

lemma boot_process_no_halt: "boot_init_process b s \<noteq> Halts e t"
  by (auto simp: boot_init_process_def split: option.splits)

lemma halt_if_Halts: "halt_if failed err s = Halts e t \<longleftrightarrow> failed \<and> e = err \<and> t = cli s"
  by (auto simp: halt_if_def)

lemma boot_stage_halts:
  "boot_console b s = Halts e t \<Longrightarrow> \<not> base_revision_supported b \<and> e = Unsupported_revision \<and> \<not> int_flag t"
  "boot_graphics b s = Halts e t \<Longrightarrow>
     (e = No_framebuffer \<and> (\<forall>fb. framebuffer_response b \<noteq> Some (Some fb)) \<or>
      e = No_terminal \<and> (\<exists>fb. framebuffer_response b = Some (Some fb) \<and> flanterm_fb_init b fb = NULL)) \<and> \<not> int_flag t"
  "boot_tables b s \<noteq> Halts e t"
  "boot_pages b s = Halts e t \<Longrightarrow> e = Pmm_failed \<and> \<not> int_flag t"
  "boot_mappings b s = Halts e t \<Longrightarrow> e = Vmm_failed \<and> \<not> int_flag t"
  "boot_files b s = Halts e t \<Longrightarrow> e = Vfs_failed \<and> \<not> int_flag t"
proof -
  show "boot_console b s = Halts e t \<Longrightarrow> \<not> base_revision_supported b \<and> e = Unsupported_revision \<and> \<not> int_flag t"
    by (auto simp: boot_console_def boot_bind_Halts halt_if_Halts cli_def Let_def split_beta)
  show "boot_graphics b s = Halts e t \<Longrightarrow>
     (e = No_framebuffer \<and> (\<forall>fb. framebuffer_response b \<noteq> Some (Some fb)) \<or>
      e = No_terminal \<and> (\<exists>fb. framebuffer_response b = Some (Some fb) \<and> flanterm_fb_init b fb = NULL)) \<and> \<not> int_flag t"
    by (auto simp: boot_graphics_def boot_bind_Halts halt_if_Halts cli_def Let_def split: option.splits)
  show "boot_tables b s \<noteq> Halts e t" using boot_tables_goes_on [of b s] by auto
  show "boot_pages b s = Halts e t \<Longrightarrow> e = Pmm_failed \<and> \<not> int_flag t"
    by (auto simp: boot_pages_def halt_if_Halts cli_def Let_def split_beta split: option.splits)
  show "boot_mappings b s = Halts e t \<Longrightarrow> e = Vmm_failed \<and> \<not> int_flag t"
    by (auto simp: boot_mappings_def halt_if_Halts cli_def Let_def split_beta split: option.splits)
  show "boot_files b s = Halts e t \<Longrightarrow> e = Vfs_failed \<and> \<not> int_flag t"
    by (auto simp: boot_files_def halt_if_Halts cli_def Let_def split_beta split: option.splits)
qed

lemma sys_entry_reaches_files:
  fixes s :: "'a boot_state_scheme"
  assumes "base_revision_supported b" and "framebuffer_response b = Some (Some fb)" and "flanterm_fb_init b fb \<noteq> NULL"
    and "\<not> stdout_lock s" and "stack_idx s = 0" and "memory_given b free"
  shows "\<exists>t root. sys_entry b s = boot_bind (boot_files b t) (\<lambda>s. boot_init_process b (boot_devices_init b s)) \<and>
    memory_ready b t root \<and> free \<le> length (free_pages t) + section_tables (kernel_addresses b) + 4142 \<and>
    l_memRoot t = l_memRoot s \<and> l_bestBet t = l_bestBet s \<and> liballoc_lock_var t = liballoc_lock_var s \<and> devices t = devices s \<and>
    irq_handlers t = replicate IRQ_COUNT None \<and>
    (\<forall>x. unused_memory b x \<longrightarrow> untouched t (kernel_pagemap t) x \<and> \<not> in_range root 4096 x \<and> mem t x = mem s x)"
proof -
  obtain s1 where s1: "sys_entry b s = boot_bind (boot_pages b s1) (\<lambda>s. boot_bind (boot_mappings b s) (\<lambda>s. boot_bind (boot_files b s)
      (\<lambda>s. boot_init_process b (boot_devices_init b s))))" "boot_vars s1 = boot_vars s" "irq_handlers s1 = replicate IRQ_COUNT None"
    using boot_early [OF assms(1-4)] by blast
  have "stack_idx s1 = 0" using s1(2) assms(5) by (simp add: boot_vars_def)
  from boot_pages_goes_on [OF assms(6) this] obtain s2 where s2: "boot_pages b s1 = Goes_on s2" "pmm_inv s2" "length (free_pages s2) = free"
    "hhdm_offset s2 = hhdm_response b" "\<forall>p \<in> set (free_pages s2). p < 2 ^ 52 \<and> HIGHER_HALF s2 p \<noteq> NULL" "pmm_state.more s2 = pmm_state.more s1"
    "\<forall>x. unused_memory b x \<longrightarrow> \<not> stack_area s2 x \<and> (\<forall>p \<in> set (free_pages s2). \<not> in_range (HIGHER_HALF s2 p) 4096 x) \<and> mem s2 x = mem s1 x"
    by blast
  from boot_mappings_goes_on [OF assms(6) s2(2-5)] obtain t root c where t: "boot_mappings b s2 = Goes_on t" "memory_ready b t root"
    "free \<le> length (free_pages t) + section_tables (kernel_addresses b) + 4142" "vmm_state.more t = vmm_state.more (s2\<lparr>kernel_vma_context := c\<rparr>)"
    "\<forall>x. \<not> stack_area s2 x \<and> (\<forall>p \<in> set (free_pages s2). \<not> in_range (HIGHER_HALF s2 p) 4096 x) \<longrightarrow>
      untouched t (kernel_pagemap t) x \<and> \<not> in_range root 4096 x \<and> mem t x = mem s2 x" by blast
  have "irq_handlers t = irq_handlers s2" "l_memRoot t = l_memRoot s2" "l_bestBet t = l_bestBet s2" "liballoc_lock_var t = liballoc_lock_var s2" "devices t = devices s2"
    using t(4) by (cases s2, cases t, simp)+
  moreover have "irq_handlers s2 = irq_handlers s1" "l_memRoot s2 = l_memRoot s1" "l_bestBet s2 = l_bestBet s1" "liballoc_lock_var s2 = liballoc_lock_var s1"
    "devices s2 = devices s1" using s2(6) by (cases s1, cases s2, simp)+
  moreover have "\<forall>x. unused_memory b x \<longrightarrow> untouched t (kernel_pagemap t) x \<and> \<not> in_range root 4096 x \<and> mem t x = mem s x"
    using s2(7) t(5) s1(2) by (simp add: boot_vars_def)
  ultimately show ?thesis using s1 s2(1) t(1-3) by (intro exI [of _ t] exI [of _ root]) (simp add: boot_vars_def del: length_free_pages)
qed

section \<open>Properties\<close>


definition ram_boot :: boot_info where
  "ram_boot = \<lparr>base_revision_supported = True, framebuffer_response = Some (Some \<lparr>fb_address = 0xFFFF8000FD000000, fb_width = 640, fb_height = 480, fb_pitch = 2560, fb_bpp = 32\<rparr>),
     flanterm_fb_init = (\<lambda>_. 0xFFFF800001000000), banner = [(2, \<lambda>i. if i = 0 then 0x4E else 0x0A)], gdt_address = 0xFFFFFFFF80006000, idt_address = 0xFFFFFFFF80006100,
     isr_addresses = (\<lambda>i. 0xFFFFFFFF80001000 + of_nat (16 * i)), hhdm_response = 0xFFFF800000000000, memmap_usable = 0, memmap_response = ram_memmap,
     kernel_addresses = ram_layout, module_address = 0xFFFF800002800000, module_size = 0x10000, literals = (\<lambda>_. 0xFFFFFFFF80004000),
     stdout_handle = 0xFFFFFFFF80006800, stdin_handle = 0xFFFFFFFF80006900\<rparr>"

lemma ram_boot_given: "memory_given ram_boot 8176"
proof -
  have h: "hhdm_offset (boot_pmm ()) = 0xFFFF800000000000" by (simp add: boot_pmm_def)
  have "p < 2 ^ 52 \<and> p + 0xFFFF800000000000 \<noteq> 0" if p: "p \<in> set (memmap_pages 0 ram_memmap)" for p
  proof -
    obtain k where k: "k < 8192" "unat p = 0x100000 + 4096 * k" using p ram_page by blast
    have "unat (p + 0xFFFF800000000000) = unat p + 0xFFFF800000000000" using k by (simp add: unat_word_ariths)
    then have "p + 0xFFFF800000000000 \<noteq> 0" by auto
    then show ?thesis using k by (simp add: word_less_nat_alt)
  qed
  moreover have "memmap_ok 0 0xFFFF800000000000 ram_memmap" using ram_memmap_ok(1) [of "()"] h by simp
  moreover have "length (memmap_pages 0 ram_memmap) = 8192" using ram_memmap_ok(2) by simp
  ultimately show ?thesis using ram_layout_ok ram_memmap_ok(3) by (simp add: memory_given_def ram_boot_def Let_def)
qed


lemma boot_supported: "boot_console b s = Goes_on t \<Longrightarrow> base_revision_supported b"
  by (rule ccontr) (simp add: boot_console_def halt_if_def)

lemma boot_terminal:
  "boot_graphics b s = Goes_on t \<Longrightarrow> \<exists>fb. framebuffer_response b = Some (Some fb) \<and> flanterm_fb_init b fb \<noteq> NULL"
  by (auto simp: boot_graphics_def boot_bind_Halts halt_if_def Let_def split: option.splits if_splits)

text \<open>
  C30. Every halt of the boot sequence has one of six causes and happens with interrupts disabled. The first three errors are reported
  exactly when the boot loader does not support the revision, gives no frame buffer, or no terminal can be made for it; the
  checks after the initialisation of the descriptor tables and of the interrupt controller never fire.
\<close>

theorem sys_entry_halts:
  "sys_entry b s = Halts e t \<Longrightarrow>
    \<not> int_flag t \<and> (e = Unsupported_revision \<longleftrightarrow> \<not> base_revision_supported b) \<and>
    (e = No_framebuffer \<longleftrightarrow> base_revision_supported b \<and> (\<forall>fb. framebuffer_response b \<noteq> Some (Some fb))) \<and>
    (e = No_terminal \<longleftrightarrow> base_revision_supported b \<and> (\<exists>fb. framebuffer_response b = Some (Some fb) \<and> flanterm_fb_init b fb = NULL)) \<and>
    e \<noteq> Gdt_failed \<and> e \<noteq> Idt_failed"
  unfolding sys_entry_def boot_bind_Halts
  by (elim disjE exE conjE) (auto simp: boot_process_no_halt print_lines_no_halt boot_stage_halts(3)
    dest!: boot_stage_halts(1,2,4-6) boot_supported boot_terminal)

theorem sys_entry_halts_witness:
  "\<forall>s :: boot_state. \<exists>t. sys_entry (ram_boot\<lparr>framebuffer_response := Some None\<rparr>) s = Halts No_framebuffer t \<and> \<not> int_flag t"
proof
  fix s :: boot_state
  let ?b = "ram_boot\<lparr>framebuffer_response := Some None\<rparr>"
  obtain u where "boot_console ?b s = Goes_on u" using boot_console_goes_on [of ?b s] by (auto simp: ram_boot_def)
  then have "sys_entry ?b s = Halts No_framebuffer (cli u)" by (simp add: sys_entry_def boot_graphics_def)
  from this sys_entry_halts [OF this]
  show "\<exists>t. sys_entry ?b s = Halts No_framebuffer t \<and> \<not> int_flag t" by blast
qed

lemma heap_block_mapped:
  fixes t :: "'a heap_state_scheme"
  assumes ready: "memory_ready b t root" and room: "5 \<le> length (free_pages t)"
  shows "\<exists>u f. liballoc_alloc 16 t = Some (0x1000, u) \<and> f \<in> set (free_pages t) - set (free_pages u) \<and>
    hhdm_offset u = hhdm_offset t \<and>
    (\<forall>w. virt_to_phys (kernel_pagemap t) w u = (if same_page 0x1000 w then f else virt_to_phys (kernel_pagemap t) w t))"
proof -
  have wf: "vma_wf t (kernel_pagemap t) (kernel_vma_context t) [root]" and e: "region_end t root = 0x1000"
    using ready by (simp_all add: memory_ready_def)
  have ne: "free_pages t \<noteq> []" using room by (auto simp del: length_free_pages)
  then have nn: "HIGHER_HALF t (last (free_pages t)) \<noteq> NULL" using ready by (simp add: memory_ready_def)
  have n: "1 = unat (ALIGN_UP 16 PAGE_SIZE div PAGE_SIZE)" "(1 :: nat) \<le> 2 ^ 36" by (simp_all add: ALIGN_UP_def DIV_ROUND_UP_def)
  have "4 * 1 + 1 \<le> length (free_pages t)" using room by simp
  from vma_alloc_contract [OF wf _ flags_ok_3 n this refl nn, of root]
  obtain u fs where u: "vma_alloc (kernel_vma_context t) 16 3 t = Some (0x1000, u)" "mapped_to (kernel_pagemap t) 0x1000 0 1 fs t u"
    "set fs \<subseteq> set (butlast (free_pages t)) - set (free_pages u)" "hhdm_offset u = hhdm_offset t"
    unfolding e by auto
  have l: "length fs = 1" "virt_to_phys (kernel_pagemap t) 0x1000 u = fs ! 0"
    "\<not> same_page 0x1000 w \<Longrightarrow> virt_to_phys (kernel_pagemap t) w u = virt_to_phys (kernel_pagemap t) w t" for w
    using u(2) by (auto simp: mapped_to_def)
  then have "fs ! 0 \<in> set fs" by simp
  then have f: "fs ! 0 \<in> set (free_pages t) - set (free_pages u)" using u(3) by (auto dest: in_set_butlastD)
  have "virt_to_phys (kernel_pagemap t) w u = fs ! 0" if "same_page 0x1000 w" for w
    using same_page_translate [OF that] l(2) by metis
  then show ?thesis using u(1,4) f l(3) by (intro exI [of _ u] exI [of _ "fs ! 0"]) (simp add: liballoc_alloc_def)
qed

text \<open>
  C37. The first block of the kernel heap lies on low physical memory. The heap asks the region allocator for 16 pages and is given the
  region from 0x1000, of which only the first page is mapped to a page of the page allocator. The other fifteen pages of the
  block still have the identity mapping made by \<open>vmm_init\<close>: the heap's addresses are those of the physical pages 0x2000 to 0x10000, which
  stay reachable through the direct map, and those of them that are on the free stack stay there, to be handed out a second time.
\<close>

theorem heap_block_aliases_low_memory:
  fixes t :: "'a heap_state_scheme"
  assumes ready: "memory_ready b t root" and room: "5 \<le> length (free_pages t)"
  shows "\<exists>u. liballoc_alloc 16 t = Some (0x1000, u) \<and> virt_to_phys (kernel_pagemap t) 0x1000 u \<in> set (free_pages t) - set (free_pages u) \<and>
    (\<forall>k. 1 \<le> k \<and> k < 16 \<longrightarrow> (let p = 0x1000 + of_nat k * PAGE_SIZE
       in virt_to_phys (kernel_pagemap t) p u = p \<and> virt_to_phys (kernel_pagemap t) (HIGHER_HALF u p) u = p))"
proof -
  obtain u f where u: "liballoc_alloc 16 t = Some (0x1000, u)" "f \<in> set (free_pages t) - set (free_pages u)" "hhdm_offset u = hhdm_offset t"
    "virt_to_phys (kernel_pagemap t) w u = (if same_page 0x1000 w then f else virt_to_phys (kernel_pagemap t) w t)" for w
    using heap_block_mapped [OF assms] by blast
  have low: "virt_to_phys (kernel_pagemap t) x t = (if x = 0x1000 then 0 else x)" "virt_to_phys (kernel_pagemap t) (HIGHER_HALF t x) t = x"
    if "page_aligned x" "unat x < 2 ^ 32" for x using ready that unfolding memory_ready_def by blast+
  have z: "virt_to_phys (kernel_pagemap t) 0x1000 t = 0" using low(1) [of "0x1000"] by (simp add: page_aligned_def)
  have "virt_to_phys (kernel_pagemap t) p u = p \<and> virt_to_phys (kernel_pagemap t) (HIGHER_HALF u p) u = p"
    if k: "1 \<le> k" "k < 16" and p: "p = 0x1000 + of_nat k * PAGE_SIZE" for k :: nat and p
  proof -
    have "unat p = 0x1000 + k * 0x1000" using k p by (simp add: unat_word_ariths unat_of_nat)
    then have a: "page_aligned p" "unat p < 2 ^ 32" "p \<noteq> 0x1000" "p \<noteq> 0" using k by (auto simp: page_aligned_def)
    note l = low [OF a(1,2)]
    have "HIGHER_HALF u p = HIGHER_HALF t p" using u(3) by (simp add: HIGHER_HALF_def)
    moreover have "\<not> same_page 0x1000 p" "\<not> same_page 0x1000 (HIGHER_HALF t p)"
      using same_page_translate [of "0x1000" _ "kernel_pagemap t" t] z l a(3,4) by auto
    ultimately show ?thesis using u(4) l a(3) by simp
  qed
  then show ?thesis using u(1,2) u(4) [of "0x1000"] by (intro exI [of _ u]) (auto simp: Let_def same_page_def)
qed

lemma ram_boot_ready: "\<exists>(t :: boot_state) root. memory_ready ram_boot t root \<and> 5 \<le> length (free_pages t)"
proof -
  fix z :: boot_state
  let ?z = "z\<lparr>stack_idx := 0\<rparr>"
  have "stack_idx ?z = 0" "section_tables (kernel_addresses ram_boot) = 12" using ram_layout_ok(2) by (simp_all add: ram_boot_def)
  note z = this
  from boot_pages_goes_on [OF ram_boot_given z(1)] obtain s :: boot_state where s: "pmm_inv s" "length (free_pages s) = 8176" "hhdm_offset s = hhdm_response ram_boot"
    "\<forall>p \<in> set (free_pages s). p < 2 ^ 52 \<and> HIGHER_HALF s p \<noteq> NULL" by blast
  from boot_mappings_goes_on [OF ram_boot_given s] z(2) show ?thesis by force
qed

theorem heap_block_aliases_low_memory_witness:
  "\<exists>(t :: boot_state) u. liballoc_alloc 16 t = Some (0x1000, u) \<and> virt_to_phys (kernel_pagemap t) 0x2000 u = 0x2000"
proof -
  obtain t :: boot_state and root where t: "memory_ready ram_boot t root" "5 \<le> length (free_pages t)" using ram_boot_ready by blast
  from heap_block_aliases_low_memory [OF this] obtain u where "liballoc_alloc 16 t = Some (0x1000, u)"
    "\<forall>k. 1 \<le> k \<and> k < 16 \<longrightarrow> (let p = 0x1000 + of_nat k * PAGE_SIZE
       in virt_to_phys (kernel_pagemap t) p u = p \<and> virt_to_phys (kernel_pagemap t) (HIGHER_HALF u p) u = p)" by blast
  from this(1) this(2) [rule_format, of 1] show ?thesis by (auto simp: Let_def)
qed

lemma scheduler_init_vars [simp]:
  "devices (scheduler_init s) = devices s" "handle_mem (scheduler_init s) = handle_mem s" "irq_handlers (scheduler_init s) = irq_handlers s"
  "pic_mask_var (scheduler_init s) = pic_mask_var s" "process_count (scheduler_init s) = 0"
  by (simp_all add: scheduler_init_def)

lemma pic_unmask_vars [simp]:
  "devices (pic_unmask i s) = devices s" "handle_mem (pic_unmask i s) = handle_mem s" "irq_handlers (pic_unmask i s) = irq_handlers s"
  "process_count (pic_unmask i s) = process_count s"
  by (simp_all add: pic_unmask_def pic_set_mask_def outb_def io_wait_def Let_def)

text \<open>
  The devices are wired up. With an empty device table and no handlers, the device stage makes the screen device 0 and the
  keyboard device 1, gives the timer and the keyboard their interrupt lines, lets exactly these two lines through and leaves the
  others as they were, and starts with no process.
\<close>

lemma devices_wired:
  assumes "devices_ok s" and "device_get 0 s = NULL" and "device_get 1 s = NULL" and "length (irq_handlers s) = IRQ_COUNT"
    and "stdout_handle b \<noteq> NULL" and "stdin_handle b \<noteq> NULL" and "stdout_handle b \<noteq> stdin_handle b"
  shows "let t = boot_devices_init b s
    in device_is 0 (screen 0) t \<and> device_is 1 (keyboard 1) t \<and>
      irq_handlers t = (irq_handlers s)[0 := Some Timer_interrupt_handler, 1 := Some Keyboard_handler] \<and>
      (\<forall>n<16. bit (pic_mask_var t) n \<longleftrightarrow> 2 \<le> n \<and> bit (pic_mask_var s) n) \<and> process_count t = 0"
proof -
  have d: "length (devices s) = 256" "devices s ! 0 = NULL" "devices s ! 1 = NULL"
    using assms(1-3) by (auto simp: devices_ok_def device_get_def Let_def)
  let ?s1 = "snd (device_register (stdout_handle b) (stdout_init (stdout_handle b) (pic_unmask 1 s)))"
  let ?s2 = "snd (device_register (stdin_handle b) (stdin_init (stdin_handle b) ?s1))"
  have s1: "devices ?s1 = (devices s)[0 := stdout_handle b]" "handle_mem ?s1 = (handle_mem s)(stdout_handle b := screen 0)"
    "irq_handlers ?s1 = irq_handlers s" "pic_mask_var ?s1 = pic_mask_var (pic_unmask 1 s)"
    using d assms(5) by (simp_all add: device_register_def stdout_init_def screen_def)
  have s2: "devices ?s2 = (devices s)[0 := stdout_handle b, 1 := stdin_handle b]"
    "handle_mem ?s2 = (handle_mem s)(stdout_handle b := screen 0, stdin_handle b := keyboard 1)"
    "irq_handlers ?s2 = (irq_handlers s)[1 := Some Keyboard_handler]" "pic_mask_var ?s2 = pic_mask_var (pic_unmask 1 s)"
    using d assms(6) s1 by (simp_all add: device_register_def stdin_init_def idt_irq_register_def keyboard_def)
  have run: "boot_devices_init b s = timer_init 100 (scheduler_init ?s2)" by (simp add: boot_devices_init_def Let_def split_beta)
  have ti: "devices (timer_init f u) = devices u" "handle_mem (timer_init f u) = handle_mem u" "process_count (timer_init f u) = process_count u"
    "irq_handlers (timer_init f u) = (irq_handlers u)[0 := Some Timer_interrupt_handler]"
    "bit (pic_mask_var (timer_init f u)) n \<longleftrightarrow> bit (pic_mask_var u) n \<and> n \<noteq> 0" for f n and u :: "'a boot_state_scheme"
  proof -
    let ?u = "outb PIT_CHANNEL_0 (ucast (drop_bit 8 (timer_divisor f) AND 0xFF)) (outb PIT_CHANNEL_0 (ucast (timer_divisor f AND 0xFF)) (outb PIT_COMMAND 0x36 u))"
    have o: "timer_init f u = idt_irq_register 0 Timer_interrupt_handler (pic_unmask 0 ?u)" by (simp add: timer_init_def Let_def)
    show "devices (timer_init f u) = devices u" "handle_mem (timer_init f u) = handle_mem u" "process_count (timer_init f u) = process_count u"
      "irq_handlers (timer_init f u) = (irq_handlers u)[0 := Some Timer_interrupt_handler]"
      unfolding o by (simp_all add: idt_irq_register_def) (simp_all add: outb_def)
    show "bit (pic_mask_var (timer_init f u)) n \<longleftrightarrow> bit (pic_mask_var u) n \<and> n \<noteq> 0"
      unfolding o using bit_pic_unmask [of 0 ?u n] by (simp add: idt_irq_register_def)
  qed
  have "device_is 0 (screen 0) (boot_devices_init b s)" "device_is 1 (keyboard 1) (boot_devices_init b s)"
    unfolding run using assms(5-7) d s2(1,2) ti(1,2) by (simp_all add: device_is_def device_get_def Let_def)
  moreover have "irq_handlers (boot_devices_init b s) = (irq_handlers s)[0 := Some Timer_interrupt_handler, 1 := Some Keyboard_handler]"
    unfolding run ti(4) using s2(3) by (simp add: list_update_swap)
  moreover have "bit (pic_mask_var (boot_devices_init b s)) n \<longleftrightarrow> 2 \<le> n \<and> bit (pic_mask_var s) n" for n
    unfolding run ti(5) using s2(4) bit_pic_unmask [of 1 s n] by auto
  ultimately show ?thesis by (simp add: Let_def run ti(3))
qed

end
