(* ===== verification/Wiring.thy ===== *)
theory Wiring
  imports Ramfs SelfTest
begin

text \<open>
  What the heap and the file system leave alone: the device table and the interrupt handlers. Each operation of
  \<^verbatim>\<open>liballoc.c\<close>, \<^verbatim>\<open>vfs.c\<close> and \<^verbatim>\<open>ramfs.c\<close> that the boot sequence uses is shown to keep them, whatever its result.
\<close>

section \<open>The heap\<close>

text \<open>The file system stage does not touch the device table and the interrupt handlers: each operation it uses leaves them as they are.\<close>

definition wiring :: "'a device_state_scheme \<Rightarrow> u64 list \<times> idt_handler_t option list" where
  "wiring s = (devices s, irq_handlers s)"

lemma wiring_more: "pmm_state.more t = pmm_state.more s \<Longrightarrow> wiring t = wiring s"
  by (cases s, cases t) (simp add: wiring_def)

lemma wiring_update [simp]:
  "wiring (s\<lparr>majors := mj\<rparr>) = wiring s" "wiring (s\<lparr>minors := mn\<rparr>) = wiring s" "wiring (s\<lparr>l_memRoot := x\<rparr>) = wiring s"
  "wiring (s\<lparr>l_bestBet := x\<rparr>) = wiring s" "wiring (s\<lparr>l_allocated := x\<rparr>) = wiring s" "wiring (s\<lparr>l_inuse := x\<rparr>) = wiring s"
  "wiring (s\<lparr>l_warningCount := x\<rparr>) = wiring s" "wiring (s\<lparr>l_errorCount := x\<rparr>) = wiring s" "wiring (s\<lparr>l_possibleOverruns := x\<rparr>) = wiring s"
  "wiring (s\<lparr>liballoc_lock_var := l\<rparr>) = wiring s"
  by (simp_all add: wiring_def)

lemma wiring_vfs_update [simp]:
  "wiring (v\<lparr>vnodes := n\<rparr>) = wiring v" "wiring (v\<lparr>g_vfs_root := x\<rparr>) = wiring v" "wiring (v\<lparr>strtok_last := x\<rparr>) = wiring v"
  "wiring (v\<lparr>mem := m\<rparr>) = wiring v" "wiring (upd_vn a f v) = wiring v"
  by (simp_all add: wiring_def upd_vn_def)

lemma wiring_heap [simp]:
  "wiring (upd_maj a f s) = wiring s" "wiring (upd_min a h s) = wiring s" "wiring (liballoc_unlock s) = wiring s"
  "wiring (s\<lparr>mem := m\<rparr>) = wiring s" "wiring (bad_magic a s) = wiring s" "wiring (unlink_minor a c s) = wiring s" "wiring (update_best_bet a s) = wiring s"
  for s :: "'a heap_state_scheme"
proof -
  show u: "wiring (upd_maj a f s) = wiring s" "wiring (upd_min a h s) = wiring s" "wiring (s\<lparr>mem := m\<rparr>) = wiring s" for f h a and s :: "'a heap_state_scheme"
    by (simp_all add: upd_maj_def upd_min_def wiring_def)
  show "wiring (liballoc_unlock s) = wiring s" "wiring (bad_magic a s) = wiring s" "wiring (update_best_bet a s) = wiring s"
    by (simp_all add: liballoc_unlock_def bad_magic_def update_best_bet_def Let_def)
  show "wiring (unlink_minor a c s) = wiring s" by (simp add: unlink_minor_def u Let_def)
qed

lemma wiring_lock: "liballoc_lock s = Some t \<Longrightarrow> wiring t = wiring s"
  by (auto simp: liballoc_lock_def)

lemma wiring_new_page: "allocate_new_page sz s = Some (maj, t) \<Longrightarrow> wiring t = wiring s"
  by (auto simp: allocate_new_page_def liballoc_alloc_def bind_eq_Some_conv Let_def dest!: vma_alloc_more wiring_more split: if_splits)

lemma wiring_extend: "extend_major maj sz s = Some (new, t) \<Longrightarrow> wiring t = wiring s"
  by (auto simp: extend_major_def bind_eq_Some_conv Let_def dest!: wiring_new_page split: if_splits)

lemma wiring_finish: "finish_minor maj m sz s = (p, t) \<Longrightarrow> wiring t = wiring s"
  by (auto simp: finish_minor_def ALIGN_ptr_def Let_def)

lemma wiring_place: "place_in_major maj req_size sz s = Some (Some (p, t)) \<Longrightarrow> wiring t = wiring s"
  by (auto simp: place_in_major_def place_empty_def place_front_def place_last_def place_between_def bind_eq_Some_conv Let_def
    dest!: wiring_finish split: if_splits)

lemma wiring_kmalloc_loop: "kmalloc_loop req_size sz maj startedBet bestSize s = Some y \<Longrightarrow> wiring (snd y) = wiring s"
proof (erule kmalloc_loop.raw_induct [rotated])
  fix f req_size sz maj startedBet bestSize y and s :: "'a heap_state_scheme"
  assume IH: "\<And>req_size sz maj startedBet bestSize (s :: 'a heap_state_scheme) y.
      f req_size sz maj startedBet bestSize s = Some y \<Longrightarrow> wiring (snd y) = wiring s"
    and run: "(if maj = NULL then Some (NULL, s)
      else do {
        let diff = major_room s maj;
        let s = (if bestSize < diff then s\<lparr>l_bestBet := maj\<rparr> else s);
        let bestSize = (if bestSize < diff then diff else bestSize);
        let full = (diff < sz + sizeof_minor);
        if full \<and> maj_next (majors s maj) \<noteq> NULL
        then f req_size sz (maj_next (majors s maj)) startedBet bestSize s
        else if full \<and> startedBet then f req_size sz (l_memRoot s) False bestSize s
        else do {
          (maj, s) \<leftarrow> (if full then extend_major maj sz s else Some (maj, s));
          if maj = NULL then Some (NULL, s)
          else do {
            placed \<leftarrow> place_in_major maj req_size sz s;
            if placed \<noteq> None then placed
            else if maj_next (majors s maj) \<noteq> NULL
            then f req_size sz (maj_next (majors s maj)) startedBet bestSize s
            else if startedBet then f req_size sz (l_memRoot s) False bestSize s
            else do {
              (new, s) \<leftarrow> extend_major maj sz s;
              f req_size sz new startedBet bestSize s
            }
          }
        }
      }) = Some y"
  obtain p t where y: "y = (p, t)" by fastforce
  show "wiring (snd y) = wiring s"
    using run unfolding y
    by (auto simp: bind_eq_Some_conv Let_def split: if_splits dest!: IH wiring_extend wiring_place)
qed

lemma wiring_kmalloc: "kmalloc k s = Some (p, t) \<Longrightarrow> wiring t = wiring s"
proof -
  have "wiring t = wiring s" if "kmalloc_sized r sz s = Some (p, t)" for r sz and s t :: "'a heap_state_scheme"
    using that by (auto simp: kmalloc_sized_def bind_eq_Some_conv Let_def split: if_splits dest!: wiring_kmalloc_loop wiring_new_page)
  then show "kmalloc k s = Some (p, t) \<Longrightarrow> wiring t = wiring s"
    by (auto simp: kmalloc_def bind_eq_Some_conv Let_def split: if_splits dest!: wiring_lock)
qed

lemma vma_release_more: "vma_release_pages c r i s = Some t \<Longrightarrow> vmm_state.more t = vmm_state.more s"
proof (erule vma_release_pages.raw_induct [rotated])
  fix f c r i t and s :: "'a vmm_state_scheme"
  assume IH: "\<And>c r i (s :: 'a vmm_state_scheme) t. f c r i s = Some t \<Longrightarrow> vmm_state.more t = vmm_state.more s"
    and run: "(if i < region_size s r
      then f c r (i + 1)
        (let virt = region_start s r + i * PAGE_SIZE;
             s = pmm_free_page (virt_to_phys (ctx_pagemap s c) virt s) s
         in vmm_unmap (ctx_pagemap s c) (region_start s r + i * PAGE_SIZE) s)
      else Some s) = Some t"
  have u: "vmm_state.more (vmm_unmap pm v u) = vmm_state.more u" for pm v and u :: "'a vmm_state_scheme"
    using vmm_unmap_rest [of pm v u] by (simp add: vmm_rest_def)
  have p: "vmm_state.more (pmm_free_page a u) = vmm_state.more u" for a and u :: "'a vmm_state_scheme"
    using pmm_more(2) [of a u] by (cases u, cases "pmm_free_page a u") simp
  show "vmm_state.more t = vmm_state.more s" using run by (auto simp: u p Let_def split: if_splits dest!: IH)
qed

lemma wiring_release: "liballoc_free a n s = Some t \<Longrightarrow> wiring t = wiring s"
proof -
  have w: "vmm_state.more v = vmm_state.more u \<Longrightarrow> wiring v = wiring u" for u v :: "'a heap_state_scheme"
    by (cases u, cases v) (simp add: wiring_def)
  have f: "wiring (set_field a v u) = wiring u" "wiring (pmm_free_page a u) = wiring u" for a v and u :: "'a heap_state_scheme"
    by (rule wiring_more, simp add: pmm_more)+
  show "liballoc_free a n s = Some t \<Longrightarrow> wiring t = wiring s"
    by (auto simp: liballoc_free_def vma_free_def bind_eq_Some_conv Let_def f split: if_splits dest!: vma_release_more w)
qed

lemma wiring_kfree: "kfree a s = Some t \<Longrightarrow> wiring t = wiring s"
  by (auto simp: kfree_def release_major_def bind_eq_Some_conv Let_def split: if_splits dest!: wiring_lock wiring_release)

lemma wiring_strdup: "strdup a s = Some (p, t) \<Longrightarrow> wiring t = wiring s"
  by (auto simp: strdup_def bind_eq_Some_conv split: if_splits dest!: wiring_kmalloc)

section \<open>The file system\<close>

lemma wiring_timestamp [simp]: "wiring (snd (get_rtc_timestamp s)) = wiring s"
  using rtc_timestamp_frame [of s] by (auto simp: wiring_def)

lemma wiring_vfs_init: "vfs_init lit s = Some (r, t) \<Longrightarrow> wiring t = wiring s"
  by (auto simp: vfs_init_def bind_eq_Some_conv Let_def split_beta split: if_splits dest!: wiring_kmalloc wiring_strdup)

lemma wiring_vfs_create: "vfs_create parent name ty perms nd s = Some (r, node, t) \<Longrightarrow> wiring t = wiring s"
  by (auto simp: vfs_create_def link_child_def bind_eq_Some_conv Let_def split_beta split: if_splits
    dest!: wiring_kmalloc wiring_strdup wiring_kfree)

lemma wiring_next_token: "next_token str delim s = Some (tok, t) \<Longrightarrow> wiring t = wiring s"
  by (auto simp: next_token_def bind_eq_Some_conv)

section \<open>The RAM disk\<close>

lemma wiring_walk: "walk_directories lit isd mode parent token s = Some y \<Longrightarrow> wiring (snd y) = wiring s"
proof (erule walk_directories.raw_induct [rotated])
  fix f lit isd mode parent token y and s :: "'a ramfs_state_scheme"
  assume IH: "\<And>lit isd mode parent token (s :: 'a ramfs_state_scheme) y. f lit isd mode parent token s = Some y \<Longrightarrow> wiring (snd y) = wiring s"
    and run: "(if token = NULL then Some (Some (parent, token), s)
      else do {
        subdir \<leftarrow> vfs_search_node parent token s;
        if subdir = NULL
        then if isd
             then do {
               (r, node, s) \<leftarrow> vfs_create parent token VNODE_DIRECTORY (ramfs_permissions mode) local_variable s;
               if r \<noteq> 0 \<or> node = None then Some (None, s)
               else do {
                 let subdir = the node;
                 let (time, s) = get_rtc_timestamp s;
                 let s = upd_vn subdir (\<lambda>v. v\<lparr>vn_creation_time := time\<rparr>) s;
                 (token, s) \<leftarrow> next_token NULL (lit ''/'') s;
                 f lit isd mode subdir token s
               }
             }
             else Some (Some (parent, token), s)
        else do {
          (token, s) \<leftarrow> next_token NULL (lit ''/'') s;
          f lit isd mode subdir token s
        }
      }) = Some y"
  show "wiring (snd y) = wiring s"
    using run by (auto simp: bind_eq_Some_conv Let_def split_beta split: if_splits
      dest!: IH wiring_vfs_create wiring_next_token)
qed

lemma wiring_create_file: "create_file lit header n mode parent token s = Some (ok, t) \<Longrightarrow> wiring t = wiring s"
  by (auto simp: create_file_def bind_eq_Some_conv Let_def split_beta split: if_splits
    dest!: wiring_vfs_create wiring_next_token)

lemma wiring_entry: "ramfs_entry lit parent header n isd mode name s = Some (ok, t) \<Longrightarrow> wiring t = wiring s"
  by (auto simp: ramfs_entry_def bind_eq_Some_conv Let_def split_beta split: if_splits
    dest!: wiring_walk wiring_create_file wiring_next_token)

lemma wiring_loop: "ramfs_loop lit parent offset s = Some y \<Longrightarrow> wiring (snd y) = wiring s"
proof (erule ramfs_loop.raw_induct [rotated])
  fix f lit parent offset y and s :: "'a ramfs_state_scheme"
  assume IH: "\<And>lit parent offset (s :: 'a ramfs_state_scheme) y. f lit parent offset s = Some y \<Longrightarrow> wiring (snd y) = wiring s"
    and run: "(if \<not> offset < ramfs_size s then Some (0, s)
      else do {
        let header = ramfs_data s + offset;
        if mem s header = 0 then Some (0, s)
        else do {
          (size_value, _) \<leftarrow> strtol (mem s) (header_size header) 8;
          let file_size = of_int size_value;
          let is_directory = (header_typeflag (mem s) header = 0x35);
          (mode_value, _) \<leftarrow> strtol (mem s) (header_mode header) 8;
          let mode = of_int mode_value;
          let name = (if strncmp (mem s) header (lit ''./'') 2 = 0 then header + 2 else header);
          len \<leftarrow> strlen (mem s) name;
          skip \<leftarrow> (if len = 0 then Some True else do { r \<leftarrow> strcmp (mem s) name (lit ''.''); Some (r = 0) });
          if skip then f lit parent (offset + ucast (entry_span file_size)) s
          else do {
            (ok, s) \<leftarrow> ramfs_entry lit parent header file_size is_directory mode name s;
            if ok then f lit parent (offset + ucast (entry_span file_size)) s else Some (1, s)
          }
        }
      }) = Some y"
  show "wiring (snd y) = wiring s"
    using run by (auto simp: bind_eq_Some_conv Let_def split_beta split: if_splits dest!: IH wiring_entry)
qed

lemma wiring_ramfs_init: "ramfs_init lit data sz s = Some (r, t) \<Longrightarrow> wiring t = wiring s"
proof -
  have "wiring (s\<lparr>ramfs_data := x, ramfs_size := z\<rparr>) = wiring s" for x z and s :: "'a ramfs_state_scheme" by (simp add: wiring_def)
  then show "ramfs_init lit data sz s = Some (r, t) \<Longrightarrow> wiring t = wiring s"
    by (auto simp: ramfs_init_def ramfs_parse_def Let_def split_beta split: if_splits dest!: wiring_loop)
qed

end
