(* ===== verification/BootFiles.thy ===== *)
theory BootFiles
  imports Boot Mount Wiring
begin

text \<open>
  The file system stage of the boot sequence (\<open>boot_files\<close>, the calls of \<open>vfs_init\<close> and \<open>ramfs_init\<close> in \<open>sys_entry\<close> of
  \<^verbatim>\<open>kernel/src/main.c\<close>) on the memory that the stages before it leave: the first node opens the kernel heap, and the archive of the
  boot loader's module is mounted. What the early stages do not touch is what the module and the literals need.
\<close>

section \<open>What the boot loader has put into memory\<close>

text \<open>
  The heap's first block is at 0x1000 and has 16 pages; memory that is neither there nor in a page of the page allocator is
  left alone until the archive is read. The module is a well-formed archive that lies there, as do the literals.
\<close>

definition left_alone :: "boot_info \<Rightarrow> u64 \<Rightarrow> bool" where
  "left_alone b x \<longleftrightarrow> unused_memory b x \<and> \<not> (0x1000 \<le> unat x \<and> unat x < 0x11000)"

abbreviation (input) in_module :: "boot_info \<Rightarrow> u64 \<Rightarrow> bool" where
  "in_module b x \<equiv> in_range (module_address b) (unat (module_size b)) x"

definition literal_given :: "boot_info \<Rightarrow> memory \<Rightarrow> string \<Rightarrow> u8 list \<Rightarrow> bool" where
  "literal_given b m l cs \<longleftrightarrow> string_at m (\<lambda>x. left_alone b x \<and> \<not> in_module b x) (literals b l) cs"

definition files_given :: "boot_info \<Rightarrow> memory \<Rightarrow> tar_entry list \<Rightarrow> bool" where
  "files_given b m es \<longleftrightarrow>
     archive m (module_address b) (unat (module_size b)) 0 es \<and> loadable {[]} es \<and> room es \<le> 65270 \<and>
     module_size b \<noteq> 0 \<and> 0 < unat (module_address b) \<and> unat (module_address b) + unat (module_size b) < 2 ^ 64 \<and>
     (\<forall>x. in_module b x \<longrightarrow> left_alone b x) \<and>
     literal_given b m ''/'' [0x2F] \<and> literal_given b m ''./'' [0x2E, 0x2F] \<and> literal_given b m ''.'' [0x2E]"

section \<open>The stage\<close>

text \<open>The heap after its first allocation, of \<open>sizeof (vnode_t)\<close> bytes, in the block at 0x1000.\<close>

abbreviation (input) first_heap :: heap_view where
  "first_heap \<equiv> [(0x1000, 0x11000, [(0x1028, 152)])]"

lemma first_node:
  fixes t :: "'a boot_state_scheme"
  assumes ready: "memory_ready b t root" and room: "5 \<le> length (free_pages t)"
    and heap: "l_memRoot t = NULL" "l_bestBet t = NULL" "\<not> liballoc_lock_var t"
    and left: "\<forall>x. unused_memory b x \<longrightarrow> untouched t (kernel_pagemap t) x \<and> \<not> in_range root 4096 x"
  shows "\<exists>p u. kmalloc 80 t = Some (p, u) \<and> p \<noteq> NULL \<and> heap_inv u first_heap 65344 \<and> heap_ptr first_heap (mem u) p 80 \<and>
    (\<forall>x. left_alone b x \<longrightarrow> mem u x = mem t x)"
proof -
  have ne: "free_pages t \<noteq> []" using room by (auto simp del: length_free_pages)
  have r: "region_room t (kernel_pagemap t) (kernel_vma_context t) [root] 16 root" "0x1000 = region_end t root"
    using ready room ne by (simp_all add: region_room_def memory_ready_def del: length_free_pages)
  from kmalloc_opens_heap [OF heap r(1) _ r(2), where k = 80 and g = first_heap]
  obtain p u where "kmalloc 80 t = Some (p, u)" "p \<noteq> NULL" "heap_inv u first_heap 65344" "heap_ptr first_heap (mem u) p 80"
    "\<forall>x. untouched t (kernel_pagemap t) x \<and> \<not> in_range root 4096 x \<and> \<not> (0x1000 \<le> unat x \<and> unat x < 0x11000) \<longrightarrow> mem u x = mem t x"
    by auto
  then show ?thesis using left unfolding left_alone_def by blast
qed

lemma left_alone_outside: "left_alone b x \<Longrightarrow> outside first_heap x" "left_alone b x \<Longrightarrow> heap_taken first_heap x"
  by (auto simp: left_alone_def outside_def intro!: outside_taken)

text \<open>The disk as the parser expects it, in the heap with the first node.\<close>

lemma files_disk_ok:
  assumes given: "files_given b m es" and inv: "heap_inv u first_heap n" and same: "\<forall>x. left_alone b x \<longrightarrow> mem u x = m x"
  shows "disk_ok (literals b) (u\<lparr>ramfs_data := module_address b, ramfs_size := module_size b\<rparr>) first_heap n"
    and "archive (mem u) (module_address b) (unat (module_size b)) 0 es"
proof -
  let ?u = "u\<lparr>ramfs_data := module_address b, ramfs_size := module_size b\<rparr>"
  have d: "in_disk ?u = in_module b" by (simp add: in_disk_def fun_eq_iff)
  have lit: "string_at (mem ?u) (\<lambda>x. heap_taken first_heap x \<and> \<not> in_disk ?u x) (literals b l) cs" if "literal_given b m l cs" for l cs
    unfolding d by (rule string_at_kept [OF that [unfolded literal_given_def]]) (use same left_alone_outside(2) in \<open>auto simp: kept_def\<close>)
  have "heap_inv ?u first_heap n" using inv heap_inv_cong [of u ?u first_heap n] by simp
  then show "disk_ok (literals b) ?u first_heap n"
    using given lit left_alone_outside(1) [of b] unfolding disk_ok_def d files_given_def by simp
  show "archive (mem u) (module_address b) (unat (module_size b)) 0 es"
  proof (rule archive_cong)
    show "archive m (module_address b) (unat (module_size b)) 0 es" "unat (module_address b) + unat (module_size b) < 2 ^ 64"
      using given unfolding files_given_def by blast+
    have "\<forall>x. in_module b x \<longrightarrow> left_alone b x" using given unfolding files_given_def by blast
    then show "mem u x = m x" if "in_range (module_address b + of_nat 0) (unat (module_size b) - 0) x" for x
      using that same by simp
  qed simp
qed

section \<open>The archive is mounted\<close>

text \<open>
  The paths that exist are the root and those of the entries; the node at the path of an entry has the attributes of the entry and
  the contents that the entry had in the memory \<open>m\<close>.
\<close>

definition mounted :: "memory \<Rightarrow> u64 \<Rightarrow> tar_entry list \<Rightarrow> (u8 list list \<Rightarrow> u64) \<Rightarrow> 'a ramfs_state_scheme \<Rightarrow> bool" where
  "mounted m data es G t \<longleftrightarrow> (\<forall>p. G p \<noteq> NULL \<longleftrightarrow> p = [] \<or> p \<in> te_path ` set es) \<and>
     (\<forall>(ofs, e) \<in> set (placed 0 es). te_path e \<noteq> [] \<longrightarrow> stands_for m t (data + of_nat ofs) e (G (te_path e)))"

lemma boot_files_goes_on:
  fixes t :: "'a boot_state_scheme"
  assumes given: "files_given b m es"
    and ready: "memory_ready b t root" and room: "5 \<le> length (free_pages t)"
    and heap: "l_memRoot t = NULL" "l_bestBet t = NULL" "\<not> liballoc_lock_var t"
    and left: "\<forall>x. unused_memory b x \<longrightarrow> untouched t (kernel_pagemap t) x \<and> \<not> in_range root 4096 x \<and> mem t x = m x"
  shows "\<exists>u g G. boot_files b t = Goes_on u \<and> heap_inv u g (65270 - room es) \<and> vfs_paths u g G \<and> mounted m (module_address b) es G u"
proof -
  obtain p v where v: "kmalloc 80 t = Some (p, v)" "p \<noteq> NULL" "heap_inv v first_heap 65344" "heap_ptr first_heap (mem v) p 80"
    "\<forall>x. left_alone b x \<longrightarrow> mem v x = mem t x" using first_node [OF ready room heap] left by blast
  have same: "\<forall>x. left_alone b x \<longrightarrow> mem v x = m x" using v(5) left by (simp add: left_alone_def)
  note d = files_disk_ok [OF given v(3) same]
  have g: "module_size b \<noteq> 0" "loadable {[]} es" "74 + room es \<le> 65344" "unat (module_address b) + unat (module_size b) < 2 ^ 64"
    "archive m (module_address b) (unat (module_size b)) 0 es" "\<And>x. in_module b x \<Longrightarrow> left_alone b x"
    using given by (auto simp: files_given_def)
  have n: "65344 - (74 + room es) = 65270 - room es" by simp
  obtain s1 u h G where u: "vfs_init (literals b) t = Some (0, s1)" "ramfs_init (literals b) (module_address b) (module_size b) s1 = Some (0, u)"
    "disk_ok (literals b) u h (65270 - room es)" "vfs_paths u h G" "\<forall>p. G p \<noteq> NULL \<longleftrightarrow> p = [] \<or> p \<in> te_path ` set es"
    "\<forall>(ofs, e) \<in> set (placed 0 es). te_path e \<noteq> [] \<longrightarrow> stands_for (mem v) u (module_address b + of_nat ofs) e (G (te_path e))"
    using mount_after_first [OF v(1,2,4) d g(1-3)] unfolding n by (elim exE conjE) (rule that; assumption)
  have "boot_files b t = Goes_on u" using u(1,2) by (simp add: boot_files_def halt_if_def)
  moreover have "heap_inv u h (65270 - room es)" using u(3) by (simp add: disk_ok_def)
  moreover have "stands_for m u (module_address b + of_nat ofs) e (G (te_path e))"
    if e: "(ofs, e) \<in> set (placed 0 es)" "te_path e \<noteq> []" for ofs e
  proof -
    have "stands_for (mem v) u (module_address b + of_nat ofs) e (G (te_path e))" using u(6) e by auto
    then show ?thesis by (rule stands_for_archive [OF g(5) e(1) g(4)]) (use same g(6) in blast)
  qed
  ultimately show ?thesis using u(4,5) unfolding mounted_def by blast
qed

lemma boot_files_wiring: "boot_files b s = Goes_on t \<Longrightarrow> wiring t = wiring s"
  by (auto simp: boot_files_def halt_if_def Let_def split: option.splits if_splits dest!: wiring_vfs_init wiring_ramfs_init)

text \<open>The device stage leaves memory, the heap and the file system alone.\<close>

definition files_vars :: "'a vfs_state_scheme \<Rightarrow> memory \<times> (u64 \<Rightarrow> liballoc_major) \<times> (u64 \<Rightarrow> liballoc_minor) \<times> u64 \<times> u64 \<times> spinlock_t \<times> (u64 \<Rightarrow> vnode) \<times> u64" where
  "files_vars s = (mem s, majors s, minors s, l_memRoot s, l_bestBet s, liballoc_lock_var s, vnodes s, g_vfs_root s)"

lemma files_vars_io [simp]:
  "files_vars (outb p v s) = files_vars s" "files_vars (pic_unmask i s) = files_vars s"
proof -
  show o: "files_vars (outb p v s) = files_vars s" for p v and s :: "'a vfs_state_scheme" by (simp add: files_vars_def outb_def)
  show "files_vars (pic_unmask i s) = files_vars s"
    by (simp add: pic_unmask_def pic_set_mask_def o io_wait_def Let_def) (simp add: files_vars_def)
qed

lemma files_vars_update [simp]:
  "files_vars (s\<lparr>devices := d\<rparr>) = files_vars s" "files_vars (s\<lparr>handle_mem := h\<rparr>) = files_vars s"
  "files_vars (s\<lparr>irq_handlers := q\<rparr>) = files_vars s"
  by (simp_all add: files_vars_def)

lemma devices_keep_files: "files_vars (boot_devices_init b s) = files_vars s"
proof -
  have "files_vars (snd (device_register d s)) = files_vars s" "files_vars (stdout_init d s) = files_vars s" "files_vars (stdin_init d s) = files_vars s"
    "files_vars (idt_irq_register i f s) = files_vars s" "files_vars (scheduler_init s) = files_vars s" for d i f and s :: "'a boot_state_scheme"
    by (simp_all add: device_register_def stdout_init_def stdin_init_def idt_irq_register_def scheduler_init_def files_vars_def Let_def)
  then show ?thesis by (simp add: boot_devices_init_def timer_init_def Let_def split_beta)
qed

lemma mounted_cong:
  assumes "files_vars t = files_vars s"
  shows "heap_inv t g n = heap_inv s g n" and "vfs_paths s g G \<Longrightarrow> vfs_paths t g G" and "mounted m data es G t = mounted m data es G s"
proof -
  have v: "mem t = mem s" "majors t = majors s" "minors t = minors s" "l_memRoot t = l_memRoot s" "l_bestBet t = l_bestBet s"
    "liballoc_lock_var t = liballoc_lock_var s" "vnodes t = vnodes s" "g_vfs_root t = g_vfs_root s"
    using assms by (simp_all add: files_vars_def)
  show "heap_inv t g n = heap_inv s g n" by (rule heap_inv_cong) (simp_all add: v)
  show "vfs_paths t g G" if "vfs_paths s g G" using vfs_paths_links [OF that same_links_vnodes [OF v(7)] v(8)] v(1) by simp
  show "mounted m data es G t = mounted m data es G s" by (simp add: mounted_def stands_for_def v)
qed

section \<open>Properties\<close>


text \<open>A machine whose boot loader provides an archive with the root directory and a file \<open>f\<close>.\<close>

definition disk_boot :: boot_info where
  "disk_boot = ram_boot\<lparr>module_address := 0x20000, module_size := 1536, literals := disk_lit\<rparr>"

definition disk_memory :: memory where
  "disk_memory = (\<lambda>_. 0)
     (0x10 := 0x2F, 0x20 := 0x2E, 0x21 := 0x2F, 0x30 := 0x2E,
      0x20000 := 0x2E, 0x20001 := 0x2F, 0x20064 := 0x37, 0x2007C := 0x30, 0x2009C := 0x35,
      0x20200 := 0x2E, 0x20201 := 0x2F, 0x20202 := 0x66, 0x20264 := 0x34, 0x20265 := 0x30, 0x20266 := 0x30, 0x2027C := 0x32, 0x2029C := 0x30,
      0x20400 := 0x68, 0x20401 := 0x69)"

lemma disk_boot_left: "unat x < 0x1000 \<or> 0x11000 \<le> unat x \<and> unat x < 2 ^ 32 \<Longrightarrow> left_alone disk_boot x"
proof -
  assume x: "unat x < 0x1000 \<or> 0x11000 \<le> unat x \<and> unat x < 2 ^ 32"
  have "\<not> in_range (p + 0xFFFF800000000000) 4096 x" if p: "p \<in> set (memmap_pages 0 ram_memmap)" for p
  proof -
    obtain k where k: "k < 8192" "unat p = 0x100000 + 4096 * k" using p ram_page by blast
    have "unat (p + 0xFFFF800000000000) = unat p + 0xFFFF800000000000" using k by (simp add: unat_word_ariths)
    moreover have "unat x < 2 ^ 32" using x by auto
    ultimately show ?thesis using k by (simp add: in_range_nat)
  qed
  then show ?thesis using x by (auto simp: left_alone_def unused_memory_def disk_boot_def ram_boot_def)
qed

lemma disk_boot_files: "files_given disk_boot disk_memory disk_entries"
proof -
  have "archive disk_memory 0x20000 1536 0 disk_entries"
    using disk_entries_eval
    by (simp add: header_at_def octal_field_def te_rest_def disk_memory_def valid_digit_def strtol_digit_def tokens.simps)
  moreover have "left_alone disk_boot x" if "in_range 0x20000 1536 x" for x using that by (intro disk_boot_left) (simp add: in_range_nat)
  moreover have "literal_given disk_boot disk_memory l cs" if c: "cstr disk_memory (disk_lit l) cs" "unat (disk_lit l) + length cs < 0x1000" for l cs
    unfolding literal_given_def string_at_def
  proof (intro conjI allI impI)
    fix x
    assume "in_range (literals disk_boot l) (Suc (length cs)) x"
    then have x: "unat x < 0x1000" using c(2) by (simp add: in_range_nat disk_boot_def)
    then show "left_alone disk_boot x" by (intro disk_boot_left) simp
    show "\<not> in_module disk_boot x" using x by (simp add: in_range_nat disk_boot_def)
  qed (use c in \<open>simp_all add: disk_boot_def\<close>)
  ultimately show ?thesis using disk_fs_loads by (simp add: files_given_def disk_boot_def disk_memory_def)
qed


end
