(* ===== verification/Spec2Isabelle.thy ===== *)
theory Spec2Isabelle
  imports Prelude Machine CString Pic Rtc Spinlock Console Pmm Vmm VmmInit Vma SelfTest Elf Descriptors Scheduler Manager Devices Timer
    Interrupts UserProgram Heap Alloc Vfs VfsTree VfsFile Hvfs Ramfs RamfsLoad Mount Picture Process Boot
    Wiring BootFiles
begin

text \<open>
  \<^bold>\<open>Verification of the Nekonix kernel.\<close>

  Nekonix is a small x86-64 kernel in C (\<^verbatim>\<open>kernel/\<close>), with a minimal C library (\<^verbatim>\<open>libc/\<close>) and one
  user program (\<^verbatim>\<open>sysroot/init\<close>). The boot loader (Limine) hands it a memory map, a direct map of
  physical memory, a frame buffer and a RAM disk; \<open>sys_entry\<close> initialises the parts below in
  order and starts the first process, after which everything happens in interrupts.

  \<^bold>\<open>The program's parts and where they are modelled\<close>

  \<^item> \<open>Prelude\<close>: C integers as words, byte memory with little-endian loads and stores, address
    ranges and pages, and the locale \<open>invariant_system\<close> (a start predicate, a step relation and
    an invariant) that the state machines below interpret.
  \<^item> \<open>Machine\<close>: the hardware state (memory, direct-map offset, interrupt flag, port trace) and the port
    primitives of \<^verbatim>\<open>dev/serial.c\<close>.
  \<^item> \<open>CString\<close>: \<^verbatim>\<open>lib/string.c\<close> on byte memory; \<open>strdup\<close> and \<open>strndup\<close> are in \<open>Vfs\<close>, over the heap.
  \<^item> \<open>Pic\<close>, \<open>Rtc\<close>, \<open>Spinlock\<close>, \<open>Console\<close>: the interrupt controllers (\<^verbatim>\<open>sys/pic.c\<close>), the clock
    (\<^verbatim>\<open>dev/rtc.c\<close>), the lock of \<^verbatim>\<open>lib/types.h\<close>, and serial and console output (\<^verbatim>\<open>dev/serial_util.c\<close>,
    \<^verbatim>\<open>lib/stdio.c\<close>, the output callbacks of \<^verbatim>\<open>main.c\<close>).
  \<^item> \<open>Pmm\<close>: the physical page allocator (\<^verbatim>\<open>mm/pmm.c\<close>): a stack of free pages kept in memory.
  \<^item> \<open>Vmm\<close>, \<open>VmmInit\<close>: the page-table code (\<^verbatim>\<open>mm/vmm.c\<close>): four-level tables kept in memory, and the
    kernel's own page map, with the number of tables it takes.
  \<^item> \<open>Vma\<close>: the region allocator (\<^verbatim>\<open>mm/vma.c\<close>): contexts and a doubly linked list of regions, each structure in a page of its own.
  \<^item> \<open>Heap\<close>, \<open>Alloc\<close>: the heap (\<^verbatim>\<open>mm/liballoc\<close>): blocks taken from the region allocator, allocations in each block in the order of
    their addresses; \<open>Alloc\<close> abstracts it to a set of taken ranges for the clients.
  \<^item> \<open>Elf\<close>: the program loader (\<^verbatim>\<open>proc/elf.c\<close>), which reads the image in memory and maps its segments.
  \<^item> \<open>Vfs\<close>, \<open>VfsTree\<close>, \<open>VfsFile\<close>: the vnode tree (\<^verbatim>\<open>dev/vfs.c\<close>): operations, the tree as a map from paths to nodes, file contents.
  \<^item> \<open>Hvfs\<close>: file handles and permissions (\<^verbatim>\<open>dev/hvfs.c\<close>).
  \<^item> \<open>Ramfs\<close>, \<open>RamfsLoad\<close>, \<open>Mount\<close>: the parser of the boot archive (\<^verbatim>\<open>fs/ramfs.c\<close>), what one entry does to the tree, and the
    whole archive.
  \<^item> \<open>Picture\<close>: pixels and the image decoder of \<^verbatim>\<open>main.c\<close> and \<^verbatim>\<open>lib/seif.h\<close>.
  \<^item> \<open>Descriptors\<close>: segment and interrupt descriptor tables, the interrupt frame, registration of
    IRQ handlers, halting (\<^verbatim>\<open>sys/gdt.c\<close>, \<^verbatim>\<open>sys/idt.c\<close>, \<^verbatim>\<open>sys/cpu.c\<close>).
  \<^item> \<open>Scheduler\<close>, \<open>Process\<close>: processes and the round-robin switch (\<^verbatim>\<open>proc/scheduler.c\<close>), and the start of a program from its file.
  \<^item> \<open>Manager\<close>, \<open>Devices\<close>, \<open>Timer\<close>: the device table (\<^verbatim>\<open>proc/manager.c\<close>), keyboard and screen
    (\<^verbatim>\<open>devices/stdin.c\<close>, \<^verbatim>\<open>devices/stdout.c\<close>) and the timer of \<^verbatim>\<open>main.c\<close>.
  \<^item> \<open>Interrupts\<close>: the system call handler (\<^verbatim>\<open>sys/syscall.c\<close>), the dispatcher \<open>idt_handler\<close> and the C
    library's system call stubs (\<^verbatim>\<open>libc/src/syscall.c\<close>).
  \<^item> \<open>UserProgram\<close>: \<open>printf\<close> of the C library (\<^verbatim>\<open>libc/src/stdio.c\<close>) and the program \<^verbatim>\<open>sysroot/init/main.c\<close>.
  \<^item> \<open>SelfTest\<close>, \<open>Boot\<close>: the self tests and the entry point \<open>sys_entry\<close> of \<^verbatim>\<open>main.c\<close>, stage by stage. \<open>Wiring\<close> shows
    that heap and file system keep the device table, and \<open>BootFiles\<close> puts the stages together.

  \<^bold>\<open>How state and operations correspond to the code\<close>

  Each component extends the record \<open>machine\<close> by its own global variables, in the order \<open>pic_state\<close>, \<open>rtc_state\<close>, \<open>console_state\<close>,
  \<open>pmm_state\<close>, \<open>vmm_state\<close>, \<open>desc_state\<close>, \<open>sched_state\<close>, \<open>manager_state\<close>, \<open>device_state\<close>, \<open>heap_state\<close>, \<open>vfs_state\<close>,
  \<open>file_state\<close>, \<open>ramfs_state\<close>, \<open>boot_state\<close>, so that an operation of one component applies unchanged to the state of a later one.
  An operation is a function from the state to its result and the new state, with the source's
  name; C's early returns and conditions are its branches, in the source's order. Raw memory is one function
  from 64-bit addresses to bytes, and the code's pointers are addresses in it: strings, the stack of free pages,
  page tables, region structures, file contents, archives and program images live there. Process structures, device handles, heap headers,
  vnodes and file handles are kept in stores indexed by the same pointers,
  one record per structure. Not returning is None (\<open>Hangs\<close> in \<open>Boot\<close>); undefined behaviour that the code can run into (an array
  read out of bounds, a call through NULL) is a value of \<open>outcome\<close>. Log output
  (the macros \<open>INFO\<close>, \<open>ERROR\<close> and so on of \<^verbatim>\<open>boot/nnix.h\<close>) is left out everywhere: it goes to the console only.

  \<^bold>\<open>Interfaces\<close>

  \<^item> \<open>page_allocator\<close> (in \<open>Pmm\<close>): request and release of frames against an abstract list of free
    frames; interpreted by \<open>pmm_request_page\<close> and \<open>pmm_free_page\<close>. Ownership (no frame is handed out twice)
    is proved once in it.
  \<^item> \<open>address_space\<close> (in \<open>Vmm\<close>): what a translation returns after mapping and unmapping;
    interpreted by \<open>vmm_map\<close>, \<open>vmm_unmap\<close> and \<open>virt_to_phys\<close>. The mapping of regions rests on it.
  \<^item> \<open>device_table\<close> (in \<open>Manager\<close>): registration and lookup; interpreted by the device manager.
  \<^item> \<open>allocator\<close> (in \<open>Alloc\<close>): allocation and release of memory against the set of taken ranges; interpreted by \<open>kmalloc\<close> and \<open>kfree\<close>. The file
    system, the file handles and the parser use the heap only through it.
  \<^item> \<open>path_store\<close> (in \<open>VfsTree\<close>): creation, removal and lookup against a map from paths to nodes; interpreted by the vnode tree.
  \<^item> \<open>invariant_system\<close>: interpreted by the interrupt controller, the lock, the page pool and the scheduler.

  \<^bold>\<open>What the theorems show\<close>

  \<^item> Memory: the page allocator refines a list of pages, starts in its invariant, and shares no page over any interleaving of its
    clients. Mapping and unmapping change one translation and nothing outside the tables; the kernel's page map is exactly the
    intended one, a new page map shares the kernel half. A region is mapped page by page to frames of its own and its release restores the
    context. The heap returns aligned ranges that overlap nothing, and releasing restores it.
  \<^item> Files: creation and removal of nodes refine updates of a map from paths to nodes and lookup reads it; what is written is read; handles guard
    by permission; a mounted archive gives the tree exactly its entries, and a file of it reads back byte for byte.
  \<^item> Programs: a loaded image has every loadable page in a frame of its own, a program file becomes a ready process, the
    scheduler rotates fairly within its table and gives every process back the frame it was interrupted at.
  \<^item> Devices and boot: a key that is pressed appears on the screen through interrupt, system call and C library; the boot sequence, given what it
    needs, brings up memory, mounts the archive in a heap that starts empty, wires the devices and starts the first process; it halts only for the six causes its checks name, and the timer wakes who sleeps.
  \<^item> Leaf routines: string functions, lock, clock, interrupt mask, console, image decoder.
  \<^item> Flaws: a group of theorems states where the code does not do what it means to, among them heap blocks that are mapped in their first
    page only and so lie on low physical memory, regions that overlap, what exit frees and what it does to the next
    process, exhausted memory in page-table code, the lost answer of poll, out-of-bounds accesses, and an archive on which the parser never ends.

  \<^bold>\<open>Bounds\<close>

  No fuel is used: loops are structurally recursive on a count or a list, or partial functions whose return is
  proved or refuted where the code does not return (\<open>pmm_dump_down\<close>, \<open>spin_while_locked\<close>, \<open>ramfs_loop\<close>). \<open>vmm_map\<close> is given three free pages, the most it can need; a
  region four per page and one for its structure; the kernel's page map one for each table of its sections and 4113 more, so that the boot theorem asks for
  about 16 MiB; the RAM disk 226 bytes of heap for an entry, the most a node with its name and their headers take.

  \<^bold>\<open>What is not modelled\<close>

  Third-party code (the formatter nanoprintf, the terminal flanterm, the boot protocol of Limine) is not part of the repository and appears as
  arguments. Assembly (the interrupt entry, \<^verbatim>\<open>crt0.asm\<close>) appears through the frame and the registers
  it passes. Functions that only print (\<open>liballoc_dump\<close>, \<open>_backtrace\<close>) are left out with the log output. The memory the processor sees through \<open>cr3\<close> is modelled
  where the code depends on it (the self test of the region allocator); otherwise an address is used as the model's memory has it, so that the effect
  of two mappings of one frame is stated as a fact about translations: the boot theorem holds for machines on which nobody else uses the physical pages under the heap's first
  block, which the code does not ensure (a theorem of \<open>Boot\<close> says which pages these are). Interrupts arrive between the steps of a program,
  not inside a step of the kernel.
\<close>

end
